(* ===== verification/Rust_Prelude.thy ===== *)
theory Rust_Prelude
  imports Main "HOL-Library.Word" "HOL-Library.Monad_Syntax"
begin

text \<open>
  The prelude of the development: Rust's machine integers with their checked, saturating
  and wrapping operations, the result type, and a contract for transition systems.

  \<^item> \<open>usize\<close> is 64 bits wide, the width of every target the validator ships for.
  \<^item> A plain \<open>+\<close> or \<open>-\<close> of the source is word addition or subtraction: the release
    profile of the workspace (\<^verbatim>\<open>Cargo.toml\<close>) does not turn overflow checks on.
  \<^item> A panic (\<open>unwrap\<close> on \<open>None\<close>, \<open>assert!\<close>, \<open>unreachable!\<close>) is \<open>None\<close> of the
    operation's result; a \<open>Result\<close> is \<open>'e + 'a\<close> with \<open>Inl\<close> for \<open>Err\<close>.
  The collection \<open>rust_arith\<close> reads every word operation through \<open>unat\<close>.
\<close>

section \<open>Machine integers\<close>

type_synonym u8 = "8 word"
type_synonym u16 = "16 word"
type_synonym u32 = "32 word"
type_synonym u64 = "64 word"
type_synonym usize = "64 word"

named_theorems rust_arith \<open>word operations of the source, read through unat\<close>

definition checked_add :: "'a::len word \<Rightarrow> 'a word \<Rightarrow> 'a word option" where
  "checked_add a b = (if unat a + unat b < 2 ^ LENGTH('a) then Some (a + b) else None)"

definition checked_sub :: "'a::len word \<Rightarrow> 'a word \<Rightarrow> 'a word option" where
  "checked_sub a b = (if b \<le> a then Some (a - b) else None)"

definition saturating_add :: "'a::len word \<Rightarrow> 'a word \<Rightarrow> 'a word" where
  "saturating_add a b = (if unat a + unat b < 2 ^ LENGTH('a) then a + b else - 1)"

definition saturating_sub :: "'a::len word \<Rightarrow> 'a word \<Rightarrow> 'a word" where
  "saturating_sub a b = (if b \<le> a then a - b else 0)"

definition saturating_mul :: "'a::len word \<Rightarrow> 'a word \<Rightarrow> 'a word" where
  "saturating_mul a b = (if unat a * unat b < 2 ^ LENGTH('a) then a * b else - 1)"

lemma unat_max_word: "unat (- 1 :: 'a::len word) = 2 ^ LENGTH('a) - 1"
  by (simp add: unsigned_minus_1_eq_mask mask_eq_exp_minus_1)

lemma unat_less_pow: "unat (w :: 'a::len word) < 2 ^ LENGTH('a)"
  by (rule unsigned_less)

lemma unat_add_no_wrap [rust_arith]:
  "unat a + unat b < 2 ^ LENGTH('a) \<Longrightarrow> unat (a + b :: 'a::len word) = unat a + unat b"
  by (simp add: unat_word_ariths)

lemma unat_sub_no_wrap [rust_arith]:
  "b \<le> a \<Longrightarrow> unat (a - b :: 'a::len word) = unat a - unat b"
  by (rule unat_sub)

lemma unat_saturating_add [rust_arith]:
  "unat (saturating_add a b :: 'a::len word) = min (unat a + unat b) (2 ^ LENGTH('a) - 1)"
proof (cases "unat a + unat b < 2 ^ LENGTH('a)")
  case True
  then show ?thesis by (simp add: saturating_add_def unat_add_no_wrap)
next
  case False
  then show ?thesis by (simp add: saturating_add_def unat_max_word)
qed

lemma unat_saturating_sub [rust_arith]:
  "unat (saturating_sub a b :: 'a::len word) = unat a - unat b"
proof (cases "b \<le> a")
  case True
  then show ?thesis by (simp add: saturating_sub_def unat_sub)
next
  case False
  then have "unat a - unat b = 0" by (simp add: word_le_nat_alt)
  with False show ?thesis by (simp add: saturating_sub_def)
qed

lemma unat_saturating_mul [rust_arith]:
  "unat (saturating_mul a b :: 'a::len word) = min (unat a * unat b) (2 ^ LENGTH('a) - 1)"
proof (cases "unat a * unat b < 2 ^ LENGTH('a)")
  case True
  then show ?thesis by (simp add: saturating_mul_def unat_word_ariths)
next
  case False
  then show ?thesis by (simp add: saturating_mul_def unat_max_word)
qed

lemma checked_add_Some:
  "checked_add a b = Some (c :: 'a::len word) \<Longrightarrow> unat c = unat a + unat b"
  by (auto simp: checked_add_def unat_add_no_wrap split: if_splits)

lemma checked_sub_Some:
  "checked_sub a b = Some (c :: 'a::len word) \<Longrightarrow> unat c = unat a - unat b \<and> b \<le> a"
  by (auto simp: checked_sub_def unat_sub split: if_splits)

lemma word_unat_eqI: "unat a = unat b \<Longrightarrow> a = (b :: 'a::len word)"
  by (rule unsigned_word_eqI)

lemma one_le_word: "c \<noteq> 0 \<Longrightarrow> (1 :: 'a::len word) \<le> c"
  by (simp add: word_le_nat_alt Suc_le_eq unat_gt_0)

lemma unat_of_nat_small: "n < 2 ^ LENGTH('a) \<Longrightarrow> unat (of_nat n :: 'a::len word) = n"
  by (simp add: unat_of_nat)

lemma unat_eq_one_iff: "unat (w :: 'a::len word) = 1 \<longleftrightarrow> w = 1"
  by (metis unat_1 unsigned_word_eqI)

lemma unat_eq_zero_iff: "unat (w :: 'a::len word) = 0 \<longleftrightarrow> w = 0"
  by (simp add: unat_eq_0)

lemma unat_ucast_small:
  "unat (w :: 'a::len word) < 2 ^ LENGTH('b) \<Longrightarrow> unat (ucast w :: 'b::len word) = unat w"
  by (simp add: unsigned_ucast_eq take_bit_nat_eq_self)

lemma of_nat_unat_id: "of_nat (unat w) = (w :: 'a::len word)"
  by simp

section \<open>Lists\<close>

lemma prefix_to_first:
  assumes "as @ bs = pre @ y # zs" and "y \<in> set as" and "y \<notin> set pre"
  shows "\<exists>vs. as = pre @ y # vs"
proof -
  from assms(1) consider us where "as = pre @ us" "us @ bs = y # zs"
    | us where "as @ us = pre"
    by (auto simp: append_eq_append_conv2)
  then show ?thesis
  proof cases
    case 1
    with assms(2,3) show ?thesis by (cases us) auto
  next
    case 2
    with assms(2,3) show ?thesis by auto
  qed
qed

lemma length_filter_distinct_key:
  "distinct (map f xs) \<Longrightarrow> x \<in> set xs \<Longrightarrow> Suc (length (filter (\<lambda>y. f y \<noteq> f x) xs)) = length xs"
proof (induction xs)
  case (Cons a xs)
  show ?case
  proof (cases "x = a")
    case True
    with Cons.prems have "filter (\<lambda>y. f y \<noteq> f a) xs = xs" by (auto simp: filter_id_conv image_iff)
    with True show ?thesis by simp
  next
    case False
    with Cons.prems have "f a \<noteq> f x" "x \<in> set xs" by (auto simp: image_iff)
    with Cons show ?thesis by simp
  qed
qed simp

lemma takeWhile_all: "list_all P xs \<Longrightarrow> takeWhile P xs = xs"
  by (induction xs) auto

lemma dropWhile_all: "list_all P xs \<Longrightarrow> dropWhile P xs = []"
  by (induction xs) auto

text \<open>The first index at which a predicate fails.\<close>

lemma takeWhile_upt:
  assumes "j < n" and "\<not> P j"
  shows "length (takeWhile P [0..<n]) < n" and "\<not> P (length (takeWhile P [0..<n]))"
    and "i < length (takeWhile P [0..<n]) \<Longrightarrow> P i"
proof -
  let ?k = "length (takeWhile P [0..<n])"
  have take: "takeWhile P [0..<n] = take ?k [0..<n]" by (rule takeWhile_eq_take)
  have P: "P i" if "i < ?k" for i
  proof -
    have "i < n" using that length_takeWhile_le [of P "[0..<n]"] by simp
    then have "takeWhile P [0..<n] ! i = i" using takeWhile_nth [OF that] by simp
    then show ?thesis using that set_takeWhileD [of i P "[0..<n]"] nth_mem [OF that] by simp
  qed
  then show "i < ?k \<Longrightarrow> P i" .
  show lt: "?k < n" using P assms length_takeWhile_le [of P "[0..<n]"] by (meson le_less_linear le_less_trans)
  show "\<not> P ?k" using nth_length_takeWhile [of P "[0..<n]"] lt by simp
qed

section \<open>Results\<close>

text \<open>\<open>rbind\<close> is the question mark operator: an error returns early.\<close>

primrec rbind :: "'e + 'a \<Rightarrow> ('a \<Rightarrow> 'e + 'b) \<Rightarrow> 'e + 'b" where
  "rbind (Inl e) f = Inl e"
| "rbind (Inr x) f = f x"

lemma rbind_eq_Inr: "rbind m f = Inr y \<longleftrightarrow> (\<exists>x. m = Inr x \<and> f x = Inr y)"
  by (cases m) auto

lemma rbind_eq_Inl: "rbind m f = Inl e \<longleftrightarrow> m = Inl e \<or> (\<exists>x. m = Inr x \<and> f x = Inl e)"
  by (cases m) auto

text \<open>A computation that may also panic: \<open>None\<close> is a panic, \<open>Some (Inl e)\<close> an error that is returned.\<close>

type_synonym ('e, 'a) outcome = "('e + 'a) option"

fun obind :: "('e, 'a) outcome \<Rightarrow> ('a \<Rightarrow> ('e, 'b) outcome) \<Rightarrow> ('e, 'b) outcome" where
  "obind None f = None"
| "obind (Some (Inl e)) f = Some (Inl e)"
| "obind (Some (Inr x)) f = f x"

lemma obind_eq_Inr: "obind m f = Some (Inr y) \<longleftrightarrow> (\<exists>x. m = Some (Inr x) \<and> f x = Some (Inr y))"
  by (cases "(m, f)" rule: obind.cases) auto

lemma obind_eq_None: "obind m f = None \<longleftrightarrow> m = None \<or> (\<exists>x. m = Some (Inr x) \<and> f x = None)"
  by (cases "(m, f)" rule: obind.cases) auto

section \<open>Transition systems\<close>

text \<open>
  The contract of a component that moves by steps: an initial condition, a step relation
  and a predicate that holds at the start and is kept by every step. Components with
  a step relation discharge it once and get the invariant of all reachable states.
\<close>

locale invariant_system =
  fixes init :: "'s \<Rightarrow> bool"
    and step :: "'s \<Rightarrow> 's \<Rightarrow> bool"
    and inv :: "'s \<Rightarrow> bool"
  assumes init_inv: "init s \<Longrightarrow> inv s"
    and step_inv: "inv s \<Longrightarrow> step s t \<Longrightarrow> inv t"
begin

lemma steps_inv: "step\<^sup>*\<^sup>* s t \<Longrightarrow> inv s \<Longrightarrow> inv t"
  by (induction rule: rtranclp_induct) (auto intro: step_inv)

lemma reachable_inv: "init s \<Longrightarrow> step\<^sup>*\<^sup>* s t \<Longrightarrow> inv t"
  by (blast intro: steps_inv init_inv)

end

end
