(* ===== verification/Unified_Scheduler.thy ===== *)
theory Unified_Scheduler
  imports Rust_Prelude
begin

text \<open>
  The unified scheduler's logic (\<^verbatim>\<open>unified-scheduler-logic/src/lib.rs\<close>): tasks lock the
  usage queues of their addresses, blocked tasks wait in first-in first-out order, and
  descheduling a task wakes the ones behind it.

  A \<open>TokenCell\<close> is a cell of a store that its token owns: the field \<open>count_token\<close> of
  the state machine holds the contents of all \<open>blocked_usage_count\<close> cells, by address,
  and \<open>usage_queue_token\<close> those of all usage queues. A task refers to its counter cell by
  address, a lock context to its usage queue by address. The transaction is opaque
  (type \<open>'tx\<close>), and so is the address of a usage queue (type \<open>'q\<close>).
\<close>

section \<open>ShortCounter\<close>

type_synonym short_counter = u32

definition sc_zero :: short_counter where
  "sc_zero = 0"

definition sc_one :: short_counter where
  "sc_one = 1"

definition sc_is_one :: "short_counter \<Rightarrow> bool" where
  "sc_is_one c \<longleftrightarrow> c = 1"

definition sc_is_zero :: "short_counter \<Rightarrow> bool" where
  "sc_is_zero c \<longleftrightarrow> c = 0"

definition sc_increment :: "short_counter \<Rightarrow> short_counter option" where
  "sc_increment c = checked_add c 1"

definition sc_decrement :: "short_counter \<Rightarrow> short_counter option" where
  "sc_decrement c = checked_sub c 1"

section \<open>Tasks and usage queues\<close>

datatype requested_usage = RequestedReadonly | RequestedWritable

datatype usage = Readonly short_counter | Writable

record 'q lock_context =
  usage_queue :: 'q
  requested_usage :: requested_usage

record ('tx, 'q) task_inner =
  transaction :: 'tx
  task_index :: usize
  lock_contexts :: "'q lock_context list"
  blocked_usage_count :: nat \<comment> \<open>address of the counter cell\<close>

type_synonym ('tx, 'q) usage_from_task = "requested_usage \<times> ('tx, 'q) task_inner"

record ('tx, 'q) usage_queue_inner =
  current_usage :: "usage option"
  blocked_usages_from_tasks :: "('tx, 'q) usage_from_task list"

definition usage_queue_default :: "('tx, 'q) usage_queue_inner" where
  "usage_queue_default = \<lparr>current_usage = None, blocked_usages_from_tasks = []\<rparr>"

datatype lock_result = LockOk | LockErr

fun usage_from :: "requested_usage \<Rightarrow> usage" where
  "usage_from RequestedReadonly = Readonly sc_one"
| "usage_from RequestedWritable = Writable"

definition set_blocked_usage_count ::
  "('tx, 'q) task_inner \<Rightarrow> (nat \<Rightarrow> short_counter) \<Rightarrow> short_counter \<Rightarrow> (nat \<Rightarrow> short_counter)" where
  "set_blocked_usage_count task token count = token(blocked_usage_count task := count)"

definition try_unblock ::
  "('tx, 'q) task_inner \<Rightarrow> (nat \<Rightarrow> short_counter)
     \<Rightarrow> (('tx, 'q) task_inner option \<times> (nat \<Rightarrow> short_counter)) option" where
  "try_unblock task token =
     (case sc_decrement (token (blocked_usage_count task)) of
        None \<Rightarrow> None
      | Some c \<Rightarrow> Some (if sc_is_zero c then Some task else None,
                        token(blocked_usage_count task := c)))"

definition try_lock ::
  "requested_usage \<Rightarrow> ('tx, 'q) usage_queue_inner
     \<Rightarrow> (lock_result \<times> ('tx, 'q) usage_queue_inner) option" where
  "try_lock requested uq =
     (case current_usage uq of
        None \<Rightarrow> Some (LockOk, uq\<lparr>current_usage := Some (usage_from requested)\<rparr>)
      | Some (Readonly count) \<Rightarrow>
          (case requested of
             RequestedReadonly \<Rightarrow>
               (case sc_increment count of
                  None \<Rightarrow> None
                | Some c \<Rightarrow> Some (LockOk, uq\<lparr>current_usage := Some (Readonly c)\<rparr>))
           | RequestedWritable \<Rightarrow> Some (LockErr, uq))
      | Some Writable \<Rightarrow> Some (LockErr, uq))"

text \<open>\<open>VecDeque::pop_front\<close>, on the blocked usages.\<close>

definition pop_front_blocked ::
  "('tx, 'q) usage_queue_inner \<Rightarrow> ('tx, 'q) usage_from_task option \<times> ('tx, 'q) usage_queue_inner" where
  "pop_front_blocked uq =
     (case blocked_usages_from_tasks uq of
        [] \<Rightarrow> (None, uq)
      | x # xs \<Rightarrow> (Some x, uq\<lparr>blocked_usages_from_tasks := xs\<rparr>))"

definition unlock ::
  "requested_usage \<Rightarrow> ('tx, 'q) usage_queue_inner
     \<Rightarrow> (('tx, 'q) usage_from_task option \<times> ('tx, 'q) usage_queue_inner) option" where
  "unlock requested uq =
     (case current_usage uq of
        Some (Readonly count) \<Rightarrow>
          (case requested of
             RequestedReadonly \<Rightarrow>
               if sc_is_one count
               then Some (pop_front_blocked (uq\<lparr>current_usage := None\<rparr>))
               else (case sc_decrement count of
                       None \<Rightarrow> None
                     | Some c \<Rightarrow> Some (None, uq\<lparr>current_usage := Some (Readonly c)\<rparr>))
           | RequestedWritable \<Rightarrow> None)
      | Some Writable \<Rightarrow>
          (case requested of
             RequestedWritable \<Rightarrow> Some (pop_front_blocked (uq\<lparr>current_usage := None\<rparr>))
           | RequestedReadonly \<Rightarrow> None)
      | None \<Rightarrow> None)"

definition push_blocked_usage_from_task ::
  "('tx, 'q) usage_from_task \<Rightarrow> ('tx, 'q) usage_queue_inner \<Rightarrow> ('tx, 'q) usage_queue_inner option" where
  "push_blocked_usage_from_task usage_from_task uq =
     (case current_usage uq of
        None \<Rightarrow> None
      | Some _ \<Rightarrow>
          Some (uq\<lparr>blocked_usages_from_tasks := blocked_usages_from_tasks uq @ [usage_from_task]\<rparr>))"

definition pop_unblocked_readonly_usage_from_task ::
  "('tx, 'q) usage_queue_inner
     \<Rightarrow> (('tx, 'q) usage_from_task option \<times> ('tx, 'q) usage_queue_inner) option" where
  "pop_unblocked_readonly_usage_from_task uq =
     (case blocked_usages_from_tasks uq of
        (RequestedReadonly, _) # _ \<Rightarrow>
          (case current_usage uq of
             Some (Readonly _) \<Rightarrow> Some (pop_front_blocked uq)
           | _ \<Rightarrow> None)
      | _ \<Rightarrow> Some (None, uq))"

definition has_no_blocked_usage :: "('tx, 'q) usage_queue_inner \<Rightarrow> bool" where
  "has_no_blocked_usage uq \<longleftrightarrow> blocked_usages_from_tasks uq = []"

section \<open>SchedulingStateMachine\<close>

record ('tx, 'q) scheduling_state_machine =
  unblocked_task_queue :: "('tx, 'q) task_inner list"
  active_task_count :: short_counter
  handled_task_count :: short_counter
  unblocked_task_count :: short_counter
  total_task_count :: short_counter
  count_token :: "nat \<Rightarrow> short_counter"
  usage_queue_token :: "'q \<Rightarrow> ('tx, 'q) usage_queue_inner"

definition has_no_active_task :: "('tx, 'q) scheduling_state_machine \<Rightarrow> bool" where
  "has_no_active_task s \<longleftrightarrow> sc_is_zero (active_task_count s)"

definition has_unblocked_task :: "('tx, 'q) scheduling_state_machine \<Rightarrow> bool" where
  "has_unblocked_task s \<longleftrightarrow> unblocked_task_queue s \<noteq> []"

definition exclusively_initialize_current_thread_for_scheduling ::
  "('tx, 'q) scheduling_state_machine" where
  "exclusively_initialize_current_thread_for_scheduling =
     \<lparr>unblocked_task_queue = [],
      active_task_count = sc_zero,
      handled_task_count = sc_zero,
      unblocked_task_count = sc_zero,
      total_task_count = sc_zero,
      count_token = (\<lambda>_. sc_zero),
      usage_queue_token = (\<lambda>_. usage_queue_default)\<rparr>"

text \<open>
  The body of the loop of \<open>try_lock_usage_queues\<close>: one lock context on its usage queue.
  The result counts the blocked usages so far.
\<close>

definition try_lock_context ::
  "('tx, 'q) task_inner \<Rightarrow> 'q lock_context \<Rightarrow> short_counter \<times> ('q \<Rightarrow> ('tx, 'q) usage_queue_inner)
     \<Rightarrow> (short_counter \<times> ('q \<Rightarrow> ('tx, 'q) usage_queue_inner)) option" where
  "try_lock_context task context = (\<lambda>(blocked_usage_count, queues).
     let uq = queues (usage_queue context) in
     do {
       (lock_result, uq) \<leftarrow>
         (if has_no_blocked_usage uq then try_lock (requested_usage context) uq
          else Some (LockErr, uq));
       case lock_result of
         LockOk \<Rightarrow> Some (blocked_usage_count, queues(usage_queue context := uq))
       | LockErr \<Rightarrow> do {
           c \<leftarrow> sc_increment blocked_usage_count;
           uq \<leftarrow> push_blocked_usage_from_task (requested_usage context, task) uq;
           Some (c, queues(usage_queue context := uq))
         }
     })"

fun try_lock_contexts ::
  "('tx, 'q) task_inner \<Rightarrow> 'q lock_context list
     \<Rightarrow> short_counter \<times> ('q \<Rightarrow> ('tx, 'q) usage_queue_inner)
     \<Rightarrow> (short_counter \<times> ('q \<Rightarrow> ('tx, 'q) usage_queue_inner)) option" where
  "try_lock_contexts task [] acc = Some acc"
| "try_lock_contexts task (context # contexts) acc =
     (case try_lock_context task context acc of
        None \<Rightarrow> None
      | Some acc' \<Rightarrow> try_lock_contexts task contexts acc')"

definition try_lock_usage_queues ::
  "('tx, 'q) task_inner \<Rightarrow> ('tx, 'q) scheduling_state_machine
     \<Rightarrow> (('tx, 'q) task_inner option \<times> ('tx, 'q) scheduling_state_machine) option" where
  "try_lock_usage_queues task s =
     (case try_lock_contexts task (lock_contexts task) (sc_zero, usage_queue_token s) of
        None \<Rightarrow> None
      | Some (blocked_count, queues) \<Rightarrow>
          if sc_is_zero blocked_count
          then Some (Some task, s\<lparr>usage_queue_token := queues\<rparr>)
          else Some (None, s\<lparr>usage_queue_token := queues,
                            count_token := set_blocked_usage_count task (count_token s) blocked_count\<rparr>))"

definition schedule_task ::
  "('tx, 'q) task_inner \<Rightarrow> ('tx, 'q) scheduling_state_machine
     \<Rightarrow> (('tx, 'q) task_inner option \<times> ('tx, 'q) scheduling_state_machine) option" where
  "schedule_task task s = do {
     total \<leftarrow> sc_increment (total_task_count s);
     active \<leftarrow> sc_increment (active_task_count s);
     try_lock_usage_queues task (s\<lparr>total_task_count := total, active_task_count := active\<rparr>)
   }"

definition schedule_next_unblocked_task ::
  "('tx, 'q) scheduling_state_machine
     \<Rightarrow> (('tx, 'q) task_inner option \<times> ('tx, 'q) scheduling_state_machine) option" where
  "schedule_next_unblocked_task s =
     (case unblocked_task_queue s of
        [] \<Rightarrow> Some (None, s)
      | task # rest \<Rightarrow> do {
          c \<leftarrow> sc_increment (unblocked_task_count s);
          Some (Some task, s\<lparr>unblocked_task_queue := rest, unblocked_task_count := c\<rparr>)
        })"

lemma try_lock_blocked:
  "try_lock u uq = Some (r, uq') \<Longrightarrow> blocked_usages_from_tasks uq' = blocked_usages_from_tasks uq"
  by (auto simp: try_lock_def split: option.splits usage.splits requested_usage.splits)

lemma pop_unblocked_readonly_length:
  "pop_unblocked_readonly_usage_from_task uq = Some (item, uq') \<Longrightarrow>
     length (blocked_usages_from_tasks uq') + (case item of None \<Rightarrow> 0 | Some _ \<Rightarrow> 1)
       = length (blocked_usages_from_tasks uq)"
  by (auto simp: pop_unblocked_readonly_usage_from_task_def pop_front_blocked_def
      split: option.splits usage.splits requested_usage.splits list.splits)

text \<open>
  The \<open>while let\<close> loop of \<open>unlock_usage_queues\<close>, from the usage popped last: the counter
  cells and the queue of unblocked tasks are threaded through. Every round consumes one
  blocked usage.
\<close>

function unblock_loop ::
  "('tx, 'q) usage_from_task option \<Rightarrow> ('tx, 'q) usage_queue_inner \<Rightarrow> (nat \<Rightarrow> short_counter)
     \<Rightarrow> ('tx, 'q) task_inner list
     \<Rightarrow> (('tx, 'q) usage_queue_inner \<times> (nat \<Rightarrow> short_counter) \<times> ('tx, 'q) task_inner list) option" where
  "unblock_loop None uq counts unblocked = Some (uq, counts, unblocked)"
| "unblock_loop (Some (requested, task)) uq counts unblocked =
     (case try_unblock task counts of
        None \<Rightarrow> None
      | Some (did_unblock, counts') \<Rightarrow>
          (let unblocked' = (case did_unblock of Some t \<Rightarrow> unblocked @ [t] | None \<Rightarrow> unblocked) in
           case try_lock requested uq of
             None \<Rightarrow> None
           | Some (LockErr, uq') \<Rightarrow> None
           | Some (LockOk, uq') \<Rightarrow>
               (case requested of
                  RequestedReadonly \<Rightarrow>
                    (case pop_unblocked_readonly_usage_from_task uq' of
                       None \<Rightarrow> None
                     | Some (item, uq'') \<Rightarrow> unblock_loop item uq'' counts' unblocked')
                | RequestedWritable \<Rightarrow> unblock_loop None uq' counts' unblocked')))"
  by pat_completeness auto
termination
  by (relation "measure (\<lambda>(item, uq, counts, unblocked).
        length (blocked_usages_from_tasks uq) + (case item of None \<Rightarrow> 0 | Some _ \<Rightarrow> 1))")
    (auto dest!: try_lock_blocked dest: pop_unblocked_readonly_length)

definition unlock_context ::
  "'q lock_context \<Rightarrow> ('tx, 'q) scheduling_state_machine
     \<Rightarrow> ('tx, 'q) scheduling_state_machine option" where
  "unlock_context context s =
     (case unlock (requested_usage context) (usage_queue_token s (usage_queue context)) of
        None \<Rightarrow> None
      | Some (item, uq) \<Rightarrow>
          (case unblock_loop item uq (count_token s) (unblocked_task_queue s) of
             None \<Rightarrow> None
           | Some (uq', counts, unblocked) \<Rightarrow>
               Some (s\<lparr>usage_queue_token := (usage_queue_token s)(usage_queue context := uq'),
                       count_token := counts,
                       unblocked_task_queue := unblocked\<rparr>)))"

fun unlock_contexts ::
  "'q lock_context list \<Rightarrow> ('tx, 'q) scheduling_state_machine
     \<Rightarrow> ('tx, 'q) scheduling_state_machine option" where
  "unlock_contexts [] s = Some s"
| "unlock_contexts (context # contexts) s =
     (case unlock_context context s of
        None \<Rightarrow> None
      | Some s' \<Rightarrow> unlock_contexts contexts s')"

definition unlock_usage_queues ::
  "('tx, 'q) task_inner \<Rightarrow> ('tx, 'q) scheduling_state_machine
     \<Rightarrow> ('tx, 'q) scheduling_state_machine option" where
  "unlock_usage_queues task s = unlock_contexts (lock_contexts task) s"

definition deschedule_task ::
  "('tx, 'q) task_inner \<Rightarrow> ('tx, 'q) scheduling_state_machine
     \<Rightarrow> ('tx, 'q) scheduling_state_machine option" where
  "deschedule_task task s = do {
     active \<leftarrow> sc_decrement (active_task_count s);
     handled \<leftarrow> sc_increment (handled_task_count s);
     unlock_usage_queues task (s\<lparr>active_task_count := active, handled_task_count := handled\<rparr>)
   }"

text \<open>
  The account keys and the writable flags of the transaction come from the message,
  the queue of a key from the caller's \<open>usage_queue_loader\<close>, and \<open>cell\<close> is the address
  of the new counter cell.
\<close>

definition create_task ::
  "('tx \<Rightarrow> 'k list) \<Rightarrow> ('tx \<Rightarrow> nat \<Rightarrow> bool) \<Rightarrow> ('k \<Rightarrow> 'q) \<Rightarrow> 'tx \<Rightarrow> usize \<Rightarrow> nat
     \<Rightarrow> (nat \<Rightarrow> short_counter) \<Rightarrow> ('tx, 'q) task_inner \<times> (nat \<Rightarrow> short_counter)" where
  "create_task account_keys is_writable usage_queue_loader tx index cell counts =
     (\<lparr>transaction = tx,
       task_index = index,
       lock_contexts =
         map (\<lambda>(i, address).
               \<lparr>usage_queue = usage_queue_loader address,
                requested_usage = (if is_writable tx i then RequestedWritable else RequestedReadonly)\<rparr>)
           (enumerate 0 (account_keys tx)),
       blocked_usage_count = cell\<rparr>,
      counts(cell := sc_zero))"

definition reinitialize ::
  "('tx, 'q) scheduling_state_machine \<Rightarrow> ('tx, 'q) scheduling_state_machine option" where
  "reinitialize s =
     (if \<not> has_no_active_task s then None
      else if unblocked_task_queue s \<noteq> [] then None
      else Some (s\<lparr>active_task_count := 0, handled_task_count := 0,
                   unblocked_task_count := 0, total_task_count := 0\<rparr>))"

end
