(* ===== verification/Scheduler_Spec.thy ===== *)
theory Scheduler_Spec
  imports Unified_Scheduler
begin

text \<open>
  What the unified scheduler promises. The requests on one address form a list in arrival
  order; \<open>granted\<close> is the part of it that holds the lock (one writer, or the leading
  readers) and \<open>waiting\<close> the rest. The detailed usage queue is a function of that list
  (\<open>spec_queue\<close>), and locking and unlocking refine appending to and removing from it.
\<close>

section \<open>Admission in arrival order\<close>

text \<open>
  The contract between one address's queue and the scheduler: a non-empty prefix of the
  requests is admitted, no two admitted requests conflict, and a request that is not
  admitted conflicts with an older one.
\<close>

locale fifo_admission =
  fixes admitted :: "'r list \<Rightarrow> 'r list"
    and rest :: "'r list \<Rightarrow> 'r list"
    and conflict :: "'r \<Rightarrow> 'r \<Rightarrow> bool"
  assumes admitted_rest: "admitted rs @ rest rs = rs"
    and admitted_first: "rs \<noteq> [] \<Longrightarrow> admitted rs \<noteq> []"
    and admitted_compatible:
      "admitted rs = xs @ x # ys @ y # zs \<Longrightarrow> \<not> conflict x y"
    and rest_conflicts: "rest rs = ys @ y # zs \<Longrightarrow> \<exists>x \<in> set (admitted rs @ ys). conflict x y"
begin

lemma rest_Nil: "rest [] = []"
  using admitted_rest [of "[]"] by simp

text \<open>The oldest request never waits.\<close>

lemma first_not_waiting: "distinct (x # rs) \<Longrightarrow> x \<notin> set (rest (x # rs))"
proof -
  assume d: "distinct (x # rs)"
  from admitted_first [of "x # rs"] admitted_rest [of "x # rs"]
  obtain ys where "admitted (x # rs) = x # ys" by (cases "admitted (x # rs)") auto
  with admitted_rest [of "x # rs"] have "rs = ys @ rest (x # rs)" by simp
  with d show ?thesis by (metis Un_iff distinct.simps(2) set_append)
qed

text \<open>A request waits while an older conflicting one is still there.\<close>

lemma later_conflict_waits:
  assumes d: "distinct (xs @ x # ys @ y # zs)" and c: "conflict x y"
  shows "y \<in> set (rest (xs @ x # ys @ y # zs))"
proof (rule ccontr)
  let ?rs = "xs @ x # ys @ y # zs"
  have eq: "admitted ?rs @ rest ?rs = (xs @ x # ys) @ y # zs"
    by (simp add: admitted_rest)
  assume "y \<notin> set (rest ?rs)"
  with eq have "y \<in> set (admitted ?rs)"
    by (metis Un_iff in_set_conv_decomp set_append)
  with eq d obtain vs where "admitted ?rs = (xs @ x # ys) @ y # vs"
    using prefix_to_first [OF eq] by auto
  then show False using admitted_compatible [of ?rs xs x ys y] c by simp
qed

text \<open>A request waits exactly when an older one conflicts with it.\<close>

lemma waits_iff:
  assumes d: "distinct (xs @ y # zs)"
  shows "y \<in> set (rest (xs @ y # zs)) \<longleftrightarrow> (\<exists>x \<in> set xs. conflict x y)"
proof
  assume "y \<in> set (rest (xs @ y # zs))"
  then obtain us vs where r: "rest (xs @ y # zs) = us @ y # vs" by (meson split_list)
  then have "xs @ y # zs = (admitted (xs @ y # zs) @ us) @ y # vs"
    using admitted_rest [of "xs @ y # zs"] by simp
  moreover have "y \<notin> set xs" "y \<notin> set zs" using d by auto
  ultimately have "admitted (xs @ y # zs) @ us = xs"
    using append_Cons_eq_iff [of y xs zs "admitted (xs @ y # zs) @ us" vs] by metis
  with rest_conflicts [OF r] show "\<exists>x \<in> set xs. conflict x y" by simp
next
  assume "\<exists>x \<in> set xs. conflict x y"
  then obtain x us vs where "xs = us @ x # vs" "conflict x y" by (meson split_list)
  with d later_conflict_waits [of us x vs y zs] show "y \<in> set (rest (xs @ y # zs))" by simp
qed

end

section \<open>Reader-writer queues as lists of requests\<close>

definition is_ro :: "('tx, 'q) usage_from_task \<Rightarrow> bool" where
  "is_ro r \<longleftrightarrow> fst r = RequestedReadonly"

fun granted :: "('tx, 'q) usage_from_task list \<Rightarrow> ('tx, 'q) usage_from_task list" where
  "granted [] = []"
| "granted (r # rs) = (if is_ro r then takeWhile is_ro (r # rs) else [r])"

fun waiting :: "('tx, 'q) usage_from_task list \<Rightarrow> ('tx, 'q) usage_from_task list" where
  "waiting [] = []"
| "waiting (r # rs) = (if is_ro r then dropWhile is_ro (r # rs) else rs)"

definition conflicting :: "('tx, 'q) usage_from_task \<Rightarrow> ('tx, 'q) usage_from_task \<Rightarrow> bool" where
  "conflicting a b \<longleftrightarrow> \<not> (is_ro a \<and> is_ro b)"

lemma granted_waiting: "granted rs @ waiting rs = rs"
  by (cases rs) auto

lemma set_waiting: "x \<in> set (waiting rs) \<Longrightarrow> x \<in> set rs"
  by (metis Un_iff granted_waiting set_append)

lemma set_granted: "x \<in> set (granted rs) \<Longrightarrow> x \<in> set rs"
  by (metis Un_iff granted_waiting set_append)

lemma distinct_parts:
  "distinct (map f rs) \<Longrightarrow> distinct (map f (granted rs)) \<and> distinct (map f (waiting rs))"
  by (metis distinct_append granted_waiting map_append)

lemma granted_all_ro: "r \<in> set (granted rs) \<Longrightarrow> 1 < length (granted rs) \<Longrightarrow> is_ro r"
  by (cases rs) (auto split: if_splits dest: set_takeWhileD)

interpretation rw: fifo_admission granted waiting conflicting
proof
  fix rs xs ys zs :: "('tx, 'q) usage_from_task list" and x y
  assume "granted rs = xs @ x # ys @ y # zs"
  then have "x \<in> set (granted rs)" "y \<in> set (granted rs)" "1 < length (granted rs)" by auto
  then show "\<not> conflicting x y" by (simp add: conflicting_def granted_all_ro)
next
  fix rs :: "('tx, 'q) usage_from_task list"
  show "granted rs @ waiting rs = rs" by (rule granted_waiting)
  show "granted rs \<noteq> []" if "rs \<noteq> []" using that by (cases rs) auto
next
  fix rs ys zs :: "('tx, 'q) usage_from_task list" and y
  assume w: "waiting rs = ys @ y # zs"
  then obtain r rs' where rs: "rs = r # rs'" by (cases rs) auto
  show "\<exists>x \<in> set (granted rs @ ys). conflicting x y"
  proof (cases "is_ro r")
    case False
    with rs show ?thesis by (auto simp: conflicting_def)
  next
    case True
    with w rs have "\<not> is_ro (hd (ys @ y # zs))" by (metis hd_dropWhile list.distinct(1) waiting.simps(2) Nil_is_append_conv)
    with True rs show ?thesis by (cases ys) (auto simp: conflicting_def simp del: split_paired_Ex)
  qed
qed

definition spec_usage :: "('tx, 'q) usage_from_task list \<Rightarrow> usage option" where
  "spec_usage rs =
     (case granted rs of
        [] \<Rightarrow> None
      | r # _ \<Rightarrow> Some (if is_ro r then Readonly (of_nat (length (granted rs))) else Writable))"

definition spec_queue :: "('tx, 'q) usage_from_task list \<Rightarrow> ('tx, 'q) usage_queue_inner" where
  "spec_queue rs = \<lparr>current_usage = spec_usage rs, blocked_usages_from_tasks = waiting rs\<rparr>"

lemma spec_queue_Nil: "spec_queue [] = usage_queue_default"
  by (simp add: spec_queue_def spec_usage_def usage_queue_default_def)

text \<open>A new request is admitted when the queue is empty or everyone reads.\<close>

definition admits :: "('tx, 'q) usage_from_task list \<Rightarrow> ('tx, 'q) usage_from_task \<Rightarrow> bool" where
  "admits rs x \<longleftrightarrow> rs = [] \<or> (list_all is_ro rs \<and> is_ro x)"

lemma waiting_append:
  "waiting (rs @ [x]) = (if admits rs x then [] else waiting rs @ [x])"
proof (cases rs)
  case Nil
  then show ?thesis by (simp add: admits_def)
next
  case (Cons r rs')
  show ?thesis
  proof (cases "list_all is_ro rs")
    case True
    with Cons show ?thesis by (auto simp: admits_def dropWhile_append takeWhile_all dropWhile_all list_all_iff)
  next
    case False
    with Cons show ?thesis by (auto simp: admits_def dropWhile_append3 list_all_iff dropWhile_append)
  qed
qed

lemma admits_waiting: "admits rs x \<Longrightarrow> waiting rs = []"
  by (cases rs) (auto simp: admits_def list_all_iff)

lemma granted_append:
  "granted (rs @ [x]) = (if admits rs x then rs @ [x] else granted rs)"
proof -
  have "granted (rs @ [x]) @ waiting (rs @ [x]) = (granted rs @ waiting rs) @ [x]"
    by (simp only: granted_waiting)
  then show ?thesis
  proof (cases "admits rs x")
    case False
    with \<open>_ = _\<close> have "granted (rs @ [x]) @ (waiting rs @ [x]) = granted rs @ (waiting rs @ [x])"
      by (simp add: waiting_append)
    with False show ?thesis by (simp only: append_same_eq if_False)
  qed (simp add: waiting_append granted_waiting)
qed

section \<open>The queue operations refine the list of requests\<close>

lemma sc_increment_of_nat:
  "Suc n < 2 ^ 32 \<Longrightarrow> sc_increment (of_nat n) = Some (of_nat (Suc n))"
  by (simp add: sc_increment_def checked_add_def unat_of_nat)

lemma sc_decrement_nonzero: "c \<noteq> 0 \<Longrightarrow> sc_decrement c = Some (c - 1)"
  by (simp add: sc_decrement_def checked_sub_def one_le_word)

lemma of_nat_u32_eq_1: "n < 2 ^ 32 \<Longrightarrow> (of_nat n :: u32) = 1 \<longleftrightarrow> n = 1"
  by (auto dest!: arg_cong [where f = unat] simp: unat_of_nat)

lemma of_nat_u32_eq_0: "n < 2 ^ 32 \<Longrightarrow> (of_nat n :: u32) = 0 \<longleftrightarrow> n = 0"
  by (auto dest!: arg_cong [where f = unat] simp: unat_of_nat)

lemma list_all_granted: "waiting rs = [] \<Longrightarrow> granted rs = rs"
  using granted_waiting [of rs] by simp

text \<open>Locking or queueing one request appends it to the list.\<close>

lemma lock_admitted:
  assumes "admits rs (u, t)" and "Suc (length rs) < 2 ^ 32"
  shows "try_lock u (spec_queue rs) = Some (LockOk, spec_queue (rs @ [(u, t)]))"
proof (cases rs)
  case Nil
  then show ?thesis
    by (cases u) (simp_all add: try_lock_def spec_queue_def spec_usage_def is_ro_def sc_one_def)
next
  case (Cons r rs')
  with assms(1) have ro: "list_all is_ro rs" "u = RequestedReadonly"
    by (auto simp: admits_def is_ro_def)
  have "granted rs = rs" "waiting rs = []"
    using assms(1) admits_waiting list_all_granted by blast+
  moreover have "granted (rs @ [(u, t)]) = rs @ [(u, t)]" "waiting (rs @ [(u, t)]) = []"
    using assms(1) by (simp_all add: granted_append waiting_append)
  moreover have "is_ro r" using ro Cons by simp
  ultimately show ?thesis
    using assms(2) Cons ro(2) sc_increment_of_nat [of "length rs"]
    by (simp add: try_lock_def spec_queue_def spec_usage_def del: granted.simps waiting.simps)
qed

lemma lock_refused:
  assumes "\<not> admits rs (u, t)" and "waiting rs = []"
  shows "try_lock u (spec_queue rs) = Some (LockErr, spec_queue rs)"
proof -
  from assms(2) have g: "granted rs = rs" by (rule list_all_granted)
  obtain r rs' where rs: "rs = r # rs'" using assms(1) by (cases rs) (auto simp: admits_def)
  show ?thesis
  proof (cases "is_ro r")
    case True
    with g rs have "list_all is_ro rs"
      by (metis granted.simps(2) list_all_iff set_takeWhileD)
    with assms(1) have "u = RequestedWritable"
      by (cases u) (auto simp: admits_def is_ro_def)
    with True g rs show ?thesis by (simp add: try_lock_def spec_queue_def spec_usage_def)
  next
    case False
    with g rs show ?thesis by (simp add: try_lock_def spec_queue_def spec_usage_def)
  qed
qed

lemma push_refused:
  assumes "\<not> admits rs (u, t)"
  shows "push_blocked_usage_from_task (u, t) (spec_queue rs) = Some (spec_queue (rs @ [(u, t)]))"
proof -
  have "granted rs \<noteq> []" using assms by (cases rs) (auto simp: admits_def)
  then show ?thesis using assms
    by (auto simp: push_blocked_usage_from_task_def spec_queue_def spec_usage_def granted_append
        waiting_append split: list.splits)
qed

text \<open>
  Waking up: the counters of the woken tasks go down by one, and those that reach zero
  are appended to the queue of unblocked tasks.
\<close>

definition wake_counts ::
  "('tx, 'q) task_inner list \<Rightarrow> (nat \<Rightarrow> short_counter) \<Rightarrow> (nat \<Rightarrow> short_counter)" where
  "wake_counts ts counts = (\<lambda>a. if a \<in> blocked_usage_count ` set ts then counts a - 1 else counts a)"

definition wake_ready ::
  "('tx, 'q) task_inner list \<Rightarrow> (nat \<Rightarrow> short_counter) \<Rightarrow> ('tx, 'q) task_inner list" where
  "wake_ready ts counts = filter (\<lambda>t. counts (blocked_usage_count t) = 1) ts"

lemma wake_counts_Cons:
  assumes "blocked_usage_count t \<notin> blocked_usage_count ` set ts"
  shows "wake_counts ts (counts(blocked_usage_count t := counts (blocked_usage_count t) - 1))
           = wake_counts (t # ts) counts"
  using assms by (auto simp: wake_counts_def fun_eq_iff)

lemma wake_ready_Cons:
  assumes "blocked_usage_count t \<notin> blocked_usage_count ` set ts"
  shows "wake_ready ts (counts(blocked_usage_count t := c)) = wake_ready ts counts"
  using assms by (auto simp: wake_ready_def image_iff intro!: filter_cong)

lemma try_unblock_nonzero:
  assumes "counts (blocked_usage_count t) \<noteq> 0"
  shows "try_unblock t counts =
    Some (if counts (blocked_usage_count t) = 1 then Some t else None,
          counts(blocked_usage_count t := counts (blocked_usage_count t) - 1))"
  using assms by (simp add: try_unblock_def sc_decrement_nonzero sc_is_zero_def)

definition ro_usage :: "nat \<Rightarrow> usage option" where
  "ro_usage k = (if k = 0 then None else Some (Readonly (of_nat k)))"

lemma try_lock_ro_usage:
  assumes "current_usage uq = ro_usage k" and "Suc k < 2 ^ 32"
  shows "try_lock RequestedReadonly uq = Some (LockOk, uq\<lparr>current_usage := ro_usage (Suc k)\<rparr>)"
  using assms sc_increment_of_nat [of k]
  by (auto simp: try_lock_def ro_usage_def sc_one_def split: if_splits)

lemma unblock_loop_readers:
  fixes ws :: "('tx, 'q) usage_from_task list"
  assumes "distinct (map blocked_usage_count (t # map snd (takeWhile is_ro ws)))"
    and "\<forall>x \<in> set (t # map snd (takeWhile is_ro ws)). counts (blocked_usage_count x) \<noteq> 0"
    and "Suc (k + length (takeWhile is_ro ws)) < 2 ^ 32"
  shows "unblock_loop (Some (RequestedReadonly, t))
           \<lparr>current_usage = ro_usage k, blocked_usages_from_tasks = ws\<rparr> counts unblocked
         = Some (\<lparr>current_usage = ro_usage (Suc (k + length (takeWhile is_ro ws))),
                  blocked_usages_from_tasks = dropWhile is_ro ws\<rparr>,
                 wake_counts (t # map snd (takeWhile is_ro ws)) counts,
                 unblocked @ wake_ready (t # map snd (takeWhile is_ro ws)) counts)"
  using assms
proof (induction ws arbitrary: t k counts unblocked)
  case Nil
  then show ?case
    by (simp add: try_unblock_nonzero try_lock_ro_usage pop_unblocked_readonly_usage_from_task_def
        wake_ready_def wake_counts_def fun_eq_iff)
next
  case (Cons w ws)
  let ?a = "blocked_usage_count t"
  let ?c = "counts(?a := counts ?a - 1)"
  let ?u = "if counts ?a = 1 then unblocked @ [t] else unblocked"
  show ?case
  proof (cases "is_ro w")
    case True
    obtain t' where w: "w = (RequestedReadonly, t')" using True by (cases w) (auto simp: is_ro_def)
    let ?ts = "t' # map snd (takeWhile is_ro ws)"
    have tw: "map snd (takeWhile is_ro (w # ws)) = ?ts" using True w by simp
    from Cons.prems(1) have d: "distinct (map blocked_usage_count (t # ?ts))" by (simp only: tw)
    then have fresh: "?a \<notin> blocked_usage_count ` set ?ts" by (simp add: image_image)
    from Cons.prems(2) have "\<forall>x \<in> set (t # ?ts). counts (blocked_usage_count x) \<noteq> 0"
      by (simp only: tw)
    then have nz: "\<forall>x \<in> set ?ts. counts (blocked_usage_count x) \<noteq> 0" "counts ?a \<noteq> 0" by auto
    have "unblock_loop (Some (RequestedReadonly, t))
             \<lparr>current_usage = ro_usage k, blocked_usages_from_tasks = w # ws\<rparr> counts unblocked
          = unblock_loop (Some (RequestedReadonly, t'))
             \<lparr>current_usage = ro_usage (Suc k), blocked_usages_from_tasks = ws\<rparr> ?c ?u"
      using Cons.prems(3) nz(2) w
      by (subst unblock_loop.simps(2))
        (simp add: Let_def try_unblock_nonzero try_lock_ro_usage pop_front_blocked_def ro_usage_def
          pop_unblocked_readonly_usage_from_task_def del: unblock_loop.simps)
    also have "\<dots> = Some (\<lparr>current_usage = ro_usage (Suc (Suc k + length (takeWhile is_ro ws))),
                  blocked_usages_from_tasks = dropWhile is_ro ws\<rparr>,
                 wake_counts ?ts ?c, ?u @ wake_ready ?ts ?c)"
      using Cons.prems(3) True d fresh nz(1) by (intro Cons.IH) (auto simp: image_iff)
    finally show ?thesis
      using True w by (simp add: wake_counts_Cons [OF fresh] wake_ready_Cons [OF fresh])
        (simp add: wake_ready_def)
  next
    case False
    then obtain t' where w: "w = (RequestedWritable, t')"
      by (cases w; cases "fst w") (auto simp: is_ro_def)
    from Cons.prems False show ?thesis
      by (simp add: w try_unblock_nonzero try_lock_ro_usage pop_unblocked_readonly_usage_from_task_def
          wake_ready_def wake_counts_def fun_eq_iff)
  qed
qed

text \<open>
  Waking the head of a non-empty queue grants the leading requests of the queue.
\<close>

lemma unblock_loop_wakes:
  assumes "distinct (map (blocked_usage_count \<circ> snd) (granted (w # ws)))"
    and "\<forall>x \<in> set (granted (w # ws)). counts (blocked_usage_count (snd x)) \<noteq> 0"
    and "length (w # ws) < 2 ^ 32"
  shows "unblock_loop (Some w) \<lparr>current_usage = None, blocked_usages_from_tasks = ws\<rparr> counts unblocked
         = Some (spec_queue (w # ws), wake_counts (map snd (granted (w # ws))) counts,
                 unblocked @ wake_ready (map snd (granted (w # ws))) counts)"
proof (cases "is_ro w")
  case True
  then obtain t where w: "w = (RequestedReadonly, t)" by (cases w) (auto simp: is_ro_def)
  have "length (takeWhile is_ro ws) \<le> length ws" by (rule length_takeWhile_le)
  with assms(3) have len: "Suc (0 + length (takeWhile is_ro ws)) < 2 ^ 32" by simp
  have "distinct (map blocked_usage_count (t # map snd (takeWhile is_ro ws)))"
    using assms(1) True w by (simp add: image_image o_def)
  moreover have "\<forall>x \<in> set (t # map snd (takeWhile is_ro ws)). counts (blocked_usage_count x) \<noteq> 0"
    using assms(2) True w by auto
  ultimately show ?thesis
    using unblock_loop_readers [of t ws counts 0 unblocked] len True
    by (simp add: w ro_usage_def spec_queue_def spec_usage_def)
next
  case False
  then obtain t where w: "w = (RequestedWritable, t)"
    by (cases w; cases "fst w") (auto simp: is_ro_def)
  with False assms(2) show ?thesis
    by (simp add: try_unblock_nonzero try_lock_def spec_queue_def spec_usage_def wake_counts_def
        wake_ready_def fun_eq_iff)
qed

text \<open>Removing a request that holds the lock: what is left, and who is woken.\<close>

definition woken :: "('tx, 'q) usage_from_task list \<Rightarrow> ('tx, 'q) usage_from_task list" where
  "woken rs = (if length (granted rs) = 1 then granted (waiting rs) else [])"

lemma ro_split:
  assumes "xs \<noteq> []" and "\<forall>r \<in> set xs. is_ro r" and "ws = [] \<or> \<not> is_ro (hd ws)"
  shows "granted (xs @ ws) = xs" and "waiting (xs @ ws) = ws"
proof -
  from assms(1) obtain r rs where xs: "xs = r # rs" by (cases xs) auto
  have "takeWhile is_ro (xs @ ws) = xs" "dropWhile is_ro (xs @ ws) = ws"
    using assms(2,3) by (cases ws; simp add: takeWhile_append2 dropWhile_append2)+
  with xs assms(2) show "granted (xs @ ws) = xs" "waiting (xs @ ws) = ws" by auto
qed

lemma waiting_hd: "1 < length (granted rs) \<Longrightarrow> waiting rs = [] \<or> \<not> is_ro (hd (waiting rs))"
  using hd_dropWhile [of is_ro rs] by (cases rs) (auto split: if_splits)

lemma granted_decomp:
  assumes "rs = pre @ x # post" and "length pre < length (granted rs)"
  shows "\<exists>g. granted rs = pre @ x # g \<and> post = g @ waiting rs"
proof -
  have eq: "granted rs @ waiting rs = pre @ x # post" by (simp add: granted_waiting assms(1))
  then have "take (length pre) (granted rs) = pre"
    using assms(2) by (metis append_eq_append_conv_if less_imp_le)
  then obtain g' where g': "granted rs = pre @ g'" by (metis append_take_drop_id)
  with assms(2) eq obtain g where "g' = x # g" by (cases g') auto
  with g' eq show ?thesis by auto
qed

lemma release_last:
  assumes "rs = pre @ (u, t) # post" and "length pre < length (granted rs)"
    and "length (granted rs) = 1"
  shows "pre = []" and "post = waiting rs"
    and "unlock u (spec_queue rs)
      = Some (pop_front_blocked \<lparr>current_usage = None, blocked_usages_from_tasks = waiting rs\<rparr>)"
proof -
  obtain g where g: "granted rs = pre @ (u, t) # g" "post = g @ waiting rs"
    using granted_decomp [OF assms(1,2)] by blast
  with assms(3) show 1: "pre = []" and "post = waiting rs" by auto
  from g 1 assms(3) have "granted rs = [(u, t)]" by auto
  then show "unlock u (spec_queue rs)
      = Some (pop_front_blocked \<lparr>current_usage = None, blocked_usages_from_tasks = waiting rs\<rparr>)"
    by (cases u) (simp_all add: unlock_def spec_queue_def spec_usage_def is_ro_def sc_is_one_def)
qed

lemma spec_usage_ro:
  "granted rs \<noteq> [] \<Longrightarrow> is_ro (hd (granted rs))
    \<Longrightarrow> spec_usage rs = Some (Readonly (of_nat (length (granted rs))))"
  by (auto simp: spec_usage_def neq_Nil_conv)

lemma unlock_reader:
  assumes "m \<noteq> 0" and "Suc m < 2 ^ 32"
  shows "unlock RequestedReadonly
           \<lparr>current_usage = Some (Readonly (of_nat (Suc m))), blocked_usages_from_tasks = ws\<rparr>
         = Some (None, \<lparr>current_usage = Some (Readonly (of_nat m)), blocked_usages_from_tasks = ws\<rparr>)"
  using assms of_nat_u32_eq_1 [of "Suc m"] of_nat_u32_eq_0 [of "Suc m"] of_nat_u32_eq_0 [of m]
  by (simp add: unlock_def sc_is_one_def sc_decrement_nonzero)

lemma release_shared:
  assumes "rs = pre @ (u, t) # post" and "length pre < length (granted rs)"
    and "length (granted rs) \<noteq> 1" and "length rs < 2 ^ 32"
  shows "waiting (pre @ post) = waiting rs"
    and "unlock u (spec_queue rs) = Some (None, spec_queue (pre @ post))"
proof -
  obtain g where g: "granted rs = pre @ (u, t) # g" "post = g @ waiting rs"
    using granted_decomp [OF assms(1,2)] by blast
  with assms(3) have more: "1 < length (granted rs)" and ne: "pre @ g \<noteq> []" by auto
  have ro: "\<forall>r \<in> set (pre @ (u, t) # g). is_ro r"
    using granted_all_ro more g(1) by metis
  then have u: "u = RequestedReadonly" by (simp add: is_ro_def)
  have split: "granted ((pre @ g) @ waiting rs) = pre @ g" "waiting ((pre @ g) @ waiting rs) = waiting rs"
    using ro_split [OF ne] ro waiting_hd [OF more] by auto
  with g show w: "waiting (pre @ post) = waiting rs" by simp
  have len: "length (granted rs) < 2 ^ 32"
    using assms(4) granted_waiting [of rs] by (metis length_append trans_less_add1 le_add1 order_le_less_trans)
  have c: "length (granted rs) = Suc (length (pre @ g))" using g by simp
  have hds: "is_ro (hd (pre @ g))" "is_ro (hd (granted rs))"
    using ro ne g(1) by (metis Un_iff hd_in_set set_append list.set_intros(2) append_is_Nil_conv list.distinct(1))+
  have "spec_queue rs =
      \<lparr>current_usage = Some (Readonly (of_nat (Suc (length (pre @ g))))),
       blocked_usages_from_tasks = waiting rs\<rparr>"
    using spec_usage_ro [of rs] hds(2) g(1) c by (simp add: spec_queue_def)
  moreover have "spec_queue (pre @ post) =
      \<lparr>current_usage = Some (Readonly (of_nat (length (pre @ g)))),
       blocked_usages_from_tasks = waiting rs\<rparr>"
    using spec_usage_ro [of "pre @ post"] split g(2) hds(1) ne w by (simp add: spec_queue_def)
  ultimately show "unlock u (spec_queue rs) = Some (None, spec_queue (pre @ post))"
    using unlock_reader [of "length (pre @ g)"] ne len c u by simp
qed

end
