(* ===== verification/Scheduler_Machine.thy ===== *)
theory Scheduler_Machine
  imports Scheduler_Spec
begin

text \<open>
  The scheduling state machine against the list of active tasks. An active task comes with
  the lock contexts it still owns (all of them, except in the middle of a loop); the
  requests on an address are read off that list in arrival order.
\<close>

section \<open>Requests of the active tasks\<close>

type_synonym ('tx, 'q) active = "(('tx, 'q) task_inner \<times> 'q lock_context list) list"

definition ctx_requests ::
  "('tx, 'q) task_inner \<Rightarrow> 'q lock_context list \<Rightarrow> 'q \<Rightarrow> ('tx, 'q) usage_from_task list" where
  "ctx_requests t cs q = map (\<lambda>c. (requested_usage c, t)) (filter (\<lambda>c. usage_queue c = q) cs)"

definition requests :: "('tx, 'q) active \<Rightarrow> 'q \<Rightarrow> ('tx, 'q) usage_from_task list" where
  "requests act q = concat (map (\<lambda>(t, cs). ctx_requests t cs q) act)"

definition wf_active :: "('tx, 'q) active \<Rightarrow> bool" where
  "wf_active act \<longleftrightarrow> distinct (map (blocked_usage_count \<circ> fst) act) \<and>
     (\<forall>(t, cs) \<in> set act. distinct (map usage_queue cs))"

text \<open>The contexts on which a task still waits.\<close>

definition blocked_ctxs ::
  "('tx, 'q) active \<Rightarrow> ('tx, 'q) task_inner \<Rightarrow> 'q lock_context list \<Rightarrow> 'q lock_context list" where
  "blocked_ctxs act t cs = filter (\<lambda>c. t \<in> snd ` set (waiting (requests act (usage_queue c)))) cs"

lemma requests_simps [simp]:
  "requests [] q = []"
  "requests ((t, cs) # act) q = ctx_requests t cs q @ requests act q"
  "requests (act @ act') q = requests act q @ requests act' q"
  by (simp_all add: requests_def)

lemma ctx_requests_simps [simp]:
  "ctx_requests t [] q = []"
  "ctx_requests t (c # cs) q = (if usage_queue c = q then [(requested_usage c, t)] else []) @ ctx_requests t cs q"
  "ctx_requests t (cs @ cs') q = ctx_requests t cs q @ ctx_requests t cs' q"
  by (simp_all add: ctx_requests_def)

lemma ctx_requests_Nil: "q \<notin> usage_queue ` set cs \<Longrightarrow> ctx_requests t cs q = []"
  by (auto simp: ctx_requests_def filter_empty_conv)

lemma set_ctx_requests:
  "(u, x) \<in> set (ctx_requests t cs q) \<longleftrightarrow> x = t \<and> (\<exists>c \<in> set cs. usage_queue c = q \<and> requested_usage c = u)"
  by (auto simp: ctx_requests_def)

lemma set_requests:
  "(u, t) \<in> set (requests act q) \<longleftrightarrow>
     (\<exists>cs c. (t, cs) \<in> set act \<and> c \<in> set cs \<and> usage_queue c = q \<and> requested_usage c = u)"
  unfolding requests_def by (force simp: set_ctx_requests)

lemma snd_ctx_requests: "x \<in> set (ctx_requests t cs q) \<Longrightarrow> snd x = t"
  by (auto simp: ctx_requests_def)

lemma snd_requests: "x \<in> set (requests act q) \<Longrightarrow> snd x \<in> fst ` set act"
  by (force simp: requests_def dest: snd_ctx_requests)

lemma length_ctx_requests: "distinct (map usage_queue cs) \<Longrightarrow> length (ctx_requests t cs q) \<le> 1"
  by (induction cs) (auto simp: ctx_requests_Nil)

lemma distinct_ctx_requests:
  "distinct (map usage_queue cs) \<Longrightarrow> distinct (map (blocked_usage_count \<circ> snd) (ctx_requests t cs q))"
  by (induction cs) (auto simp: ctx_requests_Nil)

lemma wf_active_Cons:
  "wf_active ((t, cs) # act) \<longleftrightarrow>
     blocked_usage_count t \<notin> blocked_usage_count ` fst ` set act \<and> distinct (map usage_queue cs) \<and> wf_active act"
  by (auto simp: wf_active_def image_image)

lemma length_requests: "wf_active act \<Longrightarrow> length (requests act q) \<le> length act"
proof (induction act)
  case (Cons a act)
  obtain t cs where a: "a = (t, cs)" by (cases a)
  with Cons length_ctx_requests [of cs t q] show ?case by (simp add: wf_active_Cons)
qed simp

lemma distinct_requests: "wf_active act \<Longrightarrow> distinct (map (blocked_usage_count \<circ> snd) (requests act q))"
proof (induction act)
  case (Cons a act)
  obtain t cs where a: "a = (t, cs)" by (cases a)
  from Cons.prems a have "distinct (map usage_queue cs)" "wf_active act"
    and fresh: "blocked_usage_count t \<notin> blocked_usage_count ` fst ` set act"
    by (simp_all add: wf_active_Cons)
  moreover have "set (map (blocked_usage_count \<circ> snd) (ctx_requests t cs q))
      \<inter> set (map (blocked_usage_count \<circ> snd) (requests act q)) = {}"
    using fresh by (auto dest!: snd_ctx_requests snd_requests)
  ultimately show ?case using Cons.IH a distinct_ctx_requests [of cs t q]
    by (simp only: requests_simps map_append distinct_append)
qed simp

lemma distinct_requests_tasks: "wf_active act \<Longrightarrow> distinct (map snd (requests act q))"
  using distinct_requests [of act q] by (metis distinct_map map_map)

lemma wf_active_task_unique:
  "wf_active act \<Longrightarrow> (t, cs) \<in> set act \<Longrightarrow> (t', cs') \<in> set act
    \<Longrightarrow> blocked_usage_count t = blocked_usage_count t' \<Longrightarrow> t = t' \<and> cs = cs'"
  using inj_onD [of "blocked_usage_count \<circ> fst" "set act" "(t, cs)" "(t', cs')"]
  by (simp add: wf_active_def distinct_map)

section \<open>Locking the contexts of a new task\<close>

definition refused :: "('tx, 'q) active \<Rightarrow> ('tx, 'q) task_inner \<Rightarrow> 'q lock_context \<Rightarrow> bool" where
  "refused act t c \<longleftrightarrow> \<not> admits (requests act (usage_queue c)) (requested_usage c, t)"

lemma try_lock_context_spec:
  fixes t :: "('tx, 'q) task_inner"
  assumes "usage_queue c \<notin> usage_queue ` set done"
    and "Suc (length (requests act (usage_queue c))) < 2 ^ 32" and "Suc n < 2 ^ 32"
  shows "try_lock_context t c (of_nat n, \<lambda>q. spec_queue (requests act q @ ctx_requests t done q))
     = Some (of_nat (n + (if refused act t c then 1 else 0)),
             \<lambda>q. spec_queue (requests act q @ ctx_requests t (done @ [c]) q))"
proof -
  let ?q = "usage_queue c" and ?x = "(requested_usage c, t)"
  let ?rs = "requests act ?q"
  let ?Q = "\<lambda>q. spec_queue (requests act q @ ctx_requests t done q)"
  have rs: "?Q ?q = spec_queue ?rs" using assms(1) by (simp add: ctx_requests_Nil)
  have upd: "?Q(?q := spec_queue (?rs @ [?x])) = (\<lambda>q. spec_queue (requests act q @ ctx_requests t (done @ [c]) q))"
    using assms(1) by (auto simp: fun_eq_iff ctx_requests_Nil)
  show ?thesis
  proof (cases "refused act t c")
    case False
    then have adm: "admits ?rs ?x" by (simp add: refused_def)
    have "has_no_blocked_usage (spec_queue ?rs)"
      using admits_waiting [OF adm] by (simp add: has_no_blocked_usage_def spec_queue_def)
    then show ?thesis using False lock_admitted [OF adm assms(2)] rs upd
      by (simp add: try_lock_context_def Let_def)
  next
    case True
    then have ref: "\<not> admits ?rs ?x" by (simp add: refused_def)
    have err: "try_lock (requested_usage c) (spec_queue ?rs) = Some (LockErr, spec_queue ?rs)"
      if "has_no_blocked_usage (spec_queue ?rs)"
      using that lock_refused [OF ref] by (simp add: has_no_blocked_usage_def spec_queue_def)
    show ?thesis using True push_refused [OF ref] rs upd sc_increment_of_nat [OF assms(3)] err
      by (cases "has_no_blocked_usage (spec_queue ?rs)") (simp_all add: try_lock_context_def Let_def)
  qed
qed

lemma try_lock_contexts_spec:
  fixes t :: "('tx, 'q) task_inner"
  assumes "distinct (map usage_queue (done @ cs))"
    and "wf_active act" and "Suc (length act) < 2 ^ 32" and "n + length cs < 2 ^ 32"
  shows "try_lock_contexts t cs (of_nat n, \<lambda>q. spec_queue (requests act q @ ctx_requests t done q))
     = Some (of_nat (n + length (filter (refused act t) cs)),
             \<lambda>q. spec_queue (requests act q @ ctx_requests t (done @ cs) q))"
  using assms(1,4)
proof (induction cs arbitrary: "done" n)
  case Nil
  then show ?case by simp
next
  case (Cons c cs)
  have "length (requests act (usage_queue c)) \<le> length act" using assms(2) by (rule length_requests)
  with assms(3) have len: "Suc (length (requests act (usage_queue c))) < 2 ^ 32" by simp
  have fresh: "usage_queue c \<notin> usage_queue ` set done" using Cons.prems(1) by auto
  let ?n = "n + (if refused act t c then 1 else 0)"
  have "try_lock_contexts t cs (of_nat ?n, \<lambda>q. spec_queue (requests act q @ ctx_requests t (done @ [c]) q))
     = Some (of_nat (?n + length (filter (refused act t) cs)),
             \<lambda>q. spec_queue (requests act q @ ctx_requests t ((done @ [c]) @ cs) q))"
    using Cons.prems by (intro Cons.IH) auto
  then show ?case
    using try_lock_context_spec [OF fresh len, of n] Cons.prems(2)
    by (auto simp del: ctx_requests_simps)
qed

text \<open>The new task is blocked exactly on the contexts that were refused.\<close>

lemma blocked_ctxs_new:
  assumes "wf_active (act @ [(t, cs)])"
  shows "blocked_ctxs (act @ [(t, cs)]) t cs = filter (refused act t) cs"
proof -
  have d: "distinct (map usage_queue cs)" and fresh: "t \<notin> fst ` set act"
    using assms by (auto simp: wf_active_def)
  have "t \<in> snd ` set (waiting (requests (act @ [(t, cs)]) (usage_queue c))) \<longleftrightarrow> refused act t c"
    if "c \<in> set cs" for c
  proof -
    have "requests (act @ [(t, cs)]) (usage_queue c) = requests act (usage_queue c) @ [(requested_usage c, t)]"
      using that d by (induction cs) (auto simp: ctx_requests_Nil)
    moreover have "t \<notin> snd ` set (waiting (requests act (usage_queue c)))"
      using fresh by (auto dest!: set_waiting snd_requests)
    ultimately show ?thesis by (auto simp: waiting_append refused_def)
  qed
  then show ?thesis unfolding blocked_ctxs_def by (rule filter_cong [OF refl])
qed

text \<open>The tasks that were there before see no change.\<close>

lemma blocked_ctxs_old:
  assumes "wf_active (act @ [(t, cs)])" and "t' \<noteq> t"
  shows "blocked_ctxs (act @ [(t, cs)]) t' cs' = blocked_ctxs act t' cs'"
proof -
  have d: "distinct (map usage_queue cs)" using assms(1) by (auto simp: wf_active_def)
  have "t' \<in> snd ` set (waiting (requests (act @ [(t, cs)]) q)) \<longleftrightarrow> t' \<in> snd ` set (waiting (requests act q))"
    for q
  proof (cases "ctx_requests t cs q")
    case (Cons x xs)
    with length_ctx_requests [OF d, of t q] have "ctx_requests t cs q = [x]" by (cases xs) auto
    moreover have "snd x = t" using Cons snd_ctx_requests [of x t cs q] by simp
    ultimately show ?thesis using assms(2) admits_waiting [of "requests act q" x]
      by (auto simp: waiting_append)
  qed simp
  then show ?thesis by (simp add: blocked_ctxs_def)
qed

section \<open>Unlocking one context\<close>

lemma not_waiting_granted:
  assumes "rs = pre @ (u, t) # post" and "t \<notin> snd ` set (waiting rs)"
  shows "length pre < length (granted rs)"
proof (rule ccontr)
  assume "\<not> ?thesis"
  moreover have "granted rs @ waiting rs = pre @ (u, t) # post" by (simp add: granted_waiting assms(1))
  ultimately have "(u, t) \<in> set (waiting rs)"
    by (metis append_eq_append_conv_if in_set_conv_decomp leI)
  with assms(2) show False by force
qed

lemma waiting_release:
  assumes "rs = pre @ (u, t) # post" and "t \<notin> snd ` set (waiting rs)" and "length rs < 2 ^ 32"
  shows "waiting rs = woken rs @ waiting (pre @ post)"
proof -
  have len: "length pre < length (granted rs)" using assms(1,2) by (rule not_waiting_granted)
  show ?thesis
  proof (cases "length (granted rs) = 1")
    case True
    with release_last(1,2) [OF assms(1) len True] show ?thesis by (simp add: woken_def granted_waiting)
  next
    case False
    with release_shared(1) [OF assms(1) len False assms(3)] show ?thesis by (simp add: woken_def)
  qed
qed

lemma unlock_context_spec:
  fixes t :: "('tx, 'q) task_inner"
  assumes rs: "rs = pre @ (requested_usage c, t) # post" and nb: "t \<notin> snd ` set (waiting rs)"
    and len: "length rs < 2 ^ 32" and q: "usage_queue_token s (usage_queue c) = spec_queue rs"
    and d: "distinct (map (blocked_usage_count \<circ> snd) rs)"
    and nz: "\<forall>x \<in> set (waiting rs). count_token s (blocked_usage_count (snd x)) \<noteq> 0"
  shows "unlock_context c s = Some (s\<lparr>
    usage_queue_token := (usage_queue_token s)(usage_queue c := spec_queue (pre @ post)),
    count_token := wake_counts (map snd (woken rs)) (count_token s),
    unblocked_task_queue := unblocked_task_queue s @ wake_ready (map snd (woken rs)) (count_token s)\<rparr>)"
proof -
  have lt: "length pre < length (granted rs)" using rs nb by (rule not_waiting_granted)
  show ?thesis
  proof (cases "length (granted rs) = 1")
    case False
    with release_shared(2) [OF rs lt False len] show ?thesis
      by (simp add: unlock_context_def q woken_def wake_counts_def wake_ready_def)
  next
    case True
    note last = release_last [OF rs lt True]
    show ?thesis
    proof (cases "waiting rs")
      case Nil
      with last True show ?thesis
        by (simp add: unlock_context_def q woken_def wake_counts_def wake_ready_def pop_front_blocked_def
            spec_queue_def spec_usage_def)
    next
      case (Cons w ws)
      have g: "granted (w # ws) @ waiting (w # ws) = waiting rs" by (simp add: Cons granted_waiting)
      have "distinct (map (blocked_usage_count \<circ> snd) (granted rs @ granted (w # ws) @ waiting (w # ws)))"
        using d by (metis Cons granted_waiting)
      then have 1: "distinct (map (blocked_usage_count \<circ> snd) (granted (w # ws)))"
        by (simp only: map_append distinct_append)
      have 2: "\<forall>x \<in> set (granted (w # ws)). count_token s (blocked_usage_count (snd x)) \<noteq> 0"
        using nz by (metis g Un_iff set_append)
      have "length (w # ws) \<le> length rs" by (metis Cons granted_waiting le_add2 length_append)
      with len have 3: "length (w # ws) < 2 ^ 32" by simp
      have "pop_front_blocked \<lparr>current_usage = None, blocked_usages_from_tasks = waiting rs\<rparr>
          = (Some w, \<lparr>current_usage = None, blocked_usages_from_tasks = ws\<rparr>)"
        by (simp add: Cons pop_front_blocked_def)
      with last(1,3) last(2) [symmetric] Cons True unblock_loop_wakes [OF 1 2 3] show ?thesis
        by (simp add: unlock_context_def q woken_def del: granted.simps unblock_loop.simps)
    qed
  qed
qed

section \<open>The invariant\<close>

text \<open>
  \<open>core_inv act ready Q C\<close>: the usage queues \<open>Q\<close> are those of the active tasks' requests,
  the counter cells \<open>C\<close> of the blocked tasks count their blocked contexts, and \<open>ready\<close>
  lists the tasks that are blocked nowhere.
\<close>

definition core_inv ::
  "('tx, 'q) active \<Rightarrow> ('tx, 'q) task_inner list \<Rightarrow> ('q \<Rightarrow> ('tx, 'q) usage_queue_inner)
     \<Rightarrow> (nat \<Rightarrow> short_counter) \<Rightarrow> bool" where
  "core_inv act ready Q C \<longleftrightarrow>
     wf_active act \<and> length act < 2 ^ 32 \<and>
     (\<forall>q. Q q = spec_queue (requests act q)) \<and>
     (\<forall>(t, cs) \<in> set act. blocked_ctxs act t cs \<noteq> [] \<longrightarrow>
        unat (C (blocked_usage_count t)) = length (blocked_ctxs act t cs)) \<and>
     distinct ready \<and> set ready = {t. \<exists>cs. (t, cs) \<in> set act \<and> blocked_ctxs act t cs = []}"

text \<open>One context of an unblocked task is unlocked: the tasks behind it move up.\<close>

lemma unlock_requests:
  assumes "wf_active (A @ (t, c # cs) # B)"
  shows "requests (A @ (t, c # cs) # B) (usage_queue c)
      = requests A (usage_queue c) @ (requested_usage c, t) # requests B (usage_queue c)"
    and "requests (A @ (t, cs) # B) (usage_queue c) = requests A (usage_queue c) @ requests B (usage_queue c)"
    and "q \<noteq> usage_queue c \<Longrightarrow> requests (A @ (t, cs) # B) q = requests (A @ (t, c # cs) # B) q"
proof -
  have "usage_queue c \<notin> usage_queue ` set cs" using assms by (auto simp: wf_active_def)
  then show "requests (A @ (t, c # cs) # B) (usage_queue c)
      = requests A (usage_queue c) @ (requested_usage c, t) # requests B (usage_queue c)"
    "requests (A @ (t, cs) # B) (usage_queue c) = requests A (usage_queue c) @ requests B (usage_queue c)"
    by (simp_all add: ctx_requests_Nil)
qed auto

lemma wf_active_shrink: "wf_active (A @ (t, c # cs) # B) \<Longrightarrow> wf_active (A @ (t, cs) # B)"
  by (auto simp: wf_active_def)

lemma unlock_waiting:
  fixes A B :: "('tx, 'q) active"
  assumes wf: "wf_active (A @ (t, c # cs) # B)" and len: "length (A @ (t, c # cs) # B) < 2 ^ 32"
    and nb: "blocked_ctxs (A @ (t, c # cs) # B) t (c # cs) = []"
  shows "waiting (requests (A @ (t, c # cs) # B) q) =
    (if q = usage_queue c then woken (requests (A @ (t, c # cs) # B) (usage_queue c)) else []) @ waiting (requests (A @ (t, cs) # B) q)"
proof (cases "q = usage_queue c")
  case True
  let ?rs = "requests (A @ (t, c # cs) # B) (usage_queue c)"
  have "t \<notin> snd ` set (waiting ?rs)" using nb by (auto simp: blocked_ctxs_def split: if_splits)
  moreover have "length ?rs < 2 ^ 32" using length_requests [OF wf, of "usage_queue c"] len by simp
  ultimately have "waiting ?rs = woken ?rs @ waiting (requests A (usage_queue c) @ requests B (usage_queue c))"
    using waiting_release [OF unlock_requests(1) [OF wf]] by blast
  with True show ?thesis by (simp only: unlock_requests(2) [OF wf] if_True simp_thms)
next
  case False
  then show ?thesis using unlock_requests(3) [OF wf False] by simp
qed

lemma unlock_blocked_ctxs:
  fixes A B :: "('tx, 'q) active"
  assumes wf: "wf_active (A @ (t, c # cs) # B)" and len: "length (A @ (t, c # cs) # B) < 2 ^ 32"
    and nb: "blocked_ctxs (A @ (t, c # cs) # B) t (c # cs) = []"
  shows "blocked_ctxs (A @ (t, cs) # B) t' cs' =
    (if t' \<in> snd ` set (woken (requests (A @ (t, c # cs) # B) (usage_queue c)))
     then filter (\<lambda>c'. usage_queue c' \<noteq> usage_queue c) (blocked_ctxs (A @ (t, c # cs) # B) t' cs')
     else blocked_ctxs (A @ (t, c # cs) # B) t' cs')"
proof -
  let ?act = "A @ (t, c # cs) # B" and ?act' = "A @ (t, cs) # B" and ?q = "usage_queue c"
  let ?N = "woken (requests ?act ?q)"
  note w = unlock_waiting [OF wf len nb]
  have "distinct (map snd (requests ?act ?q))" using wf by (rule distinct_requests_tasks)
  then have "distinct (map snd (granted (requests ?act ?q) @ waiting (requests ?act ?q)))"
    by (simp only: granted_waiting)
  then have dis: "snd ` set ?N \<inter> snd ` set (waiting (requests ?act' ?q)) = {}"
    using w [of ?q] by (simp only: map_append distinct_append set_map if_True simp_thms)
  have "t' \<in> snd ` set (waiting (requests ?act' q)) \<longleftrightarrow>
      t' \<in> snd ` set (waiting (requests ?act q)) \<and> \<not> (q = ?q \<and> t' \<in> snd ` set ?N)" for q
  proof (cases "q = ?q")
    case True
    have "snd ` set (waiting (requests ?act ?q)) = snd ` set ?N \<union> snd ` set (waiting (requests ?act' ?q))"
      using w [of ?q] by (simp only: if_True simp_thms set_append image_Un)
    with dis True show ?thesis by blast
  next
    case False
    with w [of q] show ?thesis by (simp del: requests_simps)
  qed
  then show ?thesis
    unfolding blocked_ctxs_def by (auto intro!: filter_cong simp del: requests_simps)
qed

lemma set_woken: "x \<in> set (woken rs) \<Longrightarrow> x \<in> set (waiting rs)"
  by (auto simp: woken_def dest: set_granted split: if_splits)

lemma blocked_ctxs_Cons: "blocked_ctxs act t (c # cs) = [] \<Longrightarrow> blocked_ctxs act t cs = []"
  by (auto simp: blocked_ctxs_def split: if_splits)

lemma woken_blocked_ctxs:
  assumes wf: "wf_active act" and m: "(t, cs) \<in> set act"
    and w: "t \<in> snd ` set (waiting (requests act q))"
  shows "Suc (length (filter (\<lambda>c. usage_queue c \<noteq> q) (blocked_ctxs act t cs))) = length (blocked_ctxs act t cs)"
proof -
  from w obtain u where "(u, t) \<in> set (waiting (requests act q))" by force
  then have "(u, t) \<in> set (requests act q)" by (rule set_waiting)
  then obtain cs2 c where c2: "(t, cs2) \<in> set act" "c \<in> set cs2" and q: "usage_queue c = q"
    by (auto simp: set_requests)
  from wf_active_task_unique [OF wf m c2(1)] c2(2) have "c \<in> set cs" by simp
  with w q have "c \<in> set (blocked_ctxs act t cs)" by (simp add: blocked_ctxs_def)
  moreover have "distinct (map usage_queue cs)" using wf m by (auto simp: wf_active_def)
  then have "distinct (map usage_queue (blocked_ctxs act t cs))"
    by (simp add: blocked_ctxs_def distinct_map_filter)
  ultimately show ?thesis using length_filter_distinct_key [of usage_queue _ c] q by simp
qed

text \<open>\<open>unlocks act act' t c N\<close>: unlocking context \<open>c\<close> of the unblocked task \<open>t\<close> wakes \<open>N\<close>.\<close>

definition unlocks ::
  "('tx, 'q) active \<Rightarrow> ('tx, 'q) active \<Rightarrow> ('tx, 'q) task_inner \<Rightarrow> 'q lock_context
     \<Rightarrow> ('tx, 'q) task_inner list \<Rightarrow> bool" where
  "unlocks act act' t c N \<longleftrightarrow>
     wf_active act \<and> length act < 2 ^ 32 \<and> N = map snd (woken (requests act (usage_queue c))) \<and>
     (\<exists>A B cs. act = A @ (t, c # cs) # B \<and> act' = A @ (t, cs) # B \<and> blocked_ctxs act t (c # cs) = [])"

lemma unlocks_wf: "unlocks act act' t c N \<Longrightarrow> wf_active act'"
  by (auto simp: unlocks_def dest: wf_active_shrink)

lemma unlocks_others: "unlocks act act' t c N \<Longrightarrow> t' \<noteq> t \<Longrightarrow> (t', cs') \<in> set act' \<longleftrightarrow> (t', cs') \<in> set act"
  by (auto simp: unlocks_def)

lemma unlocks_blocked:
  assumes "unlocks act act' t c N"
  shows "blocked_ctxs act' t' cs' =
     (if t' \<in> set N then filter (\<lambda>c'. usage_queue c' \<noteq> usage_queue c) (blocked_ctxs act t' cs')
      else blocked_ctxs act t' cs')"
proof -
  obtain A B cs where "act = A @ (t, c # cs) # B" "act' = A @ (t, cs) # B" "blocked_ctxs act t (c # cs) = []"
    using assms by (auto simp: unlocks_def)
  with assms unlock_blocked_ctxs [of A t c cs B t' cs'] show ?thesis
    by (simp only: unlocks_def set_map)
qed

lemma unlocks_woken_waits:
  assumes "unlocks act act' t c N" and "t' \<in> set N"
  shows "t' \<in> snd ` set (waiting (requests act (usage_queue c)))"
proof -
  have "N = map snd (woken (requests act (usage_queue c)))" using assms(1) by (simp only: unlocks_def)
  with assms(2) obtain x where "x \<in> set (woken (requests act (usage_queue c)))" "t' = snd x" by auto
  then show ?thesis using set_woken by blast
qed

lemma unlocks_woken:
  assumes "unlocks act act' t c N" and "t' \<in> set N" and "(t', cs') \<in> set act"
  shows "length (blocked_ctxs act t' cs') = Suc (length (blocked_ctxs act' t' cs'))"
  using woken_blocked_ctxs [OF _ assms(3) unlocks_woken_waits [OF assms(1,2)]] assms(1,2)
  by (simp add: unlocks_blocked [OF assms(1)] unlocks_def)

lemma unlocks_woken_active:
  "unlocks act act' t c N \<Longrightarrow> t' \<in> set N \<Longrightarrow> \<exists>cs'. (t', cs') \<in> set act"
  by (drule (1) unlocks_woken_waits) (auto dest!: set_waiting simp: set_requests)

lemma unlocks_self:
  assumes u: "unlocks act act' t c N"
  shows "t \<notin> set N" and "\<exists>cs. (t, cs) \<in> set act \<and> blocked_ctxs act t cs = []"
    and "\<exists>cs. (t, cs) \<in> set act' \<and> blocked_ctxs act' t cs = []"
proof -
  from u obtain A B cs where act: "act = A @ (t, c # cs) # B" "act' = A @ (t, cs) # B"
    and nb: "blocked_ctxs act t (c # cs) = []" by (auto simp: unlocks_def)
  show tN: "t \<notin> set N" using unlocks_woken [OF u, of t "c # cs"] nb act by auto
  show "\<exists>cs. (t, cs) \<in> set act \<and> blocked_ctxs act t cs = []" using act nb by auto
  have "blocked_ctxs act' t cs = []"
    using blocked_ctxs_Cons [OF nb] tN by (simp add: unlocks_blocked [OF u])
  with act show "\<exists>cs. (t, cs) \<in> set act' \<and> blocked_ctxs act' t cs = []" by auto
qed

lemma unlocks_distinct: assumes "unlocks act act' t c N" shows "distinct N"
proof -
  let ?rs = "requests act (usage_queue c)"
  have "wf_active act" using assms by (simp add: unlocks_def)
  then have "distinct (map snd ?rs)" by (rule distinct_requests_tasks)
  then have "distinct (map snd (waiting ?rs))" by (simp add: distinct_parts)
  then have "distinct (map snd (granted (waiting ?rs)))" by (simp add: distinct_parts)
  moreover have "N = map snd (woken ?rs)" using assms by (simp only: unlocks_def)
  ultimately show ?thesis by (simp add: woken_def)
qed

text \<open>The counter cells after waking.\<close>

lemma unlocks_counts:
  assumes u: "unlocks act act' t c N"
    and C: "\<forall>(t, cs) \<in> set act. blocked_ctxs act t cs \<noteq> [] \<longrightarrow>
        unat (C (blocked_usage_count t)) = length (blocked_ctxs act t cs)"
    and m: "(t', cs') \<in> set act'" and ne: "blocked_ctxs act' t' cs' \<noteq> []"
  shows "unat (wake_counts N C (blocked_usage_count t')) = length (blocked_ctxs act' t' cs')"
proof -
  have wf: "wf_active act" using u by (simp add: unlocks_def)
  have neq: "t' \<noteq> t"
    using unlocks_self(3) [OF u] wf_active_task_unique [OF unlocks_wf [OF u] m] ne by auto
  then have m': "(t', cs') \<in> set act" using m unlocks_others [OF u] by simp
  have "blocked_ctxs act t' cs' \<noteq> []" using ne by (auto simp: unlocks_blocked [OF u] split: if_splits)
  with C m' have Ct: "unat (C (blocked_usage_count t')) = length (blocked_ctxs act t' cs')" by blast
  show ?thesis
  proof (cases "t' \<in> set N")
    case True
    then have "C (blocked_usage_count t') \<noteq> 0"
      using Ct unlocks_woken [OF u True m'] by auto
    then show ?thesis using True Ct unlocks_woken [OF u True m']
      by (simp add: wake_counts_def unat_minus_one)
  next
    case False
    have "blocked_usage_count t' \<noteq> blocked_usage_count t2" if t2: "t2 \<in> set N" for t2
    proof -
      obtain cs2 where "(t2, cs2) \<in> set act" using unlocks_woken_active [OF u t2] by blast
      with wf_active_task_unique [OF wf m' this] t2 False show ?thesis by auto
    qed
    then have "blocked_usage_count t' \<notin> blocked_usage_count ` set N" by blast
    with False Ct show ?thesis by (simp add: wake_counts_def unlocks_blocked [OF u])
  qed
qed

text \<open>The tasks that are ready after waking.\<close>

lemma unlocks_ready:
  assumes u: "unlocks act act' t c N"
    and C: "\<forall>(t, cs) \<in> set act. blocked_ctxs act t cs \<noteq> [] \<longrightarrow>
        unat (C (blocked_usage_count t)) = length (blocked_ctxs act t cs)"
  shows "(\<exists>cs'. (t', cs') \<in> set act' \<and> blocked_ctxs act' t' cs' = []) \<longleftrightarrow>
    (\<exists>cs'. (t', cs') \<in> set act \<and> blocked_ctxs act t' cs' = []) \<or> t' \<in> set (wake_ready N C)"
proof (cases "t' \<in> set N")
  case True
  then have neq: "t' \<noteq> t" using unlocks_self(1) [OF u] by auto
  have wf: "wf_active act" using u by (simp add: unlocks_def)
  obtain cs2 where m: "(t', cs2) \<in> set act" using unlocks_woken_active [OF u True] by blast
  have uniq: "(t', cs') \<in> set act \<longleftrightarrow> cs' = cs2" for cs'
    using wf_active_task_unique [OF wf m, of t' cs'] m by auto
  note len = unlocks_woken [OF u True m]
  then have "unat (C (blocked_usage_count t')) = Suc (length (blocked_ctxs act' t' cs2))"
    using bspec [OF C m] by auto
  then have one: "C (blocked_usage_count t') = 1 \<longleftrightarrow> blocked_ctxs act' t' cs2 = []"
    by (simp flip: unat_eq_one_iff)
  have "blocked_ctxs act t' cs2 \<noteq> []" using len by auto
  then show ?thesis using True by (simp add: unlocks_others [OF u neq] uniq one wake_ready_def)
next
  case False
  then have bl: "blocked_ctxs act' t' cs' = blocked_ctxs act t' cs'" for cs'
    by (simp add: unlocks_blocked [OF u])
  show ?thesis
    using False unlocks_self(2,3) [OF u] unlocks_others [OF u, of t'] bl
    by (cases "t' = t") (auto simp: wake_ready_def)
qed

lemma core_inv_unlock:
  assumes inv: "core_inv act ready Q C" and u: "unlocks act act' t c N"
    and Q': "\<forall>q. Q' q = spec_queue (requests act' q)"
  shows "core_inv act' (ready @ wake_ready N C) Q' (wake_counts N C)"
proof -
  from inv have C: "\<forall>(t, cs) \<in> set act. blocked_ctxs act t cs \<noteq> [] \<longrightarrow>
        unat (C (blocked_usage_count t)) = length (blocked_ctxs act t cs)"
    and R: "distinct ready" "set ready = {t. \<exists>cs. (t, cs) \<in> set act \<and> blocked_ctxs act t cs = []}"
    and wf: "wf_active act"
    by (simp_all add: core_inv_def)
  have "x \<notin> set N" if "x \<in> set ready" for x
  proof
    assume N: "x \<in> set N"
    from that R(2) obtain cs where "(x, cs) \<in> set act" "blocked_ctxs act x cs = []" by auto
    with unlocks_woken [OF u N this(1)] show False by simp
  qed
  then have "distinct (ready @ wake_ready N C)"
    using R(1) unlocks_distinct [OF u] by (auto simp: wake_ready_def)
  moreover have "set (ready @ wake_ready N C) = {t. \<exists>cs. (t, cs) \<in> set act' \<and> blocked_ctxs act' t cs = []}"
    using R(2) unlocks_ready [OF u C] by auto
  moreover have "length act' < 2 ^ 32" using u by (auto simp: unlocks_def)
  ultimately show ?thesis
    using unlocks_counts [OF u C] unlocks_wf [OF u] Q' by (auto simp: core_inv_def)
qed

text \<open>A waiting task has a non-zero counter.\<close>

lemma nonzero_count_of_waiting:
  assumes inv: "core_inv act ready Q C"
  shows "\<forall>x \<in> set (waiting (requests act q)). C (blocked_usage_count (snd x)) \<noteq> 0"
proof
  fix x assume x: "x \<in> set (waiting (requests act q))"
  obtain u t where ut: "x = (u, t)" by (cases x)
  have "(u, t) \<in> set (requests act q)" using x ut set_waiting by blast
  then obtain cs where m: "(t, cs) \<in> set act" by (auto simp: set_requests)
  have wf: "wf_active act" using inv by (simp add: core_inv_def)
  have "t \<in> snd ` set (waiting (requests act q))" using x ut by force
  from woken_blocked_ctxs [OF wf m this] have len: "length (blocked_ctxs act t cs) \<noteq> 0" by linarith
  have "\<forall>(t, cs) \<in> set act. blocked_ctxs act t cs \<noteq> [] \<longrightarrow>
        unat (C (blocked_usage_count t)) = length (blocked_ctxs act t cs)"
    using inv by (simp add: core_inv_def)
  from bspec [OF this m] len have "unat (C (blocked_usage_count t)) \<noteq> 0" by simp
  then show "C (blocked_usage_count (snd x)) \<noteq> 0" using ut by auto
qed

end
