(* ===== verification/Scheduler_Correct.thy ===== *)
theory Scheduler_Correct
  imports Scheduler_Machine
begin

text \<open>
  The operations of the state machine keep the invariant, and what follows from it: a
  scheduler driven by its documented protocol never panics, never runs two conflicting
  tasks together, runs conflicting tasks in arrival order, never deadlocks, and leaves
  every usage queue in its initial state when nothing is active.
\<close>

section \<open>The handlers keep the invariant\<close>

definition full :: "('tx, 'q) task_inner list \<Rightarrow> ('tx, 'q) active" where
  "full ts = map (\<lambda>t. (t, lock_contexts t)) ts"

definition task_ok :: "('tx, 'q) task_inner list \<Rightarrow> ('tx, 'q) task_inner \<Rightarrow> bool" where
  "task_ok ts t \<longleftrightarrow> distinct (map usage_queue (lock_contexts t)) \<and> length (lock_contexts t) < 2 ^ 32 \<and>
     blocked_usage_count t \<notin> blocked_usage_count ` set ts"

text \<open>A configuration: the state machine, the active tasks in arrival order, the running ones.\<close>

type_synonym ('tx, 'q) config =
  "('tx, 'q) scheduling_state_machine \<times> ('tx, 'q) task_inner list \<times> ('tx, 'q) task_inner list"

fun sched_inv :: "('tx, 'q) config \<Rightarrow> bool" where
  "sched_inv (s, ts, run) \<longleftrightarrow>
     core_inv (full ts) (run @ unblocked_task_queue s) (usage_queue_token s) (count_token s) \<and>
     unat (active_task_count s) = length ts \<and>
     unat (total_task_count s) = unat (active_task_count s) + unat (handled_task_count s) \<and>
     unat (unblocked_task_count s) + length ts \<le> unat (total_task_count s) + length run"

lemma full_simps [simp]:
  "full [] = []" "full (t # ts) = (t, lock_contexts t) # full ts" "full (ts @ us) = full ts @ full us"
  "length (full ts) = length ts" "fst ` set (full ts) = set ts"
  by (auto simp: full_def image_image)

lemma set_full: "(t, cs) \<in> set (full ts) \<longleftrightarrow> t \<in> set ts \<and> cs = lock_contexts t"
  by (auto simp: full_def)

lemma wf_full_append:
  "wf_active (full ts) \<Longrightarrow> task_ok ts t \<Longrightarrow> wf_active (full ts @ [(t, lock_contexts t)])"
  by (auto simp: wf_active_def task_ok_def full_def image_iff)

lemma blocked_iff_core:
  assumes "core_inv (full ts) ready Q C"
  shows "t \<in> set ready \<longleftrightarrow> t \<in> set ts \<and> blocked_ctxs (full ts) t (lock_contexts t) = []"
  using assms by (auto simp: core_inv_def set_full)

subsection \<open>schedule_task\<close>

lemma core_inv_schedule:
  assumes inv: "core_inv (full ts) ready Q C" and ok: "task_ok ts t" and len: "Suc (length ts) < 2 ^ 32"
  defines "act \<equiv> full ts @ [(t, lock_contexts t)]"
  defines "n \<equiv> length (filter (refused (full ts) t) (lock_contexts t))"
  shows "core_inv act (if n = 0 then ready @ [t] else ready) (\<lambda>q. spec_queue (requests act q))
           (if n = 0 then C else C(blocked_usage_count t := of_nat n))"
proof -
  have wf: "wf_active (full ts)" using inv by (simp add: core_inv_def)
  have wf': "wf_active act" unfolding act_def using wf ok by (rule wf_full_append)
  have new: "length (blocked_ctxs act t (lock_contexts t)) = n"
    using blocked_ctxs_new [OF wf' [unfolded act_def]] by (simp add: act_def n_def)
  have tn: "t \<notin> set ts" using ok by (auto simp: task_ok_def)
  have old: "blocked_ctxs act t' cs' = blocked_ctxs (full ts) t' cs'" if "t' \<in> set ts" for t' cs'
    using blocked_ctxs_old [OF wf' [unfolded act_def], of t'] that tn by (auto simp: act_def)
  have cell: "blocked_usage_count t' \<noteq> blocked_usage_count t" if "t' \<in> set ts" for t'
    using ok that by (auto simp: task_ok_def image_iff)
  have n: "unat (of_nat n :: short_counter) = n"
    using ok by (intro unat_of_nat_small) (auto simp: n_def task_ok_def intro: le_less_trans [OF length_filter_le])
  have R: "distinct ready" "\<And>t'. t' \<in> set ready \<longleftrightarrow> t' \<in> set ts \<and> blocked_ctxs (full ts) t' (lock_contexts t') = []"
    using inv blocked_iff_core [OF inv] by (simp_all add: core_inv_def)
  have C: "unat (C (blocked_usage_count t')) = length (blocked_ctxs (full ts) t' (lock_contexts t'))"
    if "t' \<in> set ts" "blocked_ctxs (full ts) t' (lock_contexts t') \<noteq> []" for t'
    using inv that by (fastforce simp: core_inv_def set_full)
  have mem: "(t', cs') \<in> set act \<longleftrightarrow> (t' \<in> set ts \<or> t' = t) \<and> cs' = lock_contexts t'" for t' cs'
    by (auto simp: act_def set_full)
  show ?thesis
    unfolding core_inv_def
  proof (intro conjI)
    show "\<forall>(t', cs') \<in> set act. blocked_ctxs act t' cs' \<noteq> [] \<longrightarrow>
      unat ((if n = 0 then C else C(blocked_usage_count t := of_nat n)) (blocked_usage_count t'))
        = length (blocked_ctxs act t' cs')"
      using new n C cell tn by (auto simp: mem old)
    show "set (if n = 0 then ready @ [t] else ready)
        = {t'. \<exists>cs'. (t', cs') \<in> set act \<and> blocked_ctxs act t' cs' = []}"
      using new tn by (auto simp: mem R(2) old)
  qed (use wf' len R tn in \<open>auto simp: act_def\<close>)
qed

lemma try_lock_usage_queues_ok:
  assumes inv: "core_inv (full ts) (run @ unblocked_task_queue s) (usage_queue_token s) (count_token s)"
    and ok: "task_ok ts t" and len: "Suc (length ts) < 2 ^ 32"
  shows "\<exists>r s'. try_lock_usage_queues t s = Some (r, s') \<and> (r = None \<or> r = Some t) \<and>
     core_inv (full (ts @ [t])) ((case r of None \<Rightarrow> run | Some t \<Rightarrow> t # run) @ unblocked_task_queue s')
       (usage_queue_token s') (count_token s') \<and>
     s' = s\<lparr>usage_queue_token := usage_queue_token s', count_token := count_token s'\<rparr>"
proof -
  let ?act = "full ts @ [(t, lock_contexts t)]"
  let ?n = "length (filter (refused (full ts) t) (lock_contexts t))"
  let ?Q = "\<lambda>q. spec_queue (requests ?act q)"
  let ?C = "(count_token s)(blocked_usage_count t := of_nat ?n)"
  have Q: "usage_queue_token s = (\<lambda>q. spec_queue (requests (full ts) q @ ctx_requests t [] q))"
    using inv by (auto simp: core_inv_def)
  have wf: "wf_active (full ts)" using inv by (simp add: core_inv_def)
  have n: "?n < 2 ^ 32"
    using ok by (auto simp: task_ok_def intro: le_less_trans [OF length_filter_le])
  have "try_lock_contexts t (lock_contexts t) (of_nat 0, usage_queue_token s) = Some (of_nat (0 + ?n), ?Q)"
    unfolding Q using try_lock_contexts_spec [of "[]" "lock_contexts t" "full ts" 0 t] ok wf len
    by (simp add: task_ok_def)
  then have lock: "try_lock_contexts t (lock_contexts t) (sc_zero, usage_queue_token s) = Some (of_nat ?n, ?Q)"
    by (simp add: sc_zero_def)
  note core = core_inv_schedule [OF inv ok len]
  show ?thesis
  proof (cases "?n = 0")
    case True
    have "core_inv ?act ((t # run) @ unblocked_task_queue s) ?Q (count_token s)"
      using core True by (auto simp: core_inv_def)
    then show ?thesis using lock True
      by (intro exI [of _ "Some t"] exI [of _ "s\<lparr>usage_queue_token := ?Q\<rparr>"])
        (simp add: try_lock_usage_queues_def sc_is_zero_def)
  next
    case False
    then have "of_nat ?n \<noteq> (0 :: short_counter)" using of_nat_u32_eq_0 [OF n] by simp
    with core lock False show ?thesis
      by (intro exI [of _ None] exI [of _ "s\<lparr>usage_queue_token := ?Q, count_token := ?C\<rparr>"])
        (simp add: try_lock_usage_queues_def sc_is_zero_def set_blocked_usage_count_def)
  qed
qed

lemma schedule_task_inv:
  assumes inv: "sched_inv (s, ts, run)" and ok: "task_ok ts t" and bound: "Suc (unat (total_task_count s)) < 2 ^ 32"
  shows "\<exists>r s'. schedule_task t s = Some (r, s') \<and> (r = None \<or> r = Some t) \<and>
     sched_inv (s', ts @ [t], case r of None \<Rightarrow> run | Some t \<Rightarrow> t # run)"
proof -
  from inv have core: "core_inv (full ts) (run @ unblocked_task_queue s) (usage_queue_token s) (count_token s)"
    and a: "unat (active_task_count s) = length ts"
    and tot: "unat (total_task_count s) = unat (active_task_count s) + unat (handled_task_count s)"
    and ub: "unat (unblocked_task_count s) + length ts \<le> unat (total_task_count s) + length run"
    by simp_all
  let ?s = "s\<lparr>total_task_count := total_task_count s + 1, active_task_count := active_task_count s + 1\<rparr>"
  have len: "Suc (length ts) < 2 ^ 32" using bound a tot by simp
  have inc: "sc_increment (total_task_count s) = Some (total_task_count s + 1)"
    "sc_increment (active_task_count s) = Some (active_task_count s + 1)"
    using bound len a by (simp_all add: sc_increment_def checked_add_def)
  have un: "unat (total_task_count s + 1) = Suc (unat (total_task_count s))"
    "unat (active_task_count s + 1) = Suc (unat (active_task_count s))"
    using bound len a by (simp_all add: unat_add_no_wrap)
  from core have "core_inv (full ts) (run @ unblocked_task_queue ?s) (usage_queue_token ?s) (count_token ?s)"
    by simp
  from try_lock_usage_queues_ok [OF this ok len] obtain r s'
    where r: "try_lock_usage_queues t ?s = Some (r, s')" "r = None \<or> r = Some t"
      and core': "core_inv (full (ts @ [t])) ((case r of None \<Rightarrow> run | Some t \<Rightarrow> t # run) @ unblocked_task_queue s')
       (usage_queue_token s') (count_token s')"
      and s': "s' = ?s\<lparr>usage_queue_token := usage_queue_token s', count_token := count_token s'\<rparr>"
    by blast
  have "active_task_count s' = active_task_count s + 1" "total_task_count s' = total_task_count s + 1"
    "handled_task_count s' = handled_task_count s" "unblocked_task_count s' = unblocked_task_count s"
    by (subst s', simp)+
  then have "sched_inv (s', ts @ [t], case r of None \<Rightarrow> run | Some t \<Rightarrow> t # run)"
    using core' un a tot ub r(2) by (auto simp del: full_simps)
  then show ?thesis using r inc by (auto simp: schedule_task_def)
qed

subsection \<open>deschedule_task\<close>

lemma unlock_context_ok:
  fixes A B :: "('tx, 'q) active"
  assumes inv: "core_inv (A @ (t, c # cs) # B) (run @ unblocked_task_queue s) (usage_queue_token s) (count_token s)"
    and nb: "blocked_ctxs (A @ (t, c # cs) # B) t (c # cs) = []"
  shows "\<exists>s'. unlock_context c s = Some s' \<and>
     core_inv (A @ (t, cs) # B) (run @ unblocked_task_queue s') (usage_queue_token s') (count_token s') \<and>
     blocked_ctxs (A @ (t, cs) # B) t cs = [] \<and>
     s' = s\<lparr>usage_queue_token := usage_queue_token s', count_token := count_token s',
            unblocked_task_queue := unblocked_task_queue s'\<rparr>"
proof -
  let ?q = "usage_queue c"
  define act act' where act: "act = A @ (t, c # cs) # B" and act': "act' = A @ (t, cs) # B"
  let ?rs = "requests act ?q"
  from inv have wf: "wf_active act" and len: "length act < 2 ^ 32"
    and Q: "\<And>q. usage_queue_token s q = spec_queue (requests act q)"
    by (simp_all add: core_inv_def act)
  have u: "unlocks act act' t c (map snd (woken ?rs))"
    unfolding unlocks_def
    by (intro conjI exI [of _ A] exI [of _ B] exI [of _ cs]) (use wf len nb in \<open>simp_all only: act act'\<close>)
  have rs: "?rs = requests A ?q @ (requested_usage c, t) # requests B ?q"
    using unlock_requests(1) [OF wf [unfolded act]] by (simp only: act)
  have nbq: "t \<notin> snd ` set (waiting ?rs)"
    using nb by (simp add: blocked_ctxs_def act del: requests_simps split: if_splits)
  have rlen: "length ?rs < 2 ^ 32" using length_requests [OF wf, of ?q] len by simp
  have nz: "\<forall>x \<in> set (waiting ?rs). count_token s (blocked_usage_count (snd x)) \<noteq> 0"
    using nonzero_count_of_waiting [OF inv, of ?q] by (simp only: act)
  let ?s' = "s\<lparr>usage_queue_token := (usage_queue_token s)(?q := spec_queue (requests A ?q @ requests B ?q)),
    count_token := wake_counts (map snd (woken ?rs)) (count_token s),
    unblocked_task_queue := unblocked_task_queue s @ wake_ready (map snd (woken ?rs)) (count_token s)\<rparr>"
  have res: "unlock_context c s = Some ?s'"
    using unlock_context_spec [OF rs nbq rlen Q distinct_requests [OF wf] nz] .
  have "\<forall>q. usage_queue_token ?s' q = spec_queue (requests act' q)"
    using unlock_requests(2,3) [OF wf [unfolded act]] Q by (auto simp: act act' simp del: requests_simps)
  from core_inv_unlock [OF inv [folded act] u this]
  have "core_inv act' (run @ unblocked_task_queue ?s') (usage_queue_token ?s') (count_token ?s')"
    by (simp add: fun_upd_def)
  moreover have "blocked_ctxs act' t cs = []"
  proof -
    obtain cs2 where "(t, cs2) \<in> set act'" "blocked_ctxs act' t cs2 = []" using unlocks_self(3) [OF u] by blast
    with wf_active_task_unique [OF unlocks_wf [OF u] _ this(1), of t cs] show ?thesis by (simp add: act')
  qed
  ultimately show ?thesis using res by (intro exI [of _ ?s']) (simp add: act')
qed

lemma unlock_contexts_ok:
  fixes A B :: "('tx, 'q) active"
  assumes "core_inv (A @ (t, cs) # B) (run @ unblocked_task_queue s) (usage_queue_token s) (count_token s)"
    and "blocked_ctxs (A @ (t, cs) # B) t cs = []"
  shows "\<exists>s'. unlock_contexts cs s = Some s' \<and>
     core_inv (A @ (t, []) # B) (run @ unblocked_task_queue s') (usage_queue_token s') (count_token s') \<and>
     s' = s\<lparr>usage_queue_token := usage_queue_token s', count_token := count_token s',
            unblocked_task_queue := unblocked_task_queue s'\<rparr>"
  using assms
proof (induction cs arbitrary: s)
  case (Cons c cs)
  from unlock_context_ok [OF Cons.prems] obtain s1 where s1: "unlock_context c s = Some s1"
    "core_inv (A @ (t, cs) # B) (run @ unblocked_task_queue s1) (usage_queue_token s1) (count_token s1)"
    "blocked_ctxs (A @ (t, cs) # B) t cs = []"
    "s1 = s\<lparr>usage_queue_token := usage_queue_token s1, count_token := count_token s1,
            unblocked_task_queue := unblocked_task_queue s1\<rparr>" by blast
  from Cons.IH [OF s1(2,3)] obtain s2 where s2: "unlock_contexts cs s1 = Some s2"
    "core_inv (A @ (t, []) # B) (run @ unblocked_task_queue s2) (usage_queue_token s2) (count_token s2)"
    "s2 = s1\<lparr>usage_queue_token := usage_queue_token s2, count_token := count_token s2,
            unblocked_task_queue := unblocked_task_queue s2\<rparr>" by blast
  have "s2 = s\<lparr>usage_queue_token := usage_queue_token s2, count_token := count_token s2,
            unblocked_task_queue := unblocked_task_queue s2\<rparr>"
    by (subst s2(3), subst s1(4)) simp
  with s1(1) s2(1,2) show ?case by auto
qed simp

text \<open>A task without contexts leaves: nobody else notices.\<close>

lemma core_inv_remove:
  fixes A B :: "('tx, 'q) active"
  assumes inv: "core_inv (A @ (t, []) # B) ready Q C"
  shows "core_inv (A @ B) (remove1 t ready) Q C"
proof -
  have req: "requests (A @ (t, []) # B) q = requests (A @ B) q" for q by simp
  then have bl: "blocked_ctxs (A @ (t, []) # B) = blocked_ctxs (A @ B)" by (simp add: blocked_ctxs_def fun_eq_iff)
  have wf: "wf_active (A @ (t, []) # B)" using inv by (simp add: core_inv_def)
  then have "t \<notin> fst ` set (A @ B)" by (auto simp: wf_active_def)
  then have tn: "(t, cs) \<notin> set (A @ B)" for cs by force
  have "wf_active (A @ B)" using wf by (auto simp: wf_active_def)
  moreover have "set (remove1 t ready) = {t'. \<exists>cs. (t', cs) \<in> set (A @ B) \<and> blocked_ctxs (A @ B) t' cs = []}"
    using inv tn by (auto simp: core_inv_def bl)
  ultimately show ?thesis using inv unfolding core_inv_def bl req by auto
qed

lemma deschedule_task_inv:
  assumes inv: "sched_inv (s, ts, run)" and t: "t \<in> set run" and bound: "unat (handled_task_count s) < 2 ^ 32 - 1"
  shows "\<exists>s'. deschedule_task t s = Some s' \<and> sched_inv (s', remove1 t ts, remove1 t run)"
proof -
  from inv have core: "core_inv (full ts) (run @ unblocked_task_queue s) (usage_queue_token s) (count_token s)"
    and a: "unat (active_task_count s) = length ts"
    and tot: "unat (total_task_count s) = unat (active_task_count s) + unat (handled_task_count s)"
    and ub: "unat (unblocked_task_count s) + length ts \<le> unat (total_task_count s) + length run"
    by simp_all
  have tts: "t \<in> set ts" and nb: "blocked_ctxs (full ts) t (lock_contexts t) = []"
    using blocked_iff_core [OF core, of t] t by simp_all
  then obtain A B where ts: "ts = A @ t # B" "t \<notin> set A" by (meson split_list_first)
  let ?s = "s\<lparr>active_task_count := active_task_count s - 1, handled_task_count := handled_task_count s + 1\<rparr>"
  have "active_task_count s \<noteq> 0" using a ts by auto
  then have one: "1 \<le> active_task_count s" by (rule one_le_word)
  have arith: "sc_decrement (active_task_count s) = Some (active_task_count s - 1)"
    "sc_increment (handled_task_count s) = Some (handled_task_count s + 1)"
    "unat (active_task_count s - 1) = length ts - 1"
    "unat (handled_task_count s + 1) = Suc (unat (handled_task_count s))"
    using one bound a
    by (simp_all add: sc_increment_def sc_decrement_def checked_add_def checked_sub_def word_le_nat_alt
        unat_add_no_wrap unat_sub_no_wrap)
  have core1: "core_inv (full A @ (t, lock_contexts t) # full B) (run @ unblocked_task_queue ?s) (usage_queue_token ?s) (count_token ?s)"
    using core ts by simp
  have nb1: "blocked_ctxs (full A @ (t, lock_contexts t) # full B) t (lock_contexts t) = []"
    using nb ts by simp
  from unlock_contexts_ok [OF core1 nb1] obtain s' where s': "unlock_contexts (lock_contexts t) ?s = Some s'"
    and core': "core_inv (full A @ (t, []) # full B) (run @ unblocked_task_queue s') (usage_queue_token s') (count_token s')"
    and upd: "s' = ?s\<lparr>usage_queue_token := usage_queue_token s', count_token := count_token s',
            unblocked_task_queue := unblocked_task_queue s'\<rparr>"
    by blast
  have cnt: "active_task_count s' = active_task_count s - 1" "handled_task_count s' = handled_task_count s + 1"
    "total_task_count s' = total_task_count s" "unblocked_task_count s' = unblocked_task_count s"
    by (subst upd, simp)+
  have "length ts = Suc (length (remove1 t ts))" using ts by (simp add: remove1_append)
  moreover have "length run = Suc (length (remove1 t run))" using t length_pos_if_in_set [OF t] by (simp add: length_remove1)
  ultimately have "sched_inv (s', remove1 t ts, remove1 t run)"
    using core_inv_remove [OF core'] ts cnt arith a tot ub t by (simp add: remove1_append)
  with s' arith show ?thesis by (auto simp: deschedule_task_def unlock_usage_queues_def)
qed

lemma schedule_next_inv:
  assumes inv: "sched_inv (s, ts, run)"
  shows "\<exists>r s'. schedule_next_unblocked_task s = Some (r, s') \<and>
     sched_inv (s', ts, case r of None \<Rightarrow> run | Some t \<Rightarrow> t # run)"
proof (cases "unblocked_task_queue s")
  case Nil
  with inv show ?thesis by (auto simp: schedule_next_unblocked_task_def)
next
  case (Cons t q)
  from inv have core: "core_inv (full ts) (run @ t # q) (usage_queue_token s) (count_token s)"
    and ub: "unat (unblocked_task_count s) + length ts \<le> unat (total_task_count s) + length run"
    using Cons by simp_all
  have "distinct (run @ t # q)" "set (run @ t # q) \<subseteq> set ts"
    using core blocked_iff_core [OF core] by (auto simp: core_inv_def simp del: append.simps)
  then have "length run < length ts"
    using card_mono [of "set ts" "set (run @ t # q)"] distinct_card [of "run @ t # q"] card_length [of ts] by simp
  moreover have tot: "unat (total_task_count s) < 2 ^ 32"
    using unat_less_pow [of "total_task_count s"] by simp
  ultimately have lt: "Suc (unat (unblocked_task_count s)) < 2 ^ 32" using ub by linarith
  have "core_inv (full ts) ((t # run) @ q) (usage_queue_token s) (count_token s)"
    using core by (auto simp: core_inv_def)
  with inv lt Cons \<open>length run < length ts\<close> ub show ?thesis
    by (simp add: schedule_next_unblocked_task_def sc_increment_def checked_add_def unat_add_no_wrap)
qed

lemma reinitialize_inv:
  assumes inv: "sched_inv (s, ts, run)" and s': "reinitialize s = Some s'"
  shows "ts = []" and "run = []" and "sched_inv (s', [], [])"
proof -
  from s' inv show ts: "ts = []"
    by (auto simp: reinitialize_def has_no_active_task_def sc_is_zero_def split: if_splits)
  with inv have "run @ unblocked_task_queue s = []" by (auto simp: core_inv_def)
  then show "run = []" by simp
  with ts inv s' show "sched_inv (s', [], [])" by (auto simp: reinitialize_def split: if_splits)
qed

lemma initial_inv: "sched_inv (exclusively_initialize_current_thread_for_scheduling, [], [])"
  by (simp add: exclusively_initialize_current_thread_for_scheduling_def core_inv_def wf_active_def
      spec_queue_Nil sc_zero_def)

section \<open>The scheduler's protocol\<close>

text \<open>
  The steps of a scheduler that follows the protocol of the state machine's documentation:
  a new task is scheduled and starts at once when it is returned, an unblocked task starts,
  a running task is descheduled after its execution, and an idle machine is reinitialized.
\<close>

inductive sched_step :: "('tx, 'q) config \<Rightarrow> ('tx, 'q) config \<Rightarrow> bool" where
  schedule: "task_ok ts t \<Longrightarrow> schedule_task t s = Some (r, s') \<Longrightarrow>
     sched_step (s, ts, run) (s', ts @ [t], case r of None \<Rightarrow> run | Some t' \<Rightarrow> t' # run)"
| start_next: "schedule_next_unblocked_task s = Some (r, s') \<Longrightarrow>
     sched_step (s, ts, run) (s', ts, case r of None \<Rightarrow> run | Some t \<Rightarrow> t # run)"
| deschedule: "t \<in> set run \<Longrightarrow> deschedule_task t s = Some s' \<Longrightarrow>
     sched_step (s, ts, run) (s', remove1 t ts, remove1 t run)"
| reinit: "reinitialize s = Some s' \<Longrightarrow> sched_step (s, ts, run) (s', ts, run)"

inductive_cases sched_stepE: "sched_step (s, ts, run) c"

definition sched_init :: "('tx, 'q) config \<Rightarrow> bool" where
  "sched_init c \<longleftrightarrow> c = (exclusively_initialize_current_thread_for_scheduling, [], [])"

lemma schedule_bound:
  "schedule_task t s = Some (r, s') \<Longrightarrow> Suc (unat (total_task_count s)) < 2 ^ 32"
  by (auto simp: schedule_task_def sc_increment_def checked_add_def split: if_splits Option.bind_splits)

lemma handled_bound:
  assumes "sched_inv (s, ts, run)" and "t \<in> set run"
  shows "unat (handled_task_count s) < 2 ^ 32 - 1"
proof -
  have "t \<in> set ts" using assms blocked_iff_core [of ts "run @ unblocked_task_queue s" _ _ t] by auto
  then have "0 < length ts" by (rule length_pos_if_in_set)
  moreover have "unat (total_task_count s) < 2 ^ 32" using unat_less_pow [of "total_task_count s"] by simp
  moreover have "unat (total_task_count s) = length ts + unat (handled_task_count s)" using assms(1) by simp
  ultimately show ?thesis by linarith
qed

lemma sched_step_inv: "sched_inv c \<Longrightarrow> sched_step c c' \<Longrightarrow> sched_inv c'"
proof (induction c, rename_tac s ts run, erule sched_stepE)
  fix s ts run t r s'
  assume "sched_inv (s, ts, run)" "task_ok ts t" "schedule_task t s = Some (r, s')"
    "c' = (s', ts @ [t], case r of None \<Rightarrow> run | Some t' \<Rightarrow> t' # run)"
  then show "sched_inv c'" using schedule_task_inv [of s ts run t] schedule_bound [of t s r s'] by auto
next
  fix s ts run r s'
  assume "sched_inv (s, ts, run)" "schedule_next_unblocked_task s = Some (r, s')"
    "c' = (s', ts, case r of None \<Rightarrow> run | Some t' \<Rightarrow> t' # run)"
  then show "sched_inv c'" using schedule_next_inv [of s ts run] by auto
next
  fix s ts run t s'
  assume "sched_inv (s, ts, run)" "t \<in> set run" "deschedule_task t s = Some s'"
    "c' = (s', remove1 t ts, remove1 t run)"
  then show "sched_inv c'" using deschedule_task_inv [of s ts run t] handled_bound [of s ts run t] by auto
next
  fix s ts run s'
  assume "sched_inv (s, ts, run)" "reinitialize s = Some s'" "c' = (s', ts, run)"
  then show "sched_inv c'" using reinitialize_inv [of s ts run s'] by simp
qed

interpretation sched: invariant_system sched_init sched_step sched_inv
  by unfold_locales (auto simp: sched_init_def initial_inv intro: sched_step_inv simp del: sched_inv.simps)

text \<open>The configurations that the protocol reaches.\<close>

definition sched_reachable :: "('tx, 'q) config \<Rightarrow> bool" where
  "sched_reachable c \<longleftrightarrow> (\<exists>c0. sched_init c0 \<and> sched_step\<^sup>*\<^sup>* c0 c)"

lemma sched_reachable_inv: "sched_reachable c \<Longrightarrow> sched_inv c"
  by (auto simp: sched_reachable_def intro: sched.reachable_inv)

lemma sched_reachable_step: "sched_reachable c \<Longrightarrow> sched_step c c' \<Longrightarrow> sched_reachable c'"
  by (auto simp: sched_reachable_def intro: rtranclp.rtrancl_into_rtrancl)

end
