(* ===== verification/Scheduler_Props.thy ===== *)
theory Scheduler_Props
  imports Scheduler_Correct
begin

text \<open>
  The properties of the unified scheduler: which tasks are ready, exclusion of conflicting
  tasks, absence of panics, draining, the refinement of the usage queues, the answer of
  \<open>schedule_task\<close>, the idle state, and the tasks that \<open>create_task\<close> builds.
\<close>

section \<open>Conflicts between tasks\<close>

definition tasks_conflict :: "('tx, 'q) task_inner \<Rightarrow> ('tx, 'q) task_inner \<Rightarrow> bool" where
  "tasks_conflict t1 t2 \<longleftrightarrow>
     (\<exists>c1 \<in> set (lock_contexts t1). \<exists>c2 \<in> set (lock_contexts t2).
        usage_queue c1 = usage_queue c2 \<and>
        (requested_usage c1 = RequestedWritable \<or> requested_usage c2 = RequestedWritable))"

lemma tasks_conflict_sym: "tasks_conflict a b \<longleftrightarrow> tasks_conflict b a"
  unfolding tasks_conflict_def by metis

lemma is_ro_iff: "is_ro (u, t) \<longleftrightarrow> u \<noteq> RequestedWritable"
  by (cases u) (simp_all add: is_ro_def)

lemma requests_at:
  assumes wf: "wf_active (A @ (t, cs) # B)" and c: "c \<in> set cs"
  shows "requests (A @ (t, cs) # B) (usage_queue c)
    = requests A (usage_queue c) @ (requested_usage c, t) # requests B (usage_queue c)"
proof -
  have "distinct (map usage_queue cs)" using wf by (auto simp: wf_active_def)
  then have "ctx_requests t cs (usage_queue c) = [(requested_usage c, t)]"
    using c by (induction cs) (auto simp: ctx_requests_Nil)
  then show ?thesis by simp
qed

lemma waits_at:
  assumes wf: "wf_active (A @ (t, cs) # B)" and c: "c \<in> set cs"
  shows "t \<in> snd ` set (waiting (requests (A @ (t, cs) # B) (usage_queue c))) \<longleftrightarrow>
    (\<exists>x \<in> set (requests A (usage_queue c)). conflicting x (requested_usage c, t))"
proof -
  let ?x = "(requested_usage c, t)" and ?pre = "requests A (usage_queue c)" and ?post = "requests B (usage_queue c)"
  have rs: "requests (A @ (t, cs) # B) (usage_queue c) = ?pre @ ?x # ?post"
    using requests_at [OF wf c] .
  have dm: "distinct (map snd (?pre @ ?x # ?post))"
    using distinct_requests_tasks [OF wf, of "usage_queue c"] rs by simp
  then have d: "distinct (?pre @ ?x # ?post)" by (simp only: distinct_map)
  have n: "t \<notin> snd ` set ?pre" "t \<notin> snd ` set ?post" using dm by auto
  have "t \<in> snd ` set (waiting (?pre @ ?x # ?post)) \<longleftrightarrow> ?x \<in> set (waiting (?pre @ ?x # ?post))"
  proof
    assume "t \<in> snd ` set (waiting (?pre @ ?x # ?post))"
    then obtain y where y: "y \<in> set (waiting (?pre @ ?x # ?post))" "snd y = t" by auto
    then have "y = ?x" using set_waiting [OF y(1)] n by auto
    with y show "?x \<in> set (waiting (?pre @ ?x # ?post))" by simp
  qed force
  then show ?thesis using rw.waits_iff [OF d] by (simp only: rs)
qed

lemma blocked_iff_conflict:
  assumes wf: "wf_active (full (A @ t # B))"
  shows "blocked_ctxs (full (A @ t # B)) t (lock_contexts t) = [] \<longleftrightarrow> (\<forall>t' \<in> set A. \<not> tasks_conflict t' t)"
proof -
  have wf': "wf_active (full A @ (t, lock_contexts t) # full B)" using wf by simp
  have "blocked_ctxs (full (A @ t # B)) t (lock_contexts t) = [] \<longleftrightarrow>
    (\<forall>c \<in> set (lock_contexts t). \<not> (\<exists>x \<in> set (requests (full A) (usage_queue c)). conflicting x (requested_usage c, t)))"
    using waits_at [OF wf'] by (simp add: blocked_ctxs_def filter_empty_conv del: requests_simps)
  also have "\<dots> \<longleftrightarrow> (\<forall>c \<in> set (lock_contexts t). \<forall>u t'. (u, t') \<in> set (requests (full A) (usage_queue c)) \<longrightarrow>
      is_ro (u, t') \<and> is_ro (requested_usage c, t))"
    by (auto simp: conflicting_def)
  also have "\<dots> \<longleftrightarrow> (\<forall>t' \<in> set A. \<not> tasks_conflict t' t)"
    unfolding tasks_conflict_def set_requests set_full is_ro_iff by blast
  finally show ?thesis .
qed

lemma ready_iff:
  assumes "sched_reachable (s, A @ t # B, run)"
  shows "t \<in> set run \<union> set (unblocked_task_queue s) \<longleftrightarrow> (\<forall>t' \<in> set A. \<not> tasks_conflict t' t)"
proof -
  from sched_reachable_inv [OF assms]
  have core: "core_inv (full (A @ t # B)) (run @ unblocked_task_queue s) (usage_queue_token s) (count_token s)"
    by (simp del: full_simps)
  then have "wf_active (full (A @ t # B))" by (simp add: core_inv_def)
  then show ?thesis
    using blocked_iff_core [OF core, of t] blocked_iff_conflict [of A t B] by simp
qed

lemma reachable_ready_active:
  "sched_reachable (s, ts, run) \<Longrightarrow> set run \<union> set (unblocked_task_queue s) \<subseteq> set ts \<and>
     distinct (run @ unblocked_task_queue s) \<and> distinct ts"
  by (drule sched_reachable_inv) (auto simp: core_inv_def wf_active_def set_full full_def distinct_map o_def)

section \<open>Draining\<close>

text \<open>The steps that do not add work: start an unblocked task, finish a running one.\<close>

inductive drain_step :: "('tx, 'q) config \<Rightarrow> ('tx, 'q) config \<Rightarrow> bool" where
  drain_start: "schedule_next_unblocked_task s = Some (Some t, s') \<Longrightarrow>
     drain_step (s, ts, run) (s', ts, t # run)"
| drain_finish: "t \<in> set run \<Longrightarrow> deschedule_task t s = Some s' \<Longrightarrow>
     drain_step (s, ts, run) (s', remove1 t ts, remove1 t run)"

lemma drain_is_step: "drain_step c c' \<Longrightarrow> sched_step c c'"
proof (induction rule: drain_step.induct)
  case (drain_start s t s' ts run)
  then show ?case using sched_step.start_next [of s "Some t" s' ts run] by simp
next
  case (drain_finish t run s s' ts)
  then show ?case by (rule sched_step.deschedule)
qed

fun remaining :: "('tx, 'q) config \<Rightarrow> nat" where
  "remaining (s, ts, run) = 2 * length ts - length run"

lemma reachable_length:
  "sched_reachable (s, ts, run) \<Longrightarrow> length run \<le> length ts"
  using reachable_ready_active [of s ts run] card_mono [of "set ts" "set run"]
  by (simp add: distinct_card)

lemma drain_step_remaining:
  assumes "drain_step c c'" and "sched_reachable c"
  shows "remaining c = Suc (remaining c')"
  using assms
proof (induction rule: drain_step.induct)
  case (drain_start s t s' ts run)
  have "sched_reachable (s', ts, t # run)"
    using sched_reachable_step [OF drain_start(2)] drain_is_step [OF drain_step.drain_start [OF drain_start(1)]] by blast
  from reachable_length [OF this] show ?case by simp
next
  case (drain_finish t run s s' ts)
  have "t \<in> set ts" using reachable_ready_active [OF drain_finish(3)] drain_finish(1) by auto
  then show ?case
    using drain_finish(1) reachable_length [OF drain_finish(3)]
      length_pos_if_in_set [of t run] length_pos_if_in_set [of t ts]
    by (simp add: length_remove1 del: length_greater_0_conv)
qed

lemma drain_progress:
  assumes r: "sched_reachable (s, ts, run)" and ne: "ts \<noteq> []"
  shows "\<exists>c. drain_step (s, ts, run) c"
proof -
  note inv = sched_reachable_inv [OF r]
  obtain t B where ts: "ts = [] @ t # B" using ne by (cases ts) auto
  with ready_iff [of s "[]" t B run] r have ready: "run \<noteq> [] \<or> unblocked_task_queue s \<noteq> []" by auto
  show ?thesis
  proof (cases run)
    case (Cons t run')
    then have m: "t \<in> set run" by simp
    with deschedule_task_inv [OF inv m handled_bound [OF inv m]] show ?thesis
      by (blast intro: drain_step.drain_finish)
  next
    case Nil
    with ready obtain t q where q: "unblocked_task_queue s = t # q" by (cases "unblocked_task_queue s") auto
    from schedule_next_inv [OF inv] obtain x s' where "schedule_next_unblocked_task s = Some (x, s')" by blast
    moreover from this q have "x = Some t" by (auto simp: schedule_next_unblocked_task_def split: bind_splits)
    ultimately show ?thesis by (blast intro: drain_step.drain_start)
  qed
qed

lemma drain_steps:
  "(drain_step ^^ k) c c' \<Longrightarrow> sched_reachable c \<Longrightarrow> sched_reachable c' \<and> remaining c = k + remaining c'"
proof (induction k arbitrary: c')
  case (Suc k)
  then obtain d where "(drain_step ^^ k) c d" "drain_step d c'" by auto
  with Suc.IH [of d] Suc.prems(2) drain_step_remaining [of d c'] show ?case
    by (auto intro: sched_reachable_step drain_is_step)
qed simp

section \<open>A small run, for the witnesses\<close>

text \<open>Two tasks that write address 0, and one that reads address 1.\<close>

definition demo_task :: "nat \<Rightarrow> nat \<Rightarrow> requested_usage \<Rightarrow> (nat, nat) task_inner" where
  "demo_task n q u =
     \<lparr>transaction = n, task_index = of_nat n,
      lock_contexts = [\<lparr>usage_queue = q, requested_usage = u\<rparr>], blocked_usage_count = n\<rparr>"

definition demo_a :: "(nat, nat) task_inner" where
  "demo_a = demo_task 0 0 RequestedWritable"

definition demo_b :: "(nat, nat) task_inner" where
  "demo_b = demo_task 1 0 RequestedWritable"

definition demo_c :: "(nat, nat) task_inner" where
  "demo_c = demo_task 2 1 RequestedReadonly"

definition demo_state :: "(nat, nat) task_inner list \<Rightarrow> (nat, nat) scheduling_state_machine" where
  "demo_state = foldl (\<lambda>s t. snd (the (schedule_task t s))) exclusively_initialize_current_thread_for_scheduling"

lemmas demo_defs = demo_state_def demo_a_def demo_b_def demo_c_def demo_task_def schedule_task_def
  exclusively_initialize_current_thread_for_scheduling_def sc_zero_def sc_increment_def checked_add_def
  try_lock_usage_queues_def try_lock_context_def has_no_blocked_usage_def usage_queue_default_def Let_def
  try_lock_def sc_is_zero_def push_blocked_usage_from_task_def

lemma demo_result:
  "map_option fst (schedule_task demo_a (demo_state [])) = Some (Some demo_a)"
  "map_option fst (schedule_task demo_b (demo_state [demo_a])) = Some None"
  "map_option fst (schedule_task demo_c (demo_state [demo_a, demo_b])) = Some (Some demo_c)"
  by (simp_all add: demo_defs)

lemma demo_tasks_ok:
  "task_ok [] demo_a" "task_ok [demo_a] demo_b" "task_ok [demo_a, demo_b] demo_c"
  by (simp_all add: task_ok_def demo_a_def demo_b_def demo_c_def demo_task_def)

lemma demo_step:
  assumes "map_option fst (schedule_task t (demo_state ts)) = Some r" and "task_ok ts t"
  shows "sched_step (demo_state ts, ts, run) (demo_state (ts @ [t]), ts @ [t], case r of None \<Rightarrow> run | Some t \<Rightarrow> t # run)"
proof -
  obtain s' where "schedule_task t (demo_state ts) = Some (r, s')" using assms(1) by auto
  moreover from this have "demo_state (ts @ [t]) = s'" by (simp add: demo_state_def)
  ultimately show ?thesis using sched_step.schedule [OF assms(2)] by blast
qed

lemma demo_reachable: "sched_reachable (demo_state [demo_a, demo_b, demo_c], [demo_a, demo_b, demo_c], [demo_c, demo_a])"
proof -
  have "sched_reachable (demo_state [], [], [])"
    by (auto simp: sched_reachable_def sched_init_def demo_state_def)
  from sched_reachable_step [OF this demo_step [OF demo_result(1) demo_tasks_ok(1)]]
  have "sched_reachable (demo_state [demo_a], [demo_a], [demo_a])" by simp
  from sched_reachable_step [OF this demo_step [OF demo_result(2) demo_tasks_ok(2)]]
  have "sched_reachable (demo_state [demo_a, demo_b], [demo_a, demo_b], [demo_a])" by simp
  from sched_reachable_step [OF this demo_step, of demo_c "Some demo_c"] demo_result(3) demo_tasks_ok(3)
  show ?thesis by simp
qed

section \<open>The properties\<close>

text \<open>C2. In every state that the protocol reaches, an active task is ready (running, or queued
  as unblocked) exactly when no task that arrived before it and is still active conflicts with
  it: conflicting tasks execute in arrival order, and nothing else ever waits.\<close>

theorem ready_iff_no_earlier_conflict:
  assumes "sched_reachable (s, A @ t # B, run)"
  shows "t \<in> set run \<union> set (unblocked_task_queue s) \<longleftrightarrow> (\<forall>t' \<in> set A. \<not> tasks_conflict t' t)"
  using assms by (rule ready_iff)

theorem ready_iff_no_earlier_conflict_witness:
  "demo_b \<notin> set [demo_c, demo_a] \<union> set (unblocked_task_queue (demo_state [demo_a, demo_b, demo_c]))"
  using ready_iff_no_earlier_conflict [of "demo_state [demo_a, demo_b, demo_c]" "[demo_a]" demo_b "[demo_c]" "[demo_c, demo_a]"]
    demo_reachable
  by (simp add: tasks_conflict_def demo_a_def demo_b_def demo_task_def)

text \<open>C1. Two different tasks that run at the same time never conflict: no address is written by
  one of them while the other one uses it.\<close>

theorem running_tasks_exclusive:
  assumes r: "sched_reachable (s, ts, run)" and t: "t1 \<in> set run" "t2 \<in> set run" "t1 \<noteq> t2"
  shows "\<not> tasks_conflict t1 t2"
proof -
  have "t1 \<in> set ts" "t2 \<in> set ts" using reachable_ready_active [OF r] t by auto
  then obtain A B where ts: "ts = A @ t2 # B" and "t1 \<in> set A \<or> t1 \<in> set B"
    using t(3) by (metis in_set_conv_decomp Un_iff set_append set_ConsD)
  then consider "t1 \<in> set A" | C D where "B = C @ t1 # D" by (meson split_list)
  then show ?thesis
  proof cases
    case 1
    with ready_iff [of s A t2 B run] r t(2) ts show ?thesis by auto
  next
    case 2
    with ready_iff [of s "A @ t2 # C" t1 D run] r t(1) ts tasks_conflict_sym [of t1 t2] show ?thesis by auto
  qed
qed

theorem running_tasks_exclusive_witness: "\<not> tasks_conflict demo_c demo_a"
  using running_tasks_exclusive [OF demo_reachable, of demo_c demo_a]
  by (simp add: demo_a_def demo_c_def demo_task_def)

text \<open>C15. The handlers never panic in a reachable state: a running task can always be descheduled,
  the next unblocked task can always be taken, and a fresh task can be scheduled as long as the
  \<open>u32\<close> counter of all tasks has room.\<close>

theorem scheduler_never_panics:
  assumes r: "sched_reachable (s, ts, run)"
  shows "(\<forall>t \<in> set run. deschedule_task t s \<noteq> None) \<and> schedule_next_unblocked_task s \<noteq> None \<and>
     (\<forall>t. task_ok ts t \<and> Suc (unat (total_task_count s)) < 2 ^ 32 \<longrightarrow> schedule_task t s \<noteq> None)"
proof (intro conjI ballI allI impI)
  note inv = sched_reachable_inv [OF r]
  show "deschedule_task t s \<noteq> None" if "t \<in> set run" for t
    using deschedule_task_inv [OF inv that handled_bound [OF inv that]] by auto
  show "schedule_next_unblocked_task s \<noteq> None" using schedule_next_inv [OF inv] by auto
  show "schedule_task t s \<noteq> None" if "task_ok ts t \<and> Suc (unat (total_task_count s)) < 2 ^ 32" for t
    using schedule_task_inv [OF inv, of t] that by auto
qed

theorem scheduler_never_panics_witness:
  "deschedule_task demo_a (demo_state [demo_a, demo_b, demo_c]) \<noteq> None"
  using scheduler_never_panics [OF demo_reachable] by simp

text \<open>C18. The scheduler drains. Without new tasks, every sequence of starts and completions, in
  whatever order they happen, uses up exactly one unit of \<open>2 * active - running\<close> per step,
  and it can go on as long as a task is active: there is no deadlock, and after that many steps
  every task has run and nothing is left.\<close>

theorem scheduler_drains:
  assumes r: "sched_reachable (s, ts, run)" and d: "(drain_step ^^ k) (s, ts, run) (s', ts', run')"
  shows "2 * length ts - length run = k + (2 * length ts' - length run') \<and>
     (ts' \<noteq> [] \<longrightarrow> (\<exists>c. drain_step (s', ts', run') c)) \<and>
     (k = 2 * length ts - length run \<longrightarrow> ts' = [] \<and> run' = [] \<and> unblocked_task_queue s' = [])"
proof (intro conjI impI)
  from drain_steps [OF d r] have r': "sched_reachable (s', ts', run')"
    and eq: "2 * length ts - length run = k + (2 * length ts' - length run')" by auto
  show "2 * length ts - length run = k + (2 * length ts' - length run')" by (rule eq)
  show "\<exists>c. drain_step (s', ts', run') c" if "ts' \<noteq> []" using drain_progress [OF r' that] .
  assume "k = 2 * length ts - length run"
  with eq reachable_length [OF r'] have "length ts' = 0" by linarith
  then show ts': "ts' = []" by simp
  then show "run' = []" "unblocked_task_queue s' = []" using reachable_ready_active [OF r'] by auto
qed

theorem scheduler_drains_witness:
  "\<exists>c. drain_step (demo_state [demo_a, demo_b, demo_c], [demo_a, demo_b, demo_c], [demo_c, demo_a]) c"
  using scheduler_drains [OF demo_reachable, of 0] by simp

text \<open>C35. Refinement: in every reachable state each usage queue is the reader-writer queue of the
  requests of the active tasks in arrival order, and the counter cell of a blocked task holds
  the number of its lock contexts that wait.\<close>

theorem usage_queues_refine_requests:
  assumes r: "sched_reachable (s, ts, run)"
  shows "usage_queue_token s q = spec_queue (requests (full ts) q) \<and>
     (\<forall>t \<in> set ts. blocked_ctxs (full ts) t (lock_contexts t) \<noteq> [] \<longrightarrow>
        unat (count_token s (blocked_usage_count t)) = length (blocked_ctxs (full ts) t (lock_contexts t)))"
proof -
  from sched_reachable_inv [OF r]
  have core: "core_inv (full ts) (run @ unblocked_task_queue s) (usage_queue_token s) (count_token s)" by simp
  have "(t, lock_contexts t) \<in> set (full ts)" if "t \<in> set ts" for t using that by (simp add: set_full)
  with core show ?thesis unfolding core_inv_def by blast
qed

theorem usage_queues_refine_requests_witness:
  "usage_queue_token (demo_state [demo_a, demo_b, demo_c]) 0
     = spec_queue [(RequestedWritable, demo_a), (RequestedWritable, demo_b)]"
  using usage_queues_refine_requests [OF demo_reachable, of 0]
  by (simp add: demo_a_def demo_b_def demo_c_def demo_task_def)

lemma schedule_task_keeps_unblocked:
  "schedule_task t s = Some (r, s') \<Longrightarrow> unblocked_task_queue s' = unblocked_task_queue s"
  by (auto simp: schedule_task_def try_lock_usage_queues_def split: option.splits if_splits bind_splits)

text \<open>\<open>schedule_task\<close> hands the task back, to be executed at once, exactly when it conflicts
  with no active task.\<close>

theorem schedule_task_runs_iff:
  assumes r: "sched_reachable (s, ts, run)" and ok: "task_ok ts t" and res: "schedule_task t s = Some (x, s')"
  shows "x = (if \<exists>t' \<in> set ts. tasks_conflict t' t then None else Some t)"
proof -
  have x: "x = None \<or> x = Some t"
    using schedule_task_inv [OF sched_reachable_inv [OF r] ok schedule_bound [OF res]] res by auto
  have tn: "t \<notin> set ts" using ok by (auto simp: task_ok_def)
  then have n: "t \<notin> set run" "t \<notin> set (unblocked_task_queue s')"
    using reachable_ready_active [OF r] schedule_task_keeps_unblocked [OF res] by auto
  have "sched_reachable (s', ts @ t # [], case x of None \<Rightarrow> run | Some t \<Rightarrow> t # run)"
    using sched_reachable_step [OF r sched_step.schedule [OF ok res]] by simp
  from ready_iff [OF this] x n show ?thesis by (auto split: if_splits)
qed

theorem schedule_task_runs_iff_witness:
  "map_option fst (schedule_task (demo_task 3 0 RequestedReadonly) (demo_state [demo_a, demo_b, demo_c])) = Some None"
proof -
  let ?t = "demo_task 3 0 RequestedReadonly" and ?s = "demo_state [demo_a, demo_b, demo_c]"
  have ok: "task_ok [demo_a, demo_b, demo_c] ?t"
    by (simp add: task_ok_def demo_a_def demo_b_def demo_c_def demo_task_def)
  have "total_task_count ?s = 3" by (simp add: demo_defs)
  then obtain x s' where res: "schedule_task ?t ?s = Some (x, s')"
    using schedule_task_inv [OF sched_reachable_inv [OF demo_reachable] ok] by auto
  from schedule_task_runs_iff [OF demo_reachable ok res] have "x = None"
    by (simp add: tasks_conflict_def demo_a_def demo_task_def)
  with res show ?thesis by simp
qed

text \<open>An idle scheduler is a fresh one: when no task is active, nothing runs or waits, every
  usage queue is back in its default state, and \<open>reinitialize\<close> succeeds and zeroes the counters.\<close>

theorem idle_is_fresh:
  assumes r: "sched_reachable (s, ts, run)" and idle: "has_no_active_task s"
  shows "ts = [] \<and> run = [] \<and> unblocked_task_queue s = [] \<and>
     usage_queue_token s = (\<lambda>_. usage_queue_default) \<and>
     reinitialize s = Some (exclusively_initialize_current_thread_for_scheduling\<lparr>count_token := count_token s\<rparr>)"
proof -
  from sched_reachable_inv [OF r] idle have ts: "ts = []"
    by (auto simp: has_no_active_task_def sc_is_zero_def)
  with reachable_ready_active [OF r] have e: "run = []" "unblocked_task_queue s = []" by auto
  have Q: "usage_queue_token s = (\<lambda>_. usage_queue_default)"
    using sched_reachable_inv [OF r] ts by (auto simp: core_inv_def spec_queue_Nil)
  show ?thesis using ts e Q idle
    by (cases s) (simp add: reinitialize_def exclusively_initialize_current_thread_for_scheduling_def sc_zero_def)
qed

theorem idle_is_fresh_witness:
  "reinitialize (exclusively_initialize_current_thread_for_scheduling :: (nat, nat) scheduling_state_machine)
     = Some exclusively_initialize_current_thread_for_scheduling"
proof -
  let ?s = "exclusively_initialize_current_thread_for_scheduling :: (nat, nat) scheduling_state_machine"
  have r: "sched_reachable (?s, [], [])" by (auto simp: sched_reachable_def sched_init_def)
  have "has_no_active_task ?s"
    by (simp add: has_no_active_task_def sc_is_zero_def exclusively_initialize_current_thread_for_scheduling_def sc_zero_def)
  with idle_is_fresh [OF r] show ?thesis by simp
qed

text \<open>\<open>create_task\<close> locks exactly the queues of the transaction's accounts, writable where the
  message says so. With distinct account keys, a loader that gives every key its own queue and a
  new counter cell, the task is one that the state machine accepts.\<close>

theorem create_task_ok:
  fixes loader :: "'k \<Rightarrow> 'q"
  assumes d: "distinct (account_keys tx)" and inj: "inj loader" and len: "length (account_keys tx) < 2 ^ 32"
    and fresh: "cell \<notin> blocked_usage_count ` set ts"
    and t_def: "t = fst (create_task account_keys is_writable loader tx index cell counts)"
  shows "task_ok ts t \<and> length (lock_contexts t) = length (account_keys tx) \<and>
     (\<forall>i < length (account_keys tx). usage_queue (lock_contexts t ! i) = loader (account_keys tx ! i) \<and>
        (requested_usage (lock_contexts t ! i) = RequestedWritable \<longleftrightarrow> is_writable tx i))"
proof -
  have "map usage_queue (lock_contexts t) = map loader (account_keys tx)"
    by (rule nth_equalityI) (simp_all add: t_def create_task_def nth_enumerate_eq)
  moreover have "distinct (map loader (account_keys tx))"
    using d inj by (auto simp: distinct_map intro: inj_on_subset)
  moreover have "length (lock_contexts t) = length (account_keys tx)" "blocked_usage_count t = cell"
    by (simp_all add: t_def create_task_def)
  ultimately show ?thesis
    using len fresh by (auto simp: task_ok_def t_def create_task_def nth_enumerate_eq)
qed

theorem create_task_ok_witness:
  "task_ok [demo_a] (fst (create_task (\<lambda>_. [7, 9]) (\<lambda>_ i. i = 0) (\<lambda>k. k) (5 :: nat) 0 1 (\<lambda>_. 0) :: (nat, nat) task_inner \<times> _))"
  using create_task_ok [of "\<lambda>_. [7, 9 :: nat]" "5 :: nat" "\<lambda>k. k" 1 "[demo_a]" _ "\<lambda>_ i. i = 0" 0 "\<lambda>_. 0", OF _ _ _ _ refl]
  by (simp add: demo_a_def demo_task_def inj_def)

end
