(* ===== verification/Held_Locks.thy ===== *)
theory Held_Locks
  imports Rust_Prelude "HOL-Library.Multiset"
begin

text \<open>
  Multisets of held locks, which the two lock tables represent: a machine-sized counter of one
  kind of lock cannot overflow while the number of all held locks fits.
\<close>

lemma count_le_size: "count M x \<le> size M"
  by (metis count_le_replicate_mset_subset_eq size_mset_mono size_replicate_mset le_refl)

lemma unat_of_nat_count:
  "size M < 2 ^ LENGTH('a) \<Longrightarrow> unat (of_nat (count M x) :: 'a::len word) = count M x"
  using count_le_size [of M x] by (intro unat_of_nat_small) simp

end
