(* ===== verification/Account_Locks.thy ===== *)
theory Account_Locks
  imports Held_Locks
begin

text \<open>
  The account locks of the accounts database (\<^verbatim>\<open>accounts-db/src/account_locks.rs\<close> and the
  batch operations of \<^verbatim>\<open>accounts-db/src/accounts.rs\<close>): a set of write locks, a map of read
  counts, all-or-nothing locking of a transaction's keys, and the check for duplicate keys.
  The table is shown to represent the multiset of the locks that are held.

  The release build has no \<open>debug_assert!\<close>, so unlocking something that is not locked does
  nothing. \<open>AccountKeys\<close> is the list of keys it iterates over.
\<close>

section \<open>The lock table\<close>

text \<open>The errors this code returns; the other ones are only passed through.\<close>

datatype transaction_error =
  AccountInUse | TooManyAccountLocks | AccountLoadedTwice | OtherTransactionError nat

record 'k account_locks =
  write_locks :: "'k set"
  readonly_locks :: "'k \<Rightarrow> u64 option"

definition account_locks_default :: "'k account_locks" where
  "account_locks_default = \<lparr>write_locks = {}, readonly_locks = (\<lambda>_. None)\<rparr>"

definition is_locked_readonly :: "'k \<Rightarrow> 'k account_locks \<Rightarrow> bool" where
  "is_locked_readonly key al = (case readonly_locks al key of Some cnt \<Rightarrow> cnt > 0 | None \<Rightarrow> False)"

definition is_locked_write :: "'k \<Rightarrow> 'k account_locks \<Rightarrow> bool" where
  "is_locked_write key al \<longleftrightarrow> key \<in> write_locks al"

definition can_read_lock :: "'k \<Rightarrow> 'k account_locks \<Rightarrow> bool" where
  "can_read_lock key al \<longleftrightarrow> \<not> is_locked_write key al"

definition can_write_lock :: "'k \<Rightarrow> 'k account_locks \<Rightarrow> bool" where
  "can_write_lock key al \<longleftrightarrow> \<not> is_locked_readonly key al \<and> \<not> is_locked_write key al"

definition lock_readonly :: "'k \<Rightarrow> 'k account_locks \<Rightarrow> 'k account_locks" where
  "lock_readonly key al = al\<lparr>readonly_locks := (readonly_locks al)
     (key \<mapsto> (case readonly_locks al key of Some cnt \<Rightarrow> cnt | None \<Rightarrow> 0) + 1)\<rparr>"

definition lock_write :: "'k \<Rightarrow> 'k account_locks \<Rightarrow> 'k account_locks" where
  "lock_write key al = al\<lparr>write_locks := insert key (write_locks al)\<rparr>"

definition unlock_readonly :: "'k \<Rightarrow> 'k account_locks \<Rightarrow> 'k account_locks" where
  "unlock_readonly key al =
     (case readonly_locks al key of
        Some cnt \<Rightarrow>
          if cnt - 1 = 0 then al\<lparr>readonly_locks := (readonly_locks al)(key := None)\<rparr>
          else al\<lparr>readonly_locks := (readonly_locks al)(key \<mapsto> cnt - 1)\<rparr>
      | None \<Rightarrow> al)"

definition unlock_write :: "'k \<Rightarrow> 'k account_locks \<Rightarrow> 'k account_locks" where
  "unlock_write key al = al\<lparr>write_locks := write_locks al - {key}\<rparr>"

text \<open>The two loops of \<open>try_lock_accounts\<close>: the first one only checks.\<close>

fun check_locks :: "('k \<times> bool) list \<Rightarrow> 'k account_locks \<Rightarrow> transaction_error + unit" where
  "check_locks [] al = Inr ()"
| "check_locks ((key, writable) # keys) al =
     (if writable then
        if \<not> can_write_lock key al then Inl AccountInUse else check_locks keys al
      else if \<not> can_read_lock key al then Inl AccountInUse else check_locks keys al)"

fun take_locks :: "('k \<times> bool) list \<Rightarrow> 'k account_locks \<Rightarrow> 'k account_locks" where
  "take_locks [] al = al"
| "take_locks ((key, writable) # keys) al =
     take_locks keys (if writable then lock_write key al else lock_readonly key al)"

definition try_lock_accounts ::
  "('k \<times> bool) list \<Rightarrow> 'k account_locks \<Rightarrow> (transaction_error + unit) \<times> 'k account_locks" where
  "try_lock_accounts keys al =
     (case check_locks keys al of Inl e \<Rightarrow> (Inl e, al) | Inr _ \<Rightarrow> (Inr (), take_locks keys al))"

fun unlock_accounts :: "('k \<times> bool) list \<Rightarrow> 'k account_locks \<Rightarrow> 'k account_locks" where
  "unlock_accounts [] al = al"
| "unlock_accounts ((k, writable) # keys) al =
     unlock_accounts keys (if writable then unlock_write k al else unlock_readonly k al)"

section \<open>Validation of the keys\<close>

definition USE_ACCOUNT_LOCK_SET_SIZE :: nat where
  "USE_ACCOUNT_LOCK_SET_SIZE = 32"

text \<open>\<open>iter().any(|key| !set.insert(key))\<close>, which stops at the first repeated key.\<close>

fun any_not_inserted :: "'k list \<Rightarrow> 'k set \<Rightarrow> bool \<times> 'k set" where
  "any_not_inserted [] S = (False, S)"
| "any_not_inserted (key # keys) S =
     (if key \<in> S then (True, S) else any_not_inserted keys (insert key S))"

text \<open>The thread-local set is threaded through as state.\<close>

definition has_duplicates :: "'k list \<Rightarrow> 'k set \<Rightarrow> bool \<times> 'k set" where
  "has_duplicates account_keys S =
     (if length account_keys \<ge> USE_ACCOUNT_LOCK_SET_SIZE
      then let (has_duplicates, _) = any_not_inserted account_keys S in (has_duplicates, {})
      else (list_ex (\<lambda>idx. list_ex (\<lambda>jdx. account_keys ! idx = account_keys ! jdx)
              [Suc idx..<length account_keys]) [0..<length account_keys], S))"

definition validate_account_locks ::
  "'k list \<Rightarrow> nat \<Rightarrow> 'k set \<Rightarrow> (transaction_error + unit) \<times> 'k set" where
  "validate_account_locks account_keys tx_account_lock_limit S =
     (if length account_keys > tx_account_lock_limit then (Inl TooManyAccountLocks, S)
      else case has_duplicates account_keys S of
        (True, S') \<Rightarrow> (Inl AccountLoadedTwice, S')
      | (False, S') \<Rightarrow> (Inr (), S'))"

section \<open>Batches of transactions\<close>

record 'k svm_message =
  account_keys :: "'k list"
  is_writable :: "nat \<Rightarrow> bool"

definition accounts_with_is_writable :: "'k svm_message \<Rightarrow> ('k \<times> bool) list" where
  "accounts_with_is_writable tx = map (\<lambda>(index, key). (key, is_writable tx index)) (enumerate 0 (account_keys tx))"

fun lock_accounts_inner ::
  "(transaction_error + 'k svm_message) list \<Rightarrow> 'k account_locks
     \<Rightarrow> (transaction_error + unit) list \<times> 'k account_locks" where
  "lock_accounts_inner [] al = ([], al)"
| "lock_accounts_inner (Inl err # rest) al =
     (let (rs, al') = lock_accounts_inner rest al in (Inl err # rs, al'))"
| "lock_accounts_inner (Inr tx # rest) al =
     (let (r, al') = try_lock_accounts (accounts_with_is_writable tx) al;
          (rs, al'') = lock_accounts_inner rest al'
      in (r # rs, al''))"

text \<open>The validation of one transaction, on the thread's empty set.\<close>

definition validated :: "nat \<Rightarrow> 'k svm_message \<Rightarrow> transaction_error + 'k svm_message" where
  "validated limit tx = rbind (fst (validate_account_locks (account_keys tx) limit {})) (\<lambda>_. Inr tx)"

definition lock_accounts ::
  "'k svm_message list \<Rightarrow> nat \<Rightarrow> 'k account_locks
     \<Rightarrow> (transaction_error + unit) list \<times> 'k account_locks" where
  "lock_accounts txs limit al = lock_accounts_inner (map (validated limit) txs) al"

definition lock_accounts_with_results ::
  "'k svm_message list \<Rightarrow> (transaction_error + unit) list \<Rightarrow> nat \<Rightarrow> 'k account_locks
     \<Rightarrow> (transaction_error + unit) list \<times> 'k account_locks" where
  "lock_accounts_with_results txs results limit al =
     lock_accounts_inner
       (map (\<lambda>(tx, result). case result of Inr () \<Rightarrow> validated limit tx | Inl err \<Rightarrow> Inl err)
          (zip txs results)) al"

fun unlock_loop ::
  "('k svm_message \<times> (transaction_error + unit)) list \<Rightarrow> 'k account_locks \<Rightarrow> 'k account_locks" where
  "unlock_loop [] al = al"
| "unlock_loop ((tx, res) # rest) al =
     unlock_loop rest (case res of Inr _ \<Rightarrow> unlock_accounts (accounts_with_is_writable tx) al | Inl _ \<Rightarrow> al)"

definition unlock_batch ::
  "('k svm_message \<times> (transaction_error + unit)) list \<Rightarrow> 'k account_locks \<Rightarrow> 'k account_locks" where
  "unlock_batch txs_and_results al =
     (if \<not> list_ex (\<lambda>(_, res). case res of Inr _ \<Rightarrow> True | Inl _ \<Rightarrow> False) txs_and_results then al
      else unlock_loop txs_and_results al)"

section \<open>The table represents the held locks\<close>

type_synonym 'k held = "('k \<times> bool) multiset"

definition lock_conflict :: "'k held \<Rightarrow> 'k \<times> bool \<Rightarrow> bool" where
  "lock_conflict held kw \<longleftrightarrow> (fst kw, True) \<in># held \<or> (snd kw \<and> (fst kw, False) \<in># held)"

definition lock_repr :: "'k held \<Rightarrow> 'k account_locks \<Rightarrow> bool" where
  "lock_repr held al \<longleftrightarrow>
     size held < 2 ^ 64 \<and>
     (\<forall>k. count held (k, True) \<le> 1 \<and> ((k, True) \<in># held \<longrightarrow> (k, False) \<notin># held)) \<and>
     write_locks al = {k. (k, True) \<in># held} \<and>
     readonly_locks al = (\<lambda>k. if (k, False) \<in># held then Some (of_nat (count held (k, False))) else None)"

lemma lock_repr_default: "lock_repr {#} account_locks_default"
  by (simp add: lock_repr_def account_locks_default_def)

lemma lock_repr_unique: "lock_repr held al \<Longrightarrow> lock_repr held al' \<Longrightarrow> al = al'"
  by (simp add: lock_repr_def)

lemma lock_repr_count: "lock_repr held al \<Longrightarrow> count held (k, True) \<le> 1"
  by (simp add: lock_repr_def)

lemma of_nat_u64_eq_0: "n < 2 ^ 64 \<Longrightarrow> (of_nat n :: u64) = 0 \<longleftrightarrow> n = 0"
  by (auto dest!: arg_cong [where f = unat] simp: unat_of_nat)

lemma can_lock_iff:
  assumes "lock_repr held al"
  shows "can_write_lock k al \<longleftrightarrow> \<not> lock_conflict held (k, True)"
    and "can_read_lock k al \<longleftrightarrow> \<not> lock_conflict held (k, False)"
proof -
  have "count held (k, False) < 2 ^ 64" using assms count_le_size [of held "(k, False)"] by (simp add: lock_repr_def)
  then have "is_locked_readonly k al \<longleftrightarrow> (k, False) \<in># held"
    using assms of_nat_u64_eq_0 [of "count held (k, False)"]
    by (auto simp: lock_repr_def is_locked_readonly_def word_gt_0 simp flip: count_greater_zero_iff)
  moreover have "is_locked_write k al \<longleftrightarrow> (k, True) \<in># held"
    using assms by (simp add: lock_repr_def is_locked_write_def)
  ultimately show "can_write_lock k al \<longleftrightarrow> \<not> lock_conflict held (k, True)"
    and "can_read_lock k al \<longleftrightarrow> \<not> lock_conflict held (k, False)"
    by (auto simp: can_write_lock_def can_read_lock_def lock_conflict_def)
qed

text \<open>One key is locked or unlocked.\<close>

lemma lock_one:
  assumes "lock_repr held al" and "\<not> lock_conflict held (k, w)" and "Suc (size held) < 2 ^ 64"
  shows "lock_repr (add_mset (k, w) held) (if w then lock_write k al else lock_readonly k al)"
proof (cases w)
  case True
  then have n: "(k, True) \<notin># held" "(k, False) \<notin># held" using assms(2) by (auto simp: lock_conflict_def)
  then have "count held (k, True) = 0" by (simp add: not_in_iff)
  with True n assms(1,3) show ?thesis by (auto simp: lock_repr_def lock_write_def fun_eq_iff)
next
  case False
  then have "(k, True) \<notin># held" using assms(2) by (auto simp: lock_conflict_def)
  moreover have "(k, False) \<notin># held \<Longrightarrow> count held (k, False) = 0" by (simp add: not_in_iff)
  ultimately show ?thesis using False assms(1,3)
    by (auto simp: lock_repr_def lock_readonly_def fun_eq_iff)
qed

lemma unlock_one:
  assumes "lock_repr (add_mset (k, w) held) al"
  shows "lock_repr held (if w then unlock_write k al else unlock_readonly k al)"
proof (cases w)
  case True
  have "count (add_mset (k, True) held) (k, True) \<le> 1"
    using lock_repr_count [OF assms, of k] True by simp
  then have "(k, True) \<notin># held" by (simp add: not_in_iff)
  moreover have "count held (k', True) \<le> 1" for k'
    using lock_repr_count [OF assms, of k'] True by (auto split: if_splits)
  ultimately show ?thesis using True assms
    by (auto simp: lock_repr_def unlock_write_def fun_eq_iff split: if_splits)
next
  case False
  have le: "Suc (count held (k, False)) < 2 ^ 64"
    using assms count_le_size [of held "(k, False)"] False by (simp add: lock_repr_def)
  have "readonly_locks al k = Some (of_nat (Suc (count held (k, False))))"
    using assms False by (simp add: lock_repr_def)
  moreover have "(k, False) \<in># held \<Longrightarrow> (of_nat (count held (k, False)) :: u64) \<noteq> 0"
    using of_nat_u64_eq_0 [of "count held (k, False)"] le by simp
  moreover have "(k, False) \<notin># held \<Longrightarrow> count held (k, False) = 0" by (simp add: not_in_iff)
  ultimately have ul: "unlock_readonly k al = al\<lparr>readonly_locks := (readonly_locks al)
      (k := if (k, False) \<in># held then Some (of_nat (count held (k, False))) else None)\<rparr>"
    by (cases "(k, False) \<in># held") (simp_all add: unlock_readonly_def)
  have "(k, True) \<notin># held" using assms False by (auto simp: lock_repr_def)
  with False assms show ?thesis
    by (auto simp: lock_repr_def ul fun_eq_iff split: if_splits)
qed

lemma check_locks_iff:
  "lock_repr held al \<Longrightarrow> check_locks keys al =
     (if \<exists>kw \<in> set keys. lock_conflict held kw then Inl AccountInUse else Inr ())"
  by (induction keys al rule: check_locks.induct) (auto simp: can_lock_iff)

lemma lock_conflict_add:
  "k \<noteq> fst kw \<Longrightarrow> lock_conflict (add_mset (k, w) held) kw \<longleftrightarrow> lock_conflict held kw"
  by (auto simp: lock_conflict_def)

lemma take_locks_repr:
  assumes "lock_repr held al" and "\<forall>kw \<in> set keys. \<not> lock_conflict held kw" and "distinct (map fst keys)"
    and "size held + length keys < 2 ^ 64"
  shows "lock_repr (mset keys + held) (take_locks keys al)"
  using assms
proof (induction keys al arbitrary: held rule: take_locks.induct)
  case (2 key writable keys al)
  have "lock_repr (add_mset (key, writable) held) (if writable then lock_write key al else lock_readonly key al)"
    using 2(3,5) by (intro lock_one 2(2)) auto
  moreover have "\<not> lock_conflict (add_mset (key, writable) held) kw" if "kw \<in> set keys" for kw
  proof -
    have "key \<noteq> fst kw" using 2(4) that by auto
    then show ?thesis using 2(3) that by (simp add: lock_conflict_add)
  qed
  ultimately show ?case using 2(1) [of "add_mset (key, writable) held"] 2(4,5) by simp
qed simp

lemma unlock_accounts_repr:
  "lock_repr (mset keys + held) al \<Longrightarrow> lock_repr held (unlock_accounts keys al)"
proof (induction keys al rule: unlock_accounts.induct)
  case (2 k writable keys al)
  then show ?case using unlock_one [of k writable "mset keys + held" al] by simp
qed simp

lemma try_lock_accounts_repr:
  assumes "lock_repr held al" and "distinct (map fst keys)" and "size held + length keys < 2 ^ 64"
  shows "if \<exists>kw \<in> set keys. lock_conflict held kw then try_lock_accounts keys al = (Inl AccountInUse, al)
     else fst (try_lock_accounts keys al) = Inr () \<and> lock_repr (mset keys + held) (snd (try_lock_accounts keys al))"
  using assms take_locks_repr [OF assms(1) _ assms(2,3)]
  by (auto simp: try_lock_accounts_def check_locks_iff)

section \<open>Duplicate keys\<close>

lemma any_not_inserted_iff:
  "fst (any_not_inserted keys S) \<longleftrightarrow> \<not> distinct keys \<or> set keys \<inter> S \<noteq> {}"
  by (induction keys S rule: any_not_inserted.induct) auto

lemma has_duplicates_iff: "has_duplicates keys {} = (\<not> distinct keys, {})"
proof (cases "length keys \<ge> USE_ACCOUNT_LOCK_SET_SIZE")
  case True
  then show ?thesis using any_not_inserted_iff [of keys "{}"]
    by (simp add: has_duplicates_def case_prod_beta)
next
  case False
  have "(\<exists>i < length keys. \<exists>j \<in> {Suc i..<length keys}. keys ! i = keys ! j) \<longleftrightarrow> \<not> distinct keys"
    unfolding distinct_conv_nth by (metis Suc_leI atLeastLessThan_iff lessI less_or_eq_imp_le linorder_neqE_nat not_less)
  with False show ?thesis by (auto simp: has_duplicates_def list_ex_iff)
qed

lemma validated_iff:
  "validated limit tx =
     (if length (account_keys tx) > limit then Inl TooManyAccountLocks
      else if distinct (account_keys tx) then Inr tx else Inl AccountLoadedTwice)"
  by (simp add: validated_def validate_account_locks_def has_duplicates_iff)

lemma keys_of_tx: "map fst (accounts_with_is_writable tx) = account_keys tx"
  by (rule nth_equalityI) (simp_all add: accounts_with_is_writable_def nth_enumerate_eq)

section \<open>Batches\<close>

text \<open>What a batch promises: a transaction is locked when it is valid and in conflict neither
  with the locks held before the batch nor with the ones taken earlier in it.\<close>

fun spec_batch ::
  "'k held \<Rightarrow> (transaction_error + 'k svm_message) list \<Rightarrow> (transaction_error + unit) list \<times> 'k held" where
  "spec_batch held [] = ([], held)"
| "spec_batch held (Inl err # rest) = (let (rs, held') = spec_batch held rest in (Inl err # rs, held'))"
| "spec_batch held (Inr tx # rest) =
     (if \<exists>kw \<in> set (accounts_with_is_writable tx). lock_conflict held kw
      then let (rs, held') = spec_batch held rest in (Inl AccountInUse # rs, held')
      else let (rs, held') = spec_batch (mset (accounts_with_is_writable tx) + held) rest in (Inr () # rs, held'))"

fun batch_size :: "(transaction_error + 'k svm_message) list \<Rightarrow> nat" where
  "batch_size [] = 0"
| "batch_size (Inl err # rest) = batch_size rest"
| "batch_size (Inr tx # rest) = length (account_keys tx) + batch_size rest"

lemma length_accounts: "length (accounts_with_is_writable tx) = length (account_keys tx)"
  by (simp add: accounts_with_is_writable_def)

lemma lock_accounts_inner_spec:
  assumes "lock_repr held al" and "\<forall>tx. Inr tx \<in> set txs \<longrightarrow> distinct (account_keys tx)"
    and "size held + batch_size txs < 2 ^ 64"
  shows "fst (lock_accounts_inner txs al) = fst (spec_batch held txs) \<and>
     lock_repr (snd (spec_batch held txs)) (snd (lock_accounts_inner txs al))"
  using assms
proof (induction held txs arbitrary: al rule: spec_batch.induct)
  case (2 held err rest)
  then show ?case by (auto simp: case_prod_beta)
next
  case (3 held tx rest)
  let ?keys = "accounts_with_is_writable tx"
  have d: "distinct (map fst ?keys)" using 3(4) by (simp add: keys_of_tx)
  have sz: "size held + length ?keys < 2 ^ 64" using 3(5) by (simp add: length_accounts)
  note lock = try_lock_accounts_repr [OF 3(3) d sz]
  show ?case
  proof (cases "\<exists>kw \<in> set ?keys. lock_conflict held kw")
    case True
    with lock 3(1) [OF True, of al] 3(3-5) show ?thesis by (auto simp: case_prod_beta)
  next
    case False
    with lock have l: "fst (try_lock_accounts ?keys al) = Inr ()"
      "lock_repr (mset ?keys + held) (snd (try_lock_accounts ?keys al))" by auto
    from 3(2) [OF False l(2)] 3(4,5) False l(1) show ?thesis
      by (simp add: case_prod_beta length_accounts add.commute add.left_commute)
  qed
qed simp

text \<open>The locks that a batch's results stand for.\<close>

fun locked_keys :: "('k svm_message \<times> (transaction_error + unit)) list \<Rightarrow> 'k held" where
  "locked_keys [] = {#}"
| "locked_keys ((tx, Inr _) # rest) = mset (accounts_with_is_writable tx) + locked_keys rest"
| "locked_keys ((tx, Inl _) # rest) = locked_keys rest"

lemma spec_batch_held:
  assumes "list_all2 (\<lambda>m t. \<forall>tx. t = Inr tx \<longrightarrow> tx = m) ms txs"
  shows "snd (spec_batch held txs) = locked_keys (zip ms (fst (spec_batch held txs))) + held"
  using assms
proof (induction ms txs arbitrary: held rule: list_all2_induct)
  case (Cons m ms t txs)
  then show ?case by (cases t) (simp_all add: case_prod_beta add.commute add.left_commute)
qed simp

lemma unlock_loop_repr:
  "lock_repr (locked_keys trs + held) al \<Longrightarrow> lock_repr held (unlock_loop trs al)"
proof (induction trs arbitrary: al rule: locked_keys.induct)
  case (2 tx u rest)
  then show ?case using unlock_accounts_repr [of "accounts_with_is_writable tx" "locked_keys rest + held" al]
    by (simp add: add.assoc)
qed auto

lemma unlock_batch_repr:
  assumes "lock_repr (locked_keys trs + held) al"
  shows "lock_repr held (unlock_batch trs al)"
proof (cases "list_ex (\<lambda>(_, res). case res of Inr _ \<Rightarrow> True | Inl _ \<Rightarrow> False) trs")
  case False
  then have "locked_keys trs = {#}" by (induction trs rule: locked_keys.induct) auto
  with assms False show ?thesis by (simp add: unlock_batch_def)
qed (use assms unlock_loop_repr in \<open>auto simp: unlock_batch_def\<close>)

section \<open>The table over time\<close>

text \<open>
  The table with the keys of the transactions that hold locks: a transaction with distinct keys
  is locked, or one of the holders is unlocked, in any order.
\<close>

type_synonym 'k lock_config = "'k account_locks \<times> ('k \<times> bool) list list"

definition all_held :: "('k \<times> bool) list list \<Rightarrow> 'k held" where
  "all_held hs = mset (concat hs)"

inductive lock_step :: "'k lock_config \<Rightarrow> 'k lock_config \<Rightarrow> bool" where
  lock: "distinct (map fst keys) \<Longrightarrow> length (concat (hs @ [keys])) < 2 ^ 64 \<Longrightarrow>
     try_lock_accounts keys al = (Inr (), al') \<Longrightarrow> lock_step (al, hs) (al', hs @ [keys])"
| unlock: "lock_step (al, hs @ keys # hs') (unlock_accounts keys al, hs @ hs')"

fun lock_inv :: "'k lock_config \<Rightarrow> bool" where
  "lock_inv (al, hs) \<longleftrightarrow> lock_repr (all_held hs) al"

definition lock_init :: "'k lock_config \<Rightarrow> bool" where
  "lock_init c \<longleftrightarrow> c = (account_locks_default, [])"

lemma lock_step_inv: "lock_step c c' \<Longrightarrow> lock_inv c \<Longrightarrow> lock_inv c'"
proof (induction rule: lock_step.induct)
  case (lock keys hs al al')
  have "size (all_held hs) + length keys < 2 ^ 64" using lock(2) by (simp add: all_held_def)
  with try_lock_accounts_repr [of "all_held hs" al keys] lock show ?case
    by (auto simp: all_held_def add.commute split: if_splits)
next
  case (unlock al hs keys hs')
  then show ?case using unlock_accounts_repr [of keys "all_held (hs @ hs')" al]
    by (simp add: all_held_def add.commute add.left_commute)
qed

interpretation account_table: invariant_system lock_init lock_step lock_inv
  by unfold_locales (auto simp: lock_init_def all_held_def lock_repr_default intro: lock_step_inv)

definition lock_reachable :: "'k lock_config \<Rightarrow> bool" where
  "lock_reachable c \<longleftrightarrow> (\<exists>c0. lock_init c0 \<and> lock_step\<^sup>*\<^sup>* c0 c)"

lemma lock_reachable_repr: "lock_reachable (al, hs) \<Longrightarrow> lock_repr (all_held hs) al"
  using account_table.reachable_inv [of _ "(al, hs)"] by (auto simp: lock_reachable_def)

lemma count_all_held: "i < length hs \<Longrightarrow> j < length hs \<Longrightarrow> i \<noteq> j \<Longrightarrow>
    count (mset (hs ! i)) x + count (mset (hs ! j)) x \<le> count (all_held hs) x"
proof (induction hs arbitrary: i j)
  case (Cons h hs)
  have 1: "count (mset (hs ! k)) x \<le> count (all_held hs) x" if "k < length hs" for k
    using that by (induction hs arbitrary: k) (auto simp: all_held_def nth_Cons trans_le_add2 split: nat.splits)
  show ?case using Cons.prems Cons.IH [of "i - 1" "j - 1"] 1 [of "i - 1"] 1 [of "j - 1"]
    by (cases i; cases j) (auto simp: all_held_def)
qed simp

lemma lock_reachable_init: "lock_reachable (account_locks_default, [])"
  by (auto simp: lock_reachable_def lock_init_def)

lemma lock_reachable_step: "lock_reachable c \<Longrightarrow> lock_step c c' \<Longrightarrow> lock_reachable c'"
  by (auto simp: lock_reachable_def intro: rtranclp.rtrancl_into_rtrancl)

lemma lock_conflict_all_held:
  "lock_conflict (all_held hs) (k, w) \<longleftrightarrow> (\<exists>h \<in> set hs. (k, True) \<in> set h \<or> (w \<and> (k, False) \<in> set h))"
  by (auto simp: lock_conflict_def all_held_def)

section \<open>The properties\<close>

text \<open>C3. In every state of the lock table, two transactions that hold locks never share an account
  that one of them writes.\<close>

theorem held_locks_exclusive:
  assumes r: "lock_reachable (al, hs)" and ij: "i < length hs" "j < length hs" "i \<noteq> j"
    and w: "(k, True) \<in> set (hs ! i)"
  shows "k \<notin> fst ` set (hs ! j)"
proof
  assume "k \<in> fst ` set (hs ! j)"
  then obtain b where b: "(k, b) \<in> set (hs ! j)" by auto
  have repr: "lock_repr (all_held hs) al" using r by (rule lock_reachable_repr)
  have in_held: "(k, True) \<in># all_held hs" "(k, b) \<in># all_held hs"
    using w b ij by (auto simp: all_held_def)
  show False
  proof (cases b)
    case True
    have "0 < count (mset (hs ! i)) (k, True)" "0 < count (mset (hs ! j)) (k, True)"
      using w b True by (simp_all only: count_greater_zero_iff set_mset_mset)
    with count_all_held [OF ij, of "(k, True)"] lock_repr_count [OF repr, of k] show False by linarith
  next
    case False
    with in_held repr show False by (auto simp: lock_repr_def)
  qed
qed

lemma demo_locks: "lock_reachable (take_locks [(1, True), (2, False)] account_locks_default,
    [[(1 :: nat, True)], [(2, False)]])"
proof -
  let ?al = "take_locks [(1 :: nat, True)] account_locks_default"
  have "lock_step (account_locks_default, []) (?al, [] @ [[(1, True)]])"
    by (rule lock_step.lock) (simp_all add: try_lock_accounts_def can_write_lock_def is_locked_readonly_def
        is_locked_write_def account_locks_default_def)
  from lock_reachable_step [OF lock_reachable_init this] have "lock_reachable (?al, [[(1, True)]])" by simp
  moreover have "lock_step (?al, [[(1, True)]]) (take_locks [(2, False)] ?al, [[(1, True)]] @ [[(2, False)]])"
    by (rule lock_step.lock) (simp_all add: try_lock_accounts_def can_read_lock_def lock_write_def
        is_locked_write_def account_locks_default_def)
  ultimately show ?thesis using lock_reachable_step by fastforce
qed

theorem held_locks_exclusive_witness: "(1 :: nat) \<notin> fst ` set [(2 :: nat, False)]"
  using held_locks_exclusive [OF demo_locks, of 0 1 1] by simp

text \<open>\<open>try_lock_accounts\<close> is all or nothing: it fails with \<open>AccountInUse\<close> and leaves the table as
  it was exactly when a holder conflicts with one of the keys, and otherwise every key is locked.\<close>

theorem try_lock_all_or_nothing:
  assumes r: "lock_reachable (al, hs)" and d: "distinct (map fst keys)"
    and len: "length (concat (hs @ [keys])) < 2 ^ 64"
  shows "if \<exists>(k, w) \<in> set keys. \<exists>h \<in> set hs. (k, True) \<in> set h \<or> (w \<and> (k, False) \<in> set h)
     then try_lock_accounts keys al = (Inl AccountInUse, al)
     else \<exists>al'. try_lock_accounts keys al = (Inr (), al') \<and> lock_reachable (al', hs @ [keys])"
proof -
  have sz: "size (all_held hs) + length keys < 2 ^ 64" using len by (simp add: all_held_def)
  note lock = try_lock_accounts_repr [OF lock_reachable_repr [OF r] d sz]
  have c: "(\<exists>kw \<in> set keys. lock_conflict (all_held hs) kw) \<longleftrightarrow>
      (\<exists>(k, w) \<in> set keys. \<exists>h \<in> set hs. (k, True) \<in> set h \<or> (w \<and> (k, False) \<in> set h))"
    by (rule bex_cong) (auto simp: lock_conflict_all_held)
  show ?thesis
  proof (cases "\<exists>kw \<in> set keys. lock_conflict (all_held hs) kw")
    case True
    with lock c show ?thesis by simp
  next
    case False
    then obtain al' where al': "try_lock_accounts keys al = (Inr (), al')"
      using lock by (cases "try_lock_accounts keys al") auto
    with lock_reachable_step [OF r lock_step.lock [OF d len al']] False c show ?thesis by simp
  qed
qed

theorem try_lock_all_or_nothing_witness:
  "fst (try_lock_accounts [(3, True), (1, False)] (take_locks [(1 :: nat, True), (2, False)] account_locks_default))
     = Inl AccountInUse"
  using try_lock_all_or_nothing [OF demo_locks, of "[(3, True), (1, False)]"] by simp

text \<open>Unlocking is the exact inverse of locking: after the keys of a transaction are locked and
  unlocked again, the table is the one before, entry for entry.\<close>

theorem lock_unlock_roundtrip:
  assumes r: "lock_reachable (al, hs)" and d: "distinct (map fst keys)"
    and len: "length (concat (hs @ [keys])) < 2 ^ 64" and ok: "try_lock_accounts keys al = (Inr (), al')"
  shows "unlock_accounts keys al' = al"
proof -
  have "lock_reachable (unlock_accounts keys al', hs @ [])"
    using lock_reachable_step [OF lock_reachable_step [OF r lock_step.lock [OF d len ok]] lock_step.unlock] .
  then have "lock_repr (all_held hs) (unlock_accounts keys al')" using lock_reachable_repr by simp
  with lock_reachable_repr [OF r] show ?thesis using lock_repr_unique by blast
qed

theorem lock_unlock_roundtrip_witness:
  "unlock_accounts [(3 :: nat, True), (4, False)] (take_locks [(3, True), (4, False)] account_locks_default)
     = account_locks_default"
  using lock_unlock_roundtrip [OF lock_reachable_init, of "[(3 :: nat, True), (4, False)]"]
  by (simp add: try_lock_accounts_def can_read_lock_def can_write_lock_def is_locked_readonly_def
      is_locked_write_def account_locks_default_def)

lemma validated_list:
  "list_all2 (\<lambda>m t. \<forall>tx. t = Inr tx \<longrightarrow> tx = m) txs (map (validated limit) txs)"
  by (auto simp: list_all2_map2 list_all2_same validated_iff split: if_splits)

lemma validated_distinct: "\<forall>tx. Inr tx \<in> set (map (validated limit) txs) \<longrightarrow> distinct (account_keys tx)"
  by (auto simp: validated_iff split: if_splits)

text \<open>C36. A batch is locked in order: a transaction gets \<open>Ok\<close> exactly when its keys are valid and it
  conflicts neither with the locks held before nor with the earlier transactions of the batch
  that got \<open>Ok\<close>; and unlocking the batch with its results restores the table.\<close>

theorem lock_batch_refines:
  assumes r: "lock_reachable (al, hs)"
    and len: "length (concat hs) + batch_size (map (validated limit) txs) < 2 ^ 64"
    and res: "lock_accounts txs limit al = (results, al')"
  shows "results = fst (spec_batch (all_held hs) (map (validated limit) txs)) \<and>
     unlock_batch (zip txs results) al' = al"
proof -
  let ?ts = "map (validated limit) txs" and ?held = "all_held hs"
  have repr: "lock_repr ?held al" using r by (rule lock_reachable_repr)
  have sz: "size ?held + batch_size ?ts < 2 ^ 64" using len by (simp add: all_held_def)
  from lock_accounts_inner_spec [OF repr validated_distinct sz] res
  have rs: "results = fst (spec_batch ?held ?ts)" and repr': "lock_repr (snd (spec_batch ?held ?ts)) al'"
    by (simp_all add: lock_accounts_def)
  have "lock_repr ?held (unlock_batch (zip txs results) al')"
    using repr' spec_batch_held [OF validated_list, of ?held limit txs] rs by (intro unlock_batch_repr) simp
  with rs repr lock_repr_unique show ?thesis by blast
qed

theorem lock_batch_refines_witness:
  "fst (lock_accounts
      [\<lparr>account_keys = [1, 2 :: nat], is_writable = (\<lambda>i. i = 0)\<rparr>, \<lparr>account_keys = [1], is_writable = (\<lambda>_. False)\<rparr>,
       \<lparr>account_keys = [5, 5], is_writable = (\<lambda>_. False)\<rparr>] 64 account_locks_default)
     = [Inr (), Inl AccountInUse, Inl AccountLoadedTwice]"
  using lock_batch_refines [OF lock_reachable_init, of 64
      "[\<lparr>account_keys = [1, 2 :: nat], is_writable = (\<lambda>i. i = 0)\<rparr>, \<lparr>account_keys = [1], is_writable = (\<lambda>_. False)\<rparr>,
       \<lparr>account_keys = [5, 5], is_writable = (\<lambda>_. False)\<rparr>]", OF _ surjective_pairing]
  by (simp add: validated_iff accounts_with_is_writable_def all_held_def lock_conflict_def)

text \<open>Both ways of looking for duplicates, the pairwise comparison below 32 keys and the set from
  32 keys on, find exactly the key lists that are not distinct, and leave the thread's set empty;
  the validation therefore accepts exactly the distinct key lists within the limit.\<close>

theorem validate_account_locks_correct:
  "has_duplicates keys {} = (\<not> distinct keys, {}) \<and>
   validate_account_locks keys limit {} =
     (if length keys > limit then Inl TooManyAccountLocks
      else if distinct keys then Inr () else Inl AccountLoadedTwice, {})"
  by (simp add: has_duplicates_iff validate_account_locks_def)

end
