(* ===== verification/Thread_Set.thy ===== *)
theory Thread_Set
  imports Rust_Prelude
begin

text \<open>
  The set of threads of the transaction scheduler as a 64-bit word (\<open>ThreadSet\<close> of
  \<^verbatim>\<open>core/src/banking_stage/transaction_scheduler/thread_aware_account_locks.rs\<close>), its
  contract as a finite set of thread ids, and the iterator over its members.
\<close>

unbundle bit_operations_syntax

section \<open>The bit set\<close>

type_synonym thread_set = u64

definition MAX_THREADS :: nat where
  "MAX_THREADS = 64"

text \<open>A shift takes its distance modulo the width of the word.\<close>

definition as_flag :: "nat \<Rightarrow> u64" where
  "as_flag thread_id = push_bit (thread_id mod 64) 1"

definition ts_none :: thread_set where
  "ts_none = 0"

definition ts_any :: "nat \<Rightarrow> thread_set" where
  "ts_any num_threads = (if num_threads = MAX_THREADS then - 1 else as_flag num_threads - 1)"

definition ts_only :: "nat \<Rightarrow> thread_set" where
  "ts_only thread_id = as_flag thread_id"

text \<open>\<open>count_ones\<close> and \<open>trailing_zeros\<close> of a word.\<close>

definition count_ones :: "u64 \<Rightarrow> nat" where
  "count_ones w = length (filter (bit w) [0..<64])"

definition trailing_zeros :: "u64 \<Rightarrow> nat" where
  "trailing_zeros w = length (takeWhile (\<lambda>i. \<not> bit w i) [0..<64])"

definition ts_num_threads :: "thread_set \<Rightarrow> nat" where
  "ts_num_threads s = count_ones s"

definition only_one_contained :: "thread_set \<Rightarrow> nat option" where
  "only_one_contained s = (if ts_num_threads s = 1 then Some (trailing_zeros s) else None)"

definition ts_is_empty :: "thread_set \<Rightarrow> bool" where
  "ts_is_empty s \<longleftrightarrow> s = ts_none"

definition ts_contains :: "nat \<Rightarrow> thread_set \<Rightarrow> bool" where
  "ts_contains thread_id s \<longleftrightarrow> s AND as_flag thread_id \<noteq> 0"

definition ts_insert :: "nat \<Rightarrow> thread_set \<Rightarrow> thread_set" where
  "ts_insert thread_id s = s OR as_flag thread_id"

definition ts_remove :: "nat \<Rightarrow> thread_set \<Rightarrow> thread_set" where
  "ts_remove thread_id s = s AND NOT (as_flag thread_id)"

definition ts_bitand :: "thread_set \<Rightarrow> thread_set \<Rightarrow> thread_set" where
  "ts_bitand a b = a AND b"

definition ts_sub :: "thread_set \<Rightarrow> thread_set \<Rightarrow> thread_set" where
  "ts_sub a b = a AND NOT b"

section \<open>The contract\<close>

definition members :: "thread_set \<Rightarrow> nat set" where
  "members s = {i. i < 64 \<and> bit s i}"

locale id_set =
  fixes mem :: "'s \<Rightarrow> nat set"
    and empty :: 's
    and upto :: "nat \<Rightarrow> 's"
    and single :: "nat \<Rightarrow> 's"
    and inter :: "'s \<Rightarrow> 's \<Rightarrow> 's"
    and minus :: "'s \<Rightarrow> 's \<Rightarrow> 's"
    and ins :: "nat \<Rightarrow> 's \<Rightarrow> 's"
    and del :: "nat \<Rightarrow> 's \<Rightarrow> 's"
    and has :: "nat \<Rightarrow> 's \<Rightarrow> bool"
    and is_empty :: "'s \<Rightarrow> bool"
    and the_one :: "'s \<Rightarrow> nat option"
    and cap :: nat
  assumes mem_bound: "mem s \<subseteq> {..<cap}"
    and mem_empty: "mem empty = {}"
    and mem_upto: "n \<le> cap \<Longrightarrow> mem (upto n) = {..<n}"
    and mem_single: "t < cap \<Longrightarrow> mem (single t) = {t}"
    and mem_inter: "mem (inter a b) = mem a \<inter> mem b"
    and mem_minus: "mem (minus a b) = mem a - mem b"
    and mem_ins: "t < cap \<Longrightarrow> mem (ins t s) = insert t (mem s)"
    and mem_del: "t < cap \<Longrightarrow> mem (del t s) = mem s - {t}"
    and has_iff: "t < cap \<Longrightarrow> has t s \<longleftrightarrow> t \<in> mem s"
    and is_empty_iff: "is_empty s \<longleftrightarrow> mem s = {}"
    and the_one_iff: "the_one s = Some t \<longleftrightarrow> mem s = {t}"
begin

lemma the_one_single: "t < cap \<Longrightarrow> the_one (single t) = Some t"
  by (simp add: the_one_iff mem_single)

lemma the_one_None: "the_one s = None \<longleftrightarrow> (\<forall>t. mem s \<noteq> {t})"
  by (metis not_None_eq the_one_iff)

lemma del_is_empty: "t < cap \<Longrightarrow> is_empty (del t s) \<longleftrightarrow> mem s \<subseteq> {t}"
  by (auto simp: is_empty_iff mem_del)

end

lemma bit_as_flag: "t < 64 \<Longrightarrow> bit (as_flag t) i \<longleftrightarrow> i = t"
  by (auto simp: as_flag_def bit_exp_iff)

lemma members_count: "card (members s) = count_ones s"
proof -
  have "members s = set (filter (bit s) [0..<64])" by (auto simp: members_def)
  moreover have "distinct (filter (bit s) [0..<64])" by simp
  ultimately show ?thesis using distinct_card by (metis count_ones_def)
qed

lemma nonzero_bit: "s \<noteq> 0 \<Longrightarrow> \<exists>j < 64. bit (s :: u64) j"
  using bit_word_eqI [of s 0] by auto

lemma trailing_zeros_least:
  assumes "s \<noteq> 0"
  shows "trailing_zeros s < 64" and "bit s (trailing_zeros s)" and "i < trailing_zeros s \<Longrightarrow> \<not> bit s i"
proof -
  obtain j where "j < 64" "\<not> (\<lambda>i. \<not> bit s i) j" using nonzero_bit [OF assms] by auto
  from takeWhile_upt [where P = "\<lambda>i. \<not> bit s i", OF this] show "trailing_zeros s < 64" "bit s (trailing_zeros s)"
    "i < trailing_zeros s \<Longrightarrow> \<not> bit s i" by (simp_all add: trailing_zeros_def)
qed

lemma members_empty_iff: "members s = {} \<longleftrightarrow> s = 0"
  using nonzero_bit [of s] by (auto simp: members_def)

lemma members_any: "n \<le> 64 \<Longrightarrow> members (ts_any n) = {..<n}"
proof (cases "n = 64")
  case False
  assume "n \<le> 64"
  with False have "n < 64" by simp
  then have "ts_any n = mask n"
    by (simp add: ts_any_def MAX_THREADS_def as_flag_def mask_eq_exp_minus_1 push_bit_eq_mult)
  with \<open>n < 64\<close> show ?thesis by (auto simp: members_def bit_mask_iff)
qed (auto simp: ts_any_def MAX_THREADS_def members_def)

interpretation thread_bits: id_set members ts_none ts_any ts_only ts_bitand ts_sub ts_insert ts_remove
  ts_contains ts_is_empty only_one_contained MAX_THREADS
proof
  fix s a b :: thread_set and t n
  show "members s \<subseteq> {..<MAX_THREADS}" by (auto simp: members_def MAX_THREADS_def)
  show "members ts_none = {}" by (simp add: members_def ts_none_def)
  show "members (ts_any n) = {..<n}" if "n \<le> MAX_THREADS"
    using that members_any by (simp add: MAX_THREADS_def)
  show "members (ts_only t) = {t}" if "t < MAX_THREADS"
    using that by (auto simp: members_def ts_only_def bit_as_flag MAX_THREADS_def)
  show "members (ts_bitand a b) = members a \<inter> members b"
    by (auto simp: members_def ts_bitand_def bit_and_iff)
  show "members (ts_sub a b) = members a - members b"
    by (auto simp: members_def ts_sub_def bit_and_iff bit_not_iff)
  show "members (ts_insert t s) = insert t (members s)" if "t < MAX_THREADS"
    using that by (auto simp: members_def ts_insert_def bit_or_iff bit_as_flag MAX_THREADS_def)
  show "members (ts_remove t s) = members s - {t}" if "t < MAX_THREADS"
    using that by (auto simp: members_def ts_remove_def bit_and_iff bit_not_iff bit_as_flag MAX_THREADS_def)
  show "ts_is_empty s \<longleftrightarrow> members s = {}" by (simp add: ts_is_empty_def members_empty_iff ts_none_def)
  show "ts_contains t s \<longleftrightarrow> t \<in> members s" if "t < MAX_THREADS"
  proof -
    have "members (s AND as_flag t) = members s \<inter> {t}"
      using that by (auto simp: members_def bit_and_iff bit_as_flag MAX_THREADS_def)
    then show ?thesis using members_empty_iff [of "s AND as_flag t"] by (auto simp: ts_contains_def)
  qed
  show "only_one_contained s = Some t \<longleftrightarrow> members s = {t}"
  proof
    assume "only_one_contained s = Some t"
    then have "card (members s) = 1" "t = trailing_zeros s"
      by (auto simp: only_one_contained_def ts_num_threads_def members_count split: if_splits)
    moreover from this have "s \<noteq> 0" using members_empty_iff [of s] by auto
    ultimately have "t \<in> members s" using trailing_zeros_least(1,2) [of s] by (simp add: members_def)
    with \<open>card (members s) = 1\<close> show "members s = {t}" by (metis card_1_singletonE singletonD)
  next
    assume m: "members s = {t}"
    then have "s \<noteq> 0" using members_empty_iff [of s] by auto
    then have "trailing_zeros s \<in> members s" using trailing_zeros_least(1,2) [of s] by (simp add: members_def)
    with m show "only_one_contained s = Some t"
      using members_count [of s] by (simp add: only_one_contained_def ts_num_threads_def)
  qed
qed

section \<open>The iterator\<close>

text \<open>One call of \<open>next\<close>: the lowest member, and the word without it.\<close>

definition ts_iter_next :: "u64 \<Rightarrow> (nat \<times> u64) option" where
  "ts_iter_next w = (if w = 0 then None else Some (trailing_zeros w, w AND (w - 1)))"

lemma bit_minus_one:
  assumes z: "bit w n" "\<And>i. i < n \<Longrightarrow> \<not> bit w i" and n: "n < 64"
  shows "bit (w - 1 :: u64) i \<longleftrightarrow> (if i < n then True else if i = n then False else bit w i)"
proof -
  let ?hi = "w AND NOT (mask (Suc n))"
  have w: "w = ?hi OR 2 ^ n"
    by (rule bit_word_eqI) (use z in \<open>auto simp: bit_or_iff bit_and_iff bit_not_iff bit_mask_iff bit_exp_iff less_Suc_eq\<close>)
  have d1: "?hi AND 2 ^ n = 0" and d2: "?hi AND mask n = 0"
    by (rule bit_word_eqI; auto simp: bit_and_iff bit_not_iff bit_mask_iff bit_exp_iff)+
  have "w = ?hi + 2 ^ n" using w d1 by (simp add: disjunctive_add_eq_or)
  then have "w - 1 = ?hi + mask n" by (simp add: mask_eq_exp_minus_1 algebra_simps)
  also have "\<dots> = ?hi OR mask n" using d2 by (simp add: disjunctive_add_eq_or)
  finally show ?thesis
    using n by (auto simp: bit_or_iff bit_and_iff bit_not_iff bit_mask_iff dest: bit_imp_le_length)
qed

lemma members_clear_lowest:
  assumes "w \<noteq> 0"
  shows "members (w AND (w - 1)) = members w - {trailing_zeros w}"
  using bit_minus_one [OF trailing_zeros_least(2) [OF assms] trailing_zeros_least(3) [OF assms]
      trailing_zeros_least(1) [OF assms]] trailing_zeros_least(3) [OF assms]
  by (auto simp: members_def bit_and_iff split: if_splits)

text \<open>All calls of \<open>next\<close> until it is done.\<close>

function contained_threads_iter :: "u64 \<Rightarrow> nat list" where
  "contained_threads_iter w =
     (case ts_iter_next w of None \<Rightarrow> [] | Some (thread_id, w') \<Rightarrow> thread_id # contained_threads_iter w')"
  by auto
termination
proof (relation "measure (\<lambda>w. card (members w))")
  fix w x thread_id w'
  assume "ts_iter_next w = Some x" "(thread_id, w') = x"
  then have w: "w \<noteq> 0" "w' = w AND (w - 1)" by (auto simp: ts_iter_next_def split: if_splits)
  have "trailing_zeros w \<in> members w" using trailing_zeros_least(1,2) [OF w(1)] by (simp add: members_def)
  moreover have "finite (members w)" by (simp add: members_def)
  ultimately have "card (members w - {trailing_zeros w}) < card (members w)" by (metis card_Diff1_less)
  then show "(w', w) \<in> measure (\<lambda>w. card (members w))" using w members_clear_lowest [OF w(1)] by simp
qed simp

declare contained_threads_iter.simps [simp del]

lemma iter_sorted: "contained_threads_iter w = sorted_list_of_set (members w)"
proof (induction w rule: contained_threads_iter.induct)
  case (1 w)
  show ?case
  proof (cases "w = 0")
    case True
    then show ?thesis using members_empty_iff [of w]
      by (subst contained_threads_iter.simps) (simp add: ts_iter_next_def)
  next
    case False
    have fin: "finite (members w)" by (simp add: members_def)
    have t: "trailing_zeros w \<in> members w" using trailing_zeros_least(1,2) [OF False] by (simp add: members_def)
    have "trailing_zeros w \<le> i" if "i \<in> members w" for i
      using that trailing_zeros_least(3) [OF False, of i] by (auto simp: members_def not_le [symmetric])
    then have min: "Min (members w) = trailing_zeros w" using fin t by (intro Min_eqI)
    have "sorted_list_of_set (members w) = trailing_zeros w # sorted_list_of_set (members w - {trailing_zeros w})"
      using sorted_list_of_set_nonempty [OF fin] t min by auto
    moreover have "ts_iter_next w = Some (trailing_zeros w, w AND (w - 1))" using False by (simp add: ts_iter_next_def)
    ultimately show ?thesis
      using 1 [OF _ refl, of "trailing_zeros w" "w AND (w - 1)"] members_clear_lowest [OF False]
      by (subst contained_threads_iter.simps) simp
  qed
qed

section \<open>The properties\<close>

text \<open>The iterator over a thread set terminates and yields exactly the members of the set in
  ascending order: clearing the lowest bit with \<open>w & (w - 1)\<close> removes just that member.\<close>

theorem thread_set_iteration:
  "contained_threads_iter s = filter (\<lambda>t. ts_contains t s) [0..<MAX_THREADS]"
proof -
  have "contained_threads_iter s = sorted_list_of_set (set (filter (\<lambda>t. ts_contains t s) [0..<MAX_THREADS]))"
    unfolding iter_sorted
    by (rule arg_cong [where f = sorted_list_of_set])
      (use thread_bits.mem_bound [of s] in \<open>auto simp: thread_bits.has_iff\<close>)
  also have "\<dots> = filter (\<lambda>t. ts_contains t s) [0..<MAX_THREADS]"
    by (rule sorted_list_of_set.idem_if_sorted_distinct) (simp_all add: sorted_wrt_filter)
  finally show ?thesis .
qed

end
