(* ===== verification/Thread_Locks.thy ===== *)
theory Thread_Locks
  imports Thread_Set Held_Locks
begin

text \<open>
  The thread-aware account locks of the transaction scheduler
  (\<open>ThreadAwareAccountLocks\<close> of
  \<^verbatim>\<open>core/src/banking_stage/transaction_scheduler/thread_aware_account_locks.rs\<close>): an account
  may be locked again on the thread that already holds it. The lock table represents the
  multiset of locks held per account and thread. A failed \<open>assert!\<close>, \<open>panic!\<close> or index is
  \<open>None\<close>.
\<close>

section \<open>The lock table\<close>

record account_write_locks =
  wl_thread_id :: nat
  wl_lock_count :: u32

record account_read_locks =
  rl_thread_set :: thread_set
  rl_lock_counts :: "u32 list"

record thread_account_locks =
  ta_write_locks :: "account_write_locks option"
  ta_read_locks :: "account_read_locks option"

record 'k thread_aware_account_locks =
  num_threads :: nat
  locks :: "'k \<Rightarrow> thread_account_locks option"

definition thread_account_locks_default :: thread_account_locks where
  "thread_account_locks_default = \<lparr>ta_write_locks = None, ta_read_locks = None\<rparr>"

definition ta_new :: "nat \<Rightarrow> 'k thread_aware_account_locks option" where
  "ta_new n =
     (if \<not> n > 0 then None
      else if \<not> n \<le> MAX_THREADS then None
      else Some \<lparr>num_threads = n, locks = (\<lambda>_. None)\<rparr>)"

definition schedulable_threads ::
  "bool \<Rightarrow> 'k \<Rightarrow> 'k thread_aware_account_locks \<Rightarrow> thread_set option" where
  "schedulable_threads write account L =
     (case locks L account of
        None \<Rightarrow> Some (ts_any (num_threads L))
      | Some e \<Rightarrow>
          (case (ta_write_locks e, ta_read_locks e) of
             (None, Some read_locks) \<Rightarrow>
               Some (if write
                     then (case only_one_contained (rl_thread_set read_locks) of
                             Some t \<Rightarrow> ts_only t | None \<Rightarrow> ts_none)
                     else ts_any (num_threads L))
           | (Some write_locks, None) \<Rightarrow> Some (ts_only (wl_thread_id write_locks))
           | (Some write_locks, Some read_locks) \<Rightarrow>
               if only_one_contained (rl_thread_set read_locks) = Some (wl_thread_id write_locks)
               then Some (rl_thread_set read_locks) else None
           | (None, None) \<Rightarrow> None))"

text \<open>
  One of the two loops of \<open>accounts_schedulable_threads\<close>: \<open>Some None\<close> is the early return.
\<close>

fun narrow ::
  "bool \<Rightarrow> 'k list \<Rightarrow> 'k thread_aware_account_locks \<Rightarrow> thread_set \<Rightarrow> thread_set option option" where
  "narrow write [] L s = Some (Some s)"
| "narrow write (account # accounts) L s =
     (case schedulable_threads write account L of
        None \<Rightarrow> None
      | Some threads \<Rightarrow>
          let s' = ts_bitand s threads in
          if ts_is_empty s' then Some None else narrow write accounts L s')"

definition accounts_schedulable_threads ::
  "'k list \<Rightarrow> 'k list \<Rightarrow> 'k thread_aware_account_locks \<Rightarrow> thread_set option option" where
  "accounts_schedulable_threads write_account_locks read_account_locks L =
     (case narrow True write_account_locks L (ts_any (num_threads L)) of
        None \<Rightarrow> None
      | Some None \<Rightarrow> Some None
      | Some (Some s) \<Rightarrow> narrow False read_account_locks L s)"

definition write_lock_account ::
  "'k \<Rightarrow> nat \<Rightarrow> 'k thread_aware_account_locks \<Rightarrow> 'k thread_aware_account_locks option" where
  "write_lock_account account thread_id L =
     (let e = (case locks L account of Some e \<Rightarrow> e | None \<Rightarrow> thread_account_locks_default) in
      if (case ta_read_locks e of
            Some read_locks \<Rightarrow> only_one_contained (rl_thread_set read_locks) \<noteq> Some thread_id
          | None \<Rightarrow> False)
      then None
      else
        (case ta_write_locks e of
           Some write_locks \<Rightarrow>
             if wl_thread_id write_locks \<noteq> thread_id then None
             else Some (L\<lparr>locks := (locks L)(account \<mapsto>
                    e\<lparr>ta_write_locks := Some (write_locks\<lparr>wl_lock_count := wl_lock_count write_locks + 1\<rparr>)\<rparr>)\<rparr>)
         | None \<Rightarrow>
             Some (L\<lparr>locks := (locks L)(account \<mapsto>
                    e\<lparr>ta_write_locks := Some \<lparr>wl_thread_id = thread_id, wl_lock_count = 1\<rparr>\<rparr>)\<rparr>)))"

definition write_unlock_account ::
  "'k \<Rightarrow> nat \<Rightarrow> 'k thread_aware_account_locks \<Rightarrow> 'k thread_aware_account_locks option" where
  "write_unlock_account account thread_id L =
     (case locks L account of
        None \<Rightarrow> None
      | Some e \<Rightarrow>
          (case ta_write_locks e of
             None \<Rightarrow> None
           | Some write_locks \<Rightarrow>
               if wl_thread_id write_locks \<noteq> thread_id then None
               else if wl_lock_count write_locks - 1 = 0
               then Some (L\<lparr>locks := (locks L)(account :=
                      if ta_read_locks e = None then None else Some (e\<lparr>ta_write_locks := None\<rparr>))\<rparr>)
               else Some (L\<lparr>locks := (locks L)(account \<mapsto>
                      e\<lparr>ta_write_locks := Some (write_locks\<lparr>wl_lock_count := wl_lock_count write_locks - 1\<rparr>)\<rparr>)\<rparr>)))"

definition read_lock_account ::
  "'k \<Rightarrow> nat \<Rightarrow> 'k thread_aware_account_locks \<Rightarrow> 'k thread_aware_account_locks option" where
  "read_lock_account account thread_id L =
     (let e = (case locks L account of Some e \<Rightarrow> e | None \<Rightarrow> thread_account_locks_default) in
      if (case ta_write_locks e of
            Some write_locks \<Rightarrow> wl_thread_id write_locks \<noteq> thread_id
          | None \<Rightarrow> False)
      then None
      else
        (case ta_read_locks e of
           Some r \<Rightarrow>
             if \<not> thread_id < length (rl_lock_counts r) then None
             else Some (L\<lparr>locks := (locks L)(account \<mapsto> e\<lparr>ta_read_locks := Some
                    \<lparr>rl_thread_set = ts_insert thread_id (rl_thread_set r),
                     rl_lock_counts = (rl_lock_counts r)[thread_id := rl_lock_counts r ! thread_id + 1]\<rparr>\<rparr>)\<rparr>)
         | None \<Rightarrow>
             if \<not> thread_id < MAX_THREADS then None
             else Some (L\<lparr>locks := (locks L)(account \<mapsto> e\<lparr>ta_read_locks := Some
                    \<lparr>rl_thread_set = ts_only thread_id,
                     rl_lock_counts = (replicate MAX_THREADS 0)[thread_id := 1]\<rparr>\<rparr>)\<rparr>)))"

definition read_unlock_account ::
  "'k \<Rightarrow> nat \<Rightarrow> 'k thread_aware_account_locks \<Rightarrow> 'k thread_aware_account_locks option" where
  "read_unlock_account account thread_id L =
     (case locks L account of
        None \<Rightarrow> None
      | Some e \<Rightarrow>
          (case ta_read_locks e of
             None \<Rightarrow> None
           | Some r \<Rightarrow>
               if \<not> ts_contains thread_id (rl_thread_set r) then None
               else if \<not> thread_id < length (rl_lock_counts r) then None
               else
                 let counts = (rl_lock_counts r)[thread_id := rl_lock_counts r ! thread_id - 1];
                     threads = (if counts ! thread_id = 0 then ts_remove thread_id (rl_thread_set r)
                                else rl_thread_set r);
                     e' = (if counts ! thread_id = 0 \<and> ts_is_empty threads
                           then if ta_write_locks e = None then None else Some (e\<lparr>ta_read_locks := None\<rparr>)
                           else Some (e\<lparr>ta_read_locks := Some \<lparr>rl_thread_set = threads, rl_lock_counts = counts\<rparr>\<rparr>))
                 in Some (L\<lparr>locks := (locks L)(account := e')\<rparr>)))"

text \<open>A loop over accounts whose body may panic.\<close>

fun for_accounts :: "('k \<Rightarrow> 's \<Rightarrow> 's option) \<Rightarrow> 'k list \<Rightarrow> 's \<Rightarrow> 's option" where
  "for_accounts f [] s = Some s"
| "for_accounts f (account # accounts) s =
     (case f account s of None \<Rightarrow> None | Some s' \<Rightarrow> for_accounts f accounts s')"

definition ta_lock_accounts ::
  "'k list \<Rightarrow> 'k list \<Rightarrow> nat \<Rightarrow> 'k thread_aware_account_locks \<Rightarrow> 'k thread_aware_account_locks option" where
  "ta_lock_accounts write_account_locks read_account_locks thread_id L =
     (if \<not> thread_id < num_threads L then None
      else do {
        L \<leftarrow> for_accounts (\<lambda>account. write_lock_account account thread_id) write_account_locks L;
        for_accounts (\<lambda>account. read_lock_account account thread_id) read_account_locks L
      })"

definition ta_unlock_accounts ::
  "'k list \<Rightarrow> 'k list \<Rightarrow> nat \<Rightarrow> 'k thread_aware_account_locks \<Rightarrow> 'k thread_aware_account_locks option" where
  "ta_unlock_accounts write_account_locks read_account_locks thread_id L = do {
     L \<leftarrow> for_accounts (\<lambda>account. write_unlock_account account thread_id) write_account_locks L;
     for_accounts (\<lambda>account. read_unlock_account account thread_id) read_account_locks L
   }"

definition ta_try_lock_accounts ::
  "'k list \<Rightarrow> 'k list \<Rightarrow> thread_set \<Rightarrow> (thread_set \<Rightarrow> nat) \<Rightarrow> 'k thread_aware_account_locks
     \<Rightarrow> (nat option \<times> 'k thread_aware_account_locks) option" where
  "ta_try_lock_accounts write_account_locks read_account_locks allowed_threads thread_selector L =
     (case accounts_schedulable_threads write_account_locks read_account_locks L of
        None \<Rightarrow> None
      | Some None \<Rightarrow> Some (None, L)
      | Some (Some threads) \<Rightarrow>
          let schedulable = ts_bitand threads allowed_threads in
          if ts_is_empty schedulable then Some (None, L)
          else
            let thread_id = thread_selector schedulable in
            (case ta_lock_accounts write_account_locks read_account_locks thread_id L of
               None \<Rightarrow> None
             | Some L' \<Rightarrow> Some (Some thread_id, L')))"

section \<open>One account\<close>

text \<open>
  \<open>entry_ok n wr rd e\<close>: entry \<open>e\<close> of the table is that of an account with \<open>wr t\<close> write
  locks and \<open>rd t\<close> read locks on every thread \<open>t\<close>.
\<close>

fun write_ok :: "(nat \<Rightarrow> nat) \<Rightarrow> account_write_locks option \<Rightarrow> bool" where
  "write_ok wr None \<longleftrightarrow> (\<forall>t. wr t = 0)"
| "write_ok wr (Some w) \<longleftrightarrow> unat (wl_lock_count w) = wr (wl_thread_id w) \<and> 0 < wr (wl_thread_id w)"

fun read_ok :: "(nat \<Rightarrow> nat) \<Rightarrow> account_read_locks option \<Rightarrow> bool" where
  "read_ok rd None \<longleftrightarrow> (\<forall>t. rd t = 0)"
| "read_ok rd (Some r) \<longleftrightarrow> length (rl_lock_counts r) = MAX_THREADS \<and>
     (\<forall>t < MAX_THREADS. unat (rl_lock_counts r ! t) = rd t) \<and>
     members (rl_thread_set r) = {t. 0 < rd t} \<and> (\<exists>t. 0 < rd t)"

definition locks_ok :: "nat \<Rightarrow> (nat \<Rightarrow> nat) \<Rightarrow> (nat \<Rightarrow> nat) \<Rightarrow> bool" where
  "locks_ok n wr rd \<longleftrightarrow> (\<forall>t. 0 < wr t \<or> 0 < rd t \<longrightarrow> t < n) \<and>
     (\<forall>t t'. 0 < wr t \<and> (0 < wr t' \<or> 0 < rd t') \<longrightarrow> t' = t)"

definition entry_ok :: "nat \<Rightarrow> (nat \<Rightarrow> nat) \<Rightarrow> (nat \<Rightarrow> nat) \<Rightarrow> thread_account_locks option \<Rightarrow> bool" where
  "entry_ok n wr rd e \<longleftrightarrow> locks_ok n wr rd \<and>
     (case e of
        None \<Rightarrow> (\<forall>t. wr t = 0 \<and> rd t = 0)
      | Some e \<Rightarrow> (ta_write_locks e \<noteq> None \<or> ta_read_locks e \<noteq> None) \<and>
          write_ok wr (ta_write_locks e) \<and> read_ok rd (ta_read_locks e))"

definition write_allowed :: "(nat \<Rightarrow> nat) \<Rightarrow> (nat \<Rightarrow> nat) \<Rightarrow> nat \<Rightarrow> bool" where
  "write_allowed wr rd t \<longleftrightarrow> (\<forall>t'. 0 < wr t' \<or> 0 < rd t' \<longrightarrow> t' = t)"

definition read_allowed :: "(nat \<Rightarrow> nat) \<Rightarrow> nat \<Rightarrow> bool" where
  "read_allowed wr t \<longleftrightarrow> (\<forall>t'. 0 < wr t' \<longrightarrow> t' = t)"

text \<open>The entry that \<open>entry().or_default()\<close> gives.\<close>

definition entry_or_default :: "thread_account_locks option \<Rightarrow> thread_account_locks" where
  "entry_or_default e = (case e of Some e \<Rightarrow> e | None \<Rightarrow> thread_account_locks_default)"

lemma entry_or_default_ok:
  "entry_ok n wr rd e \<Longrightarrow> write_ok wr (ta_write_locks (entry_or_default e)) \<and> read_ok rd (ta_read_locks (entry_or_default e))"
  by (auto simp: entry_ok_def entry_or_default_def thread_account_locks_default_def split: option.splits)

lemma entry_okI:
  "locks_ok n wr rd \<Longrightarrow> ta_write_locks e \<noteq> None \<or> ta_read_locks e \<noteq> None \<Longrightarrow>
     write_ok wr (ta_write_locks e) \<Longrightarrow> read_ok rd (ta_read_locks e) \<Longrightarrow> entry_ok n wr rd (Some e)"
  by (simp add: entry_ok_def)

lemma one_thread_iff:
  "read_ok rd (Some r) \<Longrightarrow> only_one_contained (rl_thread_set r) = Some t \<longleftrightarrow> (\<forall>t'. 0 < rd t' \<longleftrightarrow> t' = t)"
  using thread_bits.the_one_iff [of "rl_thread_set r" t] by auto

lemma locks_ok_write: "locks_ok n wr rd \<Longrightarrow> t < n \<Longrightarrow> write_allowed wr rd t \<Longrightarrow> locks_ok n (wr(t := Suc (wr t))) rd"
  by (auto simp: locks_ok_def write_allowed_def split: if_splits)

lemma locks_ok_read: "locks_ok n wr rd \<Longrightarrow> t < n \<Longrightarrow> read_allowed wr t \<Longrightarrow> locks_ok n wr (rd(t := Suc (rd t)))"
  by (auto simp: locks_ok_def read_allowed_def split: if_splits)

lemma locks_ok_less: "locks_ok n wr rd \<Longrightarrow> (\<And>t. wr' t \<le> wr t) \<Longrightarrow> (\<And>t. rd' t \<le> rd t) \<Longrightarrow> locks_ok n wr' rd'"
  unfolding locks_ok_def by (meson less_le_trans)

lemma write_lock_entry:
  assumes e: "entry_ok n wr rd (locks L k)" and t: "t < n" and ok: "write_allowed wr rd t"
    and b: "Suc (wr t) < 2 ^ 32"
  shows "\<exists>e. write_lock_account k t L = Some (L\<lparr>locks := (locks L)(k \<mapsto> e)\<rparr>) \<and>
     entry_ok n (wr(t := Suc (wr t))) rd (Some e)"
proof -
  let ?wr = "wr(t := Suc (wr t))"
  define e0 where "e0 = entry_or_default (locks L k)"
  have w: "write_ok wr (ta_write_locks e0)" and r: "read_ok rd (ta_read_locks e0)"
    using entry_or_default_ok [OF e] by (simp_all add: e0_def)
  have lk: "locks_ok n ?wr rd" using e t ok by (simp add: entry_ok_def locks_ok_write)
  have only: "only_one_contained (rl_thread_set rl) = Some t" if "ta_read_locks e0 = Some rl" for rl
  proof -
    have rl: "read_ok rd (Some rl)" using r that by simp
    then obtain t' where "0 < rd t'" by auto
    then show ?thesis using one_thread_iff [OF rl, of t] ok by (auto simp: write_allowed_def)
  qed
  have ex: "write_lock_account k t L = (case ta_write_locks e0 of
       Some wl \<Rightarrow> if wl_thread_id wl \<noteq> t then None else Some (L\<lparr>locks := (locks L)(k \<mapsto>
          e0\<lparr>ta_write_locks := Some (wl\<lparr>wl_lock_count := wl_lock_count wl + 1\<rparr>)\<rparr>)\<rparr>)
     | None \<Rightarrow> Some (L\<lparr>locks := (locks L)(k \<mapsto> e0\<lparr>ta_write_locks := Some \<lparr>wl_thread_id = t, wl_lock_count = 1\<rparr>\<rparr>)\<rparr>))"
    using only by (auto simp: write_lock_account_def Let_def e0_def entry_or_default_def split: option.splits)
  show ?thesis
  proof (cases "ta_write_locks e0")
    case None
    with w have "entry_ok n ?wr rd (Some (e0\<lparr>ta_write_locks := Some \<lparr>wl_thread_id = t, wl_lock_count = 1\<rparr>\<rparr>))"
      using r by (intro entry_okI lk) simp_all
    with ex None show ?thesis by auto
  next
    case (Some wl)
    with w have wl: "unat (wl_lock_count wl) = wr (wl_thread_id wl)" "0 < wr (wl_thread_id wl)" by simp_all
    then have tid: "wl_thread_id wl = t" using ok by (simp add: write_allowed_def)
    have cnt: "unat (wl_lock_count wl + 1) = Suc (wr t)" using b wl tid by (simp add: unat_add_no_wrap)
    have "entry_ok n ?wr rd (Some (e0\<lparr>ta_write_locks := Some (wl\<lparr>wl_lock_count := wl_lock_count wl + 1\<rparr>)\<rparr>))"
      using r cnt tid by (intro entry_okI lk) simp_all
    with ex Some tid show ?thesis by auto
  qed
qed

lemma write_unlock_entry:
  assumes e: "entry_ok n wr rd (locks L k)" and t: "0 < wr t"
  shows "\<exists>e. write_unlock_account k t L = Some (L\<lparr>locks := (locks L)(k := e)\<rparr>) \<and>
     entry_ok n (wr(t := wr t - 1)) rd e"
proof -
  let ?wr = "wr(t := wr t - 1)"
  from e t obtain e0 where e0: "locks L k = Some e0" "write_ok wr (ta_write_locks e0)" "read_ok rd (ta_read_locks e0)"
    by (auto simp: entry_ok_def split: option.splits)
  have lk0: "locks_ok n wr rd" using e by (simp add: entry_ok_def)
  then have lk: "locks_ok n ?wr rd" by (rule locks_ok_less) auto
  obtain wl where wl: "ta_write_locks e0 = Some wl" using e0(2) t by (cases "ta_write_locks e0") auto
  have cnt: "unat (wl_lock_count wl) = wr (wl_thread_id wl)" "0 < wr (wl_thread_id wl)" using e0(2) wl by simp_all
  then have tid: "wl_thread_id wl = t" using lk0 t unfolding locks_ok_def by blast
  then have "wl_lock_count wl \<noteq> 0" using cnt by auto
  then have cnt': "unat (wl_lock_count wl - 1) = wr t - 1" using cnt tid by (simp add: unat_sub_no_wrap one_le_word)
  show ?thesis
  proof (cases "wl_lock_count wl - 1 = 0")
    case True
    have "?wr t' = 0" for t'
      using lk0 t True cnt' unfolding locks_ok_def by (cases "t' = t") auto
    then have "entry_ok n ?wr rd (if ta_read_locks e0 = None then None else Some (e0\<lparr>ta_write_locks := None\<rparr>))"
      using lk e0(3) by (auto simp: entry_ok_def simp del: fun_upd_apply)
    then show ?thesis using e0(1) wl tid True by (auto simp: write_unlock_account_def)
  next
    case False
    then have "0 < wr t - 1" using cnt' by (metis gr0I unat_eq_zero_iff)
    then have "entry_ok n ?wr rd (Some (e0\<lparr>ta_write_locks := Some (wl\<lparr>wl_lock_count := wl_lock_count wl - 1\<rparr>)\<rparr>))"
      using e0(3) tid cnt' by (intro entry_okI lk) simp_all
    then show ?thesis using e0(1) wl tid False by (auto simp: write_unlock_account_def)
  qed
qed

lemma read_lock_entry:
  assumes e: "entry_ok n wr rd (locks L k)" and t: "t < n" "n \<le> MAX_THREADS" and ok: "read_allowed wr t"
    and b: "Suc (rd t) < 2 ^ 32"
  shows "\<exists>e. read_lock_account k t L = Some (L\<lparr>locks := (locks L)(k \<mapsto> e)\<rparr>) \<and>
     entry_ok n wr (rd(t := Suc (rd t))) (Some e)"
proof -
  let ?rd = "rd(t := Suc (rd t))"
  define e0 where "e0 = entry_or_default (locks L k)"
  have w: "write_ok wr (ta_write_locks e0)" and r: "read_ok rd (ta_read_locks e0)"
    using entry_or_default_ok [OF e] by (simp_all add: e0_def)
  have lk: "locks_ok n wr ?rd" using e t ok by (simp add: entry_ok_def locks_ok_read)
  have tM: "t < MAX_THREADS" using t by simp
  have tid: "wl_thread_id wl = t" if "ta_write_locks e0 = Some wl" for wl
    using w that ok by (auto simp: read_allowed_def)
  define rl' where "rl' = (case ta_read_locks e0 of
        Some r \<Rightarrow> \<lparr>rl_thread_set = ts_insert t (rl_thread_set r),
           rl_lock_counts = (rl_lock_counts r)[t := rl_lock_counts r ! t + 1]\<rparr>
      | None \<Rightarrow> \<lparr>rl_thread_set = ts_only t, rl_lock_counts = (replicate MAX_THREADS 0)[t := 1]\<rparr>)"
  have ex: "read_lock_account k t L = Some (L\<lparr>locks := (locks L)(k \<mapsto> e0\<lparr>ta_read_locks := Some rl'\<rparr>)\<rparr>)"
    using tid tM r
    by (auto simp: read_lock_account_def Let_def e0_def entry_or_default_def rl'_def split: option.splits)
  have put: ?thesis if "read_ok ?rd (Some rl')"
  proof -
    have "entry_ok n wr ?rd (Some (e0\<lparr>ta_read_locks := Some rl'\<rparr>))"
      using w that by (intro entry_okI lk) (simp_all del: fun_upd_apply read_ok.simps)
    with ex show ?thesis by blast
  qed
  show ?thesis
  proof (cases "ta_read_locks e0")
    case None
    with r tM show ?thesis by (intro put) (auto simp: thread_bits.mem_single nth_list_update rl'_def)
  next
    case (Some rl)
    with r have rl: "length (rl_lock_counts rl) = MAX_THREADS" "members (rl_thread_set rl) = {t. 0 < rd t}"
      "\<forall>t < MAX_THREADS. unat (rl_lock_counts rl ! t) = rd t" by simp_all
    have "unat (rl_lock_counts rl ! t + 1) = Suc (rd t)" using b tM rl(3) by (simp add: unat_add_no_wrap)
    with rl tM Some show ?thesis by (intro put) (auto simp: thread_bits.mem_ins nth_list_update rl'_def)
  qed
qed

lemma read_unlock_entry:
  assumes e: "entry_ok n wr rd (locks L k)" and n: "n \<le> MAX_THREADS" and t: "0 < rd t"
  shows "\<exists>e. read_unlock_account k t L = Some (L\<lparr>locks := (locks L)(k := e)\<rparr>) \<and>
     entry_ok n wr (rd(t := rd t - 1)) e"
proof -
  let ?rd = "rd(t := rd t - 1)"
  from e t obtain e0 where e0: "locks L k = Some e0" "write_ok wr (ta_write_locks e0)" "read_ok rd (ta_read_locks e0)"
    by (auto simp: entry_ok_def split: option.splits)
  obtain rl where Some: "ta_read_locks e0 = Some rl" using e0(3) t by (cases "ta_read_locks e0") auto
  with e0(3) have rl: "length (rl_lock_counts rl) = MAX_THREADS" "members (rl_thread_set rl) = {t. 0 < rd t}"
    "\<forall>t < MAX_THREADS. unat (rl_lock_counts rl ! t) = rd t" by simp_all
  have lk0: "locks_ok n wr rd" using e by (simp add: entry_ok_def)
  then have lk: "locks_ok n wr ?rd" by (rule locks_ok_less) auto
  have "t < n" using lk0 t unfolding locks_ok_def by blast
  then have tM: "t < MAX_THREADS" using n by simp
  let ?c = "rl_lock_counts rl ! t - 1"
  let ?cs = "(rl_lock_counts rl)[t := ?c]"
  let ?ts = "if ?c = 0 then ts_remove t (rl_thread_set rl) else rl_thread_set rl"
  have "rl_lock_counts rl ! t \<noteq> 0" using t rl(3) tM by auto
  then have c: "unat ?c = rd t - 1" using rl(3) tM by (simp add: unat_sub_no_wrap one_le_word)
  then have c0: "?c = 0 \<longleftrightarrow> rd t - 1 = 0" by (metis unat_eq_zero_iff)
  have mem: "members ?ts = {t. 0 < ?rd t}"
    using c0 t tM rl(2) by (auto simp: thread_bits.mem_del split: if_splits)
  have has: "ts_contains t (rl_thread_set rl)" using t tM rl(2) by (simp add: thread_bits.has_iff)
  have empty: "?c = 0 \<and> ts_is_empty ?ts \<longleftrightarrow> (\<forall>t. ?rd t = 0)"
    using mem c0 by (auto simp: thread_bits.is_empty_iff)
  let ?e = "if (\<forall>t. ?rd t = 0) then if ta_write_locks e0 = None then None else Some (e0\<lparr>ta_read_locks := None\<rparr>)
      else Some (e0\<lparr>ta_read_locks := Some \<lparr>rl_thread_set = ?ts, rl_lock_counts = ?cs\<rparr>\<rparr>)"
  have "read_unlock_account k t L = Some (L\<lparr>locks := (locks L)(k := ?e)\<rparr>)"
    unfolding empty [symmetric] using e0(1) Some has tM rl(1) by (simp add: read_unlock_account_def Let_def)
  moreover have "entry_ok n wr ?rd ?e"
  proof (cases "\<forall>t. ?rd t = 0")
    case True
    then show ?thesis using lk e0(2) by (cases "ta_write_locks e0") (simp_all add: entry_ok_def del: fun_upd_apply)
  next
    case False
    then have "\<exists>t'. 0 < ?rd t'" by (simp del: fun_upd_apply)
    with mem rl(1,3) c tM have "read_ok ?rd (Some \<lparr>rl_thread_set = ?ts, rl_lock_counts = ?cs\<rparr>)"
      by (auto simp: nth_list_update)
    then show ?thesis using e0(2)
      by (subst if_not_P [OF False], intro entry_okI lk) (simp_all del: fun_upd_apply read_ok.simps)
  qed
  ultimately show ?thesis by blast
qed

text \<open>An account has an entry exactly when a lock is held on it.\<close>

lemma entry_present_iff:
  assumes "entry_ok n (f True) (f False) e"
  shows "e \<noteq> None \<longleftrightarrow> (\<exists>b t. 0 < f b t)"
proof (cases e)
  case None
  with assms show ?thesis by (auto simp: entry_ok_def ex_bool_eq)
next
  case (Some e0)
  with assms have "(\<exists>t. 0 < f True t) \<or> (\<exists>t. 0 < f False t)"
    by (cases "ta_write_locks e0"; cases "ta_read_locks e0") (auto simp: entry_ok_def)
  with Some show ?thesis by (auto simp: ex_bool_eq)
qed

text \<open>Which threads the table offers for an account.\<close>

lemma one_thread_solo:
  assumes rl: "read_ok rd (Some rl)" and n: "n \<le> MAX_THREADS" and dom: "\<And>t. 0 < rd t \<Longrightarrow> t < n"
  shows "members (case only_one_contained (rl_thread_set rl) of Some t \<Rightarrow> ts_only t | None \<Rightarrow> ts_none)
     = {t. t < n \<and> (\<forall>t'. 0 < rd t' \<longrightarrow> t' = t)}"
proof (cases "only_one_contained (rl_thread_set rl)")
  case (Some t)
  then have "\<forall>t'. 0 < rd t' \<longleftrightarrow> t' = t" using one_thread_iff [OF rl] by simp
  moreover from this have "t < n" using dom [of t] by simp
  ultimately show ?thesis using Some n by (auto simp: thread_bits.mem_single)
next
  case None
  obtain t0 where t0: "0 < rd t0" using rl by auto
  have False if "\<forall>t'. 0 < rd t' \<longrightarrow> t' = t" for t
    using that t0 None one_thread_iff [OF rl, of t] by auto
  then show ?thesis using None by (auto simp: thread_bits.mem_empty)
qed

lemma schedulable_entry:
  assumes e: "entry_ok n wr rd (locks L k)" and n: "num_threads L = n" "n \<le> MAX_THREADS"
  shows "\<exists>s. schedulable_threads w k L = Some s \<and>
     members s = {t. t < n \<and> (if w then write_allowed wr rd t else read_allowed wr t)}"
proof (cases "locks L k")
  case None
  with e n show ?thesis
    by (auto simp: schedulable_threads_def entry_ok_def write_allowed_def read_allowed_def thread_bits.mem_upto)
next
  case (Some e0)
  have lk: "\<And>t. 0 < wr t \<or> 0 < rd t \<Longrightarrow> t < n" "\<And>t t'. 0 < wr t \<Longrightarrow> 0 < wr t' \<or> 0 < rd t' \<Longrightarrow> t' = t"
    using e by (auto simp: entry_ok_def locks_ok_def)
  from e Some have e0: "write_ok wr (ta_write_locks e0)" "read_ok rd (ta_read_locks e0)"
    "ta_write_locks e0 \<noteq> None \<or> ta_read_locks e0 \<noteq> None" by (simp_all add: entry_ok_def)
  show ?thesis
  proof (cases "ta_write_locks e0")
    case (Some wl)
    let ?t = "wl_thread_id wl"
    have t: "0 < wr ?t" using e0(1) Some by simp
    then have "?t < MAX_THREADS" using lk(1) [of ?t] n by simp
    moreover have "write_allowed wr rd t \<longleftrightarrow> t = ?t" "read_allowed wr t \<longleftrightarrow> t = ?t" for t
      using t lk(2) [OF t] by (auto simp: write_allowed_def read_allowed_def)
    moreover have "\<exists>s. schedulable_threads w k L = Some s \<and> members s = {?t}"
    proof (cases "ta_read_locks e0")
      case None
      with \<open>locks L k = Some e0\<close> Some \<open>?t < MAX_THREADS\<close> show ?thesis
        by (simp add: schedulable_threads_def thread_bits.mem_single)
    next
      case (Some rl)
      then have rl: "read_ok rd (Some rl)" using e0(2) by simp
      then obtain t' where "0 < rd t'" by auto
      then have "only_one_contained (rl_thread_set rl) = Some ?t"
        using one_thread_iff [OF rl, of ?t] lk(2) [OF t] by auto
      with Some \<open>locks L k = Some e0\<close> \<open>ta_write_locks e0 = Some wl\<close> show ?thesis
        by (simp add: schedulable_threads_def thread_bits.the_one_iff [symmetric])
    qed
    ultimately show ?thesis using lk(1) [of ?t] t by (auto split: if_splits)
  next
    case None
    with e0(3) obtain rl where Some: "ta_read_locks e0 = Some rl" by auto
    then have rl: "read_ok rd (Some rl)" using e0(2) by simp
    have wr: "wr t = 0" for t using e0(1) None by simp
    show ?thesis
    proof (cases w)
      case False
      with \<open>locks L k = Some e0\<close> None Some n wr show ?thesis
        by (auto simp: schedulable_threads_def thread_bits.mem_upto read_allowed_def)
    next
      case True
      have "members (case only_one_contained (rl_thread_set rl) of Some t \<Rightarrow> ts_only t | None \<Rightarrow> ts_none)
          = {t. t < n \<and> write_allowed wr rd t}"
        using one_thread_solo [OF rl n(2)] lk(1) wr by (simp add: write_allowed_def)
      with True \<open>locks L k = Some e0\<close> None Some show ?thesis by (simp add: schedulable_threads_def)
    qed
  qed
qed

section \<open>The table represents the held locks\<close>

type_synonym 'k thread_held = "('k \<times> bool \<times> nat) multiset"

definition held_by :: "'k thread_held \<Rightarrow> 'k \<Rightarrow> bool \<Rightarrow> nat \<Rightarrow> nat" where
  "held_by held k b t = count held (k, b, t)"

definition ta_repr :: "'k thread_held \<Rightarrow> 'k thread_aware_account_locks \<Rightarrow> bool" where
  "ta_repr held L \<longleftrightarrow> 0 < num_threads L \<and> num_threads L \<le> MAX_THREADS \<and> size held < 2 ^ 32 \<and>
     (\<forall>k. entry_ok (num_threads L) (held_by held k True) (held_by held k False) (locks L k))"

text \<open>The threads on which a new lock is possible: no other thread holds a conflicting one.\<close>

definition thread_allowed :: "'k thread_held \<Rightarrow> bool \<Rightarrow> 'k \<Rightarrow> nat \<Rightarrow> bool" where
  "thread_allowed held w k t \<longleftrightarrow> (\<forall>b t'. (k, b, t') \<in># held \<and> (w \<or> b) \<longrightarrow> t' = t)"

lemma thread_allowed_iff:
  "thread_allowed held w k t \<longleftrightarrow>
     (if w then write_allowed (held_by held k True) (held_by held k False) t
      else read_allowed (held_by held k True) t)"
  unfolding thread_allowed_def write_allowed_def read_allowed_def held_by_def count_greater_zero_iff
  by (auto simp: all_bool_eq)

lemma thread_allowed_add: "thread_allowed held w k t \<Longrightarrow> thread_allowed (add_mset (k', b, t) held) w k t"
  by (auto simp: thread_allowed_def)

lemma held_by_add:
  "held_by (add_mset (k, b, t) held) k' b' =
     (if k' = k \<and> b' = b then (held_by held k b)(t := Suc (held_by held k b t)) else held_by held k' b')"
  by (auto simp: held_by_def)

lemma lock_step_repr:
  assumes r: "ta_repr held L" and t: "t < num_threads L" and ok: "thread_allowed held w k t"
    and b: "Suc (size held) < 2 ^ 32"
  shows "\<exists>L'. (if w then write_lock_account k t L else read_lock_account k t L) = Some L' \<and>
     ta_repr (add_mset (k, w, t) held) L' \<and> num_threads L' = num_threads L"
proof -
  let ?n = "num_threads L" and ?wr = "held_by held k True" and ?rd = "held_by held k False"
  have e: "entry_ok ?n ?wr ?rd (locks L k)" and n: "?n \<le> MAX_THREADS" using r by (simp_all add: ta_repr_def)
  have bound: "Suc (held_by held k b t) < 2 ^ 32" for b
    using b count_le_size [of held "(k, b, t)"] by (simp add: held_by_def)
  obtain e' where res: "(if w then write_lock_account k t L else read_lock_account k t L)
      = Some (L\<lparr>locks := (locks L)(k \<mapsto> e')\<rparr>)"
    and e': "entry_ok ?n (held_by (add_mset (k, w, t) held) k True) (held_by (add_mset (k, w, t) held) k False) (Some e')"
  proof (cases w)
    case True
    with write_lock_entry [OF e t _ bound] ok that show ?thesis by (auto simp: thread_allowed_iff held_by_add)
  next
    case False
    with read_lock_entry [OF e t n _ bound] ok that show ?thesis by (auto simp: thread_allowed_iff held_by_add)
  qed
  have "ta_repr (add_mset (k, w, t) held) (L\<lparr>locks := (locks L)(k \<mapsto> e')\<rparr>)"
    using r e' b by (auto simp: ta_repr_def held_by_add)
  with res show ?thesis by auto
qed

lemma unlock_step_repr:
  assumes r: "ta_repr (add_mset (k, w, t) held) L"
  shows "\<exists>L'. (if w then write_unlock_account k t L else read_unlock_account k t L) = Some L' \<and> ta_repr held L'"
proof -
  let ?n = "num_threads L" and ?h = "add_mset (k, w, t) held"
  have e: "entry_ok ?n (held_by ?h k True) (held_by ?h k False) (locks L k)" and n: "?n \<le> MAX_THREADS"
    using r by (simp_all add: ta_repr_def)
  have dec: "(held_by ?h k w)(t := held_by ?h k w t - 1) = held_by held k w"
    by (auto simp: held_by_def)
  have pos: "0 < held_by ?h k w t" by (simp add: held_by_def)
  obtain e' where res: "(if w then write_unlock_account k t L else read_unlock_account k t L)
      = Some (L\<lparr>locks := (locks L)(k := e')\<rparr>)"
    and e': "entry_ok ?n (held_by held k True) (held_by held k False) e'"
  proof (cases w)
    case True
    with write_unlock_entry [OF e, of t] pos dec that show ?thesis by (auto simp: held_by_add)
  next
    case False
    with read_unlock_entry [OF e n, of t] pos dec that show ?thesis by (auto simp: held_by_add)
  qed
  have "ta_repr held (L\<lparr>locks := (locks L)(k := e')\<rparr>)"
    unfolding ta_repr_def
  proof (intro conjI allI)
    fix k'
    have "k' \<noteq> k \<Longrightarrow> held_by ?h k' b = held_by held k' b" for b by (simp add: held_by_add)
    moreover have "entry_ok ?n (held_by ?h k' True) (held_by ?h k' False) (locks L k')" using r by (simp add: ta_repr_def)
    ultimately show "entry_ok (num_threads (L\<lparr>locks := (locks L)(k := e')\<rparr>)) (held_by held k' True)
        (held_by held k' False) (locks (L\<lparr>locks := (locks L)(k := e')\<rparr>) k')"
      using e' by (cases "k' = k") simp_all
  qed (use r in \<open>simp_all add: ta_repr_def\<close>)
  with res show ?thesis by auto
qed

text \<open>The locks of one transaction on one thread.\<close>

definition tx_locks :: "'k list \<Rightarrow> 'k list \<Rightarrow> nat \<Rightarrow> 'k thread_held" where
  "tx_locks ws rs t = mset (map (\<lambda>k. (k, True, t)) ws) + mset (map (\<lambda>k. (k, False, t)) rs)"

lemma lock_loop_repr:
  assumes "ta_repr held L" and "t < num_threads L" and "\<forall>k \<in> set ks. thread_allowed held w k t"
    and "size held + length ks < 2 ^ 32"
  shows "\<exists>L'. for_accounts (\<lambda>k. if w then write_lock_account k t else read_lock_account k t) ks L = Some L' \<and>
     ta_repr (mset (map (\<lambda>k. (k, w, t)) ks) + held) L' \<and> num_threads L' = num_threads L"
  using assms
proof (induction ks arbitrary: held L)
  case (Cons k ks)
  have "Suc (size held) < 2 ^ 32" "thread_allowed held w k t" using Cons.prems(3,4) by simp_all
  from lock_step_repr [OF Cons.prems(1,2) this(2,1)] obtain L1
    where L1: "(if w then write_lock_account k t L else read_lock_account k t L) = Some L1"
      "ta_repr (add_mset (k, w, t) held) L1" "num_threads L1 = num_threads L" by blast
  have "\<forall>k' \<in> set ks. thread_allowed (add_mset (k, w, t) held) w k' t"
    using Cons.prems(3) by (simp add: thread_allowed_add)
  from Cons.IH [OF L1(2) _ this] L1 Cons.prems(2,4) show ?case by (cases w) auto
qed simp

lemma ta_unlock_loop_repr:
  assumes "ta_repr (mset (map (\<lambda>k. (k, w, t)) ks) + held) L"
  shows "\<exists>L'. for_accounts (\<lambda>k. if w then write_unlock_account k t else read_unlock_account k t) ks L = Some L' \<and>
     ta_repr held L'"
  using assms
proof (induction ks arbitrary: L)
  case (Cons k ks)
  from unlock_step_repr [of k w t "mset (map (\<lambda>k. (k, w, t)) ks) + held" L] Cons.prems obtain L1
    where "(if w then write_unlock_account k t L else read_unlock_account k t L) = Some L1"
      "ta_repr (mset (map (\<lambda>k. (k, w, t)) ks) + held) L1" by auto
  with Cons.IH [of L1] show ?case by (cases w) auto
qed simp

lemma ta_lock_accounts_repr:
  assumes r: "ta_repr held L" and t: "t < num_threads L"
    and ok: "\<forall>k \<in> set ws. thread_allowed held True k t" "\<forall>k \<in> set rs. thread_allowed held False k t"
    and b: "size held + length ws + length rs < 2 ^ 32"
  shows "\<exists>L'. ta_lock_accounts ws rs t L = Some L' \<and> ta_repr (tx_locks ws rs t + held) L' \<and>
     num_threads L' = num_threads L"
proof -
  let ?h = "mset (map (\<lambda>k. (k, True, t)) ws) + held"
  obtain L1 where L1: "for_accounts (\<lambda>k. write_lock_account k t) ws L = Some L1" "ta_repr ?h L1"
    "num_threads L1 = num_threads L"
    using lock_loop_repr [OF r t ok(1)] b by auto
  have "thread_allowed ?h False k t" if "k \<in> set rs" for k
    using ok(2) that by (auto simp: thread_allowed_def)
  then obtain L2 where "for_accounts (\<lambda>k. read_lock_account k t) rs L1 = Some L2"
    "ta_repr (mset (map (\<lambda>k. (k, False, t)) rs) + ?h) L2" "num_threads L2 = num_threads L1"
    using lock_loop_repr [OF L1(2), of t rs False] L1(3) t b by auto
  with L1 t show ?thesis
    by (simp add: ta_lock_accounts_def tx_locks_def add.assoc add.left_commute)
qed

lemma ta_unlock_accounts_repr:
  assumes "ta_repr (tx_locks ws rs t + held) L"
  shows "\<exists>L'. ta_unlock_accounts ws rs t L = Some L' \<and> ta_repr held L'"
proof -
  let ?h = "mset (map (\<lambda>k. (k, False, t)) rs) + held"
  from assms have "ta_repr (mset (map (\<lambda>k. (k, True, t)) ws) + ?h) L" by (simp add: tx_locks_def add.assoc)
  from ta_unlock_loop_repr [OF this] obtain L1
    where L1: "for_accounts (\<lambda>k. write_unlock_account k t) ws L = Some L1" "ta_repr ?h L1" by auto
  from ta_unlock_loop_repr [OF L1(2)] obtain L2
    where "for_accounts (\<lambda>k. read_unlock_account k t) rs L1 = Some L2" "ta_repr held L2" by auto
  with L1 show ?thesis by (simp add: ta_unlock_accounts_def)
qed

text \<open>The threads that every account offers.\<close>

fun offers :: "thread_set option \<Rightarrow> nat set \<Rightarrow> bool" where
  "offers None S \<longleftrightarrow> S = {}"
| "offers (Some s) S \<longleftrightarrow> members s = S \<and> S \<noteq> {}"

lemma narrow_spec:
  assumes r: "ta_repr held L" and "members s \<noteq> {}" and "members s \<subseteq> {..<num_threads L}"
  shows "\<exists>x. narrow w ks L s = Some x \<and> offers x {t \<in> members s. \<forall>k \<in> set ks. thread_allowed held w k t}"
  using assms(2,3)
proof (induction ks arbitrary: s)
  case (Cons k ks)
  have "entry_ok (num_threads L) (held_by held k True) (held_by held k False) (locks L k)"
    "num_threads L \<le> MAX_THREADS" using r by (simp_all add: ta_repr_def)
  from schedulable_entry [OF this(1) refl this(2), of w] obtain s1
    where s1: "schedulable_threads w k L = Some s1"
      "members s1 = {t. t < num_threads L \<and> thread_allowed held w k t}" by (auto simp: thread_allowed_iff)
  have m: "members (ts_bitand s s1) = {t \<in> members s. thread_allowed held w k t}"
    using s1(2) Cons.prems(2) by (auto simp: thread_bits.mem_inter)
  show ?case
  proof (cases "ts_is_empty (ts_bitand s s1)")
    case True
    then have "{t \<in> members s. thread_allowed held w k t} = {}" using m by (simp add: thread_bits.is_empty_iff)
    with True s1(1) show ?thesis by auto
  next
    case False
    have "{t \<in> members (ts_bitand s s1). \<forall>k \<in> set ks. thread_allowed held w k t}
        = {t \<in> members s. \<forall>k \<in> set (k # ks). thread_allowed held w k t}" by (auto simp: m)
    moreover have "members (ts_bitand s s1) \<noteq> {}" "members (ts_bitand s s1) \<subseteq> {..<num_threads L}"
      using False Cons.prems(2) m by (auto simp: thread_bits.is_empty_iff)
    ultimately show ?thesis using Cons.IH [of "ts_bitand s s1"] False s1(1) by (simp add: Let_def)
  qed
qed simp

definition free_threads ::
  "'k thread_held \<Rightarrow> 'k list \<Rightarrow> 'k list \<Rightarrow> 'k thread_aware_account_locks \<Rightarrow> nat set" where
  "free_threads held ws rs L = {t. t < num_threads L \<and>
     (\<forall>k \<in> set ws. thread_allowed held True k t) \<and> (\<forall>k \<in> set rs. thread_allowed held False k t)}"

lemma accounts_schedulable_spec:
  assumes r: "ta_repr held L"
  shows "\<exists>x. accounts_schedulable_threads ws rs L = Some x \<and> offers x (free_threads held ws rs L)"
proof -
  let ?n = "num_threads L" and ?any = "ts_any (num_threads L)"
  let ?W = "{t \<in> members ?any. \<forall>k \<in> set ws. thread_allowed held True k t}"
  have n: "0 < ?n" "?n \<le> MAX_THREADS" using r by (simp_all add: ta_repr_def)
  then have any: "members ?any = {..<?n}" by (simp add: thread_bits.mem_upto)
  with n have "members ?any \<noteq> {}" "members ?any \<subseteq> {..<?n}" by auto
  from narrow_spec [OF r this, of True ws] obtain x
    where x: "narrow True ws L ?any = Some x" "offers x ?W" by blast
  show ?thesis
  proof (cases x)
    case None
    with x any show ?thesis by (auto simp: accounts_schedulable_threads_def free_threads_def)
  next
    case (Some s1)
    with x(2) have s1: "members s1 = ?W" "members s1 \<noteq> {}" "members s1 \<subseteq> {..<?n}" using any by auto
    have "{t \<in> members s1. \<forall>k \<in> set rs. thread_allowed held False k t} = free_threads held ws rs L"
      using any by (auto simp: s1(1) free_threads_def)
    with narrow_spec [OF r s1(2,3), of False rs] x(1) Some show ?thesis
      by (simp add: accounts_schedulable_threads_def)
  qed
qed

lemma ta_try_lock_spec:
  assumes r: "ta_repr held L" and sel: "\<And>s. members s \<noteq> {} \<Longrightarrow> sel s \<in> members s"
    and b: "size held + length ws + length rs < 2 ^ 32"
  shows "\<exists>x L'. ta_try_lock_accounts ws rs allowed sel L = Some (x, L') \<and> num_threads L' = num_threads L \<and>
     (if free_threads held ws rs L \<inter> members allowed = {} then x = None \<and> L' = L
      else \<exists>t \<in> free_threads held ws rs L \<inter> members allowed. x = Some t \<and> ta_repr (tx_locks ws rs t + held) L')"
proof -
  let ?F = "free_threads held ws rs L"
  obtain x where x: "accounts_schedulable_threads ws rs L = Some x" "offers x ?F"
    using accounts_schedulable_spec [OF r] by blast
  show ?thesis
  proof (cases x)
    case None
    with x show ?thesis by (simp add: ta_try_lock_accounts_def)
  next
    case (Some s)
    let ?s = "ts_bitand s allowed"
    have m: "members ?s = ?F \<inter> members allowed" using x(2) Some by (simp add: thread_bits.mem_inter)
    show ?thesis
    proof (cases "?F \<inter> members allowed = {}")
      case True
      with m x(1) Some show ?thesis by (simp add: ta_try_lock_accounts_def Let_def thread_bits.is_empty_iff)
    next
      case False
      then have t: "sel ?s \<in> ?F \<inter> members allowed" using sel [of ?s] m by simp
      then have "sel ?s < num_threads L" "\<forall>k \<in> set ws. thread_allowed held True k (sel ?s)"
        "\<forall>k \<in> set rs. thread_allowed held False k (sel ?s)" by (simp_all add: free_threads_def)
      from ta_lock_accounts_repr [OF r this b] obtain L' where "ta_lock_accounts ws rs (sel ?s) L = Some L'"
        "ta_repr (tx_locks ws rs (sel ?s) + held) L'" "num_threads L' = num_threads L" by blast
      with t False m x(1) Some show ?thesis
        by (auto simp: ta_try_lock_accounts_def Let_def thread_bits.is_empty_iff)
    qed
  qed
qed

section \<open>The table over time\<close>

text \<open>The table with the transactions that hold locks: write keys, read keys and thread.\<close>

type_synonym 'k ta_config = "'k thread_aware_account_locks \<times> ('k list \<times> 'k list \<times> nat) list"

fun holder_locks :: "'k list \<times> 'k list \<times> nat \<Rightarrow> 'k thread_held" where
  "holder_locks (ws, rs, t) = tx_locks ws rs t"

definition holders_held :: "('k list \<times> 'k list \<times> nat) list \<Rightarrow> 'k thread_held" where
  "holders_held hs = sum_list (map holder_locks hs)"

inductive ta_step :: "'k ta_config \<Rightarrow> 'k ta_config \<Rightarrow> bool" where
  ta_lock: "(\<And>s. members s \<noteq> {} \<Longrightarrow> sel s \<in> members s) \<Longrightarrow>
     size (holders_held hs) + length ws + length rs < 2 ^ 32 \<Longrightarrow>
     ta_try_lock_accounts ws rs allowed sel L = Some (Some t, L') \<Longrightarrow>
     ta_step (L, hs) (L', hs @ [(ws, rs, t)])"
| ta_unlock: "ta_unlock_accounts ws rs t L = Some L' \<Longrightarrow>
     ta_step (L, hs @ (ws, rs, t) # hs') (L', hs @ hs')"

definition ta_init :: "'k ta_config \<Rightarrow> bool" where
  "ta_init c \<longleftrightarrow> (\<exists>n L. ta_new n = Some L \<and> c = (L, []))"

fun ta_inv :: "'k ta_config \<Rightarrow> bool" where
  "ta_inv (L, hs) \<longleftrightarrow> ta_repr (holders_held hs) L"

lemma ta_new_repr: "ta_new n = Some L \<Longrightarrow> ta_repr {#} L"
  by (auto simp: ta_new_def ta_repr_def entry_ok_def locks_ok_def held_by_def split: if_splits)

lemma ta_step_inv: "ta_step c c' \<Longrightarrow> ta_inv c \<Longrightarrow> ta_inv c'"
proof (induction rule: ta_step.induct)
  case (ta_lock sel hs ws rs allowed L t L')
  from ta_lock(4) have "ta_repr (holders_held hs) L" by simp
  from ta_try_lock_spec [OF this ta_lock(1,2), of allowed] ta_lock(3)
  have "ta_repr (tx_locks ws rs t + holders_held hs) L'" by (auto split: if_splits)
  then show ?case by (simp add: holders_held_def add.commute)
next
  case (ta_unlock ws rs t L L' hs hs')
  then have "ta_repr (tx_locks ws rs t + holders_held (hs @ hs')) L"
    by (simp add: holders_held_def add.commute add.left_commute)
  from ta_unlock_accounts_repr [OF this] ta_unlock(1) show ?case by simp
qed

interpretation thread_table: invariant_system ta_init ta_step ta_inv
  by unfold_locales (auto simp: ta_init_def holders_held_def ta_new_repr intro: ta_step_inv)

definition ta_reachable :: "'k ta_config \<Rightarrow> bool" where
  "ta_reachable c \<longleftrightarrow> (\<exists>c0. ta_init c0 \<and> ta_step\<^sup>*\<^sup>* c0 c)"

lemma ta_reachable_repr: "ta_reachable (L, hs) \<Longrightarrow> ta_repr (holders_held hs) L"
  using thread_table.reachable_inv [of _ "(L, hs)"] by (auto simp: ta_reachable_def)

lemma ta_reachable_init: "ta_new n = Some L \<Longrightarrow> ta_reachable (L, [])"
  by (auto simp: ta_reachable_def ta_init_def)

lemma ta_reachable_step: "ta_reachable c \<Longrightarrow> ta_step c c' \<Longrightarrow> ta_reachable c'"
  by (auto simp: ta_reachable_def intro: rtranclp.rtrancl_into_rtrancl)

lemma in_holders_held:
  "(k, b, t) \<in># holders_held hs \<longleftrightarrow> (\<exists>ws rs. (ws, rs, t) \<in> set hs \<and> k \<in> set (if b then ws else rs))"
proof (induction hs)
  case (Cons h hs)
  obtain ws rs t' where h: "h = (ws, rs, t')" by (cases h)
  have "(k, b, t) \<in># holder_locks h \<longleftrightarrow> t = t' \<and> k \<in> set (if b then ws else rs)"
    by (cases b) (auto simp: h tx_locks_def)
  moreover have "holders_held (h # hs) = holder_locks h + holders_held hs" by (simp add: holders_held_def)
  ultimately show ?case using Cons.IH h by (cases b) (simp; blast)+
qed (simp add: holders_held_def)

section \<open>The properties\<close>

text \<open>C20. In every state of the thread-aware lock table, an account that a holder writes is locked
  by holders of that same thread only: two threads never hold conflicting locks.\<close>

theorem threads_never_conflict:
  assumes r: "ta_reachable (L, hs)" and h1: "(ws1, rs1, t1) \<in> set hs" and h2: "(ws2, rs2, t2) \<in> set hs"
    and k: "k \<in> set ws1" "k \<in> set ws2 \<union> set rs2"
  shows "t1 = t2"
proof -
  have "entry_ok (num_threads L) (held_by (holders_held hs) k True) (held_by (holders_held hs) k False) (locks L k)"
    using ta_reachable_repr [OF r] by (simp add: ta_repr_def)
  then have ex: "t' = t" if "0 < held_by (holders_held hs) k True t"
    "0 < held_by (holders_held hs) k True t' \<or> 0 < held_by (holders_held hs) k False t'" for t t'
    using that unfolding entry_ok_def locks_ok_def by blast
  have "0 < held_by (holders_held hs) k True t1"
    using h1 k(1) in_holders_held [of k True t1 hs] by (auto simp: held_by_def)
  moreover have "0 < held_by (holders_held hs) k True t2 \<or> 0 < held_by (holders_held hs) k False t2"
    using h2 k(2) in_holders_held [of k True t2 hs] in_holders_held [of k False t2 hs] by (auto simp: held_by_def)
  ultimately show ?thesis using ex by blast
qed

text \<open>\<open>try_lock_accounts\<close> never panics: it refuses, leaving the table as it was, exactly when no
  allowed thread is free of conflicts on every account, and otherwise it locks all accounts on a
  thread that is. The selector may return any member of the set it is given.\<close>

theorem ta_try_lock_correct:
  assumes r: "ta_reachable (L, hs)" and sel: "\<And>s. members s \<noteq> {} \<Longrightarrow> sel s \<in> members s"
    and b: "size (holders_held hs) + length ws + length rs < 2 ^ 32"
  shows "if \<exists>t < num_threads L. t \<in> members allowed \<and>
       (\<forall>(ws', rs', t') \<in> set hs. t' \<noteq> t \<longrightarrow>
          set ws \<inter> (set ws' \<union> set rs') = {} \<and> set rs \<inter> set ws' = {})
     then \<exists>t L'. ta_try_lock_accounts ws rs allowed sel L = Some (Some t, L') \<and> t \<in> members allowed \<and>
       ta_reachable (L', hs @ [(ws, rs, t)])
     else ta_try_lock_accounts ws rs allowed sel L = Some (None, L)"
proof -
  let ?F = "free_threads (holders_held hs) ws rs L"
  have F: "t \<in> ?F \<longleftrightarrow> t < num_threads L \<and> (\<forall>(ws', rs', t') \<in> set hs. t' \<noteq> t \<longrightarrow>
          set ws \<inter> (set ws' \<union> set rs') = {} \<and> set rs \<inter> set ws' = {})" for t
    unfolding free_threads_def thread_allowed_def in_holders_held by (auto simp: all_bool_eq) blast+
  obtain x L' where res: "ta_try_lock_accounts ws rs allowed sel L = Some (x, L')"
    and spec: "if ?F \<inter> members allowed = {} then x = None \<and> L' = L
      else \<exists>t \<in> ?F \<inter> members allowed. x = Some t \<and> ta_repr (tx_locks ws rs t + holders_held hs) L'"
    using ta_try_lock_spec [OF ta_reachable_repr [OF r] sel b, of allowed] by blast
  show ?thesis
  proof (cases "?F \<inter> members allowed = {}")
    case True
    then have "\<not> (\<exists>t. t \<in> ?F \<and> t \<in> members allowed)" by blast
    with True spec res show ?thesis unfolding F by auto
  next
    case False
    with spec obtain t where t: "t \<in> ?F" "t \<in> members allowed" "x = Some t" by auto
    have "ta_reachable (L', hs @ [(ws, rs, t)])"
      using ta_reachable_step [OF r ta_step.ta_lock [OF sel b res [unfolded t(3)]]] .
    with t res show ?thesis unfolding F by auto
  qed
qed

text \<open>Unlocking what was locked never panics, in any order, and an account has an entry in the
  table exactly when some holder has a lock on it: the table is empty again once all are released.\<close>

theorem ta_unlock_correct:
  assumes r: "ta_reachable (L, hs @ (ws, rs, t) # hs')"
  shows "\<exists>L'. ta_unlock_accounts ws rs t L = Some L' \<and> ta_reachable (L', hs @ hs') \<and>
     (\<forall>k. locks L' k \<noteq> None \<longleftrightarrow> (\<exists>(ws', rs', t') \<in> set (hs @ hs'). k \<in> set ws' \<union> set rs'))"
proof -
  have "ta_repr (tx_locks ws rs t + holders_held (hs @ hs')) L"
    using ta_reachable_repr [OF r] by (simp add: holders_held_def add.commute add.left_commute)
  from ta_unlock_accounts_repr [OF this] obtain L' where L': "ta_unlock_accounts ws rs t L = Some L'"
    and repr: "ta_repr (holders_held (hs @ hs')) L'" by blast
  have "locks L' k \<noteq> None \<longleftrightarrow> (\<exists>(ws', rs', t') \<in> set (hs @ hs'). k \<in> set ws' \<union> set rs')" for k
  proof -
    let ?h = "holders_held (hs @ hs')"
    have "entry_ok (num_threads L') (held_by ?h k True) (held_by ?h k False) (locks L' k)"
      using repr by (simp add: ta_repr_def)
    then have "locks L' k \<noteq> None \<longleftrightarrow> (\<exists>b t'. 0 < held_by ?h k b t')" by (rule entry_present_iff)
    also have "\<dots> \<longleftrightarrow> (\<exists>(ws', rs', t') \<in> set (hs @ hs'). k \<in> set ws' \<union> set rs')"
      unfolding held_by_def count_greater_zero_iff in_holders_held by (auto simp: ex_bool_eq) blast+
    finally show ?thesis .
  qed
  with L' ta_reachable_step [OF r ta_step.ta_unlock [OF L']] show ?thesis by blast
qed

text \<open>A run for the witnesses: two threads, key 1 written on thread 0 and key 2 read on thread 1.\<close>

definition lowest_thread :: "thread_set \<Rightarrow> nat" where
  "lowest_thread s = trailing_zeros s"

lemma lowest_thread_member: assumes "members s \<noteq> {}" shows "lowest_thread s \<in> members s"
proof -
  have "s \<noteq> 0" using assms members_empty_iff [of s] by simp
  then show ?thesis using trailing_zeros_least(1,2) [of s] by (simp add: lowest_thread_def members_def)
qed

lemma demo_thread_table: "\<exists>L. ta_reachable (L, [([1 :: nat], [2], 0)]) \<and> num_threads L = 2"
proof -
  let ?L = "\<lparr>num_threads = 2, locks = (\<lambda>_. None)\<rparr> :: nat thread_aware_account_locks"
  have new: "ta_new 2 = Some ?L" by (simp add: ta_new_def MAX_THREADS_def)
  have "members (ts_only 0) = {0}" by (simp add: thread_bits.mem_single MAX_THREADS_def)
  then have F: "free_threads {#} [1] [2] ?L \<inter> members (ts_only 0) = {0}"
    by (auto simp: free_threads_def thread_allowed_def)
  from ta_try_lock_spec [OF ta_new_repr [OF new] lowest_thread_member, of "[1]" "[2]" "ts_only 0"] F
  obtain L' where L': "ta_try_lock_accounts [1] [2] (ts_only 0) lowest_thread ?L = Some (Some 0, L')"
    "num_threads L' = 2" by auto
  have "ta_step (?L, []) (L', [] @ [([1], [2], 0)])"
    using ta_step.ta_lock [of lowest_thread "[]" "[1]" "[2]", OF lowest_thread_member _ L'(1)]
    by (simp add: holders_held_def)
  with ta_reachable_step [OF ta_reachable_init [OF new]] L'(2) show ?thesis by auto
qed

theorem threads_never_conflict_witness:
  "\<exists>L hs. ta_reachable (L, hs) \<and> hs = [([1 :: nat], [2], 0 :: nat)] \<and> (\<forall>(ws, rs, t) \<in> set hs. 1 \<in> set ws \<longrightarrow> t = 0)"
proof -
  obtain L where L: "ta_reachable (L, [([1 :: nat], [2], 0)])" using demo_thread_table by blast
  with threads_never_conflict [OF L, of "[1]" "[2]" 0 "[1]" "[2]" 0 1] show ?thesis by auto
qed

theorem ta_try_lock_correct_witness:
  "\<exists>L. ta_try_lock_accounts [2 :: nat] [] (ts_only 1) lowest_thread L = Some (None, L)"
proof -
  obtain L where L: "ta_reachable (L, [([1 :: nat], [2], 0)])" "num_threads L = 2" using demo_thread_table by blast
  have m: "members (ts_only 1) = {1}" by (simp add: thread_bits.mem_single MAX_THREADS_def)
  show ?thesis
    using ta_try_lock_correct [OF L(1) lowest_thread_member, of "[2]" "[]" "ts_only 1"] L(2) m
    by (auto simp: holders_held_def tx_locks_def)
qed

theorem ta_unlock_correct_witness:
  "\<exists>L L'. ta_reachable (L, [([1 :: nat], [2], 0)]) \<and> ta_unlock_accounts [1] [2] 0 L = Some L' \<and> locks L' 1 = None"
proof -
  obtain L where L: "ta_reachable (L, [([1 :: nat], [2], 0)])" using demo_thread_table by blast
  with ta_unlock_correct [of L "[]" "[1]" "[2]" 0 "[]"] show ?thesis by fastforce
qed

end
