(* ===== verification/Tx_Bytes.thy ===== *)
theory Tx_Bytes
  imports Rust_Prelude
begin

text \<open>
  Reading bytes of a serialized transaction (\<^verbatim>\<open>transaction-view/src/bytes.rs\<close> and
  \<^verbatim>\<open>result.rs\<close>). A reader takes the slice and the current offset and gives a result and the
  offset it leaves behind, also when it fails: this is the \<open>&mut usize\<close> of the source. Offsets
  are machine words, and the arithmetic on them wraps as it does in the code.

  A slice of the language never has \<open>2 ^ 63\<close> bytes or more; the laws below use that bound.
\<close>

unbundle bit_operations_syntax

section \<open>Readers\<close>

datatype transaction_view_error = ParseError | SanitizeError | AddressLookupMismatch

type_synonym 'a reader = "u8 list \<Rightarrow> usize \<Rightarrow> (transaction_view_error + 'a) \<times> usize"

definition preturn :: "'a \<Rightarrow> 'a reader" where
  "preturn x bytes offset = (Inr x, offset)"

definition pfail :: "transaction_view_error \<Rightarrow> 'a reader" where
  "pfail e bytes offset = (Inl e, offset)"

text \<open>\<open>*offset\<close>, read as a value.\<close>

definition poffset :: "usize reader" where
  "poffset bytes offset = (Inr offset, offset)"

text \<open>The question mark operator: an error returns early.\<close>

definition pbind :: "'a reader \<Rightarrow> ('a \<Rightarrow> 'b reader) \<Rightarrow> 'b reader" where
  "pbind p f bytes offset =
     (case p bytes offset of
        (Inl e, offset') \<Rightarrow> (Inl e, offset')
      | (Inr x, offset') \<Rightarrow> f x bytes offset')"

text \<open>A loop with a fixed number of rounds and a value that is carried along.\<close>

fun ploop :: "nat \<Rightarrow> ('a \<Rightarrow> 'a reader) \<Rightarrow> 'a \<Rightarrow> 'a reader" where
  "ploop 0 body acc = preturn acc"
| "ploop (Suc n) body acc = pbind (body acc) (ploop n body)"

section \<open>bytes.rs\<close>

definition slice_get :: "u8 list \<Rightarrow> usize \<Rightarrow> u8 option" where
  "slice_get bytes i = (if unat i < length bytes then Some (bytes ! unat i) else None)"

definition check_remaining :: "usize \<Rightarrow> unit reader" where
  "check_remaining num_bytes bytes offset =
     (if num_bytes > of_nat (length bytes) - offset then (Inl ParseError, offset) else (Inr (), offset))"

definition read_byte :: "u8 reader" where
  "read_byte bytes offset =
     (case slice_get bytes offset of
        Some value \<Rightarrow> (Inr value, offset + 1)
      | None \<Rightarrow> (Inl ParseError, offset + 1))"

text \<open>The rounds of the loop of \<open>read_compressed_u16\<close>; a shift distance is taken modulo 16.\<close>

fun read_compressed_loop :: "usize list \<Rightarrow> u16 \<Rightarrow> u16 \<Rightarrow> u16 reader" where
  "read_compressed_loop [] result shift bytes offset = (Inr result, offset + 3)"
| "read_compressed_loop (i # is) result shift bytes offset =
     (case slice_get bytes (offset + i) of
        None \<Rightarrow> (Inl ParseError, offset)
      | Some byte \<Rightarrow>
          if (i > 0 \<and> byte = 0) \<or> (i = 2 \<and> byte > 3) then (Inl ParseError, offset)
          else
            let result = result OR push_bit (unat shift mod 16) (ucast (byte AND 0x7F));
                shift = shift + 7
            in if byte AND 0x80 = 0 then (Inr result, offset + i + 1)
               else read_compressed_loop is result shift bytes offset)"

definition read_compressed_u16 :: "u16 reader" where
  "read_compressed_u16 = read_compressed_loop [0, 1, 2] 0 0"

definition optimized_read_compressed_u16 :: "u16 reader" where
  "optimized_read_compressed_u16 bytes offset =
     (case slice_get bytes offset of
        None \<Rightarrow> (Inl ParseError, offset)
      | Some byte1 \<Rightarrow>
          let result = ucast (byte1 AND 0x7F) in
          if byte1 AND 0x80 = 0 then (Inr result, offset + 1)
          else
            (case slice_get bytes (offset + 1) of
               None \<Rightarrow> (Inl ParseError, offset)
             | Some byte2 \<Rightarrow>
                 if byte2 = 0 \<or> byte2 AND 0x80 \<noteq> 0 then (Inl ParseError, offset)
                 else (Inr (result OR push_bit 7 (ucast (byte2 AND 0x7F))), offset + 2)))"

text \<open>The size of the element type is the first argument.\<close>

definition advance_offset_for_array :: "usize \<Rightarrow> u16 \<Rightarrow> unit reader" where
  "advance_offset_for_array size_of num_elements =
     (let array_len_bytes = ucast num_elements * size_of in
      pbind (check_remaining array_len_bytes) (\<lambda>_ bytes offset. (Inr (), offset + array_len_bytes)))"

definition advance_offset_for_type :: "usize \<Rightarrow> unit reader" where
  "advance_offset_for_type type_size =
     pbind (check_remaining type_size) (\<lambda>_ bytes offset. (Inr (), offset + type_size))"

text \<open>
  The memory of a slice of \<open>n\<close> elements, read from the offset on; \<open>cast\<close> is the element type's
  reading of its bytes.
\<close>

fun elements :: "(u8 list \<Rightarrow> 'a) \<Rightarrow> nat \<Rightarrow> nat \<Rightarrow> u8 list \<Rightarrow> 'a list" where
  "elements cast size_of 0 bs = []"
| "elements cast size_of (Suc n) bs = cast (take size_of bs) # elements cast size_of n (drop size_of bs)"

definition read_slice_data :: "(u8 list \<Rightarrow> 'a) \<Rightarrow> usize \<Rightarrow> u16 \<Rightarrow> 'a list reader" where
  "read_slice_data cast size_of num_elements =
     pbind poffset (\<lambda>current.
     pbind (advance_offset_for_array size_of num_elements) (\<lambda>_ bytes offset.
       (Inr (elements cast (unat size_of) (unat num_elements) (drop (unat current) bytes)), offset)))"

definition read_type :: "(u8 list \<Rightarrow> 'a) \<Rightarrow> usize \<Rightarrow> 'a reader" where
  "read_type cast type_size =
     pbind poffset (\<lambda>current.
     pbind (advance_offset_for_type type_size) (\<lambda>_ bytes offset.
       (Inr (cast (take (unat type_size) (drop (unat current) bytes))), offset)))"

section \<open>Segments of a slice\<close>

definition bytes_at :: "u8 list \<Rightarrow> nat \<Rightarrow> u8 list \<Rightarrow> bool" where
  "bytes_at bytes i w \<longleftrightarrow> i + length w \<le> length bytes \<and> take (length w) (drop i bytes) = w"

lemma bytes_at_Nil [simp]: "bytes_at bytes i [] \<longleftrightarrow> i \<le> length bytes"
  by (simp add: bytes_at_def)

lemma bytes_at_single [simp]: "bytes_at bytes i [b] \<longleftrightarrow> i < length bytes \<and> bytes ! i = b"
  by (auto simp: bytes_at_def take_Suc_conv_app_nth hd_drop_conv_nth take_Suc)

lemma bytes_at_Cons:
  "bytes_at bytes i (b # w) \<longleftrightarrow> i < length bytes \<and> bytes ! i = b \<and> bytes_at bytes (Suc i) w"
proof (cases "i < length bytes")
  case True
  then show ?thesis by (auto simp: bytes_at_def Cons_nth_drop_Suc [symmetric])
qed (auto simp: bytes_at_def)

lemma bytes_at_append:
  "bytes_at bytes i (v @ w) \<longleftrightarrow> bytes_at bytes i v \<and> bytes_at bytes (i + length v) w"
  by (auto simp: bytes_at_def take_add add.commute)

lemma bytes_at_bound: "bytes_at bytes i w \<Longrightarrow> i + length w \<le> length bytes"
  by (simp add: bytes_at_def)

lemma bytes_at_ex: "(\<exists>w. length w = n \<and> bytes_at bytes i w) \<longleftrightarrow> i + n \<le> length bytes"
  by (auto simp: bytes_at_def intro!: exI [of _ "take n (drop i bytes)"])

lemma bytes_at_unique: "bytes_at bytes i v \<Longrightarrow> bytes_at bytes i w \<Longrightarrow> length v = length w \<Longrightarrow> v = w"
  by (simp add: bytes_at_def)

lemma bytes_at_all: "bytes_at bytes 0 w \<and> length w = length bytes \<longleftrightarrow> w = bytes"
  by (auto simp: bytes_at_def)

section \<open>Readers of a format\<close>

text \<open>
  \<open>E bytes i x w\<close>: at index \<open>i\<close> of the slice, the bytes \<open>w\<close> are an encoding of \<open>x\<close>. A reader
  of the format succeeds exactly when such an encoding starts at its offset, and then stops
  right behind it.
\<close>

type_synonym 'a format = "u8 list \<Rightarrow> nat \<Rightarrow> 'a \<Rightarrow> u8 list \<Rightarrow> bool"

abbreviation slice_ok :: "u8 list \<Rightarrow> bool" where
  "slice_ok bytes \<equiv> length bytes < 2 ^ 63"

locale format_reader =
  fixes p :: "'a reader" and E :: "'a format"
  assumes reads: "slice_ok bytes \<Longrightarrow> i \<le> length bytes \<Longrightarrow>
    p bytes (of_nat i) = (Inr x, off) \<longleftrightarrow>
      (\<exists>w. E bytes i x w \<and> bytes_at bytes i w \<and> off = of_nat (i + length w))"
begin

text \<open>A successful reader never goes backwards and never leaves the slice.\<close>

lemma reads_within:
  assumes "slice_ok bytes" and "i \<le> length bytes" and "p bytes (of_nat i) = (Inr x, off)"
  shows "i \<le> unat off" and "unat off \<le> length bytes"
proof -
  obtain w where "bytes_at bytes i w" and off: "off = of_nat (i + length w)" using assms reads by blast
  then have "i + length w \<le> length bytes" by (simp add: bytes_at_def)
  moreover from this have "unat off = i + length w"
    unfolding off by (intro unat_of_nat_small) (use assms(1) in simp)
  ultimately show "i \<le> unat off" "unat off \<le> length bytes" by simp_all
qed

lemma reads_encoding:
  "slice_ok bytes \<Longrightarrow> bytes_at bytes i w \<Longrightarrow> E bytes i x w \<Longrightarrow> p bytes (of_nat i) = (Inr x, of_nat (i + length w))"
  using reads [of bytes i x "of_nat (i + length w)"] bytes_at_bound [of bytes i w] by auto

end

lemma unat_of_nat_index: "slice_ok bytes \<Longrightarrow> i \<le> length bytes \<Longrightarrow> unat (of_nat i :: usize) = i"
  by (intro unat_of_nat_small) simp

lemma slice_get_of_nat:
  "slice_ok bytes \<Longrightarrow> i \<le> length bytes \<Longrightarrow>
     slice_get bytes (of_nat i) = (if i < length bytes then Some (bytes ! i) else None)"
  by (simp add: slice_get_def unat_of_nat_index)

lemma check_remaining_iff:
  assumes "slice_ok bytes" and "i \<le> length bytes"
  shows "check_remaining n bytes (of_nat i) =
    (if i + unat n \<le> length bytes then Inr () else Inl ParseError, of_nat i)"
proof -
  have "of_nat (length bytes) - of_nat i = (of_nat (length bytes - i) :: usize)" using assms(2) by (simp add: of_nat_diff)
  moreover have "unat (of_nat (length bytes - i) :: usize) = length bytes - i"
    using assms by (intro unat_of_nat_index [of bytes]) auto
  ultimately show ?thesis using assms(2) by (auto simp: check_remaining_def word_less_nat_alt)
qed

lemma format_return: "format_reader (preturn x) (\<lambda>bytes i y w. y = x \<and> w = [])"
  by unfold_locales (auto simp: preturn_def)

lemma format_fail: "format_reader (pfail e) (\<lambda>bytes i y w. False)"
  by unfold_locales (auto simp: pfail_def)

lemma format_offset: "format_reader poffset (\<lambda>bytes i y w. y = of_nat i \<and> w = [])"
  by unfold_locales (auto simp: poffset_def)

lemma format_byte: "format_reader read_byte (\<lambda>bytes i b w. w = [b])"
  by unfold_locales (auto simp: read_byte_def slice_get_of_nat add.commute split: if_splits)

lemma format_check: "format_reader (check_remaining n) (\<lambda>bytes i y w. w = [] \<and> i + unat n \<le> length bytes)"
  by unfold_locales (auto simp: check_remaining_iff)

lemma format_bind:
  assumes p: "format_reader p E" and f: "\<And>x. format_reader (f x) (F x)"
  shows "format_reader (pbind p f)
    (\<lambda>bytes i y w. \<exists>x v u. w = v @ u \<and> E bytes i x v \<and> F x bytes (i + length v) y u)"
proof
  fix bytes i y off assume b: "slice_ok bytes" and i: "i \<le> length bytes"
  show "pbind p f bytes (of_nat i) = (Inr y, off) \<longleftrightarrow>
    (\<exists>w. (\<exists>x v u. w = v @ u \<and> E bytes i x v \<and> F x bytes (i + length v) y u) \<and>
      bytes_at bytes i w \<and> off = of_nat (i + length w))" (is "?l \<longleftrightarrow> ?r")
  proof
    assume ?l
    then obtain x off1 where 1: "p bytes (of_nat i) = (Inr x, off1)" "f x bytes off1 = (Inr y, off)"
      by (auto simp: pbind_def split: prod.splits sum.splits)
    from format_reader.reads [OF p b i] 1(1) obtain v where v: "E bytes i x v" "bytes_at bytes i v"
      "off1 = of_nat (i + length v)" by blast
    from format_reader.reads [OF f b bytes_at_bound [OF v(2)]] 1(2) v(3) obtain u
      where "F x bytes (i + length v) y u" "bytes_at bytes (i + length v) u" "off = of_nat (i + length v + length u)"
      by blast
    with v show ?r by (intro exI [of _ "v @ u"]) (auto simp: bytes_at_append add.assoc)
  next
    assume ?r
    then obtain x v u where u: "E bytes i x v" "F x bytes (i + length v) y u" "bytes_at bytes i v"
      "bytes_at bytes (i + length v) u" "off = of_nat (i + length v + length u)"
      by (auto simp: bytes_at_append add.assoc)
    from format_reader.reads_encoding [OF p b u(3,1)] format_reader.reads_encoding [OF f b u(4,2)] u(5)
    show ?l by (simp add: pbind_def)
  qed
qed

lemma format_cong:
  "format_reader p E \<Longrightarrow> (\<And>bytes i x w. slice_ok bytes \<Longrightarrow> bytes_at bytes i w \<Longrightarrow> E bytes i x w \<longleftrightarrow> E' bytes i x w)
     \<Longrightarrow> format_reader p E'"
  unfolding format_reader_def by metis

section \<open>Arrays and values of a fixed size\<close>

lemma unat_array_len: "unat n * unat size_of < 2 ^ 63 \<Longrightarrow> unat (ucast (n :: u16) * size_of :: usize) = unat n * unat size_of"
  using unat_less_pow [of n] by (simp add: unat_word_ariths unat_ucast_small)

lemma advance_array_iff:
  assumes b: "slice_ok bytes" and i: "i \<le> length bytes" and sz: "unat n * unat size_of < 2 ^ 63"
  shows "advance_offset_for_array size_of n bytes (of_nat i) =
    (if i + unat n * unat size_of \<le> length bytes then (Inr (), of_nat (i + unat n * unat size_of))
     else (Inl ParseError, of_nat i))"
proof -
  have "(ucast n * size_of :: usize) = of_nat (unat n * unat size_of)"
    using unat_array_len [OF sz] by (metis of_nat_unat_id)
  then show ?thesis using check_remaining_iff [OF b i, of "ucast n * size_of"] unat_array_len [OF sz]
    by (simp add: advance_offset_for_array_def pbind_def Let_def)
qed

lemma format_array:
  assumes sz: "unat n * unat size_of < 2 ^ 63"
  shows "format_reader (advance_offset_for_array size_of n) (\<lambda>bytes i y w. length w = unat n * unat size_of)"
proof
  fix bytes i and y :: unit and off assume b: "slice_ok bytes" "i \<le> length bytes"
  show "advance_offset_for_array size_of n bytes (of_nat i) = (Inr y, off) \<longleftrightarrow>
    (\<exists>w. length w = unat n * unat size_of \<and> bytes_at bytes i w \<and> off = of_nat (i + length w))"
    using advance_array_iff [OF b sz] bytes_at_ex [of "unat n * unat size_of" bytes i] by auto
qed

lemma advance_type_array: "advance_offset_for_type size_of = advance_offset_for_array size_of 1"
  by (simp add: advance_offset_for_type_def advance_offset_for_array_def Let_def)

lemma format_type:
  "unat size_of < 2 ^ 63 \<Longrightarrow> format_reader (advance_offset_for_type size_of) (\<lambda>bytes i y w. length w = unat size_of)"
  using format_array [of 1 size_of] by (simp add: advance_type_array)

lemma elements_take:
  "n * size_of \<le> length bs \<Longrightarrow> elements cast size_of n (take (n * size_of) bs) = elements cast size_of n bs"
proof (induction n arbitrary: bs)
  case (Suc n)
  have "take size_of (take (Suc n * size_of) bs) = take size_of bs" by simp
  moreover have "drop size_of (take (Suc n * size_of) bs) = take (n * size_of) (drop size_of bs)"
    by (simp add: drop_take)
  ultimately show ?case using Suc.IH [of "drop size_of bs"] Suc.prems by simp
qed simp

lemma format_slice:
  assumes sz: "unat n * unat size_of < 2 ^ 63"
  shows "format_reader (read_slice_data cast size_of n)
    (\<lambda>bytes i xs w. length w = unat n * unat size_of \<and> xs = elements cast (unat size_of) (unat n) w)"
proof
  fix bytes i xs off assume b: "slice_ok bytes" and i: "i \<le> length bytes"
  let ?m = "unat n * unat size_of"
  have el: "elements cast (unat size_of) (unat n) w = elements cast (unat size_of) (unat n) (drop i bytes)"
    if "length w = ?m" "bytes_at bytes i w" for w
  proof -
    have "w = take ?m (drop i bytes)" "?m \<le> length (drop i bytes)" using that by (auto simp: bytes_at_def)
    then show ?thesis using elements_take [of "unat n" "unat size_of" "drop i bytes" cast] by simp
  qed
  show "read_slice_data cast size_of n bytes (of_nat i) = (Inr xs, off) \<longleftrightarrow>
    (\<exists>w. (length w = ?m \<and> xs = elements cast (unat size_of) (unat n) w) \<and> bytes_at bytes i w \<and> off = of_nat (i + length w))"
    using advance_array_iff [OF b i sz] bytes_at_ex [of ?m bytes i] el unat_of_nat_index [OF b i]
    by (auto simp: read_slice_data_def pbind_def poffset_def split: if_splits)
qed

lemma read_type_slice: "read_type cast size_of bytes off =
    (case read_slice_data cast size_of 1 bytes off of (Inr xs, off') \<Rightarrow> (Inr (hd xs), off') | (Inl e, off') \<Rightarrow> (Inl e, off'))"
  by (simp add: read_type_def read_slice_data_def pbind_def poffset_def advance_type_array split: sum.splits prod.splits)

lemma format_value:
  assumes "unat size_of < 2 ^ 63"
  shows "format_reader (read_type cast size_of) (\<lambda>bytes i x w. length w = unat size_of \<and> x = cast w)"
proof -
  have "format_reader (read_slice_data cast size_of 1) (\<lambda>bytes i xs w. length w = unat size_of \<and> xs = [cast w])"
    using assms by (intro format_cong [OF format_slice]) auto
  note reads = format_reader.reads [OF this]
  show ?thesis
  proof
    fix bytes i x off assume b: "slice_ok bytes" "i \<le> length bytes"
    have "read_type cast size_of bytes (of_nat i) = (Inr x, off) \<longleftrightarrow>
        (\<exists>xs. read_slice_data cast size_of 1 bytes (of_nat i) = (Inr xs, off) \<and> x = hd xs)"
      by (auto simp: read_type_slice split: prod.splits sum.splits)
    also have "\<dots> \<longleftrightarrow> (\<exists>w. (length w = unat size_of \<and> x = cast w) \<and> bytes_at bytes i w \<and> off = of_nat (i + length w))"
      unfolding reads [OF b] by auto
    finally show "read_type cast size_of bytes (of_nat i) = (Inr x, off) \<longleftrightarrow>
      (\<exists>w. (length w = unat size_of \<and> x = cast w) \<and> bytes_at bytes i w \<and> off = of_nat (i + length w))" .
  qed
qed

lemma elements_concat:
  assumes "\<forall>x \<in> set xs. length (enc x) = size_of \<and> cast (enc x) = x"
  shows "elements cast size_of (length xs) (concat (map enc xs)) = xs"
  using assms by (induction xs) auto

section \<open>Compressed u16\<close>

text \<open>The reference encoding: seven bits per byte, lowest first, the top bit set on all but the last.\<close>

definition encode_u16 :: "nat \<Rightarrow> u8 list" where
  "encode_u16 n =
     (if n < 0x80 then [of_nat n]
      else if n < 0x4000 then [of_nat (n mod 128 + 128), of_nat (n div 128)]
      else [of_nat (n mod 128 + 128), of_nat (n div 128 mod 128 + 128), of_nat (n div 16384)])"

lemma low_bits: "unat (b AND 0x7F :: u8) = unat b mod 128"
proof -
  have "b AND 0x7F = take_bit 7 b" by (simp add: take_bit_eq_mask mask_eq_exp_minus_1)
  then have "unat (b AND 0x7F) = take_bit 7 (unat b)" by (simp only: unsigned_take_bit_eq)
  then show ?thesis by (simp add: take_bit_eq_mod)
qed

lemma bit_unat: "bit (w :: 'a::len word) n \<longleftrightarrow> odd (unat w div 2 ^ n)"
proof -
  have "bit w n \<longleftrightarrow> bit (unat w) n" by (simp add: bit_unsigned_iff)
  then show ?thesis by (simp add: bit_iff_odd)
qed

lemma high_bit: "b AND 0x80 = 0 \<longleftrightarrow> unat (b :: u8) < 128"
proof -
  have "b AND 2 ^ 7 = 0 \<longleftrightarrow> \<not> bit b 7" by (simp only: and_exp_eq_0_iff_not_bit)
  also have "\<dots> \<longleftrightarrow> even (unat b div 128)" by (simp add: bit_unat)
  also have "\<dots> \<longleftrightarrow> unat b < 128"
  proof -
    have "unat b div 128 \<in> {0, 1}" using unat_less_pow [of b] by auto
    then show ?thesis by (auto simp: div_eq_0_iff)
  qed
  finally show ?thesis by simp
qed

lemma unat_or_push:
  assumes a: "unat a < 2 ^ k" and c: "2 ^ k * unat c < 2 ^ 16" and k: "k < 16"
  shows "unat (a OR push_bit k c :: u16) = unat a + 2 ^ k * unat c"
proof -
  have "\<not> bit a j" if "k \<le> j" for j
  proof -
    have "unat a < 2 ^ j" using less_le_trans [OF a power_increasing [OF that, of 2]] by simp
    then show ?thesis by (simp add: bit_unat)
  qed
  then have "a AND push_bit k c = 0"
    by (intro bit_word_eqI) (auto simp: bit_and_iff bit_push_bit_iff)
  then have "a OR push_bit k c = a + push_bit k c" by (simp add: disjunctive_add_eq_or)
  moreover have "unat (push_bit k c) = take_bit LENGTH(16) (push_bit k (unat c))"
    by (simp only: unsigned_push_bit_eq)
  then have "unat (push_bit k c) = 2 ^ k * unat c"
    using c by (simp add: take_bit_eq_mod push_bit_eq_mult mult.commute)
  moreover have "unat a + 2 ^ k * unat c < 2 ^ 16"
  proof -
    have e: "(2 :: nat) ^ 16 = 2 ^ k * 2 ^ (16 - k)" using k by (simp flip: power_add)
    with c have "2 ^ k * unat c < 2 ^ k * 2 ^ (16 - k)" by (simp only: e)
    then have "unat c + 1 \<le> 2 ^ (16 - k)" by simp
    then have "2 ^ k * (unat c + 1) \<le> 2 ^ 16" unfolding e by (rule mult_le_mono2)
    then show ?thesis using a by simp
  qed
  ultimately show ?thesis by (simp add: unat_word_ariths)
qed

lemma encode_u16_length: "length (encode_u16 n) = (if n < 0x80 then 1 else if n < 0x4000 then 2 else 3)"
  by (simp add: encode_u16_def)

lemma unat_u8_cast: "unat (ucast (b :: u8) :: u16) = unat b"
  using unat_less_pow [of b] by (intro unat_ucast_small) simp

lemma compressed_two:
  "unat (ucast (b AND 0x7F) OR push_bit 7 (ucast (c AND 0x7F)) :: u16) = unat (b :: u8) mod 128 + 128 * (unat (c :: u8) mod 128)"
  using unat_or_push [of "ucast (b AND 0x7F)" 7 "ucast (c AND 0x7F)"] by (simp add: unat_u8_cast low_bits)

lemma compressed_three:
  assumes "unat (d :: u8) < 4"
  shows "unat (ucast (b AND 0x7F) OR push_bit 7 (ucast (c AND 0x7F)) OR push_bit 14 (ucast (d AND 0x7F)) :: u16) =
    unat (b :: u8) mod 128 + 128 * (unat (c :: u8) mod 128) + 16384 * unat d"
proof -
  have "unat b mod 128 + 128 * (unat c mod 128) < 16384"
    using mod_less_divisor [of 128 "unat b"] mod_less_divisor [of 128 "unat c"] by linarith
  then show ?thesis
    using unat_or_push [of "ucast (b AND 0x7F) OR push_bit 7 (ucast (c AND 0x7F))" 14 "ucast (d AND 0x7F)"] assms
    by (simp add: unat_u8_cast low_bits compressed_two or.assoc)
qed

text \<open>The encoding by the number of its bytes.\<close>

definition compressed1 :: "nat \<Rightarrow> u8 list \<Rightarrow> bool" where
  "compressed1 n w \<longleftrightarrow> (\<exists>b. w = [b] \<and> unat b < 128 \<and> n = unat b)"

definition compressed2 :: "nat \<Rightarrow> u8 list \<Rightarrow> bool" where
  "compressed2 n w \<longleftrightarrow> (\<exists>b c. w = [b, c] \<and> 128 \<le> unat b \<and> 0 < unat c \<and> unat c < 128 \<and>
     n = unat b mod 128 + 128 * unat c)"

definition compressed3 :: "nat \<Rightarrow> u8 list \<Rightarrow> bool" where
  "compressed3 n w \<longleftrightarrow> (\<exists>b c d. w = [b, c, d] \<and> 128 \<le> unat b \<and> 128 \<le> unat c \<and> 0 < unat d \<and> unat d < 4 \<and>
     n = unat b mod 128 + 128 * (unat c mod 128) + 16384 * unat d)"

lemma u8_of_nat: "n < 256 \<Longrightarrow> unat (of_nat n :: u8) = n"
  by (intro unat_of_nat_small) simp

lemma u8_eq_of_nat: "n < 256 \<Longrightarrow> (b :: u8) = of_nat n \<longleftrightarrow> unat b = n"
  by (auto simp: word_unat_eq_iff u8_of_nat)

lemma compressed1_iff: "compressed1 n w \<longleftrightarrow> n < 0x80 \<and> w = encode_u16 n"
  by (auto simp: compressed1_def encode_u16_def u8_of_nat)

lemma high_part: "128 \<le> unat (b :: u8) \<Longrightarrow> unat b mod 128 = m \<longleftrightarrow> unat b = m + 128 \<and> m < 128"
  using unat_less_pow [of b] by (auto simp: mod_if)

lemma compressed2_iff: "compressed2 n w \<longleftrightarrow> 0x80 \<le> n \<and> n < 0x4000 \<and> w = encode_u16 n"
proof
  assume "compressed2 n w"
  then obtain b c where w: "w = [b, c]" "128 \<le> unat b" "0 < unat c" "unat c < 128"
      "n = unat b mod 128 + 128 * unat c" unfolding compressed2_def by blast
  have "unat b mod 128 < 128" by simp
  then have n: "n mod 128 = unat b mod 128" "n div 128 = unat c" "0x80 \<le> n" "n < 0x4000" unfolding w(5) using w by auto
  have "unat b = n mod 128 + 128" using high_part [OF w(2), of "n mod 128"] n(1) by simp
  then show "0x80 \<le> n \<and> n < 0x4000 \<and> w = encode_u16 n" using n w(1) by (simp add: encode_u16_def u8_eq_of_nat)
next
  assume n: "0x80 \<le> n \<and> n < 0x4000 \<and> w = encode_u16 n"
  then have "n div 128 < 128" "0 < n div 128" by (auto simp: div_less_iff_less_mult div_greater_zero_iff)
  with n show "compressed2 n w" unfolding compressed2_def
    by - (rule exI [of _ "of_nat (n mod 128 + 128)"], rule exI [of _ "of_nat (n div 128)"],
        simp add: encode_u16_def u8_of_nat del: of_nat_add)
qed

lemma compressed3_iff: "compressed3 n w \<longleftrightarrow> 0x4000 \<le> n \<and> n < 0x10000 \<and> w = encode_u16 n"
proof
  assume "compressed3 n w"
  then obtain b c d where w: "w = [b, c, d]" "128 \<le> unat b" "128 \<le> unat c" "0 < unat d" "unat d < 4"
      "n = unat b mod 128 + 128 * (unat c mod 128) + 16384 * unat d" unfolding compressed3_def by blast
  have bc: "unat b mod 128 < 128" "unat c mod 128 < 128" by simp_all
  have m: "n = unat b mod 128 + 128 * (unat c mod 128 + 128 * unat d)" using w(6) by simp
  have n: "n mod 128 = unat b mod 128" "n div 128 = unat c mod 128 + 128 * unat d"
    unfolding m using bc(1) by (simp_all only: mod_mult_self2 div_mult_self2 mod_mod_trivial mod_less div_less)
  then have n3: "n div 128 mod 128 = unat c mod 128" "n div 16384 = unat d"
    using bc div_mult2_eq [of n 128 128] by auto
  have "unat b = n mod 128 + 128" "unat c = n div 128 mod 128 + 128"
    using high_part [OF w(2), of "n mod 128"] high_part [OF w(3), of "n div 128 mod 128"] n(1) n3(1) by simp_all
  moreover have "0x4000 \<le> n" "n < 0x10000" using w(4-6) bc by linarith+
  ultimately show "0x4000 \<le> n \<and> n < 0x10000 \<and> w = encode_u16 n" using n3(2) w(1)
    by (simp add: encode_u16_def u8_eq_of_nat del: of_nat_add)
next
  assume n: "0x4000 \<le> n \<and> n < 0x10000 \<and> w = encode_u16 n"
  then have d: "n div 16384 < 4" "0 < n div 16384" by (auto simp: div_less_iff_less_mult div_greater_zero_iff)
  have "n div 16384 = n div 128 div 128" using div_mult2_eq [of n 128 128] by simp
  then have "n = n mod 128 + 128 * (n div 128 mod 128) + 16384 * (n div 16384)"
    using mult_div_mod_eq [of 128 n] mult_div_mod_eq [of 128 "n div 128"] by linarith
  with n d show "compressed3 n w" unfolding compressed3_def
    by - (rule exI [of _ "of_nat (n mod 128 + 128)"], rule exI [of _ "of_nat (n div 128 mod 128 + 128)"],
        rule exI [of _ "of_nat (n div 16384)"], simp add: encode_u16_def u8_of_nat del: of_nat_add)
qed

lemma encode_u16_cases:
  "n < 0x10000 \<Longrightarrow> w = encode_u16 n \<longleftrightarrow> compressed1 n w \<or> compressed2 n w \<or> compressed3 n w"
  unfolding compressed1_iff compressed2_iff compressed3_iff by auto

lemma slice_get_plus:
  "slice_ok bytes \<Longrightarrow> i \<le> length bytes \<Longrightarrow> unat k < 2 ^ 8 \<Longrightarrow>
     slice_get bytes (of_nat i + k) = (if i + unat k < length bytes then Some (bytes ! (i + unat k)) else None)"
  by (simp add: slice_get_def unat_word_ariths unat_of_nat_index)

lemma read_compressed_cases:
  assumes "slice_ok bytes" and "i \<le> length bytes"
  shows "read_compressed_u16 bytes (of_nat i) =
    (let b = bytes ! i; c = bytes ! (i + 1); d = bytes ! (i + 2); r = ucast (b AND 0x7F);
         r2 = r OR push_bit 7 (ucast (c AND 0x7F)); r3 = r2 OR push_bit 14 (ucast (d AND 0x7F))
     in if length bytes \<le> i then (Inl ParseError, of_nat i)
        else if unat b < 128 then (Inr r, of_nat (i + 1))
        else if length bytes \<le> i + 1 \<or> unat c = 0 then (Inl ParseError, of_nat i)
        else if unat c < 128 then (Inr r2, of_nat (i + 2))
        else if length bytes \<le> i + 2 \<or> unat d = 0 \<or> 3 < unat d then (Inl ParseError, of_nat i)
        else (Inr r3, of_nat (i + 3)))"
  using slice_get_plus [OF assms, of 0] slice_get_plus [OF assms, of 1] slice_get_plus [OF assms, of 2]
  by (auto simp: read_compressed_u16_def Let_def high_bit word_less_nat_alt unat_eq_0 or.assoc)

lemma optimized_cases:
  assumes "slice_ok bytes" and "i \<le> length bytes"
  shows "optimized_read_compressed_u16 bytes (of_nat i) =
    (let b = bytes ! i; c = bytes ! (i + 1); r = ucast (b AND 0x7F); r2 = r OR push_bit 7 (ucast (c AND 0x7F))
     in if length bytes \<le> i then (Inl ParseError, of_nat i)
        else if unat b < 128 then (Inr r, of_nat (i + 1))
        else if length bytes \<le> i + 1 \<or> unat c = 0 \<or> 128 \<le> unat c then (Inl ParseError, of_nat i)
        else (Inr r2, of_nat (i + 2)))"
  using slice_get_plus [OF assms, of 0] slice_get_plus [OF assms, of 1]
  by (auto simp: optimized_read_compressed_u16_def Let_def high_bit unat_eq_0)

lemma read_compressed_iff:
  assumes "slice_ok bytes" and "i \<le> length bytes"
  shows "read_compressed_u16 bytes (of_nat i) = (Inr x, off) \<longleftrightarrow>
    (\<exists>w. (compressed1 (unat x) w \<or> compressed2 (unat x) w \<or> compressed3 (unat x) w) \<and>
      bytes_at bytes i w \<and> off = of_nat (i + length w))" (is "?l \<longleftrightarrow> ?r")
proof
  let ?b = "bytes ! i" and ?c = "bytes ! (i + 1)" and ?d = "bytes ! (i + 2)"
  note cases = read_compressed_cases [OF assms, unfolded Let_def]
  assume l: ?l
  then consider "i < length bytes" "unat ?b < 128" | "i + 1 < length bytes" "128 \<le> unat ?b" "0 < unat ?c" "unat ?c < 128"
    | "i + 2 < length bytes" "128 \<le> unat ?b" "128 \<le> unat ?c" "0 < unat ?d" "unat ?d \<le> 3"
    unfolding cases by (auto split: if_splits)
  then show ?r
  proof cases
    case 1
    with l show ?thesis unfolding cases
      by (intro exI [of _ "[?b]"]) (auto simp: compressed1_def unat_u8_cast low_bits)
  next
    case 2
    with l show ?thesis unfolding cases
      by (intro exI [of _ "[?b, ?c]"]) (auto simp: bytes_at_Cons compressed2_def compressed_two)
  next
    case 3
    with l show ?thesis unfolding cases
      by (intro exI [of _ "[?b, ?c, ?d]"]) (auto simp: bytes_at_Cons compressed3_def compressed_three or.assoc)
  qed
next
  assume ?r
  then obtain w where w: "bytes_at bytes i w" "off = of_nat (i + length w)"
    and "compressed1 (unat x) w \<or> compressed2 (unat x) w \<or> compressed3 (unat x) w" by blast
  then consider "compressed1 (unat x) w" | "compressed2 (unat x) w" | "compressed3 (unat x) w" by blast
  then show ?l
  proof cases
    case 1
    then obtain b where "w = [b]" "unat b < 128" "unat x = unat b" unfolding compressed1_def by blast
    with w show ?thesis unfolding read_compressed_cases [OF assms] Let_def
      by (simp add: bytes_at_Cons word_unat_eq_iff unat_u8_cast low_bits)
  next
    case 2
    then obtain b c where "w = [b, c]" "128 \<le> unat b" "0 < unat c" "unat c < 128"
      "unat x = unat b mod 128 + 128 * unat c" unfolding compressed2_def by blast
    with w show ?thesis unfolding read_compressed_cases [OF assms] Let_def
      by (simp add: bytes_at_Cons word_unat_eq_iff compressed_two)
  next
    case 3
    then obtain b c d where "w = [b, c, d]" "128 \<le> unat b" "128 \<le> unat c" "0 < unat d" "unat d < 4"
      "unat x = unat b mod 128 + 128 * (unat c mod 128) + 16384 * unat d" unfolding compressed3_def by blast
    with w show ?thesis unfolding read_compressed_cases [OF assms] Let_def
      by (simp add: bytes_at_Cons word_unat_eq_iff [of _ x] compressed_three or.assoc)
  qed
qed

interpretation compressed: format_reader read_compressed_u16 "\<lambda>bytes i x w. w = encode_u16 (unat x)"
proof
  fix bytes i x off assume "slice_ok bytes" "i \<le> length bytes"
  then show "read_compressed_u16 bytes (of_nat i) = (Inr x, off) \<longleftrightarrow>
      (\<exists>w. w = encode_u16 (unat x) \<and> bytes_at bytes i w \<and> off = of_nat (i + length w))"
    using unat_less_pow [of x] by (simp add: read_compressed_iff encode_u16_cases)
qed

text \<open>The optimized reader is the full one, cut off at two bytes.\<close>

lemma optimized_agrees:
  assumes "slice_ok bytes" and "i \<le> length bytes"
  shows "optimized_read_compressed_u16 bytes (of_nat i) =
    (case read_compressed_u16 bytes (of_nat i) of
       (Inr x, off) \<Rightarrow> if unat x < 2 ^ 14 then (Inr x, off) else (Inl ParseError, of_nat i)
     | (Inl e, off) \<Rightarrow> (Inl e, off))"
proof -
  have "unat (ucast (b AND 0x7F :: u8) :: u16) < 2 ^ 14" for b using mod_less_divisor [of 128 "unat b"]
    by (simp add: unat_u8_cast low_bits)
  moreover have "unat (ucast (b AND 0x7F) OR push_bit 7 (ucast (c AND 0x7F)) :: u16) < 2 ^ 14" for b c :: u8
    using mod_less_divisor [of 128 "unat b"] mod_less_divisor [of 128 "unat c"] unfolding compressed_two by simp
  moreover have "\<not> unat (ucast (b AND 0x7F) OR push_bit 7 (ucast (c AND 0x7F)) OR push_bit 14 (ucast (d AND 0x7F)) :: u16) < 2 ^ 14"
    if "unat d \<noteq> 0" "unat d \<le> 3" for b c d :: u8
    using that by (subst compressed_three) auto
  ultimately show ?thesis
    unfolding optimized_cases [OF assms] read_compressed_cases [OF assms] Let_def by (auto simp: or.assoc)
qed

interpretation optimized: format_reader optimized_read_compressed_u16
  "\<lambda>bytes i x w. w = encode_u16 (unat x) \<and> unat x < 2 ^ 14"
proof
  fix bytes i x off assume b: "slice_ok bytes" "i \<le> length bytes"
  have "optimized_read_compressed_u16 bytes (of_nat i) = (Inr x, off) \<longleftrightarrow>
      read_compressed_u16 bytes (of_nat i) = (Inr x, off) \<and> unat x < 2 ^ 14"
    unfolding optimized_agrees [OF b] by (auto split: prod.splits sum.splits if_splits)
  then show "optimized_read_compressed_u16 bytes (of_nat i) = (Inr x, off) \<longleftrightarrow>
      (\<exists>w. (w = encode_u16 (unat x) \<and> unat x < 2 ^ 14) \<and> bytes_at bytes i w \<and> off = of_nat (i + length w))"
    using compressed.reads [OF b] by auto
qed

section \<open>Properties\<close>

text \<open>C39. The compressed integers of the wire format are read back exactly: at an offset inside the
  slice, \<open>read_compressed_u16\<close> gives the value \<open>x\<close> and the new offset if and only if the canonical
  encoding of \<open>x\<close> stands there, and the new offset is the first index behind it. So every value is
  read from its own encoding, and no byte sequence other than that encoding is accepted for it.\<close>

theorem read_compressed_u16_roundtrip:
  assumes "length bytes < 2 ^ 63" and "i \<le> length bytes"
  shows "read_compressed_u16 bytes (of_nat i) = (Inr x, off) \<longleftrightarrow>
    (let w = encode_u16 (unat x) in bytes_at bytes i w \<and> off = of_nat (i + length w))"
  using compressed.reads [OF assms] by (simp add: Let_def)

theorem read_compressed_u16_roundtrip_witness:
  "read_compressed_u16 [7, 0x80, 0x80, 1] 1 = (Inr 0x4000, 4)"
  using read_compressed_u16_roundtrip [of "[7, 0x80, 0x80, 1]" 1 "0x4000" 4]
  by (simp add: encode_u16_def bytes_at_def)

text \<open>The optimized reader of lengths is the full reader, restricted to values below
  \<open>2 ^ 14\<close>: it returns what \<open>read_compressed_u16\<close> returns, the same offset included, except that
  a larger value is a parse error that leaves the offset unchanged.\<close>

theorem optimized_read_compressed_u16_equiv:
  assumes "length bytes < 2 ^ 63" and "i \<le> length bytes"
  shows "optimized_read_compressed_u16 bytes (of_nat i) =
    (case read_compressed_u16 bytes (of_nat i) of
       (Inr x, off) \<Rightarrow> if unat x < 2 ^ 14 then (Inr x, off) else (Inl ParseError, of_nat i)
     | (Inl e, off) \<Rightarrow> (Inl e, off))"
  by (rule optimized_agrees [OF assms])

theorem optimized_read_compressed_u16_equiv_witness:
  "optimized_read_compressed_u16 [0x85, 1] 0 = (Inr 0x85, 2)"
  using optimized_read_compressed_u16_equiv [of "[0x85, 1]" 0]
  by (simp add: read_compressed_u16_def slice_get_def Let_def)

end
