(* ===== verification/Tx_Format.thy ===== *)
theory Tx_Format
  imports Tx_Frames
begin

text \<open>
  The wire format of a transaction, written as a printer of abstract transactions, and the proof
  that the frame parsers of \<^verbatim>\<open>transaction-view\<close> are readers of its parts.
\<close>

section \<open>The encoding of the variable parts\<close>

definition enc_vec :: "u8 list \<Rightarrow> u8 list" where
  "enc_vec xs = encode_u16 (length xs) @ xs"

definition enc_instruction :: "svm_instruction \<Rightarrow> u8 list" where
  "enc_instruction ix = [program_id_index ix] @ enc_vec (ix_accounts ix) @ enc_vec (ix_data ix)"

definition instruction_ok :: "svm_instruction \<Rightarrow> bool" where
  "instruction_ok ix \<longleftrightarrow> length (ix_accounts ix) < 2 ^ 14 \<and> length (ix_data ix) < 2 ^ 14"

definition enc_atl :: "svm_message_address_table_lookup \<Rightarrow> u8 list" where
  "enc_atl atl = account_key atl @ enc_vec (writable_indexes atl) @ enc_vec (readonly_indexes atl)"

definition atl_ok :: "layout \<Rightarrow> svm_message_address_table_lookup \<Rightarrow> bool" where
  "atl_ok lay atl \<longleftrightarrow> length (account_key atl) = unat (size_of_Pubkey lay) \<and>
     length (writable_indexes atl) < 2 ^ 14 \<and> length (readonly_indexes atl) < 2 ^ 14"

section \<open>Composition of readers\<close>

lemma pbind_assoc: "pbind (pbind p f) g = pbind p (\<lambda>x. pbind (f x) g)"
  by (rule ext)+ (simp add: pbind_def split: prod.splits sum.splits)

lemma pbind_preturn: "pbind (preturn x) f = f x"
  by (rule ext)+ (simp add: pbind_def preturn_def)

lemma format_map:
  "format_reader p E \<Longrightarrow> format_reader (pbind p (\<lambda>x. preturn (f x))) (\<lambda>bytes i y w. \<exists>x. E bytes i x w \<and> y = f x)"
  by (rule format_cong [OF format_bind [OF _ format_return]]) auto

text \<open>Sequences: a part that is read, and a part that is checked and skipped.\<close>

lemma format_seq:
  "format_reader p (\<lambda>bytes i x w. ok x \<and> w = e x) \<Longrightarrow> (\<And>x. format_reader (f x) (F x)) \<Longrightarrow>
     format_reader (pbind p f) (\<lambda>bytes i y w. \<exists>x u. ok x \<and> w = e x @ u \<and> F x bytes (i + length (e x)) y u)"
  by (rule format_cong [OF format_bind]) auto

lemma format_skip:
  "format_reader p (\<lambda>bytes i _ w. \<exists>x. ok x \<and> w = e x) \<Longrightarrow> format_reader q F \<Longrightarrow>
     format_reader (pbind p (\<lambda>_ :: unit. q)) (\<lambda>bytes i y w. \<exists>x u. ok x \<and> w = e x @ u \<and> F bytes (i + length (e x)) y u)"
  by (rule format_cong [OF format_bind]) auto

lemma format_any_byte: "format_reader read_byte (\<lambda>bytes i b w. True \<and> w = [b])"
  using format_byte by simp

lemma format_if: "format_reader p E \<Longrightarrow> format_reader (if b then pfail e else p) (\<lambda>bytes i x w. \<not> b \<and> E bytes i x w)"
  by (cases b) (auto intro: format_cong [OF format_fail] format_cong)

lemma unat_usize_one: "unat (1 :: usize) = 1"
  by simp

lemma size_one: "unat (n :: u16) * unat (1 :: usize) < 2 ^ 63"
  using unat_less_pow [of n] by simp

lemma elements_bytes: "elements hd (Suc 0) n bs = take n bs" if "n \<le> length bs"
  using that
proof (induction n arbitrary: bs)
  case (Suc n)
  then show ?case by (cases bs) (simp_all add: take_Suc)
qed simp

lemma format_skip_vec:
  "format_reader (pbind optimized_read_compressed_u16 (advance_offset_for_array 1))
     (\<lambda>bytes i y w. \<exists>xs. length xs < 2 ^ 14 \<and> w = enc_vec xs)"
proof (rule format_cong [OF format_bind [OF optimized.format_reader_axioms format_array [OF size_one]]])
  fix w
  show "(\<exists>n v u. w = v @ u \<and> (v = encode_u16 (unat n) \<and> unat n < 2 ^ 14) \<and> length u = unat (n :: u16) * unat (1 :: usize)) \<longleftrightarrow>
      (\<exists>xs. length xs < 2 ^ 14 \<and> w = enc_vec xs)" (is "?l \<longleftrightarrow> ?r")
  proof
    assume ?r
    then obtain xs where "length xs < 2 ^ 14" "w = enc_vec xs" by blast
    moreover from this have "unat (of_nat (length xs) :: u16) = length xs" by (intro unat_of_nat_small) simp
    ultimately show ?l
      by - (rule exI [of _ "of_nat (length xs) :: u16"], rule exI [of _ "encode_u16 (length xs)"], rule exI [of _ xs],
          simp add: enc_vec_def)
  next
    assume ?l
    then obtain n u where "w = encode_u16 (unat (n :: u16)) @ u" "unat n < 2 ^ 14" "length u = unat n" by auto
    then show ?r by (intro exI [of _ u]) (simp add: enc_vec_def)
  qed
qed

lemma format_vec:
  "format_reader (pbind optimized_read_compressed_u16 (read_slice_data hd 1))
     (\<lambda>bytes i xs w. length xs < 2 ^ 14 \<and> w = enc_vec xs)"
proof (rule format_cong [OF format_bind [OF optimized.format_reader_axioms format_slice [OF size_one]]])
  fix w xs
  show "(\<exists>n v u. w = v @ u \<and> (v = encode_u16 (unat n) \<and> unat n < 2 ^ 14) \<and>
        (length u = unat (n :: u16) * unat (1 :: usize) \<and> xs = elements hd (unat (1 :: usize)) (unat n) u)) \<longleftrightarrow>
      length xs < 2 ^ 14 \<and> w = enc_vec xs" (is "?l \<longleftrightarrow> ?r")
  proof
    assume ?r
    moreover from this have "unat (of_nat (length xs) :: u16) = length xs" by (intro unat_of_nat_small) simp
    ultimately show ?l
      by - (rule exI [of _ "of_nat (length xs) :: u16"], rule exI [of _ "encode_u16 (length xs)"], rule exI [of _ xs],
          simp add: enc_vec_def elements_bytes)
  qed (auto simp: enc_vec_def elements_bytes)
qed

section \<open>Instructions\<close>

lemma ex_instruction: "(\<exists>ix :: svm_instruction. P ix) \<longleftrightarrow>
    (\<exists>p a d. P \<lparr>program_id_index = p, ix_accounts = a, ix_data = d\<rparr>)"
  by (metis svm_instruction.cases)

lemma format_skip_instruction:
  "format_reader skip_instruction (\<lambda>bytes i y w. \<exists>ix. instruction_ok ix \<and> w = enc_instruction ix)"
proof -
  have eq: "skip_instruction = pbind read_byte (\<lambda>_. pbind (pbind optimized_read_compressed_u16 (advance_offset_for_array 1))
      (\<lambda>_. pbind optimized_read_compressed_u16 (advance_offset_for_array 1)))"
    by (simp add: skip_instruction_def pbind_assoc)
  show ?thesis unfolding eq
    by (rule format_cong [OF format_seq [OF format_any_byte format_skip [OF format_skip_vec format_skip_vec]]])
      (unfold ex_instruction instruction_ok_def enc_instruction_def, simp only: svm_instruction.simps, blast)
qed

lemma format_instruction:
  "format_reader read_instruction (\<lambda>bytes i ix w. instruction_ok ix \<and> w = enc_instruction ix)"
proof -
  have eq: "read_instruction = pbind read_byte (\<lambda>p. pbind (pbind optimized_read_compressed_u16 (read_slice_data hd 1))
      (\<lambda>a. pbind (pbind optimized_read_compressed_u16 (read_slice_data hd 1))
      (\<lambda>d. preturn \<lparr>program_id_index = p, ix_accounts = a, ix_data = d\<rparr>)))"
    by (simp add: read_instruction_def pbind_assoc)
  show ?thesis unfolding eq
    by (rule format_cong [OF format_seq [OF format_any_byte format_seq [OF format_vec format_map [OF format_vec]]]])
      (rename_tac ix w, case_tac ix, unfold instruction_ok_def enc_instruction_def, simp only: svm_instruction.simps, blast)
qed

lemma enc_vec_length: "1 + length xs \<le> length (enc_vec xs)"
  by (simp add: enc_vec_def encode_u16_length)

lemma enc_instruction_length: "3 \<le> length (enc_instruction ix)"
  using enc_vec_length [of "ix_accounts ix"] enc_vec_length [of "ix_data ix"] by (simp add: enc_instruction_def)

lemma concat_length: "(\<And>x. x \<in> set xs \<Longrightarrow> k \<le> length (e x)) \<Longrightarrow> k * length xs \<le> length (concat (map e xs))"
  by (induction xs) (auto simp: add_mono)

text \<open>Loops over a sequence of parts; the carried value is updated by each part.\<close>

lemma format_loop:
  assumes "\<And>acc. format_reader (body acc) (\<lambda>bytes i acc' w. \<exists>x. ok x \<and> w = e x \<and> acc' = upd acc x)"
  shows "format_reader (ploop n body acc)
    (\<lambda>bytes i acc' w. \<exists>xs. length xs = n \<and> list_all ok xs \<and> w = concat (map e xs) \<and> acc' = foldl upd acc xs)"
proof (induction n arbitrary: acc)
  case 0
  show ?case by (simp, rule format_cong [OF format_return]) auto
next
  case (Suc n)
  show ?case unfolding ploop.simps
  proof (rule format_cong [OF format_bind [OF assms Suc.IH]])
    fix acc' w
    show "(\<exists>a v u. w = v @ u \<and> (\<exists>x. ok x \<and> v = e x \<and> a = upd acc x) \<and>
        (\<exists>xs. length xs = n \<and> list_all ok xs \<and> u = concat (map e xs) \<and> acc' = foldl upd a xs)) \<longleftrightarrow>
      (\<exists>xs. length xs = Suc n \<and> list_all ok xs \<and> w = concat (map e xs) \<and> acc' = foldl upd acc xs)" (is "?l \<longleftrightarrow> ?r")
    proof
      assume ?l
      then obtain x xs where "ok x" "length xs = n" "list_all ok xs" "w = e x @ concat (map e xs)"
        "acc' = foldl upd (upd acc x) xs" by blast
      then show ?r by (intro exI [of _ "x # xs"]) simp
    next
      assume ?r
      then obtain x xs where "ok x" "length xs = n" "list_all ok xs" "w = e x @ concat (map e xs)"
        "acc' = foldl upd (upd acc x) xs" by (auto simp: length_Suc_conv)
      then show ?l by blast
    qed
  qed
qed

lemma ucast_offset: "(ucast (of_nat i :: usize) :: u16) = of_nat i"
  by (simp add: unsigned_of_nat of_nat_take_bit take_bit_word_eq_self)

definition instructions_frame_of :: "nat \<Rightarrow> svm_instruction list \<Rightarrow> instructions_frame" where
  "instructions_frame_of i ixs = \<lparr>if_num_instructions = of_nat (length ixs), if_offset = of_nat i\<rparr>"

lemma format_instructions_frame:
  "format_reader instructions_frame_try_new (\<lambda>bytes i f w. \<exists>ixs. length ixs < 2 ^ 14 \<and> list_all instruction_ok ixs \<and>
     w = encode_u16 (length ixs) @ concat (map enc_instruction ixs) \<and>
     f = instructions_frame_of (i + length (encode_u16 (length ixs))) ixs)"
proof -
  have loop: "format_reader (ploop n (\<lambda>_. skip_instruction) ()) (\<lambda>bytes i _ w. \<exists>xs. length xs = n \<and>
      list_all instruction_ok xs \<and> w = concat (map enc_instruction xs))" for n
    using format_loop [of "\<lambda>_. skip_instruction" instruction_ok enc_instruction "\<lambda>_ _. ()"] format_skip_instruction by simp
  show ?thesis unfolding instructions_frame_try_new_def
  proof (rule format_cong [OF format_bind [OF optimized.format_reader_axioms
          format_bind [OF format_check format_bind [OF format_offset format_map [OF loop]]]]])
    fix bytes :: "u8 list" and i f w assume b: "slice_ok bytes" "bytes_at bytes i w"
    show "(\<exists>n v u. w = v @ u \<and> (v = encode_u16 (unat n) \<and> unat n < 2 ^ 14) \<and>
        (\<exists>x va ua. u = va @ ua \<and> (va = [] \<and> i + length v + unat (3 * ucast (n :: u16) :: usize) \<le> length bytes) \<and>
          (\<exists>off vb ub. ua = vb @ ub \<and> (off = of_nat (i + length v + length va) \<and> vb = []) \<and>
            (\<exists>y. (\<exists>xs. length xs = unat n \<and> list_all instruction_ok xs \<and> ub = concat (map enc_instruction xs)) \<and>
              f = \<lparr>if_num_instructions = n, if_offset = ucast (off :: usize)\<rparr>)))) \<longleftrightarrow>
      (\<exists>ixs. length ixs < 2 ^ 14 \<and> list_all instruction_ok ixs \<and> w = encode_u16 (length ixs) @ concat (map enc_instruction ixs) \<and>
        f = instructions_frame_of (i + length (encode_u16 (length ixs))) ixs)" (is "?l \<longleftrightarrow> ?r")
    proof
      assume ?l
      then obtain n ixs where "w = encode_u16 (unat n) @ concat (map enc_instruction ixs)" "unat n < 2 ^ 14"
        "length ixs = unat n" "list_all instruction_ok ixs"
        "f = \<lparr>if_num_instructions = n, if_offset = ucast (of_nat (i + length (encode_u16 (unat n))) :: usize)\<rparr>"
        by auto
      then show ?r by (intro exI [of _ ixs]) (simp add: instructions_frame_of_def ucast_offset of_nat_unat_id del: of_nat_add)
    next
      assume ?r
      then obtain ixs where x: "length ixs < 2 ^ 14" "list_all instruction_ok ixs"
        "w = encode_u16 (length ixs) @ concat (map enc_instruction ixs)"
        "f = instructions_frame_of (i + length (encode_u16 (length ixs))) ixs" by blast
      define n :: u16 where "n = of_nat (length ixs)"
      have n: "unat n = length ixs" unfolding n_def using x(1) by (intro unat_of_nat_small) simp
      have "unat (3 * ucast n :: usize) = 3 * length ixs" using x(1) n by (simp add: unat_word_ariths unat_ucast_small)
      moreover have "3 * length ixs \<le> length (concat (map enc_instruction ixs))"
        by (rule concat_length) (rule enc_instruction_length)
      ultimately have "i + length (encode_u16 (length ixs)) + unat (3 * ucast n :: usize) \<le> length bytes"
        using bytes_at_bound [OF b(2)] x(3) by simp
      then show ?l using x n
        by - (rule exI [of _ n], rule exI [of _ "encode_u16 (unat n)"], rule exI [of _ "concat (map enc_instruction ixs)"],
          auto simp: instructions_frame_of_def ucast_offset n_def simp del: of_nat_add)
    qed
  qed
qed

section \<open>Signatures, header and static keys\<close>

lemma ex_chunks: "length u = n * k \<longleftrightarrow> (\<exists>xs. length xs = n \<and> list_all (\<lambda>x. length x = k) xs \<and> u = concat xs)"
proof (induction n arbitrary: u)
  case (Suc n)
  show ?case (is "?l \<longleftrightarrow> ?r")
  proof
    assume ?l
    then have "length (drop k u) = n * k" "length (take k u) = k" by simp_all
    then obtain xs where "length xs = n" "list_all (\<lambda>x. length x = k) xs" "drop k u = concat xs" using Suc.IH by blast
    with \<open>length (take k u) = k\<close> show ?r by (intro exI [of _ "take k u # xs"]) (simp flip: \<open>drop k u = concat xs\<close>)
  next
    assume ?r
    then obtain x xs where "length xs = n" "list_all (\<lambda>x. length x = k) xs" "length x = k" "u = x @ concat xs"
      by (auto simp: length_Suc_conv)
    then show ?l using Suc.IH [of "concat xs"] by auto
  qed
qed simp

lemma counted_size: "unat size_of < 2 ^ 32 \<Longrightarrow> unat (ucast (n :: u8) :: u16) * unat (size_of :: usize) < 2 ^ 63"
  using unat_less_pow [of n] mult_strict_mono [of "unat n" "2 ^ 8" "unat size_of" "2 ^ 32"] by (simp add: unat_u8_cast)

text \<open>A count of at most \<open>mx\<close> in one byte, and that many elements of a fixed size.\<close>

lemma format_counted:
  fixes mk :: "u8 \<Rightarrow> u16 \<Rightarrow> 'f"
  assumes sz: "unat size_of < 2 ^ 32"
  shows "format_reader (pbind read_byte (\<lambda>n. if n = 0 \<or> n > mx then pfail ParseError else
      pbind poffset (\<lambda>offset. pbind (advance_offset_for_array size_of (ucast n)) (\<lambda>_. preturn (mk n (ucast offset))))))
    (\<lambda>bytes i f w. \<exists>xs. 0 < length xs \<and> length xs \<le> unat mx \<and> list_all (\<lambda>x. length x = unat size_of) xs \<and>
      w = [of_nat (length xs)] @ concat xs \<and> f = mk (of_nat (length xs)) (of_nat (i + 1)))"
proof (rule format_cong [OF format_bind [OF format_byte format_if
      [OF format_bind [OF format_offset format_map [OF format_array [OF counted_size [OF sz]]]]]]])
  fix bytes :: "u8 list" and i f w
  show "(\<exists>n v u. w = v @ u \<and> v = [n] \<and> (\<not> (n = 0 \<or> n > mx) \<and>
      (\<exists>off v' u'. u = v' @ u' \<and> (off = of_nat (i + length v) \<and> v' = []) \<and>
        (\<exists>y. length u' = unat (ucast n :: u16) * unat size_of \<and> f = mk n (ucast (off :: usize)))))) \<longleftrightarrow>
    (\<exists>xs. 0 < length xs \<and> length xs \<le> unat mx \<and> list_all (\<lambda>x. length x = unat size_of) xs \<and>
      w = [of_nat (length xs)] @ concat xs \<and> f = mk (of_nat (length xs)) (of_nat (i + 1)))" (is "?l \<longleftrightarrow> ?r")
  proof
    assume ?l
    then obtain n u where n: "w = [n] @ u" "n \<noteq> 0" "\<not> n > mx" "length u = unat n * unat size_of"
      "f = mk n (of_nat (i + 1))" by (auto simp: unat_u8_cast ucast_offset simp del: of_nat_add of_nat_Suc)
    moreover from n(4) obtain xs where "length xs = unat n" "list_all (\<lambda>x. length x = unat size_of) xs" "u = concat xs"
      using ex_chunks by blast
    ultimately show ?r
      by (intro exI [of _ xs]) (simp add: of_nat_unat_id word_le_nat_alt word_less_nat_alt unat_gt_0 not_less)
  next
    assume ?r
    then obtain xs where x: "0 < length xs" "length xs \<le> unat mx" "list_all (\<lambda>x. length x = unat size_of) xs"
      "w = [of_nat (length xs)] @ concat xs" "f = mk (of_nat (length xs)) (of_nat (i + 1))" by blast
    have n: "unat (of_nat (length xs) :: u8) = length xs" using x(2) unat_less_pow [of mx] by (intro unat_of_nat_small) simp
    have "\<not> (of_nat (length xs) = (0 :: u8) \<or> of_nat (length xs) > mx)"
      using x(1,2) n by (auto simp: word_less_nat_alt simp flip: unat_eq_0)
    moreover have "length (concat xs) = length xs * unat size_of" using ex_chunks x(3) by blast
    ultimately show ?l using x(4,5) n
      by - (rule exI [of _ "of_nat (length xs)"], rule exI [of _ "[of_nat (length xs)]"], rule exI [of _ "concat xs"],
        simp add: unat_u8_cast ucast_offset del: of_nat_add of_nat_Suc)
  qed
qed

lemma layout_sizes:
  assumes "layout_ok lay"
  shows "unat (size_of_Signature lay) = 64" "unat (size_of_Pubkey lay) = 32" "unat (size_of_Hash lay) = 32"
    "unat (MAX_SIGNATURES_PER_PACKET lay) = 12" "unat (MAX_STATIC_ACCOUNTS_PER_PACKET lay) = 38"
    "unat (MAX_ATLS_PER_PACKET lay) = 31" "unat (MIN_SIZED_ATL lay) = 35"
  using assms by (simp_all add: layout_ok_def MAX_SIGNATURES_PER_PACKET_def MAX_STATIC_ACCOUNTS_PER_PACKET_def
      MAX_ATLS_PER_PACKET_def MIN_SIZED_ATL_def MIN_SIZED_PACKET_WITH_ATLS_def)

lemma format_signature_frame:
  assumes "layout_ok lay"
  shows "format_reader (signature_frame_try_new lay) (\<lambda>bytes i f w. \<exists>sigs. 0 < length sigs \<and> length sigs \<le> 12 \<and>
    list_all (\<lambda>s. length s = 64) sigs \<and> w = [of_nat (length sigs)] @ concat sigs \<and>
    f = \<lparr>sf_num_signatures = of_nat (length sigs), sf_offset = of_nat (i + 1)\<rparr>)"
  using format_counted [of "size_of_Signature lay" "MAX_SIGNATURES_PER_PACKET lay"
      "\<lambda>n offset. \<lparr>sf_num_signatures = n, sf_offset = offset\<rparr>"] layout_sizes [OF assms]
  by (simp add: signature_frame_try_new_def)

lemma format_static_account_keys_frame:
  assumes "layout_ok lay"
  shows "format_reader (static_account_keys_frame_try_new lay) (\<lambda>bytes i f w. \<exists>keys. 0 < length keys \<and> length keys \<le> 38 \<and>
    list_all (\<lambda>k. length k = 32) keys \<and> w = [of_nat (length keys)] @ concat keys \<and>
    f = \<lparr>kf_num_static_accounts = of_nat (length keys), kf_offset = of_nat (i + 1)\<rparr>)"
  using format_counted [of "size_of_Pubkey lay" "MAX_STATIC_ACCOUNTS_PER_PACKET lay"
      "\<lambda>n offset. \<lparr>kf_num_static_accounts = n, kf_offset = offset\<rparr>"] layout_sizes [OF assms]
  by (simp add: static_account_keys_frame_try_new_def)

definition version_prefix :: "transaction_version \<Rightarrow> u8 list" where
  "version_prefix v = (case v of Legacy \<Rightarrow> [] | V0 \<Rightarrow> [0x80])"

lemma no_low_bits: "b AND NOT 0x80 = 0 \<and> b AND 0x80 \<noteq> 0 \<longleftrightarrow> (b :: u8) = 0x80"
proof -
  have n: "NOT (0x80 :: u8) = 0x7F" by simp
  have "b AND 0x7F = 0 \<longleftrightarrow> unat b mod 128 = 0" using low_bits [of b] by (simp flip: unat_eq_0)
  moreover have "b AND 0x80 \<noteq> 0 \<longleftrightarrow> 128 \<le> unat b" using high_bit [of b] by auto
  moreover have "unat b mod 128 = 0 \<and> 128 \<le> unat b \<longleftrightarrow> unat b = 128" using unat_less_pow [of b] by (auto simp: mod_if split: if_splits)
  ultimately show ?thesis unfolding n by (auto simp: word_unat_eq_iff)
qed

lemma format_version:
  "format_reader (pbind read_byte (\<lambda>b. if b AND 0x80 \<noteq> 0 then
       if b AND NOT 0x80 = 0 then pbind read_byte (\<lambda>n. preturn (V0, n)) else pfail ParseError
     else preturn (Legacy, b)))
   (\<lambda>bytes i x w. w = version_prefix (fst x) @ [snd x] \<and> (fst x = Legacy \<longrightarrow> unat (snd x) < 128))"
proof (rule format_cong [OF format_bind [OF format_byte]])
  show "format_reader (if b AND 0x80 \<noteq> 0 then
        if b AND NOT 0x80 = 0 then pbind read_byte (\<lambda>n. preturn (V0, n)) else pfail ParseError
      else preturn (Legacy, b)) (\<lambda>bytes i (v, n) w. if b = 0x80 then v = V0 \<and> w = [n] else v = Legacy \<and> n = b \<and> w = [] \<and> unat b < 128)" for b :: u8
    using no_low_bits [of b] high_bit [of b]
    by (auto intro!: format_cong [OF format_map [OF format_byte]] format_cong [OF format_fail] format_cong [OF format_return])
qed (auto simp: version_prefix_def split: transaction_version.splits if_splits)

lemma format_message_header_frame:
  assumes "layout_ok lay"
  shows "format_reader (message_header_frame_try_new lay) (\<lambda>bytes i f w. hf_offset f = of_nat i \<and>
    (hf_version f = Legacy \<longrightarrow> unat (hf_num_required_signatures f) < 128) \<and>
    w = version_prefix (hf_version f) @ [hf_num_required_signatures f] @
      [hf_num_readonly_signed_accounts f] @ [hf_num_readonly_unsigned_accounts f])"
proof -
  let ?mk = "\<lambda>m v n rs ru. \<lparr>hf_offset = ucast (m :: usize), hf_version = v, hf_num_required_signatures = n,
    hf_num_readonly_signed_accounts = rs, hf_num_readonly_unsigned_accounts = ru\<rparr>"
  have version: "MESSAGE_VERSION_PREFIX lay = 0x80" using assms by (simp add: layout_ok_def)
  have eq: "message_header_frame_try_new lay = pbind poffset (\<lambda>m. pbind (pbind read_byte (\<lambda>b. if b AND 0x80 \<noteq> 0 then
        if b AND NOT 0x80 = 0 then pbind read_byte (\<lambda>n. preturn (V0, n)) else pfail ParseError
      else preturn (Legacy, b))) (\<lambda>x. pbind read_byte (\<lambda>rs. pbind read_byte (\<lambda>ru. preturn (?mk m (fst x) (snd x) rs ru)))))"
    unfolding message_header_frame_try_new_def version by (simp add: pbind_assoc case_prod_unfold)
  show ?thesis unfolding eq
  proof (rule format_cong [OF format_bind [OF format_offset format_bind
          [OF format_version format_bind [OF format_byte format_map [OF format_byte]]]]])
    fix bytes :: "u8 list" and i f w
    obtain m v n rs ru where f: "f = \<lparr>hf_offset = m, hf_version = v, hf_num_required_signatures = n,
      hf_num_readonly_signed_accounts = rs, hf_num_readonly_unsigned_accounts = ru\<rparr>" by (cases f)
    show "(\<exists>x va u. w = va @ u \<and> (x = of_nat i \<and> va = []) \<and>
        (\<exists>y vb ua. u = vb @ ua \<and> (vb = version_prefix (fst y) @ [snd y] \<and> (fst y = Legacy \<longrightarrow> unat (snd y) < 128)) \<and>
          (\<exists>rs vc ub. ua = vc @ ub \<and> vc = [rs] \<and> (\<exists>ru. ub = [ru] \<and> f = ?mk x (fst y) (snd y) rs ru)))) \<longleftrightarrow>
      hf_offset f = of_nat i \<and> (hf_version f = Legacy \<longrightarrow> unat (hf_num_required_signatures f) < 128) \<and>
      w = version_prefix (hf_version f) @ [hf_num_required_signatures f] @
        [hf_num_readonly_signed_accounts f] @ [hf_num_readonly_unsigned_accounts f]"
      unfolding f by (auto simp: ucast_offset)
  qed
qed

section \<open>Address table lookups\<close>

definition skip_counted :: "u16 reader" where
  "skip_counted = pbind optimized_read_compressed_u16 (\<lambda>n. pbind (advance_offset_for_array 1 n) (\<lambda>_. preturn n))"

lemma format_skip_counted:
  "format_reader skip_counted (\<lambda>bytes i n w. \<exists>xs. unat n = length xs \<and> length xs < 2 ^ 14 \<and> w = enc_vec xs)"
  unfolding skip_counted_def
proof (rule format_cong [OF format_bind [OF optimized.format_reader_axioms format_map [OF format_array [OF size_one]]]])
  fix w n
  show "(\<exists>m v u. w = v @ u \<and> (v = encode_u16 (unat m) \<and> unat m < 2 ^ 14) \<and>
      (\<exists>y. length u = unat m * unat (1 :: usize) \<and> n = (m :: u16))) \<longleftrightarrow>
    (\<exists>xs. unat n = length xs \<and> length xs < 2 ^ 14 \<and> w = enc_vec xs)"
    unfolding enc_vec_def unat_usize_one mult_1_right by metis
qed

lemma ex_atl: "(\<exists>atl :: svm_message_address_table_lookup. P atl) \<longleftrightarrow>
    (\<exists>k x y. P \<lparr>account_key = k, writable_indexes = x, readonly_indexes = y\<rparr>)"
  by (metis svm_message_address_table_lookup.cases)

definition add_atl :: "u32 \<times> u32 \<Rightarrow> svm_message_address_table_lookup \<Rightarrow> u32 \<times> u32" where
  "add_atl acc atl = (fst acc + of_nat (length (writable_indexes atl)), snd acc + of_nat (length (readonly_indexes atl)))"

lemma ucast_count: "unat (n :: u16) = k \<Longrightarrow> (ucast n :: u32) = of_nat k"
  using unat_less_pow [of n] by (auto simp: word_unat_eq_iff unat_ucast_small unat_of_nat_small)

lemma format_skip_atl:
  assumes "layout_ok lay"
  shows "format_reader (skip_atl lay acc)
    (\<lambda>bytes i acc' w. \<exists>atl. atl_ok lay atl \<and> w = enc_atl atl \<and> acc' = add_atl acc atl)"
proof -
  have eq: "skip_atl lay acc = pbind (advance_offset_for_type (size_of_Pubkey lay)) (\<lambda>_. pbind skip_counted
      (\<lambda>m. pbind skip_counted (\<lambda>n. preturn (fst acc + ucast m, snd acc + ucast n))))"
    by (simp add: skip_atl_def skip_counted_def case_prod_unfold pbind_assoc pbind_preturn)
  have key: "unat (size_of_Pubkey lay) < 2 ^ 63" by (simp add: layout_sizes [OF assms])
  show ?thesis unfolding eq
  proof (rule format_cong [OF format_bind [OF format_type [OF key] format_bind
          [OF format_skip_counted format_map [OF format_skip_counted]]]])
    fix w acc'
    show "(\<exists>x v u. w = v @ u \<and> length v = unat (size_of_Pubkey lay) \<and>
        (\<exists>m va ua. u = va @ ua \<and> (\<exists>xs. unat m = length xs \<and> length xs < 2 ^ 14 \<and> va = enc_vec xs) \<and>
          (\<exists>n. (\<exists>xs. unat n = length xs \<and> length xs < 2 ^ 14 \<and> ua = enc_vec xs) \<and>
            acc' = (fst acc + ucast (m :: u16), snd acc + ucast (n :: u16))))) \<longleftrightarrow>
      (\<exists>atl. atl_ok lay atl \<and> w = enc_atl atl \<and> acc' = add_atl acc atl)" (is "?l \<longleftrightarrow> ?r")
    proof
      assume ?l
      then obtain k x y m n where "w = k @ enc_vec x @ enc_vec y" "length k = unat (size_of_Pubkey lay)"
        "length x < 2 ^ 14" "length y < 2 ^ 14" "unat m = length x" "unat n = length y"
        "acc' = (fst acc + ucast (m :: u16), snd acc + ucast (n :: u16))" by blast
      then show ?r by (intro exI [of _ "\<lparr>account_key = k, writable_indexes = x, readonly_indexes = y\<rparr>"])
        (simp add: atl_ok_def enc_atl_def add_atl_def ucast_count)
    next
      assume ?r
      then obtain k x y where x: "w = k @ enc_vec x @ enc_vec y" "length k = unat (size_of_Pubkey lay)"
        "length x < 2 ^ 14" "length y < 2 ^ 14" "acc' = (fst acc + of_nat (length x), snd acc + of_nat (length y))"
        unfolding ex_atl atl_ok_def enc_atl_def add_atl_def by auto
      have l: "unat (of_nat (length x) :: u16) = length x" "unat (of_nat (length y) :: u16) = length y"
        using x(3,4) by (auto intro!: unat_of_nat_small)
      with x(5) have "acc' = (fst acc + ucast (of_nat (length x) :: u16), snd acc + ucast (of_nat (length y) :: u16))"
        by (simp add: ucast_count)
      with x l show ?l by blast
    qed
  qed
qed

definition writable_total :: "svm_message_address_table_lookup list \<Rightarrow> nat" where
  "writable_total atls = sum_list (map (length \<circ> writable_indexes) atls)"

definition readonly_total :: "svm_message_address_table_lookup list \<Rightarrow> nat" where
  "readonly_total atls = sum_list (map (length \<circ> readonly_indexes) atls)"

lemma foldl_add_atl:
  "foldl add_atl acc atls = (fst acc + of_nat (writable_total atls), snd acc + of_nat (readonly_total atls))"
  by (induction atls arbitrary: acc) (simp_all add: add_atl_def writable_total_def readonly_total_def add.assoc)

lemma total_bound:
  "list_all (atl_ok lay) atls \<Longrightarrow> writable_total atls \<le> 2 ^ 14 * length atls \<and> readonly_total atls \<le> 2 ^ 14 * length atls"
  by (induction atls) (auto simp: writable_total_def readonly_total_def atl_ok_def)

definition address_table_lookup_frame_of :: "nat \<Rightarrow> svm_message_address_table_lookup list \<Rightarrow> address_table_lookup_frame" where
  "address_table_lookup_frame_of i atls = \<lparr>af_num_address_table_lookups = of_nat (length atls), af_offset = of_nat i,
     af_total_writable_lookup_accounts = of_nat (writable_total atls),
     af_total_readonly_lookup_accounts = of_nat (readonly_total atls)\<rparr>"

lemma format_u16_try_from: "format_reader (u16_try_from n) (\<lambda>bytes i y w. unat n < 2 ^ 16 \<and> y = ucast n \<and> w = [])"
  by (auto simp: u16_try_from_def word_le_nat_alt intro!: format_cong [OF format_return] format_cong [OF format_fail])

lemma u16_of_total: "n < 2 ^ 32 \<Longrightarrow> (ucast (of_nat n :: u32) :: u16) = of_nat n \<and> unat (of_nat n :: u32) = n"
  by (simp add: unsigned_of_nat of_nat_take_bit take_bit_word_eq_self take_bit_nat_eq_self)

lemma format_totals:
  "format_reader (pbind (u16_try_from m) (\<lambda>x. pbind (u16_try_from n) (\<lambda>y. preturn (mk x y))))
     (\<lambda>bytes i f w. unat m < 2 ^ 16 \<and> unat n < 2 ^ 16 \<and> f = mk (ucast m) (ucast n) \<and> w = [])"
  by (rule format_cong [OF format_bind [OF format_u16_try_from format_map [OF format_u16_try_from]]]) auto

text \<open>The body of the parser behind the count, and what it accepts.\<close>

lemma format_atls:
  assumes lay: "layout_ok lay" and n: "unat n \<le> 31"
  shows "format_reader
    (pbind (check_remaining (MIN_SIZED_ATL lay * ucast n)) (\<lambda>_. pbind poffset (\<lambda>offset.
     pbind (ploop (unat n) (skip_atl lay) (0, 0)) (\<lambda>t. pbind (u16_try_from (fst t)) (\<lambda>x. pbind (u16_try_from (snd t)) (\<lambda>y.
       preturn \<lparr>af_num_address_table_lookups = n, af_offset = ucast offset,
         af_total_writable_lookup_accounts = x, af_total_readonly_lookup_accounts = y\<rparr>))))))
    (\<lambda>bytes i f w. \<exists>atls. length atls = unat n \<and> list_all (atl_ok lay) atls \<and> i + 35 * length atls \<le> length bytes \<and>
       writable_total atls < 2 ^ 16 \<and> readonly_total atls < 2 ^ 16 \<and>
       w = concat (map enc_atl atls) \<and> f = address_table_lookup_frame_of i atls)"
proof (rule format_cong [OF format_bind [OF format_check format_bind [OF format_offset format_bind
        [OF format_loop [OF format_skip_atl [OF lay]] format_totals]]]])
  fix bytes :: "u8 list" and i f w
  have min: "unat (MIN_SIZED_ATL lay * ucast n) = 35 * unat n"
    using n layout_sizes(7) [OF lay] by (simp add: unat_word_ariths unat_ucast_small)
  have t: "ucast (of_nat (writable_total atls) :: u32) = (of_nat (writable_total atls) :: u16)"
      "unat (of_nat (writable_total atls) :: u32) = writable_total atls"
      "ucast (of_nat (readonly_total atls) :: u32) = (of_nat (readonly_total atls) :: u16)"
      "unat (of_nat (readonly_total atls) :: u32) = readonly_total atls"
    if "length atls = unat n" "list_all (atl_ok lay) atls" for atls
    using total_bound [OF that(2)] that(1) n u16_of_total [of "writable_total atls"] u16_of_total [of "readonly_total atls"]
    by simp_all
  show "(\<exists>x v u. w = v @ u \<and> (v = [] \<and> i + unat (MIN_SIZED_ATL lay * ucast n) \<le> length bytes) \<and>
      (\<exists>off va ua. u = va @ ua \<and> (off = of_nat (i + length v) \<and> va = []) \<and>
        (\<exists>acc vb ub. ua = vb @ ub \<and> (\<exists>xs. length xs = unat n \<and> list_all (atl_ok lay) xs \<and> vb = concat (map enc_atl xs) \<and>
            acc = foldl add_atl (0, 0) xs) \<and>
          (unat (fst acc) < 2 ^ 16 \<and> unat (snd acc) < 2 ^ 16 \<and>
            f = \<lparr>af_num_address_table_lookups = n, af_offset = ucast (off :: usize),
              af_total_writable_lookup_accounts = ucast (fst acc), af_total_readonly_lookup_accounts = ucast (snd acc)\<rparr> \<and>
            ub = [])))) \<longleftrightarrow>
    (\<exists>atls. length atls = unat n \<and> list_all (atl_ok lay) atls \<and> i + 35 * length atls \<le> length bytes \<and>
       writable_total atls < 2 ^ 16 \<and> readonly_total atls < 2 ^ 16 \<and>
       w = concat (map enc_atl atls) \<and> f = address_table_lookup_frame_of i atls)"
    unfolding min foldl_add_atl
    by (auto simp: address_table_lookup_frame_of_def t ucast_offset of_nat_unat_id) (metis t)
qed

lemma format_address_table_lookup_frame:
  assumes lay: "layout_ok lay"
  shows "format_reader (address_table_lookup_frame_try_new lay)
    (\<lambda>bytes i f w. \<exists>atls. length atls \<le> 31 \<and> list_all (atl_ok lay) atls \<and> i + 1 + 35 * length atls \<le> length bytes \<and>
       writable_total atls < 2 ^ 16 \<and> readonly_total atls < 2 ^ 16 \<and>
       w = [of_nat (length atls)] @ concat (map enc_atl atls) \<and> f = address_table_lookup_frame_of (i + 1) atls)"
proof -
  have max: "\<not> n > MAX_ATLS_PER_PACKET lay \<longleftrightarrow> unat n \<le> 31" for n
    using layout_sizes(6) [OF lay] by (simp add: word_less_nat_alt not_less)
  let ?atls = "\<lambda>n bytes i f w. \<exists>atls. length atls = unat (n :: u8) \<and> list_all (atl_ok lay) atls \<and>
    i + 35 * length atls \<le> length (bytes :: u8 list) \<and> writable_total atls < 2 ^ 16 \<and> readonly_total atls < 2 ^ 16 \<and>
    w = concat (map enc_atl atls) \<and> f = address_table_lookup_frame_of i atls"
  have body: "format_reader (if n > MAX_ATLS_PER_PACKET lay then pfail ParseError else
      pbind (check_remaining (MIN_SIZED_ATL lay * ucast n)) (\<lambda>_. pbind poffset (\<lambda>offset.
      pbind (ploop (unat n) (skip_atl lay) (0, 0)) (\<lambda>t. pbind (u16_try_from (fst t)) (\<lambda>x. pbind (u16_try_from (snd t)) (\<lambda>y.
        preturn \<lparr>af_num_address_table_lookups = n, af_offset = ucast offset,
          af_total_writable_lookup_accounts = x, af_total_readonly_lookup_accounts = y\<rparr>))))))
      (\<lambda>bytes i f w. unat n \<le> 31 \<and> ?atls n bytes i f w)" for n
  proof (cases "unat n \<le> 31")
    case True
    then show ?thesis using max [of n] format_atls [OF lay True] by simp
  next
    case False
    then show ?thesis using max [of n] format_fail by simp
  qed
  show ?thesis unfolding address_table_lookup_frame_try_new_def case_prod_unfold
  proof (rule format_cong [OF format_bind [OF format_byte body]])
    fix bytes i f w
    show "(\<exists>n v u. w = v @ u \<and> v = [n] \<and> (unat n \<le> 31 \<and> ?atls n bytes (i + length v) f u)) \<longleftrightarrow>
      (\<exists>atls. length atls \<le> 31 \<and> list_all (atl_ok lay) atls \<and> i + 1 + 35 * length atls \<le> length bytes \<and>
       writable_total atls < 2 ^ 16 \<and> readonly_total atls < 2 ^ 16 \<and>
       w = [of_nat (length atls)] @ concat (map enc_atl atls) \<and> f = address_table_lookup_frame_of (i + 1) atls)" (is "?l \<longleftrightarrow> ?r")
    proof
      assume ?l
      then show ?r by (elim exE conjE) (rename_tac atls, rule_tac x = atls in exI, simp add: of_nat_unat_id)
    next
      assume ?r
      then obtain atls where a: "length atls \<le> 31" "list_all (atl_ok lay) atls" "i + 1 + 35 * length atls \<le> length bytes"
       "writable_total atls < 2 ^ 16" "readonly_total atls < 2 ^ 16"
       "w = [of_nat (length atls)] @ concat (map enc_atl atls)" "f = address_table_lookup_frame_of (i + 1) atls" by blast
      have "unat (of_nat (length atls) :: u8) = length atls" using a(1) by (intro unat_of_nat_small) simp
      with a show ?l by - (rule exI [of _ "of_nat (length atls)"], rule exI [of _ "[of_nat (length atls)]"],
          rule exI [of _ "concat (map enc_atl atls)"], auto)
    qed
  qed
qed

lemma format_atl:
  assumes lay: "layout_ok lay"
  shows "format_reader (read_atl lay) (\<lambda>bytes i atl w. atl_ok lay atl \<and> w = enc_atl atl)"
proof -
  have key: "unat (size_of_Pubkey lay) < 2 ^ 63" by (simp add: layout_sizes [OF lay])
  have eq: "read_atl lay = pbind (read_type id (size_of_Pubkey lay)) (\<lambda>k. pbind (pbind optimized_read_compressed_u16 (read_slice_data hd 1))
      (\<lambda>x. pbind (pbind optimized_read_compressed_u16 (read_slice_data hd 1))
      (\<lambda>y. preturn \<lparr>account_key = k, writable_indexes = x, readonly_indexes = y\<rparr>)))"
    by (simp add: read_atl_def pbind_assoc)
  show ?thesis unfolding eq
    by (rule format_cong [OF format_bind [OF format_value [OF key] format_seq [OF format_vec format_map [OF format_vec]]]])
      (rename_tac atl w, case_tac atl, unfold atl_ok_def enc_atl_def id_apply,
        simp only: svm_message_address_table_lookup.simps, blast)
qed

lemma format_blockhash:
  assumes lay: "layout_ok lay"
  shows "format_reader (advance_offset_for_type (size_of_Hash lay)) (\<lambda>bytes i y w. length w = 32)"
  using format_type [of "size_of_Hash lay"] layout_sizes [OF lay] by simp

end
