(* ===== verification/Tx_View.thy ===== *)
theory Tx_View
  imports Tx_Format
begin

text \<open>
  \<open>TransactionFrame\<close>, \<open>TransactionView\<close> and the sanitization of a view
  (\<^verbatim>\<open>transaction-view/src/transaction_frame.rs\<close>, \<^verbatim>\<open>transaction_view.rs\<close>, \<^verbatim>\<open>sanitize.rs\<close>).

  A container of transaction data is the bytes it gives. The accessors that build a slice from raw
  parts are partial: \<open>None\<close> stands for a slice that leaves the memory of \<open>bytes\<close>.
\<close>

section \<open>transaction\_frame.rs\<close>

record transaction_frame =
  tf_signature :: signature_frame
  tf_message_header :: message_header_frame
  tf_static_account_keys :: static_account_keys_frame
  tf_recent_blockhash_offset :: u16
  tf_instructions :: instructions_frame
  tf_address_table_lookup :: address_table_lookup_frame

definition legacy_address_table_lookup_frame :: address_table_lookup_frame where
  "legacy_address_table_lookup_frame = \<lparr>af_num_address_table_lookups = 0, af_offset = 0,
     af_total_writable_lookup_accounts = 0, af_total_readonly_lookup_accounts = 0\<rparr>"

definition parse_transaction_frame :: "layout \<Rightarrow> transaction_frame reader" where
  "parse_transaction_frame lay =
     pbind (signature_frame_try_new lay) (\<lambda>signature.
     pbind (message_header_frame_try_new lay) (\<lambda>message_header.
     pbind (static_account_keys_frame_try_new lay) (\<lambda>static_account_keys.
     pbind poffset (\<lambda>recent_blockhash_offset.
     pbind (advance_offset_for_type (size_of_Hash lay)) (\<lambda>_.
     pbind instructions_frame_try_new (\<lambda>instructions.
     pbind
       (case hf_version message_header of
          Legacy \<Rightarrow> preturn legacy_address_table_lookup_frame
        | V0 \<Rightarrow> address_table_lookup_frame_try_new lay) (\<lambda>address_table_lookup.
     preturn \<lparr>tf_signature = signature, tf_message_header = message_header,
       tf_static_account_keys = static_account_keys, tf_recent_blockhash_offset = ucast recent_blockhash_offset,
       tf_instructions = instructions, tf_address_table_lookup = address_table_lookup\<rparr>)))))))"

text \<open>The whole slice must have been parsed.\<close>

definition transaction_frame_try_new :: "layout \<Rightarrow> u8 list \<Rightarrow> transaction_view_error + transaction_frame" where
  "transaction_frame_try_new lay bytes =
     (case parse_transaction_frame lay bytes 0 of
        (Inl e, _) \<Rightarrow> Inl e
      | (Inr frame, offset) \<Rightarrow> if offset \<noteq> of_nat (length bytes) then Inl ParseError else Inr frame)"

text \<open>\<open>slice::from_raw_parts\<close> on the memory of \<open>bytes\<close>.\<close>

definition from_raw_parts :: "u8 list \<Rightarrow> usize \<Rightarrow> usize \<Rightarrow> usize \<Rightarrow> u8 list list option" where
  "from_raw_parts bytes size_of offset len =
     (if unat offset + unat len * unat size_of \<le> length bytes
      then Some (elements id (unat size_of) (unat len) (drop (unat offset) bytes))
      else None)"

definition frame_signatures :: "layout \<Rightarrow> transaction_frame \<Rightarrow> u8 list \<Rightarrow> signature_bytes list option" where
  "frame_signatures lay self bytes =
     from_raw_parts bytes (size_of_Signature lay) (ucast (sf_offset (tf_signature self)))
       (ucast (sf_num_signatures (tf_signature self)))"

definition frame_static_account_keys :: "layout \<Rightarrow> transaction_frame \<Rightarrow> u8 list \<Rightarrow> pubkey_bytes list option" where
  "frame_static_account_keys lay self bytes =
     from_raw_parts bytes (size_of_Pubkey lay) (ucast (kf_offset (tf_static_account_keys self)))
       (ucast (kf_num_static_accounts (tf_static_account_keys self)))"

definition frame_recent_blockhash :: "layout \<Rightarrow> transaction_frame \<Rightarrow> u8 list \<Rightarrow> hash_bytes option" where
  "frame_recent_blockhash lay self bytes =
     map_option hd (from_raw_parts bytes (size_of_Hash lay) (ucast (tf_recent_blockhash_offset self)) 1)"

definition frame_instructions_iter :: "transaction_frame \<Rightarrow> u8 list \<Rightarrow> instructions_iterator" where
  "frame_instructions_iter self bytes = \<lparr>ii_bytes = bytes, ii_offset = ucast (if_offset (tf_instructions self)),
     ii_num_instructions = if_num_instructions (tf_instructions self), ii_index = 0\<rparr>"

definition frame_address_table_lookup_iter :: "transaction_frame \<Rightarrow> u8 list \<Rightarrow> address_table_lookup_iterator" where
  "frame_address_table_lookup_iter self bytes = \<lparr>ai_bytes = bytes, ai_offset = ucast (af_offset (tf_address_table_lookup self)),
     ai_num_address_table_lookups = af_num_address_table_lookups (tf_address_table_lookup self), ai_index = 0\<rparr>"

section \<open>transaction\_view.rs\<close>

record transaction_view =
  tv_data :: "u8 list"
  tv_frame :: transaction_frame

definition try_new_unsanitized :: "layout \<Rightarrow> u8 list \<Rightarrow> transaction_view_error + transaction_view" where
  "try_new_unsanitized lay data =
     rbind (transaction_frame_try_new lay data) (\<lambda>frame. Inr \<lparr>tv_data = data, tv_frame = frame\<rparr>)"

definition num_signatures :: "transaction_view \<Rightarrow> u8" where
  "num_signatures self = sf_num_signatures (tf_signature (tv_frame self))"

definition version :: "transaction_view \<Rightarrow> transaction_version" where
  "version self = hf_version (tf_message_header (tv_frame self))"

definition num_required_signatures :: "transaction_view \<Rightarrow> u8" where
  "num_required_signatures self = hf_num_required_signatures (tf_message_header (tv_frame self))"

definition num_readonly_signed_static_accounts :: "transaction_view \<Rightarrow> u8" where
  "num_readonly_signed_static_accounts self = hf_num_readonly_signed_accounts (tf_message_header (tv_frame self))"

definition num_readonly_unsigned_static_accounts :: "transaction_view \<Rightarrow> u8" where
  "num_readonly_unsigned_static_accounts self = hf_num_readonly_unsigned_accounts (tf_message_header (tv_frame self))"

definition num_static_account_keys :: "transaction_view \<Rightarrow> u8" where
  "num_static_account_keys self = kf_num_static_accounts (tf_static_account_keys (tv_frame self))"

definition num_instructions :: "transaction_view \<Rightarrow> u16" where
  "num_instructions self = if_num_instructions (tf_instructions (tv_frame self))"

definition num_address_table_lookups :: "transaction_view \<Rightarrow> u8" where
  "num_address_table_lookups self = af_num_address_table_lookups (tf_address_table_lookup (tv_frame self))"

definition total_writable_lookup_accounts :: "transaction_view \<Rightarrow> u16" where
  "total_writable_lookup_accounts self = af_total_writable_lookup_accounts (tf_address_table_lookup (tv_frame self))"

definition total_readonly_lookup_accounts :: "transaction_view \<Rightarrow> u16" where
  "total_readonly_lookup_accounts self = af_total_readonly_lookup_accounts (tf_address_table_lookup (tv_frame self))"

definition message_offset :: "transaction_view \<Rightarrow> u16" where
  "message_offset self = hf_offset (tf_message_header (tv_frame self))"

definition signatures :: "layout \<Rightarrow> transaction_view \<Rightarrow> signature_bytes list option" where
  "signatures lay self = frame_signatures lay (tv_frame self) (tv_data self)"

definition static_account_keys :: "layout \<Rightarrow> transaction_view \<Rightarrow> pubkey_bytes list option" where
  "static_account_keys lay self = frame_static_account_keys lay (tv_frame self) (tv_data self)"

definition recent_blockhash :: "layout \<Rightarrow> transaction_view \<Rightarrow> hash_bytes option" where
  "recent_blockhash lay self = frame_recent_blockhash lay (tv_frame self) (tv_data self)"

definition instructions_iter :: "transaction_view \<Rightarrow> instructions_iterator" where
  "instructions_iter self = frame_instructions_iter (tv_frame self) (tv_data self)"

definition address_table_lookup_iter :: "transaction_view \<Rightarrow> address_table_lookup_iterator" where
  "address_table_lookup_iter self = frame_address_table_lookup_iter (tv_frame self) (tv_data self)"

text \<open>Slicing panics when the start lies behind the end.\<close>

definition message_data :: "transaction_view \<Rightarrow> u8 list option" where
  "message_data self =
     (let start = unat (message_offset self) in
      if start \<le> length (tv_data self) then Some (drop start (tv_data self)) else None)"

text \<open>A \<open>for\<close> loop over an iterator sees the items up to the first \<open>None\<close>.\<close>

function instructions_collect :: "instructions_iterator \<Rightarrow> svm_instruction list" where
  "instructions_collect self =
     (case instructions_iterator_next self of
        (None, _) \<Rightarrow> []
      | (Some ix, self') \<Rightarrow> ix # instructions_collect self')"
  by pat_completeness auto

function address_table_lookup_collect ::
  "layout \<Rightarrow> address_table_lookup_iterator \<Rightarrow> svm_message_address_table_lookup list" where
  "address_table_lookup_collect lay self =
     (case address_table_lookup_iterator_next lay self of
        (None, _) \<Rightarrow> []
      | (Some atl, self') \<Rightarrow> atl # address_table_lookup_collect lay self')"
  by pat_completeness auto

lemma next_index_less: "(a :: 'a::len word) < b \<Longrightarrow> unat b - unat (a + 1) < unat b - unat a"
proof -
  assume "a < b"
  then have "unat a < unat b" by (simp add: word_less_nat_alt)
  moreover from this have "Suc (unat a) mod 2 ^ LENGTH('a) = Suc (unat a)" by (intro mod_less le_less_trans [OF Suc_leI unat_less_pow])
  ultimately show ?thesis by (simp add: unat_word_ariths)
qed

termination instructions_collect
  by (relation "measure (\<lambda>it. unat (ii_num_instructions it) - unat (ii_index it))")
    (auto simp: instructions_iterator_next_def Let_def next_index_less split: if_splits prod.splits sum.splits)

termination address_table_lookup_collect
  by (relation "measure (\<lambda>(_, it). unat (ai_num_address_table_lookups it) - unat (ai_index it))")
    (auto simp: address_table_lookup_iterator_next_def Let_def next_index_less split: if_splits prod.splits sum.splits)

declare instructions_collect.simps [simp del]
declare address_table_lookup_collect.simps [simp del]

text \<open>Those that rely on sanitization.\<close>

definition program_instructions :: "layout \<Rightarrow> transaction_view \<Rightarrow> (pubkey_bytes \<times> svm_instruction) list option" where
  "program_instructions lay self =
     those (map (\<lambda>ix. do {
         keys \<leftarrow> static_account_keys lay self;
         program_id \<leftarrow> (if unat (program_id_index ix) < length keys then Some (keys ! unat (program_id_index ix)) else None);
         Some (program_id, ix)
       }) (instructions_collect (instructions_iter self)))"

definition num_static_unsigned_static_accounts :: "transaction_view \<Rightarrow> u8" where
  "num_static_unsigned_static_accounts self = num_static_account_keys self - num_required_signatures self"

definition num_writable_unsigned_static_accounts :: "transaction_view \<Rightarrow> u8" where
  "num_writable_unsigned_static_accounts self =
     num_static_unsigned_static_accounts self - num_readonly_unsigned_static_accounts self"

definition num_writable_signed_static_accounts :: "transaction_view \<Rightarrow> u8" where
  "num_writable_signed_static_accounts self = num_required_signatures self - num_readonly_signed_static_accounts self"

definition total_num_accounts :: "transaction_view \<Rightarrow> u16" where
  "total_num_accounts self =
     ucast (num_static_account_keys self) + total_writable_lookup_accounts self + total_readonly_lookup_accounts self"

definition num_requested_write_locks :: "transaction_view \<Rightarrow> u64" where
  "num_requested_write_locks self =
     ucast (ucast (num_static_account_keys self - num_readonly_signed_static_accounts self -
              num_readonly_unsigned_static_accounts self) + total_writable_lookup_accounts self)"

section \<open>sanitize.rs\<close>

type_synonym check = "transaction_view_error + unit"

definition sanitize_signatures :: "transaction_view \<Rightarrow> check" where
  "sanitize_signatures view =
     (if num_signatures view \<noteq> num_required_signatures view then Inl SanitizeError
      else if num_static_account_keys view < num_signatures view then Inl SanitizeError
      else Inr ())"

definition total_number_of_accounts :: "transaction_view \<Rightarrow> u16" where
  "total_number_of_accounts view =
     saturating_add (saturating_add (ucast (num_static_account_keys view)) (total_writable_lookup_accounts view))
       (total_readonly_lookup_accounts view)"

definition sanitize_account_access :: "transaction_view \<Rightarrow> check" where
  "sanitize_account_access view =
     (if num_readonly_unsigned_static_accounts view > num_static_account_keys view - num_required_signatures view
      then Inl SanitizeError
      else if num_readonly_signed_static_accounts view \<ge> num_required_signatures view then Inl SanitizeError
      else if total_number_of_accounts view > 256 then Inl SanitizeError
      else Inr ())"

fun check_account_indexes :: "u8 \<Rightarrow> u8 list \<Rightarrow> check" where
  "check_account_indexes max_account_index [] = Inr ()"
| "check_account_indexes max_account_index (account_index # rest) =
     (if account_index > max_account_index then Inl SanitizeError
      else check_account_indexes max_account_index rest)"

fun check_instructions :: "u8 \<Rightarrow> u8 \<Rightarrow> svm_instruction list \<Rightarrow> check" where
  "check_instructions max_program_id_index max_account_index [] = Inr ()"
| "check_instructions max_program_id_index max_account_index (instruction # rest) =
     (if program_id_index instruction > max_program_id_index then Inl SanitizeError
      else if program_id_index instruction = 0 then Inl SanitizeError
      else rbind (check_account_indexes max_account_index (ix_accounts instruction)) (\<lambda>_.
           check_instructions max_program_id_index max_account_index rest))"

definition sanitize_instructions :: "transaction_view \<Rightarrow> check" where
  "sanitize_instructions view =
     (let max_program_id_index = num_static_account_keys view - 1;
          max_account_index = ucast (total_number_of_accounts view - 1)
      in check_instructions max_program_id_index max_account_index (instructions_collect (instructions_iter view)))"

fun check_address_table_lookups :: "svm_message_address_table_lookup list \<Rightarrow> check" where
  "check_address_table_lookups [] = Inr ()"
| "check_address_table_lookups (atl # rest) =
     (if writable_indexes atl = [] \<and> readonly_indexes atl = [] then Inl SanitizeError
      else check_address_table_lookups rest)"

definition sanitize_address_table_lookups :: "layout \<Rightarrow> transaction_view \<Rightarrow> check" where
  "sanitize_address_table_lookups lay view =
     check_address_table_lookups (address_table_lookup_collect lay (address_table_lookup_iter view))"

definition sanitize :: "layout \<Rightarrow> transaction_view \<Rightarrow> check" where
  "sanitize lay view =
     rbind (sanitize_signatures view) (\<lambda>_.
     rbind (sanitize_account_access view) (\<lambda>_.
     rbind (sanitize_instructions view) (\<lambda>_.
     sanitize_address_table_lookups lay view)))"

definition view_sanitize :: "layout \<Rightarrow> transaction_view \<Rightarrow> transaction_view_error + transaction_view" where
  "view_sanitize lay self =
     rbind (sanitize lay self) (\<lambda>_. Inr \<lparr>tv_data = tv_data self, tv_frame = tv_frame self\<rparr>)"

definition try_new_sanitized :: "layout \<Rightarrow> u8 list \<Rightarrow> transaction_view_error + transaction_view" where
  "try_new_sanitized lay data = rbind (try_new_unsanitized lay data) (view_sanitize lay)"

end
