(* ===== verification/Tx_Correct.thy ===== *)
theory Tx_Correct
  imports Tx_View
begin

text \<open>
  The transaction view against its specification: an abstract transaction, its encoding, and the
  frame that describes the encoding. Parsing succeeds exactly on the encodings, the accessors give
  back the parts of the abstract transaction, and sanitization accepts exactly the well-formed ones.
\<close>

section \<open>Abstract transactions\<close>

record message_header =
  mh_version :: transaction_version
  mh_num_required_signatures :: u8
  mh_num_readonly_signed_accounts :: u8
  mh_num_readonly_unsigned_accounts :: u8

record transaction =
  tx_signatures :: "signature_bytes list"
  tx_header :: message_header
  tx_account_keys :: "pubkey_bytes list"
  tx_recent_blockhash :: hash_bytes
  tx_instructions :: "svm_instruction list"
  tx_lookups :: "svm_message_address_table_lookup list"

definition enc_signatures :: "signature_bytes list \<Rightarrow> u8 list" where
  "enc_signatures sigs = [of_nat (length sigs)] @ concat sigs"

definition enc_header :: "message_header \<Rightarrow> u8 list" where
  "enc_header h = version_prefix (mh_version h) @ [mh_num_required_signatures h] @
     [mh_num_readonly_signed_accounts h] @ [mh_num_readonly_unsigned_accounts h]"

definition enc_instructions :: "svm_instruction list \<Rightarrow> u8 list" where
  "enc_instructions ixs = encode_u16 (length ixs) @ concat (map enc_instruction ixs)"

definition enc_lookups :: "transaction_version \<Rightarrow> svm_message_address_table_lookup list \<Rightarrow> u8 list" where
  "enc_lookups v atls = (case v of Legacy \<Rightarrow> [] | V0 \<Rightarrow> [of_nat (length atls)] @ concat (map enc_atl atls))"

definition enc_transaction :: "transaction \<Rightarrow> u8 list" where
  "enc_transaction tx = enc_signatures (tx_signatures tx) @ enc_header (tx_header tx) @
     enc_signatures (tx_account_keys tx) @ tx_recent_blockhash tx @ enc_instructions (tx_instructions tx) @
     enc_lookups (mh_version (tx_header tx)) (tx_lookups tx)"

text \<open>What the parser requires of each part. The last condition on lookups is the check for the
  minimal size of 35 bytes per lookup.\<close>

definition signatures_ok :: "signature_bytes list \<Rightarrow> bool" where
  "signatures_ok sigs \<longleftrightarrow> 0 < length sigs \<and> length sigs \<le> 12 \<and> list_all (\<lambda>s. length s = 64) sigs"

definition header_ok :: "message_header \<Rightarrow> bool" where
  "header_ok h \<longleftrightarrow> (mh_version h = Legacy \<longrightarrow> unat (mh_num_required_signatures h) < 128)"

definition keys_ok :: "pubkey_bytes list \<Rightarrow> bool" where
  "keys_ok keys \<longleftrightarrow> 0 < length keys \<and> length keys \<le> 38 \<and> list_all (\<lambda>k. length k = 32) keys"

definition instructions_ok :: "svm_instruction list \<Rightarrow> bool" where
  "instructions_ok ixs \<longleftrightarrow> length ixs < 2 ^ 14 \<and> list_all instruction_ok ixs"

definition lookups_ok :: "layout \<Rightarrow> transaction_version \<Rightarrow> svm_message_address_table_lookup list \<Rightarrow> bool" where
  "lookups_ok lay v atls \<longleftrightarrow>
     (case v of Legacy \<Rightarrow> atls = []
      | V0 \<Rightarrow> length atls \<le> 31 \<and> list_all (atl_ok lay) atls \<and> writable_total atls < 2 ^ 16 \<and> readonly_total atls < 2 ^ 16)"

definition parts_ok :: "layout \<Rightarrow> transaction \<Rightarrow> bool" where
  "parts_ok lay tx \<longleftrightarrow> signatures_ok (tx_signatures tx) \<and> header_ok (tx_header tx) \<and> keys_ok (tx_account_keys tx) \<and>
     length (tx_recent_blockhash tx) = 32 \<and> instructions_ok (tx_instructions tx) \<and>
     lookups_ok lay (mh_version (tx_header tx)) (tx_lookups tx)"

definition transaction_ok :: "layout \<Rightarrow> transaction \<Rightarrow> bool" where
  "transaction_ok lay tx \<longleftrightarrow> parts_ok lay tx \<and> 35 * length (tx_lookups tx) \<le> length (concat (map enc_atl (tx_lookups tx)))"

section \<open>The frame of a transaction\<close>

definition header_frame :: "nat \<Rightarrow> message_header \<Rightarrow> message_header_frame" where
  "header_frame i h = \<lparr>hf_offset = of_nat i, hf_version = mh_version h,
     hf_num_required_signatures = mh_num_required_signatures h,
     hf_num_readonly_signed_accounts = mh_num_readonly_signed_accounts h,
     hf_num_readonly_unsigned_accounts = mh_num_readonly_unsigned_accounts h\<rparr>"

definition lookups_frame :: "nat \<Rightarrow> transaction_version \<Rightarrow> svm_message_address_table_lookup list \<Rightarrow> address_table_lookup_frame" where
  "lookups_frame i v atls =
     (case v of Legacy \<Rightarrow> legacy_address_table_lookup_frame | V0 \<Rightarrow> address_table_lookup_frame_of (i + 1) atls)"

definition header_pos :: "transaction \<Rightarrow> nat" where
  "header_pos tx = length (enc_signatures (tx_signatures tx))"

definition keys_pos :: "transaction \<Rightarrow> nat" where
  "keys_pos tx = header_pos tx + length (enc_header (tx_header tx))"

definition blockhash_pos :: "transaction \<Rightarrow> nat" where
  "blockhash_pos tx = keys_pos tx + length (enc_signatures (tx_account_keys tx))"

definition instructions_pos :: "transaction \<Rightarrow> nat" where
  "instructions_pos tx = blockhash_pos tx + length (tx_recent_blockhash tx)"

definition lookups_pos :: "transaction \<Rightarrow> nat" where
  "lookups_pos tx = instructions_pos tx + length (enc_instructions (tx_instructions tx))"

lemmas pos_defs = header_pos_def keys_pos_def blockhash_pos_def instructions_pos_def lookups_pos_def

definition frame_at :: "nat \<Rightarrow> transaction \<Rightarrow> transaction_frame" where
  "frame_at i tx = \<lparr>
     tf_signature = \<lparr>sf_num_signatures = of_nat (length (tx_signatures tx)), sf_offset = of_nat (i + 1)\<rparr>,
     tf_message_header = header_frame (i + header_pos tx) (tx_header tx),
     tf_static_account_keys = \<lparr>kf_num_static_accounts = of_nat (length (tx_account_keys tx)),
       kf_offset = of_nat (i + keys_pos tx + 1)\<rparr>,
     tf_recent_blockhash_offset = of_nat (i + blockhash_pos tx),
     tf_instructions = instructions_frame_of (i + instructions_pos tx + length (encode_u16 (length (tx_instructions tx))))
       (tx_instructions tx),
     tf_address_table_lookup = lookups_frame (i + lookups_pos tx) (mh_version (tx_header tx)) (tx_lookups tx)\<rparr>"

section \<open>Parsing\<close>

text \<open>A part with its frame, and the parts behind it.\<close>

lemma format_part:
  assumes "format_reader p (\<lambda>bytes i f w. \<exists>x. ok x \<and> w = e x \<and> f = fr i x)"
    and "\<And>i x. format_reader (q (fr i x)) (F i x)"
  shows "format_reader (pbind p q) (\<lambda>bytes i y w. \<exists>x u. ok x \<and> w = e x @ u \<and> F i x bytes (i + length (e x)) y u)"
proof
  fix bytes i y and off :: usize assume b: "slice_ok bytes" and i: "i \<le> length bytes"
  have app: "bytes_at bytes i (e x) \<and> bytes_at bytes (i + length (e x)) u \<and> off = of_nat (i + length (e x) + length u) \<longleftrightarrow>
      bytes_at bytes i (e x @ u) \<and> off = of_nat (i + length (e x @ u))" for x u
    by (auto simp: bytes_at_append add.assoc)
  have "pbind p q bytes (of_nat i) = (Inr y, off) \<longleftrightarrow>
      (\<exists>f o1. p bytes (of_nat i) = (Inr f, o1) \<and> q f bytes o1 = (Inr y, off))"
    by (auto simp: pbind_def split: prod.splits sum.splits)
  also have "\<dots> \<longleftrightarrow> (\<exists>x. ok x \<and> bytes_at bytes i (e x) \<and> q (fr i x) bytes (of_nat (i + length (e x))) = (Inr y, off))"
    unfolding format_reader.reads [OF assms(1) b i] by blast
  also have "\<dots> \<longleftrightarrow> (\<exists>x. ok x \<and> bytes_at bytes i (e x) \<and> (\<exists>u. F i x bytes (i + length (e x)) y u \<and>
      bytes_at bytes (i + length (e x)) u \<and> off = of_nat (i + length (e x) + length u)))"
    using format_reader.reads [OF assms(2) b bytes_at_bound] by blast
  also have "\<dots> \<longleftrightarrow> (\<exists>w. (\<exists>x u. ok x \<and> w = e x @ u \<and> F i x bytes (i + length (e x)) y u) \<and>
      bytes_at bytes i w \<and> off = of_nat (i + length w))"
    using app by blast
  finally show "pbind p q bytes (of_nat i) = (Inr y, off) \<longleftrightarrow> (\<exists>w. (\<exists>x u. ok x \<and> w = e x @ u \<and>
      F i x bytes (i + length (e x)) y u) \<and> bytes_at bytes i w \<and> off = of_nat (i + length w))" .
qed

lemma part_signatures: "layout_ok lay \<Longrightarrow> format_reader (signature_frame_try_new lay)
    (\<lambda>bytes i f w. \<exists>sigs. signatures_ok sigs \<and> w = enc_signatures sigs \<and>
      f = \<lparr>sf_num_signatures = of_nat (length sigs), sf_offset = of_nat (i + 1)\<rparr>)"
  by (rule format_cong [OF format_signature_frame]) (auto simp: signatures_ok_def enc_signatures_def)

lemma part_keys: "layout_ok lay \<Longrightarrow> format_reader (static_account_keys_frame_try_new lay)
    (\<lambda>bytes i f w. \<exists>keys. keys_ok keys \<and> w = enc_signatures keys \<and>
      f = \<lparr>kf_num_static_accounts = of_nat (length keys), kf_offset = of_nat (i + 1)\<rparr>)"
  by (rule format_cong [OF format_static_account_keys_frame]) (auto simp: keys_ok_def enc_signatures_def)

lemma part_header:
  assumes "layout_ok lay"
  shows "format_reader (message_header_frame_try_new lay)
    (\<lambda>bytes i f w. \<exists>h. header_ok h \<and> w = enc_header h \<and> f = header_frame i h)"
proof (rule format_cong [OF format_message_header_frame [OF assms]])
  fix i f w
  obtain m v n rs ru where f: "f = \<lparr>hf_offset = m, hf_version = v, hf_num_required_signatures = n,
    hf_num_readonly_signed_accounts = rs, hf_num_readonly_unsigned_accounts = ru\<rparr>" by (cases f)
  have ex: "(\<exists>h. P h) \<longleftrightarrow> (\<exists>v n rs ru. P \<lparr>mh_version = v, mh_num_required_signatures = n,
      mh_num_readonly_signed_accounts = rs, mh_num_readonly_unsigned_accounts = ru\<rparr>)" for P :: "message_header \<Rightarrow> bool"
    by (metis message_header.cases)
  show "hf_offset f = of_nat i \<and> (hf_version f = Legacy \<longrightarrow> unat (hf_num_required_signatures f) < 128) \<and>
      w = version_prefix (hf_version f) @ [hf_num_required_signatures f] @
        [hf_num_readonly_signed_accounts f] @ [hf_num_readonly_unsigned_accounts f] \<longleftrightarrow>
    (\<exists>h. header_ok h \<and> w = enc_header h \<and> f = header_frame i h)"
    unfolding f ex by (auto simp: header_ok_def enc_header_def header_frame_def)
qed

lemma part_instructions: "format_reader instructions_frame_try_new
    (\<lambda>bytes i f w. \<exists>ixs. instructions_ok ixs \<and> w = enc_instructions ixs \<and>
      f = instructions_frame_of (i + length (encode_u16 (length ixs))) ixs)"
  by (rule format_cong [OF format_instructions_frame]) (auto simp: instructions_ok_def enc_instructions_def)

lemma part_lookups:
  assumes "layout_ok lay"
  shows "format_reader (case v of Legacy \<Rightarrow> preturn legacy_address_table_lookup_frame | V0 \<Rightarrow> address_table_lookup_frame_try_new lay)
    (\<lambda>bytes i f w. \<exists>atls. lookups_ok lay v atls \<and> (v = V0 \<longrightarrow> i + 1 + 35 * length atls \<le> length bytes) \<and>
      w = enc_lookups v atls \<and> f = lookups_frame i v atls)"
proof (cases v)
  case Legacy
  then show ?thesis by (auto simp: lookups_ok_def enc_lookups_def lookups_frame_def intro!: format_cong [OF format_return])
next
  case V0
  then show ?thesis using assms
    by (auto simp: lookups_ok_def enc_lookups_def lookups_frame_def intro!: format_cong [OF format_address_table_lookup_frame])
qed

lemma format_at_offset:
  "(\<And>j. format_reader (q (of_nat j)) (F j)) \<Longrightarrow> format_reader (pbind poffset q) (\<lambda>bytes i y w. F i bytes i y w)"
  unfolding format_reader_def pbind_def poffset_def by simp

lemma part_blockhash: "layout_ok lay \<Longrightarrow> format_reader (advance_offset_for_type (size_of_Hash lay))
    (\<lambda>bytes i f w. \<exists>bh. length bh = 32 \<and> w = bh)"
  by (rule format_cong [OF format_blockhash]) auto

lemma hf_version_header_frame: "hf_version (header_frame i h) = mh_version h"
  by (simp add: header_frame_def)

lemma ex_transaction: "(\<exists>tx :: transaction. P tx) \<longleftrightarrow> (\<exists>sigs h keys bh ixs atls. P \<lparr>tx_signatures = sigs, tx_header = h,
    tx_account_keys = keys, tx_recent_blockhash = bh, tx_instructions = ixs, tx_lookups = atls\<rparr>)"
  by (metis transaction.cases)

text \<open>The parser of the whole frame.\<close>

lemma format_transaction_frame:
  assumes "layout_ok lay"
  shows "format_reader (parse_transaction_frame lay) (\<lambda>bytes i f w. \<exists>tx. parts_ok lay tx \<and>
    (mh_version (tx_header tx) = V0 \<longrightarrow> i + lookups_pos tx + 1 + 35 * length (tx_lookups tx) \<le> length bytes) \<and>
    w = enc_transaction tx \<and> f = frame_at i tx)"
  unfolding parse_transaction_frame_def
  apply (rule format_cong [OF format_part [OF part_signatures [OF assms] format_part [OF part_header [OF assms]
        format_part [OF part_keys [OF assms] format_at_offset [OF format_skip [OF part_blockhash [OF assms]
        format_part [OF part_instructions format_map [OF part_lookups [OF assms]]]]]]]]])
  apply (unfold ex_transaction parts_ok_def enc_transaction_def frame_at_def pos_defs)
  apply (simp only: transaction.simps add.assoc ucast_offset hf_version_header_frame)
  apply (rule iffI)
  subgoal by (elim exE conjE) (hypsubst, intro exI conjI, (assumption | rule refl)+)
  subgoal by (elim exE conjE) (hypsubst, intro exI conjI, (assumption | rule refl)+)
  done

lemma enc_transaction_length:
  "length (enc_transaction tx) = lookups_pos tx + length (enc_lookups (mh_version (tx_header tx)) (tx_lookups tx))"
  by (simp add: enc_transaction_def pos_defs)

lemma transaction_ok_iff:
  "transaction_ok lay tx \<longleftrightarrow> parts_ok lay tx \<and> (mh_version (tx_header tx) = V0 \<longrightarrow>
     lookups_pos tx + 1 + 35 * length (tx_lookups tx) \<le> length (enc_transaction tx))"
  by (cases "mh_version (tx_header tx)")
    (auto simp: transaction_ok_def enc_transaction_length enc_lookups_def parts_ok_def lookups_ok_def)

lemma transaction_frame_try_new_reads:
  assumes lay: "layout_ok lay" and b: "slice_ok bytes"
  shows "transaction_frame_try_new lay bytes = Inr frame \<longleftrightarrow>
    (\<exists>tx. transaction_ok lay tx \<and> bytes = enc_transaction tx \<and> frame = frame_at 0 tx)"
proof -
  let ?E = "\<lambda>tx. parts_ok lay tx \<and>
    (mh_version (tx_header tx) = V0 \<longrightarrow> 0 + lookups_pos tx + 1 + 35 * length (tx_lookups tx) \<le> length bytes)"
  have whole: "bytes_at bytes 0 w \<and> of_nat (0 + length w) = (of_nat (length bytes) :: usize) \<longleftrightarrow> w = bytes" for w
  proof -
    have "of_nat (length w) = (of_nat (length bytes) :: usize) \<longleftrightarrow> length w = length bytes" if "length w \<le> length bytes"
      using unat_of_nat_index [OF b that] unat_of_nat_index [OF b order.refl] by metis
    then show ?thesis using bytes_at_all [of bytes w] bytes_at_bound [of bytes 0 w] by auto
  qed
  have "transaction_frame_try_new lay bytes = Inr frame \<longleftrightarrow>
      parse_transaction_frame lay bytes (of_nat 0) = (Inr frame, of_nat (length bytes))"
    by (auto simp: transaction_frame_try_new_def split: prod.splits sum.splits if_splits)
  also have "\<dots> \<longleftrightarrow> (\<exists>w. (\<exists>tx. ?E tx \<and> w = enc_transaction tx \<and> frame = frame_at 0 tx) \<and> w = bytes)"
    using format_reader.reads [OF format_transaction_frame [OF lay] b, of 0 frame "of_nat (length bytes)"]
    by (simp flip: whole) metis
  also have "\<dots> \<longleftrightarrow> (\<exists>tx. transaction_ok lay tx \<and> bytes = enc_transaction tx \<and> frame = frame_at 0 tx)"
    unfolding transaction_ok_iff by auto
  finally show ?thesis .
qed

section \<open>Accessors\<close>

lemma raw_parts_concat:
  assumes "list_all (\<lambda>x. length x = unat size_of) xs" and "unat offset = length pre" and "unat len = length xs"
  shows "from_raw_parts (pre @ concat xs @ post) size_of offset len = Some xs"
proof -
  have l: "length (concat xs) = length xs * unat size_of" using ex_chunks assms(1) by blast
  have "elements id (unat size_of) (length xs) (concat xs @ post) = elements id (unat size_of) (length xs) (concat (map id xs))"
    using elements_take [of "length xs" "unat size_of" "concat xs @ post" id] l by simp
  also have "\<dots> = xs" using assms(1) by (intro elements_concat) (auto simp: list_all_iff)
  finally show ?thesis using l assms(2,3) by (simp add: from_raw_parts_def)
qed

lemma unat_stored: "n < 2 ^ 16 \<Longrightarrow> unat (ucast (of_nat n :: u16) :: usize) = n"
  by (simp add: unat_ucast_small unat_of_nat_small)

lemma unat_stored8: "n < 2 ^ 8 \<Longrightarrow> unat (ucast (of_nat n :: u8) :: usize) = n"
  by (simp add: unat_ucast_small unat_of_nat_small)

lemma word_of_stored: "n < 2 ^ 16 \<Longrightarrow> (ucast (of_nat n :: u16) :: usize) = of_nat n"
  using unat_stored by (metis of_nat_unat_id)

text \<open>The iterators give the encoded items.\<close>

lemma instructions_collect_enc:
  assumes "slice_ok bytes" and "bytes_at bytes i (concat (map enc_instruction ixs))" and "list_all instruction_ok ixs"
    and "unat num = unat index + length ixs"
  shows "instructions_collect \<lparr>ii_bytes = bytes, ii_offset = of_nat i, ii_num_instructions = num, ii_index = index\<rparr> = ixs"
  using assms(2-)
proof (induction ixs arbitrary: i index)
  case Nil
  then show ?case by (simp add: instructions_collect.simps instructions_iterator_next_def word_less_nat_alt)
next
  case (Cons ix ixs)
  then have "read_instruction bytes (of_nat i) = (Inr ix, of_nat (i + length (enc_instruction ix)))"
    by (intro format_reader.reads_encoding [OF format_instruction assms(1)]) (auto simp: bytes_at_append)
  moreover have "index < num" using Cons.prems(3) by (simp add: word_less_nat_alt)
  moreover have "unat num = unat (index + 1) + length ixs"
  proof -
    have "unat (index + 1) = Suc (unat index)"
      using Cons.prems(3) unat_less_pow [of num] by (simp add: unat_word_ariths)
    then show ?thesis using Cons.prems(3) by simp
  qed
  moreover note Cons.IH [of "i + length (enc_instruction ix)" "index + 1"] Cons.prems
  ultimately show ?case
    by (simp add: instructions_collect.simps [of "\<lparr>ii_bytes = _, ii_offset = of_nat i, ii_num_instructions = _, ii_index = index\<rparr>"]
        instructions_iterator_next_def bytes_at_append del: of_nat_add)
qed

lemma address_table_lookup_collect_enc:
  assumes lay: "layout_ok lay" and b: "slice_ok bytes" and "bytes_at bytes i (concat (map enc_atl atls))"
    and "list_all (atl_ok lay) atls" and "unat num = unat index + length atls"
  shows "address_table_lookup_collect lay
    \<lparr>ai_bytes = bytes, ai_offset = of_nat i, ai_num_address_table_lookups = num, ai_index = index\<rparr> = atls"
  using assms(3-)
proof (induction atls arbitrary: i index)
  case Nil
  then show ?case by (simp add: address_table_lookup_collect.simps address_table_lookup_iterator_next_def word_less_nat_alt)
next
  case (Cons atl atls)
  then have "read_atl lay bytes (of_nat i) = (Inr atl, of_nat (i + length (enc_atl atl)))"
    by (intro format_reader.reads_encoding [OF format_atl [OF lay] b]) (auto simp: bytes_at_append)
  moreover have "index < num" using Cons.prems(3) by (simp add: word_less_nat_alt)
  moreover have "unat num = unat (index + 1) + length atls"
  proof -
    have "unat (index + 1) = Suc (unat index)"
      using Cons.prems(3) unat_less_pow [of num] by (simp add: unat_word_ariths)
    then show ?thesis using Cons.prems(3) by simp
  qed
  moreover note Cons.IH [of "i + length (enc_atl atl)" "index + 1"] Cons.prems
  ultimately show ?case
    by (simp add: address_table_lookup_collect.simps [of _ "\<lparr>ai_bytes = _, ai_offset = of_nat i, ai_num_address_table_lookups = _, ai_index = index\<rparr>"]
        address_table_lookup_iterator_next_def bytes_at_append del: of_nat_add)
qed

end
