(* ===== verification/Tx_Sanitize.thy ===== *)
theory Tx_Sanitize
  imports Tx_Correct
begin

text \<open>
  The view of an encoded transaction: its accessors, its sanitization, and the properties of parsing.
\<close>

section \<open>The view of an encoded transaction\<close>

definition view_of :: "transaction \<Rightarrow> transaction_view" where
  "view_of tx = \<lparr>tv_data = enc_transaction tx, tv_frame = frame_at 0 tx\<rparr>"

text \<open>A transaction whose encoding has at most \<open>u16::MAX\<close> bytes, so that offsets fit their type.\<close>

definition packet_ok :: "layout \<Rightarrow> transaction \<Rightarrow> bool" where
  "packet_ok lay tx \<longleftrightarrow> layout_ok lay \<and> transaction_ok lay tx \<and> length (enc_transaction tx) < 2 ^ 16"

lemma packet_parts:
  assumes "packet_ok lay tx"
  shows "layout_ok lay" "signatures_ok (tx_signatures tx)" "header_ok (tx_header tx)" "keys_ok (tx_account_keys tx)"
    "length (tx_recent_blockhash tx) = 32" "instructions_ok (tx_instructions tx)"
    "lookups_ok lay (mh_version (tx_header tx)) (tx_lookups tx)" "length (enc_transaction tx) < 2 ^ 16"
  using assms by (simp_all add: packet_ok_def transaction_ok_def parts_ok_def)

lemma packet_counts:
  assumes "packet_ok lay tx"
  shows "0 < length (tx_signatures tx)" "length (tx_signatures tx) \<le> 12"
    "0 < length (tx_account_keys tx)" "length (tx_account_keys tx) \<le> 38" "length (tx_instructions tx) < 2 ^ 14"
    "length (tx_lookups tx) \<le> 31" "writable_total (tx_lookups tx) < 2 ^ 16" "readonly_total (tx_lookups tx) < 2 ^ 16"
    "list_all instruction_ok (tx_instructions tx)" "list_all (atl_ok lay) (tx_lookups tx)"
  using packet_parts [OF assms]
  by (auto simp: signatures_ok_def keys_ok_def instructions_ok_def lookups_ok_def writable_total_def readonly_total_def
      split: transaction_version.splits)

lemma view_counters:
  "num_signatures (view_of tx) = of_nat (length (tx_signatures tx))"
  "version (view_of tx) = mh_version (tx_header tx)"
  "num_required_signatures (view_of tx) = mh_num_required_signatures (tx_header tx)"
  "num_readonly_signed_static_accounts (view_of tx) = mh_num_readonly_signed_accounts (tx_header tx)"
  "num_readonly_unsigned_static_accounts (view_of tx) = mh_num_readonly_unsigned_accounts (tx_header tx)"
  "num_static_account_keys (view_of tx) = of_nat (length (tx_account_keys tx))"
  "num_instructions (view_of tx) = of_nat (length (tx_instructions tx))"
  "message_offset (view_of tx) = of_nat (header_pos tx)"
  by (simp_all add: view_of_def frame_at_def header_frame_def instructions_frame_of_def num_signatures_def version_def
      num_required_signatures_def num_readonly_signed_static_accounts_def num_readonly_unsigned_static_accounts_def
      num_static_account_keys_def num_instructions_def message_offset_def)

lemma view_lookup_counters:
  assumes "packet_ok lay tx"
  shows "num_address_table_lookups (view_of tx) = of_nat (length (tx_lookups tx))"
    "total_writable_lookup_accounts (view_of tx) = of_nat (writable_total (tx_lookups tx))"
    "total_readonly_lookup_accounts (view_of tx) = of_nat (readonly_total (tx_lookups tx))"
  using packet_parts(7) [OF assms]
  by (auto simp: view_of_def frame_at_def lookups_frame_def address_table_lookup_frame_of_def legacy_address_table_lookup_frame_def
      num_address_table_lookups_def total_writable_lookup_accounts_def total_readonly_lookup_accounts_def lookups_ok_def
      writable_total_def readonly_total_def split: transaction_version.splits)

lemma pos_bounds:
  assumes "packet_ok lay tx"
  shows "header_pos tx \<le> keys_pos tx" "keys_pos tx < blockhash_pos tx" "blockhash_pos tx \<le> instructions_pos tx"
    "instructions_pos tx + length (encode_u16 (length (tx_instructions tx))) \<le> lookups_pos tx"
    "lookups_pos tx \<le> length (enc_transaction tx)" "length (enc_transaction tx) < 2 ^ 16"
  using packet_parts(8) [OF assms]
  by (simp_all add: enc_transaction_length pos_defs enc_signatures_def enc_instructions_def)

lemma view_signatures:
  assumes "packet_ok lay tx"
  shows "signatures lay (view_of tx) = Some (tx_signatures tx)"
proof -
  note p = packet_parts [OF assms] packet_counts [OF assms]
  have "from_raw_parts ([of_nat (length (tx_signatures tx))] @ concat (tx_signatures tx) @ drop (header_pos tx) (enc_transaction tx))
      (size_of_Signature lay) (ucast (of_nat 1 :: u16)) (ucast (of_nat (length (tx_signatures tx)) :: u8)) = Some (tx_signatures tx)"
    using p by (intro raw_parts_concat) (simp_all add: signatures_ok_def layout_sizes unat_stored8)
  moreover have "enc_transaction tx =
      [of_nat (length (tx_signatures tx))] @ concat (tx_signatures tx) @ drop (header_pos tx) (enc_transaction tx)"
    by (simp add: enc_transaction_def enc_signatures_def header_pos_def)
  ultimately show ?thesis by (simp add: signatures_def frame_signatures_def view_of_def frame_at_def)
qed

lemma view_keys:
  assumes "packet_ok lay tx"
  shows "static_account_keys lay (view_of tx) = Some (tx_account_keys tx)"
proof -
  note p = packet_parts [OF assms] packet_counts [OF assms] pos_bounds [OF assms]
  let ?pre = "enc_signatures (tx_signatures tx) @ enc_header (tx_header tx) @ [of_nat (length (tx_account_keys tx))]"
  have "from_raw_parts (?pre @ concat (tx_account_keys tx) @ drop (blockhash_pos tx) (enc_transaction tx))
      (size_of_Pubkey lay) (ucast (of_nat (keys_pos tx + 1) :: u16)) (ucast (of_nat (length (tx_account_keys tx)) :: u8)) =
      Some (tx_account_keys tx)"
  proof (rule raw_parts_concat)
    show "unat (ucast (of_nat (keys_pos tx + 1) :: u16) :: usize) = length ?pre"
      using p by (subst unat_stored) (auto simp: keys_pos_def header_pos_def)
  qed (use p in \<open>simp_all add: keys_ok_def layout_sizes unat_stored8\<close>)
  moreover have "enc_transaction tx = ?pre @ concat (tx_account_keys tx) @ drop (blockhash_pos tx) (enc_transaction tx)"
    by (simp add: enc_transaction_def enc_signatures_def pos_defs)
  ultimately show ?thesis by (simp add: static_account_keys_def frame_static_account_keys_def view_of_def frame_at_def)
qed

lemma view_blockhash:
  assumes "packet_ok lay tx"
  shows "recent_blockhash lay (view_of tx) = Some (tx_recent_blockhash tx)"
proof -
  note p = packet_parts [OF assms] pos_bounds [OF assms]
  let ?pre = "enc_signatures (tx_signatures tx) @ enc_header (tx_header tx) @ enc_signatures (tx_account_keys tx)"
  have "from_raw_parts (?pre @ concat [tx_recent_blockhash tx] @ drop (instructions_pos tx) (enc_transaction tx))
      (size_of_Hash lay) (ucast (of_nat (blockhash_pos tx) :: u16)) 1 = Some [tx_recent_blockhash tx]"
  proof (rule raw_parts_concat)
    show "unat (ucast (of_nat (blockhash_pos tx) :: u16) :: usize) = length ?pre"
      using p by (subst unat_stored) (auto simp: pos_defs)
  qed (use p in \<open>simp_all add: layout_sizes\<close>)
  moreover have "enc_transaction tx = ?pre @ concat [tx_recent_blockhash tx] @ drop (instructions_pos tx) (enc_transaction tx)"
    by (simp add: enc_transaction_def pos_defs)
  ultimately show ?thesis by (simp add: recent_blockhash_def frame_recent_blockhash_def view_of_def frame_at_def)
qed

lemma view_message_data:
  assumes "packet_ok lay tx"
  shows "message_data (view_of tx) = Some (enc_header (tx_header tx) @ enc_signatures (tx_account_keys tx) @ tx_recent_blockhash tx @
    enc_instructions (tx_instructions tx) @ enc_lookups (mh_version (tx_header tx)) (tx_lookups tx))"
proof -
  have h: "header_pos tx \<le> length (enc_transaction tx)" "header_pos tx < 2 ^ 16" using pos_bounds [OF assms] by linarith+
  then have "unat (of_nat (header_pos tx) :: u16) = header_pos tx" by (simp add: unat_of_nat_small)
  then have "message_data (view_of tx) = Some (drop (header_pos tx) (enc_transaction tx))"
    using h(1) by (simp add: message_data_def view_counters) (simp add: view_of_def)
  then show ?thesis by (simp add: enc_transaction_def header_pos_def)
qed

lemma packet_slice_ok: "packet_ok lay tx \<Longrightarrow> slice_ok (enc_transaction tx)"
  by (simp add: packet_ok_def)

lemma view_instructions:
  assumes "packet_ok lay tx"
  shows "instructions_collect (instructions_iter (view_of tx)) = tx_instructions tx"
proof -
  note p = packet_parts [OF assms] packet_counts [OF assms] pos_bounds [OF assms]
  define i where "i = instructions_pos tx + length (encode_u16 (length (tx_instructions tx)))"
  have "bytes_at (enc_transaction tx) i (concat (map enc_instruction (tx_instructions tx)))"
    by (simp add: i_def bytes_at_def enc_transaction_def pos_defs enc_instructions_def)
  then have "instructions_collect \<lparr>ii_bytes = enc_transaction tx, ii_offset = of_nat i,
      ii_num_instructions = of_nat (length (tx_instructions tx)), ii_index = 0\<rparr> = tx_instructions tx"
    using p by (intro instructions_collect_enc) (simp_all add: unat_of_nat_small)
  moreover have "(ucast (of_nat i :: u16) :: usize) = of_nat i" using p by (intro word_of_stored) (simp add: i_def)
  ultimately show ?thesis
    by (simp add: instructions_iter_def frame_instructions_iter_def view_of_def frame_at_def instructions_frame_of_def i_def)
qed

lemma view_lookups:
  assumes "packet_ok lay tx"
  shows "address_table_lookup_collect lay (address_table_lookup_iter (view_of tx)) = tx_lookups tx"
proof (cases "mh_version (tx_header tx)")
  case Legacy
  then have "tx_lookups tx = []" using packet_parts(7) [OF assms] by (simp add: lookups_ok_def)
  with Legacy show ?thesis
    by (simp add: address_table_lookup_iter_def frame_address_table_lookup_iter_def view_of_def frame_at_def lookups_frame_def
        legacy_address_table_lookup_frame_def address_table_lookup_collect.simps address_table_lookup_iterator_next_def)
next
  case V0
  note p = packet_parts [OF assms] packet_counts [OF assms] pos_bounds [OF assms]
  define i where "i = lookups_pos tx + 1"
  have e: "enc_lookups V0 (tx_lookups tx) = [of_nat (length (tx_lookups tx))] @ concat (map enc_atl (tx_lookups tx))"
    by (simp add: enc_lookups_def)
  have "bytes_at (enc_transaction tx) i (concat (map enc_atl (tx_lookups tx)))"
    by (simp add: i_def bytes_at_def enc_transaction_def pos_defs V0 e)
  then have "address_table_lookup_collect lay \<lparr>ai_bytes = enc_transaction tx, ai_offset = of_nat i,
      ai_num_address_table_lookups = of_nat (length (tx_lookups tx)), ai_index = 0\<rparr> = tx_lookups tx"
    using p by (intro address_table_lookup_collect_enc) (simp_all add: unat_of_nat_small)
  moreover have "i < 2 ^ 16" using enc_transaction_length [of tx] V0 e p(8) by (simp add: i_def)
  then have "(ucast (of_nat i :: u16) :: usize) = of_nat i" by (rule word_of_stored)
  ultimately show ?thesis using V0
    by (simp add: address_table_lookup_iter_def frame_address_table_lookup_iter_def view_of_def frame_at_def lookups_frame_def
        address_table_lookup_frame_of_def i_def)
qed

section \<open>Sanitization\<close>

definition num_accounts :: "transaction \<Rightarrow> nat" where
  "num_accounts tx = length (tx_account_keys tx) + writable_total (tx_lookups tx) + readonly_total (tx_lookups tx)"

definition signers_ok :: "transaction \<Rightarrow> bool" where
  "signers_ok tx \<longleftrightarrow> (let n = unat (mh_num_required_signatures (tx_header tx)) in
     length (tx_signatures tx) = n \<and> n \<le> length (tx_account_keys tx))"

definition access_ok :: "transaction \<Rightarrow> bool" where
  "access_ok tx \<longleftrightarrow> (let n = unat (mh_num_required_signatures (tx_header tx)) in
     n + unat (mh_num_readonly_unsigned_accounts (tx_header tx)) \<le> length (tx_account_keys tx) \<and>
     unat (mh_num_readonly_signed_accounts (tx_header tx)) < n \<and> num_accounts tx \<le> 256)"

definition instruction_indexes_ok :: "transaction \<Rightarrow> svm_instruction \<Rightarrow> bool" where
  "instruction_indexes_ok tx ix \<longleftrightarrow>
     0 < unat (program_id_index ix) \<and> unat (program_id_index ix) < length (tx_account_keys tx) \<and>
     list_all (\<lambda>a. unat a < num_accounts tx) (ix_accounts ix)"

definition lookup_nonempty :: "svm_message_address_table_lookup \<Rightarrow> bool" where
  "lookup_nonempty atl \<longleftrightarrow> writable_indexes atl \<noteq> [] \<or> readonly_indexes atl \<noteq> []"

definition sanitized :: "transaction \<Rightarrow> bool" where
  "sanitized tx \<longleftrightarrow> signers_ok tx \<and> access_ok tx \<and> list_all (instruction_indexes_ok tx) (tx_instructions tx) \<and>
     list_all lookup_nonempty (tx_lookups tx)"

abbreviation checked :: "bool \<Rightarrow> check" where
  "checked b \<equiv> (if b then Inr () else Inl SanitizeError)"

lemma unat_count8: "n \<le> 38 \<Longrightarrow> unat (of_nat n :: u8) = n"
  by (intro unat_of_nat_small) simp

lemma sanitize_signatures_view:
  assumes "packet_ok lay tx"
  shows "sanitize_signatures (view_of tx) = checked (signers_ok tx)"
  using packet_counts [OF assms]
  by (auto simp: sanitize_signatures_def view_counters signers_ok_def word_less_nat_alt word_unat_eq_iff unat_count8)

lemma total_number_of_accounts_view:
  assumes "packet_ok lay tx"
  shows "unat (total_number_of_accounts (view_of tx)) = min (num_accounts tx) (2 ^ 16 - 1)"
proof -
  note p = packet_counts [OF assms]
  have "unat (ucast (of_nat (length (tx_account_keys tx)) :: u8) :: u16) = length (tx_account_keys tx)"
    using p(4) by (simp add: unat_u8_cast unat_count8)
  moreover have "unat (of_nat (writable_total (tx_lookups tx)) :: u16) = writable_total (tx_lookups tx)"
    "unat (of_nat (readonly_total (tx_lookups tx)) :: u16) = readonly_total (tx_lookups tx)"
    using p(7,8) by (auto intro!: unat_of_nat_small)
  ultimately show ?thesis
    by (simp add: total_number_of_accounts_def view_counters view_lookup_counters [OF assms] unat_saturating_add num_accounts_def)
qed

lemma sanitize_account_access_view:
  assumes "packet_ok lay tx" and "signers_ok tx"
  shows "sanitize_account_access (view_of tx) = checked (access_ok tx)"
proof -
  note p = packet_counts [OF assms(1)]
  let ?n = "mh_num_required_signatures (tx_header tx)" and ?k = "of_nat (length (tx_account_keys tx)) :: u8"
  have k: "unat ?k = length (tx_account_keys tx)" using p(4) by (rule unat_count8)
  have "?n \<le> ?k" using assms(2) k by (simp add: signers_ok_def word_le_nat_alt Let_def)
  then have "unat (?k - ?n) = length (tx_account_keys tx) - unat ?n" "unat ?n \<le> length (tx_account_keys tx)"
    using k by (simp_all add: unat_sub word_le_nat_alt)
  then show ?thesis
    by (auto simp: sanitize_account_access_def view_counters access_ok_def word_less_nat_alt word_le_nat_alt
        total_number_of_accounts_view [OF assms(1)] Let_def)
qed

lemma check_account_indexes_iff: "check_account_indexes m as = checked (list_all (\<lambda>a. a \<le> m) as)"
  by (induction as) (auto simp: not_less)

lemma check_instructions_iff:
  "check_instructions mp ma ixs = checked (list_all (\<lambda>ix. program_id_index ix \<le> mp \<and> program_id_index ix \<noteq> 0 \<and>
     list_all (\<lambda>a. a \<le> ma) (ix_accounts ix)) ixs)"
  by (induction ixs) (auto simp: check_account_indexes_iff not_less)

lemma check_address_table_lookups_iff: "check_address_table_lookups atls = checked (list_all lookup_nonempty atls)"
  by (induction atls) (auto simp: lookup_nonempty_def)

lemma sanitize_instructions_view:
  assumes "packet_ok lay tx" and "access_ok tx"
  shows "sanitize_instructions (view_of tx) = checked (list_all (instruction_indexes_ok tx) (tx_instructions tx))"
proof -
  note p = packet_counts [OF assms(1)]
  let ?t = "total_number_of_accounts (view_of tx)" and ?k = "of_nat (length (tx_account_keys tx)) :: u8"
  have t: "unat ?t = num_accounts tx" "0 < num_accounts tx" "num_accounts tx \<le> 256"
    using total_number_of_accounts_view [OF assms(1)] assms(2) p(3) by (auto simp: access_ok_def num_accounts_def Let_def)
  have "unat (?t - 1) = num_accounts tx - 1" using t by (simp add: unat_sub word_le_nat_alt)
  then have a: "unat (ucast (?t - 1) :: u8) = num_accounts tx - 1" using t by (intro trans [OF unat_ucast_small]) auto
  have k: "unat (?k - 1) = length (tx_account_keys tx) - 1"
  proof -
    have "1 \<le> ?k" using p(3,4) unfolding word_le_nat_alt unat_count8 [OF p(4)] by (simp only: unat_1 Suc_le_eq One_nat_def)
    then show ?thesis by (simp add: unat_sub unat_count8 [OF p(4)])
  qed
  have "(program_id_index ix \<le> ?k - 1 \<and> program_id_index ix \<noteq> 0 \<and> list_all (\<lambda>a. a \<le> ucast (?t - 1)) (ix_accounts ix)) =
      instruction_indexes_ok tx ix" for ix
    using p(3) t(2) a k by (auto simp: instruction_indexes_ok_def word_le_nat_alt list_all_iff simp flip: unat_eq_0)
  then show ?thesis
    by (simp add: sanitize_instructions_def view_counters view_instructions [OF assms(1)] check_instructions_iff)
qed

lemma sanitize_view:
  assumes "packet_ok lay tx"
  shows "sanitize lay (view_of tx) = checked (sanitized tx)"
proof (cases "signers_ok tx \<and> access_ok tx")
  case True
  then show ?thesis
    by (simp add: sanitize_def sanitized_def sanitize_signatures_view [OF assms] sanitize_account_access_view [OF assms]
        sanitize_instructions_view [OF assms] sanitize_address_table_lookups_def view_lookups [OF assms] check_address_table_lookups_iff)
next
  case False
  then show ?thesis
    using sanitize_account_access_view [OF assms] by (auto simp: sanitize_def sanitized_def sanitize_signatures_view [OF assms])
qed

lemma try_new_unsanitized_reads:
  assumes "layout_ok lay" and "length bytes < 2 ^ 16"
  shows "try_new_unsanitized lay bytes = Inr view \<longleftrightarrow> (\<exists>tx. packet_ok lay tx \<and> bytes = enc_transaction tx \<and> view = view_of tx)"
  using transaction_frame_try_new_reads [OF assms(1), of bytes] assms
  by (auto simp: try_new_unsanitized_def rbind_eq_Inr packet_ok_def view_of_def)

text \<open>No packet encodes two transactions.\<close>

lemma enc_transaction_inj:
  assumes "packet_ok lay tx" and "packet_ok lay tx'" and "enc_transaction tx = enc_transaction tx'"
  shows "tx = tx'"
proof -
  have lay: "layout_ok lay" "length (enc_transaction tx) < 2 ^ 16" using assms(1) by (simp_all add: packet_ok_def)
  have "try_new_unsanitized lay (enc_transaction tx) = Inr (view_of tx)"
    "try_new_unsanitized lay (enc_transaction tx) = Inr (view_of tx')"
    using try_new_unsanitized_reads [OF lay] assms by blast+
  then have v: "view_of tx = view_of tx'" by simp
  have "tx_header tx = tx_header tx'"
    using v view_counters(2-5) [of tx] view_counters(2-5) [of tx'] by (intro message_header.equality) simp_all
  moreover note view_signatures [OF assms(1)] view_signatures [OF assms(2)] view_keys [OF assms(1)] view_keys [OF assms(2)]
    view_blockhash [OF assms(1)] view_blockhash [OF assms(2)] view_instructions [OF assms(1)] view_instructions [OF assms(2)]
    view_lookups [OF assms(1)] view_lookups [OF assms(2)]
  ultimately show ?thesis using v by (intro transaction.equality) simp_all
qed

lemma try_new_sanitized_reads:
  assumes "layout_ok lay" and "length bytes < 2 ^ 16"
  shows "try_new_sanitized lay bytes = Inr view \<longleftrightarrow>
    (\<exists>tx. packet_ok lay tx \<and> sanitized tx \<and> bytes = enc_transaction tx \<and> view = view_of tx)"
proof -
  have "view_sanitize lay (view_of tx) = Inr view \<longleftrightarrow> sanitized tx \<and> view = view_of tx" if "packet_ok lay tx" for tx
    by (auto simp: view_sanitize_def sanitize_view [OF that] rbind_eq_Inr)
  then show ?thesis
    unfolding try_new_sanitized_def rbind_eq_Inr try_new_unsanitized_reads [OF assms] by blast
qed

section \<open>Properties of parsing\<close>

definition sample_tx :: transaction where
  "sample_tx = \<lparr>tx_signatures = [replicate 64 7],
     tx_header = \<lparr>mh_version = V0, mh_num_required_signatures = 1, mh_num_readonly_signed_accounts = 0,
       mh_num_readonly_unsigned_accounts = 1\<rparr>,
     tx_account_keys = [replicate 32 1, replicate 32 2], tx_recent_blockhash = replicate 32 9,
     tx_instructions = [\<lparr>program_id_index = 1, ix_accounts = [0, 2], ix_data = [5]\<rparr>],
     tx_lookups = [\<lparr>account_key = replicate 32 3, writable_indexes = [4], readonly_indexes = []\<rparr>]\<rparr>"

lemma sample_packet: "packet_ok sample_layout sample_tx \<and> sanitized sample_tx"
  by (simp add: packet_ok_def layout_ok_def transaction_ok_def parts_ok_def signatures_ok_def header_ok_def keys_ok_def
      instructions_ok_def instruction_ok_def lookups_ok_def atl_ok_def writable_total_def readonly_total_def sanitized_def
      signers_ok_def access_ok_def num_accounts_def instruction_indexes_ok_def lookup_nonempty_def enc_transaction_def
      enc_signatures_def enc_header_def enc_instructions_def enc_instruction_def enc_lookups_def enc_atl_def enc_vec_def
      version_prefix_def encode_u16_def sample_layout_def sample_tx_def)

text \<open>C11. Parsing is exact: \<open>TransactionFrame::try_new\<close> succeeds on a byte slice if and only if the
  slice is the encoding of an abstract transaction that is within the limits of the format, with no
  byte left over, and the frame it returns is the one that describes that transaction. The limits
  are those the code checks: one to 12 signatures, one to 38 static keys, lengths below \<open>2 ^ 14\<close>, at
  most 31 lookups of at least 35 bytes each on average, totals of looked-up accounts below \<open>2 ^ 16\<close>.\<close>

theorem transaction_frame_try_new_exact:
  assumes "layout_ok lay" and "length bytes < 2 ^ 63"
  shows "transaction_frame_try_new lay bytes = Inr frame \<longleftrightarrow>
    (\<exists>tx. transaction_ok lay tx \<and> bytes = enc_transaction tx \<and> frame = frame_at 0 tx)"
  by (rule transaction_frame_try_new_reads [OF assms])

theorem transaction_frame_try_new_exact_witness:
  "transaction_frame_try_new sample_layout (enc_transaction sample_tx) = Inr (frame_at 0 sample_tx)"
  using transaction_frame_try_new_exact [OF sample_layout_ok packet_slice_ok [OF conjunct1 [OF sample_packet]]]
    sample_packet packet_ok_def by blast

text \<open>C23. Every accessor of a view reads inside the packet and gives back its part of the transaction:
  for every packet of at most \<open>u16::MAX\<close> bytes that \<open>try_new_unsanitized\<close> accepts, there is exactly one
  transaction that the packet encodes; the slices of signatures, static keys and the recent
  blockhash stay within the packet and are the ones of that transaction, the two iterators yield
  exactly its instructions and its lookups, and the message data is the packet without signatures.\<close>

theorem view_accessors_exact:
  assumes "layout_ok lay" and "length bytes < 2 ^ 16" and "try_new_unsanitized lay bytes = Inr view"
  shows "\<exists>!tx. transaction_ok lay tx \<and> bytes = enc_transaction tx \<and>
    signatures lay view = Some (tx_signatures tx) \<and> static_account_keys lay view = Some (tx_account_keys tx) \<and>
    recent_blockhash lay view = Some (tx_recent_blockhash tx) \<and>
    instructions_collect (instructions_iter view) = tx_instructions tx \<and>
    address_table_lookup_collect lay (address_table_lookup_iter view) = tx_lookups tx \<and>
    message_data view = Some (drop (length (enc_signatures (tx_signatures tx))) bytes) \<and>
    num_instructions view = of_nat (length (tx_instructions tx)) \<and>
    num_address_table_lookups view = of_nat (length (tx_lookups tx))"
    (is "\<exists>!tx. ?P tx")
proof -
  obtain tx where tx: "packet_ok lay tx" "bytes = enc_transaction tx" "view = view_of tx"
    using try_new_unsanitized_reads [OF assms(1,2)] assms(3) by blast
  have "message_data view = Some (drop (length (enc_signatures (tx_signatures tx))) bytes)"
    unfolding tx(2,3) view_message_data [OF tx(1)] by (simp add: enc_transaction_def)
  then have "?P tx" using tx(1) unfolding tx(2,3) by (simp add: packet_ok_def view_counters(7) view_signatures [OF tx(1)]
      view_keys [OF tx(1)] view_blockhash [OF tx(1)] view_instructions [OF tx(1)] view_lookups [OF tx(1)] view_lookup_counters [OF tx(1)])
  moreover have "tx' = tx" if "?P tx'" for tx'
    using that assms(1,2) tx(1,2) by (intro enc_transaction_inj [of lay]) (simp_all add: packet_ok_def)
  ultimately show ?thesis by blast
qed

theorem view_accessors_exact_witness:
  "\<exists>!tx. transaction_ok sample_layout tx \<and> enc_transaction sample_tx = enc_transaction tx \<and>
    signatures sample_layout (view_of sample_tx) = Some (tx_signatures tx) \<and>
    static_account_keys sample_layout (view_of sample_tx) = Some (tx_account_keys tx) \<and>
    recent_blockhash sample_layout (view_of sample_tx) = Some (tx_recent_blockhash tx) \<and>
    instructions_collect (instructions_iter (view_of sample_tx)) = tx_instructions tx \<and>
    address_table_lookup_collect sample_layout (address_table_lookup_iter (view_of sample_tx)) = tx_lookups tx \<and>
    message_data (view_of sample_tx) = Some (drop (length (enc_signatures (tx_signatures tx))) (enc_transaction sample_tx)) \<and>
    num_instructions (view_of sample_tx) = of_nat (length (tx_instructions tx)) \<and>
    num_address_table_lookups (view_of sample_tx) = of_nat (length (tx_lookups tx))"
proof (rule view_accessors_exact [OF sample_layout_ok])
  show "length (enc_transaction sample_tx) < 2 ^ 16" using sample_packet by (simp add: packet_ok_def)
  then show "try_new_unsanitized sample_layout (enc_transaction sample_tx) = Inr (view_of sample_tx)"
    using try_new_unsanitized_reads [OF sample_layout_ok] sample_packet by blast
qed

text \<open>C12. Sanitization accepts exactly the well-formed transactions and reports \<open>SanitizeError\<close> for
  every other transaction that parses. Well-formed means: as many signatures as required signers and
  no more than static keys; the read-only unsigned keys fit behind the signers; the fee payer is
  writable; at most 256 accounts in total; every program index names a static key other than the fee
  payer; every account index is below the number of accounts; no lookup is empty.\<close>

theorem sanitize_exact:
  assumes "layout_ok lay" and "length bytes < 2 ^ 16"
  shows "case try_new_unsanitized lay bytes of
      Inl e \<Rightarrow> try_new_sanitized lay bytes = Inl e
    | Inr view \<Rightarrow> \<exists>tx. transaction_ok lay tx \<and> bytes = enc_transaction tx \<and> view = view_of tx \<and>
        try_new_sanitized lay bytes = (if sanitized tx then Inr view else Inl SanitizeError)"
proof (cases "try_new_unsanitized lay bytes")
  case (Inr view)
  then obtain tx where tx: "packet_ok lay tx" "bytes = enc_transaction tx" "view = view_of tx"
    using try_new_unsanitized_reads [OF assms] by blast
  then have "try_new_sanitized lay bytes = (if sanitized tx then Inr view else Inl SanitizeError)"
    using Inr by (simp add: try_new_sanitized_def view_sanitize_def sanitize_view [OF tx(1)])
  then show ?thesis using Inr tx by (auto simp: packet_ok_def)
qed (simp add: try_new_sanitized_def)

theorem sanitize_exact_witness:
  "try_new_sanitized sample_layout (enc_transaction sample_tx) = Inr (view_of sample_tx)"
proof -
  have s: "packet_ok sample_layout sample_tx" "sanitized sample_tx" using sample_packet by simp_all
  then have l: "length (enc_transaction sample_tx) < 2 ^ 16" by (simp add: packet_ok_def)
  have "try_new_unsanitized sample_layout (enc_transaction sample_tx) = Inr (view_of sample_tx)"
    using try_new_unsanitized_reads [OF sample_layout_ok l] s(1) by blast
  with sanitize_exact [OF sample_layout_ok l] obtain tx where "transaction_ok sample_layout tx"
      "enc_transaction sample_tx = enc_transaction tx"
      "try_new_sanitized sample_layout (enc_transaction sample_tx) = (if sanitized tx then Inr (view_of sample_tx) else Inl SanitizeError)"
    by auto
  moreover from this have "sample_tx = tx"
    using s(1) by (intro enc_transaction_inj [of sample_layout]) (simp_all add: packet_ok_def)
  ultimately show ?thesis using s(2) by simp
qed

end
