(* ===== verification/Tx_Resolved.thy ===== *)
theory Tx_Resolved
  imports Tx_Sanitize
begin

text \<open>
  \<open>ResolvedTransactionView\<close> (\<^verbatim>\<open>transaction-view/src/resolved_transaction_view.rs\<close>): a sanitized view
  with the addresses of its lookup tables, and the cache of writable accounts.

  \<open>AccountKeys\<close> and the id of the upgradeable loader belong to other crates. They are the arguments
  \<open>account_keys\<close> (the keys that \<open>AccountKeys::new\<close> iterates over) and \<open>loader_id\<close>. A panic is \<open>None\<close>.
\<close>

section \<open>resolved\_transaction\_view.rs\<close>

record loaded_addresses =
  la_writable :: "pubkey_bytes list"
  la_readonly :: "pubkey_bytes list"

type_synonym account_keys_new = "pubkey_bytes list \<Rightarrow> loaded_addresses option \<Rightarrow> pubkey_bytes list"

record resolved_transaction_view =
  rv_view :: transaction_view
  rv_resolved_addresses :: "loaded_addresses option"
  rv_writable_cache :: "bool list"

definition is_requested_write :: "transaction_view \<Rightarrow> usize \<Rightarrow> bool" where
  "is_requested_write view index =
     (let num_static_account_keys = ucast (num_static_account_keys view) :: usize;
          num_writable_lookup_accounts = ucast (total_writable_lookup_accounts view) :: usize;
          num_signed_accounts = ucast (num_required_signatures view) :: usize;
          num_writable_unsigned_static_accounts = ucast (num_writable_unsigned_static_accounts view) :: usize;
          num_writable_signed_static_accounts = ucast (num_writable_signed_static_accounts view) :: usize
      in if index \<ge> num_static_account_keys then index - num_static_account_keys < num_writable_lookup_accounts
         else if index \<ge> num_signed_accounts then index - num_signed_accounts < num_writable_unsigned_static_accounts
         else index < num_writable_signed_static_accounts)"

fun cache_keys :: "transaction_view \<Rightarrow> pubkey_bytes set \<Rightarrow> usize \<Rightarrow> pubkey_bytes list \<Rightarrow> bool list \<Rightarrow> bool list option" where
  "cache_keys view reserved index [] cache = Some cache"
| "cache_keys view reserved index (key # rest) cache =
     (if unat index < length cache
      then cache_keys view reserved (index + 1) rest
             (cache[unat index := is_requested_write view index \<and> key \<notin> reserved])
      else None)"

text \<open>The upgradeable loader is looked for at most once; the first argument remembers the result.\<close>

fun cache_programs :: "pubkey_bytes \<Rightarrow> pubkey_bytes list \<Rightarrow> bool option \<Rightarrow> svm_instruction list \<Rightarrow> bool list \<Rightarrow> bool list option" where
  "cache_programs loader_id keys present [] cache = Some cache"
| "cache_programs loader_id keys present (ix # rest) cache =
     (let i = unat (program_id_index ix) in
      if \<not> i < length cache then None
      else if cache ! i then
        let found = (case present of Some b \<Rightarrow> b | None \<Rightarrow> list_ex (\<lambda>key. key = loader_id) keys) in
        cache_programs loader_id keys (Some found) rest (if \<not> found then cache[i := False] else cache)
      else cache_programs loader_id keys present rest cache)"

definition cache_is_writable :: "layout \<Rightarrow> account_keys_new \<Rightarrow> pubkey_bytes \<Rightarrow> transaction_view \<Rightarrow>
    loaded_addresses option \<Rightarrow> pubkey_bytes set \<Rightarrow> bool list option" where
  "cache_is_writable lay account_keys loader_id view resolved_addresses reserved = do {
     static_keys \<leftarrow> static_account_keys lay view;
     let keys = account_keys static_keys resolved_addresses;
     cache \<leftarrow> cache_keys view reserved 0 keys (replicate 256 False);
     cache_programs loader_id keys None (instructions_collect (instructions_iter view)) cache
   }"

definition address_lookup_mismatch :: "transaction_view \<Rightarrow> loaded_addresses option \<Rightarrow> bool" where
  "address_lookup_mismatch view resolved_addresses \<longleftrightarrow>
     (version view = V0 \<and> resolved_addresses = None) \<or>
     (case resolved_addresses of
        Some loaded_addresses \<Rightarrow>
          of_nat (length (la_writable loaded_addresses)) \<noteq> (ucast (total_writable_lookup_accounts view) :: usize) \<or>
          of_nat (length (la_readonly loaded_addresses)) \<noteq> (ucast (total_readonly_lookup_accounts view) :: usize)
      | None \<Rightarrow> total_writable_lookup_accounts view \<noteq> 0 \<or> total_readonly_lookup_accounts view \<noteq> 0)"

definition resolved_try_new :: "layout \<Rightarrow> account_keys_new \<Rightarrow> pubkey_bytes \<Rightarrow> transaction_view \<Rightarrow>
    loaded_addresses option \<Rightarrow> pubkey_bytes set \<Rightarrow> (transaction_view_error + resolved_transaction_view) option" where
  "resolved_try_new lay account_keys loader_id view resolved_addresses reserved =
     (if address_lookup_mismatch view resolved_addresses then Some (Inl AddressLookupMismatch)
      else do {
        writable_cache \<leftarrow> cache_is_writable lay account_keys loader_id view resolved_addresses reserved;
        Some (Inr \<lparr>rv_view = view, rv_resolved_addresses = resolved_addresses, rv_writable_cache = writable_cache\<rparr>)
      })"

definition num_transaction_signatures :: "resolved_transaction_view \<Rightarrow> u64" where
  "num_transaction_signatures self = ucast (num_required_signatures (rv_view self))"

definition num_write_locks :: "resolved_transaction_view \<Rightarrow> u64" where
  "num_write_locks self = num_requested_write_locks (rv_view self)"

definition account_keys_of :: "layout \<Rightarrow> account_keys_new \<Rightarrow> resolved_transaction_view \<Rightarrow> pubkey_bytes list option" where
  "account_keys_of lay account_keys self =
     map_option (\<lambda>keys. account_keys keys (rv_resolved_addresses self)) (static_account_keys lay (rv_view self))"

definition fee_payer :: "layout \<Rightarrow> resolved_transaction_view \<Rightarrow> pubkey_bytes option" where
  "fee_payer lay self = do {
     keys \<leftarrow> static_account_keys lay (rv_view self);
     (case keys of key # _ \<Rightarrow> Some key | [] \<Rightarrow> None)
   }"

definition is_writable :: "resolved_transaction_view \<Rightarrow> usize \<Rightarrow> bool" where
  "is_writable self index =
     (if unat index < length (rv_writable_cache self) then rv_writable_cache self ! unat index else False)"

definition is_signer :: "resolved_transaction_view \<Rightarrow> usize \<Rightarrow> bool" where
  "is_signer self index \<longleftrightarrow> index < ucast (num_required_signatures (rv_view self))"

definition is_invoked :: "resolved_transaction_view \<Rightarrow> usize \<Rightarrow> bool" where
  "is_invoked self key_index =
     (if key_index > 0xFF then False
      else list_ex (\<lambda>ix. program_id_index ix = ucast key_index) (instructions_collect (instructions_iter (rv_view self))))"

definition transaction_signature :: "layout \<Rightarrow> resolved_transaction_view \<Rightarrow> signature_bytes option" where
  "transaction_signature lay self = do {
     sigs \<leftarrow> signatures lay (rv_view self);
     (case sigs of s # _ \<Rightarrow> Some s | [] \<Rightarrow> None)
   }"

section \<open>What is writable\<close>

text \<open>The indexes that the message asks to write to.\<close>

definition requests_write :: "transaction \<Rightarrow> nat \<Rightarrow> bool" where
  "requests_write tx i \<longleftrightarrow>
     (let signers = unat (mh_num_required_signatures (tx_header tx));
          static_keys = length (tx_account_keys tx)
      in i < signers - unat (mh_num_readonly_signed_accounts (tx_header tx)) \<or>
         (signers \<le> i \<and> i < static_keys - unat (mh_num_readonly_unsigned_accounts (tx_header tx))) \<or>
         (static_keys \<le> i \<and> i < static_keys + writable_total (tx_lookups tx)))"

definition invokes :: "transaction \<Rightarrow> nat \<Rightarrow> bool" where
  "invokes tx i \<longleftrightarrow> (\<exists>ix \<in> set (tx_instructions tx). unat (program_id_index ix) = i)"

text \<open>The documented order of \<open>AccountKeys\<close>: static keys, then writable, then read-only lookups.\<close>

definition account_keys_ok :: "account_keys_new \<Rightarrow> bool" where
  "account_keys_ok account_keys \<longleftrightarrow> (\<forall>static_keys loaded. account_keys static_keys loaded = static_keys @
     (case loaded of None \<Rightarrow> [] | Some l \<Rightarrow> la_writable l @ la_readonly l))"

lemma requested_view:
  assumes p: "packet_ok lay tx" and s: "sanitized tx" and i: "i < 256"
  shows "is_requested_write (view_of tx) (of_nat i) \<longleftrightarrow> requests_write tx i"
proof -
  let ?h = "tx_header tx" and ?k = "of_nat (length (tx_account_keys tx)) :: u8"
  have k: "unat ?k = length (tx_account_keys tx)" using packet_counts(4) [OF p] by (rule unat_count8)
  have b: "unat (mh_num_required_signatures ?h) + unat (mh_num_readonly_unsigned_accounts ?h) \<le> length (tx_account_keys tx)"
    "unat (mh_num_readonly_signed_accounts ?h) < unat (mh_num_required_signatures ?h)" "num_accounts tx \<le> 256"
    using s by (auto simp: sanitized_def access_ok_def Let_def)
  have u: "unat (?k - mh_num_required_signatures ?h) = length (tx_account_keys tx) - unat (mh_num_required_signatures ?h)"
    using b k by (simp add: unat_sub word_le_nat_alt)
  have c: "unat (?k - mh_num_required_signatures ?h - mh_num_readonly_unsigned_accounts ?h) =
      length (tx_account_keys tx) - unat (mh_num_required_signatures ?h) - unat (mh_num_readonly_unsigned_accounts ?h)"
    "unat (mh_num_required_signatures ?h - mh_num_readonly_signed_accounts ?h) =
      unat (mh_num_required_signatures ?h) - unat (mh_num_readonly_signed_accounts ?h)"
    using b u by (simp_all add: unat_sub word_le_nat_alt)
  have w: "unat (of_nat (writable_total (tx_lookups tx)) :: u16) = writable_total (tx_lookups tx)"
    using packet_counts(7) [OF p] by (intro unat_of_nat_small) simp
  have j: "unat (of_nat i :: usize) = i" using i by (intro unat_of_nat_small) simp
  have cast: "unat (ucast (x :: u8) :: usize) = unat x" for x by (intro unat_ucast_small) (use unat_less_pow [of x] in simp)
  have cast16: "unat (ucast (x :: u16) :: usize) = unat x" for x by (intro unat_ucast_small) (use unat_less_pow [of x] in simp)
  have sub: "y \<le> of_nat i \<Longrightarrow> unat (of_nat i - y :: usize) = i - unat y" for y by (simp add: unat_sub j)
  show ?thesis using b sub
    by (auto simp: is_requested_write_def Let_def view_counters view_lookup_counters [OF p] num_writable_unsigned_static_accounts_def
        num_static_unsigned_static_accounts_def num_writable_signed_static_accounts_def requests_write_def
        word_le_nat_alt word_less_nat_alt cast cast16 j k w c)
qed

lemma cache_keys_spec:
  assumes "length cache = 256" and "m + length keys \<le> 256"
  shows "\<exists>cache'. cache_keys view reserved (of_nat m) keys cache = Some cache' \<and> length cache' = 256 \<and>
    (\<forall>j < 256. cache' ! j =
      (if m \<le> j \<and> j < m + length keys then is_requested_write view (of_nat j) \<and> keys ! (j - m) \<notin> reserved else cache ! j))"
  using assms
proof (induction keys arbitrary: m cache)
  case (Cons key keys)
  let ?cache = "cache[m := is_requested_write view (of_nat m) \<and> key \<notin> reserved]"
  have m: "unat (of_nat m :: usize) = m" "m < 256" using Cons.prems by (auto intro!: unat_of_nat_small)
  have "(of_nat m + 1 :: usize) = of_nat (Suc m)" by simp
  with Cons.IH [of ?cache "Suc m"] Cons.prems obtain cache' where
    c: "cache_keys view reserved (of_nat m + 1) keys ?cache = Some cache'" "length cache' = 256"
      "\<forall>j < 256. cache' ! j = (if Suc m \<le> j \<and> j < Suc m + length keys
         then is_requested_write view (of_nat j) \<and> keys ! (j - Suc m) \<notin> reserved else ?cache ! j)"
    by (metis add_Suc_right add_Suc length_Cons length_list_update)
  have "cache' ! j = (if m \<le> j \<and> j < m + length (key # keys)
      then is_requested_write view (of_nat j) \<and> (key # keys) ! (j - m) \<notin> reserved else cache ! j)" if "j < 256" for j
    using c(3) that Cons.prems(1) by (cases "j = m") (auto simp: nth_Cons' nth_list_update Suc_le_eq)
  with c(1,2) m Cons.prems(1) show ?case by auto
qed auto

lemma cache_programs_spec:
  assumes "length cache = 256" and "\<forall>b. present = Some b \<longrightarrow> b = (loader_id \<in> set keys)"
  shows "\<exists>cache'. cache_programs loader_id keys present ixs cache = Some cache' \<and> length cache' = 256 \<and>
    (\<forall>j < 256. cache' ! j = (cache ! j \<and> ((\<exists>ix \<in> set ixs. unat (program_id_index ix) = j) \<longrightarrow> loader_id \<in> set keys)))"
  using assms
proof (induction ixs arbitrary: present cache)
  case (Cons ix ixs)
  let ?i = "unat (program_id_index ix)" and ?found = "loader_id \<in> set keys"
  let ?cache = "if cache ! ?i \<and> \<not> ?found then cache[?i := False] else cache"
  have i: "?i < length cache" using Cons.prems(1) unat_less_pow [of "program_id_index ix"] by simp
  have found: "(case present of Some b \<Rightarrow> b | None \<Rightarrow> list_ex (\<lambda>key. key = loader_id) keys) = ?found"
    using Cons.prems(2) by (auto simp: list_ex_iff split: option.splits)
  obtain present' where p: "\<forall>b. present' = Some b \<longrightarrow> b = ?found"
    "cache_programs loader_id keys present (ix # ixs) cache = cache_programs loader_id keys present' ixs ?cache"
  proof (cases "cache ! ?i")
    case True
    then show thesis using i found by (intro that [of "Some ?found"]) (simp_all add: Let_def)
  next
    case False
    then show thesis using i Cons.prems(2) by (intro that [of present]) (simp_all add: Let_def)
  qed
  have "length ?cache = 256" using Cons.prems(1) by simp
  from Cons.IH [OF this p(1)] obtain cache' where
    c: "cache_programs loader_id keys present' ixs ?cache = Some cache'" "length cache' = 256"
      "\<forall>j < 256. cache' ! j = (?cache ! j \<and> ((\<exists>ix \<in> set ixs. unat (program_id_index ix) = j) \<longrightarrow> ?found))" by blast
  have "cache' ! j = (cache ! j \<and> ((\<exists>ix' \<in> set (ix # ixs). unat (program_id_index ix') = j) \<longrightarrow> ?found))" if "j < 256" for j
    using c(3) that i by (auto simp: nth_list_update)
  with c(1,2) p(2) show ?case by auto
qed simp

text \<open>The addresses are the ones the lookups ask for.\<close>

definition addresses_match :: "transaction \<Rightarrow> loaded_addresses option \<Rightarrow> bool" where
  "addresses_match tx loaded \<longleftrightarrow>
     (case loaded of
        None \<Rightarrow> mh_version (tx_header tx) = Legacy
      | Some l \<Rightarrow> length (la_writable l) = writable_total (tx_lookups tx) \<and> length (la_readonly l) = readonly_total (tx_lookups tx))"

definition all_keys :: "transaction \<Rightarrow> loaded_addresses option \<Rightarrow> pubkey_bytes list" where
  "all_keys tx loaded = tx_account_keys tx @ (case loaded of None \<Rightarrow> [] | Some l \<Rightarrow> la_writable l @ la_readonly l)"

definition vec_ok :: "loaded_addresses option \<Rightarrow> bool" where
  "vec_ok loaded \<longleftrightarrow> (case loaded of None \<Rightarrow> True | Some l \<Rightarrow> length (la_writable l) < 2 ^ 63 \<and> length (la_readonly l) < 2 ^ 63)"

lemma mismatch_view:
  assumes p: "packet_ok lay tx" and v: "vec_ok loaded"
  shows "address_lookup_mismatch (view_of tx) loaded \<longleftrightarrow> \<not> addresses_match tx loaded"
proof -
  note t = packet_counts(7,8) [OF p]
  have eq: "of_nat n = (ucast (of_nat m :: u16) :: usize) \<longleftrightarrow> n = m" if "n < 2 ^ 63" "m < 2 ^ 16" for n m
    using that by (simp add: word_unat_eq_iff unat_stored unat_of_nat_small)
  show ?thesis
  proof (cases loaded)
    case None
    have "mh_version (tx_header tx) = Legacy \<Longrightarrow> tx_lookups tx = []" using packet_parts(7) [OF p] by (simp add: lookups_ok_def)
    with None show ?thesis
      by (cases "mh_version (tx_header tx)") (simp_all add: address_lookup_mismatch_def addresses_match_def view_counters
        view_lookup_counters [OF p] writable_total_def readonly_total_def)
  next
    case (Some l)
    then show ?thesis using v t
      by (simp add: address_lookup_mismatch_def addresses_match_def view_counters view_lookup_counters [OF p] vec_ok_def eq)
  qed
qed

lemma all_keys_length: "lookups_ok lay (mh_version (tx_header tx)) (tx_lookups tx) \<Longrightarrow> addresses_match tx loaded \<Longrightarrow>
    length (all_keys tx loaded) = num_accounts tx"
  by (auto simp: all_keys_def addresses_match_def num_accounts_def lookups_ok_def writable_total_def readonly_total_def
      split: option.splits)

lemma cache_is_writable_spec:
  assumes p: "packet_ok lay tx" and s: "sanitized tx" and m: "addresses_match tx loaded" and a: "account_keys_ok account_keys"
  shows "\<exists>cache. cache_is_writable lay account_keys loader_id (view_of tx) loaded reserved = Some cache \<and> length cache = 256 \<and>
    (\<forall>j < 256. cache ! j \<longleftrightarrow> j < num_accounts tx \<and> requests_write tx j \<and> all_keys tx loaded ! j \<notin> reserved \<and>
      (invokes tx j \<longrightarrow> loader_id \<in> set (all_keys tx loaded)))"
proof -
  have l: "length (all_keys tx loaded) = num_accounts tx" by (rule all_keys_length [OF packet_parts(7) [OF p] m])
  have "num_accounts tx \<le> 256" using s by (simp add: sanitized_def access_ok_def Let_def)
  with cache_keys_spec [of "replicate 256 False" 0 "all_keys tx loaded" "view_of tx" reserved] l obtain c1 where
    c1: "cache_keys (view_of tx) reserved 0 (all_keys tx loaded) (replicate 256 False) = Some c1" "length c1 = 256"
      "\<forall>j < 256. c1 ! j = (if j < num_accounts tx then is_requested_write (view_of tx) (of_nat j) \<and> all_keys tx loaded ! j \<notin> reserved else False)"
    by auto
  from cache_programs_spec [OF c1(2), of None loader_id "all_keys tx loaded" "tx_instructions tx"] obtain c2 where
    c2: "cache_programs loader_id (all_keys tx loaded) None (tx_instructions tx) c1 = Some c2" "length c2 = 256"
      "\<forall>j < 256. c2 ! j = (c1 ! j \<and> ((\<exists>ix \<in> set (tx_instructions tx). unat (program_id_index ix) = j) \<longrightarrow> loader_id \<in> set (all_keys tx loaded)))"
    by auto
  have "account_keys (tx_account_keys tx) loaded = all_keys tx loaded" using a by (simp add: account_keys_ok_def all_keys_def)
  then have "cache_is_writable lay account_keys loader_id (view_of tx) loaded reserved = Some c2"
    using c1(1) c2(1) by (simp add: cache_is_writable_def view_keys [OF p] view_instructions [OF p])
  moreover have "c2 ! j \<longleftrightarrow> j < num_accounts tx \<and> requests_write tx j \<and> all_keys tx loaded ! j \<notin> reserved \<and>
      (invokes tx j \<longrightarrow> loader_id \<in> set (all_keys tx loaded))" if "j < 256" for j
    using c1(3) c2(3) that requested_view [OF p s that] by (auto simp: invokes_def)
  ultimately show ?thesis using c2(2) by blast
qed

section \<open>Number of write locks\<close>

lemma requests_write_count:
  assumes p: "packet_ok lay tx" and s: "sanitized tx"
  shows "unat (num_requested_write_locks (view_of tx)) = card {i. i < num_accounts tx \<and> requests_write tx i}"
proof -
  let ?h = "tx_header tx" and ?k = "length (tx_account_keys tx)" and ?w = "writable_total (tx_lookups tx)"
  define n rs ru where d: "n = unat (mh_num_required_signatures ?h)" "rs = unat (mh_num_readonly_signed_accounts ?h)"
    "ru = unat (mh_num_readonly_unsigned_accounts ?h)"
  have b: "n + ru \<le> ?k" "rs < n" "num_accounts tx \<le> 256" using s by (auto simp: sanitized_def access_ok_def Let_def d)
  have k: "unat (of_nat ?k :: u8) = ?k" using packet_counts(4) [OF p] by (rule unat_count8)
  have "unat (of_nat ?k - mh_num_readonly_signed_accounts ?h) = ?k - rs"
    using b k d by (simp add: unat_sub word_le_nat_alt)
  then have 1: "unat (of_nat ?k - mh_num_readonly_signed_accounts ?h - mh_num_readonly_unsigned_accounts ?h) = ?k - rs - ru"
    using b d by (simp add: unat_sub word_le_nat_alt)
  have w: "unat (of_nat ?w :: u16) = ?w" using packet_counts(7) [OF p] by (intro unat_of_nat_small) simp
  have "unat (num_requested_write_locks (view_of tx)) = ?k - rs - ru + ?w"
    using b(3) 1 w by (simp add: num_requested_write_locks_def view_counters view_lookup_counters [OF p]
        unat_ucast_small unat_u8_cast unat_word_ariths num_accounts_def)
  moreover have "{i. i < num_accounts tx \<and> requests_write tx i} = {..<n - rs} \<union> {n..<?k - ru} \<union> {?k..<?k + ?w}"
    using b by (auto simp: requests_write_def num_accounts_def d Let_def)
  moreover have "card ({..<n - rs} \<union> {n..<?k - ru} \<union> {?k..<?k + ?w}) = (n - rs) + (?k - ru - n) + ?w"
  proof -
    have "card ({..<n - rs} \<union> {n..<?k - ru}) = (n - rs) + (?k - ru - n)" by (subst card_Un_disjoint) auto
    moreover have "({..<n - rs} \<union> {n..<?k - ru}) \<inter> {?k..<?k + ?w} = {}" using b by auto
    ultimately show ?thesis by (subst card_Un_disjoint) auto
  qed
  ultimately show ?thesis using b by simp
qed

lemma those_map: "(\<And>x. x \<in> set xs \<Longrightarrow> f x = Some (g x)) \<Longrightarrow> those (map f xs) = Some (map g xs)"
  by (induction xs) auto

lemma program_instructions_view:
  assumes p: "packet_ok lay tx" and s: "sanitized tx"
  shows "program_instructions lay (view_of tx) =
    Some (map (\<lambda>ix. (tx_account_keys tx ! unat (program_id_index ix), ix)) (tx_instructions tx))"
  unfolding program_instructions_def view_keys [OF p] view_instructions [OF p]
  using s by (intro those_map) (auto simp: sanitized_def instruction_indexes_ok_def list_all_iff)

section \<open>Properties\<close>

text \<open>C27. What a sanitized transaction may write to: for every packet that parses and sanitizes, building
  the resolved view never panics; it reports \<open>AddressLookupMismatch\<close> exactly when the resolved
  addresses do not have the numbers that the lookups ask for (or a version 0 message has none), and
  otherwise \<open>is_writable\<close> holds at exactly the indexes that the header or the lookups request as
  writable, whose key is not reserved, and that are not the program of an instruction unless the
  upgradeable loader is among the account keys.\<close>

theorem resolved_is_writable_exact:
  assumes "layout_ok lay" and "length bytes < 2 ^ 16" and "try_new_sanitized lay bytes = Inr view"
    and "account_keys_ok account_keys" and "vec_ok loaded"
  shows "\<exists>tx. transaction_ok lay tx \<and> bytes = enc_transaction tx \<and>
    (if addresses_match tx loaded
     then \<exists>r. resolved_try_new lay account_keys loader_id view loaded reserved = Some (Inr r) \<and>
       (\<forall>i. is_writable r i \<longleftrightarrow> unat i < num_accounts tx \<and> requests_write tx (unat i) \<and>
          all_keys tx loaded ! unat i \<notin> reserved \<and> (invokes tx (unat i) \<longrightarrow> loader_id \<in> set (all_keys tx loaded)))
     else resolved_try_new lay account_keys loader_id view loaded reserved = Some (Inl AddressLookupMismatch))"
proof -
  obtain tx where tx: "packet_ok lay tx" "sanitized tx" "bytes = enc_transaction tx" "view = view_of tx"
    using try_new_sanitized_reads [OF assms(1,2)] assms(3) by blast
  note mismatch = mismatch_view [OF tx(1) assms(5)]
  have "\<exists>r. resolved_try_new lay account_keys loader_id view loaded reserved = Some (Inr r) \<and>
       (\<forall>i. is_writable r i \<longleftrightarrow> unat i < num_accounts tx \<and> requests_write tx (unat i) \<and>
          all_keys tx loaded ! unat i \<notin> reserved \<and> (invokes tx (unat i) \<longrightarrow> loader_id \<in> set (all_keys tx loaded)))"
    if m: "addresses_match tx loaded"
  proof -
    obtain cache where c: "cache_is_writable lay account_keys loader_id (view_of tx) loaded reserved = Some cache" "length cache = 256"
      "\<forall>j < 256. cache ! j \<longleftrightarrow> j < num_accounts tx \<and> requests_write tx j \<and> all_keys tx loaded ! j \<notin> reserved \<and>
        (invokes tx j \<longrightarrow> loader_id \<in> set (all_keys tx loaded))"
      using cache_is_writable_spec [OF tx(1,2) m assms(4)] by blast
    have "num_accounts tx \<le> 256" using tx(2) by (simp add: sanitized_def access_ok_def Let_def)
    then show ?thesis using c m mismatch tx(4) by (auto simp: resolved_try_new_def is_writable_def)
  qed
  moreover have "resolved_try_new lay account_keys loader_id view loaded reserved = Some (Inl AddressLookupMismatch)"
    if "\<not> addresses_match tx loaded"
    using that mismatch tx(4) by (simp add: resolved_try_new_def)
  ultimately show ?thesis using tx by (auto simp: packet_ok_def)
qed

definition sample_account_keys :: account_keys_new where
  "sample_account_keys static_keys loaded =
     static_keys @ (case loaded of None \<Rightarrow> [] | Some l \<Rightarrow> la_writable l @ la_readonly l)"

lemma sample_sanitized:
  "length (enc_transaction sample_tx) < 2 ^ 16 \<and> try_new_sanitized sample_layout (enc_transaction sample_tx) = Inr (view_of sample_tx)"
proof -
  have l: "length (enc_transaction sample_tx) < 2 ^ 16" using sample_packet by (simp add: packet_ok_def)
  then show ?thesis using try_new_sanitized_reads [OF sample_layout_ok l] sample_packet by blast
qed

theorem resolved_is_writable_exact_witness:
  "\<exists>tx. transaction_ok sample_layout tx \<and> enc_transaction sample_tx = enc_transaction tx \<and>
    (if addresses_match tx None
     then \<exists>r. resolved_try_new sample_layout sample_account_keys [0] (view_of sample_tx) None {} = Some (Inr r) \<and>
       (\<forall>i. is_writable r i \<longleftrightarrow> unat i < num_accounts tx \<and> requests_write tx (unat i) \<and>
          all_keys tx None ! unat i \<notin> {} \<and> (invokes tx (unat i) \<longrightarrow> [0] \<in> set (all_keys tx None)))
     else resolved_try_new sample_layout sample_account_keys [0] (view_of sample_tx) None {} = Some (Inl AddressLookupMismatch))"
  by (rule resolved_is_writable_exact [OF sample_layout_ok conjunct1 [OF sample_sanitized] conjunct2 [OF sample_sanitized]])
    (simp_all add: account_keys_ok_def sample_account_keys_def vec_ok_def)

text \<open>The arithmetic of a sanitized view never wraps: \<open>num_requested_write_locks\<close>, computed with
  wrapping subtractions and additions of 8 and 16 bits, is the number of account indexes that the
  transaction requests as writable, \<open>total_num_accounts\<close> is the number of its accounts (at most 256),
  and pairing instructions with their programs never indexes out of bounds.\<close>

theorem sanitized_view_bounds:
  assumes "layout_ok lay" and "length bytes < 2 ^ 16" and "try_new_sanitized lay bytes = Inr view"
  shows "\<exists>tx. transaction_ok lay tx \<and> bytes = enc_transaction tx \<and>
    unat (num_requested_write_locks view) = card {i. i < num_accounts tx \<and> requests_write tx i} \<and>
    unat (total_num_accounts view) = num_accounts tx \<and> num_accounts tx \<le> 256 \<and>
    program_instructions lay view =
      Some (map (\<lambda>ix. (tx_account_keys tx ! unat (program_id_index ix), ix)) (tx_instructions tx))"
proof -
  obtain tx where tx: "packet_ok lay tx" "sanitized tx" "bytes = enc_transaction tx" "view = view_of tx"
    using try_new_sanitized_reads [OF assms(1,2)] assms(3) by blast
  note c = packet_counts [OF tx(1)]
  have n: "num_accounts tx \<le> 256" using tx(2) by (simp add: sanitized_def access_ok_def Let_def)
  then have "unat (total_num_accounts view) = num_accounts tx"
    using c(4) by (simp add: tx(4) total_num_accounts_def view_counters view_lookup_counters [OF tx(1)] unat_word_ariths
        unat_u8_cast unat_count8 unat_of_nat_small num_accounts_def)
  with n show ?thesis
    using tx requests_write_count [OF tx(1,2)] program_instructions_view [OF tx(1,2)] by (auto simp: packet_ok_def)
qed

theorem sanitized_view_bounds_witness:
  "\<exists>tx. transaction_ok sample_layout tx \<and> enc_transaction sample_tx = enc_transaction tx \<and>
    unat (num_requested_write_locks (view_of sample_tx)) = card {i. i < num_accounts tx \<and> requests_write tx i} \<and>
    unat (total_num_accounts (view_of sample_tx)) = num_accounts tx \<and> num_accounts tx \<le> 256 \<and>
    program_instructions sample_layout (view_of sample_tx) =
      Some (map (\<lambda>ix. (tx_account_keys tx ! unat (program_id_index ix), ix)) (tx_instructions tx))"
  by (rule sanitized_view_bounds [OF sample_layout_ok conjunct1 [OF sample_sanitized] conjunct2 [OF sample_sanitized]])

end
