(* ===== verification/Sdk.thy ===== *)
theory Sdk
  imports Tx_Frames
begin

text \<open>
  What the cost, fee and compute budget code uses of other crates: program ids, decoders of
  instruction data and a few constants. They are the fields of \<open>sdk\<close>, an argument of the definitions
  that use them; \<open>sdk_ok\<close> states what is documented of them. Features are named by the modules of
  \<^verbatim>\<open>feature-set/src/lib.rs\<close>; a feature set is the set of its active features.
\<close>

datatype feature =
    reserve_minimal_cus_for_builtin_instructions
  | migrate_stake_program_to_core_bpf
  | migrate_config_program_to_core_bpf
  | migrate_address_lookup_table_program_to_core_bpf
  | ed25519_precompile_verify_strict
  | enable_secp256r1_precompile

type_synonym feature_set = "feature set"

definition is_active :: "feature_set \<Rightarrow> feature \<Rightarrow> bool" where
  "is_active feature_set feature_id \<longleftrightarrow> feature_id \<in> feature_set"

definition all_enabled :: feature_set where
  "all_enabled = {reserve_minimal_cus_for_builtin_instructions, migrate_stake_program_to_core_bpf,
     migrate_config_program_to_core_bpf, migrate_address_lookup_table_program_to_core_bpf,
     ed25519_precompile_verify_strict, enable_secp256r1_precompile}"

datatype compute_budget_instruction =
    RequestHeapFrame u32
  | SetComputeUnitLimit u32
  | SetComputeUnitPrice u64
  | SetLoadedAccountsDataSizeLimit u32
  | OtherComputeBudgetInstruction

text \<open>The system instructions that allocate space, and all others.\<close>

datatype system_instruction =
    CreateAccount u64
  | CreateAccountWithSeed u64
  | Allocate u64
  | AllocateWithSeed u64
  | OtherSystemInstruction

datatype transaction_error =
    InvalidInstructionData u8
  | DuplicateInstruction u8
  | InvalidLoadedAccountsDataSizeLimit
  | SanitizeFailure

record sdk =
  stake_id :: pubkey_bytes
  config_id :: pubkey_bytes
  address_lookup_table_id :: pubkey_bytes
  vote_id :: pubkey_bytes
  system_program_id :: pubkey_bytes
  compute_budget_id :: pubkey_bytes
  bpf_loader_upgradeable_id :: pubkey_bytes
  bpf_loader_deprecated_id :: pubkey_bytes
  bpf_loader_id :: pubkey_bytes
  loader_v4_id :: pubkey_bytes
  secp256k1_program_id :: pubkey_bytes
  ed25519_program_id :: pubkey_bytes
  secp256r1_program_id :: pubkey_bytes
  HEAP_LENGTH :: usize
  decode_compute_budget :: "u8 list \<Rightarrow> compute_budget_instruction option"
  decode_system :: "u8 list \<Rightarrow> system_instruction option"
  memory_usage_cost :: "u32 \<Rightarrow> u64 \<Rightarrow> u64"
  MAX_PERMITTED_DATA_LENGTH :: u64
  MAX_PERMITTED_ALLOCATIONS :: u64

definition all_ids :: "sdk \<Rightarrow> pubkey_bytes list" where
  "all_ids env = [stake_id env, config_id env, address_lookup_table_id env, vote_id env, system_program_id env,
     compute_budget_id env, bpf_loader_upgradeable_id env, bpf_loader_deprecated_id env, bpf_loader_id env,
     loader_v4_id env, secp256k1_program_id env, ed25519_program_id env, secp256r1_program_id env]"

text \<open>The ids are different keys of 32 bytes, and the heap is 32 KiB.\<close>

definition sdk_ok :: "sdk \<Rightarrow> bool" where
  "sdk_ok env \<longleftrightarrow> distinct (all_ids env) \<and> list_all (\<lambda>key. length key = 32) (all_ids env) \<and> HEAP_LENGTH env = 32 * 1024"

end
