(* ===== verification/Builtin_Costs.thy ===== *)
theory Builtin_Costs
  imports Sdk
begin

text \<open>
  The default costs of built-in programs (\<^verbatim>\<open>builtins-default-costs/src/lib.rs\<close>): the table, the
  quick filter on the first byte of a key, and the lookups.
\<close>

section \<open>The table\<close>

datatype builtin_cost =
    Migrating u64 feature usize
  | NotMigrating u64

fun native_cost :: "builtin_cost \<Rightarrow> u64" where
  "native_cost (Migrating c _ _) = c"
| "native_cost (NotMigrating c) = c"

fun core_bpf_migration_feature :: "builtin_cost \<Rightarrow> feature option" where
  "core_bpf_migration_feature (Migrating _ f _) = Some f"
| "core_bpf_migration_feature (NotMigrating _) = None"

fun migration_position :: "builtin_cost \<Rightarrow> usize option" where
  "migration_position (Migrating _ _ p) = Some p"
| "migration_position (NotMigrating _) = None"

fun has_migrated :: "builtin_cost \<Rightarrow> feature_set \<Rightarrow> bool" where
  "has_migrated (Migrating _ f _) fs = is_active fs f"
| "has_migrated (NotMigrating _) fs = False"

definition MIGRATING_BUILTINS_COSTS :: "sdk \<Rightarrow> (pubkey_bytes \<times> builtin_cost) list" where
  "MIGRATING_BUILTINS_COSTS env =
     [(stake_id env, Migrating 750 migrate_stake_program_to_core_bpf 0),
      (config_id env, Migrating 450 migrate_config_program_to_core_bpf 1),
      (address_lookup_table_id env, Migrating 750 migrate_address_lookup_table_program_to_core_bpf 2)]"

definition NON_MIGRATING_BUILTINS_COSTS :: "sdk \<Rightarrow> (pubkey_bytes \<times> builtin_cost) list" where
  "NON_MIGRATING_BUILTINS_COSTS env =
     [(vote_id env, NotMigrating 2100),
      (system_program_id env, NotMigrating 150),
      (compute_budget_id env, NotMigrating 150),
      (bpf_loader_upgradeable_id env, NotMigrating 2370),
      (bpf_loader_deprecated_id env, NotMigrating 1140),
      (bpf_loader_id env, NotMigrating 570),
      (loader_v4_id env, NotMigrating 2000),
      (secp256k1_program_id env, NotMigrating 0),
      (ed25519_program_id env, NotMigrating 0)]"

text \<open>Collecting into a map: a later entry replaces an earlier one with the same key.\<close>

definition BUILTIN_INSTRUCTION_COSTS :: "sdk \<Rightarrow> pubkey_bytes \<rightharpoonup> builtin_cost" where
  "BUILTIN_INSTRUCTION_COSTS env = map_of (rev (MIGRATING_BUILTINS_COSTS env @ NON_MIGRATING_BUILTINS_COSTS env))"

definition MAYBE_BUILTIN_KEY :: "sdk \<Rightarrow> bool list" where
  "MAYBE_BUILTIN_KEY env =
     fold (\<lambda>key table. table[unat (hd key) := True])
       (map fst (MIGRATING_BUILTINS_COSTS env @ NON_MIGRATING_BUILTINS_COSTS env)) (replicate 256 False)"

definition get_builtin_instruction_cost :: "sdk \<Rightarrow> pubkey_bytes \<Rightarrow> feature_set \<Rightarrow> u64 option" where
  "get_builtin_instruction_cost env program_id feature_set =
     (case BUILTIN_INSTRUCTION_COSTS env program_id of
        None \<Rightarrow> None
      | Some builtin_cost \<Rightarrow>
          if \<not> has_migrated builtin_cost feature_set then Some (native_cost builtin_cost) else None)"

datatype builtin_migration_feature_index =
    NotBuiltinIndex
  | BuiltinNoMigrationFeature
  | BuiltinWithMigrationFeature usize

definition get_builtin_migration_feature_index :: "sdk \<Rightarrow> pubkey_bytes \<Rightarrow> builtin_migration_feature_index" where
  "get_builtin_migration_feature_index env program_id =
     (case BUILTIN_INSTRUCTION_COSTS env program_id of
        None \<Rightarrow> NotBuiltinIndex
      | Some builtin_cost \<Rightarrow>
          (case migration_position builtin_cost of
             None \<Rightarrow> BuiltinNoMigrationFeature
           | Some index \<Rightarrow> BuiltinWithMigrationFeature index))"

text \<open>The check at compile time: \<open>False\<close> is a failed assertion.\<close>

fun validate_position_from :: "nat \<Rightarrow> (pubkey_bytes \<times> builtin_cost) list \<Rightarrow> bool" where
  "validate_position_from index [] = True"
| "validate_position_from index ((_, cost) # rest) =
     (case cost of
        Migrating _ _ position \<Rightarrow> unat position = index \<and> validate_position_from (index + 1) rest
      | NotMigrating _ \<Rightarrow> False)"

definition validate_position :: "(pubkey_bytes \<times> builtin_cost) list \<Rightarrow> bool" where
  "validate_position migrating_builtins = validate_position_from 0 migrating_builtins"

text \<open>\<open>None\<close> is a panic.\<close>

definition get_migration_feature_id :: "sdk \<Rightarrow> nat \<Rightarrow> feature option" where
  "get_migration_feature_id env index =
     (if index < length (MIGRATING_BUILTINS_COSTS env)
      then core_bpf_migration_feature (snd (MIGRATING_BUILTINS_COSTS env ! index))
      else None)"

section \<open>The quick filter\<close>

lemma length_fold_update: "length (fold (\<lambda>key table. table[f key := True]) keys table) = length table"
  by (induction keys arbitrary: table) simp_all

lemma fold_update_nth:
  "i < length table \<Longrightarrow> fold (\<lambda>key table. table[f key := True]) keys table ! i = (table ! i \<or> i \<in> f ` set keys)"
proof (induction keys arbitrary: table)
  case (Cons key keys)
  then show ?case using Cons.IH [of "table[f key := True]"] by (cases "i = f key") (auto simp: nth_list_update)
qed simp

lemma maybe_builtin_key:
  "MAYBE_BUILTIN_KEY env ! unat (b :: u8) \<longleftrightarrow>
     (\<exists>key \<in> fst ` set (MIGRATING_BUILTINS_COSTS env @ NON_MIGRATING_BUILTINS_COSTS env). hd key = b)"
proof -
  have "unat b < 256" using unat_less_pow [of b] by simp
  then show ?thesis unfolding MAYBE_BUILTIN_KEY_def
    by (subst fold_update_nth) (simp, simp only: set_map nth_replicate image_iff word_unat_eq_iff, metis)
qed

lemma length_maybe_builtin_key: "length (MAYBE_BUILTIN_KEY env) = 256"
  by (simp add: MAYBE_BUILTIN_KEY_def length_fold_update)

lemma builtin_dom: "dom (BUILTIN_INSTRUCTION_COSTS env) = fst ` set (MIGRATING_BUILTINS_COSTS env @ NON_MIGRATING_BUILTINS_COSTS env)"
  unfolding BUILTIN_INSTRUCTION_COSTS_def dom_map_of_conv_image_fst set_rev ..

text \<open>A key whose first byte is not marked is not in the table.\<close>

lemma filter_complete: "\<not> MAYBE_BUILTIN_KEY env ! unat (hd key) \<Longrightarrow> BUILTIN_INSTRUCTION_COSTS env key = None"
  using maybe_builtin_key [of env "hd key"] builtin_dom [of env] by (metis domIff)

lemma compute_budget_in_table: "MAYBE_BUILTIN_KEY env ! unat (hd (compute_budget_id env))"
  using maybe_builtin_key [of env "hd (compute_budget_id env)"] by (auto simp: NON_MIGRATING_BUILTINS_COSTS_def)

lemma positions_valid: "validate_position (MIGRATING_BUILTINS_COSTS env)"
  by (simp add: validate_position_def MIGRATING_BUILTINS_COSTS_def)

text \<open>A migration index found in the table is one of the migrating builtins.\<close>

lemma migration_index_bound:
  assumes "get_builtin_migration_feature_index env key = BuiltinWithMigrationFeature i"
  shows "unat i < length (MIGRATING_BUILTINS_COSTS env)"
proof -
  obtain c where c: "BUILTIN_INSTRUCTION_COSTS env key = Some c" "migration_position c = Some i"
    using assms by (auto simp: get_builtin_migration_feature_index_def split: option.splits)
  from c(1) have "(key, c) \<in> set (MIGRATING_BUILTINS_COSTS env @ NON_MIGRATING_BUILTINS_COSTS env)"
    unfolding BUILTIN_INSTRUCTION_COSTS_def by (metis map_of_SomeD set_rev)
  then show ?thesis using c(2) by (auto simp: MIGRATING_BUILTINS_COSTS_def NON_MIGRATING_BUILTINS_COSTS_def)
qed

lemma get_migration_feature_id_Some:
  "i < length (MIGRATING_BUILTINS_COSTS env) \<Longrightarrow>
     get_migration_feature_id env i = Some ([migrate_stake_program_to_core_bpf, migrate_config_program_to_core_bpf,
       migrate_address_lookup_table_program_to_core_bpf] ! i)"
  by (auto simp: get_migration_feature_id_def MIGRATING_BUILTINS_COSTS_def less_Suc_eq numeral_3_eq_3)

end
