(* ===== verification/Compute_Budget.thy ===== *)
theory Compute_Budget
  imports Builtin_Costs
begin

text \<open>
  Compute budget instructions (\<^verbatim>\<open>compute-budget-instruction/src\<close>, \<^verbatim>\<open>compute-budget/src/compute_budget_limits.rs\<close>):
  the filters that remember what kind of program an index is, the collection of the requested limits,
  and their sanitization. A failed \<open>expect\<close> is \<open>None\<close>.
\<close>

section \<open>compute\_budget\_limits.rs\<close>

definition DEFAULT_HEAP_COST :: u64 where
  "DEFAULT_HEAP_COST = 8"

definition DEFAULT_INSTRUCTION_COMPUTE_UNIT_LIMIT :: u32 where
  "DEFAULT_INSTRUCTION_COMPUTE_UNIT_LIMIT = 200000"

definition MAX_BUILTIN_ALLOCATION_COMPUTE_UNIT_LIMIT :: u32 where
  "MAX_BUILTIN_ALLOCATION_COMPUTE_UNIT_LIMIT = 3000"

definition MAX_COMPUTE_UNIT_LIMIT :: u32 where
  "MAX_COMPUTE_UNIT_LIMIT = 1400000"

definition MAX_HEAP_FRAME_BYTES :: u32 where
  "MAX_HEAP_FRAME_BYTES = 256 * 1024"

definition MIN_HEAP_FRAME_BYTES :: "sdk \<Rightarrow> u32" where
  "MIN_HEAP_FRAME_BYTES env = ucast (HEAP_LENGTH env)"

definition MICRO_LAMPORTS_PER_LAMPORT :: u64 where
  "MICRO_LAMPORTS_PER_LAMPORT = 1000000"

definition MAX_LOADED_ACCOUNTS_DATA_SIZE_BYTES :: u32 where
  "MAX_LOADED_ACCOUNTS_DATA_SIZE_BYTES = 64 * 1024 * 1024"

record compute_budget_limits =
  updated_heap_bytes :: u32
  compute_unit_limit :: u32
  compute_unit_price :: u64
  loaded_accounts_bytes :: u32

text \<open>\<open>u128\<close> arithmetic; the conversion to \<open>u64\<close> fails above its maximum.\<close>

definition get_prioritization_fee :: "u64 \<Rightarrow> u64 \<Rightarrow> u64" where
  "get_prioritization_fee price limit =
     (let micro_lamport_fee = saturating_mul (ucast price :: 128 word) (ucast limit);
          fee = saturating_add micro_lamport_fee (ucast (saturating_sub MICRO_LAMPORTS_PER_LAMPORT 1))
            div ucast MICRO_LAMPORTS_PER_LAMPORT
      in if fee \<le> ucast (- 1 :: u64) then ucast fee else - 1)"

record fee_budget_limits =
  loaded_accounts_data_size_limit :: u32
  heap_cost :: u64
  fb_compute_unit_limit :: u64
  prioritization_fee :: u64

definition fee_budget_limits_from :: "compute_budget_limits \<Rightarrow> fee_budget_limits" where
  "fee_budget_limits_from val =
     \<lparr>loaded_accounts_data_size_limit = loaded_accounts_bytes val, heap_cost = DEFAULT_HEAP_COST,
      fb_compute_unit_limit = ucast (compute_unit_limit val),
      prioritization_fee = get_prioritization_fee (compute_unit_price val) (ucast (compute_unit_limit val))\<rparr>"

section \<open>builtin\_programs\_filter.rs and compute\_budget\_program\_id\_filter.rs\<close>

datatype program_kind = NotBuiltin | Builtin | MigratingBuiltin usize

definition FILTER_SIZE :: "layout \<Rightarrow> u8" where
  "FILTER_SIZE lay = ucast (PACKET_DATA_SIZE lay div size_of_Pubkey lay)"

definition builtin_filter_new :: "layout \<Rightarrow> program_kind option list" where
  "builtin_filter_new lay = replicate (unat (FILTER_SIZE lay)) None"

definition check_program_kind :: "sdk \<Rightarrow> pubkey_bytes \<Rightarrow> program_kind" where
  "check_program_kind env program_id =
     (if \<not> MAYBE_BUILTIN_KEY env ! unat (hd program_id) then NotBuiltin
      else (case get_builtin_migration_feature_index env program_id of
              NotBuiltinIndex \<Rightarrow> NotBuiltin
            | BuiltinNoMigrationFeature \<Rightarrow> Builtin
            | BuiltinWithMigrationFeature index \<Rightarrow> MigratingBuiltin index))"

definition get_program_kind ::
  "sdk \<Rightarrow> program_kind option list \<Rightarrow> usize \<Rightarrow> pubkey_bytes \<Rightarrow> (program_kind \<times> program_kind option list) option" where
  "get_program_kind env self index program_id =
     (if unat index < length self then
        (case self ! unat index of
           Some kind \<Rightarrow> Some (kind, self)
         | None \<Rightarrow> let kind = check_program_kind env program_id in Some (kind, self[unat index := Some kind]))
      else None)"

definition budget_filter_new :: "layout \<Rightarrow> bool option list" where
  "budget_filter_new lay = replicate (unat (FILTER_SIZE lay)) None"

definition budget_check_program_id :: "sdk \<Rightarrow> pubkey_bytes \<Rightarrow> bool" where
  "budget_check_program_id env program_id =
     (if \<not> MAYBE_BUILTIN_KEY env ! unat (hd program_id) then False else program_id = compute_budget_id env)"

definition is_compute_budget_program ::
  "sdk \<Rightarrow> bool option list \<Rightarrow> usize \<Rightarrow> pubkey_bytes \<Rightarrow> (bool \<times> bool option list) option" where
  "is_compute_budget_program env self index program_id =
     (if unat index < length self then
        (case self ! unat index of
           Some flag \<Rightarrow> Some (flag, self)
         | None \<Rightarrow> let flag = budget_check_program_id env program_id in Some (flag, self[unat index := Some flag]))
      else None)"

section \<open>compute\_budget\_instruction\_details.rs\<close>

record compute_budget_instruction_details =
  requested_compute_unit_limit :: "(u8 \<times> u32) option"
  requested_compute_unit_price :: "(u8 \<times> u64) option"
  requested_heap_size :: "(u8 \<times> u32) option"
  requested_loaded_accounts_data_size_limit :: "(u8 \<times> u32) option"
  num_non_compute_budget_instructions :: u16
  num_non_migratable_builtin_instructions :: u16
  num_non_builtin_instructions :: u16
  migrating_builtin :: "u16 list"

definition details_default :: "sdk \<Rightarrow> compute_budget_instruction_details" where
  "details_default env =
     \<lparr>requested_compute_unit_limit = None, requested_compute_unit_price = None, requested_heap_size = None,
      requested_loaded_accounts_data_size_limit = None, num_non_compute_budget_instructions = 0,
      num_non_migratable_builtin_instructions = 0, num_non_builtin_instructions = 0,
      migrating_builtin = replicate (length (MIGRATING_BUILTINS_COSTS env)) 0\<rparr>"

definition process_instruction ::
  "sdk \<Rightarrow> compute_budget_instruction_details \<Rightarrow> u8 \<Rightarrow> svm_instruction \<Rightarrow>
     transaction_error + compute_budget_instruction_details" where
  "process_instruction env self index instruction =
     (case decode_compute_budget env (ix_data instruction) of
        Some (RequestHeapFrame bytes) \<Rightarrow>
          if requested_heap_size self \<noteq> None then Inl (DuplicateInstruction index)
          else Inr (self\<lparr>requested_heap_size := Some (index, bytes)\<rparr>)
      | Some (SetComputeUnitLimit limit) \<Rightarrow>
          if requested_compute_unit_limit self \<noteq> None then Inl (DuplicateInstruction index)
          else Inr (self\<lparr>requested_compute_unit_limit := Some (index, limit)\<rparr>)
      | Some (SetComputeUnitPrice micro_lamports) \<Rightarrow>
          if requested_compute_unit_price self \<noteq> None then Inl (DuplicateInstruction index)
          else Inr (self\<lparr>requested_compute_unit_price := Some (index, micro_lamports)\<rparr>)
      | Some (SetLoadedAccountsDataSizeLimit bytes) \<Rightarrow>
          if requested_loaded_accounts_data_size_limit self \<noteq> None then Inl (DuplicateInstruction index)
          else Inr (self\<lparr>requested_loaded_accounts_data_size_limit := Some (index, bytes)\<rparr>)
      | _ \<Rightarrow> Inl (InvalidInstructionData index))"

type_synonym program_instruction = "pubkey_bytes \<times> svm_instruction"

text \<open>The first pass, with the index of the instruction.\<close>

fun collect_requests :: "sdk \<Rightarrow> bool option list \<Rightarrow> usize \<Rightarrow> compute_budget_instruction_details \<Rightarrow>
    program_instruction list \<Rightarrow> (transaction_error, compute_budget_instruction_details) outcome" where
  "collect_requests env flags i details [] = Some (Inr details)"
| "collect_requests env flags i details ((program_id, instruction) # rest) =
     (case is_compute_budget_program env flags (ucast (program_id_index instruction)) program_id of
        None \<Rightarrow> None
      | Some (flag, flags) \<Rightarrow>
          if flag then
            obind (Some (process_instruction env details (ucast i) instruction)) (\<lambda>details.
              collect_requests env flags (i + 1) details rest)
          else
            collect_requests env flags (i + 1) (details\<lparr>num_non_compute_budget_instructions :=
              saturating_add (num_non_compute_budget_instructions details) 1\<rparr>) rest)"

text \<open>The second pass.\<close>

fun count_builtins :: "sdk \<Rightarrow> program_kind option list \<Rightarrow> compute_budget_instruction_details \<Rightarrow>
    program_instruction list \<Rightarrow> compute_budget_instruction_details option" where
  "count_builtins env flags details [] = Some details"
| "count_builtins env flags details ((program_id, instruction) # rest) =
     (case get_program_kind env flags (ucast (program_id_index instruction)) program_id of
        None \<Rightarrow> None
      | Some (kind, flags) \<Rightarrow>
          (case kind of
             Builtin \<Rightarrow> count_builtins env flags (details\<lparr>num_non_migratable_builtin_instructions :=
               saturating_add (num_non_migratable_builtin_instructions details) 1\<rparr>) rest
           | NotBuiltin \<Rightarrow> count_builtins env flags (details\<lparr>num_non_builtin_instructions :=
               saturating_add (num_non_builtin_instructions details) 1\<rparr>) rest
           | MigratingBuiltin index \<Rightarrow>
               let counters = migrating_builtin details in
               if unat index < length counters
               then count_builtins env flags
                 (details\<lparr>migrating_builtin := counters[unat index := saturating_add (counters ! unat index) 1]\<rparr>) rest
               else None))"

definition details_try_from :: "layout \<Rightarrow> sdk \<Rightarrow> program_instruction list \<Rightarrow>
    (transaction_error, compute_budget_instruction_details) outcome" where
  "details_try_from lay env instructions =
     obind (collect_requests env (budget_filter_new lay) 0 (details_default env) instructions) (\<lambda>details.
       if requested_compute_unit_limit details = None
       then map_option Inr (count_builtins env (builtin_filter_new lay) details instructions)
       else Some (Inr details))"

definition sanitize_requested_heap_size :: "sdk \<Rightarrow> u32 \<Rightarrow> bool" where
  "sanitize_requested_heap_size env bytes \<longleftrightarrow>
     MIN_HEAP_FRAME_BYTES env \<le> bytes \<and> bytes \<le> MAX_HEAP_FRAME_BYTES \<and> bytes mod 1024 = 0"

text \<open>The fold over the migration counters, with the index of the counter.\<close>

fun count_migrated :: "sdk \<Rightarrow> feature_set \<Rightarrow> nat \<Rightarrow> u16 list \<Rightarrow> u16 \<Rightarrow> u16 \<Rightarrow> (u16 \<times> u16) option" where
  "count_migrated env fs index [] migrated not_migrated = Some (migrated, not_migrated)"
| "count_migrated env fs index (c # rest) migrated not_migrated =
     (if c > 0 then
        (case get_migration_feature_id env index of
           None \<Rightarrow> None
         | Some feature \<Rightarrow>
             if is_active fs feature then count_migrated env fs (index + 1) rest (migrated + c) not_migrated
             else count_migrated env fs (index + 1) rest migrated (not_migrated + c))
      else count_migrated env fs (index + 1) rest migrated (not_migrated + c))"

definition calculate_default_compute_unit_limit ::
  "sdk \<Rightarrow> compute_budget_instruction_details \<Rightarrow> feature_set \<Rightarrow> u32 option" where
  "calculate_default_compute_unit_limit env self feature_set =
     (if is_active feature_set reserve_minimal_cus_for_builtin_instructions then
        (case count_migrated env feature_set 0 (migrating_builtin self) 0 0 of
           None \<Rightarrow> None
         | Some (num_migrated, num_not_migrated) \<Rightarrow>
             Some (saturating_add
               (saturating_mul (saturating_add (ucast (num_non_migratable_builtin_instructions self)) (ucast num_not_migrated))
                  MAX_BUILTIN_ALLOCATION_COMPUTE_UNIT_LIMIT)
               (saturating_mul (saturating_add (ucast (num_non_builtin_instructions self)) (ucast num_migrated))
                  DEFAULT_INSTRUCTION_COMPUTE_UNIT_LIMIT)))
      else
        Some (saturating_mul (ucast (num_non_compute_budget_instructions self)) DEFAULT_INSTRUCTION_COMPUTE_UNIT_LIMIT))"

definition sanitize_and_convert_to_compute_budget_limits ::
  "sdk \<Rightarrow> compute_budget_instruction_details \<Rightarrow> feature_set \<Rightarrow> (transaction_error, compute_budget_limits) outcome" where
  "sanitize_and_convert_to_compute_budget_limits env self feature_set =
     obind
       (case requested_heap_size self of
          Some (index, heap_size) \<Rightarrow>
            if sanitize_requested_heap_size env heap_size then Some (Inr heap_size)
            else Some (Inl (InvalidInstructionData index))
        | None \<Rightarrow> Some (Inr (MIN_HEAP_FRAME_BYTES env))) (\<lambda>heap_bytes.
     obind
       (case requested_compute_unit_limit self of
          None \<Rightarrow> map_option Inr (calculate_default_compute_unit_limit env self feature_set)
        | Some (_, limit) \<Rightarrow> Some (Inr limit)) (\<lambda>limit.
     obind
       (case requested_loaded_accounts_data_size_limit self of
          Some (_, size_limit) \<Rightarrow>
            if size_limit = 0 then Some (Inl InvalidLoadedAccountsDataSizeLimit) else Some (Inr size_limit)
        | None \<Rightarrow> Some (Inr MAX_LOADED_ACCOUNTS_DATA_SIZE_BYTES)) (\<lambda>loaded_bytes.
     Some (Inr \<lparr>updated_heap_bytes = min heap_bytes MAX_HEAP_FRAME_BYTES,
       compute_unit_limit = min limit MAX_COMPUTE_UNIT_LIMIT,
       compute_unit_price = (case requested_compute_unit_price self of None \<Rightarrow> 0 | Some (_, price) \<Rightarrow> price),
       loaded_accounts_bytes = min loaded_bytes MAX_LOADED_ACCOUNTS_DATA_SIZE_BYTES\<rparr>))))"

definition process_compute_budget_instructions ::
  "layout \<Rightarrow> sdk \<Rightarrow> program_instruction list \<Rightarrow> feature_set \<Rightarrow> (transaction_error, compute_budget_limits) outcome" where
  "process_compute_budget_instructions lay env instructions feature_set =
     obind (details_try_from lay env instructions) (\<lambda>details.
       sanitize_and_convert_to_compute_budget_limits env details feature_set)"

section \<open>Filters that remember\<close>

text \<open>
  The contract of the three filters of the runtime that are indexed by program index: an entry is
  computed on first use and reused later. As long as an index always comes with the same key, the
  filter gives the result of the check, whatever it remembers.
\<close>

definition filter_agrees :: "('k \<Rightarrow> 'v) \<Rightarrow> (nat \<Rightarrow> 'k) \<Rightarrow> 'v option list \<Rightarrow> bool" where
  "filter_agrees check key_at flags \<longleftrightarrow> (\<forall>i < length flags. \<forall>v. flags ! i = Some v \<longrightarrow> v = check (key_at i))"

locale index_filter =
  fixes lookup :: "'v option list \<Rightarrow> 'i::len word \<Rightarrow> 'k \<Rightarrow> ('v \<times> 'v option list) option"
    and check :: "'k \<Rightarrow> 'v"
  assumes hit: "unat i < length flags \<Longrightarrow> flags ! unat i = Some v \<Longrightarrow> lookup flags i k = Some (v, flags)"
    and miss: "unat i < length flags \<Longrightarrow> flags ! unat i = None \<Longrightarrow>
      lookup flags i k = Some (check k, flags[unat i := Some (check k)])"
    and outside: "length flags \<le> unat i \<Longrightarrow> lookup flags i k = None"
begin

lemma fresh: "filter_agrees check key_at (replicate n None)"
  by (simp add: filter_agrees_def)

lemma lookup_agrees:
  assumes "filter_agrees check key_at flags" and "unat i < length flags"
  shows "\<exists>flags'. lookup flags i (key_at (unat i)) = Some (check (key_at (unat i)), flags') \<and>
    length flags' = length flags \<and> filter_agrees check key_at flags'"
proof (cases "flags ! unat i")
  case None
  then show ?thesis using miss [OF assms(2) None] assms by (auto simp: filter_agrees_def nth_list_update)
next
  case (Some v)
  then have "v = check (key_at (unat i))" using assms by (simp add: filter_agrees_def)
  then show ?thesis using hit [OF assms(2) Some] assms(1) by auto
qed

end

interpretation budget_filter: index_filter "is_compute_budget_program env" "budget_check_program_id env" for env
  by unfold_locales (auto simp: is_compute_budget_program_def Let_def)

interpretation builtin_filter: index_filter "get_program_kind env" "check_program_kind env" for env
  by unfold_locales (auto simp: get_program_kind_def Let_def)

text \<open>The quick test on the first byte never changes the result of a check.\<close>

lemma budget_check_iff: "budget_check_program_id env key \<longleftrightarrow> key = compute_budget_id env"
  using compute_budget_in_table [of env] by (auto simp: budget_check_program_id_def)

lemma program_kind_iff:
  "check_program_kind env key =
     (case BUILTIN_INSTRUCTION_COSTS env key of
        None \<Rightarrow> NotBuiltin
      | Some c \<Rightarrow> (case migration_position c of None \<Rightarrow> Builtin | Some i \<Rightarrow> MigratingBuiltin i))"
  using filter_complete [of env key]
  by (auto simp: check_program_kind_def get_builtin_migration_feature_index_def split: option.splits)

section \<open>Prioritization fee\<close>

lemma prioritization_fee_value:
  "unat (get_prioritization_fee price limit) = min ((unat price * unat limit + 999999) div 1000000) (2 ^ 64 - 1)"
proof -
  let ?f = "saturating_mul (ucast price :: 128 word) (ucast limit)"
  have p: "unat price \<le> 2 ^ 64 - 1" "unat limit \<le> 2 ^ 64 - 1" using unat_less_pow [of price] unat_less_pow [of limit] by simp_all
  then have m: "unat price * unat limit \<le> (2 ^ 64 - 1) * (2 ^ 64 - 1)" by (intro mult_mono) simp_all
  have c: "unat (ucast price :: 128 word) = unat price" "unat (ucast limit :: 128 word) = unat limit"
    using p by (auto intro!: unat_ucast_small)
  have f: "unat ?f = unat price * unat limit" using m by (simp add: unat_saturating_mul c)
  have k: "unat (ucast (saturating_sub MICRO_LAMPORTS_PER_LAMPORT 1) :: 128 word) = 999999"
    by (simp add: MICRO_LAMPORTS_PER_LAMPORT_def saturating_sub_def)
  define fee where "fee = saturating_add ?f (ucast (saturating_sub MICRO_LAMPORTS_PER_LAMPORT 1)) div ucast MICRO_LAMPORTS_PER_LAMPORT"
  have fee: "unat fee = (unat price * unat limit + 999999) div 1000000"
    using m by (simp add: fee_def unat_div_distrib unat_saturating_add f k) (simp add: MICRO_LAMPORTS_PER_LAMPORT_def)
  have max: "unat (ucast (- 1 :: u64) :: 128 word) = 2 ^ 64 - 1"
    by (subst unat_ucast_small) (simp_all add: unat_max_word)
  have "get_prioritization_fee price limit = (if fee \<le> ucast (- 1 :: u64) then ucast fee else - 1)"
    by (simp add: get_prioritization_fee_def fee_def Let_def)
  moreover have "fee \<le> ucast (- 1 :: u64) \<longleftrightarrow> unat fee \<le> 2 ^ 64 - 1" by (simp only: word_le_nat_alt max)
  ultimately show ?thesis using fee
    by (auto simp: unat_ucast_small unat_max_word min_def)
qed

end
