(* ===== verification/Budget_Correct.thy ===== *)
theory Budget_Correct
  imports Compute_Budget
begin

text \<open>
  The compute budget of a transaction against its specification: which requests are accepted, and
  how many compute units a transaction gets that requests none.
\<close>

section \<open>The passes without their filters\<close>

text \<open>Every instruction comes with the key at its program index.\<close>

definition well_indexed :: "pubkey_bytes list \<Rightarrow> program_instruction list \<Rightarrow> bool" where
  "well_indexed keys pis \<longleftrightarrow>
     list_all (\<lambda>(key, ix). unat (program_id_index ix) < length keys \<and> key = keys ! unat (program_id_index ix)) pis"

fun requests :: "sdk \<Rightarrow> usize \<Rightarrow> compute_budget_instruction_details \<Rightarrow> program_instruction list \<Rightarrow>
    transaction_error + compute_budget_instruction_details" where
  "requests env i d [] = Inr d"
| "requests env i d ((key, ix) # rest) =
     (if key = compute_budget_id env
      then rbind (process_instruction env d (ucast i) ix) (\<lambda>d. requests env (i + 1) d rest)
      else requests env (i + 1)
        (d\<lparr>num_non_compute_budget_instructions := saturating_add (num_non_compute_budget_instructions d) 1\<rparr>) rest)"

lemma unat_index_cast: "unat (ucast (b :: u8) :: usize) = unat b"
  by (intro unat_ucast_small) (use unat_less_pow [of b] in simp)

lemma obind_Some: "obind (Some r) f = (case r of Inl e \<Rightarrow> Some (Inl e) | Inr x \<Rightarrow> f x)"
  by (cases r) simp_all

lemma collect_requests_eq:
  assumes "filter_agrees (budget_check_program_id env) (\<lambda>i. keys ! i) flags" and "length keys \<le> length flags"
    and "well_indexed keys pis"
  shows "collect_requests env flags i d pis = Some (requests env i d pis)"
  using assms
proof (induction pis arbitrary: flags i d)
  case (Cons p pis)
  obtain key ix where p: "p = (key, ix)" by (cases p)
  let ?j = "unat (program_id_index ix)"
  have j: "?j < length flags" "key = keys ! ?j" "well_indexed keys pis" using Cons.prems p by (auto simp: well_indexed_def)
  with budget_filter.lookup_agrees [OF Cons.prems(1), of "ucast (program_id_index ix) :: usize" ] obtain flags' where
    f: "is_compute_budget_program env flags (ucast (program_id_index ix)) key = Some (budget_check_program_id env key, flags')"
    "length flags' = length flags" "filter_agrees (budget_check_program_id env) (\<lambda>i. keys ! i) flags'"
    by (auto simp: unat_index_cast)
  have IH: "collect_requests env flags' i d pis = Some (requests env i d pis)" for i d
    using Cons.IH [OF f(3)] f(2) Cons.prems(2) j(3) by simp
  show ?case using f(1) by (simp add: p obind_Some IH budget_check_iff split: sum.splits)
qed simp

fun add_kind :: "program_kind \<Rightarrow> compute_budget_instruction_details \<Rightarrow> compute_budget_instruction_details" where
  "add_kind Builtin d = d\<lparr>num_non_migratable_builtin_instructions := saturating_add (num_non_migratable_builtin_instructions d) 1\<rparr>"
| "add_kind NotBuiltin d = d\<lparr>num_non_builtin_instructions := saturating_add (num_non_builtin_instructions d) 1\<rparr>"
| "add_kind (MigratingBuiltin i) d = d\<lparr>migrating_builtin :=
     (migrating_builtin d)[unat i := saturating_add (migrating_builtin d ! unat i) 1]\<rparr>"

lemma kind_index_bound: "check_program_kind env key = MigratingBuiltin i \<Longrightarrow> unat i < length (MIGRATING_BUILTINS_COSTS env)"
  using migration_index_bound [of env key i]
  by (auto simp: check_program_kind_def split: if_splits builtin_migration_feature_index.splits)

lemma count_builtins_eq:
  assumes "filter_agrees (check_program_kind env) (\<lambda>i. keys ! i) flags" and "length keys \<le> length flags"
    and "well_indexed keys pis" and "length (migrating_builtin d) = length (MIGRATING_BUILTINS_COSTS env)"
  shows "count_builtins env flags d pis = Some (fold (\<lambda>(key, ix). add_kind (check_program_kind env key)) pis d)"
  using assms
proof (induction pis arbitrary: flags d)
  case (Cons p pis)
  obtain key ix where p: "p = (key, ix)" by (cases p)
  let ?j = "unat (program_id_index ix)" and ?k = "check_program_kind env key"
  have j: "?j < length flags" "key = keys ! ?j" "well_indexed keys pis" using Cons.prems p by (auto simp: well_indexed_def)
  with builtin_filter.lookup_agrees [OF Cons.prems(1), of "ucast (program_id_index ix) :: usize" ] obtain flags' where
    f: "get_program_kind env flags (ucast (program_id_index ix)) key = Some (?k, flags')"
    "length flags' = length flags" "filter_agrees (check_program_kind env) (\<lambda>i. keys ! i) flags'"
    by (auto simp: unat_index_cast)
  have "length (migrating_builtin (add_kind ?k d)) = length (MIGRATING_BUILTINS_COSTS env)"
    using Cons.prems(4) by (cases ?k) simp_all
  with Cons.IH [OF f(3)] f(2) Cons.prems(2) j(3)
  have "count_builtins env flags' (add_kind ?k d) pis = Some (fold (\<lambda>(key, ix). add_kind (check_program_kind env key)) pis (add_kind ?k d))"
    by simp
  moreover have "count_builtins env flags d (p # pis) = count_builtins env flags' (add_kind ?k d) pis"
    using f(1) kind_index_bound [of env key] Cons.prems(4) by (cases ?k) (auto simp: p Let_def)
  ultimately show ?case by (simp add: p)
qed simp

section \<open>Which requests are accepted\<close>

datatype request_kind = HeapFrame | UnitLimit | UnitPrice | LoadedSize

fun kind_of :: "compute_budget_instruction option \<Rightarrow> request_kind option" where
  "kind_of (Some (RequestHeapFrame _)) = Some HeapFrame"
| "kind_of (Some (SetComputeUnitLimit _)) = Some UnitLimit"
| "kind_of (Some (SetComputeUnitPrice _)) = Some UnitPrice"
| "kind_of (Some (SetLoadedAccountsDataSizeLimit _)) = Some LoadedSize"
| "kind_of _ = None"

definition decoded_requests :: "sdk \<Rightarrow> program_instruction list \<Rightarrow> compute_budget_instruction option list" where
  "decoded_requests env pis = map (\<lambda>(key, ix). decode_compute_budget env (ix_data ix)) (filter (\<lambda>(key, ix). key = compute_budget_id env) pis)"

fun value_of :: "compute_budget_instruction option \<Rightarrow> nat" where
  "value_of (Some (RequestHeapFrame n)) = unat n"
| "value_of (Some (SetComputeUnitLimit n)) = unat n"
| "value_of (Some (SetComputeUnitPrice n)) = unat n"
| "value_of (Some (SetLoadedAccountsDataSizeLimit n)) = unat n"
| "value_of _ = 0"

definition recorded :: "compute_budget_instruction_details \<Rightarrow> request_kind \<rightharpoonup> nat" where
  "recorded d k = (case k of
     HeapFrame \<Rightarrow> map_option (\<lambda>(_, n). unat n) (requested_heap_size d)
   | UnitLimit \<Rightarrow> map_option (\<lambda>(_, n). unat n) (requested_compute_unit_limit d)
   | UnitPrice \<Rightarrow> map_option (\<lambda>(_, n). unat n) (requested_compute_unit_price d)
   | LoadedSize \<Rightarrow> map_option (\<lambda>(_, n). unat n) (requested_loaded_accounts_data_size_limit d))"

text \<open>The requests of a list of instructions, by kind.\<close>

definition requested :: "compute_budget_instruction option list \<Rightarrow> request_kind \<rightharpoonup> nat" where
  "requested bs = map_of (rev (map (\<lambda>b. (the (kind_of b), value_of b)) bs))"

lemma requested_Cons: "kind_of b = Some k \<Longrightarrow> m ++ requested (b # bs) = m(k \<mapsto> value_of b) ++ requested bs"
  by (simp add: requested_def)

lemma dom_requested: "dom (requested bs) = (the \<circ> kind_of) ` set bs"
  by (auto simp: requested_def dom_map_of_conv_image_fst image_iff)

lemma process_instruction_ok:
  "(\<exists>d'. process_instruction env d i ix = Inr d') \<longleftrightarrow>
     (\<exists>k. kind_of (decode_compute_budget env (ix_data ix)) = Some k \<and> recorded d k = None)"
proof (cases "decode_compute_budget env (ix_data ix)")
  case (Some b)
  then show ?thesis by (cases b) (simp_all add: process_instruction_def recorded_def del: split_paired_All split_paired_Ex)
qed (simp add: process_instruction_def)

lemma process_instruction_recorded:
  assumes "process_instruction env d i ix = Inr d'" and "kind_of (decode_compute_budget env (ix_data ix)) = Some k"
  shows "recorded d' = (recorded d)(k \<mapsto> value_of (decode_compute_budget env (ix_data ix)))"
proof (cases "decode_compute_budget env (ix_data ix)")
  case (Some b)
  then show ?thesis using assms
    by (cases b) (auto simp: process_instruction_def recorded_def fun_eq_iff split: if_splits request_kind.splits)
qed (use assms in simp)

lemma process_instruction_counters:
  assumes "process_instruction env d i ix = Inr d'"
  shows "num_non_compute_budget_instructions d' = num_non_compute_budget_instructions d \<and>
    num_non_migratable_builtin_instructions d' = num_non_migratable_builtin_instructions d \<and>
    num_non_builtin_instructions d' = num_non_builtin_instructions d \<and> migrating_builtin d' = migrating_builtin d"
proof (cases "decode_compute_budget env (ix_data ix)")
  case (Some b)
  then show ?thesis using assms by (cases b) (auto simp: process_instruction_def split: if_splits)
qed (use assms in \<open>simp add: process_instruction_def\<close>)

lemma recorded_count [simp]: "recorded (d\<lparr>num_non_compute_budget_instructions := n\<rparr>) = recorded d"
  by (auto simp: recorded_def fun_eq_iff split: request_kind.splits)

definition requests_valid :: "compute_budget_instruction option list \<Rightarrow> bool" where
  "requests_valid bs \<longleftrightarrow> list_all (\<lambda>b. kind_of b \<noteq> None) bs \<and> distinct (map kind_of bs)"

lemma requests_valid_Cons:
  "requests_valid (b # bs) \<longleftrightarrow> (\<exists>k. kind_of b = Some k) \<and> requests_valid bs \<and> (\<forall>c \<in> set bs. the (kind_of c) \<noteq> the (kind_of b))"
  unfolding requests_valid_def list_all_iff by (cases "kind_of b") (auto simp: image_iff, force)

lemma decoded_requests_Cons:
  "decoded_requests env ((key, ix) # pis) =
     (if key = compute_budget_id env then decode_compute_budget env (ix_data ix) # decoded_requests env pis
      else decoded_requests env pis)"
  by (simp add: decoded_requests_def)

lemma requests_ok_iff:
  "(\<exists>d'. requests env i d pis = Inr d') \<longleftrightarrow> requests_valid (decoded_requests env pis) \<and>
     (\<forall>b \<in> set (decoded_requests env pis). recorded d (the (kind_of b)) = None)"
proof (induction pis arbitrary: i d)
  case Nil
  then show ?case by (simp add: requests_valid_def decoded_requests_def)
next
  case (Cons p pis)
  obtain key ix where p: "p = (key, ix)" by (cases p)
  let ?b = "decode_compute_budget env (ix_data ix)"
  show ?case
  proof (cases "key = compute_budget_id env")
    case False
    then show ?thesis using Cons.IH [of "i + 1" "d\<lparr>num_non_compute_budget_instructions :=
        saturating_add (num_non_compute_budget_instructions d) 1\<rparr>"] by (simp add: p decoded_requests_Cons)
  next
    case True
    then have b: "decoded_requests env (p # pis) = ?b # decoded_requests env pis" by (simp add: decoded_requests_Cons p)
    show ?thesis
    proof (cases "process_instruction env d (ucast i) ix")
      case (Inl e)
      then have "\<not> (\<exists>k. kind_of ?b = Some k \<and> recorded d k = None)" using process_instruction_ok [of env d "ucast i" ix] by simp
      then have "\<not> (requests_valid (?b # decoded_requests env pis) \<and> recorded d (the (kind_of ?b)) = None)"
        by (auto simp: requests_valid_def)
      moreover have "requests env i d (p # pis) = Inl e" using True Inl by (simp add: p)
      ultimately show ?thesis unfolding b by auto
    next
      case (Inr d')
      then obtain k where k: "kind_of ?b = Some k" "recorded d k = None" using process_instruction_ok [of env d "ucast i" ix] by blast
      have "(\<exists>d''. requests env i d (p # pis) = Inr d'') \<longleftrightarrow> (\<exists>d''. requests env (i + 1) d' pis = Inr d'')"
        using True Inr by (simp add: p)
      also have "\<dots> \<longleftrightarrow> requests_valid (decoded_requests env pis) \<and>
          (\<forall>b \<in> set (decoded_requests env pis). ((recorded d)(k \<mapsto> value_of ?b)) (the (kind_of b)) = None)"
        using Cons.IH process_instruction_recorded [OF Inr k(1)] by simp
      also have "\<dots> \<longleftrightarrow> requests_valid (decoded_requests env (p # pis)) \<and>
          (\<forall>b \<in> set (decoded_requests env (p # pis)). recorded d (the (kind_of b)) = None)"
        unfolding b requests_valid_Cons k(1) by (simp add: k) blast
      finally show ?thesis .
    qed
  qed
qed

lemma requests_recorded:
  assumes "requests env i d pis = Inr d'"
  shows "recorded d' = recorded d ++ requested (decoded_requests env pis)"
  using assms
proof (induction pis arbitrary: i d)
  case (Cons p pis)
  obtain key ix where p: "p = (key, ix)" by (cases p)
  show ?case
  proof (cases "key = compute_budget_id env")
    case True
    then obtain d1 where d1: "process_instruction env d (ucast i) ix = Inr d1" "requests env (i + 1) d1 pis = Inr d'"
      using Cons.prems by (auto simp: p rbind_eq_Inr)
    then obtain k where k: "kind_of (decode_compute_budget env (ix_data ix)) = Some k"
      using process_instruction_ok [of env d "ucast i" ix] by blast
    have "decoded_requests env (p # pis) = decode_compute_budget env (ix_data ix) # decoded_requests env pis"
      using True by (simp add: p decoded_requests_Cons)
    then show ?thesis
      by (simp only: Cons.IH [OF d1(2)] process_instruction_recorded [OF d1(1) k] requested_Cons [OF k])
  next
    case False
    then show ?thesis using Cons.IH Cons.prems by (simp add: p decoded_requests_Cons)
  qed
qed (simp add: decoded_requests_def requested_def)

lemma requests_counters:
  assumes "requests env i d pis = Inr d'"
    and "unat (num_non_compute_budget_instructions d) + length pis < 2 ^ 16"
  shows "unat (num_non_compute_budget_instructions d') =
      unat (num_non_compute_budget_instructions d) + length (filter (\<lambda>(key, ix). key \<noteq> compute_budget_id env) pis) \<and>
    num_non_migratable_builtin_instructions d' = num_non_migratable_builtin_instructions d \<and>
    num_non_builtin_instructions d' = num_non_builtin_instructions d \<and> migrating_builtin d' = migrating_builtin d"
  using assms
proof (induction pis arbitrary: i d)
  case (Cons p pis)
  obtain key ix where p: "p = (key, ix)" by (cases p)
  show ?case
  proof (cases "key = compute_budget_id env")
    case True
    then obtain d1 where d1: "process_instruction env d (ucast i) ix = Inr d1" "requests env (i + 1) d1 pis = Inr d'"
      using Cons.prems(1) by (auto simp: p rbind_eq_Inr)
    show ?thesis using Cons.IH [OF d1(2)] process_instruction_counters [OF d1(1)] Cons.prems(2) True by (simp add: p)
  next
    case False
    let ?d = "d\<lparr>num_non_compute_budget_instructions := saturating_add (num_non_compute_budget_instructions d) 1\<rparr>"
    have "unat (num_non_compute_budget_instructions ?d) = unat (num_non_compute_budget_instructions d) + 1"
      using Cons.prems(2) by (simp add: unat_saturating_add)
    then show ?thesis using Cons.IH [of "i + 1" ?d] Cons.prems False by (simp add: p)
  qed
qed simp

section \<open>The default number of compute units\<close>

text \<open>What an instruction of a program adds: little for a builtin that has not migrated.\<close>

definition allotted :: "sdk \<Rightarrow> feature_set \<Rightarrow> pubkey_bytes \<Rightarrow> nat" where
  "allotted env fs key = (if get_builtin_instruction_cost env key fs = None then 200000 else 3000)"

definition migrated :: "sdk \<Rightarrow> feature_set \<Rightarrow> nat \<Rightarrow> bool" where
  "migrated env fs i \<longleftrightarrow> (case get_migration_feature_id env i of None \<Rightarrow> False | Some f \<Rightarrow> is_active fs f)"

definition per_unit :: "bool \<Rightarrow> nat" where
  "per_unit b = (if b then 200000 else 3000)"

definition counted :: "compute_budget_instruction_details \<Rightarrow> nat" where
  "counted d = unat (num_non_migratable_builtin_instructions d) + unat (num_non_builtin_instructions d) +
     (\<Sum>i < length (migrating_builtin d). unat (migrating_builtin d ! i))"

definition weight :: "sdk \<Rightarrow> feature_set \<Rightarrow> compute_budget_instruction_details \<Rightarrow> nat" where
  "weight env fs d = per_unit False * unat (num_non_migratable_builtin_instructions d) +
     per_unit True * unat (num_non_builtin_instructions d) +
     (\<Sum>i < length (migrating_builtin d). per_unit (migrated env fs i) * unat (migrating_builtin d ! i))"

lemma sum_list_update:
  fixes xs :: "u16 list"
  assumes "i < length xs" and "unat x = unat (xs ! i) + 1"
  shows "(\<Sum>j < length xs. w j * unat (xs[i := x] ! j)) = (\<Sum>j < length xs. w j * unat (xs ! j)) + (w i :: nat)"
proof -
  have "(\<Sum>j < length xs. w j * unat (xs[i := x] ! j)) = w i * unat x + (\<Sum>j \<in> {..<length xs} - {i}. w j * unat (xs[i := x] ! j))"
    using assms(1) by (subst sum.remove [of _ i]) auto
  also have "(\<Sum>j \<in> {..<length xs} - {i}. w j * unat (xs[i := x] ! j)) = (\<Sum>j \<in> {..<length xs} - {i}. w j * unat (xs ! j))"
    by (rule sum.cong) auto
  also have "w i * unat x + \<dots> = w i + (w i * unat (xs ! i) + (\<Sum>j \<in> {..<length xs} - {i}. w j * unat (xs ! j)))"
    using assms(2) by (simp add: algebra_simps)
  also have "w i * unat (xs ! i) + (\<Sum>j \<in> {..<length xs} - {i}. w j * unat (xs ! j)) = (\<Sum>j < length xs. w j * unat (xs ! j))"
    using assms(1) by (subst sum.remove [of "{..<length xs}" i]) auto
  finally show ?thesis by simp
qed

lemma allotted_kind:
  "allotted env fs key = per_unit (case check_program_kind env key of
     NotBuiltin \<Rightarrow> True | Builtin \<Rightarrow> False | MigratingBuiltin i \<Rightarrow> migrated env fs (unat i))"
proof (cases "BUILTIN_INSTRUCTION_COSTS env key")
  case None
  then show ?thesis by (simp add: allotted_def program_kind_iff get_builtin_instruction_cost_def per_unit_def)
next
  case (Some c)
  then have "(key, c) \<in> set (MIGRATING_BUILTINS_COSTS env @ NON_MIGRATING_BUILTINS_COSTS env)"
    unfolding BUILTIN_INSTRUCTION_COSTS_def by (metis map_of_SomeD set_rev)
  then show ?thesis using Some
    by (auto simp: allotted_def program_kind_iff get_builtin_instruction_cost_def per_unit_def migrated_def
        get_migration_feature_id_def MIGRATING_BUILTINS_COSTS_def NON_MIGRATING_BUILTINS_COSTS_def)
qed

lemma add_kind_weight:
  assumes "counted d + 1 < 2 ^ 16" and "length (migrating_builtin d) = length (MIGRATING_BUILTINS_COSTS env)"
  shows "weight env fs (add_kind (check_program_kind env key) d) = weight env fs d + allotted env fs key"
    and "counted (add_kind (check_program_kind env key) d) = counted d + 1"
proof -
  let ?k = "check_program_kind env key"
  have "weight env fs (add_kind ?k d) = weight env fs d + allotted env fs key \<and> counted (add_kind ?k d) = counted d + 1"
  proof (cases ?k)
    case (MigratingBuiltin i)
    then have i: "unat i < length (migrating_builtin d)" using kind_index_bound assms(2) by simp
    have "unat (migrating_builtin d ! unat i) \<le> (\<Sum>i < length (migrating_builtin d). unat (migrating_builtin d ! i))"
      using i by (intro member_le_sum) auto
    then have u: "unat (saturating_add (migrating_builtin d ! unat i) 1) = unat (migrating_builtin d ! unat i) + 1"
      using assms(1) by (simp add: unat_saturating_add counted_def)
    show ?thesis
      using sum_list_update [OF i u, of "\<lambda>j. per_unit (migrated env fs j)"] sum_list_update [OF i u, of "\<lambda>_. 1"]
      by (simp add: MigratingBuiltin allotted_kind weight_def counted_def)
  qed (use assms(1) in \<open>simp_all add: allotted_kind weight_def counted_def unat_saturating_add\<close>)
  then show "weight env fs (add_kind ?k d) = weight env fs d + allotted env fs key"
    and "counted (add_kind ?k d) = counted d + 1" by simp_all
qed

lemma add_kind_length [simp]: "length (migrating_builtin (add_kind k d)) = length (migrating_builtin d)"
  by (cases k) simp_all

lemma fold_add_kind_weight:
  assumes "counted d + length pis < 2 ^ 16" and "length (migrating_builtin d) = length (MIGRATING_BUILTINS_COSTS env)"
  shows "let d' = fold (\<lambda>(key, ix). add_kind (check_program_kind env key)) pis d in
    weight env fs d' = weight env fs d + sum_list (map (allotted env fs \<circ> fst) pis) \<and> counted d' = counted d + length pis \<and>
    length (migrating_builtin d') = length (MIGRATING_BUILTINS_COSTS env)"
  using assms
proof (induction pis arbitrary: d)
  case (Cons p pis)
  obtain key ix where p: "p = (key, ix)" by (cases p)
  have c: "counted d + 1 < 2 ^ 16" using Cons.prems(1) by simp
  show ?case using Cons.IH [of "add_kind (check_program_kind env key) d"] add_kind_weight [OF c Cons.prems(2)] Cons.prems
    by (simp add: p Let_def)
qed simp

lemma count_migrated_value:
  assumes "k + length cs \<le> length (MIGRATING_BUILTINS_COSTS env)"
    and "unat m + unat n + (\<Sum>j < length cs. unat (cs ! j)) < 2 ^ 16"
  shows "\<exists>m' n'. count_migrated env fs k cs m n = Some (m', n') \<and>
    unat m' + unat n' = unat m + unat n + (\<Sum>j < length cs. unat (cs ! j)) \<and>
    per_unit True * unat m' + per_unit False * unat n' = per_unit True * unat m + per_unit False * unat n +
      (\<Sum>j < length cs. per_unit (migrated env fs (k + j)) * unat (cs ! j))"
  using assms
proof (induction cs arbitrary: k m n)
  case (Cons c cs)
  have s: "(\<Sum>j < length (c # cs). unat ((c # cs) ! j)) = unat c + (\<Sum>j < length cs. unat (cs ! j))"
    "(\<Sum>j < length (c # cs). per_unit (migrated env fs (k + j)) * unat ((c # cs) ! j)) =
      per_unit (migrated env fs k) * unat c + (\<Sum>j < length cs. per_unit (migrated env fs (Suc k + j)) * unat (cs ! j))"
    by (simp_all add: sum.lessThan_Suc_shift del: sum.lessThan_Suc)
  obtain f where f: "get_migration_feature_id env k = Some f" using Cons.prems(1) by (auto simp: get_migration_feature_id_Some)
  have u: "unat (m + c) = unat m + unat c" "unat (n + c) = unat n + unat c"
    using Cons.prems(2) unfolding s(1) by (auto intro!: unat_add_no_wrap)
  show ?case
  proof (cases "c > 0 \<and> is_active fs f")
    case True
    then have "count_migrated env fs k (c # cs) m n = count_migrated env fs (Suc k) cs (m + c) n" "migrated env fs k"
      using f by (simp_all add: migrated_def)
    then show ?thesis using Cons.IH [of "Suc k" "m + c" n] Cons.prems unfolding s u by (simp add: algebra_simps)
  next
    case False
    then have cm: "count_migrated env fs k (c # cs) m n = count_migrated env fs (Suc k) cs m (n + c)" using f by auto
    have w: "per_unit (migrated env fs k) * unat c = per_unit False * unat c"
      using False f by (cases "c = 0") (simp_all add: migrated_def word_neq_0_conv)
    show ?thesis using Cons.IH [of "Suc k" m "n + c"] Cons.prems unfolding s u w cm by (simp add: algebra_simps)
  qed
qed simp

lemma unat_u16_u32: "unat (ucast (n :: u16) :: u32) = unat n"
  by (intro unat_ucast_small) (use unat_less_pow [of n] in simp)

lemma default_limit_value:
  assumes "length (migrating_builtin d) = length (MIGRATING_BUILTINS_COSTS env)" and "counted d < 2 ^ 16"
  shows "\<exists>l. calculate_default_compute_unit_limit env d fs = Some l \<and>
    min (unat l) 1400000 = min (if is_active fs reserve_minimal_cus_for_builtin_instructions then weight env fs d
      else 200000 * unat (num_non_compute_budget_instructions d)) 1400000"
proof (cases "is_active fs reserve_minimal_cus_for_builtin_instructions")
  case False
  then show ?thesis
    by (simp add: calculate_default_compute_unit_limit_def unat_saturating_mul unat_u16_u32 DEFAULT_INSTRUCTION_COMPUTE_UNIT_LIMIT_def
        mult.commute)
next
  case True
  from count_migrated_value [of 0 "migrating_builtin d" env 0 0 fs] assms obtain m n where
    c: "count_migrated env fs 0 (migrating_builtin d) 0 0 = Some (m, n)"
      "200000 * unat m + 3000 * unat n = (\<Sum>j < length (migrating_builtin d). per_unit (migrated env fs j) * unat (migrating_builtin d ! j))"
    by (auto simp: counted_def per_unit_def)
  let ?b = "unat (num_non_migratable_builtin_instructions d)" and ?o = "unat (num_non_builtin_instructions d)"
  have b: "?b + unat n < 2 ^ 32" "?o + unat m < 2 ^ 32"
    using unat_less_pow [of "num_non_migratable_builtin_instructions d"] unat_less_pow [of n]
      unat_less_pow [of "num_non_builtin_instructions d"] unat_less_pow [of m] by simp_all
  have "weight env fs d = 3000 * (?b + unat n) + 200000 * (?o + unat m)" using c(2) by (simp add: weight_def per_unit_def)
  then show ?thesis using True c(1) b
    by (simp add: calculate_default_compute_unit_limit_def unat_saturating_add unat_saturating_mul unat_u16_u32
        DEFAULT_INSTRUCTION_COMPUTE_UNIT_LIMIT_def MAX_BUILTIN_ALLOCATION_COMPUTE_UNIT_LIMIT_def min_def)
qed

section \<open>The limits of a transaction\<close>

definition default_units :: "sdk \<Rightarrow> feature_set \<Rightarrow> program_instruction list \<Rightarrow> nat" where
  "default_units env fs pis =
     (if is_active fs reserve_minimal_cus_for_builtin_instructions then sum_list (map (allotted env fs \<circ> fst) pis)
      else 200000 * length (filter (\<lambda>(key, ix). key \<noteq> compute_budget_id env) pis))"

definition heap_request_ok :: "nat option \<Rightarrow> bool" where
  "heap_request_ok r \<longleftrightarrow> (case r of None \<Rightarrow> True | Some n \<Rightarrow> 32768 \<le> n \<and> n \<le> 262144 \<and> n mod 1024 = 0)"

lemma heap_size_ok: "sdk_ok env \<Longrightarrow> sanitize_requested_heap_size env n \<longleftrightarrow> 32768 \<le> unat n \<and> unat n \<le> 262144 \<and> unat n mod 1024 = 0"
proof -
  assume "sdk_ok env"
  moreover have "n mod 1024 = 0 \<longleftrightarrow> unat n mod 1024 = 0" using unat_mod_distrib [of n 1024] by (simp flip: unat_eq_0)
  ultimately show ?thesis
    by (simp add: sanitize_requested_heap_size_def sdk_ok_def MIN_HEAP_FRAME_BYTES_def MAX_HEAP_FRAME_BYTES_def word_le_nat_alt)
qed

lemma unat_min: "unat (min a b) = min (unat a) (unat b :: nat)"
  by (simp add: min_def word_le_nat_alt)

text \<open>Sanitization, in terms of the recorded requests and of the default.\<close>

lemma sanitize_value:
  assumes env: "sdk_ok env" and def: "recorded d UnitLimit = None \<Longrightarrow>
      \<exists>l. calculate_default_compute_unit_limit env d fs = Some l \<and> min (unat l) 1400000 = min units 1400000"
  shows "\<exists>r. sanitize_and_convert_to_compute_budget_limits env d fs = Some r \<and>
    (case r of
       Inl e \<Rightarrow> \<not> (heap_request_ok (recorded d HeapFrame) \<and> recorded d LoadedSize \<noteq> Some 0)
     | Inr l \<Rightarrow> heap_request_ok (recorded d HeapFrame) \<and> recorded d LoadedSize \<noteq> Some 0 \<and>
         unat (compute_unit_limit l) = min (case recorded d UnitLimit of Some n \<Rightarrow> n | None \<Rightarrow> units) 1400000 \<and>
         unat (compute_unit_price l) = (case recorded d UnitPrice of Some n \<Rightarrow> n | None \<Rightarrow> 0) \<and>
         unat (updated_heap_bytes l) = (case recorded d HeapFrame of Some n \<Rightarrow> n | None \<Rightarrow> 32768) \<and>
         unat (loaded_accounts_bytes l) = min (case recorded d LoadedSize of Some n \<Rightarrow> n | None \<Rightarrow> 67108864) 67108864)"
proof -
  define heap where "heap = (case requested_heap_size d of Some (index, n) \<Rightarrow>
      if sanitize_requested_heap_size env n then Some (Inr n) else Some (Inl (InvalidInstructionData index))
    | None \<Rightarrow> Some (Inr (MIN_HEAP_FRAME_BYTES env)))"
  define cu :: "(transaction_error, u32) outcome" where "cu = (case requested_compute_unit_limit d of
      None \<Rightarrow> map_option Inr (calculate_default_compute_unit_limit env d fs) | Some (_, limit) \<Rightarrow> Some (Inr limit))"
  define ld where "ld = (case requested_loaded_accounts_data_size_limit d of
      Some (_, n) \<Rightarrow> if n = 0 then Some (Inl InvalidLoadedAccountsDataSizeLimit) else Some (Inr n)
    | None \<Rightarrow> Some (Inr MAX_LOADED_ACCOUNTS_DATA_SIZE_BYTES))"
  have h: "\<exists>r. heap = Some r \<and> (case r of Inl e \<Rightarrow> \<not> heap_request_ok (recorded d HeapFrame) | Inr n \<Rightarrow>
      heap_request_ok (recorded d HeapFrame) \<and> unat n = (case recorded d HeapFrame of Some n \<Rightarrow> n | None \<Rightarrow> 32768) \<and> unat n \<le> 262144)"
    using env by (auto simp: heap_def recorded_def heap_request_ok_def heap_size_ok sdk_ok_def MIN_HEAP_FRAME_BYTES_def
        split: option.splits)
  have c: "\<exists>n. cu = Some (Inr n) \<and> min (unat n) 1400000 = min (case recorded d UnitLimit of Some n \<Rightarrow> n | None \<Rightarrow> units) 1400000"
    using def by (auto simp: cu_def recorded_def split: option.splits)
  have l: "\<exists>r. ld = Some r \<and> (case r of Inl e \<Rightarrow> recorded d LoadedSize = Some 0 | Inr n \<Rightarrow>
      recorded d LoadedSize \<noteq> Some 0 \<and> unat n = (case recorded d LoadedSize of Some n \<Rightarrow> n | None \<Rightarrow> 67108864))"
    by (auto simp: ld_def recorded_def MAX_LOADED_ACCOUNTS_DATA_SIZE_BYTES_def unat_eq_0 split: option.splits)
  have pr: "unat (case requested_compute_unit_price d of None \<Rightarrow> 0 | Some (_, price) \<Rightarrow> price) =
      (case recorded d UnitPrice of Some n \<Rightarrow> n | None \<Rightarrow> 0)" by (auto simp: recorded_def split: option.splits)
  from h c l obtain r1 n r3 where r: "heap = Some r1" "cu = Some (Inr n)" "ld = Some r3" by blast
  show ?thesis
    unfolding sanitize_and_convert_to_compute_budget_limits_def heap_def [symmetric] cu_def [symmetric] ld_def [symmetric] r
    using h c l r pr by (cases r1; cases r3)
      (auto simp: unat_min MAX_HEAP_FRAME_BYTES_def MAX_COMPUTE_UNIT_LIMIT_def MAX_LOADED_ACCOUNTS_DATA_SIZE_BYTES_def)
qed

lemma recorded_add_kind [simp]: "recorded (add_kind k d) = recorded d"
  by (cases k) (auto simp: recorded_def fun_eq_iff split: request_kind.splits)

lemma fold_add_kind_fields:
  "recorded (fold (\<lambda>(key, ix). add_kind (check_program_kind env key)) pis d) = recorded d \<and>
   num_non_compute_budget_instructions (fold (\<lambda>(key, ix). add_kind (check_program_kind env key)) pis d) =
     num_non_compute_budget_instructions d"
proof (induction pis arbitrary: d)
  case (Cons p pis)
  have "num_non_compute_budget_instructions (add_kind k d) = num_non_compute_budget_instructions d" for k
    by (cases k) simp_all
  then show ?case using Cons.IH by (simp add: case_prod_beta)
qed simp

lemma recorded_limit_None: "recorded d UnitLimit = None \<longleftrightarrow> requested_compute_unit_limit d = None"
  by (simp add: recorded_def)

lemma details_default_recorded: "recorded (details_default env) = Map.empty"
  by (auto simp: recorded_def details_default_def fun_eq_iff split: request_kind.splits)

text \<open>Collecting the details of a transaction: it never panics, and what it records.\<close>

lemma details_try_from_value:
  assumes lay: "layout_ok lay" and w: "well_indexed keys pis" and k: "length keys \<le> 38" and n: "length pis < 2 ^ 16"
  shows "\<exists>r. details_try_from lay env pis = Some r \<and>
    (case r of
       Inl e \<Rightarrow> \<not> requests_valid (decoded_requests env pis)
     | Inr d \<Rightarrow> requests_valid (decoded_requests env pis) \<and> recorded d = requested (decoded_requests env pis) \<and>
         (recorded d UnitLimit = None \<longrightarrow> (\<exists>l. calculate_default_compute_unit_limit env d fs = Some l \<and>
            min (unat l) 1400000 = min (default_units env fs pis) 1400000)))"
proof -
  have sz: "unat (FILTER_SIZE lay) = 38" using lay by (simp add: layout_ok_def FILTER_SIZE_def)
  let ?d0 = "details_default env"
  have c: "collect_requests env (budget_filter_new lay) 0 ?d0 pis = Some (requests env 0 ?d0 pis)"
    using k w budget_filter.fresh by (intro collect_requests_eq [of env keys]) (simp_all add: budget_filter_new_def sz)
  show ?thesis
  proof (cases "requests env 0 ?d0 pis")
    case (Inl e)
    then have "\<not> requests_valid (decoded_requests env pis)"
      using requests_ok_iff [of env 0 ?d0 pis] by (simp add: details_default_recorded)
    then show ?thesis using c Inl by (simp add: details_try_from_def)
  next
    case (Inr d)
    have v: "requests_valid (decoded_requests env pis)"
      using requests_ok_iff [of env 0 ?d0 pis] Inr by blast
    have r: "recorded d = requested (decoded_requests env pis)"
      using requests_recorded [OF Inr] by (simp add: details_default_recorded)
    have cnt: "unat (num_non_compute_budget_instructions d) = length (filter (\<lambda>(key, ix). key \<noteq> compute_budget_id env) pis)"
        "length (migrating_builtin d) = length (MIGRATING_BUILTINS_COSTS env)" "counted d = 0" "weight env fs d = 0"
      using requests_counters [OF Inr] n by (simp_all add: details_default_def counted_def weight_def)
    show ?thesis
    proof (cases "requested_compute_unit_limit d = None")
      case False
      then have "recorded d UnitLimit \<noteq> None" by (simp only: recorded_limit_None not_False_eq_True)
      moreover have "details_try_from lay env pis = Some (Inr d)" using False c Inr by (auto simp: details_try_from_def)
      ultimately show ?thesis using v r by auto
    next
      case True
      define d' where "d' = fold (\<lambda>(key, ix). add_kind (check_program_kind env key)) pis d"
      have b: "count_builtins env (builtin_filter_new lay) d pis = Some d'"
        unfolding d'_def using k w cnt(2) builtin_filter.fresh
        by (intro count_builtins_eq [of env keys]) (simp_all add: builtin_filter_new_def sz)
      have f: "weight env fs d' = sum_list (map (allotted env fs \<circ> fst) pis)" "counted d' < 2 ^ 16"
          "length (migrating_builtin d') = length (MIGRATING_BUILTINS_COSTS env)"
        using fold_add_kind_weight [of d pis env fs] cnt n by (simp_all add: d'_def Let_def)
      have g: "recorded d' = recorded d" "num_non_compute_budget_instructions d' = num_non_compute_budget_instructions d"
        using fold_add_kind_fields [of env pis d] by (simp_all add: d'_def)
      have "(if is_active fs reserve_minimal_cus_for_builtin_instructions then weight env fs d'
          else 200000 * unat (num_non_compute_budget_instructions d')) = default_units env fs pis"
        by (simp add: f(1) g(2) cnt(1) default_units_def)
      with default_limit_value [OF f(3,2), of fs] obtain l where "calculate_default_compute_unit_limit env d' fs = Some l"
        "min (unat l) 1400000 = min (default_units env fs pis) 1400000" by auto
      moreover have "details_try_from lay env pis = Some (Inr d')" using True c Inr b by (simp add: details_try_from_def)
      ultimately show ?thesis using v r g(1) by auto
    qed
  qed
qed

section \<open>Properties\<close>

text \<open>C25. The compute budget of a transaction, for instructions whose program index is below the number of
  keys that fit in a packet: processing never panics. It succeeds if and only if every compute budget
  instruction decodes to a request, no request is made twice, a requested heap is a multiple of 1024
  between 32 and 256 KiB, and the requested size of loaded accounts is not zero. Then each limit is the
  requested value, capped at its maximum; without a requested compute unit limit, it is 3000 units for
  each instruction of a builtin that has not migrated and 200000 for every other one (with the feature;
  without it, 200000 for each instruction that is not a compute budget instruction), at most 1400000.\<close>

theorem compute_budget_exact:
  assumes "layout_ok lay" and "sdk_ok env" and "well_indexed keys pis" and "length keys \<le> 38" and "length pis < 2 ^ 16"
  shows "\<exists>r. process_compute_budget_instructions lay env pis fs = Some r \<and>
    (let bs = decoded_requests env pis; req = requested bs;
         valid = (requests_valid bs \<and> heap_request_ok (req HeapFrame) \<and> req LoadedSize \<noteq> Some 0)
     in case r of
          Inl e \<Rightarrow> \<not> valid
        | Inr l \<Rightarrow> valid \<and>
            unat (compute_unit_limit l) = min (case req UnitLimit of Some n \<Rightarrow> n | None \<Rightarrow> default_units env fs pis) 1400000 \<and>
            unat (compute_unit_price l) = (case req UnitPrice of Some n \<Rightarrow> n | None \<Rightarrow> 0) \<and>
            unat (updated_heap_bytes l) = (case req HeapFrame of Some n \<Rightarrow> n | None \<Rightarrow> 32768) \<and>
            unat (loaded_accounts_bytes l) = min (case req LoadedSize of Some n \<Rightarrow> n | None \<Rightarrow> 67108864) 67108864)"
proof -
  obtain r where r: "details_try_from lay env pis = Some r" "case r of
       Inl e \<Rightarrow> \<not> requests_valid (decoded_requests env pis)
     | Inr d \<Rightarrow> requests_valid (decoded_requests env pis) \<and> recorded d = requested (decoded_requests env pis) \<and>
         (recorded d UnitLimit = None \<longrightarrow> (\<exists>l. calculate_default_compute_unit_limit env d fs = Some l \<and>
            min (unat l) 1400000 = min (default_units env fs pis) 1400000))"
    using details_try_from_value [OF assms(1,3-5)] by blast
  show ?thesis
  proof (cases r)
    case (Inl e)
    then show ?thesis using r by (simp add: process_compute_budget_instructions_def Let_def)
  next
    case (Inr d)
    then have d: "requests_valid (decoded_requests env pis)" "recorded d = requested (decoded_requests env pis)"
      "recorded d UnitLimit = None \<Longrightarrow> \<exists>l. calculate_default_compute_unit_limit env d fs = Some l \<and>
         min (unat l) 1400000 = min (default_units env fs pis) 1400000" using r(2) by simp_all
    show ?thesis using sanitize_value [OF assms(2) d(3)] d(1) r(1) Inr unfolding d(2) Let_def
      by (auto simp: process_compute_budget_instructions_def split: sum.splits)
  qed
qed

definition sample_sdk :: sdk where
  "sample_sdk = \<lparr>stake_id = replicate 32 1, config_id = replicate 32 2, address_lookup_table_id = replicate 32 3,
     vote_id = replicate 32 4, system_program_id = replicate 32 0, compute_budget_id = replicate 32 6,
     bpf_loader_upgradeable_id = replicate 32 7, bpf_loader_deprecated_id = replicate 32 8, bpf_loader_id = replicate 32 9,
     loader_v4_id = replicate 32 10, secp256k1_program_id = replicate 32 11, ed25519_program_id = replicate 32 12,
     secp256r1_program_id = replicate 32 13, HEAP_LENGTH = 32 * 1024,
     decode_compute_budget = (\<lambda>bs. if bs = [2] then Some (SetComputeUnitLimit 5000) else None),
     decode_system = (\<lambda>bs. None), memory_usage_cost = (\<lambda>n c. 8), MAX_PERMITTED_DATA_LENGTH = 10485760,
     MAX_PERMITTED_ALLOCATIONS = 20971520\<rparr>"

lemma sample_sdk_ok: "sdk_ok sample_sdk"
  by (simp add: sdk_ok_def all_ids_def sample_sdk_def)

theorem compute_budget_exact_witness:
  "\<exists>l. process_compute_budget_instructions sample_layout sample_sdk
      [(replicate 32 6, \<lparr>program_id_index = 0, ix_accounts = [], ix_data = [2]\<rparr>)] {} = Some (Inr l) \<and>
    unat (compute_unit_limit l) = 5000"
proof -
  let ?pis = "[(replicate 32 6 :: u8 list, \<lparr>program_id_index = 0, ix_accounts = [], ix_data = [2]\<rparr>)]"
  have bs: "decoded_requests sample_sdk ?pis = [Some (SetComputeUnitLimit 5000)]"
    by (simp add: decoded_requests_def sample_sdk_def)
  have w: "well_indexed [replicate 32 6] ?pis" "length [replicate 32 (6 :: u8)] \<le> 38" "length ?pis < 2 ^ 16"
    by (simp_all add: well_indexed_def)
  from compute_budget_exact [OF sample_layout_ok sample_sdk_ok w, of "{}", unfolded Let_def bs]
  show ?thesis by (elim exE conjE) (simp_all add: requested_def requests_valid_def heap_request_ok_def split: sum.splits)
qed

text \<open>The prioritization fee is the price times the limit, in micro-lamports, rounded up to whole
  lamports, and the maximum of \<open>u64\<close> where that does not fit: the \<open>u128\<close> arithmetic never saturates.\<close>

theorem prioritization_fee_exact:
  "unat (get_prioritization_fee price limit) = min ((unat price * unat limit + 999999) div 1000000) (2 ^ 64 - 1)"
  by (rule prioritization_fee_value)

end
