(* ===== verification/Runtime_Tx.thy ===== *)
theory Runtime_Tx
  imports Tx_Resolved Budget_Correct
begin

text \<open>
  Runtime transactions over transaction views (\<^verbatim>\<open>runtime-transaction/src\<close>) and the default methods
  of the message interface (\<^verbatim>\<open>svm-transaction/src/svm_message.rs\<close>).

  The hash of a message and the test for simple votes belong to other crates and are arguments.
\<close>

section \<open>signature\_details.rs\<close>

record precompile_signature_details =
  pd_num_secp256k1_instruction_signatures :: u64
  pd_num_ed25519_instruction_signatures :: u64
  pd_num_secp256r1_instruction_signatures :: u64

datatype program_id_status = NotSignature | Secp256k1 | Ed25519 | Secp256r1

definition get_num_signatures_in_instruction :: "svm_instruction \<Rightarrow> u64" where
  "get_num_signatures_in_instruction instruction =
     ucast (case ix_data instruction of b # _ \<Rightarrow> b | [] \<Rightarrow> 0)"

definition signature_filter_new :: "layout \<Rightarrow> program_id_status option list" where
  "signature_filter_new lay = replicate (unat (MAX_STATIC_ACCOUNTS_PER_PACKET lay)) None"

definition signature_check_program_id :: "sdk \<Rightarrow> pubkey_bytes \<Rightarrow> program_id_status" where
  "signature_check_program_id env program_id =
     (if program_id = secp256k1_program_id env then Secp256k1
      else if program_id = ed25519_program_id env then Ed25519
      else if program_id = secp256r1_program_id env then Secp256r1
      else NotSignature)"

definition is_signature ::
  "sdk \<Rightarrow> program_id_status option list \<Rightarrow> u8 \<Rightarrow> pubkey_bytes \<Rightarrow> (program_id_status \<times> program_id_status option list) option" where
  "is_signature env self index program_id =
     (if unat index < length self then
        (case self ! unat index of
           Some status \<Rightarrow> Some (status, self)
         | None \<Rightarrow> let status = signature_check_program_id env program_id in Some (status, self[unat index := Some status]))
      else None)"

fun precompile_loop :: "sdk \<Rightarrow> program_id_status option list \<Rightarrow> precompile_signature_details \<Rightarrow>
    program_instruction list \<Rightarrow> precompile_signature_details option" where
  "precompile_loop env flags details [] = Some details"
| "precompile_loop env flags details ((program_id, instruction) # rest) =
     (case is_signature env flags (program_id_index instruction) program_id of
        None \<Rightarrow> None
      | Some (status, flags) \<Rightarrow>
          let n = get_num_signatures_in_instruction instruction in
          precompile_loop env flags
            (case status of
               NotSignature \<Rightarrow> details
             | Secp256k1 \<Rightarrow> details\<lparr>pd_num_secp256k1_instruction_signatures := pd_num_secp256k1_instruction_signatures details + n\<rparr>
             | Ed25519 \<Rightarrow> details\<lparr>pd_num_ed25519_instruction_signatures := pd_num_ed25519_instruction_signatures details + n\<rparr>
             | Secp256r1 \<Rightarrow> details\<lparr>pd_num_secp256r1_instruction_signatures := pd_num_secp256r1_instruction_signatures details + n\<rparr>)
            rest)"

definition get_precompile_signature_details ::
  "layout \<Rightarrow> sdk \<Rightarrow> program_instruction list \<Rightarrow> precompile_signature_details option" where
  "get_precompile_signature_details lay env instructions =
     precompile_loop env (signature_filter_new lay)
       \<lparr>pd_num_secp256k1_instruction_signatures = 0, pd_num_ed25519_instruction_signatures = 0,
        pd_num_secp256r1_instruction_signatures = 0\<rparr> instructions"

section \<open>svm\_message.rs\<close>

text \<open>A message, by what the required methods of the interface return.\<close>

record svm_message =
  msg_num_transaction_signatures :: u64
  msg_num_write_locks :: u64
  msg_recent_blockhash :: hash_bytes
  msg_program_instructions :: "program_instruction list"
  msg_account_keys :: "pubkey_bytes list"
  msg_is_writable :: "usize \<Rightarrow> bool"
  msg_is_signer :: "usize \<Rightarrow> bool"

definition default_precompile_signature_count :: "pubkey_bytes \<Rightarrow> program_instruction list \<Rightarrow> u64" where
  "default_precompile_signature_count precompile instructions =
     sum_list (map (\<lambda>(_, ix). ucast (case ix_data ix of b # _ \<Rightarrow> b | [] \<Rightarrow> 0))
       (filter (\<lambda>(program_id, _). program_id = precompile) instructions))"

definition is_instruction_account :: "svm_message \<Rightarrow> usize \<Rightarrow> bool" where
  "is_instruction_account self key_index =
     (if key_index \<le> 0xFF
      then list_ex (\<lambda>(_, ix). ucast key_index \<in> set (ix_accounts ix)) (msg_program_instructions self)
      else False)"

definition keys_get :: "pubkey_bytes list \<Rightarrow> usize \<Rightarrow> pubkey_bytes option" where
  "keys_get keys i = (if unat i < length keys then Some (keys ! unat i) else None)"

definition get_durable_nonce :: "sdk \<Rightarrow> svm_message \<Rightarrow> pubkey_bytes option" where
  "get_durable_nonce env self =
     (case msg_program_instructions self of
        [] \<Rightarrow> None
      | (_, ix) # _ \<Rightarrow>
          if (case keys_get (msg_account_keys self) (ucast (program_id_index ix)) of
                Some program_id \<Rightarrow> program_id = system_program_id env
              | None \<Rightarrow> False)
            \<and> 4 \<le> length (ix_data ix) \<and> take 4 (ix_data ix) = [4, 0, 0, 0]
          then
            (case ix_accounts ix of
               [] \<Rightarrow> None
             | idx # _ \<Rightarrow>
                 let index = ucast idx in
                 if \<not> msg_is_writable self index then None else keys_get (msg_account_keys self) index)
          else None)"

definition get_ix_signers :: "svm_message \<Rightarrow> usize \<Rightarrow> pubkey_bytes list" where
  "get_ix_signers self index =
     (if unat index < length (msg_program_instructions self)
      then List.map_filter (keys_get (msg_account_keys self))
        (filter (msg_is_signer self) (map ucast (ix_accounts (snd (msg_program_instructions self ! unat index)))))
      else [])"

section \<open>runtime\_transaction.rs and transaction\_meta.rs\<close>

record transaction_signature_details =
  sd_num_transaction_signatures :: u64
  sd_num_secp256k1_instruction_signatures :: u64
  sd_num_ed25519_instruction_signatures :: u64
  sd_num_secp256r1_instruction_signatures :: u64

record transaction_meta =
  message_hash :: hash_bytes
  is_simple_vote_transaction :: bool
  signature_details :: transaction_signature_details
  compute_budget_details :: compute_budget_instruction_details

record 't runtime_transaction =
  rt_transaction :: 't
  rt_meta :: transaction_meta

datatype message_hash_arg = Precomputed hash_bytes | Compute

type_synonym vote_checker = "signature_bytes list \<Rightarrow> bool \<Rightarrow> pubkey_bytes list \<Rightarrow> bool"

definition view_is_simple_vote :: "layout \<Rightarrow> vote_checker \<Rightarrow> transaction_view \<Rightarrow> bool option" where
  "view_is_simple_vote lay is_simple_vote_impl transaction = do {
     sigs \<leftarrow> signatures lay transaction;
     pis \<leftarrow> program_instructions lay transaction;
     Some (is_simple_vote_impl sigs (version transaction = Legacy) (map fst pis))
   }"

definition runtime_try_from_view :: "layout \<Rightarrow> sdk \<Rightarrow> (u8 list \<Rightarrow> hash_bytes) \<Rightarrow> vote_checker \<Rightarrow> transaction_view \<Rightarrow>
    message_hash_arg \<Rightarrow> bool option \<Rightarrow> (transaction_error, transaction_view runtime_transaction) outcome" where
  "runtime_try_from_view lay env hash_raw_message is_simple_vote_impl transaction hash_arg is_simple_vote_tx = do {
     hash \<leftarrow> (case hash_arg of
       Precomputed hash \<Rightarrow> Some hash
     | Compute \<Rightarrow> map_option hash_raw_message (message_data transaction));
     is_vote \<leftarrow> (case is_simple_vote_tx of
       Some b \<Rightarrow> Some b
     | None \<Rightarrow> view_is_simple_vote lay is_simple_vote_impl transaction);
     pis \<leftarrow> program_instructions lay transaction;
     precompile \<leftarrow> get_precompile_signature_details lay env pis;
     let sig_details = \<lparr>sd_num_transaction_signatures = ucast (num_required_signatures transaction),
       sd_num_secp256k1_instruction_signatures = pd_num_secp256k1_instruction_signatures precompile,
       sd_num_ed25519_instruction_signatures = pd_num_ed25519_instruction_signatures precompile,
       sd_num_secp256r1_instruction_signatures = pd_num_secp256r1_instruction_signatures precompile\<rparr>;
     obind (details_try_from lay env pis) (\<lambda>details.
       Some (Inr \<lparr>rt_transaction = transaction, rt_meta = \<lparr>message_hash = hash, is_simple_vote_transaction = is_vote,
         signature_details = sig_details, compute_budget_details = details\<rparr>\<rparr>))
   }"

definition runtime_try_from_resolved :: "layout \<Rightarrow> account_keys_new \<Rightarrow> pubkey_bytes \<Rightarrow> transaction_view runtime_transaction \<Rightarrow>
    loaded_addresses option \<Rightarrow> pubkey_bytes set \<Rightarrow> (transaction_error, resolved_transaction_view runtime_transaction) outcome" where
  "runtime_try_from_resolved lay account_keys loader_id tx loaded reserved =
     (case resolved_try_new lay account_keys loader_id (rt_transaction tx) loaded reserved of
        None \<Rightarrow> None
      | Some (Inl _) \<Rightarrow> Some (Inl SanitizeFailure)
      | Some (Inr view) \<Rightarrow> Some (Inr \<lparr>rt_transaction = view, rt_meta = rt_meta tx\<rparr>))"

text \<open>The interface of a resolved view.\<close>

definition message_of :: "layout \<Rightarrow> account_keys_new \<Rightarrow> resolved_transaction_view \<Rightarrow> svm_message option" where
  "message_of lay account_keys self = do {
     blockhash \<leftarrow> recent_blockhash lay (rv_view self);
     pis \<leftarrow> program_instructions lay (rv_view self);
     keys \<leftarrow> account_keys_of lay account_keys self;
     Some \<lparr>msg_num_transaction_signatures = num_transaction_signatures self,
       msg_num_write_locks = num_write_locks self, msg_recent_blockhash = blockhash, msg_program_instructions = pis,
       msg_account_keys = keys, msg_is_writable = is_writable self, msg_is_signer = is_signer self\<rparr>
   }"

section \<open>The signature filter\<close>

interpretation signature_filter: index_filter "is_signature env" "signature_check_program_id env" for env
  by unfold_locales (auto simp: is_signature_def Let_def)

text \<open>The counts without the filter, by program.\<close>

definition precompile_counts :: "sdk \<Rightarrow> program_instruction list \<Rightarrow> precompile_signature_details" where
  "precompile_counts env pis =
     \<lparr>pd_num_secp256k1_instruction_signatures = default_precompile_signature_count (secp256k1_program_id env) pis,
      pd_num_ed25519_instruction_signatures = default_precompile_signature_count (ed25519_program_id env) pis,
      pd_num_secp256r1_instruction_signatures = default_precompile_signature_count (secp256r1_program_id env) pis\<rparr>"

definition add_counts :: "precompile_signature_details \<Rightarrow> precompile_signature_details \<Rightarrow> precompile_signature_details" where
  "add_counts a b =
     \<lparr>pd_num_secp256k1_instruction_signatures = pd_num_secp256k1_instruction_signatures a + pd_num_secp256k1_instruction_signatures b,
      pd_num_ed25519_instruction_signatures = pd_num_ed25519_instruction_signatures a + pd_num_ed25519_instruction_signatures b,
      pd_num_secp256r1_instruction_signatures = pd_num_secp256r1_instruction_signatures a + pd_num_secp256r1_instruction_signatures b\<rparr>"

lemma default_count_Cons:
  "default_precompile_signature_count precompile ((key, ix) # pis) =
     (if key = precompile then get_num_signatures_in_instruction ix else 0) + default_precompile_signature_count precompile pis"
  by (simp add: default_precompile_signature_count_def get_num_signatures_in_instruction_def)

lemma sdk_distinct:
  assumes "sdk_ok env"
  shows "secp256k1_program_id env \<noteq> ed25519_program_id env" "secp256k1_program_id env \<noteq> secp256r1_program_id env"
    "ed25519_program_id env \<noteq> secp256r1_program_id env"
  using assms by (auto simp: sdk_ok_def all_ids_def)

lemma precompile_loop_eq:
  assumes "sdk_ok env" and "filter_agrees (signature_check_program_id env) (\<lambda>i. keys ! i) flags" and "length keys \<le> length flags"
    and "well_indexed keys pis"
  shows "precompile_loop env flags d pis = Some (add_counts d (precompile_counts env pis))"
  using assms(2-)
proof (induction pis arbitrary: flags d)
  case Nil
  then show ?case by (simp add: add_counts_def precompile_counts_def default_precompile_signature_count_def)
next
  case (Cons p pis)
  obtain key ix where p: "p = (key, ix)" by (cases p)
  let ?j = "unat (program_id_index ix)" and ?s = "signature_check_program_id env key"
  have j: "?j < length flags" "key = keys ! ?j" "well_indexed keys pis" using Cons.prems p by (auto simp: well_indexed_def)
  with signature_filter.lookup_agrees [OF Cons.prems(1), of "program_id_index ix"] obtain flags' where
    f: "is_signature env flags (program_id_index ix) key = Some (?s, flags')"
    "length flags' = length flags" "filter_agrees (signature_check_program_id env) (\<lambda>i. keys ! i) flags'" by auto
  have IH: "precompile_loop env flags' d pis = Some (add_counts d (precompile_counts env pis))" for d
    using Cons.IH [OF f(3)] f(2) Cons.prems(2) j(3) by simp
  show ?case using f(1) sdk_distinct [OF assms(1)]
    by (auto simp: p IH Let_def signature_check_program_id_def add_counts_def precompile_counts_def default_count_Cons add.assoc)
qed

lemma precompile_details_value:
  assumes "layout_ok lay" and "sdk_ok env" and "well_indexed keys pis" and "length keys \<le> 38"
  shows "get_precompile_signature_details lay env pis = Some (precompile_counts env pis)"
proof -
  have "length keys \<le> length (signature_filter_new lay)" using assms(4) by (simp add: signature_filter_new_def layout_sizes [OF assms(1)])
  then show ?thesis
    using precompile_loop_eq [OF assms(2) _ _ assms(3), of "signature_filter_new lay"] signature_filter.fresh
    by (simp add: get_precompile_signature_details_def signature_filter_new_def add_counts_def precompile_counts_def)
qed

section \<open>Runtime transactions over sanitized views\<close>

lemma view_program_instructions:
  assumes "packet_ok lay tx" and "sanitized tx"
  obtains pis where "program_instructions lay (view_of tx) = Some pis" "well_indexed (tx_account_keys tx) pis"
    "length (tx_account_keys tx) \<le> 38" "length pis < 2 ^ 16"
proof
  show "program_instructions lay (view_of tx) =
      Some (map (\<lambda>ix. (tx_account_keys tx ! unat (program_id_index ix), ix)) (tx_instructions tx))"
    by (rule program_instructions_view [OF assms])
  show "well_indexed (tx_account_keys tx) (map (\<lambda>ix. (tx_account_keys tx ! unat (program_id_index ix), ix)) (tx_instructions tx))"
    using assms(2) by (auto simp: well_indexed_def sanitized_def list_all_iff instruction_indexes_ok_def)
qed (use packet_counts [OF assms(1)] in simp_all)

definition details_of :: "sdk \<Rightarrow> feature_set \<Rightarrow> program_instruction list \<Rightarrow> compute_budget_instruction_details \<Rightarrow> bool" where
  "details_of env fs pis d \<longleftrightarrow> recorded d = requested (decoded_requests env pis) \<and>
     (recorded d UnitLimit = None \<longrightarrow> (case calculate_default_compute_unit_limit env d fs of
        None \<Rightarrow> False | Some l \<Rightarrow> min (unat l) 1400000 = min (default_units env fs pis) 1400000))"

text \<open>C29. From packet to runtime transaction: for every packet that parses and sanitizes, building the
  runtime transaction never panics, whatever it contains. It fails exactly when the compute budget
  requests are not valid. Otherwise the numbers of precompile signatures that it caches are those
  that the default methods of the message interface compute from the instructions, and the compute budget details that it
  caches record exactly the requests among these instructions and, where no compute unit limit is requested, give the default limit of
  these instructions under every feature set.\<close>

theorem runtime_transaction_exact:
  assumes "layout_ok lay" and "sdk_ok env" and "length bytes < 2 ^ 16" and "try_new_sanitized lay bytes = Inr view"
  shows "\<exists>pis r. program_instructions lay view = Some pis \<and>
    runtime_try_from_view lay env hash_raw_message is_simple_vote_impl view hash_arg is_simple_vote_tx = Some r \<and>
    (case r of
       Inl e \<Rightarrow> \<not> requests_valid (decoded_requests env pis)
     | Inr rt \<Rightarrow> requests_valid (decoded_requests env pis) \<and> rt_transaction rt = view \<and>
         details_of env fs pis (compute_budget_details (rt_meta rt)) \<and>
         (let sd = signature_details (rt_meta rt) in
          sd_num_transaction_signatures sd = ucast (num_required_signatures view) \<and>
          sd_num_secp256k1_instruction_signatures sd = default_precompile_signature_count (secp256k1_program_id env) pis \<and>
          sd_num_ed25519_instruction_signatures sd = default_precompile_signature_count (ed25519_program_id env) pis \<and>
          sd_num_secp256r1_instruction_signatures sd = default_precompile_signature_count (secp256r1_program_id env) pis))"
proof -
  obtain tx where tx: "packet_ok lay tx" "sanitized tx" "view = view_of tx"
    using try_new_sanitized_reads [OF assms(1,3)] assms(4) by blast
  obtain pis where pis: "program_instructions lay view = Some pis" "well_indexed (tx_account_keys tx) pis"
    "length (tx_account_keys tx) \<le> 38" "length pis < 2 ^ 16" using view_program_instructions [OF tx(1,2)] tx(3) by metis
  obtain r where r: "details_try_from lay env pis = Some r" "case r of Inl e \<Rightarrow> \<not> requests_valid (decoded_requests env pis)
      | Inr d \<Rightarrow> requests_valid (decoded_requests env pis) \<and> details_of env fs pis d"
  proof -
    obtain r where r: "details_try_from lay env pis = Some r" and "case r of
         Inl e \<Rightarrow> \<not> requests_valid (decoded_requests env pis)
       | Inr d \<Rightarrow> requests_valid (decoded_requests env pis) \<and> recorded d = requested (decoded_requests env pis) \<and>
           (recorded d UnitLimit = None \<longrightarrow> (\<exists>l. calculate_default_compute_unit_limit env d fs = Some l \<and>
              min (unat l) 1400000 = min (default_units env fs pis) 1400000))"
      using details_try_from_value [OF assms(1) pis(2-4)] by blast
    then show thesis by (intro that [OF r]) (cases r; auto simp: details_of_def)
  qed
  have m: "message_data view \<noteq> None" "signatures lay view \<noteq> None"
    using view_message_data [OF tx(1)] view_signatures [OF tx(1)] tx(3) by simp_all
  obtain hash where h: "(case hash_arg of Precomputed hash \<Rightarrow> Some hash | Compute \<Rightarrow> map_option hash_raw_message (message_data view)) = Some hash"
    using m(1) by (cases hash_arg) auto
  obtain vote where v: "(case is_simple_vote_tx of Some b \<Rightarrow> Some b | None \<Rightarrow> view_is_simple_vote lay is_simple_vote_impl view) = Some vote"
    using m(2) pis(1) by (cases is_simple_vote_tx) (auto simp: view_is_simple_vote_def)
  show ?thesis using r pis(1) h v precompile_details_value [OF assms(1,2) pis(2,3)]
    by (cases r) (simp_all add: runtime_try_from_view_def precompile_counts_def)
qed

theorem runtime_transaction_exact_witness:
  "\<exists>pis r. program_instructions sample_layout (view_of sample_tx) = Some pis \<and>
    runtime_try_from_view sample_layout sample_sdk (\<lambda>bs. [0]) (\<lambda>s l p. False) (view_of sample_tx) Compute None = Some r \<and>
    (case r of
       Inl e \<Rightarrow> \<not> requests_valid (decoded_requests sample_sdk pis)
     | Inr rt \<Rightarrow> requests_valid (decoded_requests sample_sdk pis) \<and> rt_transaction rt = view_of sample_tx \<and>
         details_of sample_sdk {} pis (compute_budget_details (rt_meta rt)) \<and>
         (let sd = signature_details (rt_meta rt) in
          sd_num_transaction_signatures sd = ucast (num_required_signatures (view_of sample_tx)) \<and>
          sd_num_secp256k1_instruction_signatures sd = default_precompile_signature_count (secp256k1_program_id sample_sdk) pis \<and>
          sd_num_ed25519_instruction_signatures sd = default_precompile_signature_count (ed25519_program_id sample_sdk) pis \<and>
          sd_num_secp256r1_instruction_signatures sd = default_precompile_signature_count (secp256r1_program_id sample_sdk) pis))"
  by (rule runtime_transaction_exact [OF sample_layout_ok sample_sdk_ok conjunct1 [OF sample_sanitized] conjunct2 [OF sample_sanitized]])

end
