(* ===== verification/Cost_Model.thy ===== *)
theory Cost_Model
  imports Runtime_Tx
begin

text \<open>
  The cost of a transaction in compute units (\<^verbatim>\<open>cost-model/src/block_cost_limits.rs\<close>,
  \<^verbatim>\<open>transaction_cost.rs\<close>, \<^verbatim>\<open>cost_model.rs\<close>). A transaction is its message and its metadata.
\<close>

section \<open>block\_cost\_limits.rs\<close>

definition COMPUTE_UNIT_TO_US_RATIO :: u64 where
  "COMPUTE_UNIT_TO_US_RATIO = 30"

definition SIGNATURE_COST :: u64 where
  "SIGNATURE_COST = COMPUTE_UNIT_TO_US_RATIO * 24"

definition SECP256K1_VERIFY_COST :: u64 where
  "SECP256K1_VERIFY_COST = COMPUTE_UNIT_TO_US_RATIO * 223"

definition ED25519_VERIFY_COST :: u64 where
  "ED25519_VERIFY_COST = COMPUTE_UNIT_TO_US_RATIO * 76"

definition ED25519_VERIFY_STRICT_COST :: u64 where
  "ED25519_VERIFY_STRICT_COST = COMPUTE_UNIT_TO_US_RATIO * 80"

definition SECP256R1_VERIFY_COST :: u64 where
  "SECP256R1_VERIFY_COST = COMPUTE_UNIT_TO_US_RATIO * 160"

definition WRITE_LOCK_UNITS :: u64 where
  "WRITE_LOCK_UNITS = COMPUTE_UNIT_TO_US_RATIO * 10"

definition INSTRUCTION_DATA_BYTES_COST :: u64 where
  "INSTRUCTION_DATA_BYTES_COST = 140 div COMPUTE_UNIT_TO_US_RATIO"

definition MAX_BLOCK_UNITS :: u64 where
  "MAX_BLOCK_UNITS = 48000000"

definition MAX_BLOCK_UNITS_SIMD_0207 :: u64 where
  "MAX_BLOCK_UNITS_SIMD_0207 = 50000000"

definition MAX_BLOCK_UNITS_SIMD_0256 :: u64 where
  "MAX_BLOCK_UNITS_SIMD_0256 = 60000000"

definition MAX_WRITABLE_ACCOUNT_UNITS :: u64 where
  "MAX_WRITABLE_ACCOUNT_UNITS = 12000000"

definition MAX_VOTE_UNITS :: u64 where
  "MAX_VOTE_UNITS = 36000000"

definition MAX_BLOCK_ACCOUNTS_DATA_SIZE_DELTA :: u64 where
  "MAX_BLOCK_ACCOUNTS_DATA_SIZE_DELTA = 100000000"

definition simd_0207_block_limits :: "u64 \<times> u64 \<times> u64" where
  "simd_0207_block_limits = (MAX_WRITABLE_ACCOUNT_UNITS, MAX_BLOCK_UNITS_SIMD_0207, MAX_VOTE_UNITS)"

definition simd_0256_block_limits :: "u64 \<times> u64 \<times> u64" where
  "simd_0256_block_limits = (MAX_WRITABLE_ACCOUNT_UNITS, MAX_BLOCK_UNITS_SIMD_0256, MAX_VOTE_UNITS)"

section \<open>transaction\_cost.rs\<close>

definition SIMPLE_VOTE_USAGE_COST :: u64 where
  "SIMPLE_VOTE_USAGE_COST = 3428"

text \<open>\<open>solana_vote_program::vote_processor::DEFAULT_COMPUTE_UNITS\<close>.\<close>

definition VOTE_DEFAULT_COMPUTE_UNITS :: u64 where
  "VOTE_DEFAULT_COMPUTE_UNITS = 2100"

record cost_tx =
  ct_message :: svm_message
  ct_meta :: transaction_meta

record usage_cost_details =
  uc_transaction :: cost_tx
  uc_signature_cost :: u64
  uc_write_lock_cost :: u64
  uc_data_bytes_cost :: u64
  uc_programs_execution_cost :: u64
  uc_loaded_accounts_data_size_cost :: u64
  uc_allocated_accounts_data_size :: u64

datatype transaction_cost = SimpleVote cost_tx | Transaction usage_cost_details

definition usage_sum :: "usage_cost_details \<Rightarrow> u64" where
  "usage_sum self =
     saturating_add (saturating_add (saturating_add (saturating_add (uc_signature_cost self) (uc_write_lock_cost self))
       (uc_data_bytes_cost self)) (uc_programs_execution_cost self)) (uc_loaded_accounts_data_size_cost self)"

fun cost_sum :: "transaction_cost \<Rightarrow> u64" where
  "cost_sum (SimpleVote _) = SIMPLE_VOTE_USAGE_COST"
| "cost_sum (Transaction usage_cost) = usage_sum usage_cost"

fun programs_execution_cost :: "transaction_cost \<Rightarrow> u64" where
  "programs_execution_cost (SimpleVote _) = VOTE_DEFAULT_COMPUTE_UNITS"
| "programs_execution_cost (Transaction usage_cost) = uc_programs_execution_cost usage_cost"

fun is_simple_vote :: "transaction_cost \<Rightarrow> bool" where
  "is_simple_vote (SimpleVote _) = True"
| "is_simple_vote (Transaction _) = False"

fun data_bytes_cost :: "transaction_cost \<Rightarrow> u64" where
  "data_bytes_cost (SimpleVote _) = 0"
| "data_bytes_cost (Transaction usage_cost) = uc_data_bytes_cost usage_cost"

fun cost_allocated_accounts_data_size :: "transaction_cost \<Rightarrow> u64" where
  "cost_allocated_accounts_data_size (SimpleVote _) = 0"
| "cost_allocated_accounts_data_size (Transaction usage_cost) = uc_allocated_accounts_data_size usage_cost"

fun loaded_accounts_data_size_cost :: "transaction_cost \<Rightarrow> u64" where
  "loaded_accounts_data_size_cost (SimpleVote _) = 8"
| "loaded_accounts_data_size_cost (Transaction usage_cost) = uc_loaded_accounts_data_size_cost usage_cost"

fun signature_cost :: "transaction_cost \<Rightarrow> u64" where
  "signature_cost (SimpleVote _) = SIGNATURE_COST"
| "signature_cost (Transaction usage_cost) = uc_signature_cost usage_cost"

fun write_lock_cost :: "transaction_cost \<Rightarrow> u64" where
  "write_lock_cost (SimpleVote _) = saturating_mul WRITE_LOCK_UNITS 2"
| "write_lock_cost (Transaction usage_cost) = uc_write_lock_cost usage_cost"

fun cost_transaction :: "transaction_cost \<Rightarrow> cost_tx" where
  "cost_transaction (SimpleVote transaction) = transaction"
| "cost_transaction (Transaction usage_cost) = uc_transaction usage_cost"

definition writable_accounts :: "transaction_cost \<Rightarrow> pubkey_bytes list" where
  "writable_accounts self =
     (let message = ct_message (cost_transaction self) in
      map snd (filter (\<lambda>(index, key). msg_is_writable message (of_nat index)) (enumerate 0 (msg_account_keys message))))"

fun cost_num_transaction_signatures :: "transaction_cost \<Rightarrow> u64" where
  "cost_num_transaction_signatures (SimpleVote _) = 1"
| "cost_num_transaction_signatures (Transaction usage_cost) =
     sd_num_transaction_signatures (signature_details (ct_meta (uc_transaction usage_cost)))"

fun cost_num_secp256k1_instruction_signatures :: "transaction_cost \<Rightarrow> u64" where
  "cost_num_secp256k1_instruction_signatures (SimpleVote _) = 0"
| "cost_num_secp256k1_instruction_signatures (Transaction usage_cost) =
     sd_num_secp256k1_instruction_signatures (signature_details (ct_meta (uc_transaction usage_cost)))"

fun cost_num_ed25519_instruction_signatures :: "transaction_cost \<Rightarrow> u64" where
  "cost_num_ed25519_instruction_signatures (SimpleVote _) = 0"
| "cost_num_ed25519_instruction_signatures (Transaction usage_cost) =
     sd_num_ed25519_instruction_signatures (signature_details (ct_meta (uc_transaction usage_cost)))"

fun cost_num_secp256r1_instruction_signatures :: "transaction_cost \<Rightarrow> u64" where
  "cost_num_secp256r1_instruction_signatures (SimpleVote _) = 0"
| "cost_num_secp256r1_instruction_signatures (Transaction usage_cost) =
     sd_num_secp256r1_instruction_signatures (signature_details (ct_meta (uc_transaction usage_cost)))"

section \<open>cost\_model.rs\<close>

datatype system_program_account_allocation = AllocationNone | AllocationSome u64 | AllocationFailed

definition get_signature_cost :: "cost_tx \<Rightarrow> feature_set \<Rightarrow> u64" where
  "get_signature_cost transaction feature_set =
     (let sd = signature_details (ct_meta transaction);
          ed25519_verify_cost =
            (if is_active feature_set ed25519_precompile_verify_strict then ED25519_VERIFY_STRICT_COST else ED25519_VERIFY_COST);
          secp256r1_verify_cost = (if is_active feature_set enable_secp256r1_precompile then SECP256R1_VERIFY_COST else 0)
      in saturating_add (saturating_add (saturating_add
           (saturating_mul (sd_num_transaction_signatures sd) SIGNATURE_COST)
           (saturating_mul (sd_num_secp256k1_instruction_signatures sd) SECP256K1_VERIFY_COST))
           (saturating_mul (sd_num_ed25519_instruction_signatures sd) ed25519_verify_cost))
           (saturating_mul (sd_num_secp256r1_instruction_signatures sd) secp256r1_verify_cost))"

definition get_write_lock_cost :: "u64 \<Rightarrow> u64" where
  "get_write_lock_cost write_locks = saturating_mul WRITE_LOCK_UNITS write_locks"

definition get_instructions_data_cost :: "program_instruction list \<Rightarrow> u64" where
  "get_instructions_data_cost instructions =
     sum_list (map (\<lambda>(_, instruction). of_nat (length (ix_data instruction))) instructions) div INSTRUCTION_DATA_BYTES_COST"

definition calculate_loaded_accounts_data_size_cost :: "sdk \<Rightarrow> u32 \<Rightarrow> feature_set \<Rightarrow> u64" where
  "calculate_loaded_accounts_data_size_cost env loaded_accounts_data_size _ =
     memory_usage_cost env loaded_accounts_data_size DEFAULT_HEAP_COST"

definition get_estimated_execution_cost :: "sdk \<Rightarrow> cost_tx \<Rightarrow> feature_set \<Rightarrow> (u64 \<times> u64) option" where
  "get_estimated_execution_cost env transaction feature_set =
     (case sanitize_and_convert_to_compute_budget_limits env (compute_budget_details (ct_meta transaction)) feature_set of
        None \<Rightarrow> None
      | Some (Inr limits) \<Rightarrow>
          Some (ucast (compute_unit_limit limits), calculate_loaded_accounts_data_size_cost env (loaded_accounts_bytes limits) feature_set)
      | Some (Inl _) \<Rightarrow> Some (0, 0))"

record builtin_loop =
  bl_programs_execution_costs :: u64
  bl_data_bytes_len_total :: u64
  bl_compute_unit_limit_is_set :: bool
  bl_has_user_space_instructions :: bool

definition builtin_loop_step :: "sdk \<Rightarrow> feature_set \<Rightarrow> program_instruction \<Rightarrow> builtin_loop \<Rightarrow> builtin_loop" where
  "builtin_loop_step env feature_set p s =
     (let (program_id, instruction) = p;
          (ix_execution_cost, user_space) =
            (case get_builtin_instruction_cost env program_id feature_set of
               Some builtin_cost \<Rightarrow> (builtin_cost, bl_has_user_space_instructions s)
             | None \<Rightarrow> (ucast DEFAULT_INSTRUCTION_COMPUTE_UNIT_LIMIT, True))
      in \<lparr>bl_programs_execution_costs =
            min (saturating_add (bl_programs_execution_costs s) ix_execution_cost) (ucast MAX_COMPUTE_UNIT_LIMIT),
          bl_data_bytes_len_total = saturating_add (bl_data_bytes_len_total s) (of_nat (length (ix_data instruction))),
          bl_compute_unit_limit_is_set =
            (if program_id = compute_budget_id env then
               (case decode_compute_budget env (ix_data instruction) of
                  Some (SetComputeUnitLimit _) \<Rightarrow> True
                | _ \<Rightarrow> bl_compute_unit_limit_is_set s)
             else bl_compute_unit_limit_is_set s),
          bl_has_user_space_instructions = user_space\<rparr>)"

definition get_transaction_cost_without_minimal_builtin_cus ::
  "sdk \<Rightarrow> cost_tx \<Rightarrow> program_instruction list \<Rightarrow> feature_set \<Rightarrow> (u64 \<times> u64 \<times> u64) option" where
  "get_transaction_cost_without_minimal_builtin_cus env meta instructions feature_set =
     (let s = fold (builtin_loop_step env feature_set) instructions
            \<lparr>bl_programs_execution_costs = 0, bl_data_bytes_len_total = 0, bl_compute_unit_limit_is_set = False,
             bl_has_user_space_instructions = False\<rparr>;
          data_bytes_cost = bl_data_bytes_len_total s div INSTRUCTION_DATA_BYTES_COST
      in case sanitize_and_convert_to_compute_budget_limits env (compute_budget_details (ct_meta meta)) feature_set of
           None \<Rightarrow> None
         | Some (Inr limits) \<Rightarrow>
             Some (if bl_has_user_space_instructions s \<and> bl_compute_unit_limit_is_set s
                     then ucast (compute_unit_limit limits) else bl_programs_execution_costs s,
                   calculate_loaded_accounts_data_size_cost env (loaded_accounts_bytes limits) feature_set, data_bytes_cost)
         | Some (Inl _) \<Rightarrow> Some (0, 0, data_bytes_cost))"

definition get_transaction_cost ::
  "sdk \<Rightarrow> cost_tx \<Rightarrow> program_instruction list \<Rightarrow> feature_set \<Rightarrow> (u64 \<times> u64 \<times> u64) option" where
  "get_transaction_cost env meta instructions feature_set =
     (if is_active feature_set reserve_minimal_cus_for_builtin_instructions then
        map_option (\<lambda>(programs, loaded). (programs, loaded, get_instructions_data_cost instructions))
          (get_estimated_execution_cost env meta feature_set)
      else get_transaction_cost_without_minimal_builtin_cus env meta instructions feature_set)"

fun calculate_account_data_size_on_deserialized_system_instruction ::
  "sdk \<Rightarrow> system_instruction \<Rightarrow> system_program_account_allocation" where
  "calculate_account_data_size_on_deserialized_system_instruction env instruction =
     (let on_space = (\<lambda>space. if space > MAX_PERMITTED_DATA_LENGTH env then AllocationFailed else AllocationSome space)
      in case instruction of
           CreateAccount space \<Rightarrow> on_space space
         | CreateAccountWithSeed space \<Rightarrow> on_space space
         | Allocate space \<Rightarrow> on_space space
         | AllocateWithSeed space \<Rightarrow> on_space space
         | OtherSystemInstruction \<Rightarrow> AllocationNone)"

definition calculate_account_data_size_on_instruction ::
  "sdk \<Rightarrow> pubkey_bytes \<Rightarrow> svm_instruction \<Rightarrow> system_program_account_allocation" where
  "calculate_account_data_size_on_instruction env program_id instruction =
     (if program_id = system_program_id env then
        (case decode_system env (ix_data instruction) of
           Some i \<Rightarrow> calculate_account_data_size_on_deserialized_system_instruction env i
         | None \<Rightarrow> AllocationFailed)
      else AllocationNone)"

fun allocation_loop :: "sdk \<Rightarrow> u64 \<Rightarrow> program_instruction list \<Rightarrow> u64" where
  "allocation_loop env tx_attempted_allocation_size [] = min (MAX_PERMITTED_ALLOCATIONS env) tx_attempted_allocation_size"
| "allocation_loop env tx_attempted_allocation_size ((program_id, instruction) # rest) =
     (case calculate_account_data_size_on_instruction env program_id instruction of
        AllocationFailed \<Rightarrow> 0
      | AllocationNone \<Rightarrow> allocation_loop env tx_attempted_allocation_size rest
      | AllocationSome space \<Rightarrow> allocation_loop env (saturating_add tx_attempted_allocation_size space) rest)"

definition calculate_allocated_accounts_data_size :: "sdk \<Rightarrow> program_instruction list \<Rightarrow> u64" where
  "calculate_allocated_accounts_data_size env instructions = allocation_loop env 0 instructions"

definition calculate_non_vote_transaction_cost ::
  "sdk \<Rightarrow> cost_tx \<Rightarrow> program_instruction list \<Rightarrow> u64 \<Rightarrow> u64 \<Rightarrow> u64 \<Rightarrow> u64 \<Rightarrow> feature_set \<Rightarrow> transaction_cost" where
  "calculate_non_vote_transaction_cost env transaction instructions write_locks programs_cost loaded_cost data_cost feature_set =
     Transaction \<lparr>uc_transaction = transaction, uc_signature_cost = get_signature_cost transaction feature_set,
       uc_write_lock_cost = get_write_lock_cost write_locks, uc_data_bytes_cost = data_cost,
       uc_programs_execution_cost = programs_cost, uc_loaded_accounts_data_size_cost = loaded_cost,
       uc_allocated_accounts_data_size = calculate_allocated_accounts_data_size env instructions\<rparr>"

definition estimate_cost :: "sdk \<Rightarrow> cost_tx \<Rightarrow> program_instruction list \<Rightarrow> u64 \<Rightarrow> feature_set \<Rightarrow> transaction_cost option" where
  "estimate_cost env transaction instructions write_locks feature_set =
     (if is_simple_vote_transaction (ct_meta transaction) then Some (SimpleVote transaction)
      else
        map_option (\<lambda>(programs_cost, loaded_cost, data_cost).
            calculate_non_vote_transaction_cost env transaction instructions write_locks programs_cost loaded_cost data_cost feature_set)
          (get_transaction_cost env transaction instructions feature_set))"

definition calculate_cost :: "sdk \<Rightarrow> cost_tx \<Rightarrow> feature_set \<Rightarrow> transaction_cost option" where
  "calculate_cost env transaction feature_set =
     (if is_simple_vote_transaction (ct_meta transaction) then Some (SimpleVote transaction)
      else
        (let instructions = msg_program_instructions (ct_message transaction) in
         map_option (\<lambda>(programs_cost, loaded_cost, data_cost).
             calculate_non_vote_transaction_cost env transaction instructions (msg_num_write_locks (ct_message transaction))
               programs_cost loaded_cost data_cost feature_set)
           (get_transaction_cost env transaction instructions feature_set)))"

definition calculate_cost_for_executed_transaction ::
  "sdk \<Rightarrow> cost_tx \<Rightarrow> u64 \<Rightarrow> u32 \<Rightarrow> feature_set \<Rightarrow> transaction_cost" where
  "calculate_cost_for_executed_transaction env transaction actual_programs_execution_cost actual_loaded_accounts_data_size_bytes feature_set =
     (if is_simple_vote_transaction (ct_meta transaction) then SimpleVote transaction
      else
        (let instructions = msg_program_instructions (ct_message transaction) in
         calculate_non_vote_transaction_cost env transaction instructions (msg_num_write_locks (ct_message transaction))
           actual_programs_execution_cost
           (calculate_loaded_accounts_data_size_cost env actual_loaded_accounts_data_size_bytes feature_set)
           (get_instructions_data_cost instructions) feature_set))"

end
