(* ===== verification/Cost_Correct.thy ===== *)
theory Cost_Correct
  imports Cost_Model
begin

text \<open>
  What the cost model computes: the size of the accounts a transaction may allocate, the bound on the
  execution cost that is charged in advance, and that every estimate exists.
\<close>

section \<open>Allocated account data\<close>

text \<open>The space an instruction asks for; \<open>None\<close> if it is certain to fail.\<close>

fun declared_space :: "system_instruction \<Rightarrow> nat" where
  "declared_space (CreateAccount space) = unat space"
| "declared_space (CreateAccountWithSeed space) = unat space"
| "declared_space (Allocate space) = unat space"
| "declared_space (AllocateWithSeed space) = unat space"
| "declared_space OtherSystemInstruction = 0"

definition requested_space :: "sdk \<Rightarrow> program_instruction \<Rightarrow> nat option" where
  "requested_space env p =
     (if fst p \<noteq> system_program_id env then Some 0
      else case decode_system env (ix_data (snd p)) of
        None \<Rightarrow> None
      | Some i \<Rightarrow> if declared_space i \<le> unat (MAX_PERMITTED_DATA_LENGTH env) then Some (declared_space i) else None)"

lemma allocation_on_instruction:
  "requested_space env (program_id, ix) =
     (case calculate_account_data_size_on_instruction env program_id ix of
        AllocationFailed \<Rightarrow> None | AllocationNone \<Rightarrow> Some 0 | AllocationSome space \<Rightarrow> Some (unat space))"
  by (auto simp: requested_space_def calculate_account_data_size_on_instruction_def Let_def word_less_nat_alt
      split: option.splits system_instruction.splits)

lemma allocation_loop_value:
  "unat (allocation_loop env acc instructions) =
     (if list_ex (\<lambda>p. requested_space env p = None) instructions then 0
      else min (unat (MAX_PERMITTED_ALLOCATIONS env)) (unat acc + sum_list (map (the \<circ> requested_space env) instructions)))"
proof (induction env acc instructions rule: allocation_loop.induct)
  case (1 env acc)
  then show ?case by (simp add: unat_min)
next
  case (2 env acc program_id ix rest)
  have m: "unat (MAX_PERMITTED_ALLOCATIONS env) \<le> 2 ^ 64 - 1"
    using unat_less_pow [of "MAX_PERMITTED_ALLOCATIONS env"] by simp
  show ?case
  proof (cases "calculate_account_data_size_on_instruction env program_id ix")
    case (AllocationSome space)
    have "min (unat (MAX_PERMITTED_ALLOCATIONS env)) (min (unat acc + unat space) (2 ^ 64 - 1) + n) =
        min (unat (MAX_PERMITTED_ALLOCATIONS env)) (unat acc + (unat space + n))" for n
      using m by (simp add: min_def)
    then show ?thesis using 2(2) [OF AllocationSome] AllocationSome
      by (simp add: allocation_on_instruction unat_saturating_add comp_def)
  qed (use 2 in \<open>simp_all add: allocation_on_instruction\<close>)
qed

section \<open>Execution cost\<close>

lemma sanitize_limit_le:
  "sanitize_and_convert_to_compute_budget_limits env d fs = Some (Inr l) \<Longrightarrow> compute_unit_limit l \<le> MAX_COMPUTE_UNIT_LIMIT"
  by (auto simp: sanitize_and_convert_to_compute_budget_limits_def obind_eq_Inr)

lemma unat_u32_u64: "unat (ucast (n :: u32) :: u64) = unat n"
  by (intro unat_ucast_small) (use unat_less_pow [of n] in simp)

lemma limit_units_le:
  "sanitize_and_convert_to_compute_budget_limits env d fs = Some (Inr l) \<Longrightarrow> unat (ucast (compute_unit_limit l) :: u64) \<le> 1400000"
  using sanitize_limit_le [of env d fs l] by (simp add: unat_u32_u64 word_le_nat_alt MAX_COMPUTE_UNIT_LIMIT_def)

lemma builtin_loop_le:
  "unat (bl_programs_execution_costs s) \<le> 1400000 \<Longrightarrow>
   unat (bl_programs_execution_costs (fold (builtin_loop_step env fs) instructions s)) \<le> 1400000"
proof (induction instructions arbitrary: s)
  case (Cons p instructions)
  have "unat (bl_programs_execution_costs (builtin_loop_step env fs p s)) \<le> 1400000"
    by (auto simp: builtin_loop_step_def Let_def unat_min MAX_COMPUTE_UNIT_LIMIT_def split: prod.splits)
  with Cons.IH show ?case by simp
qed simp

lemma get_transaction_cost_le:
  assumes "get_transaction_cost env tx instructions fs = Some (programs, loaded, data)"
  shows "unat programs \<le> 1400000"
  using assms builtin_loop_le [of "\<lparr>bl_programs_execution_costs = 0, bl_data_bytes_len_total = 0,
      bl_compute_unit_limit_is_set = False, bl_has_user_space_instructions = False\<rparr>" env fs instructions]
  by (auto simp: get_transaction_cost_def get_estimated_execution_cost_def Let_def limit_units_le
      get_transaction_cost_without_minimal_builtin_cus_def split: if_splits option.splits sum.splits)

lemma count_migrated_Some:
  "k + length cs \<le> length (MIGRATING_BUILTINS_COSTS env) \<Longrightarrow> count_migrated env fs k cs m n \<noteq> None"
proof (induction cs arbitrary: k m n)
  case (Cons c cs)
  obtain f where "get_migration_feature_id env k = Some f" using Cons.prems by (auto simp: get_migration_feature_id_Some)
  with Cons show ?case by simp
qed simp

lemma sanitize_Some:
  assumes "length (migrating_builtin d) = length (MIGRATING_BUILTINS_COSTS env)"
  shows "sanitize_and_convert_to_compute_budget_limits env d fs \<noteq> None"
proof -
  have "calculate_default_compute_unit_limit env d fs \<noteq> None"
    using count_migrated_Some [of 0 "migrating_builtin d" env fs 0 0] assms
    by (auto simp: calculate_default_compute_unit_limit_def)
  then show ?thesis
    by (auto simp: sanitize_and_convert_to_compute_budget_limits_def obind_eq_None split: option.splits if_splits)
qed

lemma get_transaction_cost_Some:
  assumes "length (migrating_builtin (compute_budget_details (ct_meta tx))) = length (MIGRATING_BUILTINS_COSTS env)"
  shows "get_transaction_cost env tx instructions fs \<noteq> None"
  using sanitize_Some [OF assms, of fs]
  by (auto simp: get_transaction_cost_def get_estimated_execution_cost_def Let_def
      get_transaction_cost_without_minimal_builtin_cus_def split: option.splits sum.splits)

section \<open>Properties\<close>

text \<open>The account data a transaction is charged for is the sum of the space its system
  instructions ask for, cut at the limit of a transaction, and 0 as soon as one of them cannot be
  decoded or asks for more than an account may hold.\<close>

theorem allocated_accounts_data_size_exact:
  "unat (calculate_allocated_accounts_data_size env instructions) =
     (if list_ex (\<lambda>p. requested_space env p = None) instructions then 0
      else min (unat (MAX_PERMITTED_ALLOCATIONS env)) (sum_list (map (the \<circ> requested_space env) instructions)))"
  by (simp add: calculate_allocated_accounts_data_size_def allocation_loop_value)

text \<open>A cost is computed for every transaction whose metadata has one counter per migrating
  builtin, with every feature set: nothing panics; and the execution cost charged in
  advance is at most 1,400,000 compute units.\<close>

theorem calculate_cost_bounded:
  assumes "length (migrating_builtin (compute_budget_details (ct_meta tx))) = length (MIGRATING_BUILTINS_COSTS env)"
  shows "\<exists>c. calculate_cost env tx fs = Some c \<and> unat (programs_execution_cost c) \<le> 1400000"
proof (cases "is_simple_vote_transaction (ct_meta tx)")
  case True
  then show ?thesis by (simp add: calculate_cost_def VOTE_DEFAULT_COMPUTE_UNITS_def)
next
  case False
  let ?is = "msg_program_instructions (ct_message tx)"
  from get_transaction_cost_Some [OF assms, of ?is fs] obtain p l d where
    c: "get_transaction_cost env tx ?is fs = Some (p, l, d)" by (metis not_None_eq prod_cases3)
  with False get_transaction_cost_le [OF c] show ?thesis
    by (simp add: calculate_cost_def calculate_non_vote_transaction_cost_def)
qed

definition sample_message :: svm_message where
  "sample_message = \<lparr>msg_num_transaction_signatures = 1, msg_num_write_locks = 2, msg_recent_blockhash = replicate 32 0,
     msg_program_instructions = [(replicate 32 40, \<lparr>program_id_index = 2, ix_accounts = [0, 1], ix_data = [1, 2, 3, 4]\<rparr>)],
     msg_account_keys = [replicate 32 20, replicate 32 21, replicate 32 40],
     msg_is_writable = (\<lambda>i. i < 2), msg_is_signer = (\<lambda>i. i = 0)\<rparr>"

definition sample_cost_tx :: cost_tx where
  "sample_cost_tx = \<lparr>ct_message = sample_message, ct_meta = \<lparr>message_hash = replicate 32 0,
     is_simple_vote_transaction = False, signature_details = \<lparr>sd_num_transaction_signatures = 1,
       sd_num_secp256k1_instruction_signatures = 0, sd_num_ed25519_instruction_signatures = 0,
       sd_num_secp256r1_instruction_signatures = 0\<rparr>,
     compute_budget_details = (details_default sample_sdk)\<lparr>num_non_compute_budget_instructions := 1,
       num_non_builtin_instructions := 1\<rparr>\<rparr>\<rparr>"

theorem calculate_cost_bounded_witness:
  "\<exists>c. calculate_cost sample_sdk sample_cost_tx all_enabled = Some c \<and> unat (programs_execution_cost c) \<le> 1400000"
  by (rule calculate_cost_bounded) (simp add: sample_cost_tx_def details_default_def)

end
