(* ===== verification/Cost_Tracker.thy ===== *)
theory Cost_Tracker
  imports Cost_Correct "HOL-Library.Multiset"
begin

text \<open>
  The cost tracker of a block (\<^verbatim>\<open>cost-model/src/cost_tracker.rs\<close>): costs are added when a transaction is
  about to be processed, corrected when its real usage is known and removed when it is
  dropped. The hash map from writable accounts to their cost is a map; a \<open>Saturating\<close> counter is a word with
  saturating operations.
\<close>

section \<open>State and operations\<close>

datatype cost_tracker_error =
    WouldExceedBlockMaxLimit
  | WouldExceedVoteMaxLimit
  | WouldExceedAccountMaxLimit
  | WouldExceedAccountDataBlockLimit
  | WouldExceedAccountDataTotalLimit

record updated_costs =
  updated_block_cost :: u64
  updated_costliest_account_cost :: u64

record cost_tracker =
  account_cost_limit :: u64
  block_cost_limit :: u64
  vote_cost_limit :: u64
  cost_by_writable_accounts :: "pubkey_bytes \<rightharpoonup> u64"
  block_cost :: u64
  vote_cost :: u64
  transaction_count :: u64
  allocated_accounts_data_size :: u64
  transaction_signature_count :: u64
  secp256k1_instruction_signature_count :: u64
  ed25519_instruction_signature_count :: u64
  in_flight_transaction_count :: usize
  secp256r1_instruction_signature_count :: u64

definition tracker_default :: cost_tracker where
  "tracker_default = \<lparr>account_cost_limit = MAX_WRITABLE_ACCOUNT_UNITS, block_cost_limit = MAX_BLOCK_UNITS,
     vote_cost_limit = MAX_VOTE_UNITS, cost_by_writable_accounts = Map.empty, block_cost = 0, vote_cost = 0,
     transaction_count = 0, allocated_accounts_data_size = 0, transaction_signature_count = 0,
     secp256k1_instruction_signature_count = 0, ed25519_instruction_signature_count = 0,
     in_flight_transaction_count = 0, secp256r1_instruction_signature_count = 0\<rparr>"

definition set_limits :: "cost_tracker \<Rightarrow> u64 \<Rightarrow> u64 \<Rightarrow> u64 \<Rightarrow> cost_tracker" where
  "set_limits self account_limit block_limit vote_limit =
     self\<lparr>account_cost_limit := account_limit, block_cost_limit := block_limit, vote_cost_limit := vote_limit\<rparr>"

definition new_from_parent_limits :: "cost_tracker \<Rightarrow> cost_tracker" where
  "new_from_parent_limits self =
     set_limits tracker_default (account_cost_limit self) (block_cost_limit self) (vote_cost_limit self)"

definition tracker_reset :: "cost_tracker \<Rightarrow> cost_tracker" where
  "tracker_reset self = self\<lparr>cost_by_writable_accounts := Map.empty, block_cost := 0, vote_cost := 0,
     transaction_count := 0, allocated_accounts_data_size := 0, transaction_signature_count := 0,
     secp256k1_instruction_signature_count := 0, ed25519_instruction_signature_count := 0,
     secp256r1_instruction_signature_count := 0, in_flight_transaction_count := 0\<rparr>"

definition add_transactions_in_flight :: "cost_tracker \<Rightarrow> usize \<Rightarrow> cost_tracker" where
  "add_transactions_in_flight self n =
     self\<lparr>in_flight_transaction_count := saturating_add (in_flight_transaction_count self) n\<rparr>"

definition sub_transactions_in_flight :: "cost_tracker \<Rightarrow> usize \<Rightarrow> cost_tracker" where
  "sub_transactions_in_flight self n =
     self\<lparr>in_flight_transaction_count := saturating_sub (in_flight_transaction_count self) n\<rparr>"

text \<open>The loop of \<open>would_fit\<close> over the writable accounts.\<close>

fun accounts_fit :: "(pubkey_bytes \<rightharpoonup> u64) \<Rightarrow> u64 \<Rightarrow> u64 \<Rightarrow> pubkey_bytes list \<Rightarrow> cost_tracker_error + unit" where
  "accounts_fit costs cost limit [] = Inr ()"
| "accounts_fit costs cost limit (key # rest) =
     (case costs key of
        Some chained_cost \<Rightarrow>
          if saturating_add chained_cost cost > limit then Inl WouldExceedAccountMaxLimit
          else accounts_fit costs cost limit rest
      | None \<Rightarrow> accounts_fit costs cost limit rest)"

definition would_fit :: "cost_tracker \<Rightarrow> transaction_cost \<Rightarrow> cost_tracker_error + unit" where
  "would_fit self tx_cost =
     (let cost = cost_sum tx_cost in
      if is_simple_vote tx_cost \<and> saturating_add (vote_cost self) cost > vote_cost_limit self then Inl WouldExceedVoteMaxLimit
      else if saturating_add (block_cost self) cost > block_cost_limit self then Inl WouldExceedBlockMaxLimit
      else if cost > account_cost_limit self then Inl WouldExceedAccountMaxLimit
      else if saturating_add (allocated_accounts_data_size self) (cost_allocated_accounts_data_size tx_cost)
                > MAX_BLOCK_ACCOUNTS_DATA_SIZE_DELTA then Inl WouldExceedAccountDataBlockLimit
      else accounts_fit (cost_by_writable_accounts self) cost (account_cost_limit self) (writable_accounts tx_cost))"

text \<open>\<open>entry(key).or_insert(0)\<close>, then the new cost.\<close>

definition account_cost :: "(pubkey_bytes \<rightharpoonup> u64) \<Rightarrow> pubkey_bytes \<Rightarrow> u64" where
  "account_cost costs key = (case costs key of Some c \<Rightarrow> c | None \<Rightarrow> 0)"

fun add_to_accounts :: "u64 \<Rightarrow> pubkey_bytes list \<Rightarrow> (pubkey_bytes \<rightharpoonup> u64) \<Rightarrow> u64 \<Rightarrow> (pubkey_bytes \<rightharpoonup> u64) \<times> u64" where
  "add_to_accounts adjustment [] costs costliest = (costs, costliest)"
| "add_to_accounts adjustment (key # rest) costs costliest =
     (let c = saturating_add (account_cost costs key) adjustment
      in add_to_accounts adjustment rest (costs(key \<mapsto> c)) (max costliest c))"

fun sub_from_accounts :: "u64 \<Rightarrow> pubkey_bytes list \<Rightarrow> (pubkey_bytes \<rightharpoonup> u64) \<Rightarrow> (pubkey_bytes \<rightharpoonup> u64)" where
  "sub_from_accounts adjustment [] costs = costs"
| "sub_from_accounts adjustment (key # rest) costs =
     sub_from_accounts adjustment rest (costs(key \<mapsto> saturating_sub (account_cost costs key) adjustment))"

definition add_transaction_execution_cost :: "cost_tracker \<Rightarrow> transaction_cost \<Rightarrow> u64 \<Rightarrow> cost_tracker \<times> u64" where
  "add_transaction_execution_cost self tx_cost adjustment =
     (let (costs, costliest) = add_to_accounts adjustment (writable_accounts tx_cost) (cost_by_writable_accounts self) 0
      in (self\<lparr>cost_by_writable_accounts := costs, block_cost := saturating_add (block_cost self) adjustment,
            vote_cost := (if is_simple_vote tx_cost then saturating_add (vote_cost self) adjustment else vote_cost self)\<rparr>,
          costliest))"

definition sub_transaction_execution_cost :: "cost_tracker \<Rightarrow> transaction_cost \<Rightarrow> u64 \<Rightarrow> cost_tracker" where
  "sub_transaction_execution_cost self tx_cost adjustment =
     self\<lparr>cost_by_writable_accounts := sub_from_accounts adjustment (writable_accounts tx_cost) (cost_by_writable_accounts self),
       block_cost := saturating_sub (block_cost self) adjustment,
       vote_cost := (if is_simple_vote tx_cost then saturating_sub (vote_cost self) adjustment else vote_cost self)\<rparr>"

definition add_transaction_cost :: "cost_tracker \<Rightarrow> transaction_cost \<Rightarrow> cost_tracker \<times> u64" where
  "add_transaction_cost self tx_cost =
     add_transaction_execution_cost
       (self\<lparr>allocated_accounts_data_size :=
            saturating_add (allocated_accounts_data_size self) (cost_allocated_accounts_data_size tx_cost),
          transaction_count := saturating_add (transaction_count self) 1,
          transaction_signature_count := saturating_add (transaction_signature_count self) (cost_num_transaction_signatures tx_cost),
          secp256k1_instruction_signature_count :=
            saturating_add (secp256k1_instruction_signature_count self) (cost_num_secp256k1_instruction_signatures tx_cost),
          ed25519_instruction_signature_count :=
            saturating_add (ed25519_instruction_signature_count self) (cost_num_ed25519_instruction_signatures tx_cost),
          secp256r1_instruction_signature_count :=
            saturating_add (secp256r1_instruction_signature_count self) (cost_num_secp256r1_instruction_signatures tx_cost)\<rparr>)
       tx_cost (cost_sum tx_cost)"

definition remove_transaction_cost :: "cost_tracker \<Rightarrow> transaction_cost \<Rightarrow> cost_tracker" where
  "remove_transaction_cost self tx_cost =
     (let t = sub_transaction_execution_cost self tx_cost (cost_sum tx_cost) in
      t\<lparr>allocated_accounts_data_size :=
            saturating_sub (allocated_accounts_data_size t) (cost_allocated_accounts_data_size tx_cost),
          transaction_count := saturating_sub (transaction_count t) 1,
          transaction_signature_count := saturating_sub (transaction_signature_count t) (cost_num_transaction_signatures tx_cost),
          secp256k1_instruction_signature_count :=
            saturating_sub (secp256k1_instruction_signature_count t) (cost_num_secp256k1_instruction_signatures tx_cost),
          ed25519_instruction_signature_count :=
            saturating_sub (ed25519_instruction_signature_count t) (cost_num_ed25519_instruction_signatures tx_cost),
          secp256r1_instruction_signature_count :=
            saturating_sub (secp256r1_instruction_signature_count t) (cost_num_secp256r1_instruction_signatures tx_cost)\<rparr>)"

definition try_add :: "cost_tracker \<Rightarrow> transaction_cost \<Rightarrow> (cost_tracker_error + updated_costs) \<times> cost_tracker" where
  "try_add self tx_cost =
     (case would_fit self tx_cost of
        Inl e \<Rightarrow> (Inl e, self)
      | Inr _ \<Rightarrow>
          let (t, costliest) = add_transaction_cost self tx_cost
          in (Inr \<lparr>updated_block_cost = block_cost t, updated_costliest_account_cost = costliest\<rparr>, t))"

definition update_execution_cost :: "cost_tracker \<Rightarrow> transaction_cost \<Rightarrow> u64 \<Rightarrow> u64 \<Rightarrow> cost_tracker" where
  "update_execution_cost self estimated_tx_cost actual_execution_units actual_loaded_accounts_data_size_cost =
     (let actual = saturating_add actual_execution_units actual_loaded_accounts_data_size_cost;
          estimated = saturating_add (programs_execution_cost estimated_tx_cost) (loaded_accounts_data_size_cost estimated_tx_cost)
      in if actual = estimated then self
         else if actual > estimated then fst (add_transaction_execution_cost self estimated_tx_cost (actual - estimated))
         else sub_transaction_execution_cost self estimated_tx_cost (estimated - actual))"

definition tracker_remove :: "cost_tracker \<Rightarrow> transaction_cost \<Rightarrow> cost_tracker" where
  "tracker_remove self tx_cost = remove_transaction_cost self tx_cost"

end
