(* ===== verification/Tracker_Correct.thy ===== *)
theory Tracker_Correct
  imports Cost_Tracker
begin

text \<open>
  The cost tracker as a ledger: with every tracker goes the multiset of the transactions it counts,
  each with the cost it is charged for. The steps are the calls of the block producer and of the bank; in every
  reachable state the counters are the sums over the ledger. The calm steps are those that neither correct a cost
  upwards nor change the limits: they never lead beyond a limit.
\<close>

section \<open>The ledger\<close>

type_synonym ledger = "(transaction_cost \<times> nat) multiset"

definition total :: "ledger \<Rightarrow> nat" where
  "total M = (\<Sum>e\<in>#M. snd e)"

definition vote_total :: "ledger \<Rightarrow> nat" where
  "vote_total M = (\<Sum>e\<in>#M. if is_simple_vote (fst e) then snd e else 0)"

definition account_total :: "pubkey_bytes \<Rightarrow> ledger \<Rightarrow> nat" where
  "account_total key M = (\<Sum>e\<in>#M. if key \<in> set (writable_accounts (fst e)) then snd e else 0)"

definition data_total :: "ledger \<Rightarrow> nat" where
  "data_total M = (\<Sum>e\<in>#M. unat (cost_allocated_accounts_data_size (fst e)))"

lemmas totals_def = total_def vote_total_def account_total_def data_total_def

definition load_units :: "transaction_cost \<Rightarrow> u64" where
  "load_units c = saturating_add (programs_execution_cost c) (loaded_accounts_data_size_cost c)"

definition within_limits :: "cost_tracker \<Rightarrow> bool" where
  "within_limits t \<longleftrightarrow> block_cost t \<le> block_cost_limit t \<and> vote_cost t \<le> vote_cost_limit t \<and>
     (\<forall>key. account_cost (cost_by_writable_accounts t) key \<le> account_cost_limit t) \<and>
     allocated_accounts_data_size t \<le> MAX_BLOCK_ACCOUNTS_DATA_SIZE_DELTA"

definition counts :: "cost_tracker \<Rightarrow> ledger \<Rightarrow> bool" where
  "counts t M \<longleftrightarrow> unat (block_cost t) = total M \<and> unat (vote_cost t) = vote_total M \<and>
     (\<forall>key. unat (account_cost (cost_by_writable_accounts t) key) = account_total key M) \<and>
     unat (allocated_accounts_data_size t) = data_total M"

text \<open>Limits below the maximum of \<open>u64\<close>, where a saturated sum cannot hide an excess.\<close>

definition limits_ok :: "cost_tracker \<Rightarrow> bool" where
  "limits_ok t \<longleftrightarrow> block_cost_limit t < - 1 \<and> vote_cost_limit t < - 1 \<and> account_cost_limit t < - 1"

definition corrected :: "transaction_cost \<Rightarrow> u64 \<Rightarrow> nat" where
  "corrected c actual = unat (cost_sum c) + (unat actual - unat (load_units c)) - (unat (load_units c) - unat actual)"

inductive calm_step :: "cost_tracker \<times> ledger \<Rightarrow> cost_tracker \<times> ledger \<Rightarrow> bool" where
  add: "try_add t c = (Inr u, t') \<Longrightarrow> distinct (writable_accounts c) \<Longrightarrow>
    calm_step (t, M) (t', add_mset (c, unat (cost_sum c)) M)"
| reject: "try_add t c = (Inl e, t') \<Longrightarrow> calm_step (t, M) (t', M)"
| update: "saturating_add units loaded \<le> load_units c \<Longrightarrow>
    calm_step (t, add_mset (c, unat (cost_sum c)) M)
      (update_execution_cost t c units loaded, add_mset (c, corrected c (saturating_add units loaded)) M)"
| remove: "calm_step (t, add_mset (c, unat (cost_sum c)) M) (tracker_remove t c, M)"
| in_flight: "calm_step (t, M) (add_transactions_in_flight t n, M)"
| landed: "calm_step (t, M) (sub_transactions_in_flight t n, M)"
| reset: "calm_step (t, M) (tracker_reset t, {#})"

text \<open>All steps: also corrections upwards, which check no limit, as long as the block cost stays below \<open>2\<^sup>6\<^sup>4\<close>, and new limits.\<close>

inductive tracker_step :: "cost_tracker \<times> ledger \<Rightarrow> cost_tracker \<times> ledger \<Rightarrow> bool" where
  calm: "calm_step s s' \<Longrightarrow> tracker_step s s'"
| raise: "load_units c < saturating_add units loaded \<Longrightarrow>
    unat (block_cost t) + (unat (saturating_add units loaded) - unat (load_units c)) < 2 ^ 64 \<Longrightarrow>
    tracker_step (t, add_mset (c, unat (cost_sum c)) M)
      (update_execution_cost t c units loaded, add_mset (c, corrected c (saturating_add units loaded)) M)"
| limits: "limits_ok (set_limits t account_limit block_limit vote_limit) \<Longrightarrow>
    tracker_step (t, M) (set_limits t account_limit block_limit vote_limit, M)"

definition tracker_init :: "cost_tracker \<times> ledger \<Rightarrow> bool" where
  "tracker_init s \<longleftrightarrow> (\<exists>parent. fst s = new_from_parent_limits parent \<and> limits_ok parent) \<and> snd s = {#}"

definition tracker_inv :: "cost_tracker \<times> ledger \<Rightarrow> bool" where
  "tracker_inv s \<longleftrightarrow> limits_ok (fst s) \<and> counts (fst s) (snd s) \<and>
     (\<forall>e \<in># snd s. distinct (writable_accounts (fst e)) \<and> unat (cost_sum (fst e)) < 2 ^ 64 - 1)"

definition tracker_reachable :: "cost_tracker \<times> ledger \<Rightarrow> bool" where
  "tracker_reachable s \<longleftrightarrow> (\<exists>s0. tracker_init s0 \<and> tracker_step\<^sup>*\<^sup>* s0 s)"

section \<open>Operations on the counters\<close>

lemma add_to_accounts_value:
  "distinct keys \<Longrightarrow> account_cost (fst (add_to_accounts a keys costs m)) key =
     (if key \<in> set keys then saturating_add (account_cost costs key) a else account_cost costs key)"
  by (induction a keys costs m rule: add_to_accounts.induct) (auto simp: Let_def account_cost_def)

lemma sub_from_accounts_value:
  "distinct keys \<Longrightarrow> account_cost (sub_from_accounts a keys costs) key =
     (if key \<in> set keys then saturating_sub (account_cost costs key) a else account_cost costs key)"
  by (induction a keys costs rule: sub_from_accounts.induct) (auto simp: account_cost_def)

lemma accounts_fit_iff:
  "accounts_fit costs cost limit keys = Inr () \<longleftrightarrow>
     (\<forall>key \<in> set keys. \<forall>c. costs key = Some c \<longrightarrow> saturating_add c cost \<le> limit)"
  by (induction costs cost limit keys rule: accounts_fit.induct) (auto split: option.splits simp: not_less)

lemma accounts_fit_error: "accounts_fit costs cost limit keys = Inl e \<Longrightarrow> e = WouldExceedAccountMaxLimit"
  by (induction costs cost limit keys rule: accounts_fit.induct) (auto split: option.splits if_splits)

lemma saturating_add_0 [simp]: "saturating_add 0 (a :: 'a::len word) = a"
  by (simp add: saturating_add_def unat_less_pow)

lemma would_fit_iff:
  "would_fit t c = Inr () \<longleftrightarrow>
     (is_simple_vote c \<longrightarrow> saturating_add (vote_cost t) (cost_sum c) \<le> vote_cost_limit t) \<and>
     saturating_add (block_cost t) (cost_sum c) \<le> block_cost_limit t \<and> cost_sum c \<le> account_cost_limit t \<and>
     saturating_add (allocated_accounts_data_size t) (cost_allocated_accounts_data_size c) \<le> MAX_BLOCK_ACCOUNTS_DATA_SIZE_DELTA \<and>
     (\<forall>key \<in> set (writable_accounts c).
        saturating_add (account_cost (cost_by_writable_accounts t) key) (cost_sum c) \<le> account_cost_limit t)"
  by (auto simp: would_fit_def Let_def accounts_fit_iff account_cost_def not_less split: option.splits)

lemma saturating_add_exact:
  assumes "saturating_add a b \<le> l" and "(l :: 'a::len word) < - 1"
  shows "unat (saturating_add a b) = unat a + unat b"
proof -
  have "unat (saturating_add a b) < 2 ^ LENGTH('a) - 1"
    using assms by (metis le_less_trans unat_max_word word_less_nat_alt)
  then show ?thesis by (simp add: unat_saturating_add min_def split: if_splits)
qed

lemma load_units_le: "unat (load_units c) \<le> unat (cost_sum c)"
  by (cases c) (simp_all add: load_units_def usage_sum_def unat_saturating_add VOTE_DEFAULT_COMPUTE_UNITS_def
      SIMPLE_VOTE_USAGE_COST_def)

lemma saturating_add_le_iff:
  assumes "(l :: 'a::len word) < - 1"
  shows "saturating_add a b \<le> l \<longleftrightarrow> unat a + unat b \<le> unat l"
proof
  show "saturating_add a b \<le> l \<Longrightarrow> unat a + unat b \<le> unat l"
    using saturating_add_exact [OF _ assms] by (metis word_le_nat_alt)
  show "unat a + unat b \<le> unat l \<Longrightarrow> saturating_add a b \<le> l"
    by (simp add: word_le_nat_alt unat_saturating_add min.coboundedI1)
qed

lemma data_limit_lt: "MAX_BLOCK_ACCOUNTS_DATA_SIZE_DELTA < - 1"
  by (simp add: MAX_BLOCK_ACCOUNTS_DATA_SIZE_DELTA_def)

section \<open>The invariant\<close>

lemma add_execution_counters:
  assumes "distinct (writable_accounts c)"
  shows "block_cost (fst (add_transaction_execution_cost t c a)) = saturating_add (block_cost t) a"
    and "vote_cost (fst (add_transaction_execution_cost t c a)) =
      (if is_simple_vote c then saturating_add (vote_cost t) a else vote_cost t)"
    and "account_cost (cost_by_writable_accounts (fst (add_transaction_execution_cost t c a))) key =
      (if key \<in> set (writable_accounts c) then saturating_add (account_cost (cost_by_writable_accounts t) key) a
       else account_cost (cost_by_writable_accounts t) key)"
    and "allocated_accounts_data_size (fst (add_transaction_execution_cost t c a)) = allocated_accounts_data_size t"
    and "limits_ok (fst (add_transaction_execution_cost t c a)) = limits_ok t"
    and "block_cost_limit (fst (add_transaction_execution_cost t c a)) = block_cost_limit t"
    and "vote_cost_limit (fst (add_transaction_execution_cost t c a)) = vote_cost_limit t"
    and "account_cost_limit (fst (add_transaction_execution_cost t c a)) = account_cost_limit t"
  using add_to_accounts_value [OF assms, of a "cost_by_writable_accounts t" 0 key]
  by (auto simp: add_transaction_execution_cost_def limits_ok_def split: prod.splits)

lemma sub_execution_counters:
  assumes "distinct (writable_accounts c)"
  shows "account_cost (cost_by_writable_accounts (sub_transaction_execution_cost t c a)) key =
      (if key \<in> set (writable_accounts c) then saturating_sub (account_cost (cost_by_writable_accounts t) key) a
       else account_cost (cost_by_writable_accounts t) key)"
  by (simp add: sub_transaction_execution_cost_def sub_from_accounts_value [OF assms])

lemma try_add_Inr:
  "try_add t c = (Inr u, t') \<longleftrightarrow> would_fit t c = Inr () \<and> t' = fst (add_transaction_cost t c) \<and>
     u = \<lparr>updated_block_cost = block_cost t', updated_costliest_account_cost = snd (add_transaction_cost t c)\<rparr>"
  by (auto simp: try_add_def split: sum.splits prod.splits)

lemma add_keeps_inv:
  assumes inv: "tracker_inv (t, M)" and add: "try_add t c = (Inr u, t')" and d: "distinct (writable_accounts c)"
  shows "tracker_inv (t', add_mset (c, unat (cost_sum c)) M)" and "within_limits t \<Longrightarrow> within_limits t'"
proof -
  from add have fit: "would_fit t c = Inr ()" and t': "t' = fst (add_transaction_cost t c)" by (auto simp: try_add_Inr)
  from inv have l: "block_cost_limit t < - 1" "vote_cost_limit t < - 1" "account_cost_limit t < - 1"
    by (auto simp: tracker_inv_def limits_ok_def)
  note fits = fit [unfolded would_fit_iff]
  note exact = saturating_add_exact [OF _ l(1)] saturating_add_exact [OF _ l(2)] saturating_add_exact [OF _ l(3)]
    saturating_add_exact [OF _ data_limit_lt]
  have "cost_sum c < - 1" using fits l(3) by (meson le_less_trans)
  then have lt: "unat (cost_sum c) < 2 ^ 64 - 1" using unat_max_word [where 'a = 64] by (simp add: word_less_nat_alt)
  show "tracker_inv (t', add_mset (c, unat (cost_sum c)) M)" using inv fits d lt unfolding t' add_transaction_cost_def
    by (auto simp: tracker_inv_def counts_def add_execution_counters [OF d] totals_def limits_ok_def exact)
  show "within_limits t'" if "within_limits t" using that fits unfolding t' add_transaction_cost_def
    by (auto simp: within_limits_def add_execution_counters [OF d])
qed

lemma saturating_sub_le: "(x :: u64) \<le> l \<Longrightarrow> saturating_sub x a \<le> l"
  by (simp add: word_le_nat_alt unat_saturating_sub)

lemma sub_keeps_inv:
  assumes inv: "tracker_inv (t, add_mset (c, n) M)" and a: "unat a \<le> n"
  shows "tracker_inv (sub_transaction_execution_cost t c a, add_mset (c, n - unat a) M)"
    and "within_limits t \<Longrightarrow> within_limits (sub_transaction_execution_cost t c a)"
proof -
  from inv have d: "distinct (writable_accounts c)" by (simp add: tracker_inv_def)
  show "tracker_inv (sub_transaction_execution_cost t c a, add_mset (c, n - unat a) M)" using inv a
    by (auto simp: tracker_inv_def counts_def sub_execution_counters [OF d] totals_def limits_ok_def unat_saturating_sub)
      (simp_all add: sub_transaction_execution_cost_def unat_saturating_sub)
  show "within_limits (sub_transaction_execution_cost t c a)" if "within_limits t" using that
    by (auto simp: within_limits_def sub_execution_counters [OF d] saturating_sub_le)
      (simp_all add: sub_transaction_execution_cost_def saturating_sub_le)
qed

lemma remove_keeps_inv:
  assumes inv: "tracker_inv (t, add_mset (c, unat (cost_sum c)) M)"
  shows "tracker_inv (tracker_remove t c, M)" and "within_limits t \<Longrightarrow> within_limits (tracker_remove t c)"
proof -
  let ?t = "sub_transaction_execution_cost t c (cost_sum c)"
  note sub = sub_keeps_inv [OF inv, of "cost_sum c"]
  from sub(1) show "tracker_inv (tracker_remove t c, M)"
    by (auto simp: tracker_inv_def counts_def totals_def limits_ok_def tracker_remove_def
        remove_transaction_cost_def Let_def unat_saturating_sub)
  from sub(2) show "within_limits (tracker_remove t c)" if "within_limits t" using that
    by (auto simp: within_limits_def tracker_remove_def remove_transaction_cost_def Let_def saturating_sub_le)
qed

lemma update_keeps_inv:
  assumes inv: "tracker_inv (t, add_mset (c, unat (cost_sum c)) M)" and le: "saturating_add units loaded \<le> load_units c"
  shows "tracker_inv (update_execution_cost t c units loaded, add_mset (c, corrected c (saturating_add units loaded)) M)"
    and "within_limits t \<Longrightarrow> within_limits (update_execution_cost t c units loaded)"
proof -
  let ?a = "load_units c - saturating_add units loaded"
  have a: "unat ?a = unat (load_units c) - unat (saturating_add units loaded)" using le by (rule unat_sub)
  then have n: "corrected c (saturating_add units loaded) = unat (cost_sum c) - unat ?a" "unat ?a \<le> unat (cost_sum c)"
    using le load_units_le [of c] by (simp_all add: corrected_def word_le_nat_alt)
  have u: "update_execution_cost t c units loaded =
      (if saturating_add units loaded = load_units c then t else sub_transaction_execution_cost t c ?a)"
    using le by (simp add: update_execution_cost_def load_units_def Let_def not_less [symmetric])
  show "tracker_inv (update_execution_cost t c units loaded, add_mset (c, corrected c (saturating_add units loaded)) M)"
    using inv sub_keeps_inv(1) [OF inv n(2)] n(1) by (auto simp: u)
  show "within_limits (update_execution_cost t c units loaded)" if "within_limits t"
    using that sub_keeps_inv(2) [OF inv n(2)] by (auto simp: u)
qed

lemma part_le_total: "(\<Sum>e\<in>#M. if P e then snd e else 0) \<le> (\<Sum>e\<in>#M. snd e :: nat)"
  by (rule sum_mset_mono) simp

lemma raise_keeps_inv:
  assumes inv: "tracker_inv (t, add_mset (c, n) M)" and a: "unat (block_cost t) + unat a < 2 ^ 64"
  shows "tracker_inv (fst (add_transaction_execution_cost t c a), add_mset (c, n + unat a) M)"
proof -
  from inv have d: "distinct (writable_accounts c)" by (simp add: tracker_inv_def)
  have exact: "unat (saturating_add x a) = unat x + unat a" if "unat x \<le> unat (block_cost t)" for x
    using that a by (simp add: unat_saturating_add)
  have c: "counts t (add_mset (c, n) M)" using inv by (simp add: tracker_inv_def)
  have le: "unat (vote_cost t) \<le> unat (block_cost t)"
      "unat (account_cost (cost_by_writable_accounts t) key) \<le> unat (block_cost t)" for key
    using c by (simp_all only: counts_def totals_def part_le_total)
  show ?thesis using inv unfolding tracker_inv_def
    by (auto simp: counts_def add_execution_counters [OF d] totals_def exact exact [OF le(1)] exact [OF le(2)])
qed

lemma update_up_keeps_inv:
  assumes inv: "tracker_inv (t, add_mset (c, unat (cost_sum c)) M)" and lt: "load_units c < saturating_add units loaded"
    and room: "unat (block_cost t) + (unat (saturating_add units loaded) - unat (load_units c)) < 2 ^ 64"
  shows "tracker_inv (update_execution_cost t c units loaded, add_mset (c, corrected c (saturating_add units loaded)) M)"
proof -
  let ?a = "saturating_add units loaded - load_units c"
  have a: "unat ?a = unat (saturating_add units loaded) - unat (load_units c)" using lt by (intro unat_sub) simp
  have n: "corrected c (saturating_add units loaded) = unat (cost_sum c) + unat ?a"
    using lt by (simp add: corrected_def a word_less_nat_alt)
  have u: "update_execution_cost t c units loaded = fst (add_transaction_execution_cost t c ?a)"
    using lt by (auto simp: update_execution_cost_def load_units_def Let_def)
  show ?thesis unfolding n u by (rule raise_keeps_inv [OF inv]) (use room a in simp)
qed

lemma inv_cong:
  assumes "tracker_inv (t, M)"
  shows "tracker_inv (add_transactions_in_flight t n, M)" and "tracker_inv (sub_transactions_in_flight t n, M)"
    and "tracker_inv (tracker_reset t, {#})"
  using assms by (simp_all add: tracker_inv_def counts_def totals_def limits_ok_def account_cost_def
      add_transactions_in_flight_def sub_transactions_in_flight_def tracker_reset_def)

lemma within_cong:
  assumes "within_limits t"
  shows "within_limits (add_transactions_in_flight t n)" and "within_limits (sub_transactions_in_flight t n)"
    and "within_limits (tracker_reset t)"
  using assms by (simp_all add: within_limits_def account_cost_def
      add_transactions_in_flight_def sub_transactions_in_flight_def tracker_reset_def)

lemma calm_step_inv:
  assumes "calm_step s s'" and "tracker_inv s"
  shows "tracker_inv s' \<and> (within_limits (fst s) \<longrightarrow> within_limits (fst s'))"
  using assms
proof (induction rule: calm_step.induct)
  case (add t c u t' M)
  then show ?case using add_keeps_inv by simp
next
  case (reject t c e t' M)
  then show ?case by (auto simp: try_add_def split: sum.splits prod.splits)
qed (simp_all add: update_keeps_inv remove_keeps_inv inv_cong within_cong)

lemma tracker_step_inv: "tracker_step s s' \<Longrightarrow> tracker_inv s \<Longrightarrow> tracker_inv s'"
proof (induction rule: tracker_step.induct)
  case (limits t a b v M)
  then show ?case by (simp add: tracker_inv_def counts_def set_limits_def)
qed (simp_all add: calm_step_inv update_up_keeps_inv)

lemma tracker_init_inv: "tracker_init s \<Longrightarrow> tracker_inv s"
  by (cases s) (auto simp: tracker_init_def tracker_inv_def counts_def totals_def limits_ok_def account_cost_def
      new_from_parent_limits_def set_limits_def tracker_default_def)

interpretation block_costs: invariant_system tracker_init tracker_step tracker_inv
  by unfold_locales (auto intro: tracker_init_inv tracker_step_inv)

lemma tracker_reachable_inv: "tracker_reachable s \<Longrightarrow> tracker_inv s"
  unfolding tracker_reachable_def by (blast intro: block_costs.reachable_inv)

lemma calm_steps_inv:
  assumes "calm_step\<^sup>*\<^sup>* s s'" and "tracker_inv s"
  shows "tracker_inv s' \<and> (within_limits (fst s) \<longrightarrow> within_limits (fst s'))"
  using assms by (induction rule: rtranclp_induct) (auto dest: calm_step_inv)

definition fits :: "cost_tracker \<Rightarrow> ledger \<Rightarrow> transaction_cost \<Rightarrow> bool" where
  "fits t M c \<longleftrightarrow>
     (is_simple_vote c \<longrightarrow> vote_total M + unat (cost_sum c) \<le> unat (vote_cost_limit t)) \<and>
     total M + unat (cost_sum c) \<le> unat (block_cost_limit t) \<and>
     unat (cost_sum c) \<le> unat (account_cost_limit t) \<and>
     data_total M + unat (cost_allocated_accounts_data_size c) \<le> 100000000 \<and>
     list_all (\<lambda>key. account_total key M + unat (cost_sum c) \<le> unat (account_cost_limit t)) (writable_accounts c)"

lemma would_fit_ledger:
  assumes "limits_ok t" and "counts t M"
  shows "would_fit t c = Inr () \<longleftrightarrow> fits t M c"
proof -
  from assms(1) have l: "block_cost_limit t < - 1" "vote_cost_limit t < - 1" "account_cost_limit t < - 1"
    by (simp_all add: limits_ok_def)
  show ?thesis using assms(2) unfolding would_fit_iff saturating_add_le_iff [OF l(1)] saturating_add_le_iff [OF l(2)]
      saturating_add_le_iff [OF l(3)] saturating_add_le_iff [OF data_limit_lt]
    by (simp add: counts_def fits_def word_le_nat_alt MAX_BLOCK_ACCOUNTS_DATA_SIZE_DELTA_def list_all_iff)
qed

lemma transaction_count_add:
  "transaction_count (fst (add_transaction_cost t c)) = saturating_add (transaction_count t) 1"
  by (simp add: add_transaction_cost_def add_transaction_execution_cost_def split: prod.splits)

lemma transaction_count_remove: "transaction_count (tracker_remove t c) = saturating_sub (transaction_count t) 1"
  by (simp add: tracker_remove_def remove_transaction_cost_def sub_transaction_execution_cost_def Let_def)

section \<open>Properties\<close>

text \<open>C7. In every reachable state of a block's cost tracker the block cost, the vote cost, the cost of
  each account and the allocated data size are the sums over the transactions that are counted, each with the
  cost it is charged for: whatever was added, rejected, corrected downwards or upwards, removed or reset and
  whatever limits below the maximum of \<open>u64\<close> were set before, in whatever order, while the block cost fits in 64 bits.
  Corrections upwards check no limit, and new limits may be below the counters; no other sequence of calls leads from a
  state within the limits, such as the new tracker, beyond a limit.\<close>

theorem cost_tracker_limits:
  assumes "tracker_reachable s" and "calm_step\<^sup>*\<^sup>* s (t, M)"
  shows "counts t M \<and> (within_limits (fst s) \<longrightarrow> within_limits t)"
  using calm_steps_inv [OF assms(2) tracker_reachable_inv [OF assms(1)]] by (simp add: tracker_inv_def)

text \<open>C33. In a reachable state a transaction is added exactly if, with its cost and data, the totals over
  the counted transactions stay within the limits of votes, of the block, of each account it writes and of
  allocated data; a transaction that is not added leaves the tracker as it was.\<close>

theorem try_add_exact:
  assumes "tracker_reachable (t, M)"
  shows "if fits t M c then \<exists>u t'. try_add t c = (Inr u, t') else \<exists>e. try_add t c = (Inl e, t)"
proof -
  have inv: "limits_ok t" "counts t M" using tracker_reachable_inv [OF assms] by (simp_all add: tracker_inv_def)
  have "would_fit t c = Inr () \<longleftrightarrow> fits t M c" by (rule would_fit_ledger [OF inv])
  then show ?thesis by (cases "would_fit t c") (auto simp: try_add_def split: prod.splits)
qed

section \<open>Corrections\<close>

text \<open>C40. Adding a transaction and removing it again leaves every cost as it was, and every
  counter that did not saturate; an account that was not known before stays in the map with cost 0.\<close>

theorem try_add_remove_roundtrip:
  assumes "tracker_reachable (t, M)" and "try_add t c = (Inr u, t')" and "distinct (writable_accounts c)"
    and "transaction_count t < - 1"
  shows "block_cost (tracker_remove t' c) = block_cost t \<and> vote_cost (tracker_remove t' c) = vote_cost t \<and>
    (\<forall>key. account_cost (cost_by_writable_accounts (tracker_remove t' c)) key = account_cost (cost_by_writable_accounts t) key) \<and>
    allocated_accounts_data_size (tracker_remove t' c) = allocated_accounts_data_size t \<and>
    transaction_count (tracker_remove t' c) = transaction_count t"
proof -
  have inv: "tracker_inv (t, M)" by (rule tracker_reachable_inv [OF assms(1)])
  then have "tracker_inv (tracker_remove t' c, M)" by (rule remove_keeps_inv(1) [OF add_keeps_inv(1) [OF _ assms(2,3)]])
  then have eq: "counts t M" "counts (tracker_remove t' c) M" using inv by (simp_all add: tracker_inv_def)
  have "unat (transaction_count t) < 2 ^ 64 - 1" using assms(4) unat_max_word [where 'a = 64] by (simp add: word_less_nat_alt)
  then have "transaction_count (tracker_remove t' c) = transaction_count t"
    using assms(2) by (intro word_unat_eqI) (simp add: try_add_Inr transaction_count_add transaction_count_remove
        unat_saturating_add unat_saturating_sub)
  with eq show ?thesis by (auto simp: counts_def intro!: word_unat_eqI)
qed

lemma estimate_Transaction:
  assumes "calculate_cost env tx fs = Some c" and "\<not> is_simple_vote_transaction (ct_meta tx)"
    and "is_active fs reserve_minimal_cus_for_builtin_instructions"
  shows "\<exists>programs loaded. c = calculate_non_vote_transaction_cost env tx (msg_program_instructions (ct_message tx))
    (msg_num_write_locks (ct_message tx)) programs loaded (get_instructions_data_cost (msg_program_instructions (ct_message tx))) fs"
  using assms by (auto simp: calculate_cost_def get_transaction_cost_def Let_def)

lemma executed_sum:
  assumes c: "c = calculate_non_vote_transaction_cost env tx instructions locks programs loaded data fs"
    and e: "e = calculate_non_vote_transaction_cost env tx instructions locks units l data fs"
    and lt: "unat (cost_sum c) < 2 ^ 64 - 1"
    and room: "unat (cost_sum c) + (unat (saturating_add units l) - unat (load_units c)) < 2 ^ 64"
  shows "unat (cost_sum e) = corrected c (saturating_add units l)"
proof -
  let ?r = "unat (get_signature_cost tx fs) + unat (get_write_lock_cost locks) + unat data"
  have sum: "unat (cost_sum (calculate_non_vote_transaction_cost env tx instructions locks p q data fs)) =
      min (?r + (unat p + unat q)) (2 ^ 64 - 1)" for p q
    by (simp add: calculate_non_vote_transaction_cost_def usage_sum_def unat_saturating_add min_def)
  have load: "unat (load_units c) = min (unat programs + unat loaded) (2 ^ 64 - 1)"
    by (simp add: c calculate_non_vote_transaction_cost_def load_units_def unat_saturating_add)
  have sc: "unat (cost_sum c) = ?r + (unat programs + unat loaded)" using lt unfolding c sum by (simp add: min_def split: if_splits)
  then have lc: "unat (load_units c) = unat programs + unat loaded" using lt load by simp
  have sat: "unat (saturating_add units l) = min (unat units + unat l) (2 ^ 64 - 1)" by (simp add: unat_saturating_add)
  have arith: "min (r + u) (m - 1) = r + p + (min u (m - 1) - p) - (p - min u (m - 1))"
    if "r + p < m - 1" "r + p + (min u (m - 1) - p) < m" for r p u m :: nat
    using that by (auto simp: min_def split: if_splits)
  show ?thesis using arith [OF lt [unfolded sc] room [unfolded sc lc sat]] unfolding e sum corrected_def sc lc sat .
qed

lemma counts_same:
  assumes "counts t (add_mset (c, n) M)" and "is_simple_vote c = is_simple_vote e" and "writable_accounts c = writable_accounts e"
    and "cost_allocated_accounts_data_size c = cost_allocated_accounts_data_size e"
  shows "counts t (add_mset (e, n) M)"
  using assms by (simp add: counts_def totals_def)

text \<open>C32. The correction after execution makes the tracker charge the real cost. A transaction that is no simple vote was
  counted with its estimate, computed with the feature active that gives builtins their minimal units; afterwards the tracker counts it with the
  cost that the cost model computes for the executed transaction, for the block and for every account it writes, whether it
  used less than estimated or more, as long as the block cost fits in 64 bits. If it used no more than estimated, no
  limit is exceeded by the correction.\<close>

theorem update_charges_executed_cost:
  assumes "tracker_reachable (t, add_mset (c, unat (cost_sum c)) M)" and "calculate_cost env tx fs = Some c"
    and "\<not> is_simple_vote_transaction (ct_meta tx)" and "is_active fs reserve_minimal_cus_for_builtin_instructions"
    and "loaded = calculate_loaded_accounts_data_size_cost env bytes fs"
    and "unat (block_cost t) + (unat (saturating_add units loaded) - unat (load_units c)) < 2 ^ 64"
  shows "let e = calculate_cost_for_executed_transaction env tx units bytes fs; t' = update_execution_cost t c units loaded
    in counts t' (add_mset (e, unat (cost_sum e)) M) \<and>
       (saturating_add units loaded \<le> load_units c \<and> within_limits t \<longrightarrow> within_limits t')"
proof -
  let ?e = "calculate_cost_for_executed_transaction env tx units bytes fs" and ?t = "update_execution_cost t c units loaded"
  obtain p q where c: "c = calculate_non_vote_transaction_cost env tx (msg_program_instructions (ct_message tx))
      (msg_num_write_locks (ct_message tx)) p q (get_instructions_data_cost (msg_program_instructions (ct_message tx))) fs"
    using estimate_Transaction [OF assms(2-4)] by blast
  have e: "?e = calculate_non_vote_transaction_cost env tx (msg_program_instructions (ct_message tx))
      (msg_num_write_locks (ct_message tx)) units loaded (get_instructions_data_cost (msg_program_instructions (ct_message tx))) fs"
    using assms(3) by (simp add: calculate_cost_for_executed_transaction_def Let_def assms(5))
  have inv: "tracker_inv (t, add_mset (c, unat (cost_sum c)) M)" by (rule tracker_reachable_inv [OF assms(1)])
  then have "unat (cost_sum c) \<le> unat (block_cost t)" "unat (cost_sum c) < 2 ^ 64 - 1"
    by (simp_all add: tracker_inv_def counts_def total_def)
  then have s: "unat (cost_sum ?e) = corrected c (saturating_add units loaded)"
    by (intro executed_sum [OF c e]) (use assms(6) in linarith)+
  have "tracker_inv (?t, add_mset (c, corrected c (saturating_add units loaded)) M)"
    using update_keeps_inv(1) [OF inv] update_up_keeps_inv [OF inv _ assms(6)] by (cases "saturating_add units loaded \<le> load_units c") auto
  then have "counts ?t (add_mset (c, unat (cost_sum ?e)) M)" by (simp add: tracker_inv_def s)
  then have "counts ?t (add_mset (?e, unat (cost_sum ?e)) M)"
    by (rule counts_same) (simp_all add: c e calculate_non_vote_transaction_cost_def writable_accounts_def)
  then show ?thesis using update_keeps_inv(2) [OF inv] by (simp add: Let_def)
qed

section \<open>Witnesses\<close>

definition sample_cost :: transaction_cost where
  "sample_cost = Transaction \<lparr>uc_transaction = sample_cost_tx, uc_signature_cost = 720, uc_write_lock_cost = 600,
     uc_data_bytes_cost = 1, uc_programs_execution_cost = 200000, uc_loaded_accounts_data_size_cost = 8,
     uc_allocated_accounts_data_size = 0\<rparr>"

definition sample_tracker :: cost_tracker where
  "sample_tracker = snd (try_add (new_from_parent_limits tracker_default) sample_cost)"

lemma sample_details: "sanitize_and_convert_to_compute_budget_limits sample_sdk (compute_budget_details (ct_meta sample_cost_tx)) all_enabled =
    Some (Inr \<lparr>updated_heap_bytes = 32768, compute_unit_limit = 200000, compute_unit_price = 0, loaded_accounts_bytes = 67108864\<rparr>)"
  by (simp add: sanitize_and_convert_to_compute_budget_limits_def sample_cost_tx_def details_default_def
      calculate_default_compute_unit_limit_def is_active_def all_enabled_def MIGRATING_BUILTINS_COSTS_def
      MIN_HEAP_FRAME_BYTES_def sample_sdk_def MAX_HEAP_FRAME_BYTES_def MAX_COMPUTE_UNIT_LIMIT_def
      MAX_LOADED_ACCOUNTS_DATA_SIZE_BYTES_def saturating_add_def saturating_mul_def DEFAULT_INSTRUCTION_COMPUTE_UNIT_LIMIT_def
      MAX_BUILTIN_ALLOCATION_COMPUTE_UNIT_LIMIT_def min_def)

lemma sample_active: "is_active all_enabled reserve_minimal_cus_for_builtin_instructions"
  by (simp add: is_active_def all_enabled_def)

lemma sample_signature_cost: "get_signature_cost sample_cost_tx all_enabled = 720"
  by (simp add: get_signature_cost_def sample_cost_tx_def Let_def saturating_add_def saturating_mul_def SIGNATURE_COST_def
      COMPUTE_UNIT_TO_US_RATIO_def)

lemma sample_instructions:
  "msg_program_instructions (ct_message sample_cost_tx) =
     [(replicate 32 40, \<lparr>program_id_index = 2, ix_accounts = [0, 1], ix_data = [1, 2, 3, 4]\<rparr>)]"
  "msg_num_write_locks (ct_message sample_cost_tx) = 2" "\<not> is_simple_vote_transaction (ct_meta sample_cost_tx)"
  by (simp_all add: sample_cost_tx_def sample_message_def)

lemma sample_calculate_cost: "calculate_cost sample_sdk sample_cost_tx all_enabled = Some sample_cost"
proof -
  let ?is = "[(replicate 32 40 :: u8 list, \<lparr>program_id_index = 2, ix_accounts = [0, 1], ix_data = [1, 2, 3, 4]\<rparr>)]"
  have d: "get_instructions_data_cost ?is = 1"
    by (simp add: get_instructions_data_cost_def INSTRUCTION_DATA_BYTES_COST_def COMPUTE_UNIT_TO_US_RATIO_def)
  have a: "calculate_allocated_accounts_data_size sample_sdk ?is = 0"
    by (simp add: calculate_allocated_accounts_data_size_def calculate_account_data_size_on_instruction_def sample_sdk_def)
  have m: "memory_usage_cost sample_sdk n h = 8" for n h by (simp add: sample_sdk_def)
  have g: "get_transaction_cost sample_sdk sample_cost_tx ?is all_enabled = Some (200000, 8, 1)"
    by (simp add: get_transaction_cost_def get_estimated_execution_cost_def sample_details d sample_active m
        calculate_loaded_accounts_data_size_cost_def)
  show ?thesis unfolding calculate_cost_def Let_def sample_instructions(1,2)
    by (simp add: sample_instructions(3) g calculate_non_vote_transaction_cost_def a sample_signature_cost sample_cost_def
        get_write_lock_cost_def saturating_mul_def WRITE_LOCK_UNITS_def COMPUTE_UNIT_TO_US_RATIO_def)
qed

lemma sample_cost_sum: "cost_sum sample_cost = 201329" "load_units sample_cost = 200008"
  by (simp_all add: sample_cost_def usage_sum_def load_units_def saturating_add_def)

lemma sample_writable: "writable_accounts sample_cost = [replicate 32 20, replicate 32 21]"
  by (simp add: writable_accounts_def sample_cost_def sample_cost_tx_def sample_message_def Let_def enumerate_eq_zip)

lemma sample_init: "tracker_init (new_from_parent_limits tracker_default, {#})"
  by (auto simp: tracker_init_def limits_ok_def tracker_default_def MAX_BLOCK_UNITS_def MAX_VOTE_UNITS_def
      MAX_WRITABLE_ACCOUNT_UNITS_def intro!: exI [of _ tracker_default])

lemma sample_fits: "would_fit (new_from_parent_limits tracker_default) sample_cost = Inr ()"
proof -
  have alloc: "cost_allocated_accounts_data_size sample_cost = 0" "\<not> is_simple_vote sample_cost"
    by (simp_all add: sample_cost_def)
  show ?thesis unfolding would_fit_iff sample_cost_sum
    by (simp add: alloc new_from_parent_limits_def set_limits_def tracker_default_def MAX_BLOCK_UNITS_def
        MAX_WRITABLE_ACCOUNT_UNITS_def MAX_BLOCK_ACCOUNTS_DATA_SIZE_DELTA_def account_cost_def)
qed

lemma sample_try_add: "\<exists>u. try_add (new_from_parent_limits tracker_default) sample_cost = (Inr u, sample_tracker)"
  by (simp add: sample_tracker_def try_add_def sample_fits split: prod.splits)

lemma sample_distinct: "distinct (writable_accounts sample_cost)"
  by (simp add: sample_writable)

lemma sample_start: "tracker_reachable (new_from_parent_limits tracker_default, {#})"
  unfolding tracker_reachable_def using sample_init by blast

lemma sample_reachable: "tracker_reachable (sample_tracker, {#(sample_cost, unat (cost_sum sample_cost))#})"
proof -
  obtain u where "try_add (new_from_parent_limits tracker_default) sample_cost = (Inr u, sample_tracker)"
    using sample_try_add by blast
  from tracker_step.calm [OF calm_step.add [OF this sample_distinct, of "{#}"]] show ?thesis
    unfolding tracker_reachable_def using sample_init by blast
qed

theorem cost_tracker_limits_witness:
  "counts sample_tracker {#(sample_cost, 201329)#} \<and> within_limits sample_tracker"
proof -
  obtain u where "try_add (new_from_parent_limits tracker_default) sample_cost = (Inr u, sample_tracker)"
    using sample_try_add by blast
  from calm_step.add [OF this sample_distinct, of "{#}"] have "calm_step\<^sup>*\<^sup>* (new_from_parent_limits tracker_default, {#})
      (sample_tracker, {#(sample_cost, unat (cost_sum sample_cost))#})" by (rule r_into_rtranclp)
  moreover have "within_limits (new_from_parent_limits tracker_default)"
    by (simp add: within_limits_def new_from_parent_limits_def set_limits_def tracker_default_def account_cost_def)
  ultimately show ?thesis using cost_tracker_limits [OF sample_start] by (simp add: sample_cost_sum)
qed

theorem try_add_exact_witness:
  "\<exists>u t'. try_add (new_from_parent_limits tracker_default) sample_cost = (Inr u, t')"
proof -
  have "fits (new_from_parent_limits tracker_default) {#} sample_cost"
    using tracker_reachable_inv [OF sample_start] sample_fits
      would_fit_ledger [of "new_from_parent_limits tracker_default" "{#}" sample_cost] by (simp add: tracker_inv_def)
  with try_add_exact [OF sample_start, of sample_cost] show ?thesis by simp
qed

theorem try_add_remove_roundtrip_witness:
  "block_cost (tracker_remove sample_tracker sample_cost) = 0 \<and> transaction_count (tracker_remove sample_tracker sample_cost) = 0"
proof -
  obtain u where u: "try_add (new_from_parent_limits tracker_default) sample_cost = (Inr u, sample_tracker)"
    using sample_try_add by blast
  have z: "transaction_count (new_from_parent_limits tracker_default) = 0" "block_cost (new_from_parent_limits tracker_default) = 0"
    by (simp_all add: new_from_parent_limits_def set_limits_def tracker_default_def)
  have "transaction_count (new_from_parent_limits tracker_default) < - 1" unfolding z by (simp add: word_less_nat_alt unat_max_word)
  from try_add_remove_roundtrip [OF sample_start u sample_distinct this] show ?thesis by (simp add: z)
qed

lemma sample_loaded: "8 = calculate_loaded_accounts_data_size_cost sample_sdk 1000 all_enabled"
  by (simp add: calculate_loaded_accounts_data_size_cost_def sample_sdk_def)

theorem update_charges_executed_cost_witness:
  "let e = calculate_cost_for_executed_transaction sample_sdk sample_cost_tx 250000 1000 all_enabled;
      t' = update_execution_cost sample_tracker sample_cost 250000 8
    in counts t' (add_mset (e, unat (cost_sum e)) {#})"
proof -
  have "counts sample_tracker {#(sample_cost, unat (cost_sum sample_cost))#}"
    using tracker_reachable_inv [OF sample_reachable] by (simp add: tracker_inv_def)
  then have "unat (block_cost sample_tracker) = 201329" by (simp add: counts_def total_def sample_cost_sum)
  then have room: "unat (block_cost sample_tracker) + (unat (saturating_add 250000 8 :: u64) - unat (load_units sample_cost)) < 2 ^ 64"
    by (simp add: sample_cost_sum saturating_add_def)
  show ?thesis using update_charges_executed_cost
      [OF sample_reachable sample_calculate_cost sample_instructions(3) sample_active sample_loaded room]
    by (simp add: Let_def)
qed

end
