(* ===== verification/Fees.thy ===== *)
theory Fees
  imports Cost_Model
begin












record unit_costs =
  builtin_costs :: u64
  bpf_costs :: u64
  data_bytes_len_total :: u64

definition is_set_limit :: "sdk \<Rightarrow> program_instruction \<Rightarrow> bool" where
  "is_set_limit env p \<longleftrightarrow> fst p = compute_budget_id env \<and>
     (case decode_compute_budget env (ix_data (snd p)) of Some (SetComputeUnitLimit _) \<Rightarrow> True | _ \<Rightarrow> False)"

definition count_units :: "sdk \<Rightarrow> feature_set \<Rightarrow> program_instruction \<Rightarrow> unit_costs \<Rightarrow> unit_costs" where
  "count_units env feature_set p s =
     (let s' = (case get_builtin_instruction_cost env (fst p) feature_set of
                  Some c \<Rightarrow> s\<lparr>builtin_costs := saturating_add (builtin_costs s) c\<rparr>
                | None \<Rightarrow> s\<lparr>bpf_costs := min (saturating_add (bpf_costs s) (ucast DEFAULT_INSTRUCTION_COMPUTE_UNIT_LIMIT))
                    (ucast MAX_COMPUTE_UNIT_LIMIT)\<rparr>)
      in s'\<lparr>data_bytes_len_total := saturating_add (data_bytes_len_total s') (of_nat (length (ix_data (snd p))))\<rparr>)"

text \<open>\<open>Iterator::any\<close>: it stops at the first instruction for which the closure returns true.\<close>

fun any_set_limit :: "sdk \<Rightarrow> feature_set \<Rightarrow> program_instruction list \<Rightarrow> unit_costs \<Rightarrow> bool \<times> unit_costs" where
  "any_set_limit env feature_set [] s = (False, s)"
| "any_set_limit env feature_set (p # rest) s =
     (let s' = count_units env feature_set p s
      in if is_set_limit env p then (True, s') else any_set_limit env feature_set rest s')"

definition fee_transaction_cost :: "layout \<Rightarrow> sdk \<Rightarrow> svm_message \<Rightarrow> u64 option" where
  "fee_transaction_cost lay env message =
     (let (compute_unit_limit_is_set, s) = any_set_limit env all_enabled (msg_program_instructions message)
            \<lparr>builtin_costs = 0, bpf_costs = 0, data_bytes_len_total = 0\<rparr>
      in case process_compute_budget_instructions lay env (msg_program_instructions message) all_enabled of
           None \<Rightarrow> None
         | Some (Inr limits) \<Rightarrow>
             Some (saturating_add (builtin_costs s)
               (if bpf_costs s > 0 \<and> compute_unit_limit_is_set then ucast (compute_unit_limit limits) else bpf_costs s))
         | Some (Inl _) \<Rightarrow> Some (saturating_add (builtin_costs s) (bpf_costs s)))"




section \<open>The units a fee is computed from\<close>

definition charged_prefix :: "sdk \<Rightarrow> program_instruction list \<Rightarrow> program_instruction list" where
  "charged_prefix env pis =
     takeWhile (\<lambda>p. \<not> is_set_limit env p) pis @ take 1 (dropWhile (\<lambda>p. \<not> is_set_limit env p) pis)"

definition builtin_units :: "sdk \<Rightarrow> program_instruction \<Rightarrow> nat" where
  "builtin_units env p = (case get_builtin_instruction_cost env (fst p) all_enabled of Some c \<Rightarrow> unat c | None \<Rightarrow> 0)"

definition is_user_program :: "sdk \<Rightarrow> program_instruction \<Rightarrow> bool" where
  "is_user_program env p \<longleftrightarrow> get_builtin_instruction_cost env (fst p) all_enabled = None"

definition user_units :: "sdk \<Rightarrow> program_instruction list \<Rightarrow> nat" where
  "user_units env pis = min 1400000 (200000 * length (filter (is_user_program env) pis))"

lemma any_set_limit_fold:
  "any_set_limit env fs pis s = (list_ex (is_set_limit env) pis, fold (count_units env fs) (charged_prefix env pis) s)"
  by (induction env fs pis s rule: any_set_limit.induct) (auto simp: charged_prefix_def Let_def)

lemma builtin_cost_le: "get_builtin_instruction_cost env key fs = Some c \<Longrightarrow> unat c \<le> 2370"
  by (auto simp: get_builtin_instruction_cost_def BUILTIN_INSTRUCTION_COSTS_def MIGRATING_BUILTINS_COSTS_def
      NON_MIGRATING_BUILTINS_COSTS_def split: option.splits if_splits)

lemma count_units_bpf:
  "unat (bpf_costs s) = min 1400000 (200000 * n) \<Longrightarrow>
   unat (bpf_costs (fold (count_units env all_enabled) pis s)) = min 1400000 (200000 * (n + length (filter (is_user_program env) pis)))"
proof (induction pis arbitrary: s n)
  case (Cons p pis)
  let ?s = "count_units env all_enabled p s"
  have "unat (bpf_costs ?s) = min 1400000 (200000 * (n + (if is_user_program env p then 1 else 0)))"
    using Cons.prems by (auto simp: count_units_def is_user_program_def Let_def unat_min unat_saturating_add
        DEFAULT_INSTRUCTION_COMPUTE_UNIT_LIMIT_def MAX_COMPUTE_UNIT_LIMIT_def min_def word_le_nat_alt split: option.splits)
  from Cons.IH [OF this] show ?case by auto
qed simp

lemma count_units_builtin:
  "unat (builtin_costs s) + 2370 * length pis < 2 ^ 64 \<Longrightarrow>
   unat (builtin_costs (fold (count_units env all_enabled) pis s)) = unat (builtin_costs s) + sum_list (map (builtin_units env) pis)"
proof (induction pis arbitrary: s)
  case (Cons p pis)
  let ?s = "count_units env all_enabled p s"
  have "unat (builtin_costs ?s) = unat (builtin_costs s) + builtin_units env p" "builtin_units env p \<le> 2370"
    using Cons.prems builtin_cost_le [of env "fst p" all_enabled]
    by (auto simp: count_units_def builtin_units_def Let_def unat_saturating_add split: option.splits)
  then show ?case using Cons.IH [of ?s] Cons.prems by simp
qed simp

lemma builtin_units_sum_le: "sum_list (map (builtin_units env) pis) \<le> 2370 * length pis"
proof (induction pis)
  case (Cons p pis)
  have "builtin_units env p \<le> 2370"
    using builtin_cost_le [of env "fst p" all_enabled] by (auto simp: builtin_units_def split: option.splits)
  with Cons show ?case by simp
qed simp

lemma user_units_pos: "0 < user_units env pis \<longleftrightarrow> list_ex (is_user_program env) pis"
  by (induction pis) (auto simp: user_units_def)


lemma charged_prefix_length: "length (charged_prefix env pis) \<le> length pis"
proof -
  have "length (take 1 (dropWhile P pis)) \<le> length (dropWhile P pis)" for P by simp
  then show ?thesis unfolding charged_prefix_def
    by (metis add_left_mono length_append takeWhile_dropWhile_id)
qed

lemma budget_total:
  assumes "layout_ok lay" and "sdk_ok env" and "well_indexed keys pis" and "length keys \<le> 38" and "length pis < 2 ^ 16"
  shows "process_compute_budget_instructions lay env pis fs \<noteq> None"
proof -
  obtain r where r: "details_try_from lay env pis = Some r" "case r of
       Inl e \<Rightarrow> \<not> requests_valid (decoded_requests env pis)
     | Inr d \<Rightarrow> requests_valid (decoded_requests env pis) \<and> recorded d = requested (decoded_requests env pis) \<and>
         (recorded d UnitLimit = None \<longrightarrow> (\<exists>l. calculate_default_compute_unit_limit env d fs = Some l \<and>
            min (unat l) 1400000 = min (default_units env fs pis) 1400000))"
    using details_try_from_value [OF assms(1,3-5)] by blast
  show ?thesis
  proof (cases r)
    case (Inr d)
    with r have "recorded d UnitLimit = None \<Longrightarrow> \<exists>l. calculate_default_compute_unit_limit env d fs = Some l \<and>
        min (unat l) 1400000 = min (default_units env fs pis) 1400000" by simp
    from sanitize_value [OF assms(2) this] obtain x where "sanitize_and_convert_to_compute_budget_limits env d fs = Some x" by blast
    then show ?thesis using r(1) Inr by (simp add: process_compute_budget_instructions_def)
  qed (use r in \<open>simp add: process_compute_budget_instructions_def\<close>)
qed

lemma fee_units_value:
  assumes "layout_ok lay" and "sdk_ok env" and "well_indexed keys (msg_program_instructions message)"
    and "length keys \<le> 38" and "length (msg_program_instructions message) < 2 ^ 16"
  shows "\<exists>r u. process_compute_budget_instructions lay env (msg_program_instructions message) all_enabled = Some r \<and>
    fee_transaction_cost lay env message = Some u \<and>
    (let pis = msg_program_instructions message; charged = charged_prefix env pis in
     unat u = sum_list (map (builtin_units env) charged) +
       (case r of
          Inr l \<Rightarrow> if list_ex (is_set_limit env) pis \<and> list_ex (is_user_program env) charged
                   then unat (compute_unit_limit l) else user_units env charged
        | Inl _ \<Rightarrow> user_units env charged))"
proof -
  let ?pis = "msg_program_instructions message"
  define z where "z = \<lparr>builtin_costs = 0, bpf_costs = 0, data_bytes_len_total = 0\<rparr>"
  define c where "c = charged_prefix env ?pis"
  define s where "s = fold (count_units env all_enabled) c z"
  obtain r where r: "process_compute_budget_instructions lay env ?pis all_enabled = Some r"
    using budget_total [OF assms] by blast
  have len: "length c < 2 ^ 16" using charged_prefix_length [of env ?pis] assms(5) by (simp add: c_def)
  have z: "builtin_costs z = 0" "bpf_costs z = 0" by (simp_all add: z_def)
  have bu: "unat (builtin_costs s) = sum_list (map (builtin_units env) c)"
    using count_units_builtin [of z c env] len by (simp add: s_def z)
  have bp: "unat (bpf_costs s) = user_units env c" using count_units_bpf [of z 0 env c] by (simp add: s_def z user_units_def)
  have le: "sum_list (map (builtin_units env) c) < 2 ^ 32" using builtin_units_sum_le [of env c] len by simp
  have pos: "bpf_costs s > 0 \<longleftrightarrow> list_ex (is_user_program env) c"
    using user_units_pos [of env c] by (simp add: word_less_nat_alt bp)
  have add: "unat (saturating_add (builtin_costs s) x) = sum_list (map (builtin_units env) c) + unat x"
    if "unat x < 2 ^ 32" for x using that le by (simp add: unat_saturating_add bu)
  have u: "unat (bpf_costs s) < 2 ^ 32" by (simp add: bp user_units_def)
  have v: "unat (ucast (n :: u32) :: u64) = unat n" "unat n < 2 ^ 32" for n :: u32
    using unat_less_pow [of n] by (simp_all add: unat_ucast_small)
  have cost: "fee_transaction_cost lay env message = Some (saturating_add (builtin_costs s) (case r of
      Inr l \<Rightarrow> if bpf_costs s > 0 \<and> list_ex (is_set_limit env) ?pis then ucast (compute_unit_limit l) else bpf_costs s
    | Inl _ \<Rightarrow> bpf_costs s))"
    unfolding fee_transaction_cost_def any_set_limit_fold r z_def [symmetric] c_def [symmetric] s_def [symmetric]
    by (cases r) simp_all
  show ?thesis
  proof (cases r)
    case (Inl e)
    then show ?thesis using r cost add [OF u] bp by (simp add: c_def Let_def)
  next
    case (Inr l)
    then show ?thesis using r cost add [OF u] bp pos add [of "ucast (compute_unit_limit l)"] v [of "compute_unit_limit l"]
      by (simp add: c_def Let_def)
  qed
qed

lemma compute_budget_builtin: "sdk_ok env \<Longrightarrow> get_builtin_instruction_cost env (compute_budget_id env) fs = Some 150"
  by (auto simp: sdk_ok_def all_ids_def get_builtin_instruction_cost_def BUILTIN_INSTRUCTION_COSTS_def
      MIGRATING_BUILTINS_COSTS_def NON_MIGRATING_BUILTINS_COSTS_def)

lemma charged_prefix_split:
  "is_set_limit env p \<Longrightarrow> list_all (\<lambda>q. \<not> is_set_limit env q) pre \<Longrightarrow> charged_prefix env (pre @ p # rest) = pre @ [p]"
  by (simp add: charged_prefix_def takeWhile_all dropWhile_all takeWhile_append2 dropWhile_append2 list_all_iff)


section \<open>Properties\<close>

text \<open>The compute units a fee is computed from: the default costs of the builtin instructions up to and
  including the first instruction that sets the compute unit limit, and for the other instructions among these
  the compute unit limit of the transaction if it is set and its budget is valid, else 200000 units each and at
  most 1400000. The instructions after the one that sets the limit do not count.\<close>

theorem fee_units_exact:
  assumes "layout_ok lay" and "sdk_ok env" and "well_indexed keys (msg_program_instructions message)"
    and "length keys \<le> 38" and "length (msg_program_instructions message) < 2 ^ 16"
  shows "\<exists>r u. process_compute_budget_instructions lay env (msg_program_instructions message) all_enabled = Some r \<and>
    fee_transaction_cost lay env message = Some u \<and>
    (let pis = msg_program_instructions message; charged = charged_prefix env pis in
     unat u = sum_list (map (builtin_units env) charged) +
       (case r of
          Inr l \<Rightarrow> if list_ex (is_set_limit env) pis \<and> list_ex (is_user_program env) charged
                   then unat (compute_unit_limit l) else user_units env charged
        | Inl _ \<Rightarrow> user_units env charged))"
  by (rule fee_units_value [OF assms])

text \<open>An instruction that sets the compute unit limit hides everything after it from the fee: if only
  builtin programs are called before it, the fee is computed from the default costs of the builtins
  up to this instruction, whatever limit it sets and whatever programs are called afterwards.\<close>

theorem fee_ignores_instructions_after_limit:
  assumes "layout_ok lay" and "sdk_ok env" and "well_indexed keys (msg_program_instructions message)"
    and "length keys \<le> 38" and "length (msg_program_instructions message) < 2 ^ 16"
    and "msg_program_instructions message = pre @ p # rest" and "is_set_limit env p"
    and "list_all (\<lambda>q. \<not> is_set_limit env q \<and> \<not> is_user_program env q) pre"
  shows "\<exists>u. fee_transaction_cost lay env message = Some u \<and> unat u = sum_list (map (builtin_units env) pre) + 150"
proof -
  have c: "charged_prefix env (msg_program_instructions message) = pre @ [p]"
    using charged_prefix_split [OF assms(7)] assms(6,8) by (simp add: list_all_iff)
  have p: "get_builtin_instruction_cost env (fst p) all_enabled = Some 150"
    using assms(2,7) by (simp add: is_set_limit_def compute_budget_builtin)
  then have n: "\<not> list_ex (is_user_program env) (pre @ [p])" "builtin_units env p = 150"
    using assms(8) by (auto simp: list_ex_iff list_all_iff is_user_program_def builtin_units_def)
  then have "user_units env (pre @ [p]) = 0" using user_units_pos [of env "pre @ [p]"] by simp
  with fee_units_value [OF assms(1-5)] n show ?thesis unfolding Let_def c by (fastforce split: sum.splits)
qed


section \<open>Witnesses\<close>

definition sample_fee_message :: svm_message where
  "sample_fee_message = \<lparr>msg_num_transaction_signatures = 1, msg_num_write_locks = 1, msg_recent_blockhash = replicate 32 0,
     msg_program_instructions =
       [(replicate 32 6, \<lparr>program_id_index = 1, ix_accounts = [], ix_data = [2]\<rparr>),
        (replicate 32 40, \<lparr>program_id_index = 2, ix_accounts = [0], ix_data = []\<rparr>)],
     msg_account_keys = [replicate 32 20, replicate 32 6, replicate 32 40],
     msg_is_writable = (\<lambda>i. i = 0), msg_is_signer = (\<lambda>i. i = 0)\<rparr>"



lemma sample_fee_indexed:
  "well_indexed [replicate 32 20, replicate 32 6, replicate 32 40] (msg_program_instructions sample_fee_message)"
  "length [replicate 32 (20 :: u8), replicate 32 6, replicate 32 40] \<le> 38"
  "length (msg_program_instructions sample_fee_message) < 2 ^ 16"
  by (simp_all add: well_indexed_def sample_fee_message_def)

lemma sample_fee_limit: "is_set_limit sample_sdk (replicate 32 6, \<lparr>program_id_index = 1, ix_accounts = [], ix_data = [2]\<rparr>)"
  by (simp add: is_set_limit_def sample_sdk_def)

lemmas sample_fee_setup = sample_layout_ok sample_sdk_ok sample_fee_indexed

theorem fee_units_exact_witness:
  "\<exists>r u. process_compute_budget_instructions sample_layout sample_sdk (msg_program_instructions sample_fee_message) all_enabled = Some r \<and>
    fee_transaction_cost sample_layout sample_sdk sample_fee_message = Some u"
  using fee_units_exact [OF sample_fee_setup] by blast

theorem fee_ignores_instructions_after_limit_witness:
  "\<exists>u. fee_transaction_cost sample_layout sample_sdk sample_fee_message = Some u \<and> unat u = 150"
proof -
  have "msg_program_instructions sample_fee_message = [] @ (replicate 32 6, \<lparr>program_id_index = 1, ix_accounts = [], ix_data = [2]\<rparr>) #
      [(replicate 32 40, \<lparr>program_id_index = 2, ix_accounts = [0], ix_data = []\<rparr>)]" by (simp add: sample_fee_message_def)
  from fee_ignores_instructions_after_limit [OF sample_fee_setup this sample_fee_limit] show ?thesis by simp
qed


end
