(* ===== verification/Rolling_Bit_Field.thy ===== *)
theory Rolling_Bit_Field
  imports Rust_Prelude
begin

text \<open>
  The rolling bit field of the accounts index and its iterator
  (\<^verbatim>\<open>accounts-db/src/rolling_bit_field.rs\<close>, \<^verbatim>\<open>rolling_bit_field/iterators.rs\<close>): a set of keys, kept as
  a window of bits and a set of the keys below it. The bit vector is a type of another crate: its operations are
  the fields of \<open>bitvec\<close>, an argument of the definitions; \<open>bitvec_ok\<close> states what they do. The order in which a
  hash set is iterated over is an argument too. \<open>None\<close> is a panic.
\<close>

section \<open>Bit vectors and ranges\<close>

record 'b bitvec =
  bv_new_fill :: "bool \<Rightarrow> u64 \<Rightarrow> 'b"
  bv_get :: "'b \<Rightarrow> u64 \<Rightarrow> bool"
  bv_set :: "'b \<Rightarrow> u64 \<Rightarrow> bool \<Rightarrow> 'b"
  bv_len :: "'b \<Rightarrow> u64"

definition bitvec_ok :: "'b bitvec \<Rightarrow> bool" where
  "bitvec_ok bv \<longleftrightarrow>
     (\<forall>b n. bv_len bv (bv_new_fill bv b n) = n) \<and>
     (\<forall>b n i. i < n \<longrightarrow> bv_get bv (bv_new_fill bv b n) i = b) \<and>
     (\<forall>v i b. bv_len bv (bv_set bv v i b) = bv_len bv v) \<and>
     (\<forall>v i j b. i < bv_len bv v \<longrightarrow> j < bv_len bv v \<longrightarrow>
        bv_get bv (bv_set bv v i b) j = (if i = j then b else bv_get bv v j))"

text \<open>The keys of a Rust range, in order.\<close>

definition word_range :: "u64 \<Rightarrow> u64 \<Rightarrow> u64 list" where
  "word_range a b = map of_nat [unat a..<unat b]"

definition is_power_of_two :: "u64 \<Rightarrow> bool" where
  "is_power_of_two n \<longleftrightarrow> list_ex (\<lambda>k. n = 2 ^ k) [0..<64]"

section \<open>State and operations\<close>

record 'b rolling_bit_field =
  max_width :: u64
  rb_min :: u64
  max_exclusive :: u64
  bits :: 'b
  rb_count :: usize
  excess :: "u64 set"

definition rb_new :: "'b bitvec \<Rightarrow> u64 \<Rightarrow> 'b rolling_bit_field option" where
  "rb_new bv width =
     (if \<not> width > 0 then None
      else if \<not> is_power_of_two width then None
      else Some \<lparr>max_width = width, rb_min = 0, max_exclusive = 0, bits = bv_new_fill bv False width,
             rb_count = 0, excess = {}\<rparr>)"

definition get_address :: "'b rolling_bit_field \<Rightarrow> u64 \<Rightarrow> u64" where
  "get_address self key = key mod max_width self"

definition range_width :: "'b rolling_bit_field \<Rightarrow> u64" where
  "range_width self = max_exclusive self - rb_min self"

definition rb_len :: "'b rolling_bit_field \<Rightarrow> usize" where
  "rb_len self = rb_count self"

definition rb_is_empty :: "'b rolling_bit_field \<Rightarrow> bool" where
  "rb_is_empty self \<longleftrightarrow> rb_len self = 0"

definition max_inclusive :: "'b rolling_bit_field \<Rightarrow> u64" where
  "max_inclusive self = saturating_sub (max_exclusive self) 1"

definition all_items_in_excess :: "'b rolling_bit_field \<Rightarrow> bool" where
  "all_items_in_excess self \<longleftrightarrow> of_nat (card (excess self)) = rb_count self"

definition contains_assume_in_range :: "'b bitvec \<Rightarrow> 'b rolling_bit_field \<Rightarrow> u64 \<Rightarrow> bool" where
  "contains_assume_in_range bv self key = bv_get bv (bits self) (get_address self key)"

definition rb_contains :: "'b bitvec \<Rightarrow> 'b rolling_bit_field \<Rightarrow> u64 \<Rightarrow> bool" where
  "rb_contains bv self key =
     (if key < max_exclusive self then
        (if key \<ge> rb_min self then contains_assume_in_range bv self key else key \<in> excess self)
      else False)"

definition rb_min_key :: "'b rolling_bit_field \<Rightarrow> u64 option" where
  "rb_min_key self =
     (if rb_is_empty self then None
      else if excess self = {} then Some (rb_min self)
      else if all_items_in_excess self then Some (Min (excess self))
      else Some (min (rb_min self) (Min (excess self))))"

definition purge :: "'b bitvec \<Rightarrow> 'b rolling_bit_field \<Rightarrow> u64 \<Rightarrow> 'b rolling_bit_field" where
  "purge bv self key =
     (if rb_count self > 0 \<and> \<not> all_items_in_excess self then
        (if key = rb_min self then
           (case find (contains_assume_in_range bv self) (word_range (rb_min self + 1) (max_exclusive self)) of
              Some k \<Rightarrow> self\<lparr>rb_min := k\<rparr>
            | None \<Rightarrow> self)
         else self)
      else self\<lparr>rb_min := max_exclusive self\<rparr>)"

text \<open>The body of the loop that makes room for a new maximum, and the loop: it gives whether the bits are
  empty in the end. It ends because every round adds a key to the excess set.\<close>

definition move_min_to_excess :: "'b bitvec \<Rightarrow> 'b rolling_bit_field \<Rightarrow> 'b rolling_bit_field" where
  "move_min_to_excess bv self =
     purge bv (self\<lparr>excess := insert (rb_min self) (excess self),
       bits := bv_set bv (bits self) (get_address self (rb_min self)) False\<rparr>) (rb_min self)"

lemma purge_excess [simp]: "excess (purge bv self key) = excess self"
  by (simp add: purge_def split: option.splits)

lemma move_min_excess [simp]: "excess (move_min_to_excess bv self) = insert (rb_min self) (excess self)"
  by (simp add: move_min_to_excess_def)

function make_room :: "'b bitvec \<Rightarrow> u64 \<Rightarrow> 'b rolling_bit_field \<Rightarrow> (bool \<times> 'b rolling_bit_field) option" where
  "make_room bv new_max self =
     (if saturating_sub new_max (rb_min self) \<le> max_width self then Some (False, self)
      else if rb_min self \<in> excess self then None
      else let s = move_min_to_excess bv self
           in if all_items_in_excess s then Some (True, s) else make_room bv new_max s)"
  by pat_completeness auto
termination
proof (relation "measure (\<lambda>(bv, new_max, self). card (UNIV - excess self))", goal_cases)
  case (2 bv new_max self s)
  then have "UNIV - excess (move_min_to_excess bv self) \<subset> UNIV - excess self" by auto
  then have "card (UNIV - excess (move_min_to_excess bv self)) < card (UNIV - excess self)" by (intro psubset_card_mono) simp_all
  with 2(3) show ?case by (simp only: in_measure prod.case)
qed simp

declare make_room.simps [simp del]

text \<open>The end of \<open>insert\<close>, where the bit is set.\<close>

definition set_bit_of :: "'b bitvec \<Rightarrow> bool \<Rightarrow> u64 \<Rightarrow> 'b rolling_bit_field \<Rightarrow> 'b rolling_bit_field option" where
  "set_bit_of bv bits_empty key self =
     (let address = get_address self key in
      if \<not> bv_get bv (bits self) address then
        (let s = self\<lparr>bits := bv_set bv (bits self) address True\<rparr> in
         if bits_empty then Some (s\<lparr>rb_min := key, max_exclusive := key + 1, rb_count := rb_count s + 1\<rparr>)
         else
           (let s = s\<lparr>rb_min := min (rb_min s) key, max_exclusive := max (max_exclusive s) (key + 1)\<rparr> in
            if rb_min s + max_width s \<ge> max_exclusive s then Some (s\<lparr>rb_count := rb_count s + 1\<rparr>) else None))
      else Some self)"

definition rb_insert :: "'b bitvec \<Rightarrow> 'b rolling_bit_field \<Rightarrow> u64 \<Rightarrow> 'b rolling_bit_field option" where
  "rb_insert bv self key =
     (if rb_count self = 0 \<or> all_items_in_excess self then set_bit_of bv True key self
      else if key < rb_min self then
        Some (if key \<in> excess self then self
              else self\<lparr>excess := insert key (excess self), rb_count := rb_count self + 1\<rparr>)
      else if key < max_exclusive self then set_bit_of bv False key self
      else
        (case make_room bv (key + 1) self of
           None \<Rightarrow> None
         | Some (bits_empty, s) \<Rightarrow> set_bit_of bv bits_empty key s))"

definition rb_remove :: "'b bitvec \<Rightarrow> 'b rolling_bit_field \<Rightarrow> u64 \<Rightarrow> bool \<times> 'b rolling_bit_field" where
  "rb_remove bv self key =
     (if key \<ge> rb_min self then
        (if key < max_exclusive self then
           (let address = get_address self key in
            if bv_get bv (bits self) address
            then (True, purge bv (self\<lparr>rb_count := rb_count self - 1, bits := bv_set bv (bits self) address False\<rparr>) key)
            else (False, self))
         else (False, self))
      else if key \<in> excess self then (True, self\<lparr>excess := excess self - {key}, rb_count := rb_count self - 1\<rparr>)
      else (False, self))"

section \<open>Enumeration\<close>

text \<open>\<open>order\<close> is the order in which the excess set is iterated over.\<close>

definition iteration_order :: "(u64 set \<Rightarrow> u64 list) \<Rightarrow> bool" where
  "iteration_order order \<longleftrightarrow> (\<forall>S. set (order S) = S \<and> distinct (order S))"

definition get_all_less_than :: "'b bitvec \<Rightarrow> (u64 set \<Rightarrow> u64 list) \<Rightarrow> 'b rolling_bit_field \<Rightarrow> u64 \<Rightarrow> u64 list" where
  "get_all_less_than bv order self max_slot_exclusive =
     filter (\<lambda>slot. slot < max_slot_exclusive) (order (excess self)) @
     filter (contains_assume_in_range bv self)
       (takeWhile (\<lambda>key. \<not> key \<ge> max_slot_exclusive) (word_range (rb_min self) (max_exclusive self)))"

definition get_all :: "'b bitvec \<Rightarrow> (u64 set \<Rightarrow> u64 list) \<Rightarrow> 'b rolling_bit_field \<Rightarrow> u64 list" where
  "get_all bv order self =
     order (excess self) @ filter (contains_assume_in_range bv self) (word_range (rb_min self) (max_exclusive self))"

text \<open>The search downwards of \<open>get_prior\<close>; it ends because the slot gets smaller.\<close>

function prior_loop :: "(u64 \<Rightarrow> bool) \<Rightarrow> u64 \<Rightarrow> u64 \<Rightarrow> u64 option" where
  "prior_loop isin least slot =
     (if isin slot then Some slot
      else let slot = saturating_sub slot 1 in if slot = 0 \<or> slot < least then None else prior_loop isin least slot)"
  by pat_completeness auto
termination
proof (relation "measure (\<lambda>(isin, least, slot). unat slot)", goal_cases)
  case (2 isin least slot slot')
  then show ?case by (auto simp: unat_saturating_sub unat_gt_0 simp flip: unat_eq_zero_iff)
qed simp

declare prior_loop.simps [simp del]

definition get_prior :: "'b bitvec \<Rightarrow> 'b rolling_bit_field \<Rightarrow> u64 \<Rightarrow> u64 option" where
  "get_prior bv self max_slot_exclusive =
     (case rb_min_key self of
        None \<Rightarrow> None
      | Some least \<Rightarrow> prior_loop (rb_contains bv self) least (saturating_sub max_slot_exclusive 1))"

definition rb_eq :: "'b bitvec \<Rightarrow> (u64 set \<Rightarrow> u64 list) \<Rightarrow> 'b rolling_bit_field \<Rightarrow> 'b rolling_bit_field \<Rightarrow> bool" where
  "rb_eq bv order self other \<longleftrightarrow> rb_len self = rb_len other \<and> list_all (rb_contains bv other) (get_all bv order self)"

record ones_iter =
  excess_iter :: "u64 list"
  bit_range :: "u64 list"

definition ones_iter_new :: "(u64 set \<Rightarrow> u64 list) \<Rightarrow> 'b rolling_bit_field \<Rightarrow> ones_iter" where
  "ones_iter_new order rolling_bit_field =
     \<lparr>excess_iter = order (excess rolling_bit_field),
      bit_range = word_range (rb_min rolling_bit_field) (max_exclusive rolling_bit_field)\<rparr>"

definition ones_iter_next :: "'b bitvec \<Rightarrow> 'b rolling_bit_field \<Rightarrow> ones_iter \<Rightarrow> u64 option \<times> ones_iter" where
  "ones_iter_next bv rolling_bit_field self =
     (case excess_iter self of
        e # rest \<Rightarrow> (Some e, self\<lparr>excess_iter := rest\<rparr>)
      | [] \<Rightarrow>
          (case dropWhile (\<lambda>k. \<not> contains_assume_in_range bv rolling_bit_field k) (bit_range self) of
             k # rest \<Rightarrow> (Some k, self\<lparr>bit_range := rest\<rparr>)
           | [] \<Rightarrow> (None, self\<lparr>bit_range := []\<rparr>)))"

end
