(* ===== verification/Rolling_Correct.thy ===== *)
theory Rolling_Correct
  imports Rolling_Bit_Field
begin

text \<open>
  The rolling bit field is a set: an invariant ties the window of bits, the excess set and the counter together,
  and every operation is the operation on the set of the keys it holds. The contract of such a set is the locale
  \<open>growing_set\<close>, which the ancestors rely on.
\<close>

section \<open>Words and ranges\<close>

lemma mod_window_nat: "a mod w = b mod w \<Longrightarrow> a \<le> b \<Longrightarrow> b < a + w \<Longrightarrow> a = (b :: nat)"
  by (metis add_diff_inverse_nat dvd_imp_le mod_eq_dvd_iff_nat nat_add_left_cancel_less not_less zero_less_diff
      le_neq_implies_less add.commute le_add_diff_inverse2 less_diff_conv2)

lemma mod_window:
  fixes k j w m :: u64
  assumes "k mod w = j mod w" and "m \<le> k" and "m \<le> j" and "unat k < unat m + unat w" and "unat j < unat m + unat w"
  shows "k = j"
proof -
  have "unat k mod unat w = unat j mod unat w" using assms(1) by (metis unat_mod_distrib)
  then have "unat k = unat j" using assms mod_window_nat [of "unat k" "unat w" "unat j"] mod_window_nat [of "unat j" "unat w" "unat k"]
    by (cases "unat k \<le> unat j") (auto simp: word_le_nat_alt)
  then show ?thesis by (rule word_unat_eqI)
qed

lemma set_word_range [simp]: "set (word_range a b) = {k. a \<le> k \<and> k < b}"
proof -
  have u: "unat (of_nat n :: u64) = n" if "n < unat b" for n
    using that unat_less_pow [of b] by (intro unat_of_nat_small) simp
  have "k \<in> of_nat ` {unat a..<unat b}" if "unat a \<le> unat k" "unat k < unat b" for k :: u64
    using that by (intro image_eqI [of _ _ "unat k"]) simp_all
  then show ?thesis unfolding word_range_def set_map set_upt word_le_nat_alt word_less_nat_alt
    using u by (intro equalityI subsetI) fastforce+
qed

lemma sorted_word_range: "sorted (word_range a b)" "distinct (word_range a b)"
proof -
  have u: "unat (of_nat n :: u64) = n" if "n \<in> set [unat a..<unat b]" for n
    using that unat_less_pow [of b] by (intro unat_of_nat_small) auto
  have m: "map unat (word_range a b) = [unat a..<unat b]"
    unfolding word_range_def map_map comp_def using u by (intro map_idI) simp
  show "distinct (word_range a b)" using distinct_map [of unat "word_range a b"] unfolding m by simp
  have "sorted (map unat (word_range a b))" unfolding m by simp
  then show "sorted (word_range a b)" by (auto simp: sorted_wrt_map word_le_nat_alt elim: sorted_wrt_mono_rel [rotated])
qed

lemma card_less_word: "card {k :: u64. k < m} = unat m"
proof -
  have "{k. k < m} = set (word_range 0 m)" by simp
  then have "card {k. k < m} = length (word_range 0 m)" using sorted_word_range(2) [of 0 m] by (simp only: distinct_card)
  then show ?thesis by (simp add: word_range_def)
qed

lemma find_sorted:
  "sorted xs \<Longrightarrow> find P xs = Some k \<Longrightarrow> P k \<and> k \<in> set xs \<and> (\<forall>j \<in> set xs. P j \<longrightarrow> k \<le> j)"
  by (induction xs) (auto split: if_splits)

lemma unat_Suc_less: "(a :: u64) < b \<Longrightarrow> unat (a + 1) = unat a + 1"
  using unat_less_pow [of b] by (intro unat_add_no_wrap [of a 1, simplified unat_1]) (simp add: word_less_nat_alt)

section \<open>Abstraction and invariant\<close>

definition in_bits :: "'b bitvec \<Rightarrow> 'b rolling_bit_field \<Rightarrow> u64 set" where
  "in_bits bv s = {k. rb_min s \<le> k \<and> k < max_exclusive s \<and> contains_assume_in_range bv s k}"

definition rb_abs :: "'b bitvec \<Rightarrow> 'b rolling_bit_field \<Rightarrow> u64 set" where
  "rb_abs bv s = in_bits bv s \<union> excess s"

text \<open>What holds also while a key moves out of the window.\<close>

definition rb_base :: "'b bitvec \<Rightarrow> 'b rolling_bit_field \<Rightarrow> bool" where
  "rb_base bv s \<longleftrightarrow> 0 < max_width s \<and> bv_len bv (bits s) = max_width s \<and> rb_min s \<le> max_exclusive s \<and>
     unat (max_exclusive s) \<le> unat (rb_min s) + unat (max_width s) \<and>
     (\<forall>a < max_width s. bv_get bv (bits s) a \<longrightarrow> (\<exists>k \<in> in_bits bv s. get_address s k = a)) \<and>
     unat (rb_count s) = card (in_bits bv s) + card (excess s)"

definition rb_inv :: "'b bitvec \<Rightarrow> 'b rolling_bit_field \<Rightarrow> bool" where
  "rb_inv bv s \<longleftrightarrow> rb_base bv s \<and> (\<forall>e \<in> excess s. e < rb_min s) \<and>
     (if in_bits bv s = {} then rb_min s = max_exclusive s else rb_min s \<in> in_bits bv s)"

text \<open>The keys that may be inserted: those for which the window does not leave the machine integers, and, while
  the window is empty, only those above all keys in excess.\<close>

definition rb_fresh :: "'b bitvec \<Rightarrow> 'b rolling_bit_field \<Rightarrow> u64 \<Rightarrow> bool" where
  "rb_fresh bv s key \<longleftrightarrow> unat key + unat (max_width s) < 2 ^ 64 \<and> (in_bits bv s = {} \<longrightarrow> (\<forall>e \<in> excess s. e < key))"

lemma address_less: "rb_base bv s \<Longrightarrow> get_address s k < max_width s"
  by (simp add: rb_base_def get_address_def word_mod_less_divisor)

lemma in_excess_iff:
  assumes "rb_base bv s"
  shows "all_items_in_excess s \<longleftrightarrow> in_bits bv s = {}"
proof -
  have c: "unat (rb_count s) = card (in_bits bv s) + card (excess s)" using assms by (simp add: rb_base_def)
  then have "card (excess s) < 2 ^ 64" using unat_less_pow [of "rb_count s"] by simp
  then have "unat (of_nat (card (excess s)) :: u64) = card (excess s)" by (simp add: unat_of_nat_small)
  then have "all_items_in_excess s \<longleftrightarrow> card (excess s) = unat (rb_count s)"
    unfolding all_items_in_excess_def by (metis word_unat_eqI)
  then show ?thesis using c by (auto simp: card_eq_0_iff)
qed

lemma count_zero: "rb_base bv s \<Longrightarrow> rb_count s = 0 \<longleftrightarrow> in_bits bv s = {} \<and> excess s = {}"
  unfolding rb_base_def by (auto simp: card_eq_0_iff simp flip: unat_eq_zero_iff)

lemma excess_disjoint: "rb_inv bv s \<Longrightarrow> in_bits bv s \<inter> excess s = {}"
  by (auto simp: rb_inv_def in_bits_def)

lemma get_set_address:
  assumes "bitvec_ok bv" and "rb_base bv s"
  shows "bv_get bv (bv_set bv (bits s) (get_address s k) b) (get_address s j) =
    (if get_address s k = get_address s j then b else bv_get bv (bits s) (get_address s j))"
  using assms address_less [OF assms(2)] by (simp add: bitvec_ok_def rb_base_def)

lemma window_address:
  assumes "rb_base bv s" and "rb_min s \<le> k" and "rb_min s \<le> j" and "unat k < unat (rb_min s) + unat (max_width s)"
    and "unat j < unat (rb_min s) + unat (max_width s)"
  shows "get_address s k = get_address s j \<longleftrightarrow> k = j"
  using assms mod_window [of k "max_width s" j "rb_min s"] by (auto simp: get_address_def)

lemma in_bits_window: "rb_base bv s \<Longrightarrow> k \<in> in_bits bv s \<Longrightarrow> rb_min s \<le> k \<and> unat k < unat (rb_min s) + unat (max_width s)"
  by (auto simp: in_bits_def rb_base_def word_less_nat_alt)

section \<open>Removing from the window\<close>

text \<open>Clearing the bit of a key in the window takes just this key out.\<close>

lemma clear_bit:
  assumes ok: "bitvec_ok bv" and base: "rb_base bv s" and key: "key \<in> in_bits bv s"
    and s': "s' = s\<lparr>bits := bv_set bv (bits s) (get_address s key) False, excess := E, rb_count := n\<rparr>"
    and n: "unat n = card (in_bits bv s) - 1 + card E"
  shows "in_bits bv s' = in_bits bv s - {key}" and "rb_base bv s'"
proof -
  have same: "get_address s' k = get_address s k" for k by (simp add: s' get_address_def)
  have bit: "bv_get bv (bits s') (get_address s k) \<longleftrightarrow> get_address s k \<noteq> get_address s key \<and> bv_get bv (bits s) (get_address s k)" for k
    using get_set_address [OF ok base, of key False k] by (auto simp: s')
  have inj: "get_address s k = get_address s key \<longleftrightarrow> k = key" if "rb_min s \<le> k" "k < max_exclusive s" for k
    using that in_bits_window [OF base key] base by (intro window_address [OF base]) (auto simp: rb_base_def word_less_nat_alt)
  show bits: "in_bits bv s' = in_bits bv s - {key}"
    using inj by (auto simp: in_bits_def contains_assume_in_range_def bit same) (auto simp: s')
  have rep: "\<exists>k \<in> in_bits bv s'. get_address s' k = a" if a: "a < max_width s" "bv_get bv (bits s') a" for a
  proof -
    have "a mod max_width s = a" using a(1) by (intro word_unat_eqI) (simp add: unat_mod_distrib word_less_nat_alt)
    then have "get_address s a = a" by (simp add: get_address_def)
    with bit [of a] a(2) have "a \<noteq> get_address s key" "bv_get bv (bits s) a" by auto
    with base a(1) obtain k where "k \<in> in_bits bv s" "get_address s k = a" by (auto simp: rb_base_def)
    with \<open>a \<noteq> get_address s key\<close> show ?thesis unfolding bits same by blast
  qed
  have "card (in_bits bv s - {key}) = card (in_bits bv s) - 1" using key by (simp add: card_Diff_singleton)
  with base ok rep n bits show "rb_base bv s'" by (simp add: rb_base_def s' bitvec_ok_def)
qed

text \<open>\<open>purge\<close> moves the minimum to the next key of the window.\<close>

lemma purge_spec:
  assumes base: "rb_base bv s" and out: "rb_min s \<notin> in_bits bv s" and lt: "rb_min s < max_exclusive s"
    and ex: "\<And>e. e \<in> excess s \<Longrightarrow> e \<le> rb_min s"
  shows "rb_inv bv (purge bv s (rb_min s))" and "in_bits bv (purge bv s (rb_min s)) = in_bits bv s"
    and "max_exclusive (purge bv s (rb_min s)) = max_exclusive s" and "max_width (purge bv s (rb_min s)) = max_width s"
proof -
  have "\<exists>m. purge bv s (rb_min s) = s\<lparr>rb_min := m\<rparr> \<and> rb_min s < m \<and> m \<le> max_exclusive s \<and>
      (\<forall>k \<in> in_bits bv s. m \<le> k) \<and> (if in_bits bv s = {} then m = max_exclusive s else m \<in> in_bits bv s)"
  proof (cases "in_bits bv s = {}")
    case True
    then show ?thesis using in_excess_iff [OF base] lt by (intro exI [of _ "max_exclusive s"]) (simp add: purge_def)
  next
    case False
    let ?r = "word_range (rb_min s + 1) (max_exclusive s)"
    have mem: "k \<in> set ?r \<longleftrightarrow> rb_min s < k \<and> k < max_exclusive s" for k
      using unat_Suc_less [OF lt] by (auto simp: word_le_nat_alt word_less_nat_alt)
    obtain k0 where k0: "k0 \<in> in_bits bv s" using False by blast
    with out have "k0 \<in> set ?r" "contains_assume_in_range bv s k0" unfolding mem by (auto simp: in_bits_def order.order_iff_strict)
    then obtain m where m: "find (contains_assume_in_range bv s) ?r = Some m"
      by (metis find_None_iff2 not_Some_eq)
    note f = find_sorted [OF sorted_word_range(1) m]
    have "purge bv s (rb_min s) = s\<lparr>rb_min := m\<rparr>"
      using False in_excess_iff [OF base] count_zero [OF base] m by (simp add: purge_def word_neq_0_conv)
    moreover have "m \<le> k" if "k \<in> in_bits bv s" for k
    proof -
      have "k \<in> set ?r" "contains_assume_in_range bv s k" using that out unfolding mem by (auto simp: in_bits_def order.order_iff_strict)
      with f show ?thesis by blast
    qed
    ultimately show ?thesis using False f mem [of m] by (intro exI [of _ m]) (auto simp: in_bits_def)
  qed
  then obtain m where p: "purge bv s (rb_min s) = s\<lparr>rb_min := m\<rparr>" and m: "rb_min s < m" "m \<le> max_exclusive s"
    "\<And>k. k \<in> in_bits bv s \<Longrightarrow> m \<le> k" "if in_bits bv s = {} then m = max_exclusive s else m \<in> in_bits bv s" by blast
  show bits: "in_bits bv (purge bv s (rb_min s)) = in_bits bv s"
    unfolding p using m by (auto simp: in_bits_def contains_assume_in_range_def get_address_def)
  have "rb_base bv (s\<lparr>rb_min := m\<rparr>)" using base m bits unfolding p
    by (auto simp: rb_base_def get_address_def word_less_nat_alt)
  then show "rb_inv bv (purge bv s (rb_min s))" unfolding rb_inv_def bits
    using m by (auto simp: p dest!: ex)
  show "max_exclusive (purge bv s (rb_min s)) = max_exclusive s" "max_width (purge bv s (rb_min s)) = max_width s"
    by (simp_all add: p)
qed

lemma rb_inv_nonempty: "rb_inv bv s \<Longrightarrow> in_bits bv s \<noteq> {} \<Longrightarrow> rb_min s \<in> in_bits bv s \<and> rb_min s < max_exclusive s"
  unfolding rb_inv_def by (simp, simp add: in_bits_def)

lemma move_min_spec:
  assumes ok: "bitvec_ok bv" and inv: "rb_inv bv s" and ne: "in_bits bv s \<noteq> {}"
  shows "rb_inv bv (move_min_to_excess bv s)" and "in_bits bv (move_min_to_excess bv s) = in_bits bv s - {rb_min s}"
    and "max_exclusive (move_min_to_excess bv s) = max_exclusive s" and "max_width (move_min_to_excess bv s) = max_width s"
proof -
  let ?E = "insert (rb_min s) (excess s)"
  let ?s = "s\<lparr>bits := bv_set bv (bits s) (get_address s (rb_min s)) False, excess := ?E, rb_count := rb_count s\<rparr>"
  have base: "rb_base bv s" and min: "rb_min s \<in> in_bits bv s" "rb_min s < max_exclusive s" and ex: "\<And>e. e \<in> excess s \<Longrightarrow> e < rb_min s"
    using inv rb_inv_nonempty [OF inv ne] by (auto simp: rb_inv_def)
  have "card (in_bits bv s) > 0" using min(1) by (auto simp: card_gt_0_iff)
  moreover have "card ?E = card (excess s) + 1" using ex by (subst card_insert_disjoint) auto
  ultimately have n: "unat (rb_count s) = card (in_bits bv s) - 1 + card ?E" using base by (simp add: rb_base_def)
  note c = clear_bit [OF ok base min(1) refl n]
  have m: "move_min_to_excess bv s = purge bv ?s (rb_min ?s)" by (cases s) (simp add: move_min_to_excess_def)
  have out: "rb_min ?s \<notin> in_bits bv ?s" using c(1) by simp
  have lt: "rb_min ?s < max_exclusive ?s" using min(2) by simp
  have le: "e \<le> rb_min ?s" if "e \<in> excess ?s" for e using that ex [of e] by (auto intro: less_imp_le)
  show "rb_inv bv (move_min_to_excess bv s)" "in_bits bv (move_min_to_excess bv s) = in_bits bv s - {rb_min s}"
    "max_exclusive (move_min_to_excess bv s) = max_exclusive s" "max_width (move_min_to_excess bv s) = max_width s"
    unfolding m using purge_spec [OF c(2) out lt le] c(1) by simp_all
qed

text \<open>Making room: the same keys, and either the window is empty or the new maximum fits.\<close>

lemma make_room_spec:
  assumes "bitvec_ok bv" and "rb_inv bv s" and "in_bits bv s \<noteq> {}"
  shows "\<exists>b s'. make_room bv new_max s = Some (b, s') \<and> rb_inv bv s' \<and> rb_abs bv s' = rb_abs bv s \<and>
    max_exclusive s' = max_exclusive s \<and> max_width s' = max_width s \<and> (b \<longleftrightarrow> in_bits bv s' = {}) \<and>
    (\<not> b \<longrightarrow> unat new_max - unat (rb_min s') \<le> unat (max_width s'))"
  using assms
proof (induction bv new_max s rule: make_room.induct)
  case (1 bv new_max s)
  show ?case
  proof (cases "saturating_sub new_max (rb_min s) \<le> max_width s")
    case True
    then show ?thesis using 1 by (subst make_room.simps) (auto simp: word_le_nat_alt unat_saturating_sub intro!: exI [of _ False])
  next
    case False
    let ?s = "move_min_to_excess bv s"
    note m = move_min_spec [OF "1.prems"]
    have out: "rb_min s \<notin> excess s" using "1.prems"(2) by (auto simp: rb_inv_def)
    have abs: "rb_abs bv ?s = rb_abs bv s" using rb_inv_nonempty [OF "1.prems"(2,3)] by (auto simp: rb_abs_def m(2))
    have base: "rb_base bv ?s" using m(1) by (simp add: rb_inv_def)
    show ?thesis
    proof (cases "all_items_in_excess ?s")
      case True
      then have "make_room bv new_max s = Some (True, ?s)" using False out by (subst make_room.simps) (simp add: Let_def)
      then show ?thesis using m abs in_excess_iff [OF base] True by (intro exI [of _ True] exI [of _ ?s]) simp
    next
      case ne: False
      then have "make_room bv new_max s = make_room bv new_max ?s" using False out by (subst make_room.simps) (simp add: Let_def)
      moreover have "in_bits bv ?s \<noteq> {}" using ne in_excess_iff [OF base] by simp
      ultimately show ?thesis using "1.IH" [OF False out refl ne "1.prems"(1) m(1)] m(3,4) abs by simp
    qed
  qed
qed

section \<open>Inserting into the window\<close>

text \<open>A key that is not in the window but within its width of the minimum has a free address.\<close>

lemma address_free:
  assumes base: "rb_base bv s" and key: "rb_min s \<le> key" "unat key < unat (rb_min s) + unat (max_width s)" "key \<notin> in_bits bv s"
  shows "\<not> bv_get bv (bits s) (get_address s key)"
proof
  assume "bv_get bv (bits s) (get_address s key)"
  then obtain k where k: "k \<in> in_bits bv s" "get_address s k = get_address s key"
    using base address_less [OF base] by (auto simp: rb_base_def)
  then have "k = key" using window_address [OF base _ key(1) _ key(2)] in_bits_window [OF base k(1)] by blast
  with k(1) key(3) show False by simp
qed

lemma set_bit_spec:
  assumes ok: "bitvec_ok bv" and inv: "rb_inv bv s" and ne: "in_bits bv s \<noteq> {}"
    and key: "rb_min s \<le> key" "unat key < unat (rb_min s) + unat (max_width s)" "unat key + unat (max_width s) < 2 ^ 64"
  shows "\<exists>s'. set_bit_of bv False key s = Some s' \<and> rb_inv bv s' \<and> in_bits bv s' = insert key (in_bits bv s) \<and>
    excess s' = excess s \<and> max_width s' = max_width s"
proof (cases "key \<in> in_bits bv s")
  case True
  then show ?thesis using inv by (auto simp: set_bit_of_def in_bits_def contains_assume_in_range_def Let_def)
next
  case False
  have base: "rb_base bv s" using inv by (simp add: rb_inv_def)
  have free: "\<not> bv_get bv (bits s) (get_address s key)" by (rule address_free [OF base key(1,2) False])
  have u: "unat (key + 1) = unat key + 1" using key(3) base
    by (intro unat_add_no_wrap [of key 1, simplified unat_1]) (simp add: rb_base_def word_less_nat_alt)
  define m where "m = max (max_exclusive s) (key + 1)"
  have mu: "unat m = max (unat (max_exclusive s)) (unat key + 1)" by (simp add: m_def max_def word_le_nat_alt u)
  define s' where "s' = s\<lparr>bits := bv_set bv (bits s) (get_address s key) True, max_exclusive := m, rb_count := rb_count s + 1\<rparr>"
  have room: "unat m \<le> unat (rb_min s) + unat (max_width s)" using base key(2) by (simp add: mu rb_base_def)
  have add: "unat (rb_min s + max_width s) = unat (rb_min s) + unat (max_width s)"
    using key(1,3) by (intro unat_add_no_wrap) (simp add: word_le_nat_alt)
  have eq: "set_bit_of bv False key s = Some s'"
    using free key(1) room add by (simp add: set_bit_of_def Let_def s'_def m_def word_le_nat_alt min_absorb1)
  have same: "get_address s' k = get_address s k" for k by (simp add: s'_def get_address_def)
  have bit: "bv_get bv (bits s') (get_address s k) \<longleftrightarrow> get_address s k = get_address s key \<or> bv_get bv (bits s) (get_address s k)" for k
    using get_set_address [OF ok base, of key True k] by (auto simp: s'_def)
  have win: "unat k < unat (rb_min s) + unat (max_width s)" if "k < m" for k using that room by (simp add: word_less_nat_alt)
  have bits: "in_bits bv s' = insert key (in_bits bv s)"
  proof -
    have "k < max_exclusive s" if k: "rb_min s \<le> k" "k < m" "bv_get bv (bits s) (get_address s k)" for k
      using address_free [OF base k(1) win [OF k(2)]] k(3) by (auto simp: in_bits_def)
    moreover have "key < m" "max_exclusive s \<le> m" by (simp_all add: word_less_nat_alt word_le_nat_alt mu)
    moreover have "k = key" if "rb_min s \<le> k" "k < m" "get_address s k = get_address s key" for k
      using window_address [OF base that(1) key(1) win [OF that(2)] key(2)] that(3) by blast
    ultimately show ?thesis using key(1)
      by (auto simp: in_bits_def contains_assume_in_range_def same bit) (auto simp: s'_def intro: less_le_trans)
  qed
  have rep: "\<exists>k \<in> in_bits bv s'. get_address s' k = a" if a: "a < max_width s" "bv_get bv (bits s') a" for a
  proof -
    have "get_address s a = a" using a(1) by (intro word_unat_eqI) (simp add: get_address_def unat_mod_distrib word_less_nat_alt)
    with bit [of a] a have "a = get_address s key \<or> bv_get bv (bits s) a" by auto
    with base a(1) show ?thesis unfolding bits same by (auto simp: rb_base_def)
  qed
  have card: "card (in_bits bv s') + card (excess s) = card (in_bits bv s) + card (excess s) + 1" unfolding bits using False by simp
  have "excess s \<inter> in_bits bv s' = {}" using inv key(1) unfolding bits by (auto simp: rb_inv_def in_bits_def)
  then have "card (in_bits bv s') + card (excess s) = card (in_bits bv s' \<union> excess s)" by (simp add: card_Un_disjoint Int_commute)
  also have "\<dots> \<le> card {k. k < m}"
    using inv key(1) room base by (intro card_mono) (auto simp: rb_inv_def in_bits_def s'_def m_def less_max_iff_disj rb_base_def)
  finally have "card (in_bits bv s') + card (excess s) \<le> unat m" by (simp add: card_less_word)
  then have "unat (rb_count s + 1) = unat (rb_count s) + 1"
    using card base unat_less_pow [of m] by (intro unat_add_no_wrap [of _ 1, simplified unat_1]) (simp add: rb_base_def)
  then have "rb_base bv s'" using base ok rep card room key(1) mu
    by (simp add: rb_base_def s'_def bitvec_ok_def word_le_nat_alt)
  then have "rb_inv bv s'" using inv bits ne by (auto simp: rb_inv_def s'_def)
  then show ?thesis using eq bits by (auto simp: s'_def)
qed

lemma set_first_bit_spec:
  assumes ok: "bitvec_ok bv" and inv: "rb_inv bv s" and e: "in_bits bv s = {}"
    and key: "unat key + unat (max_width s) < 2 ^ 64" "\<forall>e \<in> excess s. e < key"
  shows "\<exists>s'. set_bit_of bv True key s = Some s' \<and> rb_inv bv s' \<and> in_bits bv s' = {key} \<and>
    excess s' = excess s \<and> max_width s' = max_width s"
proof -
  have base: "rb_base bv s" using inv by (simp add: rb_inv_def)
  then have none: "\<not> bv_get bv (bits s) a" if "a < max_width s" for a using that e by (auto simp: rb_base_def)
  have u: "unat (key + 1) = unat key + 1" using key(1) base
    by (intro unat_add_no_wrap [of key 1, simplified unat_1]) (simp add: rb_base_def word_less_nat_alt)
  define s' where "s' = s\<lparr>bits := bv_set bv (bits s) (get_address s key) True, rb_min := key, max_exclusive := key + 1,
    rb_count := rb_count s + 1\<rparr>"
  have eq: "set_bit_of bv True key s = Some s'" using none address_less [OF base] by (simp add: set_bit_of_def Let_def s'_def)
  have same: "get_address s' k = get_address s k" for k by (simp add: s'_def get_address_def)
  have one: "k = key" if "key \<le> k" "k < key + 1" for k using that by (intro word_unat_eqI) (simp add: word_le_nat_alt word_less_nat_alt u)
  have bits: "in_bits bv s' = {key}"
    using one get_set_address [OF ok base, of key True key] u
    by (auto simp: in_bits_def contains_assume_in_range_def same) (auto simp: s'_def word_less_nat_alt)
  have rep: "a = get_address s key" if a: "a < max_width s" "bv_get bv (bits s') a" for a
    using a none address_less [OF base, of key] ok base by (auto simp: s'_def bitvec_ok_def rb_base_def split: if_splits)
  have "card (excess s) \<le> card {k. k < key}" using key(2) by (intro card_mono) auto
  then have "unat (rb_count s + 1) = unat (rb_count s) + 1"
    using base e unat_less_pow [of "key + 1"] u by (intro unat_add_no_wrap [of _ 1, simplified unat_1]) (simp add: rb_base_def card_less_word)
  then have "rb_base bv s'" using base ok rep bits e u
    by (auto simp: rb_base_def bitvec_ok_def same) (auto simp: s'_def word_le_nat_alt word_less_nat_alt)
  then have "rb_inv bv s'" using key(2) bits by (auto simp: rb_inv_def s'_def)
  then show ?thesis using eq bits by (auto simp: s'_def)
qed

section \<open>The operations as operations on sets\<close>

lemma rb_new_spec:
  assumes "bitvec_ok bv" and "is_power_of_two w"
  shows "\<exists>s. rb_new bv w = Some s \<and> rb_inv bv s \<and> rb_abs bv s = {} \<and> max_width s = w"
proof -
  have "w \<noteq> 0" using assms(2) by (auto simp: is_power_of_two_def list_ex_iff)
  then show ?thesis using assms
    by (auto simp: rb_new_def rb_inv_def rb_base_def rb_abs_def in_bits_def bitvec_ok_def word_neq_0_conv)
qed

lemma rb_contains_spec: "rb_inv bv s \<Longrightarrow> rb_contains bv s key \<longleftrightarrow> key \<in> rb_abs bv s"
  unfolding rb_inv_def rb_base_def by (auto simp: rb_contains_def rb_abs_def in_bits_def)

lemma rb_len_spec:
  assumes "rb_inv bv s"
  shows "unat (rb_len s) = card (rb_abs bv s)"
  using assms excess_disjoint [OF assms] by (simp add: rb_len_def rb_abs_def card_Un_disjoint rb_inv_def rb_base_def)

lemma add_excess_spec:
  assumes inv: "rb_inv bv s" and ne: "in_bits bv s \<noteq> {}" and key: "key < rb_min s" "key \<notin> excess s"
  shows "rb_inv bv (s\<lparr>excess := insert key (excess s), rb_count := rb_count s + 1\<rparr>)"
    and "in_bits bv (s\<lparr>excess := insert key (excess s), rb_count := rb_count s + 1\<rparr>) = in_bits bv s"
proof -
  let ?s = "s\<lparr>excess := insert key (excess s), rb_count := rb_count s + 1\<rparr>"
  have base: "rb_base bv s" using inv by (simp add: rb_inv_def)
  have bits: "in_bits bv ?s = in_bits bv s" and addr: "get_address ?s k = get_address s k" for k
    by (simp_all add: in_bits_def contains_assume_in_range_def get_address_def)
  have "card (in_bits bv s) + card (insert key (excess s)) = card (in_bits bv s \<union> insert key (excess s))"
    using excess_disjoint [OF inv] key(1) by (subst card_Un_disjoint) (auto simp: in_bits_def)
  also have "\<dots> \<le> card {k. k < max_exclusive s}"
    using inv key(1) rb_inv_nonempty [OF inv ne] by (intro card_mono) (auto simp: rb_inv_def in_bits_def)
  finally have "unat (rb_count s) + 1 < 2 ^ 64" using base key(2) unat_less_pow [of "max_exclusive s"]
    by (simp add: card_less_word rb_base_def)
  then have "unat (rb_count s + 1) = unat (rb_count s) + 1" by (intro unat_add_no_wrap [of _ 1, simplified unat_1]) simp
  then have "rb_base bv ?s" using base key(2) unfolding rb_base_def bits addr by simp
  then show "rb_inv bv ?s" using inv key(1) unfolding rb_inv_def bits by simp
  show "in_bits bv ?s = in_bits bv s" by (rule bits)
qed

lemma rb_insert_spec:
  assumes ok: "bitvec_ok bv" and inv: "rb_inv bv s" and fresh: "rb_fresh bv s key"
  shows "\<exists>s'. rb_insert bv s key = Some s' \<and> rb_inv bv s' \<and> rb_abs bv s' = insert key (rb_abs bv s) \<and>
    max_width s' = max_width s \<and> in_bits bv s' \<noteq> {}"
proof -
  have base: "rb_base bv s" using inv by (simp add: rb_inv_def)
  have w: "unat key + unat (max_width s) < 2 ^ 64" using fresh by (simp add: rb_fresh_def)
  consider (empty) "in_bits bv s = {}" | (below) "in_bits bv s \<noteq> {}" "key < rb_min s"
    | (inside) "in_bits bv s \<noteq> {}" "rb_min s \<le> key" "key < max_exclusive s"
    | (above) "in_bits bv s \<noteq> {}" "rb_min s \<le> key" "max_exclusive s \<le> key" by force
  then show ?thesis
  proof cases
    case empty
    then have "rb_insert bv s key = set_bit_of bv True key s" using in_excess_iff [OF base] by (simp add: rb_insert_def)
    then show ?thesis using set_first_bit_spec [OF ok inv empty w] fresh empty by (auto simp: rb_fresh_def rb_abs_def)
  next
    case below
    then have "rb_insert bv s key = Some (if key \<in> excess s then s
        else s\<lparr>excess := insert key (excess s), rb_count := rb_count s + 1\<rparr>)"
      using in_excess_iff [OF base] count_zero [OF base] by (simp add: rb_insert_def)
    then show ?thesis using add_excess_spec [OF inv below(1,2)] inv below by (auto simp: rb_abs_def insert_absorb)
  next
    case inside
    then have "rb_insert bv s key = set_bit_of bv False key s"
      using in_excess_iff [OF base] count_zero [OF base] by (auto simp: rb_insert_def not_less [symmetric])
    moreover have "unat key < unat (rb_min s) + unat (max_width s)" using inside(3) base by (simp add: rb_base_def word_less_nat_alt)
    ultimately show ?thesis using set_bit_spec [OF ok inv inside(1,2) _ w] by (auto simp: rb_abs_def)
  next
    case above
    obtain b s' where r: "make_room bv (key + 1) s = Some (b, s')" "rb_inv bv s'" "rb_abs bv s' = rb_abs bv s"
      "max_exclusive s' = max_exclusive s" "max_width s' = max_width s" "b \<longleftrightarrow> in_bits bv s' = {}"
      "\<not> b \<longrightarrow> unat (key + 1) - unat (rb_min s') \<le> unat (max_width s')"
      using make_room_spec [OF ok inv above(1)] by blast
    have eq: "rb_insert bv s key = set_bit_of bv b key s'"
      using above in_excess_iff [OF base] count_zero [OF base] r(1) by (auto simp: rb_insert_def not_less [symmetric])
    have le: "k < max_exclusive s" if "k \<in> rb_abs bv s'" for k
      using that r(2,4) by (auto simp: rb_abs_def rb_inv_def rb_base_def in_bits_def intro: less_le_trans)
    show ?thesis
    proof (cases b)
      case True
      have "\<forall>e \<in> excess s'. e < key" using le above(3) by (auto simp: rb_abs_def intro: less_le_trans)
      moreover have e: "in_bits bv s' = {}" "unat key + unat (max_width s') < 2 ^ 64" using True r(5,6) w by simp_all
      ultimately obtain t where "set_bit_of bv True key s' = Some t" "rb_inv bv t" "in_bits bv t = {key}" "excess t = excess s'"
        "max_width t = max_width s'" using set_first_bit_spec [OF ok r(2)] by blast
      then show ?thesis using True r(3,5) e(1) unfolding eq by (simp add: rb_abs_def)
    next
      case False
      have ne: "in_bits bv s' \<noteq> {}" using False r(6) by simp
      have min: "rb_min s' \<le> key" using rb_inv_nonempty [OF r(2) ne] above(3) r(4) by (auto intro: less_imp_le less_le_trans)
      have "unat (key + 1) = unat key + 1" using w base
        by (intro unat_add_no_wrap [of key 1, simplified unat_1]) (simp add: rb_base_def word_less_nat_alt)
      then have "unat key < unat (rb_min s') + unat (max_width s')" using False r(7) by simp
      then show ?thesis using set_bit_spec [OF ok r(2) ne min] False r(3,5) w unfolding eq by (auto simp: rb_abs_def)
    qed
  qed
qed

lemma rb_remove_spec:
  assumes ok: "bitvec_ok bv" and inv: "rb_inv bv s" and r: "rb_remove bv s key = (b, s')"
  shows "rb_inv bv s' \<and> rb_abs bv s' = rb_abs bv s - {key} \<and> (b \<longleftrightarrow> key \<in> rb_abs bv s) \<and> max_width s' = max_width s"
proof -
  have base: "rb_base bv s" using inv by (simp add: rb_inv_def)
  have dis: "in_bits bv s \<inter> excess s = {}" by (rule excess_disjoint [OF inv])
  consider (bit) "key \<in> in_bits bv s" | (ex) "key \<in> excess s" | (out) "key \<notin> rb_abs bv s" by (auto simp: rb_abs_def)
  then show ?thesis
  proof cases
    case bit
    let ?s = "s\<lparr>bits := bv_set bv (bits s) (get_address s key) False, excess := excess s, rb_count := rb_count s - 1\<rparr>"
    have pos: "card (in_bits bv s) > 0" using bit by (auto simp: card_gt_0_iff)
    then have "1 \<le> rb_count s" using base by (simp add: rb_base_def word_le_nat_alt)
    then have n: "unat (rb_count s - 1) = card (in_bits bv s) - 1 + card (excess s)" using base pos by (simp add: unat_sub rb_base_def)
    note c = clear_bit [OF ok base bit refl n]
    have eq: "b" "s' = purge bv ?s key" using r bit
      by (cases s; auto simp: rb_remove_def in_bits_def contains_assume_in_range_def get_address_def Let_def)+
    show ?thesis
    proof (cases "key = rb_min s")
      case True
      have lt: "rb_min ?s < max_exclusive ?s" and le: "\<And>e. e \<in> excess ?s \<Longrightarrow> e \<le> rb_min ?s" and out: "rb_min ?s \<notin> in_bits bv ?s"
        using bit inv True c(1) by (auto simp: in_bits_def rb_inv_def intro: less_imp_le)
      from purge_spec [OF c(2) out lt le] show ?thesis using eq True bit c(1) dis by (auto simp: rb_abs_def)
    next
      case False
      have min: "rb_min s \<in> in_bits bv s - {key}" using rb_inv_nonempty [OF inv] bit False by blast
      then have "in_bits bv ?s \<noteq> {}" using c(1) by blast
      moreover have "rb_count ?s \<noteq> 0" using count_zero [OF c(2)] \<open>in_bits bv ?s \<noteq> {}\<close> by blast
      then have "0 < rb_count ?s" by (simp only: word_neq_0_conv)
      ultimately have p: "purge bv ?s key = ?s" using False in_excess_iff [OF c(2)] by (simp add: purge_def)
      have "rb_inv bv ?s" using c inv min by (auto simp: rb_inv_def)
      then show ?thesis unfolding eq(2) p using eq(1) bit c(1) dis by (auto simp: rb_abs_def)
    qed
  next
    case ex
    let ?s = "s\<lparr>excess := excess s - {key}, rb_count := rb_count s - 1\<rparr>"
    have pos: "card (excess s) > 0" using ex by (auto simp: card_gt_0_iff)
    then have "1 \<le> rb_count s" using base by (simp add: rb_base_def word_le_nat_alt)
    then have n: "unat (rb_count s - 1) = card (in_bits bv s) + card (excess s - {key})"
      using base pos ex by (simp add: unat_sub rb_base_def)
    have lt: "key < rb_min s" using ex inv by (simp add: rb_inv_def)
    have eq: "b" "s' = ?s" using r ex lt by (simp_all add: rb_remove_def not_le [symmetric])
    have bits: "in_bits bv ?s = in_bits bv s" and addr: "get_address ?s k = get_address s k" for k
      by (simp_all add: in_bits_def contains_assume_in_range_def get_address_def)
    have "rb_inv bv ?s" using inv n unfolding rb_inv_def rb_base_def bits addr by simp
    then show ?thesis using eq ex dis bits by (auto simp: rb_abs_def)
  next
    case out
    then have "rb_remove bv s key = (False, s)"
      by (auto simp: rb_remove_def rb_abs_def in_bits_def contains_assume_in_range_def Let_def)
    then show ?thesis using r out inv by simp
  qed
qed

section \<open>Minimum and enumeration\<close>

lemma rb_min_key_spec:
  assumes inv: "rb_inv bv s"
  shows "rb_min_key s = (if rb_abs bv s = {} then None else Some (Min (rb_abs bv s)))"
proof -
  have base: "rb_base bv s" using inv by (simp add: rb_inv_def)
  have ex: "\<And>e. e \<in> excess s \<Longrightarrow> e < rb_min s" using inv by (simp add: rb_inv_def)
  have e: "rb_is_empty s \<longleftrightarrow> rb_abs bv s = {}" using count_zero [OF base] by (auto simp: rb_is_empty_def rb_len_def rb_abs_def)
  consider (none) "rb_abs bv s = {}" | (bits) "in_bits bv s \<noteq> {}" "excess s = {}" | (excess) "in_bits bv s = {}" "excess s \<noteq> {}"
    | (both) "in_bits bv s \<noteq> {}" "excess s \<noteq> {}" by (auto simp: rb_abs_def)
  then show ?thesis
  proof cases
    case none
    then show ?thesis using e by (simp add: rb_min_key_def)
  next
    case bits
    have "Min (in_bits bv s) = rb_min s" using rb_inv_nonempty [OF inv bits(1)] by (intro Min_eqI) (auto simp: in_bits_def)
    then show ?thesis using bits e by (simp add: rb_min_key_def rb_abs_def)
  next
    case excess
    then show ?thesis using e in_excess_iff [OF base] by (simp add: rb_min_key_def rb_abs_def)
  next
    case both
    have lt: "Min (excess s) < rb_min s" using both(2) ex by simp
    then have "Min (excess s) \<le> y" if "y \<in> in_bits bv s" for y using that by (auto simp: in_bits_def)
    then have "Min (in_bits bv s \<union> excess s) = Min (excess s)" using both(2) by (intro Min_eqI) auto
    with lt have "min (rb_min s) (Min (excess s)) = Min (in_bits bv s \<union> excess s)" by simp
    then show ?thesis using both e in_excess_iff [OF base] by (simp add: rb_min_key_def rb_abs_def)
  qed
qed

lemma set_takeWhile_sorted: "sorted xs \<Longrightarrow> set (takeWhile (\<lambda>k. \<not> m \<le> k) xs) = {k \<in> set xs. k < (m :: 'a::linorder)}"
  by (induction xs) auto

lemma get_all_spec:
  assumes "iteration_order order" and inv: "rb_inv bv s"
  shows "set (get_all bv order s) = rb_abs bv s" and "distinct (get_all bv order s)"
  using assms(1) excess_disjoint [OF inv] sorted_word_range(2)
  by (auto simp: get_all_def iteration_order_def rb_abs_def in_bits_def)

lemma get_all_less_than_spec:
  assumes "iteration_order order" and inv: "rb_inv bv s"
  shows "set (get_all_less_than bv order s m) = {k \<in> rb_abs bv s. k < m}" and "distinct (get_all_less_than bv order s m)"
  using assms(1) excess_disjoint [OF inv] sorted_word_range
  by (auto simp: get_all_less_than_def iteration_order_def rb_abs_def in_bits_def set_takeWhile_sorted)

text \<open>The iterator yields, one after the other, the keys that \<open>get_all\<close> collects.\<close>

definition remaining :: "'b bitvec \<Rightarrow> 'b rolling_bit_field \<Rightarrow> ones_iter \<Rightarrow> u64 list" where
  "remaining bv s it = excess_iter it @ filter (contains_assume_in_range bv s) (bit_range it)"

lemma ones_iter_new_remaining: "remaining bv s (ones_iter_new order s) = get_all bv order s"
  by (simp add: remaining_def ones_iter_new_def get_all_def)

lemma ones_iter_next_remaining:
  "ones_iter_next bv s it = (r, it') \<Longrightarrow>
   (case remaining bv s it of [] \<Rightarrow> r = None \<and> remaining bv s it' = [] | k # rest \<Rightarrow> r = Some k \<and> remaining bv s it' = rest)"
proof (cases "excess_iter it")
  case Nil
  assume next_eq: "ones_iter_next bv s it = (r, it')"
  have "filter P xs = (case dropWhile (\<lambda>k. \<not> P k) xs of [] \<Rightarrow> [] | k # rest \<Rightarrow> k # filter P rest)" for P and xs :: "u64 list"
    by (induction xs) auto
  from this [of "contains_assume_in_range bv s" "bit_range it"] next_eq Nil show ?thesis
    by (cases "dropWhile (\<lambda>k. \<not> contains_assume_in_range bv s k) (bit_range it)") (auto simp: ones_iter_next_def remaining_def)
qed (auto simp: ones_iter_next_def remaining_def)

section \<open>The search for the prior key\<close>

definition prior_keys :: "u64 set \<Rightarrow> u64 \<Rightarrow> u64 set" where
  "prior_keys S slot = {k \<in> S. k \<le> slot \<and> (k = slot \<or> k \<noteq> 0)}"

lemma prior_keys_step:
  assumes "slot \<notin> S" and "t = saturating_sub slot 1" and "t \<noteq> 0"
  shows "prior_keys S slot = prior_keys S t"
proof -
  have "unat t = unat slot - 1" using assms(2) by (simp add: unat_saturating_sub)
  moreover have "unat t \<noteq> 0" using assms(3) by (simp add: unat_eq_0)
  ultimately have "k \<le> slot \<longleftrightarrow> k \<le> t \<or> k = slot" for k
    using word_unat_eqI [of k slot] by (cases "unat k = unat slot") (auto simp: word_le_nat_alt)
  moreover have "t \<noteq> 0" by fact
  ultimately show ?thesis using assms(1) by (auto simp: prior_keys_def)
qed

lemma prior_loop_spec:
  assumes "\<And>k. k \<in> S \<Longrightarrow> least \<le> k"
  shows "prior_loop (\<lambda>k. k \<in> S) least slot = (if prior_keys S slot = {} then None else Some (Max (prior_keys S slot)))"
proof (induction "unat slot" arbitrary: slot rule: less_induct)
  case less
  let ?t = "saturating_sub slot 1"
  show ?case
  proof (cases "slot \<in> S")
    case True
    then have "Max (prior_keys S slot) = slot" "slot \<in> prior_keys S slot" by (auto simp: prior_keys_def intro!: Max_eqI)
    then show ?thesis using True by (subst prior_loop.simps) auto
  next
    case out: False
    show ?thesis
    proof (cases "?t = 0 \<or> ?t < least")
      case True
      have False if k: "k \<in> S" "k \<le> slot" "k \<noteq> 0" for k
      proof -
        have "unat k \<noteq> unat slot" using k(1) out word_unat_eqI by blast
        then have "unat k \<le> unat ?t" "unat k \<noteq> 0" using k(2,3) by (simp_all add: unat_saturating_sub word_le_nat_alt unat_eq_0)
        moreover have "unat least \<le> unat k" using assms [OF k(1)] by (simp add: word_le_nat_alt)
        ultimately show False using True by (auto simp: word_less_nat_alt)
      qed
      then have "prior_keys S slot = {}" using out by (auto simp: prior_keys_def)
      then show ?thesis using True out by (subst prior_loop.simps) (auto simp: Let_def)
    next
      case False
      then have "unat ?t < unat slot" by (auto simp: unat_saturating_sub simp flip: unat_eq_zero_iff)
      from less [OF this] show ?thesis using False out prior_keys_step [OF out refl] by (subst prior_loop.simps) (auto simp: Let_def)
    qed
  qed
qed

lemma get_prior_value:
  assumes inv: "rb_inv bv s"
  shows "get_prior bv s m = (let C = prior_keys (rb_abs bv s) (saturating_sub m 1) in if C = {} then None else Some (Max C))"
proof (cases "rb_abs bv s = {}")
  case True
  then show ?thesis using rb_min_key_spec [OF inv] by (simp add: get_prior_def prior_keys_def)
next
  case False
  have "rb_contains bv s = (\<lambda>k. k \<in> rb_abs bv s)" using rb_contains_spec [OF inv] by blast
  moreover have "Min (rb_abs bv s) \<le> k" if "k \<in> rb_abs bv s" for k using that by simp
  ultimately show ?thesis using False rb_min_key_spec [OF inv] prior_loop_spec [of "rb_abs bv s"]
    by (simp add: get_prior_def Let_def)
qed

section \<open>Reachable states\<close>

text \<open>The bit field next to the set it stands for, from a new bit field by insertions and removals.\<close>

inductive rb_step :: "'b bitvec \<Rightarrow> 'b rolling_bit_field \<times> u64 set \<Rightarrow> 'b rolling_bit_field \<times> u64 set \<Rightarrow> bool" for bv where
  insert: "rb_fresh bv s key \<Longrightarrow> rb_insert bv s key = Some s' \<Longrightarrow> rb_step bv (s, S) (s', Set.insert key S)"
| remove: "rb_remove bv s key = (b, s') \<Longrightarrow> rb_step bv (s, S) (s', S - {key})"

inductive_cases rb_stepE: "rb_step bv (s, S) (s', S')"

definition rb_init :: "'b bitvec \<Rightarrow> 'b rolling_bit_field \<times> u64 set \<Rightarrow> bool" where
  "rb_init bv c \<longleftrightarrow> bitvec_ok bv \<and> (\<exists>w. rb_new bv w = Some (fst c)) \<and> snd c = {}"

definition rb_stands_for :: "'b bitvec \<Rightarrow> 'b rolling_bit_field \<times> u64 set \<Rightarrow> bool" where
  "rb_stands_for bv c \<longleftrightarrow> bitvec_ok bv \<and> rb_inv bv (fst c) \<and> rb_abs bv (fst c) = snd c"

lemma rb_init_stands_for: "rb_init bv c \<Longrightarrow> rb_stands_for bv c"
proof -
  assume i: "rb_init bv c"
  then obtain w where w: "rb_new bv w = Some (fst c)" "bitvec_ok bv" "snd c = {}" by (auto simp: rb_init_def)
  then have "is_power_of_two w" by (auto simp: rb_new_def split: if_splits)
  with rb_new_spec [OF w(2) this] w show ?thesis by (auto simp: rb_stands_for_def)
qed

lemma rb_step_stands_for: "rb_step bv c c' \<Longrightarrow> rb_stands_for bv c \<Longrightarrow> rb_stands_for bv c'"
proof (induction rule: rb_step.induct)
  case (insert s key s' S)
  then show ?case using rb_insert_spec [of bv s key] by (auto simp: rb_stands_for_def)
next
  case (remove s key b s' S)
  then show ?case using rb_remove_spec [of bv s key b s'] by (auto simp: rb_stands_for_def)
qed

interpretation rolling: invariant_system "rb_init bv" "rb_step bv" "rb_stands_for bv" for bv :: "'b bitvec"
  by unfold_locales (auto intro: rb_init_stands_for rb_step_stands_for)

definition rb_reachable :: "'b bitvec \<Rightarrow> 'b rolling_bit_field \<times> u64 set \<Rightarrow> bool" where
  "rb_reachable bv c \<longleftrightarrow> (\<exists>c0. rb_init bv c0 \<and> (rb_step bv)\<^sup>*\<^sup>* c0 c)"

lemma rb_reachable_stands_for: "rb_reachable bv c \<Longrightarrow> rb_stands_for bv c"
  unfolding rb_reachable_def by (blast intro: rolling.reachable_inv)

section \<open>Properties\<close>

text \<open>C28. The rolling bit field is a set of keys: after any sequence of insertions and removals, membership, size,
  minimum, equality and enumeration are those of the set of the keys inserted and not removed since, and the next insertion
  never panics. This holds as long as keys stay below the maximum of \<open>u64\<close> by the width of the
  window, and a key inserted while the window is empty is above all keys in excess.\<close>

theorem rolling_bit_field_is_set:
  assumes "rb_reachable bv (s, S)" and "iteration_order order"
  shows "(\<forall>key. rb_contains bv s key \<longleftrightarrow> key \<in> S) \<and> unat (rb_len s) = card S \<and>
    rb_min_key s = (if S = {} then None else Some (Min S)) \<and>
    set (get_all bv order s) = S \<and> distinct (get_all bv order s) \<and>
    (\<forall>m. set (get_all_less_than bv order s m) = {key \<in> S. key < m}) \<and>
    (\<forall>t T. rb_reachable bv (t, T) \<longrightarrow> (rb_eq bv order s t \<longleftrightarrow> S = T)) \<and>
    (\<forall>key. rb_fresh bv s key \<longrightarrow> (\<exists>s'. rb_insert bv s key = Some s'))"
proof -
  have st: "bitvec_ok bv" "rb_inv bv s" "rb_abs bv s = S" using rb_reachable_stands_for [OF assms(1)] by (simp_all add: rb_stands_for_def)
  have eq: "rb_eq bv order s t \<longleftrightarrow> S = T" if "rb_reachable bv (t, T)" for t T
  proof -
    have t: "rb_inv bv t" "rb_abs bv t = T" using rb_reachable_stands_for [OF that] by (simp_all add: rb_stands_for_def)
    have "rb_len s = rb_len t \<longleftrightarrow> card S = card T" using rb_len_spec [OF st(2)] rb_len_spec [OF t(1)] st(3) t(2) word_unat_eqI by metis
    moreover have "S \<subseteq> T \<Longrightarrow> card S = card T \<Longrightarrow> S = T" by (simp add: card_subset_eq)
    ultimately show ?thesis
      using get_all_spec [OF assms(2) st(2)] rb_contains_spec [OF t(1)] st(3) t(2) by (auto simp: rb_eq_def list_all_iff)
  qed
  have ins: "\<exists>s'. rb_insert bv s key = Some s'" if "rb_fresh bv s key" for key using rb_insert_spec [OF st(1,2) that] by blast
  show ?thesis
    using eq ins rb_contains_spec [OF st(2)] rb_len_spec [OF st(2)] rb_min_key_spec [OF st(2)] get_all_spec [OF assms(2) st(2)]
      get_all_less_than_spec(1) [OF assms(2) st(2)] by (simp add: st(3))
qed

section \<open>Witnesses\<close>

text \<open>A bit vector as a list.\<close>

definition list_bitvec :: "bool list bitvec" where
  "list_bitvec = \<lparr>bv_new_fill = (\<lambda>b n. replicate (unat n) b), bv_get = (\<lambda>v i. v ! unat i),
     bv_set = (\<lambda>v i b. v[unat i := b]), bv_len = (\<lambda>v. of_nat (length v))\<rparr>"

lemma list_bitvec_ok: "bitvec_ok list_bitvec"
proof -
  have len: "unat i < length v" if "i < (of_nat (length v) :: u64)" for i :: u64 and v :: "bool list"
    using that mod_less_eq_dividend [of "length v" "2 ^ 64"] by (simp add: word_less_nat_alt unat_of_nat)
  have idx: "unat i \<noteq> unat j" if "i \<noteq> j" for i j :: u64 using that word_unat_eqI by blast
  show ?thesis unfolding bitvec_ok_def list_bitvec_def bitvec.simps
  proof (intro conjI allI impI)
    fix v :: "bool list" and i j b assume "i < (of_nat (length v) :: u64)" "j < (of_nat (length v) :: u64)"
    then show "v[unat i := b] ! unat j = (if i = j then b else v ! unat j)" using len idx by (cases "i = j") simp_all
  qed (simp_all add: unat_mono)
qed

lemma sorted_order: "iteration_order sorted_list_of_set"
  by (simp add: iteration_order_def)

lemmas run_simps = rb_new_def rb_insert_def rb_remove_def set_bit_of_def get_address_def move_min_to_excess_def purge_def
  all_items_in_excess_def contains_assume_in_range_def rb_contains_def saturating_sub_def word_range_def list_bitvec_def Let_def

definition sample_field :: "bool list rolling_bit_field" where
  "sample_field = \<lparr>max_width = 4, rb_min = 200, max_exclusive = 201, bits = [True, False, False, False], rb_count = 2, excess = {100}\<rparr>"

lemma is_power_4: "is_power_of_two 4"
  by (simp add: is_power_of_two_def list_ex_iff) (rule bexI [of _ 2]; simp)

lemma replicate_4: "replicate 4 x = [x, x, x, x]"
  by (simp add: numeral_eq_Suc)

definition sample_empty :: "bool list rolling_bit_field" where
  "sample_empty = \<lparr>max_width = 4, rb_min = 0, max_exclusive = 0, bits = [False, False, False, False], rb_count = 0, excess = {}\<rparr>"

definition sample_one :: "bool list rolling_bit_field" where
  "sample_one = \<lparr>max_width = 4, rb_min = 100, max_exclusive = 101, bits = [True, False, False, False], rb_count = 1, excess = {}\<rparr>"

lemma sample_new: "rb_new list_bitvec 4 = Some sample_empty"
  by (simp add: run_simps is_power_4 replicate_4 sample_empty_def)

lemma sample_insert_100: "rb_insert list_bitvec sample_empty 100 = Some sample_one"
  by (simp add: run_simps sample_empty_def sample_one_def)

lemma sample_make_room: "make_room list_bitvec 201 sample_one =
    Some (True, sample_one\<lparr>rb_min := 101, bits := [False, False, False, False], excess := {100}\<rparr>)"
  by (subst make_room.simps) (simp add: run_simps sample_one_def)

lemma sample_insert_200: "rb_insert list_bitvec sample_one 200 = Some sample_field"
  using sample_make_room by (simp add: rb_insert_def sample_one_def) (simp add: run_simps sample_field_def)

lemma rb_sample_reachable: "rb_reachable list_bitvec (sample_field, {100, 200})"
proof -
  have "rb_init list_bitvec (sample_empty, {})" using sample_new list_bitvec_ok by (auto simp: rb_init_def)
  moreover have "rb_step list_bitvec (sample_empty, {}) (sample_one, {100})"
    using rb_step.insert [OF _ sample_insert_100] by (simp add: rb_fresh_def sample_empty_def)
  moreover have "rb_step list_bitvec (sample_one, {100}) (sample_field, {100, 200})"
    using rb_step.insert [OF _ sample_insert_200, of "{100}"] by (simp add: rb_fresh_def sample_one_def insert_commute)
  ultimately show ?thesis unfolding rb_reachable_def by (meson rtranclp.rtrancl_into_rtrancl rtranclp.rtrancl_refl)
qed

theorem rolling_bit_field_is_set_witness:
  "rb_contains list_bitvec sample_field 100 \<and> \<not> rb_contains list_bitvec sample_field 150 \<and>
   set (get_all list_bitvec sorted_list_of_set sample_field) = {100, 200}"
  using rolling_bit_field_is_set [OF rb_sample_reachable sorted_order] by simp

text \<open>Without the side condition on keys inserted into an empty window the bit field is no set: after
  100 and 200 are inserted, 200 is removed and 50 is inserted, the key 100 is counted and
  enumerated but not found.\<close>

lemma excess_key_hidden:
  "\<exists>s. rb_insert list_bitvec (snd (rb_remove list_bitvec sample_field 200)) 50 = Some s \<and> rb_len s = 2 \<and> 100 \<in> excess s \<and>
     \<not> rb_contains list_bitvec s 100"
  by (simp add: run_simps rb_len_def sample_field_def)

text \<open>The downward search of \<open>get_prior\<close> stops before it looks at key 0, and looks at key 0 when
  asked for a key below 0.\<close>

lemma get_prior_misses_zero:
  assumes "rb_inv bv s" and "rb_abs bv s = {0}"
  shows "get_prior bv s 2 = None" and "get_prior bv s 0 = Some 0"
  using get_prior_value [OF assms(1)] assms(2) by (auto simp: prior_keys_def saturating_sub_def Let_def)

end
