(* ===== verification/Ancestors.thy ===== *)
theory Ancestors
  imports Rolling_Correct
begin

text \<open>
  The ancestors of a slot (\<^verbatim>\<open>accounts-db/src/ancestors.rs\<close>), a client of the rolling bit field: it relies on the
  contract \<open>growing_set\<close> only, which the bit field fulfils.
\<close>

section \<open>Operations\<close>

definition ANCESTORS_HASH_MAP_SIZE :: u64 where
  "ANCESTORS_HASH_MAP_SIZE = 8192"

type_synonym 'b ancestors = "'b rolling_bit_field"

definition ancestors_default :: "'b bitvec \<Rightarrow> 'b ancestors option" where
  "ancestors_default bv = rb_new bv ANCESTORS_HASH_MAP_SIZE"

primrec insert_each :: "('s \<Rightarrow> 'a \<Rightarrow> 's option) \<Rightarrow> 'a list \<Rightarrow> 's \<Rightarrow> 's option" where
  "insert_each ins [] s = Some s"
| "insert_each ins (x # xs) s = Option.bind (ins s x) (insert_each ins xs)"

definition ancestors_from :: "'b bitvec \<Rightarrow> u64 list \<Rightarrow> 'b ancestors option" where
  "ancestors_from bv source =
     Option.bind (ancestors_default bv) (insert_each (rb_insert bv) (sort source))"

text \<open>The maps of the serialized form; \<open>order\<close> is the order in which a map is iterated over.\<close>

definition ancestors_from_map :: "'b bitvec \<Rightarrow> (u64 set \<Rightarrow> u64 list) \<Rightarrow> (u64 \<rightharpoonup> usize) \<Rightarrow> 'b ancestors option" where
  "ancestors_from_map bv order source = ancestors_from bv (order (dom source))"

definition ancestors_keys :: "'b bitvec \<Rightarrow> (u64 set \<Rightarrow> u64 list) \<Rightarrow> 'b ancestors \<Rightarrow> u64 list" where
  "ancestors_keys bv order self = get_all bv order self"

definition ancestors_to_map :: "'b bitvec \<Rightarrow> (u64 set \<Rightarrow> u64 list) \<Rightarrow> 'b ancestors \<Rightarrow> (u64 \<rightharpoonup> usize)" where
  "ancestors_to_map bv order source = fold (\<lambda>slot m. m(slot \<mapsto> 0)) (ancestors_keys bv order source) Map.empty"

definition ancestors_remove :: "'b bitvec \<Rightarrow> 'b ancestors \<Rightarrow> u64 \<Rightarrow> 'b ancestors" where
  "ancestors_remove bv self slot = snd (rb_remove bv self slot)"

definition contains_key :: "'b bitvec \<Rightarrow> 'b ancestors \<Rightarrow> u64 \<Rightarrow> bool" where
  "contains_key bv self slot = rb_contains bv self slot"

definition ancestors_len :: "'b ancestors \<Rightarrow> usize" where
  "ancestors_len self = rb_len self"

definition ancestors_is_empty :: "'b ancestors \<Rightarrow> bool" where
  "ancestors_is_empty self \<longleftrightarrow> ancestors_len self = 0"

definition min_slot :: "'b ancestors \<Rightarrow> u64" where
  "min_slot self = (case rb_min_key self of Some slot \<Rightarrow> slot | None \<Rightarrow> 0)"

definition max_slot :: "'b ancestors \<Rightarrow> u64" where
  "max_slot self = saturating_sub (max_exclusive self) 1"

section \<open>The contract\<close>

text \<open>A set into which every small key may be inserted once it has a key in its window: \<open>fits\<close> is what an
  insertion needs, \<open>small\<close> a bound on the keys that does not depend on the contents.\<close>

locale growing_set =
  fixes ins :: "'s \<Rightarrow> 'a \<Rightarrow> 's option"
    and del :: "'s \<Rightarrow> 'a \<Rightarrow> bool \<times> 's"
    and isin :: "'s \<Rightarrow> 'a \<Rightarrow> bool"
    and elems :: "'s \<Rightarrow> 'a set"
    and ok :: "'s \<Rightarrow> bool"
    and fits :: "'s \<Rightarrow> 'a \<Rightarrow> bool"
    and small :: "'s \<Rightarrow> 'a \<Rightarrow> bool"
  assumes ins: "ok s \<Longrightarrow> fits s x \<Longrightarrow> \<exists>s'. ins s x = Some s' \<and> ok s' \<and> elems s' = insert x (elems s) \<and>
      (\<forall>y. small s' y \<longleftrightarrow> small s y) \<and> (\<forall>y. small s' y \<longrightarrow> fits s' y)"
    and del: "ok s \<Longrightarrow> del s x = (b, s') \<Longrightarrow> ok s' \<and> elems s' = elems s - {x} \<and> (b \<longleftrightarrow> x \<in> elems s)"
    and isin: "ok s \<Longrightarrow> isin s x \<longleftrightarrow> x \<in> elems s"
    and fits_empty: "ok s \<Longrightarrow> elems s = {} \<Longrightarrow> small s x \<Longrightarrow> fits s x"
begin

lemma insert_each_ok:
  assumes "ok s" and "\<forall>x \<in> set xs. small s x" and "\<forall>x. small s x \<longrightarrow> fits s x"
  shows "\<exists>s'. insert_each ins xs s = Some s' \<and> ok s' \<and> elems s' = set xs \<union> elems s"
  using assms
proof (induction xs arbitrary: s)
  case (Cons x xs)
  then obtain s1 where s1: "ins s x = Some s1" "ok s1" "elems s1 = insert x (elems s)" "\<forall>y. small s1 y \<longleftrightarrow> small s y"
    "\<forall>y. small s1 y \<longrightarrow> fits s1 y" using ins [of s x] by auto
  from Cons.IH [OF s1(2) _ s1(5)] Cons.prems(2) s1 show ?case by auto
qed simp

lemma collect_ok:
  assumes "ok s" and "elems s = {}" and "\<forall>x \<in> set xs. small s x"
  shows "\<exists>s'. insert_each ins xs s = Some s' \<and> ok s' \<and> elems s' = set xs"
  using insert_each_ok [OF assms(1,3)] fits_empty [OF assms(1,2)] assms(2) by auto

end

definition rb_ok :: "'b bitvec \<Rightarrow> 'b rolling_bit_field \<Rightarrow> bool" where
  "rb_ok bv s \<longleftrightarrow> bitvec_ok bv \<and> rb_inv bv s"

definition rb_small :: "'b rolling_bit_field \<Rightarrow> u64 \<Rightarrow> bool" where
  "rb_small s key \<longleftrightarrow> unat key + unat (max_width s) < 2 ^ 64"

interpretation window: growing_set "rb_insert bv" "rb_remove bv" "rb_contains bv" "rb_abs bv" "rb_ok bv" "rb_fresh bv" rb_small
  for bv :: "'b bitvec"
proof (unfold_locales, goal_cases)
  case (1 s x)
  then show ?case using rb_insert_spec [of bv s x] by (fastforce simp: rb_ok_def rb_small_def rb_fresh_def)
next
  case (2 s x b s')
  then show ?case using rb_remove_spec [of bv s x b s'] by (auto simp: rb_ok_def)
next
  case (3 s x)
  then show ?case using rb_contains_spec [of bv s x] by (simp add: rb_ok_def)
next
  case (4 s x)
  then show ?case by (auto simp: rb_fresh_def rb_small_def rb_abs_def)
qed

section \<open>Properties\<close>

lemma is_power_8192: "is_power_of_two 8192"
  by (simp add: is_power_of_two_def list_ex_iff) (rule bexI [of _ 13]; simp)

lemma fold_upd_map: "fold (\<lambda>k m. m(k \<mapsto> v)) ks m = (\<lambda>k. if k \<in> set ks then Some v else m k)"
  by (induction ks arbitrary: m) (auto simp: fun_eq_iff)

lemma remove_exact:
  assumes "rb_ok bv a"
  shows "contains_key bv (ancestors_remove bv a x) slot \<longleftrightarrow> slot \<in> rb_abs bv a \<and> slot \<noteq> x"
proof -
  obtain b s' where r: "rb_remove bv a x = (b, s')" by fastforce
  from window.del [OF assms r] have "rb_ok bv s'" "rb_abs bv s' = rb_abs bv a - {x}" by simp_all
  then show ?thesis using window.isin [of bv s' slot] r by (simp add: contains_key_def ancestors_remove_def)
qed

text \<open>C38. Ancestors built from a list of slots hold exactly these slots, whatever their order, repetitions and spread: building
  never panics, membership and size are those of the set of the slots, removing a slot removes just it, and converting to the
  serialized map and back gives the same slots.\<close>

theorem ancestors_from_exact:
  assumes "bitvec_ok bv" and "iteration_order order" and "list_all (\<lambda>slot. unat slot < 2 ^ 64 - 8192) source"
  shows "\<exists>a. ancestors_from bv source = Some a \<and> (\<forall>slot. contains_key bv a slot \<longleftrightarrow> slot \<in> set source) \<and>
    unat (ancestors_len a) = card (set source) \<and>
    (\<forall>x slot. contains_key bv (ancestors_remove bv a x) slot \<longleftrightarrow> slot \<in> set source \<and> slot \<noteq> x) \<and>
    dom (ancestors_to_map bv order a) = set source \<and>
    (\<exists>b. ancestors_from_map bv order (ancestors_to_map bv order a) = Some b \<and> (\<forall>slot. contains_key bv b slot \<longleftrightarrow> slot \<in> set source))"
proof -
  have build: "\<exists>a. ancestors_from bv xs = Some a \<and> rb_ok bv a \<and> rb_abs bv a = set xs" if "set xs = set source" for xs
  proof -
    obtain s where s: "rb_new bv 8192 = Some s" "rb_inv bv s" "rb_abs bv s = {}" "max_width s = 8192"
      using rb_new_spec [OF assms(1) is_power_8192] by blast
    have "\<forall>x \<in> set (sort xs). rb_small s x" using assms(3) that by (fastforce simp: rb_small_def s(4) list_all_iff)
    from window.collect_ok [OF _ s(3) this] s assms(1) show ?thesis
      by (auto simp: ancestors_from_def ancestors_default_def ANCESTORS_HASH_MAP_SIZE_def rb_ok_def)
  qed
  obtain a where a: "ancestors_from bv source = Some a" "rb_ok bv a" "rb_abs bv a = set source" using build by blast
  have dom: "dom (ancestors_to_map bv order a) = set source"
    using get_all_spec(1) [OF assms(2), of bv a] a(2,3)
    by (simp add: ancestors_to_map_def ancestors_keys_def fold_upd_map rb_ok_def dom_def)
  then have "set (order (dom (ancestors_to_map bv order a))) = set source" using assms(2) by (simp add: iteration_order_def)
  from build [OF this] this
  obtain b where b: "ancestors_from_map bv order (ancestors_to_map bv order a) = Some b" "rb_ok bv b" "rb_abs bv b = set source"
    by (auto simp: ancestors_from_map_def)
  show ?thesis
  proof (rule exI [of _ a], intro conjI allI)
    show "\<exists>b. ancestors_from_map bv order (ancestors_to_map bv order a) = Some b \<and> (\<forall>slot. contains_key bv b slot \<longleftrightarrow> slot \<in> set source)"
      using b(1) window.isin [OF b(2)] by (simp add: contains_key_def b(3))
    show "contains_key bv (ancestors_remove bv a x) slot \<longleftrightarrow> slot \<in> set source \<and> slot \<noteq> x" for x slot
      by (simp add: remove_exact [OF a(2)] a(3))
    show "unat (ancestors_len a) = card (set source)"
      using rb_len_spec [of bv a] a(2,3) by (simp add: ancestors_len_def rb_ok_def)
  qed (simp_all add: contains_key_def window.isin [OF a(2)] a(1,3) dom)
qed

section \<open>Witnesses\<close>

theorem ancestors_from_exact_witness:
  "\<exists>a. ancestors_from list_bitvec [20000, 3, 3, 7] = Some a \<and> contains_key list_bitvec a 3 \<and>
    \<not> contains_key list_bitvec a 4 \<and> unat (ancestors_len a) = card {20000, 3, 7 :: u64}"
  using ancestors_from_exact [OF list_bitvec_ok sorted_order, of "[20000, 3, 3, 7]"] by auto

end
