(* ===== verification/Vote_Tower.thy ===== *)
theory Vote_Tower
  imports Rust_Prelude
begin

text \<open>
  The tower a validator keeps of its own votes (\<^verbatim>\<open>core/src/consensus/tower_vote_state.rs\<close>). A lockout is a type of the vote
  interface crate: its operations are the fields of \<open>lockout_api\<close>, an argument of the definitions, and
  \<open>lockout_ok\<close> states their documented behaviour. The lemmas show that every tower built by voting is well formed and
  how a later tower relates to an earlier one.
\<close>

section \<open>Lockouts\<close>

record 'l lockout_api =
  MAX_LOCKOUT_HISTORY :: nat
  lockout_new :: "u64 \<Rightarrow> 'l"
  lockout_slot :: "'l \<Rightarrow> u64"
  confirmation_count :: "'l \<Rightarrow> u32"
  increase_confirmation_count :: "'l \<Rightarrow> u32 \<Rightarrow> 'l"
  last_locked_out_slot :: "'l \<Rightarrow> u64"
  is_locked_out_at_slot :: "'l \<Rightarrow> u64 \<Rightarrow> bool"

text \<open>A lockout lasts for \<open>2 ^ c\<close> slots, where \<open>c\<close> is the number of confirmations.\<close>

definition lockout_ok :: "'l lockout_api \<Rightarrow> bool" where
  "lockout_ok api \<longleftrightarrow>
     MAX_LOCKOUT_HISTORY api = 31 \<and>
     (\<forall>s. lockout_slot api (lockout_new api s) = s \<and> confirmation_count api (lockout_new api s) = 1) \<and>
     (\<forall>l n. lockout_slot api (increase_confirmation_count api l n) = lockout_slot api l \<and>
        confirmation_count api (increase_confirmation_count api l n) = saturating_add (confirmation_count api l) n) \<and>
     (\<forall>l. last_locked_out_slot api l =
        saturating_add (lockout_slot api l) (2 ^ min (unat (confirmation_count api l)) (MAX_LOCKOUT_HISTORY api))) \<and>
     (\<forall>l s. is_locked_out_at_slot api l s \<longleftrightarrow> s \<le> last_locked_out_slot api l)"

section \<open>The tower\<close>

record 'l tower_vote_state =
  tower_votes :: "'l list"
  tower_root :: "u64 option"

definition tower_default :: "'l tower_vote_state" where
  "tower_default = \<lparr>tower_votes = [], tower_root = None\<rparr>"

definition tower_slots :: "'l lockout_api \<Rightarrow> 'l tower_vote_state \<Rightarrow> u64 list" where
  "tower_slots api self = map (lockout_slot api) (tower_votes self)"

definition last_lockout :: "'l tower_vote_state \<Rightarrow> 'l option" where
  "last_lockout self = (if tower_votes self = [] then None else Some (last (tower_votes self)))"

definition tower_last_voted_slot :: "'l lockout_api \<Rightarrow> 'l tower_vote_state \<Rightarrow> u64 option" where
  "tower_last_voted_slot api self = map_option (lockout_slot api) (last_lockout self)"

definition nth_recent_lockout :: "'l tower_vote_state \<Rightarrow> usize \<Rightarrow> 'l option" where
  "nth_recent_lockout self position =
     (let p = unat (saturating_add position 1) in
      if p \<le> length (tower_votes self) then
        (let pos = length (tower_votes self) - p in
         if pos < length (tower_votes self) then Some (tower_votes self ! pos) else None)
      else None)"

function pop_expired_votes :: "'l lockout_api \<Rightarrow> u64 \<Rightarrow> 'l list \<Rightarrow> 'l list" where
  "pop_expired_votes api next_vote_slot votes =
     (if votes = [] then []
      else if \<not> is_locked_out_at_slot api (last votes) next_vote_slot
      then pop_expired_votes api next_vote_slot (butlast votes)
      else votes)"
  by pat_completeness auto
termination
  by (relation "measure (\<lambda>(api, next_vote_slot, votes). length votes)") auto

declare pop_expired_votes.simps [simp del]

text \<open>The loop over the votes from index \<open>i\<close>; \<open>None\<close> is the failed \<open>expect\<close>.\<close>

fun double_from :: "'l lockout_api \<Rightarrow> nat \<Rightarrow> nat \<Rightarrow> 'l list \<Rightarrow> 'l list option" where
  "double_from api stack_depth i [] = Some []"
| "double_from api stack_depth i (v # vs) =
     (if i + unat (confirmation_count api v) < 2 ^ 64 then
        (let v' = if stack_depth > i + unat (confirmation_count api v) then increase_confirmation_count api v 1 else v
         in map_option ((#) v') (double_from api stack_depth (i + 1) vs))
      else None)"

definition double_lockouts :: "'l lockout_api \<Rightarrow> 'l tower_vote_state \<Rightarrow> 'l tower_vote_state option" where
  "double_lockouts api self =
     map_option (\<lambda>vs. self\<lparr>tower_votes := vs\<rparr>) (double_from api (length (tower_votes self)) 0 (tower_votes self))"

definition process_next_vote_slot :: "'l lockout_api \<Rightarrow> 'l tower_vote_state \<Rightarrow> u64 \<Rightarrow> 'l tower_vote_state option" where
  "process_next_vote_slot api self next_vote_slot =
     (if (case tower_last_voted_slot api self of Some last_voted_slot \<Rightarrow> next_vote_slot \<le> last_voted_slot | None \<Rightarrow> False)
      then Some self
      else
        (let s = self\<lparr>tower_votes := pop_expired_votes api next_vote_slot (tower_votes self)\<rparr>;
             s = (if length (tower_votes s) = MAX_LOCKOUT_HISTORY api
                  then s\<lparr>tower_votes := tl (tower_votes s), tower_root := Some (lockout_slot api (hd (tower_votes s)))\<rparr>
                  else s);
             s = s\<lparr>tower_votes := tower_votes s @ [lockout_new api next_vote_slot]\<rparr>
         in double_lockouts api s))"

section \<open>Well-formed towers\<close>

definition confs :: "'l lockout_api \<Rightarrow> 'l \<Rightarrow> nat" where
  "confs api v = unat (confirmation_count api v)"

text \<open>Slots increase, confirmations decrease and lie between 1 and the length of the history, and no vote is
  expired by the next one.\<close>

definition ordered_tower :: "'l lockout_api \<Rightarrow> 'l list \<Rightarrow> bool" where
  "ordered_tower api vs \<longleftrightarrow>
     sorted_wrt (\<lambda>u v. lockout_slot api u < lockout_slot api v \<and> confs api v < confs api u) vs \<and>
     list_all (\<lambda>v. 0 < confs api v \<and> confs api v \<le> MAX_LOCKOUT_HISTORY api) vs \<and>
     successively (\<lambda>u v. lockout_slot api v \<le> last_locked_out_slot api u) vs"

definition tower_wf :: "'l lockout_api \<Rightarrow> 'l tower_vote_state \<Rightarrow> bool" where
  "tower_wf api t \<longleftrightarrow>
     ordered_tower api (tower_votes t) \<and> length (tower_votes t) \<le> MAX_LOCKOUT_HISTORY api \<and>
     (\<forall>i < length (tower_votes t). length (tower_votes t) \<le> i + confs api (tower_votes t ! i)) \<and>
     (\<forall>r. tower_root t = Some r \<longrightarrow> tower_votes t \<noteq> [] \<and> list_all (\<lambda>v. r < lockout_slot api v) (tower_votes t))"

lemma lockout_laws:
  assumes "lockout_ok api"
  shows "lockout_slot api (lockout_new api s) = s" and "confirmation_count api (lockout_new api s) = 1"
    and "lockout_slot api (increase_confirmation_count api l n) = lockout_slot api l"
    and "confirmation_count api (increase_confirmation_count api l n) = saturating_add (confirmation_count api l) n"
  using assms unfolding lockout_ok_def by blast+

lemma lockout_new_simps [simp]:
  "lockout_ok api \<Longrightarrow> lockout_slot api (lockout_new api s) = s" "lockout_ok api \<Longrightarrow> confs api (lockout_new api s) = 1"
  by (simp_all add: lockout_laws confs_def)

lemma increase_simps [simp]:
  "lockout_ok api \<Longrightarrow> lockout_slot api (increase_confirmation_count api l n) = lockout_slot api l"
  "lockout_ok api \<Longrightarrow> confs api l \<le> 31 \<Longrightarrow> confs api (increase_confirmation_count api l 1) = confs api l + 1"
  by (simp_all add: lockout_laws confs_def unat_saturating_add)

lemma max_lockout_history: "lockout_ok api \<Longrightarrow> MAX_LOCKOUT_HISTORY api = 31"
  unfolding lockout_ok_def by blast

lemma locked_out_iff: "lockout_ok api \<Longrightarrow> is_locked_out_at_slot api l s \<longleftrightarrow> s \<le> last_locked_out_slot api l"
  unfolding lockout_ok_def by blast

text \<open>More confirmations never shorten a lockout.\<close>

lemma unat_two_power: "n \<le> 31 \<Longrightarrow> unat ((2 :: u64) ^ n) = 2 ^ n"
proof -
  assume "n \<le> 31"
  then have "(2 :: nat) ^ n \<le> 2 ^ 31" by (rule power_increasing) simp
  then have "(2 :: nat) ^ n < 2 ^ 64" by (rule le_less_trans) simp
  then have "unat (of_nat (2 ^ n) :: u64) = 2 ^ n" by (intro unat_of_nat_small) simp
  then show ?thesis by simp
qed

lemma unat_last_locked:
  assumes "lockout_ok api"
  shows "unat (last_locked_out_slot api u) = min (unat (lockout_slot api u) + 2 ^ min (confs api u) 31) (2 ^ 64 - 1)"
proof -
  define n where "n = min (confs api u) 31"
  have "last_locked_out_slot api u = saturating_add (lockout_slot api u) (2 ^ n)"
    using assms unfolding lockout_ok_def confs_def n_def by presburger
  moreover have "unat ((2 :: u64) ^ n) = 2 ^ n" by (rule unat_two_power) (simp add: n_def)
  ultimately show ?thesis unfolding n_def [symmetric] by (simp add: unat_saturating_add)
qed

lemma last_locked_mono:
  assumes "lockout_ok api" and "lockout_slot api u = lockout_slot api v" and "confs api u \<le> confs api v"
  shows "last_locked_out_slot api u \<le> last_locked_out_slot api v"
proof -
  have "min (confs api u) 31 \<le> min (confs api v) 31" using assms(3) by simp
  then have "(2 :: nat) ^ min (confs api u) 31 \<le> 2 ^ min (confs api v) 31" by (rule power_increasing) simp
  then show ?thesis unfolding word_le_nat_alt unat_last_locked [OF assms(1)] assms(2) by (rule min.mono [OF add_left_mono order_refl])
qed

section \<open>Voting keeps towers well formed\<close>

lemma pop_expired_spec:
  "\<exists>ds. vs = pop_expired_votes api s vs @ ds \<and> (\<forall>v \<in> set ds. \<not> is_locked_out_at_slot api v s) \<and>
     (pop_expired_votes api s vs \<noteq> [] \<longrightarrow> is_locked_out_at_slot api (last (pop_expired_votes api s vs)) s)"
proof (induction api s vs rule: pop_expired_votes.induct)
  case (1 api s vs)
  show ?case
  proof (cases "vs = [] \<or> is_locked_out_at_slot api (last vs) s")
    case True
    then show ?thesis by (auto simp: pop_expired_votes.simps [of api s vs])
  next
    case False
    then have p: "pop_expired_votes api s vs = pop_expired_votes api s (butlast vs)"
      by (simp add: pop_expired_votes.simps [of api s vs])
    obtain ds where ds: "butlast vs = pop_expired_votes api s (butlast vs) @ ds" "\<forall>v \<in> set ds. \<not> is_locked_out_at_slot api v s"
      "pop_expired_votes api s (butlast vs) \<noteq> [] \<longrightarrow> is_locked_out_at_slot api (last (pop_expired_votes api s (butlast vs))) s"
      using 1 False by blast
    have "vs = pop_expired_votes api s vs @ (ds @ [last vs])" using ds(1) False p by (metis append.assoc append_butlast_last_id)
    then show ?thesis using ds(2,3) False p by (intro exI [of _ "ds @ [last vs]"]) auto
  qed
qed

definition doubled :: "'l lockout_api \<Rightarrow> nat \<Rightarrow> nat \<Rightarrow> 'l \<Rightarrow> 'l" where
  "doubled api depth i v = (if depth > i + confs api v then increase_confirmation_count api v 1 else v)"

lemma double_from_value:
  "i + length vs \<le> 31 \<Longrightarrow> double_from api depth i vs = Some (map (\<lambda>j. doubled api depth (i + j) (vs ! j)) [0..<length vs])"
proof (induction vs arbitrary: i)
  case (Cons v vs)
  have "unat (confirmation_count api v) < 2 ^ 32" using unsigned_less [of "confirmation_count api v"] by simp
  then have "i + unat (confirmation_count api v) < 2 ^ 64" using Cons.prems by simp
  then show ?case using Cons.IH [of "i + 1"] Cons.prems
    by (simp add: doubled_def confs_def Let_def map_upt_Suc del: upt_Suc)
qed simp

lemma doubled_simps [simp]:
  "lockout_ok api \<Longrightarrow> lockout_slot api (doubled api n i v) = lockout_slot api v"
  "lockout_ok api \<Longrightarrow> confs api v \<le> 31 \<Longrightarrow> confs api (doubled api n i v) = (if n > i + confs api v then confs api v + 1 else confs api v)"
  by (simp_all add: doubled_def)

lemma doubled_locked:
  "lockout_ok api \<Longrightarrow> confs api v \<le> 31 \<Longrightarrow> last_locked_out_slot api v \<le> last_locked_out_slot api (doubled api n i v)"
  by (rule last_locked_mono) simp_all

text \<open>The votes below the new one: those that remain after expired votes are popped and the oldest vote is
  rooted.\<close>

definition kept_votes :: "'l lockout_api \<Rightarrow> u64 \<Rightarrow> 'l list \<Rightarrow> 'l list" where
  "kept_votes api s vs =
     (let ps = pop_expired_votes api s vs in if length ps = MAX_LOCKOUT_HISTORY api then tl ps else ps)"

definition next_votes :: "'l lockout_api \<Rightarrow> u64 \<Rightarrow> 'l list \<Rightarrow> 'l list" where
  "next_votes api s ks =
     map (\<lambda>j. doubled api (length ks + 1) j ((ks @ [lockout_new api s]) ! j)) [0..<length ks + 1]"

definition votes_next :: "'l lockout_api \<Rightarrow> 'l tower_vote_state \<Rightarrow> u64 \<Rightarrow> bool" where
  "votes_next api t s \<longleftrightarrow> list_all (\<lambda>v. lockout_slot api v < s) (tower_votes t)"

text \<open>What the kept votes satisfy, and what it gives of the next votes.\<close>

definition ready :: "'l lockout_api \<Rightarrow> u64 \<Rightarrow> 'l list \<Rightarrow> bool" where
  "ready api s ks \<longleftrightarrow> ordered_tower api ks \<and> length ks < MAX_LOCKOUT_HISTORY api \<and>
     (\<forall>i < length ks. length ks \<le> i + confs api (ks ! i)) \<and> list_all (\<lambda>v. lockout_slot api v < s) ks \<and>
     (ks \<noteq> [] \<longrightarrow> s \<le> last_locked_out_slot api (last ks))"

lemma ordered_tower_nth:
  "ordered_tower api vs \<longleftrightarrow>
     (\<forall>j < length vs. \<forall>i < j. lockout_slot api (vs ! i) < lockout_slot api (vs ! j) \<and> confs api (vs ! j) < confs api (vs ! i)) \<and>
     (\<forall>i < length vs. 0 < confs api (vs ! i) \<and> confs api (vs ! i) \<le> MAX_LOCKOUT_HISTORY api) \<and>
     (\<forall>i. Suc i < length vs \<longrightarrow> lockout_slot api (vs ! Suc i) \<le> last_locked_out_slot api (vs ! i))"
  unfolding ordered_tower_def sorted_wrt_iff_nth_less list_all_length successively_conv_nth by (auto simp: less_diff_conv)

lemma ordered_tower_append:
  assumes "ordered_tower api (xs @ ys)"
  shows "ordered_tower api xs" and "ordered_tower api ys"
  using assms by (auto simp: ordered_tower_def sorted_wrt_append successively_append_iff)

lemma next_votes_length [simp]: "length (next_votes api s ks) = length ks + 1"
  by (simp add: next_votes_def)

lemma next_votes_nth:
  assumes "lockout_ok api" and "ready api s ks" and "i < length ks"
  shows "lockout_slot api (next_votes api s ks ! i) = lockout_slot api (ks ! i)"
    and "confs api (next_votes api s ks ! i) = max (confs api (ks ! i)) (length ks + 1 - i)"
    and "last_locked_out_slot api (ks ! i) \<le> last_locked_out_slot api (next_votes api s ks ! i)"
proof -
  have c: "confs api (ks ! i) \<le> 31" "length ks \<le> i + confs api (ks ! i)"
    using assms by (simp_all add: ready_def ordered_tower_nth max_lockout_history)
  have n: "next_votes api s ks ! i = doubled api (length ks + 1) i (ks ! i)"
    using assms(3) by (simp add: next_votes_def nth_append del: upt_Suc)
  show "lockout_slot api (next_votes api s ks ! i) = lockout_slot api (ks ! i)" using assms(1) by (simp add: n)
  show "confs api (next_votes api s ks ! i) = max (confs api (ks ! i)) (length ks + 1 - i)" using assms c by (simp add: n) linarith
  show "last_locked_out_slot api (ks ! i) \<le> last_locked_out_slot api (next_votes api s ks ! i)"
    using doubled_locked [OF assms(1) c(1)] by (simp add: n)
qed

lemma next_votes_last:
  assumes "lockout_ok api"
  shows "lockout_slot api (next_votes api s ks ! length ks) = s" and "confs api (next_votes api s ks ! length ks) = 1"
  using assms by (simp_all add: next_votes_def nth_append del: upt_Suc)

lemma next_votes_ordered:
  assumes ok: "lockout_ok api" and r: "ready api s ks"
  shows "ordered_tower api (next_votes api s ks)"
proof -
  note nv = next_votes_nth [OF ok r] and nl = next_votes_last [OF ok, of s ks]
  have o: "ordered_tower api ks" "length ks < 31" "list_all (\<lambda>v. lockout_slot api v < s) ks"
    using r ok by (simp_all add: ready_def max_lockout_history)
  have p: "lockout_slot api (next_votes api s ks ! i) < lockout_slot api (next_votes api s ks ! j) \<and>
      confs api (next_votes api s ks ! j) < confs api (next_votes api s ks ! i)" if "j < length ks + 1" "i < j" for i j
  proof (cases "j = length ks")
    case True
    with that o(3) nl nv(1,2) [of i] show ?thesis by (simp add: list_all_length)
  next
    case False
    with that have "j < length ks" by simp
    moreover from this o(1) that(2) have "lockout_slot api (ks ! i) < lockout_slot api (ks ! j)" "confs api (ks ! j) < confs api (ks ! i)"
      by (simp_all add: ordered_tower_nth)
    ultimately show ?thesis using nv(1,2) [of i] nv(1,2) [of j] that by simp linarith
  qed
  have b: "0 < confs api (next_votes api s ks ! i) \<and> confs api (next_votes api s ks ! i) \<le> 31" if "i < length ks + 1" for i
    using that nl nv(2) [of i] o(1,2) ok by (cases "i = length ks") (auto simp: ordered_tower_nth max_lockout_history less_Suc_eq)
  have c: "lockout_slot api (next_votes api s ks ! Suc i) \<le> last_locked_out_slot api (next_votes api s ks ! i)" if "Suc i < length ks + 1" for i
  proof (cases "Suc i = length ks")
    case True
    then have "s \<le> last_locked_out_slot api (ks ! i)" using r by (cases ks rule: rev_cases) (auto simp: ready_def nth_append)
    with True nl nv(3) [of i] show ?thesis by simp
  next
    case False
    with that have "lockout_slot api (ks ! Suc i) \<le> last_locked_out_slot api (ks ! i)" using o(1) by (simp add: ordered_tower_nth)
    with False that nv(1) [of "Suc i"] nv(3) [of i] show ?thesis by simp
  qed
  from p b c show ?thesis unfolding ordered_tower_nth max_lockout_history [OF ok] next_votes_length by blast
qed

definition next_root :: "'l lockout_api \<Rightarrow> u64 \<Rightarrow> 'l tower_vote_state \<Rightarrow> u64 option" where
  "next_root api s t =
     (let ps = pop_expired_votes api s (tower_votes t) in
      if length ps = MAX_LOCKOUT_HISTORY api then Some (lockout_slot api (hd ps)) else tower_root t)"

lemma kept_votes_ready:
  assumes ok: "lockout_ok api" and wf: "tower_wf api t" and nxt: "votes_next api t s"
  shows "ready api s (kept_votes api s (tower_votes t))"
proof -
  let ?vs = "tower_votes t" and ?ps = "pop_expired_votes api s (tower_votes t)"
  obtain ds where ds: "?vs = ?ps @ ds" "?ps \<noteq> [] \<longrightarrow> is_locked_out_at_slot api (last ?ps) s"
    using pop_expired_spec [of ?vs api s] by blast
  have o: "ordered_tower api ?ps" using wf ds(1) ordered_tower_append(1) by (metis tower_wf_def)
  have len: "length ?ps \<le> 31" using wf arg_cong [OF ds(1), of length] by (simp add: tower_wf_def max_lockout_history [OF ok])
  have c: "length ?ps \<le> i + confs api (?ps ! i)" if "i < length ?ps" for i
  proof -
    have "?vs ! i = ?ps ! i" "length ?ps \<le> length ?vs" using that ds(1) by (metis nth_append, metis length_append le_add1)
    then show ?thesis using wf that unfolding tower_wf_def by (metis le_trans order_less_le_trans)
  qed
  have lt: "list_all (\<lambda>v. lockout_slot api v < s) ?ps" using nxt ds(1) by (metis votes_next_def list_all_append)
  have last: "?ps \<noteq> [] \<Longrightarrow> s \<le> last_locked_out_slot api (last ?ps)" using ds(2) locked_out_iff [OF ok] by blast
  show ?thesis
  proof (cases "length ?ps = 31")
    case False
    with o len c lt last show ?thesis by (simp add: kept_votes_def Let_def ready_def max_lockout_history [OF ok])
  next
    case True
    then obtain p qs where q: "?ps = p # qs" "qs \<noteq> []" by (cases ?ps) force+
    have "length qs \<le> i + confs api (qs ! i)" if "i < length qs" for i using c [of "Suc i"] that by (simp add: q(1))
    moreover have "ordered_tower api qs" using o ordered_tower_append(2) [of api "[p]" qs] by (simp add: q(1))
    ultimately show ?thesis using True lt last
      by (simp add: kept_votes_def Let_def ready_def max_lockout_history [OF ok] q)
  qed
qed

lemma process_next_vote_slot_value:
  assumes ok: "lockout_ok api" and wf: "tower_wf api t"
  shows "process_next_vote_slot api t s =
    Some (if votes_next api t s
          then \<lparr>tower_votes = next_votes api s (kept_votes api s (tower_votes t)), tower_root = next_root api s t\<rparr> else t)"
proof (cases "votes_next api t s")
  case True
  let ?ks = "kept_votes api s (tower_votes t)"
  have "\<not> s \<le> lockout_slot api (last (tower_votes t))" if "tower_votes t \<noteq> []"
    using True that by (auto simp: votes_next_def list_all_iff not_le)
  moreover have "length ?ks < 31" using kept_votes_ready [OF ok wf True] by (simp add: ready_def max_lockout_history [OF ok])
  then have "double_from api (length (?ks @ [lockout_new api s])) 0 (?ks @ [lockout_new api s]) = Some (next_votes api s ?ks)"
    by (subst double_from_value) (simp_all add: next_votes_def del: upt_Suc)
  ultimately show ?thesis using True
    by (auto simp: process_next_vote_slot_def tower_last_voted_slot_def last_lockout_def double_lockouts_def kept_votes_def next_root_def
        Let_def)
next
  case False
  have "lockout_slot api v \<le> lockout_slot api (last (tower_votes t))" if "v \<in> set (tower_votes t)" for v
    using wf that by (cases "tower_votes t" rule: rev_cases) (auto simp: tower_wf_def ordered_tower_def sorted_wrt_append less_imp_le)
  with False have "tower_votes t \<noteq> []" "s \<le> lockout_slot api (last (tower_votes t))"
    by (auto simp: votes_next_def list_all_iff not_less intro: order_trans)
  then show ?thesis using False by (simp add: process_next_vote_slot_def tower_last_voted_slot_def last_lockout_def)
qed

lemma kept_votes_sub:
  assumes "v \<in> set (kept_votes api s vs)"
  shows "v \<in> set vs"
proof -
  have "v \<in> set (pop_expired_votes api s vs)" using assms list.set_sel(2) by (cases "pop_expired_votes api s vs") (auto simp: kept_votes_def Let_def split: if_splits)
  then show ?thesis using pop_expired_spec [of vs api s] by (metis UnCI set_append)
qed

lemma tower_default_wf: "tower_wf api tower_default"
  by (simp add: tower_wf_def tower_default_def ordered_tower_def)

lemma next_votes_above:
  assumes ok: "lockout_ok api" and r: "ready api s ks" and "\<forall>v \<in> set ks. b < lockout_slot api v" and "b < s"
  shows "list_all (\<lambda>v. b < lockout_slot api v) (next_votes api s ks)"
proof -
  have "b < lockout_slot api (next_votes api s ks ! i)" if "i < length ks + 1" for i
    using that assms(3,4) next_votes_nth(1) [OF ok r, of i] next_votes_last(1) [OF ok, of s ks] by (cases "i = length ks") auto
  then show ?thesis by (simp add: list_all_length)
qed

lemma next_root_below:
  assumes ok: "lockout_ok api" and wf: "tower_wf api t" and nxt: "votes_next api t s" and r: "next_root api s t = Some r"
  shows "r < s \<and> (\<forall>v \<in> set (kept_votes api s (tower_votes t)). r < lockout_slot api v)"
proof -
  let ?ps = "pop_expired_votes api s (tower_votes t)"
  obtain ds where ds: "tower_votes t = ?ps @ ds" using pop_expired_spec [of "tower_votes t" api s] by blast
  have lt: "list_all (\<lambda>v. lockout_slot api v < s) (tower_votes t)" using nxt by (simp add: votes_next_def)
  show ?thesis
  proof (cases "length ?ps = MAX_LOCKOUT_HISTORY api")
    case True
    then obtain p qs where q: "?ps = p # qs" using max_lockout_history [OF ok] by (cases ?ps) force+
    have "ordered_tower api (p # qs)" using wf ds ordered_tower_append(1) by (metis tower_wf_def q)
    moreover have "r = lockout_slot api p" "kept_votes api s (tower_votes t) = qs" using r True by (simp_all add: next_root_def kept_votes_def q)
    moreover have "lockout_slot api p < s" using lt ds by (metis list.pred_inject(2) list_all_append q)
    ultimately show ?thesis by (simp add: ordered_tower_def)
  next
    case False
    then have "tower_root t = Some r" using r by (simp add: next_root_def Let_def)
    then have "tower_votes t \<noteq> []" "list_all (\<lambda>v. r < lockout_slot api v) (tower_votes t)" using wf by (simp_all add: tower_wf_def)
    then show ?thesis using lt kept_votes_sub [of _ api s "tower_votes t"]
      by (cases "tower_votes t") (auto simp: list_all_iff)
  qed
qed

lemma process_next_vote_slot_wf:
  assumes ok: "lockout_ok api" and wf: "tower_wf api t" and step: "process_next_vote_slot api t s = Some t'"
  shows "tower_wf api t'"
proof (cases "votes_next api t s")
  case True
  let ?ks = "kept_votes api s (tower_votes t)"
  have t': "t' = \<lparr>tower_votes = next_votes api s ?ks, tower_root = next_root api s t\<rparr>"
    using process_next_vote_slot_value [OF ok wf, of s] step True by simp
  have r: "ready api s ?ks" by (rule kept_votes_ready [OF ok wf True])
  have "length ?ks + 1 \<le> i + confs api (next_votes api s ?ks ! i)" if "i < length ?ks + 1" for i
    using that next_votes_nth(2) [OF ok r, of i] next_votes_last(2) [OF ok, of s ?ks] by (cases "i = length ?ks") auto
  moreover have "length ?ks + 1 \<le> MAX_LOCKOUT_HISTORY api" using r by (simp add: ready_def)
  moreover have "list_all (\<lambda>v. b < lockout_slot api v) (next_votes api s ?ks)" if "next_root api s t = Some b" for b
    using next_root_below [OF ok wf True that] next_votes_above [OF ok r] by blast
  moreover have "next_votes api s ?ks \<noteq> []" using next_votes_length [of api s ?ks] by force
  ultimately show ?thesis using next_votes_ordered [OF ok r] unfolding tower_wf_def t' by simp
next
  case False
  then show ?thesis using process_next_vote_slot_value [OF ok wf, of s] step wf by simp
qed

section \<open>Towers over time\<close>

text \<open>What a vote of a tower has become in a later one: it is rooted, it is still there with no fewer
  confirmations, or it is gone and the votes after it are beyond its lockout.\<close>

definition vote_settled :: "'l lockout_api \<Rightarrow> u64 option \<Rightarrow> 'l list \<Rightarrow> 'l \<Rightarrow> bool" where
  "vote_settled api root ws v \<longleftrightarrow>
     (case root of Some r \<Rightarrow> lockout_slot api v \<le> r | None \<Rightarrow> False) \<or>
     (\<exists>w \<in> set ws. lockout_slot api w = lockout_slot api v \<and> confs api v \<le> confs api w) \<or>
     (\<forall>w \<in> set ws. lockout_slot api v < lockout_slot api w \<longrightarrow> last_locked_out_slot api v < lockout_slot api w) \<and>
     lockout_slot api v \<notin> lockout_slot api ` set ws \<and> (\<exists>w \<in> set ws. lockout_slot api v < lockout_slot api w)"

definition root_kept :: "u64 option \<Rightarrow> u64 option \<Rightarrow> bool" where
  "root_kept root root' \<longleftrightarrow> (case root of None \<Rightarrow> True | Some r \<Rightarrow> (case root' of None \<Rightarrow> False | Some r' \<Rightarrow> r \<le> r'))"

inductive tower_step :: "'l lockout_api \<Rightarrow> 'l tower_vote_state \<Rightarrow> 'l tower_vote_state \<Rightarrow> bool" for api where
  vote: "process_next_vote_slot api t s = Some t' \<Longrightarrow> tower_step api t t'"

inductive_cases tower_stepE: "tower_step api t t'"

definition tower_init :: "'l tower_vote_state \<Rightarrow> bool" where
  "tower_init t \<longleftrightarrow> t = tower_default"

interpretation tower: invariant_system tower_init "tower_step api" "\<lambda>t. lockout_ok api \<longrightarrow> tower_wf api t"
  for api :: "'l lockout_api"
  by unfold_locales (auto simp: tower_init_def tower_default_wf elim!: tower_stepE intro: process_next_vote_slot_wf)

lemma next_votes_cases:
  assumes ok: "lockout_ok api" and r: "ready api s ks" and "w \<in> set (next_votes api s ks)"
  shows "lockout_slot api w = s \<or> (\<exists>k \<in> set ks. lockout_slot api w = lockout_slot api k)"
proof -
  obtain i where "i < length ks + 1" "w = next_votes api s ks ! i" using assms(3) by (auto simp: in_set_conv_nth)
  then show ?thesis using next_votes_nth(1) [OF ok r, of i] next_votes_last(1) [OF ok, of s ks] nth_mem [of i ks] by (cases "i = length ks") auto
qed

lemma next_votes_keeps:
  assumes ok: "lockout_ok api" and r: "ready api s ks" and "k \<in> set ks"
  shows "\<exists>w \<in> set (next_votes api s ks). lockout_slot api w = lockout_slot api k \<and> confs api k \<le> confs api w"
proof -
  obtain i where "i < length ks" "ks ! i = k" using assms(3) by (auto simp: in_set_conv_nth)
  then show ?thesis using next_votes_nth(1,2) [OF ok r, of i] by (intro bexI [of _ "next_votes api s ks ! i"]) auto
qed

lemma next_votes_new:
  assumes "lockout_ok api"
  shows "\<exists>w \<in> set (next_votes api s ks). lockout_slot api w = s"
  using next_votes_last(1) [OF assms, of s ks] nth_mem [of "length ks" "next_votes api s ks"] by auto

text \<open>A vote of the tower is rooted, kept or expired by the next vote.\<close>

lemma vote_fate:
  assumes ok: "lockout_ok api" and wf: "tower_wf api t" and nxt: "votes_next api t s" and v: "v \<in> set (tower_votes t)"
  shows "next_root api s t = Some (lockout_slot api v) \<or> v \<in> set (kept_votes api s (tower_votes t)) \<or>
    last_locked_out_slot api v < s \<and> (\<forall>k \<in> set (kept_votes api s (tower_votes t)). lockout_slot api k < lockout_slot api v)"
proof -
  let ?ps = "pop_expired_votes api s (tower_votes t)"
  obtain ds where ds: "tower_votes t = ?ps @ ds" "\<forall>v \<in> set ds. \<not> is_locked_out_at_slot api v s"
    using pop_expired_spec [of "tower_votes t" api s] by blast
  have kept: "k \<in> set ?ps" if "k \<in> set (kept_votes api s (tower_votes t))" for k
    using that list.set_sel(2) by (cases ?ps) (auto simp: kept_votes_def Let_def split: if_splits)
  have "ordered_tower api (?ps @ ds)" using wf ds(1) by (metis tower_wf_def)
  then have lt: "lockout_slot api p < lockout_slot api d" if "p \<in> set ?ps" "d \<in> set ds" for p d
    using that by (auto simp: ordered_tower_def sorted_wrt_append)
  show ?thesis
  proof (cases "v \<in> set ds")
    case True
    then show ?thesis using ds(2) locked_out_iff [OF ok] lt kept by (auto simp: not_le)
  next
    case False
    then have "v \<in> set ?ps" using v ds(1) by (metis Un_iff set_append)
    then show ?thesis using max_lockout_history [OF ok] by (cases ?ps) (auto simp: kept_votes_def next_root_def Let_def)
  qed
qed

lemma next_root_kept:
  assumes ok: "lockout_ok api" and wf: "tower_wf api t"
  shows "root_kept (tower_root t) (next_root api s t)"
proof -
  let ?ps = "pop_expired_votes api s (tower_votes t)"
  obtain ds where ds: "tower_votes t = ?ps @ ds" using pop_expired_spec [of "tower_votes t" api s] by blast
  have "r \<le> lockout_slot api (hd ?ps)" if "tower_root t = Some r" "length ?ps = 31" for r
  proof -
    have "hd ?ps \<in> set (tower_votes t)" using ds that(2) by (metis UnI1 hd_in_set list.size(3) set_append zero_neq_numeral)
    then show ?thesis using wf that(1) by (fastforce simp: tower_wf_def list_all_iff)
  qed
  then show ?thesis by (auto simp: root_kept_def next_root_def Let_def max_lockout_history [OF ok] split: option.splits)
qed

lemma settled_next:
  assumes ok: "lockout_ok api" and wf: "tower_wf api t" and nxt: "votes_next api t s" and v: "vote_settled api (tower_root t) (tower_votes t) v"
  shows "vote_settled api (next_root api s t) (next_votes api s (kept_votes api s (tower_votes t))) v"
proof -
  let ?ks = "kept_votes api s (tower_votes t)" and ?slot = "lockout_slot api"
  let ?ws = "next_votes api s ?ks"
  have r: "ready api s ?ks" by (rule kept_votes_ready [OF ok wf nxt])
  have below: "?slot u < s" if "u \<in> set (tower_votes t)" for u using nxt that by (simp add: votes_next_def list_all_iff)
  consider b where "tower_root t = Some b" "?slot v \<le> b"
    | w where "w \<in> set (tower_votes t)" "?slot w = ?slot v" "confs api v \<le> confs api w"
    | w where "\<forall>w \<in> set (tower_votes t). ?slot v < ?slot w \<longrightarrow> last_locked_out_slot api v < ?slot w"
      "?slot v \<notin> ?slot ` set (tower_votes t)" "w \<in> set (tower_votes t)" "?slot v < ?slot w"
    using v unfolding vote_settled_def by (auto split: option.splits)
  then show ?thesis
  proof cases
    case 1
    then show ?thesis using next_root_kept [OF ok wf, of s] by (auto simp: root_kept_def vote_settled_def split: option.splits)
  next
    case 2
    from vote_fate [OF ok wf nxt 2(1)] consider "next_root api s t = Some (?slot w)" | "w \<in> set ?ks"
      | "last_locked_out_slot api w < s" "\<forall>k \<in> set ?ks. ?slot k < ?slot w" by blast
    then show ?thesis
    proof cases
      case 1
      then show ?thesis using 2(2) by (simp add: vote_settled_def)
    next
      case 2
      from next_votes_keeps [OF ok r 2] show ?thesis using \<open>?slot w = ?slot v\<close> \<open>confs api v \<le> confs api w\<close>
        by (auto simp: vote_settled_def dest: le_trans)
    next
      case 3
      have "last_locked_out_slot api v < s" using last_locked_mono [OF ok 2(2) [symmetric] 2(3)] 3(1) by simp
      moreover have "?slot v < s" using below [OF 2(1)] 2(2) by simp
      moreover have "?slot u = s \<or> ?slot u < ?slot v" if "u \<in> set ?ws" for u using next_votes_cases [OF ok r that] 3(2) 2(2) by auto
      ultimately show ?thesis using next_votes_new [OF ok, of s ?ks] unfolding vote_settled_def by fastforce
    qed
  next
    case 3
    have "last_locked_out_slot api v < s" "?slot v < s" using 3 below [OF 3(3)] by (auto dest: less_trans)
    moreover have "?slot u = s \<or> (\<exists>k \<in> set (tower_votes t). ?slot u = ?slot k)" if "u \<in> set ?ws" for u
      using next_votes_cases [OF ok r that] kept_votes_sub by fast
    ultimately have "\<forall>u \<in> set ?ws. (?slot v < ?slot u \<longrightarrow> last_locked_out_slot api v < ?slot u) \<and> ?slot u \<noteq> ?slot v" "?slot v < s"
      using 3(1,2) by (metis image_eqI less_irrefl)+
    then show ?thesis using next_votes_new [OF ok, of s ?ks] unfolding vote_settled_def by (metis image_iff)
  qed
qed

lemma settled_self: "v \<in> set (tower_votes t) \<Longrightarrow> vote_settled api (tower_root t) (tower_votes t) v"
  by (auto simp: vote_settled_def)

lemma root_kept_trans: "root_kept a b \<Longrightarrow> root_kept b c \<Longrightarrow> root_kept a c"
  by (auto simp: root_kept_def split: option.splits)

lemma tower_steps_settled:
  assumes ok: "lockout_ok api" and "(tower_step api)\<^sup>*\<^sup>* t t'" and "tower_wf api t"
  shows "tower_wf api t' \<and> root_kept (tower_root t) (tower_root t') \<and>
    (\<forall>v \<in> set (tower_votes t). vote_settled api (tower_root t') (tower_votes t') v)"
  using assms(2,3)
proof (induction rule: rtranclp_induct)
  case base
  then show ?case by (auto simp: settled_self root_kept_def split: option.splits)
next
  case (step u w)
  then have IH: "tower_wf api u" "root_kept (tower_root t) (tower_root u)"
    "\<forall>v \<in> set (tower_votes t). vote_settled api (tower_root u) (tower_votes u) v" by simp_all
  from step(2) obtain s where s: "process_next_vote_slot api u s = Some w" by (auto elim: tower_stepE)
  have wf: "tower_wf api w" by (rule process_next_vote_slot_wf [OF ok IH(1) s])
  show ?case
  proof (cases "votes_next api u s")
    case True
    then have "tower_votes w = next_votes api s (kept_votes api s (tower_votes u))" "tower_root w = next_root api s u"
      using process_next_vote_slot_value [OF ok IH(1), of s] s by simp_all
    then show ?thesis using wf IH(2,3) settled_next [OF ok IH(1) True] root_kept_trans [OF IH(2) next_root_kept [OF ok IH(1), of s]] by simp
  next
    case False
    then show ?thesis using process_next_vote_slot_value [OF ok IH(1), of s] s IH by simp
  qed
qed

section \<open>Properties\<close>

text \<open>C31. Every tower a validator builds by voting is well formed: at most 31 votes on increasing slots, with decreasing
  confirmation counts between 1 and 31, each vote within the lockout of the one below it and with at least as many confirmations as there
  are votes from it to the top, all above the root. The next vote never panics.\<close>

theorem tower_well_formed:
  assumes "lockout_ok api" and "(tower_step api)\<^sup>*\<^sup>* tower_default t"
  shows "tower_wf api t \<and> (\<exists>t'. process_next_vote_slot api t s = Some t')"
proof -
  have "tower_wf api t" using tower.reachable_inv [OF _ assms(2)] assms(1) by (simp add: tower_init_def)
  then show ?thesis using process_next_vote_slot_value [OF assms(1)] by blast
qed

text \<open>C24. However a validator votes on, it never takes back a vote before its lockout has passed: in every later tower each earlier
  vote is rooted, or still there with no fewer confirmations, or gone with all later votes beyond its
  lockout; and the root never moves back.\<close>

theorem tower_keeps_lockouts:
  assumes "lockout_ok api" and "(tower_step api)\<^sup>*\<^sup>* tower_default t" and "(tower_step api)\<^sup>*\<^sup>* t t'"
  shows "root_kept (tower_root t) (tower_root t') \<and>
    (\<forall>v \<in> set (tower_votes t). vote_settled api (tower_root t') (tower_votes t') v)"
  using tower_steps_settled [OF assms(1,3)] tower.reachable_inv [OF _ assms(2)] assms(1) by (simp add: tower_init_def)

section \<open>Witnesses\<close>

text \<open>Lockouts as pairs of slot and confirmation count.\<close>

definition pair_lockout :: "(u64 \<times> u32) lockout_api" where
  "pair_lockout = \<lparr>MAX_LOCKOUT_HISTORY = 31, lockout_new = (\<lambda>s. (s, 1)), lockout_slot = fst, confirmation_count = snd,
     increase_confirmation_count = (\<lambda>l n. (fst l, saturating_add (snd l) n)),
     last_locked_out_slot = (\<lambda>l. saturating_add (fst l) (2 ^ min (unat (snd l)) 31)),
     is_locked_out_at_slot = (\<lambda>l s. s \<le> saturating_add (fst l) (2 ^ min (unat (snd l)) 31))\<rparr>"

lemma pair_lockout_ok: "lockout_ok pair_lockout"
  unfolding lockout_ok_def pair_lockout_def lockout_api.simps by simp

definition sample_tower :: "(u64 \<times> u32) list \<Rightarrow> (u64 \<times> u32) tower_vote_state" where
  "sample_tower vs = \<lparr>tower_votes = vs, tower_root = None\<rparr>"

lemma pop_snoc:
  "pop_expired_votes api s [] = []"
  "pop_expired_votes api s (vs @ [v]) = (if is_locked_out_at_slot api v s then vs @ [v] else pop_expired_votes api s vs)"
  by (simp_all add: pop_expired_votes.simps [of _ _ "[]"] pop_expired_votes.simps [of _ _ "vs @ [v]"])

lemmas tower_run_simps = process_next_vote_slot_def tower_last_voted_slot_def last_lockout_def double_lockouts_def
  pop_snoc(1) pop_snoc(2) [of _ _ "[]", simplified] pop_snoc(2) [of _ _ "[u]" for u, simplified]
  sample_tower_def tower_default_def saturating_add_def Let_def pair_lockout_def word_le_nat_alt

lemma sample_vote_1: "process_next_vote_slot pair_lockout tower_default 1 = Some (sample_tower [(1, 1)])"
  by (simp add: tower_run_simps)

lemma sample_vote_2: "process_next_vote_slot pair_lockout (sample_tower [(1, 1)]) 2 = Some (sample_tower [(1, 2), (2, 1)])"
  by (simp add: tower_run_simps)

lemma sample_vote_9: "process_next_vote_slot pair_lockout (sample_tower [(1, 2), (2, 1)]) 9 = Some (sample_tower [(9, 1)])"
  by (simp add: tower_run_simps)

lemma sample_tower_steps:
  "(tower_step pair_lockout)\<^sup>*\<^sup>* tower_default (sample_tower [(1, 2), (2, 1)])"
  "(tower_step pair_lockout)\<^sup>*\<^sup>* (sample_tower [(1, 2), (2, 1)]) (sample_tower [(9, 1)])"
  using tower_step.vote [OF sample_vote_1] tower_step.vote [OF sample_vote_2] tower_step.vote [OF sample_vote_9]
  by (auto intro: converse_rtranclp_into_rtranclp)

theorem tower_well_formed_witness:
  "tower_wf pair_lockout (sample_tower [(1, 2), (2, 1)]) \<and> (\<exists>t'. process_next_vote_slot pair_lockout (sample_tower [(1, 2), (2, 1)]) 3 = Some t')"
  using tower_well_formed [OF pair_lockout_ok sample_tower_steps(1)] by simp

theorem tower_keeps_lockouts_witness:
  "vote_settled pair_lockout None [(9, 1)] (2, 1)"
  using tower_keeps_lockouts [OF pair_lockout_ok sample_tower_steps] by (simp add: sample_tower_def)

end
