(* ===== verification/Vote_State.thy ===== *)
theory Vote_State
  imports Vote_Tower
begin

text \<open>
  The vote program's state transitions (\<^verbatim>\<open>programs/vote/src/vote_state/mod.rs\<close>): what it checks of a proposed
  tower against the slot hashes and the current vote state, and how it installs it. The vote state, landed votes and
  their methods are of the vote interface crate: \<open>vote_state\<close> has the fields the code uses and \<open>vs_rest\<close> for all others,
  and the methods are the fields of \<open>vote_api\<close>, an argument of the definitions. Indices into lists are natural
  numbers; \<open>None\<close> is a panic. An operation that fails returns no state: the transaction is rolled back.
\<close>

section \<open>Types\<close>

type_synonym i64 = "64 word"

datatype vote_error =
    VoteTooOld | SlotsMismatch | SlotHashMismatch | EmptySlots | TimestampTooOld | TooManyVotes | VotesTooOldAllFiltered
  | RootRollBack | ConfirmationRollBack | SlotSmallerThanRoot | ConfirmationTooLarge | ZeroConfirmations
  | ConfirmationsNotOrdered | SlotsNotOrdered | NewVoteStateLockoutMismatch | LockoutConflict | RootOnDifferentFork
  | ActiveVoteAccountClose | CommissionUpdateTooLate | AssertionFailed

record 'l landed_vote =
  latency :: u8
  lockout :: 'l

record ('l, 'p, 'r) vote_state =
  votes :: "'l landed_vote list"
  root_slot :: "u64 option"
  node_pubkey :: 'p
  authorized_withdrawer :: 'p
  commission :: u8
  epoch_credits :: "(u64 \<times> u64 \<times> u64) list"
  vs_rest :: 'r

record 'h vote =
  v_slots :: "u64 list"
  v_hash :: 'h
  v_timestamp :: "i64 option"

text \<open>A vote state update; a tower sync also carries a block id.\<close>

record ('l, 'h) vote_state_update =
  vsu_lockouts :: "'l list"
  vsu_root :: "u64 option"
  vsu_hash :: 'h
  vsu_timestamp :: "i64 option"

record ('l, 'h) tower_sync =
  ts_lockouts :: "'l list"
  ts_root :: "u64 option"
  ts_hash :: 'h
  ts_timestamp :: "i64 option"
  ts_block_id :: 'h

record ('l, 'p, 'r, 'h) vote_api =
  lock :: "'l lockout_api"
  landed_from :: "'l \<Rightarrow> 'l landed_vote"
  landed_into :: "'l landed_vote \<Rightarrow> 'l"
  landed_slot :: "'l landed_vote \<Rightarrow> u64"
  landed_confirmation_count :: "'l landed_vote \<Rightarrow> u32"
  contains_slot :: "('l, 'p, 'r) vote_state \<Rightarrow> u64 \<Rightarrow> bool"
  last_voted_slot :: "('l, 'p, 'r) vote_state \<Rightarrow> u64 option"
  current_epoch :: "('l, 'p, 'r) vote_state \<Rightarrow> u64"
  credits_for_vote_at_index :: "('l, 'p, 'r) vote_state \<Rightarrow> nat \<Rightarrow> u64"
  compute_vote_latency :: "u64 \<Rightarrow> u64 \<Rightarrow> u8"
  increment_credits :: "('l, 'p, 'r) vote_state \<Rightarrow> u64 \<Rightarrow> u64 \<Rightarrow> ('l, 'p, 'r) vote_state"
  process_timestamp :: "('l, 'p, 'r) vote_state \<Rightarrow> u64 \<Rightarrow> i64 \<Rightarrow> vote_error + ('l, 'p, 'r) vote_state"
  vs_process_next_vote_slot :: "('l, 'p, 'r) vote_state \<Rightarrow> u64 \<Rightarrow> u64 \<Rightarrow> u64 \<Rightarrow> ('l, 'p, 'r) vote_state"
  update_slots :: "('l, 'h) vote_state_update \<Rightarrow> u64 list"
  update_last_voted_slot :: "('l, 'h) vote_state_update \<Rightarrow> u64 option"
  sync_slots :: "('l, 'h) tower_sync \<Rightarrow> u64 list"
  sync_last_voted_slot :: "('l, 'h) tower_sync \<Rightarrow> u64 option"
  vote_last_voted_slot :: "'h vote \<Rightarrow> u64 option"
  hash_default :: 'h

text \<open>The documented behaviour: a landed vote is its lockout with a latency, which is 0 at first; a vote earns
  at most 16 credits; the methods that award
  credits and record the time leave the votes, the root, the authority and the commission alone.\<close>

definition slots_of :: "('l, 'p, 'r, 'h) vote_api \<Rightarrow> 'l landed_vote list \<Rightarrow> u64 list" where
  "slots_of api vs = map (\<lambda>v. lockout_slot (lock api) (lockout v)) vs"

definition same_tower :: "('l, 'p, 'r) vote_state \<Rightarrow> ('l, 'p, 'r) vote_state \<Rightarrow> bool" where
  "same_tower s t \<longleftrightarrow> votes s = votes t \<and> root_slot s = root_slot t \<and> node_pubkey s = node_pubkey t \<and>
     authorized_withdrawer s = authorized_withdrawer t \<and> commission s = commission t"

definition vote_api_ok :: "('l, 'p, 'r, 'h) vote_api \<Rightarrow> bool" where
  "vote_api_ok api \<longleftrightarrow>
     lockout_ok (lock api) \<and>
     (\<forall>l. landed_from api l = \<lparr>latency = 0, lockout = l\<rparr>) \<and>
     (\<forall>v. landed_into api v = lockout v) \<and>
     (\<forall>v. landed_slot api v = lockout_slot (lock api) (lockout v)) \<and>
     (\<forall>v. landed_confirmation_count api v = confirmation_count (lock api) (lockout v)) \<and>
     (\<forall>s slot. sorted_wrt (<) (slots_of api (votes s)) \<longrightarrow> contains_slot api s slot \<longleftrightarrow> slot \<in> set (slots_of api (votes s))) \<and>
     (\<forall>s. last_voted_slot api s = (if votes s = [] then None else Some (last (slots_of api (votes s))))) \<and>
     (\<forall>s i. credits_for_vote_at_index api s i \<le> 16) \<and>
     (\<forall>s epoch credits. same_tower (increment_credits api s epoch credits) s) \<and>
     (\<forall>s slot ts s'. process_timestamp api s slot ts = Inr s' \<longrightarrow> same_tower s' s \<and> epoch_credits s' = epoch_credits s)"

section \<open>Vote transactions\<close>

datatype ('l, 'h) vote_transaction =
    Vote "'h vote"
  | VoteStateUpdate "('l, 'h) vote_state_update"
  | CompactVoteStateUpdate "('l, 'h) vote_state_update"
  | TowerSync "('l, 'h) tower_sync"

fun vt_slots :: "('l, 'p, 'r, 'h) vote_api \<Rightarrow> ('l, 'h) vote_transaction \<Rightarrow> u64 list" where
  "vt_slots api (Vote vote) = v_slots vote"
| "vt_slots api (VoteStateUpdate vote_state_update) = update_slots api vote_state_update"
| "vt_slots api (CompactVoteStateUpdate vote_state_update) = update_slots api vote_state_update"
| "vt_slots api (TowerSync tower_sync) = sync_slots api tower_sync"

definition nth_checked :: "'a list \<Rightarrow> nat \<Rightarrow> 'a option" where
  "nth_checked xs i = (if i < length xs then Some (xs ! i) else None)"

fun vt_slot :: "('l, 'p, 'r, 'h) vote_api \<Rightarrow> ('l, 'h) vote_transaction \<Rightarrow> nat \<Rightarrow> u64 option" where
  "vt_slot api (Vote vote) i = nth_checked (v_slots vote) i"
| "vt_slot api (VoteStateUpdate vote_state_update) i =
     map_option (lockout_slot (lock api)) (nth_checked (vsu_lockouts vote_state_update) i)"
| "vt_slot api (CompactVoteStateUpdate vote_state_update) i =
     map_option (lockout_slot (lock api)) (nth_checked (vsu_lockouts vote_state_update) i)"
| "vt_slot api (TowerSync tower_sync) i = map_option (lockout_slot (lock api)) (nth_checked (ts_lockouts tower_sync) i)"

fun vt_len :: "('l, 'h) vote_transaction \<Rightarrow> nat" where
  "vt_len (Vote vote) = length (v_slots vote)"
| "vt_len (VoteStateUpdate vote_state_update) = length (vsu_lockouts vote_state_update)"
| "vt_len (CompactVoteStateUpdate vote_state_update) = length (vsu_lockouts vote_state_update)"
| "vt_len (TowerSync tower_sync) = length (ts_lockouts tower_sync)"

fun vt_is_empty :: "('l, 'h) vote_transaction \<Rightarrow> bool" where
  "vt_is_empty (Vote vote) \<longleftrightarrow> v_slots vote = []"
| "vt_is_empty (VoteStateUpdate vote_state_update) \<longleftrightarrow> vsu_lockouts vote_state_update = []"
| "vt_is_empty (CompactVoteStateUpdate vote_state_update) \<longleftrightarrow> vsu_lockouts vote_state_update = []"
| "vt_is_empty (TowerSync tower_sync) \<longleftrightarrow> ts_lockouts tower_sync = []"

fun vt_hash :: "('l, 'h) vote_transaction \<Rightarrow> 'h" where
  "vt_hash (Vote vote) = v_hash vote"
| "vt_hash (VoteStateUpdate vote_state_update) = vsu_hash vote_state_update"
| "vt_hash (CompactVoteStateUpdate vote_state_update) = vsu_hash vote_state_update"
| "vt_hash (TowerSync tower_sync) = ts_hash tower_sync"

fun vt_timestamp :: "('l, 'h) vote_transaction \<Rightarrow> i64 option" where
  "vt_timestamp (Vote vote) = v_timestamp vote"
| "vt_timestamp (VoteStateUpdate vote_state_update) = vsu_timestamp vote_state_update"
| "vt_timestamp (CompactVoteStateUpdate vote_state_update) = vsu_timestamp vote_state_update"
| "vt_timestamp (TowerSync tower_sync) = ts_timestamp tower_sync"

fun vt_set_timestamp :: "('l, 'h) vote_transaction \<Rightarrow> i64 option \<Rightarrow> ('l, 'h) vote_transaction" where
  "vt_set_timestamp (Vote vote) ts = Vote (vote\<lparr>v_timestamp := ts\<rparr>)"
| "vt_set_timestamp (VoteStateUpdate vote_state_update) ts = VoteStateUpdate (vote_state_update\<lparr>vsu_timestamp := ts\<rparr>)"
| "vt_set_timestamp (CompactVoteStateUpdate vote_state_update) ts = CompactVoteStateUpdate (vote_state_update\<lparr>vsu_timestamp := ts\<rparr>)"
| "vt_set_timestamp (TowerSync tower_sync) ts = TowerSync (tower_sync\<lparr>ts_timestamp := ts\<rparr>)"

fun vt_last_voted_slot :: "('l, 'p, 'r, 'h) vote_api \<Rightarrow> ('l, 'h) vote_transaction \<Rightarrow> u64 option" where
  "vt_last_voted_slot api (Vote vote) = vote_last_voted_slot api vote"
| "vt_last_voted_slot api (VoteStateUpdate vote_state_update) = update_last_voted_slot api vote_state_update"
| "vt_last_voted_slot api (CompactVoteStateUpdate vote_state_update) = update_last_voted_slot api vote_state_update"
| "vt_last_voted_slot api (TowerSync tower_sync) = sync_last_voted_slot api tower_sync"

definition vt_last_voted_slot_hash :: "('l, 'p, 'r, 'h) vote_api \<Rightarrow> ('l, 'h) vote_transaction \<Rightarrow> (u64 \<times> 'h) option" where
  "vt_last_voted_slot_hash api self = map_option (\<lambda>slot. (slot, vt_hash self)) (vt_last_voted_slot api self)"

text \<open>The tower of a vote state.\<close>

definition tower_from_vote_state :: "('l, 'p, 'r, 'h) vote_api \<Rightarrow> ('l, 'p, 'r) vote_state \<Rightarrow> 'l tower_vote_state" where
  "tower_from_vote_state api vote_state = \<lparr>tower_votes = map (landed_into api) (votes vote_state), tower_root = root_slot vote_state\<rparr>"

section \<open>The proposed tower against the slot hashes\<close>

definition adjust_root :: "('l, 'p, 'r, 'h) vote_api \<Rightarrow> ('l, 'p, 'r) vote_state \<Rightarrow> u64 \<Rightarrow> u64 option \<Rightarrow> u64 option" where
  "adjust_root api vote_state earliest_slot_hash_in_history proposed_root =
     (case proposed_root of
        Some root \<Rightarrow>
          if root < earliest_slot_hash_in_history then
            (case find (\<lambda>vote. landed_slot api vote \<le> root) (rev (votes vote_state)) of
               Some vote \<Rightarrow> Some (landed_slot api vote)
             | None \<Rightarrow> root_slot vote_state)
          else Some root
      | None \<Rightarrow> None)"

text \<open>The loop over the proposed lockouts (index \<open>i\<close>, upwards) and the slot hashes (index \<open>j\<close>, downwards). It gives
  both indices and the indices of the lockouts to filter out.\<close>

function check_loop :: "('l, 'p, 'r, 'h) vote_api \<Rightarrow> ('l, 'p, 'r) vote_state \<Rightarrow> 'l list \<Rightarrow> (u64 \<times> 'h) list \<Rightarrow> u64 \<Rightarrow>
    u64 option \<Rightarrow> nat \<Rightarrow> nat \<Rightarrow> nat list \<Rightarrow> (vote_error, nat \<times> nat \<times> nat list) outcome" where
  "check_loop api vote_state proposed_lockouts slot_hashes earliest root_to_check i j to_filter =
     (if i < length proposed_lockouts \<and> j > 0 then
        (let proposed_vote_slot = (case root_to_check of Some root \<Rightarrow> root | None \<Rightarrow> lockout_slot (lock api) (proposed_lockouts ! i))
         in if root_to_check = None \<and> i > 0 \<and> proposed_vote_slot \<le> lockout_slot (lock api) (proposed_lockouts ! (i - 1))
         then Some (Inl SlotsNotOrdered)
         else (let ancestor_slot = fst (slot_hashes ! (j - 1)) in
           if proposed_vote_slot < ancestor_slot then
             (if j = length slot_hashes then
                (if proposed_vote_slot \<ge> earliest then Some (Inl AssertionFailed)
                 else (let to_filter = (if \<not> contains_slot api vote_state proposed_vote_slot \<and> root_to_check = None
                                        then to_filter @ [i] else to_filter) in
                   case root_to_check of
                     Some new_proposed_root \<Rightarrow>
                       if new_proposed_root \<noteq> proposed_vote_slot then None
                       else if new_proposed_root \<ge> earliest then Some (Inl AssertionFailed)
                       else check_loop api vote_state proposed_lockouts slot_hashes earliest None i j to_filter
                   | None \<Rightarrow> check_loop api vote_state proposed_lockouts slot_hashes earliest None (i + 1) j to_filter))
              else if root_to_check \<noteq> None then Some (Inl RootOnDifferentFork)
              else Some (Inl SlotsMismatch))
           else if proposed_vote_slot > ancestor_slot then
             check_loop api vote_state proposed_lockouts slot_hashes earliest root_to_check i (j - 1) to_filter
           else (case root_to_check of
               Some root \<Rightarrow> check_loop api vote_state proposed_lockouts slot_hashes earliest None i j to_filter
             | None \<Rightarrow> check_loop api vote_state proposed_lockouts slot_hashes earliest None (i + 1) (j - 1) to_filter)))
      else Some (Inr (i, j, to_filter)))"
  by pat_completeness auto
termination
  by (relation "measure (\<lambda>(api, vote_state, ls, hs, earliest, r, i, j, f). (length ls - i) + j + (if r = None then 0 else 1))") auto

declare check_loop.simps [simp del]

text \<open>The closure that drops the lockouts at the indices collected.\<close>

primrec retain_from :: "nat list \<Rightarrow> nat \<Rightarrow> nat \<Rightarrow> 'l list \<Rightarrow> 'l list" where
  "retain_from to_filter i filter_votes_index [] = []"
| "retain_from to_filter i filter_votes_index (l # ls) =
     (if filter_votes_index = length to_filter then l # retain_from to_filter (i + 1) filter_votes_index ls
      else if i = to_filter ! filter_votes_index then retain_from to_filter (i + 1) (filter_votes_index + 1) ls
      else l # retain_from to_filter (i + 1) filter_votes_index ls)"

definition check_and_filter_proposed_vote_state ::
  "('l, 'p, 'r, 'h) vote_api \<Rightarrow> ('l, 'p, 'r) vote_state \<Rightarrow> 'l list \<Rightarrow> u64 option \<Rightarrow> 'h \<Rightarrow> (u64 \<times> 'h) list \<Rightarrow>
     (vote_error, 'l list \<times> u64 option) outcome" where
  "check_and_filter_proposed_vote_state api vote_state proposed_lockouts proposed_root proposed_hash slot_hashes =
     (if proposed_lockouts = [] then Some (Inl EmptySlots)
      else
        (let last_proposed_slot = lockout_slot (lock api) (last proposed_lockouts) in
         if votes vote_state \<noteq> [] \<and> last_proposed_slot \<le> landed_slot api (last (votes vote_state)) then Some (Inl VoteTooOld)
         else if slot_hashes = [] then Some (Inl SlotsMismatch)
         else
           (let earliest = fst (last slot_hashes) in
            if last_proposed_slot < earliest then Some (Inl VoteTooOld)
            else
              (let proposed_root = adjust_root api vote_state earliest proposed_root in
               obind (check_loop api vote_state proposed_lockouts slot_hashes earliest proposed_root 0 (length slot_hashes) [])
                 (\<lambda>(i, j, to_filter).
                    if i \<noteq> length proposed_lockouts then Some (Inl SlotsMismatch)
                    else if \<not> j < length slot_hashes then None
                    else if last_proposed_slot \<noteq> fst (slot_hashes ! j) then None
                    else if snd (slot_hashes ! j) \<noteq> proposed_hash then Some (Inl SlotHashMismatch)
                    else Some (Inr (retain_from to_filter 0 0 proposed_lockouts, proposed_root)))))))"

section \<open>Votes against the slot hashes\<close>

function slots_loop :: "u64 option \<Rightarrow> u64 list \<Rightarrow> (u64 \<times> 'h) list \<Rightarrow> nat \<Rightarrow> nat \<Rightarrow> nat \<times> nat" where
  "slots_loop last_voted vote_slots slot_hashes i j =
     (if i < length vote_slots \<and> j > 0 then
        (if (case last_voted of Some last_slot \<Rightarrow> vote_slots ! i \<le> last_slot | None \<Rightarrow> False)
         then slots_loop last_voted vote_slots slot_hashes (i + 1) j
         else if vote_slots ! i \<noteq> fst (slot_hashes ! (j - 1)) then slots_loop last_voted vote_slots slot_hashes i (j - 1)
         else slots_loop last_voted vote_slots slot_hashes (i + 1) (j - 1))
      else (i, j))"
  by pat_completeness auto
termination
  by (relation "measure (\<lambda>(l, vs, hs, i, j). (length vs - i) + j)") auto

declare slots_loop.simps [simp del]

definition check_slots_are_valid ::
  "('l, 'p, 'r, 'h) vote_api \<Rightarrow> ('l, 'p, 'r) vote_state \<Rightarrow> u64 list \<Rightarrow> 'h \<Rightarrow> (u64 \<times> 'h) list \<Rightarrow> (vote_error, unit) outcome" where
  "check_slots_are_valid api vote_state vote_slots vote_hash slot_hashes =
     (case slots_loop (last_voted_slot api vote_state) vote_slots slot_hashes 0 (length slot_hashes) of
        (i, j) \<Rightarrow>
          if j = length slot_hashes then Some (Inl VoteTooOld)
          else if i \<noteq> length vote_slots then Some (Inl SlotsMismatch)
          else if \<not> j < length slot_hashes then None
          else if snd (slot_hashes ! j) \<noteq> vote_hash then Some (Inl SlotHashMismatch)
          else Some (Inr ()))"

section \<open>Installing a new tower\<close>

text \<open>The checks of the new votes one by one, each against the one before.\<close>

definition check_vote :: "('l, 'p, 'r, 'h) vote_api \<Rightarrow> u64 option \<Rightarrow> 'l landed_vote \<Rightarrow> vote_error option" where
  "check_vote api new_root vote =
     (if landed_confirmation_count api vote = 0 then Some ZeroConfirmations
      else if landed_confirmation_count api vote > of_nat (MAX_LOCKOUT_HISTORY (lock api)) then Some ConfirmationTooLarge
      else (case new_root of
          Some new_root \<Rightarrow> if landed_slot api vote \<le> new_root \<and> new_root \<noteq> 0 then Some SlotSmallerThanRoot else None
        | None \<Rightarrow> None))"

definition check_consecutive :: "('l, 'p, 'r, 'h) vote_api \<Rightarrow> 'l landed_vote \<Rightarrow> 'l landed_vote \<Rightarrow> vote_error option" where
  "check_consecutive api previous_vote vote =
     (if landed_slot api previous_vote \<ge> landed_slot api vote then Some SlotsNotOrdered
      else if landed_confirmation_count api previous_vote \<le> landed_confirmation_count api vote then Some ConfirmationsNotOrdered
      else if landed_slot api vote > last_locked_out_slot (lock api) (lockout previous_vote) then Some NewVoteStateLockoutMismatch
      else None)"

fun check_new_votes :: "('l, 'p, 'r, 'h) vote_api \<Rightarrow> u64 option \<Rightarrow> 'l landed_vote option \<Rightarrow> 'l landed_vote list \<Rightarrow> vote_error option" where
  "check_new_votes api new_root previous_vote [] = None"
| "check_new_votes api new_root previous_vote (vote # vs) =
     (case check_vote api new_root vote of
        Some e \<Rightarrow> Some e
      | None \<Rightarrow>
          (case (case previous_vote of Some previous_vote \<Rightarrow> check_consecutive api previous_vote vote | None \<Rightarrow> None) of
             Some e \<Rightarrow> Some e
           | None \<Rightarrow> check_new_votes api new_root (Some vote) vs))"

text \<open>The votes that the new root roots: how many there are, and the credits they earn. \<open>None\<close> is an overflow of the
  sum.\<close>

fun earn_credits :: "('l, 'p, 'r, 'h) vote_api \<Rightarrow> ('l, 'p, 'r) vote_state \<Rightarrow> u64 \<Rightarrow> 'l landed_vote list \<Rightarrow> nat \<Rightarrow> u64 \<Rightarrow>
    (nat \<times> u64) option" where
  "earn_credits api vote_state new_root [] index earned_credits = Some (index, earned_credits)"
| "earn_credits api vote_state new_root (current_vote # vs) index earned_credits =
     (if landed_slot api current_vote \<le> new_root then
        (case checked_add earned_credits (credits_for_vote_at_index api vote_state index) of
           None \<Rightarrow> None
         | Some earned_credits \<Rightarrow> earn_credits api vote_state new_root vs (index + 1) earned_credits)
      else Some (index, earned_credits))"

text \<open>The walk over the current and the new votes, from the given indices.\<close>

function match_votes :: "('l, 'p, 'r, 'h) vote_api \<Rightarrow> 'l landed_vote list \<Rightarrow> nat \<Rightarrow> nat \<Rightarrow> 'l landed_vote list \<Rightarrow>
    vote_error + 'l landed_vote list" where
  "match_votes api current ci ni new_state =
     (if ci < length current \<and> ni < length new_state then
        (let current_vote = current ! ci; new_vote = new_state ! ni in
         if landed_slot api current_vote < landed_slot api new_vote then
           (if last_locked_out_slot (lock api) (lockout current_vote) \<ge> landed_slot api new_vote then Inl LockoutConflict
            else match_votes api current (ci + 1) ni new_state)
         else if landed_slot api current_vote = landed_slot api new_vote then
           (if landed_confirmation_count api new_vote < landed_confirmation_count api current_vote then Inl ConfirmationRollBack
            else match_votes api current (ci + 1) (ni + 1) (new_state[ni := new_vote\<lparr>latency := latency (current ! ci)\<rparr>]))
         else match_votes api current ci (ni + 1) new_state)
      else Inr new_state)"
  by pat_completeness auto
termination
  by (relation "measure (\<lambda>(api, current, ci, ni, new_state). (length current - ci) + (length new_state - ni))") auto

declare match_votes.simps [simp del]

definition set_latency :: "('l, 'p, 'r, 'h) vote_api \<Rightarrow> u64 \<Rightarrow> 'l landed_vote \<Rightarrow> 'l landed_vote" where
  "set_latency api current_slot new_vote =
     (if latency new_vote = 0 then new_vote\<lparr>latency := compute_vote_latency api (landed_slot api new_vote) current_slot\<rparr> else new_vote)"

text \<open>The change of the vote state at the end.\<close>

definition install_votes :: "('l, 'p, 'r, 'h) vote_api \<Rightarrow> ('l, 'p, 'r) vote_state \<Rightarrow> 'l landed_vote list \<Rightarrow> u64 option \<Rightarrow> i64 option \<Rightarrow>
    u64 \<Rightarrow> u64 \<Rightarrow> vote_error + ('l, 'p, 'r) vote_state" where
  "install_votes api vote_state new_state new_root timestamp epoch earned_credits =
     (let s = (if root_slot vote_state \<noteq> new_root then increment_credits api vote_state epoch earned_credits else vote_state) in
      rbind (case timestamp of
          Some ts \<Rightarrow> process_timestamp api s (landed_slot api (last new_state)) ts
        | None \<Rightarrow> Inr s)
        (\<lambda>s. Inr (s\<lparr>root_slot := new_root, votes := new_state\<rparr>)))"

definition process_new_vote_state :: "('l, 'p, 'r, 'h) vote_api \<Rightarrow> ('l, 'p, 'r) vote_state \<Rightarrow> 'l landed_vote list \<Rightarrow> u64 option \<Rightarrow>
    i64 option \<Rightarrow> u64 \<Rightarrow> u64 \<Rightarrow> (vote_error, ('l, 'p, 'r) vote_state) outcome" where
  "process_new_vote_state api vote_state new_state new_root timestamp epoch current_slot =
     (if new_state = [] then None
      else if length new_state > MAX_LOCKOUT_HISTORY (lock api) then Some (Inl TooManyVotes)
      else if (case (new_root, root_slot vote_state) of
             (Some new_root, Some current_root) \<Rightarrow> new_root < current_root
           | (None, Some current_root) \<Rightarrow> True
           | (new_root, None) \<Rightarrow> False) then Some (Inl RootRollBack)
      else
        (case check_new_votes api new_root None new_state of
           Some e \<Rightarrow> Some (Inl e)
         | None \<Rightarrow>
             (case (case new_root of
                      Some new_root \<Rightarrow> earn_credits api vote_state new_root (votes vote_state) 0 0
                    | None \<Rightarrow> Some (0, 0)) of
                None \<Rightarrow> None
              | Some (index, earned_credits) \<Rightarrow>
                  obind (Some (match_votes api (votes vote_state) index 0 new_state))
                    (\<lambda>new_state. Some (install_votes api vote_state (map (set_latency api current_slot) new_state) new_root timestamp
                        epoch earned_credits)))))"

section \<open>Processing votes\<close>

definition process_vote_unfiltered :: "('l, 'p, 'r, 'h) vote_api \<Rightarrow> ('l, 'p, 'r) vote_state \<Rightarrow> u64 list \<Rightarrow> 'h vote \<Rightarrow> (u64 \<times> 'h) list \<Rightarrow>
    u64 \<Rightarrow> u64 \<Rightarrow> (vote_error, ('l, 'p, 'r) vote_state) outcome" where
  "process_vote_unfiltered api vote_state slots vote slot_hashes epoch current_slot =
     obind (check_slots_are_valid api vote_state slots (v_hash vote) slot_hashes)
       (\<lambda>_. Some (Inr (fold (\<lambda>s vote_state. vs_process_next_vote_slot api vote_state s epoch current_slot) slots vote_state)))"

definition process_vote :: "('l, 'p, 'r, 'h) vote_api \<Rightarrow> ('l, 'p, 'r) vote_state \<Rightarrow> 'h vote \<Rightarrow> (u64 \<times> 'h) list \<Rightarrow>
    u64 \<Rightarrow> u64 \<Rightarrow> (vote_error, ('l, 'p, 'r) vote_state) outcome" where
  "process_vote api vote_state vote slot_hashes epoch current_slot =
     (if v_slots vote = [] then Some (Inl EmptySlots)
      else
        (let earliest_slot_in_history = (if slot_hashes = [] then 0 else fst (last slot_hashes));
             slots = filter (\<lambda>slot. slot \<ge> earliest_slot_in_history) (v_slots vote)
         in if slots = [] then Some (Inl VotesTooOldAllFiltered)
            else process_vote_unfiltered api vote_state slots vote slot_hashes epoch current_slot))"

definition process_vote_unchecked :: "('l, 'p, 'r, 'h) vote_api \<Rightarrow> ('l, 'p, 'r) vote_state \<Rightarrow> 'h vote \<Rightarrow>
    (vote_error, ('l, 'p, 'r) vote_state) outcome" where
  "process_vote_unchecked api vote_state vote =
     (if v_slots vote = [] then Some (Inl EmptySlots)
      else
        (let slot_hashes = map (\<lambda>x. (x, v_hash vote)) (rev (v_slots vote))
         in process_vote_unfiltered api vote_state (v_slots vote) vote slot_hashes (current_epoch api vote_state) 0))"

text \<open>An error is dropped and leaves the state as it was.\<close>

definition process_slot_vote_unchecked :: "('l, 'p, 'r, 'h) vote_api \<Rightarrow> ('l, 'p, 'r) vote_state \<Rightarrow> u64 \<Rightarrow> ('l, 'p, 'r) vote_state option" where
  "process_slot_vote_unchecked api vote_state slot =
     (case process_vote_unchecked api vote_state \<lparr>v_slots = [slot], v_hash = hash_default api, v_timestamp = None\<rparr> of
        None \<Rightarrow> None
      | Some (Inl e) \<Rightarrow> Some vote_state
      | Some (Inr vote_state) \<Rightarrow> Some vote_state)"

definition do_process_vote_state_update :: "('l, 'p, 'r, 'h) vote_api \<Rightarrow> ('l, 'p, 'r) vote_state \<Rightarrow> (u64 \<times> 'h) list \<Rightarrow> u64 \<Rightarrow> u64 \<Rightarrow>
    ('l, 'h) vote_state_update \<Rightarrow> (vote_error, ('l, 'p, 'r) vote_state) outcome" where
  "do_process_vote_state_update api vote_state slot_hashes epoch slot update =
     obind (check_and_filter_proposed_vote_state api vote_state (vsu_lockouts update) (vsu_root update) (vsu_hash update) slot_hashes)
       (\<lambda>(lockouts, root). process_new_vote_state api vote_state (map (landed_from api) lockouts) root (vsu_timestamp update) epoch slot)"

definition do_process_tower_sync :: "('l, 'p, 'r, 'h) vote_api \<Rightarrow> ('l, 'p, 'r) vote_state \<Rightarrow> (u64 \<times> 'h) list \<Rightarrow> u64 \<Rightarrow> u64 \<Rightarrow>
    ('l, 'h) tower_sync \<Rightarrow> (vote_error, ('l, 'p, 'r) vote_state) outcome" where
  "do_process_tower_sync api vote_state slot_hashes epoch slot tower_sync =
     obind (check_and_filter_proposed_vote_state api vote_state (ts_lockouts tower_sync) (ts_root tower_sync) (ts_hash tower_sync) slot_hashes)
       (\<lambda>(lockouts, root). process_new_vote_state api vote_state (map (landed_from api) lockouts) root (ts_timestamp tower_sync) epoch slot)"

end
