(* ===== verification/Vote_Check.thy ===== *)
theory Vote_Check
  imports Vote_State
begin

text \<open>
  What the vote program accepts of a proposed tower: the walk over lockouts and slot hashes decides exactly whether the lockouts
  are ordered and each one is in the history or older than it, and it never panics.
\<close>

section \<open>The walk\<close>

definition hist :: "(u64 \<times> 'h) list \<Rightarrow> u64 list" where
  "hist slot_hashes = map fst slot_hashes"

definition lslots :: "('l, 'p, 'r, 'h) vote_api \<Rightarrow> 'l list \<Rightarrow> u64 list" where
  "lslots api ls = map (lockout_slot (lock api)) ls"

lemma hist_length [simp]: "length (hist hs) = length hs"
  by (simp add: hist_def)

lemma lslots_length [simp]: "length (lslots api ls) = length ls"
  by (simp add: lslots_def)

definition old_indices :: "('l, 'p, 'r, 'h) vote_api \<Rightarrow> ('l, 'p, 'r) vote_state \<Rightarrow> u64 list \<Rightarrow> u64 \<Rightarrow> nat \<Rightarrow> nat list" where
  "old_indices api s slots e i = filter (\<lambda>k. slots ! k < e \<and> \<not> contains_slot api s (slots ! k)) [i..<length slots]"

text \<open>A lockout at index \<open>k\<close> that the walk at index \<open>j\<close> of the history gets past.\<close>

definition passes :: "u64 list \<Rightarrow> u64 list \<Rightarrow> u64 \<Rightarrow> nat \<Rightarrow> nat \<Rightarrow> bool" where
  "passes slots h e j k \<longleftrightarrow> (0 < k \<longrightarrow> slots ! (k - 1) < slots ! k) \<and> (slots ! k \<in> set (take j h) \<or> j = length h \<and> slots ! k < e)"

lemma last_history:
  assumes "0 < length hs"
  shows "last (hist hs) = hist hs ! (length hs - 1)"
  using assms last_conv_nth [of "hist hs"] by (cases hs) (simp_all add: hist_def)

lemma loop_None:
  assumes "i < length ls" and "0 < j" and "j \<le> length hs" and "e = last (hist hs)"
  shows "check_loop api s ls hs e None i j f =
    (if 0 < i \<and> lslots api ls ! i \<le> lslots api ls ! (i - 1) then Some (Inl SlotsNotOrdered)
     else if lslots api ls ! i < hist hs ! (j - 1) then
       (if j = length hs then
          check_loop api s ls hs e None (i + 1) j (if \<not> contains_slot api s (lslots api ls ! i) then f @ [i] else f)
        else Some (Inl SlotsMismatch))
     else if lslots api ls ! i > hist hs ! (j - 1) then check_loop api s ls hs e None i (j - 1) f
     else check_loop api s ls hs e None (i + 1) (j - 1) f)"
proof -
  have nth: "lockout_slot (lock api) (ls ! i) = lslots api ls ! i" "lockout_slot (lock api) (ls ! (i - 1)) = lslots api ls ! (i - 1)"
    "fst (hs ! (j - 1)) = hist hs ! (j - 1)"
    using assms(1-3) by (simp_all add: lslots_def hist_def)
  have e: "e = hist hs ! (j - 1)" if "j = length hs" using that assms(2,4) last_history [of hs] by simp
  note step = check_loop.simps [of api s ls hs e None i j f, unfolded Let_def option.case nth]
  consider "0 < i \<and> lslots api ls ! i \<le> lslots api ls ! (i - 1)"
    | "\<not> (0 < i \<and> lslots api ls ! i \<le> lslots api ls ! (i - 1))" "lslots api ls ! i < hist hs ! (j - 1)" "j = length hs"
    | "\<not> (0 < i \<and> lslots api ls ! i \<le> lslots api ls ! (i - 1))" "lslots api ls ! i < hist hs ! (j - 1)" "j \<noteq> length hs"
    | "\<not> (0 < i \<and> lslots api ls ! i \<le> lslots api ls ! (i - 1))" "\<not> lslots api ls ! i < hist hs ! (j - 1)" by blast
  then show ?thesis
  proof cases
    case 1
    with assms(1,2) show ?thesis unfolding step by simp
  next
    case 2
    then have "\<not> e \<le> lslots api ls ! i" using e by simp
    with 2 assms(1,2) show ?thesis unfolding step by auto
  next
    case 3
    with assms(1,2) show ?thesis unfolding step by simp
  next
    case 4
    with assms(1,2) show ?thesis unfolding step by auto
  qed
qed

lemma loop_end: "\<not> (i < length ls \<and> 0 < j) \<Longrightarrow> check_loop api s ls hs e r i j f = Some (Inr (i, j, f))"
  by (subst check_loop.simps) (rule if_not_P)

lemma take_desc:
  assumes "sorted_wrt (>) (h :: u64 list)" and "0 < j" and "j \<le> length h" and "x \<in> set (take j h)"
  shows "h ! (j - 1) \<le> x" and "h ! (j - 1) < x \<Longrightarrow> x \<in> set (take (j - 1) h)"
proof -
  obtain k where k: "k < j" "x = h ! k" using assms(3,4) by (auto simp: in_set_conv_nth)
  show "h ! (j - 1) \<le> x"
    using assms(1-3) k sorted_wrt_nth_less [OF assms(1), of k "j - 1"] by (cases "k = j - 1") (auto simp: less_imp_le)
  assume "h ! (j - 1) < x"
  with k have "k < j - 1" by (cases "k = j - 1") auto
  then show "x \<in> set (take (j - 1) h)" using k(2) assms(3) by (auto simp: in_set_conv_nth intro!: exI [of _ k])
qed

lemma take_desc_back:
  assumes "sorted_wrt (>) (h :: u64 list)" and "0 < j" and "j \<le> length h" and "x \<in> set (take (j - 1) h)"
  shows "x \<in> set (take j h)" and "h ! (j - 1) < x"
proof -
  obtain k where k: "k < j - 1" "x = h ! k" using assms(3,4) by (auto simp: in_set_conv_nth)
  show "x \<in> set (take j h)" using k assms(3) by (auto simp: in_set_conv_nth intro!: exI [of _ k])
  show "h ! (j - 1) < x" using sorted_wrt_nth_less [OF assms(1), of k "j - 1"] assms(2,3) k by simp
qed

lemma passes_back:
  assumes "sorted_wrt (>) h" and "0 < j" and "j \<le> length h" and "passes slots h e (j - 1) k"
  shows "passes slots h e j k"
  using assms take_desc_back(1) [OF assms(1-3)] by (auto simp: passes_def)

text \<open>What the walk gives when it gets past every lockout.\<close>

definition walked :: "('l, 'p, 'r, 'h) vote_api \<Rightarrow> ('l, 'p, 'r) vote_state \<Rightarrow> 'l list \<Rightarrow> (u64 \<times> 'h) list \<Rightarrow> u64 \<Rightarrow> nat \<Rightarrow> nat \<Rightarrow> nat list \<Rightarrow>
    nat \<Rightarrow> nat list \<Rightarrow> bool" where
  "walked api s ls hs e i j f j' f' \<longleftrightarrow>
     (\<forall>k. i \<le> k \<and> k < length ls \<longrightarrow> passes (lslots api ls) (hist hs) e j k) \<and>
     f' = f @ old_indices api s (lslots api ls) e i \<and>
     (i < length ls \<longrightarrow> last (lslots api ls) \<ge> e \<longrightarrow> j' < length hs \<and> hist hs ! j' = last (lslots api ls))"

lemma old_indices_step:
  "i < length slots \<Longrightarrow> old_indices api s slots e i =
     (if slots ! i < e \<and> \<not> contains_slot api s (slots ! i) then [i] else []) @ old_indices api s slots e (i + 1)"
  by (simp add: old_indices_def upt_conv_Cons)

lemma walk_sound:
  assumes desc: "sorted_wrt (>) (hist hs)" and e: "e = last (hist hs)"
    and "j \<le> length hs" and "i \<le> length ls" and "check_loop api s ls hs e None i j f = Some (Inr (length ls, j', f'))"
  shows "walked api s ls hs e i j f j' f'"
  using assms(3-5)
proof (induction "length ls - i + j" arbitrary: i j f rule: less_induct)
  case less
  let ?L = "lslots api ls" and ?H = "hist hs"
  show ?case
  proof (cases "i < length ls \<and> 0 < j")
    case False
    then have "i = length ls" "f' = f" using less.prems(3) loop_end [OF False, of api s hs e None f] by simp_all
    then show ?thesis by (auto simp: walked_def old_indices_def)
  next
    case True
    then have ij: "i < length ls" "0 < j" by simp_all
    have le: "e \<le> x" if "x \<in> set ?H" for x
      using take_desc(1) [OF desc, of "length hs" x] that ij less.prems(1) last_history [of hs] by (cases hs) (simp_all add: e)
    note eq = loop_None [OF ij less.prems(1) e, of api s f]
    have ord: "0 < i \<longrightarrow> ?L ! (i - 1) < ?L ! i" using less.prems(3) unfolding eq by (auto split: if_splits)
    have succ: "?L ! i = last ?L" if "i + 1 = length ls" using that ij last_conv_nth [of ?L] by (cases ls) (auto simp: lslots_def)
    consider (less) "?L ! i < ?H ! (j - 1)" "j = length hs"
        "check_loop api s ls hs e None (i + 1) j (if \<not> contains_slot api s (?L ! i) then f @ [i] else f) = Some (Inr (length ls, j', f'))"
      | (greater) "?H ! (j - 1) < ?L ! i" "check_loop api s ls hs e None i (j - 1) f = Some (Inr (length ls, j', f'))"
      | (equal) "?L ! i = ?H ! (j - 1)" "check_loop api s ls hs e None (i + 1) (j - 1) f = Some (Inr (length ls, j', f'))"
      using less.prems(3) unfolding eq by (auto split: if_splits)
    then show ?thesis
    proof cases
      case less
      then have old: "?L ! i < e" using e last_history [of hs] ij(2) by simp
      from less.hyps [OF _ _ _ less(3)] ij less.prems
      have IH: "walked api s ls hs e (i + 1) j (if \<not> contains_slot api s (?L ! i) then f @ [i] else f) j' f'" by simp
      have "passes ?L ?H e j k" if "i \<le> k" "k < length ls" for k
        using that IH ord old less(2) by (cases "k = i") (auto simp: walked_def passes_def)
      moreover have "f' = f @ old_indices api s ?L e i" using IH old ij(1) by (simp add: walked_def old_indices_step)
      ultimately show ?thesis using IH old succ ij(1) by (cases "i + 1 = length ls") (auto simp: walked_def)
    next
      case greater
      from less.hyps [OF _ _ _ greater(2)] ij less.prems have IH: "walked api s ls hs e i (j - 1) f j' f'" by simp
      have "passes ?L ?H e j k" if "i \<le> k" "k < length ls" for k
        using that IH passes_back [OF desc ij(2)] less.prems(1) by (simp add: walked_def)
      then show ?thesis using IH by (simp add: walked_def)
    next
      case equal
      from less.hyps [OF _ _ _ equal(2)] ij less.prems have IH: "walked api s ls hs e (i + 1) (j - 1) f j' f'" by simp
      have here: "?L ! i \<in> set (take j ?H)" using equal(1) ij(2) less.prems(1) by (auto simp: in_set_conv_nth intro!: exI [of _ "j - 1"])
      then have "\<not> ?L ! i < e" using le [of "?L ! i"] by (auto dest: in_set_takeD)
      then have "f' = f @ old_indices api s ?L e i" using IH ij(1) by (simp add: walked_def old_indices_step)
      moreover have "passes ?L ?H e j k" if "i \<le> k" "k < length ls" for k
      proof (cases "k = i")
        case True
        then show ?thesis using ord here by (simp add: passes_def)
      next
        case False
        then have "passes ?L ?H e (j - 1) k" using that IH by (simp add: walked_def)
        then show ?thesis using passes_back [OF desc ij(2)] less.prems(1) by simp
      qed
      moreover have "j' = j - 1" if "i + 1 = length ls"
        using equal(2) that loop_end [of "i + 1" ls "j - 1" api s hs e None f] by simp
      ultimately show ?thesis using IH equal(1) succ ij less.prems(1) by (cases "i + 1 = length ls") (auto simp: walked_def)
    qed
  qed
qed

lemma walk_complete:
  assumes desc: "sorted_wrt (>) (hist hs)" and e: "e = last (hist hs)"
    and "j \<le> length hs" and "i \<le> length ls" and "\<And>k. i \<le> k \<Longrightarrow> k < length ls \<Longrightarrow> passes (lslots api ls) (hist hs) e j k"
    and asc: "sorted_wrt (<) (lslots api ls)" and "hs \<noteq> []"
  shows "\<exists>j' f'. check_loop api s ls hs e None i j f = Some (Inr (length ls, j', f'))"
  using assms(3-5)
proof (induction "length ls - i + j" arbitrary: i j f rule: less_induct)
  case less
  let ?L = "lslots api ls" and ?H = "hist hs"
  show ?case
  proof (cases "i < length ls")
    case False
    then show ?thesis using less.prems loop_end [of i ls j api s hs e None f] by simp
  next
    case True
    have p: "passes ?L ?H e j i" using less.prems(3) [of i] True by simp
    then have j: "0 < j" using assms(7) by (cases j) (auto simp: passes_def hist_def)
    have ord: "\<not> (0 < i \<and> ?L ! i \<le> ?L ! (i - 1))" using p by (auto simp: passes_def)
    note eq = loop_None [OF True j less.prems(1) e, of api s f]
    have later: "?L ! i < ?L ! k" if "i < k" "k < length ls" for k using sorted_wrt_nth_less [OF asc that(1)] that by simp
    have last: "e = ?H ! (j - 1)" if "j = length hs" using that j last_history [of hs] by (simp add: e)
    have up: "passes ?L ?H e (j - 1) k" if "i \<le> k" "k < length ls" "?H ! (j - 1) < ?L ! k" for k
      using less.prems(3) [OF that(1,2)] that(3) take_desc(2) [OF desc j, of "?L ! k"] less.prems(1) last by (auto simp: passes_def)
    consider (less) "?L ! i < ?H ! (j - 1)" | (greater) "?H ! (j - 1) < ?L ! i" | (equal) "?L ! i = ?H ! (j - 1)" by fastforce
    then show ?thesis
    proof cases
      case less
      then have "j = length hs" using p take_desc(1) [OF desc j, of "?L ! i"] less.prems(1) by (auto simp: passes_def)
      with less ord less.hyps [of "i + 1" j] less.prems True show ?thesis unfolding eq by simp
    next
      case greater
      have "passes ?L ?H e (j - 1) k" if "i \<le> k" "k < length ls" for k
        using up [OF that] later [of k] greater that by (cases "k = i") auto
      with greater ord less.hyps [of i "j - 1"] less.prems(1,2) j show ?thesis unfolding eq by auto
    next
      case equal
      have "passes ?L ?H e (j - 1) k" if "i + 1 \<le> k" "k < length ls" for k
        using up [of k] later [of k] equal that by auto
      with equal ord less.hyps [of "i + 1" "j - 1"] less.prems(1) True j show ?thesis unfolding eq by auto
    qed
  qed
qed

lemma walk_no_panic:
  assumes "e = last (hist hs)" and "j \<le> length hs"
  shows "check_loop api s ls hs e None i j f \<noteq> None"
  using assms(2)
proof (induction "length ls - i + j" arbitrary: i j f rule: less_induct)
  case less
  show ?case
  proof (cases "i < length ls \<and> 0 < j")
    case True
    then have eq: "0 < j" "i < length ls" by simp_all
    show ?thesis unfolding loop_None [OF eq(2,1) less.prems assms(1)] using eq less by auto
  next
    case False
    then show ?thesis by (simp add: loop_end)
  qed
qed

section \<open>The proposed root\<close>

lemma loop_Some:
  assumes "0 < length ls" and "0 < j" and "j \<le> length hs" and "e = last (hist hs)"
  shows "check_loop api s ls hs e (Some r) 0 j f =
    (if r < hist hs ! (j - 1) then (if j = length hs then check_loop api s ls hs e None 0 j f else Some (Inl RootOnDifferentFork))
     else if r > hist hs ! (j - 1) then check_loop api s ls hs e (Some r) 0 (j - 1) f
     else check_loop api s ls hs e None 0 j f)"
proof -
  have nth: "fst (hs ! (j - 1)) = hist hs ! (j - 1)" using assms(2,3) by (simp add: hist_def)
  note step = check_loop.simps [of api s ls hs e "Some r" 0 j f, unfolded Let_def option.case nth]
  show ?thesis
  proof (cases "r < hist hs ! (j - 1) \<and> j = length hs")
    case True
    then have "\<not> e \<le> r" using assms(2,4) last_history [of hs] by auto
    with True assms(1,2) show ?thesis unfolding step by simp
  next
    case False
    with assms(1,2) show ?thesis unfolding step by auto
  qed
qed

lemma root_found:
  assumes desc: "sorted_wrt (>) (hist hs)" and e: "e = last (hist hs)" and "0 < length ls" and "j \<le> length hs" and "m < j"
  shows "check_loop api s ls hs e (Some (hist hs ! m)) 0 j f = check_loop api s ls hs e None 0 (m + 1) f"
  using assms(4,5)
proof (induction j)
  case (Suc j)
  show ?case
  proof (cases "m = j")
    case True
    then show ?thesis using loop_Some [OF assms(3) _ Suc.prems(1) e, of api s "hist hs ! m" f] by simp
  next
    case False
    then have "m < j" "hist hs ! j < hist hs ! m" "\<not> hist hs ! m < hist hs ! j"
      using Suc.prems sorted_wrt_nth_less [OF desc, of m j] by auto
    then show ?thesis using loop_Some [OF assms(3) _ Suc.prems(1) e, of api s "hist hs ! m" f] Suc by simp
  qed
qed simp

lemma root_missing:
  assumes e: "e = last (hist hs)" and "0 < length ls" and "j \<le> length hs" and "r \<notin> set (take j (hist hs))" and "j = length hs \<longrightarrow> \<not> r < e"
  shows "check_loop api s ls hs e (Some r) 0 j f \<in> {Some (Inl RootOnDifferentFork), Some (Inr (0, 0, f))}"
  using assms(3-5)
proof (induction j)
  case 0
  then show ?case by (simp add: loop_end)
next
  case (Suc j)
  have "hist hs ! j \<in> set (take (Suc j) (hist hs))" using Suc.prems(1) by (auto simp: in_set_conv_nth)
  with Suc.prems(2) have ne: "r \<noteq> hist hs ! j" by auto
  have "r \<notin> set (take j (hist hs))" using Suc.prems(2) set_take_subset_set_take [of j "Suc j" "hist hs"] by auto
  moreover have "\<not> r < hist hs ! j" if "Suc j = length hs" using Suc.prems(3) that last_history [of hs] by (cases hs) (auto simp: e)
  ultimately show ?case using loop_Some [OF assms(2) _ Suc.prems(1) e, of api s r f] Suc ne by auto
qed

text \<open>The root a walk starts with is found in the history or is older.\<close>

definition root_passes :: "u64 list \<Rightarrow> u64 \<Rightarrow> u64 option \<Rightarrow> u64 list \<Rightarrow> bool" where
  "root_passes h e root slots \<longleftrightarrow>
     (case root of None \<Rightarrow> True | Some r \<Rightarrow> r < e \<or> r \<in> set h \<and> (\<forall>slot \<in> set slots. r \<le> slot \<or> r = e \<and> slot < e))"

lemma walk_from_root:
  assumes "sorted_wrt (>) (hist hs)" and "e = last (hist hs)" and "0 < length ls" and "hs \<noteq> []"
  shows "(\<exists>j0. 0 < j0 \<and> j0 \<le> length hs \<and> check_loop api s ls hs e root 0 (length hs) f = check_loop api s ls hs e None 0 j0 f \<and>
      (case root of None \<Rightarrow> j0 = length hs | Some r \<Rightarrow> j0 = length hs \<and> r < e \<or> r = hist hs ! (j0 - 1))) \<or>
    (\<exists>r. root = Some r \<and> \<not> r < e \<and> r \<notin> set (hist hs)) \<and>
      check_loop api s ls hs e root 0 (length hs) f \<in> {Some (Inl RootOnDifferentFork), Some (Inr (0, 0, f))}"
proof (cases root)
  case None
  then show ?thesis using assms(4) by (intro disjI1 exI [of _ "length hs"]) auto
next
  case (Some r)
  consider "r < e" | m where "m < length hs" "r = hist hs ! m" | "\<not> r < e" "r \<notin> set (hist hs)"
    by (metis hist_length in_set_conv_nth)
  then show ?thesis
  proof cases
    case 1
    then show ?thesis using Some assms last_history [of hs] loop_Some [OF assms(3) _ _ assms(2), of "length hs" api s r f]
      by (intro disjI1 exI [of _ "length hs"]) auto
  next
    case 2
    then show ?thesis using Some root_found [OF assms(1-3) order_refl, of m api s f] by (intro disjI1 exI [of _ "m + 1"]) auto
  next
    case 3
    then show ?thesis using Some root_missing [OF assms(2,3) order_refl, of r api s f] by auto
  qed
qed

section \<open>What is accepted\<close>

lemma in_take_desc:
  assumes "sorted_wrt (>) (h :: u64 list)" and "0 < j" and "j \<le> length h"
  shows "x \<in> set (take j h) \<longleftrightarrow> x \<in> set h \<and> h ! (j - 1) \<le> x"
proof
  assume "x \<in> set h \<and> h ! (j - 1) \<le> x"
  then obtain k where k: "k < length h" "x = h ! k" "h ! (j - 1) \<le> x" by (auto simp: in_set_conv_nth)
  have "k < j"
  proof (rule ccontr)
    assume "\<not> k < j"
    then have "j - 1 < k" using assms(2) by linarith
    from sorted_wrt_nth_less [OF assms(1) this k(1)] k(2,3) show False by simp
  qed
  then show "x \<in> set (take j h)" using k(1,2) assms(3) by (metis in_set_conv_nth length_take min_less_iff_conj nth_take)
qed (use take_desc(1) [OF assms] in \<open>auto dest: in_set_takeD\<close>)

lemma passes_all:
  assumes desc: "sorted_wrt (>) h" and e: "e = last h" and j: "0 < j" "j \<le> length h"
  shows "(\<forall>k < length slots. passes slots h e j k) \<longleftrightarrow>
    sorted_wrt (<) slots \<and> (\<forall>slot \<in> set slots. (slot < e \<or> slot \<in> set h) \<and> (h ! (j - 1) \<le> slot \<or> h ! (j - 1) = e \<and> slot < e))"
proof -
  have last: "e = h ! (length h - 1)" using e j last_conv_nth [of h] by (cases h) auto
  have low: "e \<le> x" if "x \<in> set h" for x using take_desc(1) [OF desc, of "length h" x] j that last by (cases h) simp_all
  have end_iff: "h ! (j - 1) = e \<longleftrightarrow> j = length h"
  proof (cases "j = length h")
    case False
    with j have "j - 1 < length h - 1" "length h - 1 < length h" by linarith+
    from sorted_wrt_nth_less [OF desc this] show ?thesis using False last by auto
  qed (simp add: last)
  have here: "e \<le> h ! (j - 1)" using low j by simp
  have p: "(slot \<in> set (take j h) \<or> j = length h \<and> slot < e) \<longleftrightarrow>
      (slot < e \<or> slot \<in> set h) \<and> (h ! (j - 1) \<le> slot \<or> h ! (j - 1) = e \<and> slot < e)" for slot
  proof (cases "slot < e")
    case True
    then have "slot \<notin> set h" "\<not> h ! (j - 1) \<le> slot" using low [of slot] here by auto
    then show ?thesis unfolding in_take_desc [OF desc j] end_iff using True by simp
  next
    case False
    then show ?thesis unfolding in_take_desc [OF desc j] by simp
  qed
  have "(\<forall>k < length slots. 0 < k \<longrightarrow> slots ! (k - 1) < slots ! k) \<longleftrightarrow> sorted_wrt (<) slots"
    unfolding sorted_wrt_iff_nth_Suc_transp [OF transp_on_less] by (metis One_nat_def Suc_pred diff_Suc_1 zero_less_Suc)
  then show ?thesis unfolding passes_def p all_set_conv_all_nth by blast
qed

definition proposal_ok :: "('l, 'p, 'r, 'h) vote_api \<Rightarrow> ('l, 'p, 'r) vote_state \<Rightarrow> 'l list \<Rightarrow> u64 option \<Rightarrow> 'h \<Rightarrow> (u64 \<times> 'h) list \<Rightarrow> bool" where
  "proposal_ok api s ls root hash hs \<longleftrightarrow>
     ls \<noteq> [] \<and> hs \<noteq> [] \<and> sorted_wrt (<) (lslots api ls) \<and>
     (votes s \<noteq> [] \<longrightarrow> landed_slot api (last (votes s)) < last (lslots api ls)) \<and>
     (last (lslots api ls), hash) \<in> set hs \<and>
     (\<forall>slot \<in> set (lslots api ls). slot < last (hist hs) \<or> slot \<in> set (hist hs)) \<and>
     root_passes (hist hs) (last (hist hs)) (adjust_root api s (last (hist hs)) root) (lslots api ls)"

definition relevant :: "('l, 'p, 'r, 'h) vote_api \<Rightarrow> ('l, 'p, 'r) vote_state \<Rightarrow> (u64 \<times> 'h) list \<Rightarrow> 'l list \<Rightarrow> 'l list" where
  "relevant api s hs ls =
     filter (\<lambda>l. last (hist hs) \<le> lockout_slot (lock api) l \<or> contains_slot api s (lockout_slot (lock api) l)) ls"

lemma retain_from_filter:
  assumes "drop f F = filter (\<lambda>k. \<not> P (ls ! (k - i))) [i..<i + length ls]" and "f \<le> length F"
  shows "retain_from F i f ls = filter P ls"
  using assms
proof (induction ls arbitrary: i f)
  case (Cons l ls)
  have tl: "filter (\<lambda>k. \<not> P ((l # ls) ! (k - i))) [Suc i..<Suc i + length ls] = filter (\<lambda>k. \<not> P (ls ! (k - Suc i))) [Suc i..<Suc i + length ls]"
    by (intro filter_cong) (auto simp: nth_Cons')
  have upt: "[i..<i + length (l # ls)] = i # [Suc i..<Suc i + length ls]" using upt_conv_Cons [of i "i + length (l # ls)"] by simp
  have head: "drop f F = (if P l then [] else [i]) @ filter (\<lambda>k. \<not> P (ls ! (k - Suc i))) [Suc i..<Suc i + length ls]"
    using Cons.prems(1) unfolding upt filter.simps(2) tl by simp
  show ?case
  proof (cases "P l")
    case True
    then have "drop f F = filter (\<lambda>k. \<not> P (ls ! (k - Suc i))) [Suc i..<Suc i + length ls]" using head by simp
    moreover have "F ! f \<noteq> i" if "f < length F"
    proof -
      have "F ! f \<in> set (drop f F)" using Cons_nth_drop_Suc [OF that] by (metis list.set_intros(1))
      then show ?thesis using calculation by auto
    qed
    ultimately show ?thesis using Cons.IH [of f "Suc i"] Cons.prems(2) True by auto
  next
    case False
    then have d: "drop f F = i # filter (\<lambda>k. \<not> P (ls ! (k - Suc i))) [Suc i..<Suc i + length ls]" using head by simp
    then have "f < length F" by (metis Cons.prems(2) drop_all le_neq_implies_less list.distinct(1) order_refl)
    with d have "F ! f = i" "drop (Suc f) F = filter (\<lambda>k. \<not> P (ls ! (k - Suc i))) [Suc i..<Suc i + length ls]"
      using Cons_nth_drop_Suc by (metis list.inject)+
    then show ?thesis using Cons.IH [of "Suc f" "Suc i"] False \<open>f < length F\<close> by simp
  qed
qed simp

lemma retain_relevant:
  assumes "f = old_indices api s (lslots api ls) (last (hist hs)) 0"
  shows "retain_from f 0 0 ls = relevant api s hs ls"
  unfolding relevant_def
proof (rule retain_from_filter)
  show "drop 0 f = filter (\<lambda>k. \<not> (last (hist hs) \<le> lockout_slot (lock api) (ls ! (k - 0)) \<or> contains_slot api s (lockout_slot (lock api) (ls ! (k - 0))))) [0..<0 + length ls]"
    using assms by (auto simp: old_indices_def lslots_def not_le intro!: filter_cong)
qed simp

lemma history_low:
  assumes "sorted_wrt (>) (hist hs)" and "x \<in> set (hist hs)"
  shows "last (hist hs) \<le> x"
  using take_desc(1) [OF assms(1), of "length hs" x] assms(2) last_history [of hs] by (cases hs) (simp_all add: hist_def)

lemma hash_unique:
  assumes "sorted_wrt (>) (hist hs)" and "j < length hs"
  shows "(hist hs ! j, hash) \<in> set hs \<longleftrightarrow> snd (hs ! j) = hash"
proof
  assume "(hist hs ! j, hash) \<in> set hs"
  then obtain k where k: "k < length hs" "hs ! k = (hist hs ! j, hash)" by (auto simp: in_set_conv_nth)
  then have "hist hs ! k = hist hs ! j" by (simp add: hist_def)
  then have "k = j" using sorted_wrt_nth_less [OF assms(1), of k j] sorted_wrt_nth_less [OF assms(1), of j k] k(1) assms(2)
    by (cases k j rule: linorder_cases) auto
  with k show "snd (hs ! j) = hash" by simp
next
  assume "snd (hs ! j) = hash"
  then have "hs ! j = (hist hs ! j, hash)" using assms(2) by (simp add: hist_def prod_eq_iff)
  then show "(hist hs ! j, hash) \<in> set hs" using nth_mem [OF assms(2)] by simp
qed

text \<open>The outcome of the walk from the proposed root.\<close>

lemma walk_outcome:
  assumes desc: "sorted_wrt (>) (hist hs)" and e: "e = last (hist hs)" and ls: "0 < length ls" and hs: "hs \<noteq> []"
  shows "check_loop api s ls hs e root 0 (length hs) [] \<noteq> None \<and>
    ((\<exists>j f. check_loop api s ls hs e root 0 (length hs) [] = Some (Inr (length ls, j, f))) \<longleftrightarrow>
      sorted_wrt (<) (lslots api ls) \<and> (\<forall>slot \<in> set (lslots api ls). slot < e \<or> slot \<in> set (hist hs)) \<and>
      root_passes (hist hs) e root (lslots api ls)) \<and>
    (\<forall>j f. check_loop api s ls hs e root 0 (length hs) [] = Some (Inr (length ls, j, f)) \<longrightarrow>
      f = old_indices api s (lslots api ls) e 0 \<and> (e \<le> last (lslots api ls) \<longrightarrow> j < length hs \<and> hist hs ! j = last (lslots api ls)))"
  using walk_from_root [OF desc e ls hs, of api s root "[]"]
proof (elim disjE exE conjE)
  fix j0 assume j0: "0 < j0" "j0 \<le> length hs"
    and loop: "check_loop api s ls hs e root 0 (length hs) [] = check_loop api s ls hs e None 0 j0 []"
    and root: "case root of None \<Rightarrow> j0 = length hs | Some r \<Rightarrow> j0 = length hs \<and> r < e \<or> r = hist hs ! (j0 - 1)"
  let ?H = "hist hs" and ?L = "lslots api ls"
  have at: "?H ! (j0 - 1) \<in> set ?H" "e \<le> ?H ! (j0 - 1)" using j0 history_low [OF desc] by (simp_all add: e)
  have "?H ! (length hs - 1) = e" using last_history [of hs] hs by (simp add: e)
  with root at have rp: "root_passes ?H e root ?L \<longleftrightarrow> (\<forall>slot \<in> set ?L. ?H ! (j0 - 1) \<le> slot \<or> ?H ! (j0 - 1) = e \<and> slot < e)"
    by (auto simp: root_passes_def not_less split: option.splits)
  have all: "(\<forall>k < length ls. passes ?L ?H e j0 k) \<longleftrightarrow> sorted_wrt (<) ?L \<and> (\<forall>slot \<in> set ?L. slot < e \<or> slot \<in> set ?H) \<and> root_passes ?H e root ?L"
    using passes_all [OF desc e j0(1), of ?L] j0(2) unfolding rp by auto
  have sound: "walked api s ls hs e 0 j0 [] j f" if "check_loop api s ls hs e None 0 j0 [] = Some (Inr (length ls, j, f))" for j f
    by (rule walk_sound [OF desc e j0(2) _ that]) simp
  have "(\<exists>j f. check_loop api s ls hs e None 0 j0 [] = Some (Inr (length ls, j, f))) \<longleftrightarrow> (\<forall>k < length ls. passes ?L ?H e j0 k)"
    using walk_complete [OF desc e j0(2), of 0 ls api s "[]"] all hs sound by (auto simp: walked_def)
  then show ?thesis unfolding loop all using walk_no_panic [OF e j0(2), of api s ls 0 "[]"] sound ls by (auto simp: walked_def)
next
  fix r assume "root = Some r" "\<not> r < e" "r \<notin> set (hist hs)"
    "check_loop api s ls hs e root 0 (length hs) [] \<in> {Some (Inl RootOnDifferentFork), Some (Inr (0, 0, []))}"
  then show ?thesis using ls by (auto simp: root_passes_def)
qed

lemma check_accepts_iff:
  assumes desc: "sorted_wrt (>) (hist hs)"
  shows "check_and_filter_proposed_vote_state api s ls root hash hs \<noteq> None \<and>
    (check_and_filter_proposed_vote_state api s ls root hash hs = Some (Inr (ls', root')) \<longleftrightarrow>
      proposal_ok api s ls root hash hs \<and> ls' = relevant api s hs ls \<and> root' = adjust_root api s (last (hist hs)) root)"
proof (cases "ls \<noteq> [] \<and> hs \<noteq> [] \<and> (votes s \<noteq> [] \<longrightarrow> landed_slot api (last (votes s)) < last (lslots api ls)) \<and> last (hist hs) \<le> last (lslots api ls)")
  case False
  have "last (hist hs) \<le> last (lslots api ls)" if "(last (lslots api ls), hash) \<in> set hs"
    using history_low [OF desc] that by (force simp: hist_def)
  with False have "\<not> proposal_ok api s ls root hash hs" by (auto simp: proposal_ok_def)
  with False show ?thesis
    by (auto simp: check_and_filter_proposed_vote_state_def lslots_def hist_def last_map Let_def not_le not_less)
next
  case True
  let ?e = "last (hist hs)" and ?L = "lslots api ls" and ?r = "adjust_root api s (last (hist hs)) root"
  let ?loop = "check_loop api s ls hs ?e ?r 0 (length hs) []"
  have def: "check_and_filter_proposed_vote_state api s ls root hash hs =
      obind ?loop (\<lambda>(i, j, f). if i \<noteq> length ls then Some (Inl SlotsMismatch) else if \<not> j < length hs then None
        else if last ?L \<noteq> fst (hs ! j) then None else if snd (hs ! j) \<noteq> hash then Some (Inl SlotHashMismatch)
        else Some (Inr (retain_from f 0 0 ls, ?r)))"
  proof -
    have "lockout_slot (lock api) (last ls) = last ?L" "fst (last hs) = ?e" using True by (simp_all add: lslots_def hist_def last_map)
    moreover have "\<not> (votes s \<noteq> [] \<and> last ?L \<le> landed_slot api (last (votes s)))" "\<not> last ?L < ?e" using True by auto
    ultimately show ?thesis unfolding check_and_filter_proposed_vote_state_def Let_def using True by (simp only: if_False simp_thms)
  qed
  have ok: "proposal_ok api s ls root hash hs \<longleftrightarrow> (last ?L, hash) \<in> set hs \<and> (\<exists>j f. ?loop = Some (Inr (length ls, j, f)))"
    using walk_outcome [OF desc refl, of ls api s ?r] True by (auto simp: proposal_ok_def)
  have out: "?loop \<noteq> None" "\<And>j f. ?loop = Some (Inr (length ls, j, f)) \<Longrightarrow>
      f = old_indices api s ?L ?e 0 \<and> j < length hs \<and> hist hs ! j = last ?L"
    using walk_outcome [OF desc refl, of ls api s ?r] True by auto
  obtain x where x: "?loop = Some x" using out(1) by blast
  show ?thesis
  proof (cases "\<exists>j f. x = Inr (length ls, j, f)")
    case True
    then obtain j f where jf: "?loop = Some (Inr (length ls, j, f))" using x by blast
    from out(2) [OF jf] have j: "j < length hs" "hist hs ! j = last ?L" "retain_from f 0 0 ls = relevant api s hs ls" "fst (hs ! j) = last ?L"
      using retain_relevant [of f api s ls hs] by (simp_all add: hist_def) (metis nth_map)
    have "(last ?L, hash) \<in> set hs \<longleftrightarrow> snd (hs ! j) = hash" using hash_unique [OF desc j(1), of hash] j(2) by simp
    then show ?thesis unfolding def ok jf using j jf by auto
  next
    case False
    then show ?thesis unfolding def ok x by (cases x) auto
  qed
qed

section \<open>Property\<close>

text \<open>C16. The vote program accepts a proposed tower exactly when its slots increase, its last slot is newer than the last vote and
  in the slot hashes with the proposed hash, every slot is in the slot hashes or older than all of them, and so is the root, with no slot between the
  oldest slot hash and the root. What is kept of the tower are the slots in the history and the older ones the vote state already has.
  Checking never panics.\<close>

theorem check_and_filter_exact:
  assumes "sorted_wrt (>) (map fst slot_hashes)"
  shows "check_and_filter_proposed_vote_state api vote_state lockouts root hash slot_hashes \<noteq> None \<and>
    (check_and_filter_proposed_vote_state api vote_state lockouts root hash slot_hashes = Some (Inr (lockouts', root')) \<longleftrightarrow>
      proposal_ok api vote_state lockouts root hash slot_hashes \<and> lockouts' = relevant api vote_state slot_hashes lockouts \<and>
      root' = adjust_root api vote_state (last (map fst slot_hashes)) root)"
  using check_accepts_iff [of slot_hashes] assms unfolding hist_def by blast

section \<open>Witness\<close>

text \<open>An interface on lockouts as pairs; the state has nothing beyond the fields the code uses.\<close>

definition pair_vote :: "(u64 \<times> u32, nat, unit, nat) vote_api" where
  "pair_vote = \<lparr>lock = pair_lockout, landed_from = (\<lambda>l. \<lparr>latency = 0, lockout = l\<rparr>), landed_into = lockout,
     landed_slot = (\<lambda>v. fst (lockout v)), landed_confirmation_count = (\<lambda>v. snd (lockout v)),
     contains_slot = (\<lambda>s slot. slot \<in> set (map (\<lambda>v. fst (lockout v)) (votes s))),
     last_voted_slot = (\<lambda>s. if votes s = [] then None else Some (last (map (\<lambda>v. fst (lockout v)) (votes s)))),
     current_epoch = (\<lambda>s. 0), credits_for_vote_at_index = (\<lambda>s i. 1), compute_vote_latency = (\<lambda>a b. 1),
     increment_credits = (\<lambda>s epoch credits. s\<lparr>epoch_credits := epoch_credits s @ [(epoch, credits, 0)]\<rparr>),
     process_timestamp = (\<lambda>s slot ts. Inr s), vs_process_next_vote_slot = (\<lambda>s slot epoch current. s),
     update_slots = (\<lambda>u. map fst (vsu_lockouts u)), update_last_voted_slot = (\<lambda>u. None), sync_slots = (\<lambda>u. map fst (ts_lockouts u)),
     sync_last_voted_slot = (\<lambda>u. None), vote_last_voted_slot = (\<lambda>v. None), hash_default = 0\<rparr>"

lemma pair_vote_ok: "vote_api_ok pair_vote"
  using pair_lockout_ok
  by (simp add: vote_api_ok_def pair_vote_def slots_of_def same_tower_def pair_lockout_def)

definition sample_state :: "(u64 \<times> u32) landed_vote list \<Rightarrow> (u64 \<times> u32, nat, unit) vote_state" where
  "sample_state vs = \<lparr>votes = vs, root_slot = None, node_pubkey = 1, authorized_withdrawer = 2, commission = 0, epoch_credits = [], vs_rest = ()\<rparr>"

theorem check_and_filter_exact_witness:
  "check_and_filter_proposed_vote_state pair_vote (sample_state []) [(3, 3), (5, 2), (7, 1)] None 42 [(7, 42), (6, 41), (5, 40)]
     = Some (Inr ([(5, 2), (7, 1)], None))"
proof -
  have "proposal_ok pair_vote (sample_state []) [(3, 3), (5, 2), (7, 1)] None 42 [(7, 42), (6, 41), (5, 40)]"
    by (simp add: proposal_ok_def lslots_def hist_def root_passes_def adjust_root_def pair_vote_def pair_lockout_def sample_state_def)
  moreover have "relevant pair_vote (sample_state []) [(7, 42), (6, 41), (5, 40)] [(3, 3), (5, 2), (7, 1)] = [(5, 2), (7, 1)]"
    by (simp add: relevant_def hist_def pair_vote_def pair_lockout_def sample_state_def)
  ultimately show ?thesis
    using check_and_filter_exact [of "[(7, 42), (6, 41), (5, 40)]" pair_vote "sample_state []" "[(3, 3), (5, 2), (7, 1)]" None 42]
    by (simp add: adjust_root_def)
qed

end
