(* ===== verification/Vote_Correct.thy ===== *)
theory Vote_Correct
  imports Vote_Check
begin

text \<open>
  What the vote program installs: the new tower is well ordered, no vote of the old one is taken back before its lockout
  has passed and the root never moves back; and the tower a validator builds by voting is always accepted.
\<close>

section \<open>The interface\<close>

lemma vote_api_laws:
  assumes "vote_api_ok api"
  shows "lockout_ok (lock api)" and "landed_from api l = \<lparr>latency = 0, lockout = l\<rparr>" and "landed_into api v = lockout v"
    and "landed_slot api v = lockout_slot (lock api) (lockout v)"
    and "landed_confirmation_count api v = confirmation_count (lock api) (lockout v)"
    and "credits_for_vote_at_index api s i \<le> 16"
  using assms unfolding vote_api_ok_def by blast+

lemma vote_api_state_laws:
  assumes "vote_api_ok api"
  shows "sorted_wrt (<) (slots_of api (votes s)) \<Longrightarrow> contains_slot api s slot \<longleftrightarrow> slot \<in> set (slots_of api (votes s))"
    and "last_voted_slot api s = (if votes s = [] then None else Some (last (slots_of api (votes s))))"
    and "same_tower (increment_credits api s epoch credits) s"
    and "process_timestamp api s slot ts = Inr s' \<Longrightarrow> same_tower s' s"
  using assms unfolding vote_api_ok_def by blast+

definition tower_of :: "('l, 'p, 'r) vote_state \<Rightarrow> 'l list" where
  "tower_of s = map lockout (votes s)"

section \<open>The checks of the new votes\<close>

lemma check_new_votes_None:
  "check_new_votes api r prev vs = None \<longleftrightarrow>
     (\<forall>v \<in> set vs. check_vote api r v = None) \<and>
     successively (\<lambda>u v. check_consecutive api u v = None) (case prev of None \<Rightarrow> vs | Some p \<Rightarrow> p # vs)"
proof (induction vs arbitrary: prev)
  case (Cons v vs)
  show ?case using Cons [of "Some v"] by (cases prev) (auto simp: successively_Cons split: option.splits)
qed (simp split: option.splits)

lemma check_vote_None:
  assumes "vote_api_ok api"
  shows "check_vote api r v = None \<longleftrightarrow> 0 < confs (lock api) (lockout v) \<and> confs (lock api) (lockout v) \<le> 31 \<and>
    (\<forall>b. r = Some b \<longrightarrow> b \<noteq> 0 \<longrightarrow> b < lockout_slot (lock api) (lockout v))"
proof -
  have "confirmation_count (lock api) (lockout v) = 0 \<longleftrightarrow> \<not> 0 < confs (lock api) (lockout v)"
    by (simp add: confs_def unat_eq_zero_iff)
  moreover have "of_nat 31 < confirmation_count (lock api) (lockout v) \<longleftrightarrow> \<not> confs (lock api) (lockout v) \<le> 31"
    by (simp add: confs_def word_less_nat_alt not_le)
  ultimately show ?thesis
    unfolding check_vote_def vote_api_laws [OF assms] max_lockout_history [OF vote_api_laws(1) [OF assms]]
    by (auto split: option.splits)
qed

lemma check_consecutive_None:
  assumes "vote_api_ok api"
  shows "check_consecutive api u v = None \<longleftrightarrow>
    lockout_slot (lock api) (lockout u) < lockout_slot (lock api) (lockout v) \<and>
    confs (lock api) (lockout v) < confs (lock api) (lockout u) \<and>
    lockout_slot (lock api) (lockout v) \<le> last_locked_out_slot (lock api) (lockout u)"
  unfolding check_consecutive_def vote_api_laws [OF assms] confs_def by (auto simp: word_less_nat_alt word_le_nat_alt)

lemma check_new_votes_iff:
  assumes "vote_api_ok api"
  shows "check_new_votes api r None vs = None \<longleftrightarrow> ordered_tower (lock api) (map lockout vs) \<and>
    (\<forall>b. r = Some b \<longrightarrow> b \<noteq> 0 \<longrightarrow> (\<forall>v \<in> set vs. b < lockout_slot (lock api) (lockout v)))"
proof -
  let ?P = "\<lambda>u v. lockout_slot (lock api) u < lockout_slot (lock api) v \<and> confs (lock api) v < confs (lock api) u"
  let ?Q = "\<lambda>u v. lockout_slot (lock api) v \<le> last_locked_out_slot (lock api) u"
  have "transp ?P" by (auto intro!: transpI dest: less_trans)
  then have s: "sorted_wrt ?P xs \<longleftrightarrow> successively ?P xs" for xs by (simp add: successively_conv_sorted_wrt)
  have both: "successively (\<lambda>u v. ?P u v \<and> ?Q u v) xs \<longleftrightarrow> successively ?P xs \<and> successively ?Q xs" for xs
    by (induction xs rule: induct_list012) auto
  show ?thesis using both [of "map lockout vs"]
    unfolding check_new_votes_None check_vote_None [OF assms] check_consecutive_None [OF assms] ordered_tower_def s
    by (auto simp: successively_map list_all_iff max_lockout_history [OF vote_api_laws(1) [OF assms]])
qed

section \<open>Credits\<close>

lemma earn_credits_value:
  assumes "vote_api_ok api" and "unat c + 16 * length vs < 2 ^ 64"
  shows "\<exists>c'. earn_credits api s r vs i c = Some (i + length (takeWhile (\<lambda>v. landed_slot api v \<le> r) vs), c')"
  using assms(2)
proof (induction vs arbitrary: i c)
  case (Cons v vs)
  let ?k = "credits_for_vote_at_index api s i"
  have "unat ?k \<le> 16" using vote_api_laws(6) [OF assms(1), of s i] by (simp add: word_le_nat_alt)
  then have "checked_add c ?k = Some (c + ?k)" "unat (c + ?k) = unat c + unat ?k"
    using Cons.prems by (simp_all add: checked_add_def unat_add_no_wrap)
  then show ?case using Cons.IH [of "c + ?k" "i + 1"] Cons.prems \<open>unat ?k \<le> 16\<close> by simp
qed simp

section \<open>The walk over current and new votes\<close>

text \<open>A vote that the new tower keeps with no fewer confirmations, or whose lockout the votes after it are beyond.\<close>

definition vote_kept :: "'l lockout_api \<Rightarrow> 'l list \<Rightarrow> 'l \<Rightarrow> bool" where
  "vote_kept lk ws v \<longleftrightarrow>
     (\<forall>w \<in> set ws. lockout_slot lk w = lockout_slot lk v \<longrightarrow> confs lk v \<le> confs lk w) \<and>
     (lockout_slot lk v \<notin> lockout_slot lk ` set ws \<longrightarrow>
        (\<forall>w \<in> set ws. lockout_slot lk v < lockout_slot lk w \<longrightarrow> last_locked_out_slot lk v < lockout_slot lk w))"

lemma vote_kept_Cons_below:
  assumes "lockout_slot lk w < lockout_slot lk v"
  shows "vote_kept lk (w # ws) v \<longleftrightarrow> vote_kept lk ws v"
  using assms by (auto simp: vote_kept_def)

lemma vote_kept_above:
  assumes "lockout_slot lk v < lockout_slot lk w" and "\<forall>u \<in> set ws. lockout_slot lk w < lockout_slot lk u"
  shows "vote_kept lk (w # ws) v \<longleftrightarrow> last_locked_out_slot lk v < lockout_slot lk w"
proof -
  have "\<forall>u \<in> set (w # ws). lockout_slot lk v < lockout_slot lk u" using assms by (auto dest: less_trans)
  then show ?thesis using assms(2) unfolding vote_kept_def by (fastforce dest: less_trans)
qed

lemma vote_kept_at:
  assumes "lockout_slot lk v = lockout_slot lk w" and "\<forall>u \<in> set ws. lockout_slot lk w < lockout_slot lk u"
  shows "vote_kept lk (w # ws) v \<longleftrightarrow> confs lk v \<le> confs lk w"
  using assms by (auto simp: vote_kept_def)

lemma drop_above:
  assumes "sorted_wrt (<) (slots_of api vs)" and "i < length vs" and "v \<in> set (drop (i + 1) vs)"
  shows "lockout_slot (lock api) (lockout (vs ! i)) < lockout_slot (lock api) (lockout v)"
proof -
  obtain k where "k < length (drop (i + 1) vs)" "v = drop (i + 1) vs ! k" using assms(3) by (auto simp: in_set_conv_nth)
  then have k: "v = vs ! (i + 1 + k)" "i + 1 + k < length vs" using assms(2) by auto
  then show ?thesis using sorted_wrt_nth_less [OF assms(1), of i "i + 1 + k"] by (simp add: slots_of_def)
qed

lemma match_votes_step:
  assumes api: "vote_api_ok api" and "ci < length current" and "ni < length new"
  shows "match_votes api current ci ni new =
    (if lockout_slot (lock api) (lockout (current ! ci)) < lockout_slot (lock api) (lockout (new ! ni)) then
       (if lockout_slot (lock api) (lockout (new ! ni)) \<le> last_locked_out_slot (lock api) (lockout (current ! ci)) then Inl LockoutConflict
        else match_votes api current (ci + 1) ni new)
     else if lockout_slot (lock api) (lockout (current ! ci)) = lockout_slot (lock api) (lockout (new ! ni)) then
       (if confs (lock api) (lockout (new ! ni)) < confs (lock api) (lockout (current ! ci)) then Inl ConfirmationRollBack
        else match_votes api current (ci + 1) (ni + 1) (new[ni := (new ! ni)\<lparr>latency := latency (current ! ci)\<rparr>]))
     else match_votes api current ci (ni + 1) new)"
  using assms(2,3) unfolding match_votes.simps [of api current ci ni new] Let_def vote_api_laws [OF api] confs_def word_less_nat_alt [of "confirmation_count _ _"]
  by simp

lemma same_lockouts: "map lockout (new[i := (new ! i)\<lparr>latency := x\<rparr>]) = map lockout new"
  by (cases "i < length new") (simp_all add: map_update list_update_same_conv list_update_beyond)

lemma slots_of_map: "slots_of api vs = map (lockout_slot (lock api)) (map lockout vs)"
  by (simp add: slots_of_def)

text \<open>The walk keeps all lockouts and checks the current votes it meets.\<close>

lemma match_votes_spec:
  assumes api: "vote_api_ok api" and cur: "sorted_wrt (<) (slots_of api current)"
    and "ci \<le> length current" and "ni \<le> length new" and "sorted_wrt (<) (slots_of api new)"
  shows "(\<forall>new'. match_votes api current ci ni new = Inr new' \<longrightarrow> map lockout new' = map lockout new) \<and>
    ((\<exists>new'. match_votes api current ci ni new = Inr new') \<longleftrightarrow>
      (\<forall>c \<in> set (drop ci current). vote_kept (lock api) (map lockout (drop ni new)) (lockout c)))"
  using assms(3-5)
proof (induction "length current - ci + (length new - ni)" arbitrary: ci ni new rule: less_induct)
  case less
  show ?case
  proof (cases "ci < length current \<and> ni < length new")
    case False
    then have "match_votes api current ci ni new = Inr new" by (subst match_votes.simps) (rule if_not_P)
    moreover have "drop ci current = [] \<or> drop ni new = []" using False by auto
    ultimately show ?thesis by (auto simp: vote_kept_def)
  next
    case True
    let ?c = "current ! ci" and ?n = "new ! ni" and ?slot = "\<lambda>v. lockout_slot (lock api) (lockout v)"
    have d: "drop ci current = ?c # drop (ci + 1) current" "drop ni new = ?n # drop (ni + 1) new"
      using True by (simp_all add: Cons_nth_drop_Suc)
    have above: "\<forall>c \<in> set (drop (ci + 1) current). ?slot ?c < ?slot c" "\<forall>n \<in> set (drop (ni + 1) new). ?slot ?n < ?slot n"
      using drop_above [OF cur] drop_above [OF less.prems(3)] True by blast+
    note step = match_votes_step [OF api, of ci current ni new]
    have m: "length current - (ci + 1) + (length new - ni) < length current - ci + (length new - ni)"
      "length current - ci + (length new - (ni + 1)) < length current - ci + (length new - ni)" "ci + 1 \<le> length current" "ni + 1 \<le> length new"
      using True by linarith+
    then have m2: "length current - (ci + 1) + (length new - (ni + 1)) < length current - ci + (length new - ni)" by linarith
    consider (less) "?slot ?c < ?slot ?n" | (equal) "?slot ?c = ?slot ?n" | (greater) "?slot ?n < ?slot ?c" by fastforce
    then show ?thesis
    proof cases
      case less
      have eq: "match_votes api current ci ni new =
          (if ?slot ?n \<le> last_locked_out_slot (lock api) (lockout ?c) then Inl LockoutConflict else match_votes api current (ci + 1) ni new)"
        using step True less by simp
      have "vote_kept (lock api) (map lockout (drop ni new)) (lockout ?c) \<longleftrightarrow> \<not> ?slot ?n \<le> last_locked_out_slot (lock api) (lockout ?c)"
        using vote_kept_above [OF less, of "map lockout (drop (ni + 1) new)"] above(2) unfolding d(2) by (simp add: not_le)
      then show ?thesis using less.hyps [OF m(1) m(3) less.prems(2,3)] unfolding eq d(1) by simp
    next
      case equal
      let ?new = "new[ni := (new ! ni)\<lparr>latency := latency (current ! ci)\<rparr>]"
      have eq: "match_votes api current ci ni new = (if confs (lock api) (lockout ?n) < confs (lock api) (lockout ?c) then Inl ConfirmationRollBack
          else match_votes api current (ci + 1) (ni + 1) ?new)" using step True equal by simp
      have at: "vote_kept (lock api) (map lockout (drop ni new)) (lockout ?c) \<longleftrightarrow> \<not> confs (lock api) (lockout ?n) < confs (lock api) (lockout ?c)"
        using vote_kept_at [OF equal, of "map lockout (drop (ni + 1) new)"] above(2) unfolding d(2) by (simp add: not_less)
      have "vote_kept (lock api) (map lockout (drop ni new)) (lockout c) \<longleftrightarrow> vote_kept (lock api) (map lockout (drop (ni + 1) new)) (lockout c)"
        if "c \<in> set (drop (ci + 1) current)" for c
        using vote_kept_Cons_below [of "lock api" "lockout ?n" "lockout c"] above(1) that equal unfolding d(2) by simp
      moreover have "sorted_wrt (<) (slots_of api ?new)" using less.prems(3) by (simp only: slots_of_map same_lockouts)
      moreover have "drop (ni + 1) ?new = drop (ni + 1) new" by simp
      ultimately show ?thesis using at less.hyps [of "ci + 1" ?new "ni + 1"] m m2 unfolding eq d(1) by (simp add: same_lockouts)
    next
      case greater
      have eq: "match_votes api current ci ni new = match_votes api current ci (ni + 1) new" using step True greater by auto
      have "vote_kept (lock api) (map lockout (drop ni new)) (lockout c) \<longleftrightarrow> vote_kept (lock api) (map lockout (drop (ni + 1) new)) (lockout c)"
        if "c \<in> set (drop ci current)" for c
        using vote_kept_Cons_below [of "lock api" "lockout ?n" "lockout c"] above(1) that greater unfolding d by (auto dest: less_trans)
      then show ?thesis unfolding eq using less.hyps [OF m(2) less.prems(1) m(4) less.prems(3)] by simp
    qed
  qed
qed

section \<open>Installing\<close>

lemma set_dropWhile_sorted:
  "sorted_wrt (<) (map f xs) \<Longrightarrow> set (dropWhile (\<lambda>x. f x \<le> b) xs) = {x \<in> set xs. \<not> f x \<le> (b :: 'a :: linorder)}"
  by (induction xs) (auto dest: less_trans)

definition rooted_by :: "'l lockout_api \<Rightarrow> u64 option \<Rightarrow> 'l \<Rightarrow> bool" where
  "rooted_by lk root v \<longleftrightarrow> (case root of Some r \<Rightarrow> lockout_slot lk v \<le> r | None \<Rightarrow> False)"

text \<open>What makes a new tower acceptable on top of the votes and the root of the current state.\<close>

definition new_tower_ok :: "'l lockout_api \<Rightarrow> 'l list \<Rightarrow> u64 option \<Rightarrow> 'l list \<Rightarrow> u64 option \<Rightarrow> bool" where
  "new_tower_ok lk vs root ws root' \<longleftrightarrow>
     length ws \<le> 31 \<and> root_kept root root' \<and> ordered_tower lk ws \<and>
     (\<forall>b. root' = Some b \<longrightarrow> b \<noteq> 0 \<longrightarrow> (\<forall>w \<in> set ws. b < lockout_slot lk w)) \<and>
     (\<forall>v \<in> set vs. rooted_by lk root' v \<or> vote_kept lk ws v)"

lemma root_kept_iff:
  "root_kept root root' \<longleftrightarrow> \<not> (case (root', root) of
     (Some new_root, Some current_root) \<Rightarrow> new_root < current_root | (None, Some current_root) \<Rightarrow> True | (new_root, None) \<Rightarrow> False)"
  by (auto simp: root_kept_def not_less split: option.splits)

lemma ordered_slots: "ordered_tower (lock api) (map lockout vs) \<Longrightarrow> sorted_wrt (<) (slots_of api vs)"
  by (auto simp: ordered_tower_def slots_of_def sorted_wrt_map elim: sorted_wrt_mono_rel [rotated])

lemma earned:
  assumes api: "vote_api_ok api" and "length (votes s) \<le> 31"
  shows "\<exists>c. (case r of Some b \<Rightarrow> earn_credits api s b (votes s) 0 0 | None \<Rightarrow> Some (0, 0)) =
    Some (length (takeWhile (\<lambda>v. rooted_by (lock api) r (lockout v)) (votes s)), c)"
proof (cases r)
  case (Some b)
  then show ?thesis using earn_credits_value [OF api, of 0 "votes s" s b 0] assms(2)
    by (simp add: rooted_by_def vote_api_laws [OF api])
qed (simp add: rooted_by_def takeWhile_eq_Nil_iff)

lemma not_rooted:
  fixes api :: "('l, 'p, 'r, 'h) vote_api"
  assumes "ordered_tower (lock api) (tower_of s)"
  shows "set (drop (length (takeWhile (\<lambda>v. rooted_by (lock api) r (lockout v)) (votes s))) (votes s)) =
    {v \<in> set (votes s). \<not> rooted_by (lock api) r (lockout v)}"
proof (cases r)
  case (Some b)
  have "sorted_wrt (<) (map (\<lambda>v. lockout_slot (lock api) (lockout v)) (votes s))"
    using ordered_slots [of api "votes s"] assms by (simp add: tower_of_def slots_of_def)
  from set_dropWhile_sorted [OF this, of b] show ?thesis by (simp add: Some rooted_by_def flip: dropWhile_eq_drop)
qed (cases "votes s"; auto simp: rooted_by_def)

lemma install_spec:
  assumes "vote_api_ok api" and "install_votes api s new r ts epoch c = Inr s'"
  shows "votes s' = new \<and> root_slot s' = r \<and> authorized_withdrawer s' = authorized_withdrawer s \<and> node_pubkey s' = node_pubkey s \<and>
    commission s' = commission s"
  using assms(2) vote_api_state_laws(3,4) [OF assms(1)]
  by (fastforce simp: install_votes_def same_tower_def Let_def rbind_eq_Inr split: option.splits if_splits)

text \<open>The vote state takes the timestamp, before and after credits are added: it is not older than the last one.\<close>

definition timestamp_ok :: "('l, 'p, 'r, 'h) vote_api \<Rightarrow> ('l, 'p, 'r) vote_state \<Rightarrow> u64 \<Rightarrow> u64 \<Rightarrow> i64 option \<Rightarrow> bool" where
  "timestamp_ok api s epoch slot ts \<longleftrightarrow> (case ts of None \<Rightarrow> True | Some x \<Rightarrow>
     (\<exists>s'. process_timestamp api s slot x = Inr s') \<and>
     (\<forall>credits. \<exists>s'. process_timestamp api (increment_credits api s epoch credits) slot x = Inr s'))"

lemma install_accepts:
  assumes "timestamp_ok api s epoch (landed_slot api (last new)) ts"
  shows "\<exists>s'. install_votes api s new r ts epoch c = Inr s'"
proof (cases ts)
  case (Some x)
  with assms obtain a b where "process_timestamp api s (landed_slot api (last new)) x = Inr a"
    "process_timestamp api (increment_credits api s epoch c) (landed_slot api (last new)) x = Inr b"
    unfolding timestamp_ok_def by force
  then show ?thesis using Some by (simp add: install_votes_def Let_def)
qed (simp add: install_votes_def Let_def)

lemma process_new_spec:
  assumes api: "vote_api_ok api" and s: "ordered_tower (lock api) (tower_of s)" "length (votes s) \<le> 31" and new: "new \<noteq> []"
  shows "process_new_vote_state api s new r ts epoch slot \<noteq> None \<and>
    (\<forall>s'. process_new_vote_state api s new r ts epoch slot = Some (Inr s') \<longrightarrow>
      new_tower_ok (lock api) (tower_of s) (root_slot s) (map lockout new) r \<and> tower_of s' = map lockout new \<and> root_slot s' = r \<and>
      authorized_withdrawer s' = authorized_withdrawer s \<and> node_pubkey s' = node_pubkey s \<and> commission s' = commission s) \<and>
    (timestamp_ok api s epoch (lockout_slot (lock api) (last (map lockout new))) ts \<longrightarrow> new_tower_ok (lock api) (tower_of s) (root_slot s) (map lockout new) r \<longrightarrow>
      (\<exists>s'. process_new_vote_state api s new r ts epoch slot = Some (Inr s')))"
proof (cases "length new \<le> 31 \<and> root_kept (root_slot s) r \<and> check_new_votes api r None new = None")
  case False
  then have "\<exists>e. process_new_vote_state api s new r ts epoch slot = Some (Inl e)"
    using new max_lockout_history [OF vote_api_laws(1) [OF api]]
    by (auto simp: process_new_vote_state_def root_kept_iff split: option.splits)
  moreover have "\<not> new_tower_ok (lock api) (tower_of s) (root_slot s) (map lockout new) r"
    using False check_new_votes_iff [OF api, of r new] by (auto simp: new_tower_ok_def)
  ultimately show ?thesis by auto
next
  case True
  let ?n = "length (takeWhile (\<lambda>v. rooted_by (lock api) r (lockout v)) (votes s))"
  obtain c where c: "(case r of Some b \<Rightarrow> earn_credits api s b (votes s) 0 0 | None \<Rightarrow> Some (0, 0)) = Some (?n, c)"
    using earned [OF api s(2)] by blast
  have eq: "process_new_vote_state api s new r ts epoch slot = obind (Some (match_votes api (votes s) ?n 0 new))
      (\<lambda>new. Some (install_votes api s (map (set_latency api slot) new) r ts epoch c))"
    using True new c max_lockout_history [OF vote_api_laws(1) [OF api]] by (simp add: process_new_vote_state_def root_kept_iff)
  have o: "ordered_tower (lock api) (map lockout new)" using True check_new_votes_iff [OF api] by blast
  have m: "(\<forall>new'. match_votes api (votes s) ?n 0 new = Inr new' \<longrightarrow> map lockout new' = map lockout new) \<and>
      ((\<exists>new'. match_votes api (votes s) ?n 0 new = Inr new') \<longleftrightarrow>
        (\<forall>v \<in> set (tower_of s). rooted_by (lock api) r v \<or> vote_kept (lock api) (map lockout new) v))"
    using match_votes_spec [OF api ordered_slots [of api "votes s"], of ?n 0 new] ordered_slots [OF o] s(1) not_rooted [OF s(1), of r]
      length_takeWhile_le [of "\<lambda>v. rooted_by (lock api) r (lockout v)" "votes s"] by (auto simp: tower_of_def)
  have ok: "new_tower_ok (lock api) (tower_of s) (root_slot s) (map lockout new) r \<longleftrightarrow> (\<exists>new'. match_votes api (votes s) ?n 0 new = Inr new')"
    using True o m check_new_votes_iff [OF api, of r new] by (auto simp: new_tower_ok_def)
  have lat: "map lockout (map (set_latency api slot) new') = map lockout new'" for new' by (simp add: set_latency_def)
  show ?thesis
  proof (cases "match_votes api (votes s) ?n 0 new")
    case (Inl e)
    then show ?thesis unfolding eq ok by simp
  next
    case (Inr new')
    then have l: "map lockout new' = map lockout new" using m by blast
    then have "new' \<noteq> []" using new by auto
    then have "lockout_slot (lock api) (last (map lockout new)) = landed_slot api (last (map (set_latency api slot) new'))"
      unfolding l [symmetric] by (simp add: last_map vote_api_laws [OF api] set_latency_def)
    then have "\<exists>s'. install_votes api s (map (set_latency api slot) new') r ts epoch c = Inr s'"
      if "timestamp_ok api s epoch (lockout_slot (lock api) (last (map lockout new))) ts"
      using install_accepts [of api s epoch "map (set_latency api slot) new'" ts r c] that by simp
    with l show ?thesis unfolding eq ok Inr using install_spec [OF api] lat [of new'] by (auto simp: tower_of_def)
  qed
qed

section \<open>Tower syncs\<close>

lemma relevant_nonempty:
  assumes "proposal_ok api s ls root hash hs" and "sorted_wrt (>) (hist hs)"
  shows "relevant api s hs ls \<noteq> [] \<and> last (relevant api s hs ls) = last ls"
proof -
  have ls: "ls \<noteq> []" "last (lslots api ls) \<in> set (hist hs)" using assms(1) by (force simp: proposal_ok_def hist_def)+
  then have "last (hist hs) \<le> lockout_slot (lock api) (last ls)"
    using history_low [OF assms(2)] by (simp add: lslots_def last_map)
  then show ?thesis using ls(1) by (cases ls rule: rev_cases) (auto simp: relevant_def)
qed

text \<open>Both instructions that propose a tower do the same with it.\<close>

definition sync_tower :: "('l, 'p, 'r, 'h) vote_api \<Rightarrow> ('l, 'p, 'r) vote_state \<Rightarrow> (u64 \<times> 'h) list \<Rightarrow> u64 \<Rightarrow> u64 \<Rightarrow> 'l list \<Rightarrow> u64 option \<Rightarrow> 'h \<Rightarrow>
    i64 option \<Rightarrow> (vote_error, ('l, 'p, 'r) vote_state) outcome" where
  "sync_tower api s hs epoch slot ls root hash ts =
     obind (check_and_filter_proposed_vote_state api s ls root hash hs)
       (\<lambda>(lockouts, root). process_new_vote_state api s (map (landed_from api) lockouts) root ts epoch slot)"

lemma sync_tower_eq:
  "do_process_tower_sync api s hs epoch slot sync = sync_tower api s hs epoch slot (ts_lockouts sync) (ts_root sync) (ts_hash sync) (ts_timestamp sync)"
  "do_process_vote_state_update api s hs epoch slot update = sync_tower api s hs epoch slot (vsu_lockouts update) (vsu_root update) (vsu_hash update) (vsu_timestamp update)"
  by (simp_all add: sync_tower_def do_process_tower_sync_def do_process_vote_state_update_def)

definition chain_ok :: "('l, 'p, 'r, 'h) vote_api \<Rightarrow> ('l, 'p, 'r) vote_state \<Rightarrow> bool" where
  "chain_ok api s \<longleftrightarrow> ordered_tower (lock api) (tower_of s) \<and> length (votes s) \<le> 31"

lemma sync_tower_spec:
  assumes api: "vote_api_ok api" and desc: "sorted_wrt (>) (hist hs)" and s: "chain_ok api s"
  shows "sync_tower api s hs epoch slot ls root hash ts \<noteq> None \<and>
    (\<forall>s'. sync_tower api s hs epoch slot ls root hash ts = Some (Inr s') \<longrightarrow>
      proposal_ok api s ls root hash hs \<and> tower_of s' = relevant api s hs ls \<and> root_slot s' = adjust_root api s (last (hist hs)) root \<and>
      new_tower_ok (lock api) (tower_of s) (root_slot s) (tower_of s') (root_slot s') \<and> authorized_withdrawer s' = authorized_withdrawer s \<and>
      node_pubkey s' = node_pubkey s \<and> commission s' = commission s)"
proof (cases "check_and_filter_proposed_vote_state api s ls root hash hs")
  case None
  then show ?thesis using check_accepts_iff [OF desc, of api s ls root hash] by simp
next
  case (Some x)
  show ?thesis
  proof (cases x)
    case (Inl e)
    then show ?thesis using Some by (simp add: sync_tower_def)
  next
    case (Inr y)
    obtain ls' r' where y: "y = (ls', r')" by fastforce
    have p: "proposal_ok api s ls root hash hs" "ls' = relevant api s hs ls" "r' = adjust_root api s (last (hist hs)) root"
      using check_accepts_iff [OF desc, of api s ls root hash ls' r'] Some Inr y by simp_all
    have "map (landed_from api) ls' \<noteq> []" using relevant_nonempty [OF p(1) desc] p(2) by simp
    from process_new_spec [OF api _ _ this, of s r' ts epoch slot] s
    have n: "process_new_vote_state api s (map (landed_from api) ls') r' ts epoch slot \<noteq> None \<and>
        (\<forall>s'. process_new_vote_state api s (map (landed_from api) ls') r' ts epoch slot = Some (Inr s') \<longrightarrow>
          new_tower_ok (lock api) (tower_of s) (root_slot s) ls' r' \<and> tower_of s' = ls' \<and> root_slot s' = r' \<and>
          authorized_withdrawer s' = authorized_withdrawer s \<and> node_pubkey s' = node_pubkey s \<and> commission s' = commission s)"
      by (simp add: chain_ok_def vote_api_laws [OF api] comp_def)
    have "sync_tower api s hs epoch slot ls root hash ts = process_new_vote_state api s (map (landed_from api) ls') r' ts epoch slot"
      using Some Inr y by (simp add: sync_tower_def)
    then show ?thesis using n p by simp
  qed
qed

lemma settled_if_kept:
  assumes "rooted_by lk root v \<or> vote_kept lk ws v" and "\<exists>w \<in> set ws. lockout_slot lk v < lockout_slot lk w"
  shows "vote_settled lk root ws v"
  using assms by (cases root) (auto simp: vote_settled_def vote_kept_def rooted_by_def image_iff)

lemma kept_if_settled:
  assumes "ordered_tower lk ws" and "vote_settled lk root ws v"
  shows "rooted_by lk root v \<or> vote_kept lk ws v"
proof (cases "rooted_by lk root v")
  case False
  have uniq: "u = w" if mem: "u \<in> set ws" "w \<in> set ws" and slot: "lockout_slot lk u = lockout_slot lk w" for u w
  proof -
    obtain i j where ij: "i < length ws" "ws ! i = u" "j < length ws" "ws ! j = w" using mem by (auto simp: in_set_conv_nth)
    then have "i = j" using assms(1) slot unfolding ordered_tower_nth by (metis less_irrefl linorder_neqE_nat)
    then show ?thesis using ij by simp
  qed
  from assms(2) False consider w where "w \<in> set ws" "lockout_slot lk w = lockout_slot lk v" "confs lk v \<le> confs lk w"
    | "\<forall>w \<in> set ws. lockout_slot lk v < lockout_slot lk w \<longrightarrow> last_locked_out_slot lk v < lockout_slot lk w" "lockout_slot lk v \<notin> lockout_slot lk ` set ws"
    unfolding vote_settled_def rooted_by_def by blast
  then show ?thesis
  proof cases
    case 1
    then have "confs lk v \<le> confs lk u" if "u \<in> set ws" "lockout_slot lk u = lockout_slot lk v" for u using uniq [of u w] that by simp
    moreover have "lockout_slot lk v \<in> lockout_slot lk ` set ws" using 1(1,2) by (metis image_eqI)
    ultimately show ?thesis by (simp add: vote_kept_def)
  next
    case 2
    then show ?thesis by (auto simp: vote_kept_def image_iff)
  qed
qed simp

lemma sync_tower_settled:
  assumes api: "vote_api_ok api" and desc: "sorted_wrt (>) (hist hs)" and s: "chain_ok api s"
    and sync: "sync_tower api s hs epoch slot ls root hash ts = Some (Inr s')"
  shows "chain_ok api s' \<and> root_kept (root_slot s) (root_slot s') \<and>
    (\<forall>v \<in> set (tower_of s). vote_settled (lock api) (root_slot s') (tower_of s') v \<and>
       lockout_slot (lock api) v < lockout_slot (lock api) (last (tower_of s'))) \<and>
    authorized_withdrawer s' = authorized_withdrawer s \<and> node_pubkey s' = node_pubkey s \<and> commission s' = commission s"
proof -
  from sync_tower_spec [OF api desc s, of epoch slot ls root hash ts] sync
  have p: "proposal_ok api s ls root hash hs" "tower_of s' = relevant api s hs ls" and n: "new_tower_ok (lock api) (tower_of s) (root_slot s) (tower_of s') (root_slot s')"
    and same: "authorized_withdrawer s' = authorized_withdrawer s" "node_pubkey s' = node_pubkey s" "commission s' = commission s" by blast+
  have last: "tower_of s' \<noteq> []" "last (tower_of s') = last ls" using relevant_nonempty [OF p(1) desc] p(2) by simp_all
  have newer: "lockout_slot (lock api) v < lockout_slot (lock api) (last (tower_of s'))" if v: "v \<in> set (tower_of s)" for v
  proof -
    have ne: "votes s \<noteq> []" "ls \<noteq> []" using v p(1) by (auto simp: tower_of_def proposal_ok_def)
    then have "lockout_slot (lock api) (last (tower_of s)) < lockout_slot (lock api) (last ls)"
      using p(1) by (simp add: proposal_ok_def lslots_def last_map vote_api_laws [OF api] tower_of_def)
    moreover have "lockout_slot (lock api) v \<le> lockout_slot (lock api) (last (tower_of s))"
      using s v by (cases "tower_of s" rule: rev_cases) (auto simp: chain_ok_def ordered_tower_def sorted_wrt_append less_imp_le)
    ultimately show ?thesis by (simp add: last(2))
  qed
  then have "\<forall>v \<in> set (tower_of s). vote_settled (lock api) (root_slot s') (tower_of s') v"
    using n last(1) settled_if_kept [of "lock api" "root_slot s'" _ "tower_of s'"] last_in_set [OF last(1)] unfolding new_tower_ok_def by blast
  moreover have "length (tower_of s') = length (votes s')" by (simp add: tower_of_def)
  ultimately show ?thesis using newer n same unfolding chain_ok_def new_tower_ok_def by simp
qed

section \<open>Vote accounts over time\<close>

inductive chain_step :: "('l, 'p, 'r, 'h) vote_api \<Rightarrow> ('l, 'p, 'r) vote_state \<Rightarrow> ('l, 'p, 'r) vote_state \<Rightarrow> bool" for api where
  sync: "sorted_wrt (>) (map fst hs) \<Longrightarrow> do_process_tower_sync api s hs epoch slot tower_sync = Some (Inr s') \<Longrightarrow> chain_step api s s'"
| update: "sorted_wrt (>) (map fst hs) \<Longrightarrow> do_process_vote_state_update api s hs epoch slot update = Some (Inr s') \<Longrightarrow> chain_step api s s'"

inductive_cases chain_stepE: "chain_step api s s'"

definition no_votes :: "('l, 'p, 'r) vote_state \<Rightarrow> bool" where
  "no_votes s \<longleftrightarrow> votes s = []"

lemma chain_step_settled:
  assumes "vote_api_ok api" and "chain_ok api s" and "chain_step api s s'"
  shows "chain_ok api s' \<and> root_kept (root_slot s) (root_slot s') \<and>
    (\<forall>v \<in> set (tower_of s). vote_settled (lock api) (root_slot s') (tower_of s') v \<and>
       lockout_slot (lock api) v < lockout_slot (lock api) (last (tower_of s')))"
  using assms(3)
proof (cases rule: chain_step.cases)
  case (sync hs epoch slot tower_sync)
  then show ?thesis using sync_tower_settled [OF assms(1) _ assms(2)] unfolding sync_tower_eq hist_def by blast
next
  case (update hs epoch slot update)
  then show ?thesis using sync_tower_settled [OF assms(1) _ assms(2)] unfolding sync_tower_eq hist_def by blast
qed

interpretation chain: invariant_system no_votes "chain_step api" "\<lambda>s. vote_api_ok api \<longrightarrow> chain_ok api s"
  for api :: "('l, 'p, 'r, 'h) vote_api"
proof (unfold_locales, goal_cases)
  case (1 s)
  then show ?case by (simp add: no_votes_def chain_ok_def tower_of_def ordered_tower_def)
next
  case (2 s t)
  then show ?case using chain_step_settled [of api s t] by blast
qed

section \<open>The tower of a validator\<close>

lemma sync_tower_accepts:
  assumes api: "vote_api_ok api" and desc: "sorted_wrt (>) (hist hs)" and s: "chain_ok api s" and p: "proposal_ok api s ls root hash hs"
    and ok: "new_tower_ok (lock api) (tower_of s) (root_slot s) (relevant api s hs ls) (adjust_root api s (last (hist hs)) root)"
    and ts: "timestamp_ok api s epoch (last (lslots api ls)) ts"
  shows "\<exists>s'. sync_tower api s hs epoch slot ls root hash ts = Some (Inr s') \<and> tower_of s' = relevant api s hs ls \<and>
    root_slot s' = adjust_root api s (last (hist hs)) root"
proof -
  let ?ls = "relevant api s hs ls" and ?r = "adjust_root api s (last (hist hs)) root"
  have "check_and_filter_proposed_vote_state api s ls root hash hs = Some (Inr (?ls, ?r))"
    using check_accepts_iff [OF desc, of api s ls root hash ?ls ?r] p by simp
  then have eq: "sync_tower api s hs epoch slot ls root hash ts = process_new_vote_state api s (map (landed_from api) ?ls) ?r ts epoch slot"
    by (simp add: sync_tower_def)
  have l: "map lockout (map (landed_from api) ?ls) = ?ls" by (simp add: vote_api_laws [OF api] comp_def)
  note new = relevant_nonempty [OF p desc]
  moreover have "ls \<noteq> []" using p by (simp add: proposal_ok_def)
  ultimately have "lockout_slot (lock api) (last ?ls) = last (lslots api ls)" by (simp add: lslots_def last_map)
  then have "timestamp_ok api s epoch (lockout_slot (lock api) (last (map lockout (map (landed_from api) ?ls)))) ts"
    using ts unfolding l by simp
  moreover have "map (landed_from api) ?ls \<noteq> []" using new by simp
  ultimately show ?thesis using process_new_spec [OF api, of s "map (landed_from api) ?ls" ?r ts epoch slot] s ok
    unfolding eq l chain_ok_def by blast
qed

text \<open>A tower whose slots and root are all in the slot hashes is kept as it is.\<close>

lemma tower_in_history:
  assumes api: "vote_api_ok api" and wf: "tower_wf (lock api) t" and "tower_votes t \<noteq> []" and desc: "sorted_wrt (>) (hist hs)"
    and slots: "set (tower_slots (lock api) t) \<subseteq> set (hist hs)" and root: "\<forall>r. tower_root t = Some r \<longrightarrow> r \<in> set (hist hs)"
    and hash: "(last (tower_slots (lock api) t), hash) \<in> set hs"
    and newer: "votes s \<noteq> [] \<longrightarrow> lockout_slot (lock api) (lockout (last (votes s))) < last (tower_slots (lock api) t)"
  shows "proposal_ok api s (tower_votes t) (tower_root t) hash hs" and "relevant api s hs (tower_votes t) = tower_votes t"
    and "adjust_root api s (last (hist hs)) (tower_root t) = tower_root t"
proof -
  have low: "last (hist hs) \<le> x" if "x \<in> set (hist hs)" for x by (rule history_low [OF desc that])
  show adj: "adjust_root api s (last (hist hs)) (tower_root t) = tower_root t"
    using root low by (auto simp: adjust_root_def split: option.splits dest: leD)
  show "relevant api s hs (tower_votes t) = tower_votes t"
    using slots low by (auto simp: relevant_def tower_slots_def intro!: filter_True)
  have asc: "sorted_wrt (<) (lslots api (tower_votes t))"
    using wf by (auto simp: tower_wf_def ordered_tower_def lslots_def sorted_wrt_map elim: sorted_wrt_mono_rel [rotated])
  have "root_passes (hist hs) (last (hist hs)) (tower_root t) (lslots api (tower_votes t))"
    using root wf by (auto simp: root_passes_def tower_wf_def lslots_def list_all_iff less_imp_le split: option.splits)
  then show "proposal_ok api s (tower_votes t) (tower_root t) hash hs"
    using assms(3) hash newer slots asc adj unfolding proposal_ok_def lslots_def tower_slots_def vote_api_laws [OF api] by auto
qed

lemma tower_from_eq:
  assumes "vote_api_ok api"
  shows "tower_from_vote_state api s = \<lparr>tower_votes = tower_of s, tower_root = root_slot s\<rparr>"
  by (simp add: tower_from_vote_state_def tower_of_def vote_api_laws [OF assms])

section \<open>Properties\<close>

text \<open>C4. However a vote account came to its state by tower syncs and vote state updates, the next one leaves it with at most 31
  votes on increasing slots and with decreasing confirmation counts between 1 and 31, each within the lockout of the one before; its last
  vote is newer than every vote before; the root does not move back; and every earlier vote is rooted, or kept with no fewer confirmations, or
  gone with all later votes beyond its lockout.\<close>

theorem vote_account_never_rolls_back:
  assumes "vote_api_ok api" and "no_votes s0" and "(chain_step api)\<^sup>*\<^sup>* s0 s" and "chain_step api s s'"
  shows "length (votes s') \<le> 31 \<and> ordered_tower (lock api) (map lockout (votes s')) \<and> root_kept (root_slot s) (root_slot s') \<and>
    (\<forall>v \<in> set (votes s). vote_settled (lock api) (root_slot s') (map lockout (votes s')) (lockout v) \<and>
       lockout_slot (lock api) (lockout v) < lockout_slot (lock api) (last (map lockout (votes s'))))"
proof -
  have "chain_ok api s" using chain.reachable_inv [OF assms(2,3)] assms(1) by blast
  from chain_step_settled [OF assms(1) this assms(4)] show ?thesis by (auto simp: chain_ok_def tower_of_def)
qed

text \<open>C8. The vote program accepts the tower a validator builds by the rules of the tower. A validator whose tower was the one of its vote
  account votes on, any number of times. The tower sync succeeds, and the vote account then has exactly that tower and root, under the conditions
  that the checks of the program leave to the cluster: all slots of the tower and its root are in the slot hashes (which are in
  descending order), the hash is the one of the last slot, the last vote is newer than the account's, and the timestamp, if there is one, is accepted by the
  vote state.\<close>

theorem own_tower_accepted:
  assumes "vote_api_ok api" and "(tower_step (lock api))\<^sup>*\<^sup>* tower_default (tower_from_vote_state api s)"
    and "(tower_step (lock api))\<^sup>*\<^sup>* (tower_from_vote_state api s) t"
    and "sorted_wrt (>) (map fst slot_hashes)" and "set (tower_slots (lock api) t) \<subseteq> set (map fst slot_hashes)"
    and "\<forall>r. tower_root t = Some r \<longrightarrow> r \<in> set (map fst slot_hashes)" and "(last (tower_slots (lock api) t), hash) \<in> set slot_hashes"
    and "tower_votes t \<noteq> []"
    and "votes s \<noteq> [] \<longrightarrow> lockout_slot (lock api) (lockout (last (votes s))) < last (tower_slots (lock api) t)"
    and "timestamp_ok api s epoch (last (tower_slots (lock api) t)) timestamp"
  shows "\<exists>s'. do_process_tower_sync api s slot_hashes epoch slot
      \<lparr>ts_lockouts = tower_votes t, ts_root = tower_root t, ts_hash = hash, ts_timestamp = timestamp, ts_block_id = block_id\<rparr> = Some (Inr s') \<and>
    tower_from_vote_state api s' = t"
proof -
  note lk = vote_api_laws(1) [OF assms(1)]
  have wf0: "tower_wf (lock api) (tower_from_vote_state api s)" using tower.reachable_inv [OF _ assms(2)] lk by (simp add: tower_init_def)
  then have s: "chain_ok api s"
    by (simp add: chain_ok_def tower_wf_def tower_from_eq [OF assms(1)] tower_of_def max_lockout_history [OF lk])
  from tower_steps_settled [OF lk assms(3) wf0] have t: "tower_wf (lock api) t" "root_kept (root_slot s) (tower_root t)"
    "\<forall>v \<in> set (tower_of s). vote_settled (lock api) (tower_root t) (tower_votes t) v" by (simp_all add: tower_from_eq [OF assms(1)])
  note hist = tower_in_history [OF assms(1) t(1) assms(8), of slot_hashes hash s, unfolded hist_def, OF assms(4-7,9), folded hist_def]
  have "new_tower_ok (lock api) (tower_of s) (root_slot s) (tower_votes t) (tower_root t)"
    using t kept_if_settled [of "lock api" "tower_votes t" "tower_root t"]
    by (auto simp: new_tower_ok_def tower_wf_def list_all_iff max_lockout_history [OF lk])
  from sync_tower_accepts [OF assms(1) _ s hist(1), unfolded hist(2,3), OF _ this] assms(4,10)
  obtain s' where "sync_tower api s slot_hashes epoch slot (tower_votes t) (tower_root t) hash timestamp = Some (Inr s')"
    "tower_of s' = tower_votes t" "root_slot s' = tower_root t" unfolding hist_def lslots_def tower_slots_def by blast
  then show ?thesis by (simp add: sync_tower_eq tower_from_eq [OF assms(1)])
qed

section \<open>Witnesses\<close>

lemma sample_step: "\<exists>s'. chain_step pair_vote (sample_state []) s' \<and> votes s' \<noteq> []"
proof -
  let ?s = "sample_state []" and ?ls = "[(5, 2), (7, 1)] :: (u64 \<times> u32) list" and ?hs = "[(7, 42), (6, 41), (5, 40)] :: (u64 \<times> nat) list"
  have p: "proposal_ok pair_vote ?s ?ls None 42 ?hs"
    by (simp add: proposal_ok_def lslots_def hist_def root_passes_def adjust_root_def pair_vote_def pair_lockout_def sample_state_def)
  have r: "relevant pair_vote ?s ?hs ?ls = ?ls" "adjust_root pair_vote ?s (last (hist ?hs)) None = None"
    by (simp_all add: relevant_def hist_def pair_vote_def pair_lockout_def sample_state_def adjust_root_def)
  have "new_tower_ok pair_lockout [] None ?ls None"
    by (simp add: new_tower_ok_def root_kept_def ordered_tower_def pair_lockout_def confs_def saturating_add_def word_le_nat_alt)
  then have n: "new_tower_ok (lock pair_vote) (tower_of ?s) (root_slot ?s) (relevant pair_vote ?s ?hs ?ls) (adjust_root pair_vote ?s (last (hist ?hs)) None)"
    unfolding r by (simp add: pair_vote_def tower_of_def sample_state_def)
  have "chain_ok pair_vote ?s" by (simp add: chain_ok_def tower_of_def sample_state_def ordered_tower_def)
  from sync_tower_accepts [OF pair_vote_ok _ this p n, of 0 None 9] obtain s'
    where s': "sync_tower pair_vote ?s ?hs 0 9 ?ls None 42 None = Some (Inr s')" "tower_of s' = ?ls" unfolding r by (auto simp: hist_def timestamp_ok_def)
  have "chain_step pair_vote ?s s'"
    by (rule chain_step.sync [of ?hs _ _ 0 9 "\<lparr>ts_lockouts = ?ls, ts_root = None, ts_hash = 42, ts_timestamp = None, ts_block_id = 0\<rparr>"])
      (simp_all add: sync_tower_eq s'(1))
  then show ?thesis using s'(2) by (auto simp: tower_of_def)
qed

theorem vote_account_never_rolls_back_witness:
  "\<exists>s'. chain_step pair_vote (sample_state []) s' \<and> votes s' \<noteq> [] \<and> length (votes s') \<le> 31"
proof -
  obtain s' where s': "chain_step pair_vote (sample_state []) s'" "votes s' \<noteq> []" using sample_step by blast
  have "no_votes (sample_state [])" by (simp add: no_votes_def sample_state_def)
  from vote_account_never_rolls_back [OF pair_vote_ok this rtranclp.rtrancl_refl s'(1)] s' show ?thesis by blast
qed

theorem own_tower_accepted_witness:
  "\<exists>s'. do_process_tower_sync pair_vote (sample_state []) [(2, 42), (1, 41)] 0 3
      \<lparr>ts_lockouts = [(1, 2), (2, 1)], ts_root = None, ts_hash = 42, ts_timestamp = Some 7, ts_block_id = 0\<rparr> = Some (Inr s') \<and>
    tower_from_vote_state pair_vote s' = sample_tower [(1, 2), (2, 1)]"
proof -
  have lk: "lock pair_vote = pair_lockout" by (simp add: pair_vote_def)
  have s: "tower_from_vote_state pair_vote (sample_state []) = tower_default"
    by (simp add: tower_from_vote_state_def tower_default_def sample_state_def)
  have slots: "tower_slots pair_lockout (sample_tower [(1, 2), (2, 1)]) = [1, 2]" by (simp add: tower_slots_def sample_tower_def pair_lockout_def)
  have ts: "timestamp_ok pair_vote (sample_state []) 0 2 (Some 7)" by (simp add: timestamp_ok_def pair_vote_def)
  show ?thesis
    using own_tower_accepted [OF pair_vote_ok, of "sample_state []" "sample_tower [(1, 2), (2, 1)]" "[(2, 42), (1, 41)]" 42 0 "Some 7" 3 0]
      sample_tower_steps(1) ts unfolding s lk slots by (simp add: sample_tower_def sample_state_def)
qed

end
