(* ===== verification/Vote_Slots.thy ===== *)
theory Vote_Slots
  imports Vote_Correct
begin

text \<open>
  Votes given as a list of slots: the walk over slots and slot hashes accepts exactly the votes whose new slots are all in the
  history and end in the hash voted for.
\<close>

section \<open>The walk\<close>

definition pending :: "u64 option \<Rightarrow> u64 \<Rightarrow> bool" where
  "pending last_voted slot \<longleftrightarrow> (case last_voted of Some l \<Rightarrow> l < slot | None \<Rightarrow> True)"

lemma slots_step:
  assumes "i < length vs" and "0 < j" and "j \<le> length hs"
  shows "slots_loop lv vs hs i j =
    (if \<not> pending lv (vs ! i) then slots_loop lv vs hs (i + 1) j
     else if vs ! i \<noteq> hist hs ! (j - 1) then slots_loop lv vs hs i (j - 1) else slots_loop lv vs hs (i + 1) (j - 1))"
proof -
  have "fst (hs ! (j - 1)) = hist hs ! (j - 1)" using assms by (simp add: hist_def)
  moreover have "\<not> pending lv (vs ! i) \<longleftrightarrow> (case lv of Some l \<Rightarrow> vs ! i \<le> l | None \<Rightarrow> False)"
    by (auto simp: pending_def not_less split: option.splits)
  ultimately show ?thesis using assms(1,2) unfolding slots_loop.simps [of lv vs hs i j] by simp
qed

lemma slots_end: "\<not> (i < length vs \<and> 0 < j) \<Longrightarrow> slots_loop lv vs hs i j = (i, j)"
  by (subst slots_loop.simps) (rule if_not_P)

lemma slots_sound:
  assumes desc: "sorted_wrt (>) (hist hs)" and "j \<le> length hs" and "i \<le> length vs" and "slots_loop lv vs hs i j = (length vs, j')"
  shows "sorted_wrt (<) (filter (pending lv) (drop i vs)) \<and> set (filter (pending lv) (drop i vs)) \<subseteq> set (take j (hist hs)) \<and>
    (if filter (pending lv) (drop i vs) = [] then j' = j else j' < j \<and> hist hs ! j' = last (filter (pending lv) (drop i vs)))"
  using assms(2-4)
proof (induction "length vs - i + j" arbitrary: i j rule: less_induct)
  case less
  show ?case
  proof (cases "i < length vs \<and> 0 < j")
    case False
    then show ?thesis using less.prems slots_end [OF False, of lv hs] by auto
  next
    case True
    then have ij: "i < length vs" "0 < j" by simp_all
    have d: "drop i vs = vs ! i # drop (i + 1) vs" using ij by (simp add: Cons_nth_drop_Suc)
    note step = slots_step [OF ij less.prems(1), of lv]
    have m: "length vs - i + (j - 1) < length vs - i + j" "length vs - (i + 1) + (j - 1) < length vs - i + j" "j - 1 \<le> length hs" "i + 1 \<le> length vs"
      using ij less.prems(1) by linarith+
    consider (old) "\<not> pending lv (vs ! i)" | (other) "pending lv (vs ! i)" "vs ! i \<noteq> hist hs ! (j - 1)"
      | (match) "pending lv (vs ! i)" "vs ! i = hist hs ! (j - 1)" by blast
    then show ?thesis
    proof cases
      case old
      then show ?thesis using less.hyps [of "i + 1" j] less.prems ij step unfolding d by simp
    next
      case other
      have "slots_loop lv vs hs i (j - 1) = (length vs, j')" using step other less.prems(3) by simp
      from less.hyps [OF m(1,3) less.prems(2) this]
      have IH: "sorted_wrt (<) (filter (pending lv) (drop i vs))" "set (filter (pending lv) (drop i vs)) \<subseteq> set (take (j - 1) (hist hs))"
        "if filter (pending lv) (drop i vs) = [] then j' = j - 1 else j' < j - 1 \<and> hist hs ! j' = last (filter (pending lv) (drop i vs))" by blast+
      moreover have "filter (pending lv) (drop i vs) \<noteq> []" using other(1) unfolding d by simp
      ultimately show ?thesis using set_take_subset_set_take [of "j - 1" j "hist hs"] by auto
    next
      case match
      let ?P = "filter (pending lv) (drop (i + 1) vs)"
      have "slots_loop lv vs hs (i + 1) (j - 1) = (length vs, j')" using step match less.prems(3) by simp
      from less.hyps [OF m(2,3,4) this]
      have IH: "sorted_wrt (<) ?P" "set ?P \<subseteq> set (take (j - 1) (hist hs))" "if ?P = [] then j' = j - 1 else j' < j - 1 \<and> hist hs ! j' = last ?P" by blast+
      have "x \<in> set (take j (hist hs)) \<and> vs ! i < x" if "x \<in> set ?P" for x
        using take_desc_back [OF desc ij(2), of x] less.prems(1) IH(2) that match(2) by auto
      moreover have "vs ! i \<in> set (take j (hist hs))"
        using match(2) ij less.prems(1) by (auto simp: in_set_conv_nth intro!: exI [of _ "j - 1"])
      moreover have "if ?P = [] then j' = j - 1 \<and> hist hs ! j' = vs ! i else j' < j \<and> hist hs ! j' = last ?P" using IH(3) match(2) by auto
      moreover have "filter (pending lv) (drop i vs) = vs ! i # ?P" using match(1) unfolding d by simp
      ultimately show ?thesis using IH(1) ij(2) by (auto split: if_splits)
    qed
  qed
qed

lemma slots_complete:
  assumes desc: "sorted_wrt (>) (hist hs)" and last: "vs \<noteq> [] \<longrightarrow> pending lv (last vs)"
    and "j \<le> length hs" and "i \<le> length vs"
    and "sorted_wrt (<) (filter (pending lv) (drop i vs))" and "set (filter (pending lv) (drop i vs)) \<subseteq> set (take j (hist hs))"
  shows "fst (slots_loop lv vs hs i j) = length vs"
  using assms(3-6)
proof (induction "length vs - i + j" arbitrary: i j rule: less_induct)
  case less
  show ?case
  proof (cases "i < length vs")
    case False
    then show ?thesis using less.prems slots_end [of i vs j lv hs] by simp
  next
    case True
    have d: "drop i vs = vs ! i # drop (i + 1) vs" using True by (simp add: Cons_nth_drop_Suc)
    have "last vs \<in> set (drop i vs)" using True by (metis drop_eq_Nil last_drop last_in_set not_le)
    then have "last vs \<in> set (take j (hist hs))" using last True less.prems(4) by auto
    then have j: "0 < j" by (cases j) auto
    note step = slots_step [OF True j less.prems(1), of lv]
    have up: "x \<in> set (take (j - 1) (hist hs))" if "x \<in> set (take j (hist hs))" "x \<noteq> hist hs ! (j - 1)" for x
      using take_desc [OF desc j, of x] less.prems(1) that by simp
    consider (old) "\<not> pending lv (vs ! i)" | (other) "pending lv (vs ! i)" "vs ! i \<noteq> hist hs ! (j - 1)"
      | (match) "pending lv (vs ! i)" "vs ! i = hist hs ! (j - 1)" by blast
    then show ?thesis
    proof cases
      case old
      then show ?thesis using less.hyps [of "i + 1" j] less.prems True step unfolding d by simp
    next
      case other
      have "x \<noteq> hist hs ! (j - 1)" if "x \<in> set (filter (pending lv) (drop i vs))" for x
        using that other less.prems(3,4) take_desc(1) [OF desc j, of "vs ! i"] less.prems(1) unfolding d by auto
      then have "set (filter (pending lv) (drop i vs)) \<subseteq> set (take (j - 1) (hist hs))" using up less.prems(4) by blast
      then show ?thesis using less.hyps [of i "j - 1"] less.prems j other step by simp
    next
      case match
      then have "\<forall>x \<in> set (filter (pending lv) (drop (i + 1) vs)). x \<noteq> hist hs ! (j - 1)" "sorted_wrt (<) (filter (pending lv) (drop (i + 1) vs))"
        using less.prems(3) unfolding d by auto
      moreover have "set (filter (pending lv) (drop (i + 1) vs)) \<subseteq> set (take j (hist hs))" using less.prems(4) unfolding d by auto
      ultimately show ?thesis using less.hyps [of "i + 1" "j - 1"] less.prems(1) True j match step up by (simp add: subset_iff)
    qed
  qed
qed

section \<open>What is accepted\<close>

definition slots_ok :: "u64 option \<Rightarrow> u64 list \<Rightarrow> 'h \<Rightarrow> (u64 \<times> 'h) list \<Rightarrow> bool" where
  "slots_ok lv vs hash hs \<longleftrightarrow> (let P = filter (pending lv) vs in
     P \<noteq> [] \<and> sorted_wrt (<) P \<and> set P \<subseteq> set (map fst hs) \<and> (last P, hash) \<in> set hs)"

lemma last_pending: "sorted vs \<Longrightarrow> filter (pending lv) vs \<noteq> [] \<Longrightarrow> pending lv (last vs)"
  by (cases vs rule: rev_cases) (auto simp: sorted_append pending_def filter_empty_conv split: option.splits if_splits dest: less_le_trans)

lemma slots_bound: "snd (slots_loop lv vs hs i j) \<le> j"
proof (induction lv vs hs i j rule: slots_loop.induct)
  case (1 lv vs hs i j)
  then show ?case unfolding slots_loop.simps [of lv vs hs i j] by (auto intro: le_trans)
qed

lemma check_slots_iff:
  assumes desc: "sorted_wrt (>) (hist hs)" and "sorted vs"
  shows "check_slots_are_valid api s vs hash hs \<noteq> None \<and>
    (check_slots_are_valid api s vs hash hs = Some (Inr ()) \<longleftrightarrow> slots_ok (last_voted_slot api s) vs hash hs)"
proof -
  let ?lv = "last_voted_slot api s" and ?P = "filter (pending (last_voted_slot api s)) vs"
  obtain i j where ij: "slots_loop ?lv vs hs 0 (length hs) = (i, j)" by fastforce
  have bound: "j \<le> length hs" using slots_bound [of ?lv vs hs 0 "length hs"] ij by simp
  have sound: "sorted_wrt (<) ?P \<and> set ?P \<subseteq> set (hist hs) \<and> (if ?P = [] then j = length hs else j < length hs \<and> hist hs ! j = last ?P)" if "i = length vs"
    using slots_sound [OF desc order_refl, of 0 vs ?lv j] ij that by simp
  have complete: "i = length vs" if "?P \<noteq> []" "sorted_wrt (<) ?P" "set ?P \<subseteq> set (hist hs)"
    using slots_complete [OF desc, of vs ?lv "length hs" 0] last_pending [OF assms(2) that(1)] ij that by simp
  have hash: "(last ?P, hash) \<in> set hs \<longleftrightarrow> snd (hs ! j) = hash" if "j < length hs" "hist hs ! j = last ?P"
    using hash_unique [OF desc that(1), of hash] that(2) by simp
  have eq: "check_slots_are_valid api s vs hash hs =
      (if j = length hs then Some (Inl VoteTooOld) else if i \<noteq> length vs then Some (Inl SlotsMismatch)
       else if snd (hs ! j) \<noteq> hash then Some (Inl SlotHashMismatch) else Some (Inr ()))"
    using bound by (simp add: check_slots_are_valid_def ij)
  show ?thesis
  proof (cases "i = length vs \<and> ?P \<noteq> []")
    case True
    then show ?thesis using sound hash unfolding eq slots_ok_def Let_def hist_def by auto
  next
    case False
    then show ?thesis using sound complete unfolding eq slots_ok_def Let_def hist_def by auto
  qed
qed

section \<open>Property\<close>

text \<open>A vote for a list of increasing slots is accepted exactly when, of its slots that are not older than the slot hashes, some are newer
  than the last vote, all of these are in the slot hashes, and the last of them has the hash voted for; accepting it applies all the slots that are
  not too old, in order. Processing a vote never panics.\<close>

theorem process_vote_exact:
  assumes "sorted_wrt (>) (map fst slot_hashes)" and "sorted (v_slots vote)"
  shows "process_vote api s vote slot_hashes epoch slot \<noteq> None \<and>
    (process_vote api s vote slot_hashes epoch slot = Some (Inr s') \<longleftrightarrow>
      (let slots = filter (\<lambda>x. slot_hashes \<noteq> [] \<longrightarrow> fst (last slot_hashes) \<le> x) (v_slots vote) in
       slots_ok (last_voted_slot api s) slots (v_hash vote) slot_hashes \<and>
       s' = fold (\<lambda>x s. vs_process_next_vote_slot api s x epoch slot) slots s))"
proof -
  let ?slots = "filter (\<lambda>x. slot_hashes \<noteq> [] \<longrightarrow> fst (last slot_hashes) \<le> x) (v_slots vote)"
  have f: "filter (\<lambda>x. (if slot_hashes = [] then 0 else fst (last slot_hashes)) \<le> x) (v_slots vote) = ?slots" by simp
  have c: "check_slots_are_valid api s ?slots (v_hash vote) slot_hashes \<noteq> None"
    "check_slots_are_valid api s ?slots (v_hash vote) slot_hashes = Some (Inr ()) \<longleftrightarrow> slots_ok (last_voted_slot api s) ?slots (v_hash vote) slot_hashes"
    using check_slots_iff [of slot_hashes ?slots api s "v_hash vote"] assms by (simp_all add: hist_def sorted_wrt_filter)
  show ?thesis
  proof (cases "?slots = []")
    case True
    then show ?thesis unfolding process_vote_def Let_def f by (auto simp: slots_ok_def Let_def)
  next
    case False
    then have eq: "process_vote api s vote slot_hashes epoch slot = process_vote_unfiltered api s ?slots vote slot_hashes epoch slot"
      unfolding process_vote_def Let_def f by auto
    obtain x where "check_slots_are_valid api s ?slots (v_hash vote) slot_hashes = Some x" using c(1) by blast
    then show ?thesis unfolding eq Let_def c(2) [symmetric] by (cases x) (auto simp: process_vote_unfiltered_def)
  qed
qed

section \<open>Witness\<close>

theorem process_vote_exact_witness:
  "process_vote pair_vote (sample_state []) \<lparr>v_slots = [3, 5, 7], v_hash = 42, v_timestamp = None\<rparr> [(7, 42), (6, 41), (5, 40)] 0 9
     = Some (Inr (sample_state []))"
proof -
  have "slots_ok None [5, 7] 42 [(7, 42), (6, 41), (5 :: u64, 40 :: nat)]" by (simp add: slots_ok_def pending_def)
  moreover have "last_voted_slot pair_vote (sample_state []) = None" by (simp add: pair_vote_def sample_state_def)
  moreover have "filter (\<lambda>x. [(7, 42), (6, 41), (5, 40)] \<noteq> [] \<longrightarrow> fst (last [(7, 42), (6, 41), (5 :: u64, 40 :: nat)]) \<le> x) [3, 5, 7] = [5, 7]" by simp
  moreover have "vs_process_next_vote_slot pair_vote = (\<lambda>s slot epoch current. s)" by (simp add: pair_vote_def)
  ultimately show ?thesis
    using process_vote_exact [of "[(7, 42), (6, 41), (5, 40)]" "\<lparr>v_slots = [3, 5, 7], v_hash = 42, v_timestamp = None\<rparr>" pair_vote "sample_state []" 0 9 "sample_state []"]
    by (simp add: Let_def)
qed

end
