(* ===== verification/Vote_Accounts.thy ===== *)
theory Vote_Accounts
  imports Vote_Slots
begin

text \<open>
  The vote program's handlers on accounts (\<^verbatim>\<open>programs/vote/src/vote_state/mod.rs\<close>) and its entry point
  (\<^verbatim>\<open>programs/vote/src/vote_processor.rs\<close>). Borrowed accounts, the transaction context, the versions of a vote state and the
  system variables are of other crates: what the code calls of them are the fields of \<open>account_api\<close> and \<open>invocation\<close>. The
  properties say who may change what of a vote account, and where lamports go.
\<close>

section \<open>What other crates provide\<close>

datatype instruction_error =
    InvalidAccountData | InvalidAccountOwner | InvalidInstructionData | MissingRequiredSignature | InsufficientFunds
  | UninitializedAccount | AccountAlreadyInitialized | Custom u32 | OtherInstructionError nat

record clock =
  clock_slot :: u64
  clock_epoch :: u64
  leader_schedule_epoch :: u64

record epoch_schedule =
  slots_per_epoch :: u64
  first_normal_slot :: u64

record 'p vote_init =
  vi_node_pubkey :: 'p
  vi_authorized_voter :: 'p
  vi_authorized_withdrawer :: 'p
  vi_commission :: u8

datatype vote_authorize = Voter | Withdrawer

text \<open>\<open>'a\<close> are borrowed accounts, \<open>'v\<close> versioned vote states, and \<open>'c\<close> transaction contexts, from which accounts are
  borrowed by their index in the instruction and into which they are written back; two indices may stand for one account of the
  transaction (\<open>tx_index\<close>).\<close>

record ('a, 'v, 'c, 'l, 'p, 'r) account_api =
  get_state :: "'a \<Rightarrow> instruction_error + 'v"
  set_state :: "'a \<Rightarrow> 'v \<Rightarrow> instruction_error + 'a"
  get_owner :: "'a \<Rightarrow> 'p"
  data_len :: "'a \<Rightarrow> usize"
  set_data_length :: "'a \<Rightarrow> usize \<Rightarrow> instruction_error + 'a"
  is_rent_exempt_at_data_length :: "'a \<Rightarrow> usize \<Rightarrow> bool"
  get_lamports :: "'a \<Rightarrow> u64"
  checked_sub_lamports :: "'a \<Rightarrow> u64 \<Rightarrow> instruction_error + 'a"
  checked_add_lamports :: "'a \<Rightarrow> u64 \<Rightarrow> instruction_error + 'a"
  tx_index :: "'c \<Rightarrow> nat \<Rightarrow> nat"
  try_borrow :: "'c \<Rightarrow> nat \<Rightarrow> instruction_error + 'a"
  write_back :: "'c \<Rightarrow> nat \<Rightarrow> 'a \<Rightarrow> 'c"
  vote_state_size_of :: usize
  convert_to_current :: "'v \<Rightarrow> ('l, 'p, 'r) vote_state"
  is_uninitialized :: "'v \<Rightarrow> bool"
  new_current :: "('l, 'p, 'r) vote_state \<Rightarrow> 'v"
  new_1_14_11 :: "('l, 'p, 'r) vote_state \<Rightarrow> 'v"
  vote_state_new :: "'p vote_init \<Rightarrow> clock \<Rightarrow> ('l, 'p, 'r) vote_state"
  vote_state_default :: "('l, 'p, 'r) vote_state"
  set_new_authorized_voter :: "('l, 'p, 'r) vote_state \<Rightarrow> 'p \<Rightarrow> u64 \<Rightarrow> u64 \<Rightarrow> ('p \<Rightarrow> instruction_error + unit) \<Rightarrow>
     instruction_error + ('l, 'p, 'r) vote_state"
  get_and_update_authorized_voter :: "('l, 'p, 'r) vote_state \<Rightarrow> u64 \<Rightarrow> instruction_error + 'p \<times> ('l, 'p, 'r) vote_state"
  from_vote_error :: "vote_error \<Rightarrow> instruction_error"

section \<open>Handlers\<close>

definition verify_authorized_signer :: "'p \<Rightarrow> 'p set \<Rightarrow> instruction_error + unit" where
  "verify_authorized_signer authorized signers = (if authorized \<in> signers then Inr () else Inl MissingRequiredSignature)"

text \<open>The account is made larger where that is needed and possible.\<close>

definition set_vote_account_state :: "('a, 'v, 'c, 'l, 'p, 'r) account_api \<Rightarrow> 'a \<Rightarrow> ('l, 'p, 'r) vote_state \<Rightarrow> instruction_error + 'a" where
  "set_vote_account_state ac vote_account vote_state =
     (if data_len ac vote_account < vote_state_size_of ac then
        (if \<not> is_rent_exempt_at_data_length ac vote_account (vote_state_size_of ac)
         then set_state ac vote_account (new_1_14_11 ac vote_state)
         else (case set_data_length ac vote_account (vote_state_size_of ac) of
             Inl e \<Rightarrow> set_state ac vote_account (new_1_14_11 ac vote_state)
           | Inr vote_account \<Rightarrow> set_state ac vote_account (new_current ac vote_state)))
      else set_state ac vote_account (new_current ac vote_state))"

definition authorize :: "('a, 'v, 'c, 'l, 'p, 'r) account_api \<Rightarrow> 'a \<Rightarrow> 'p \<Rightarrow> vote_authorize \<Rightarrow> 'p set \<Rightarrow> clock \<Rightarrow> instruction_error + 'a" where
  "authorize ac vote_account authorized vote_authorize signers clock =
     rbind (get_state ac vote_account) (\<lambda>versioned.
       let vote_state = convert_to_current ac versioned in
       rbind
         (case vote_authorize of
            Voter \<Rightarrow>
              (let authorized_withdrawer_signer = (verify_authorized_signer (authorized_withdrawer vote_state) signers = Inr ()) in
               case checked_add (leader_schedule_epoch clock) 1 of
                 None \<Rightarrow> Inl InvalidAccountData
               | Some target_epoch \<Rightarrow>
                   set_new_authorized_voter ac vote_state authorized (clock_epoch clock) target_epoch
                     (\<lambda>epoch_authorized_voter.
                        if authorized_withdrawer_signer then Inr () else verify_authorized_signer epoch_authorized_voter signers))
          | Withdrawer \<Rightarrow>
              rbind (verify_authorized_signer (authorized_withdrawer vote_state) signers)
                (\<lambda>_. Inr (vote_state\<lparr>authorized_withdrawer := authorized\<rparr>)))
         (set_vote_account_state ac vote_account))"

definition update_validator_identity :: "('a, 'v, 'c, 'l, 'p, 'r) account_api \<Rightarrow> 'a \<Rightarrow> 'p \<Rightarrow> 'p set \<Rightarrow> instruction_error + 'a" where
  "update_validator_identity ac vote_account node signers =
     rbind (get_state ac vote_account) (\<lambda>versioned.
       let vote_state = convert_to_current ac versioned in
       rbind (verify_authorized_signer (authorized_withdrawer vote_state) signers) (\<lambda>_.
       rbind (verify_authorized_signer node signers) (\<lambda>_.
         set_vote_account_state ac vote_account (vote_state\<lparr>node_pubkey := node\<rparr>))))"

definition is_commission_increase :: "('l, 'p, 'r) vote_state \<Rightarrow> u8 \<Rightarrow> bool" where
  "is_commission_increase vote_state new_commission \<longleftrightarrow> new_commission > commission vote_state"

text \<open>\<open>checked_rem\<close> has no value for a divisor of 0.\<close>

definition is_commission_update_allowed :: "u64 \<Rightarrow> epoch_schedule \<Rightarrow> bool" where
  "is_commission_update_allowed slot schedule =
     (if slots_per_epoch schedule \<noteq> 0 then
        (let relative_slot = saturating_sub slot (first_normal_slot schedule) mod slots_per_epoch schedule
         in saturating_mul relative_slot 2 \<le> slots_per_epoch schedule)
      else True)"

datatype vote_feature =
    allow_commission_decrease_at_any_time
  | commission_updates_only_allowed_in_first_half_of_epoch
  | deprecate_legacy_vote_ixs
  | enable_tower_sync_ix

definition update_commission :: "('a, 'v, 'c, 'l, 'p, 'r) account_api \<Rightarrow> 'a \<Rightarrow> u8 \<Rightarrow> 'p set \<Rightarrow> epoch_schedule \<Rightarrow> clock \<Rightarrow> vote_feature set \<Rightarrow>
    instruction_error + 'a" where
  "update_commission ac vote_account new_commission signers schedule clock features =
     (let (vote_state, enforce_commission_update_rule) =
            (if allow_commission_decrease_at_any_time \<in> features then
               (case get_state ac vote_account of
                  Inr decoded_vote_state \<Rightarrow>
                    (let s = convert_to_current ac decoded_vote_state in (Some s, is_commission_increase s new_commission))
                | Inl e \<Rightarrow> (None, True))
             else (None, True))
      in if enforce_commission_update_rule \<and> commission_updates_only_allowed_in_first_half_of_epoch \<in> features \<and>
           \<not> is_commission_update_allowed (clock_slot clock) schedule
         then Inl (from_vote_error ac CommissionUpdateTooLate)
         else
           rbind (case vote_state of
               Some s \<Rightarrow> Inr s
             | None \<Rightarrow> rbind (get_state ac vote_account) (\<lambda>versioned. Inr (convert_to_current ac versioned)))
             (\<lambda>vote_state.
                rbind (verify_authorized_signer (authorized_withdrawer vote_state) signers) (\<lambda>_.
                  set_vote_account_state ac vote_account (vote_state\<lparr>commission := new_commission\<rparr>))))"

text \<open>\<open>minimum_balance\<close> is the method of the rent system variable.\<close>

definition withdraw :: "('a, 'v, 'c, 'l, 'p, 'r) account_api \<Rightarrow> 'c \<Rightarrow> nat \<Rightarrow> u64 \<Rightarrow> nat \<Rightarrow> 'p set \<Rightarrow> (usize \<Rightarrow> u64) \<Rightarrow> clock \<Rightarrow>
    instruction_error + 'c" where
  "withdraw ac ctx vote_account_index lamports to_account_index signers minimum_balance clock =
     rbind (try_borrow ac ctx vote_account_index) (\<lambda>vote_account.
     rbind (get_state ac vote_account) (\<lambda>versioned.
       let vote_state = convert_to_current ac versioned in
       rbind (verify_authorized_signer (authorized_withdrawer vote_state) signers) (\<lambda>_.
         case checked_sub (get_lamports ac vote_account) lamports of
           None \<Rightarrow> Inl InsufficientFunds
         | Some remaining_balance \<Rightarrow>
             rbind
               (if remaining_balance = 0 then
                  (let reject_active_vote_account_close =
                         (epoch_credits vote_state \<noteq> [] \<and>
                          saturating_sub (clock_epoch clock) (fst (last (epoch_credits vote_state))) < 2)
                   in if reject_active_vote_account_close then Inl (from_vote_error ac ActiveVoteAccountClose)
                      else set_vote_account_state ac vote_account (vote_state_default ac))
                else
                  (let min_rent_exempt_balance = minimum_balance (data_len ac vote_account)
                   in if remaining_balance < min_rent_exempt_balance then Inl InsufficientFunds else Inr vote_account))
               (\<lambda>vote_account.
                  rbind (checked_sub_lamports ac vote_account lamports) (\<lambda>vote_account.
                    let ctx = write_back ac ctx vote_account_index vote_account in
                    rbind (try_borrow ac ctx to_account_index) (\<lambda>to_account.
                    rbind (checked_add_lamports ac to_account lamports) (\<lambda>to_account.
                      Inr (write_back ac ctx to_account_index to_account))))))))"

definition initialize_account :: "('a, 'v, 'c, 'l, 'p, 'r) account_api \<Rightarrow> 'a \<Rightarrow> 'p vote_init \<Rightarrow> 'p set \<Rightarrow> clock \<Rightarrow> instruction_error + 'a" where
  "initialize_account ac vote_account vote_init signers clock =
     (if data_len ac vote_account \<noteq> vote_state_size_of ac then Inl InvalidAccountData
      else
        rbind (get_state ac vote_account) (\<lambda>versioned.
          if \<not> is_uninitialized ac versioned then Inl AccountAlreadyInitialized
          else
            rbind (verify_authorized_signer (vi_node_pubkey vote_init) signers) (\<lambda>_.
              set_vote_account_state ac vote_account (vote_state_new ac vote_init clock))))"

definition verify_and_get_vote_state :: "('a, 'v, 'c, 'l, 'p, 'r) account_api \<Rightarrow> 'a \<Rightarrow> clock \<Rightarrow> 'p set \<Rightarrow>
    instruction_error + ('l, 'p, 'r) vote_state" where
  "verify_and_get_vote_state ac vote_account clock signers =
     rbind (get_state ac vote_account) (\<lambda>versioned.
       if is_uninitialized ac versioned then Inl UninitializedAccount
       else
         rbind (get_and_update_authorized_voter ac (convert_to_current ac versioned) (clock_epoch clock)) (\<lambda>(authorized_voter, vote_state).
         rbind (verify_authorized_signer authorized_voter signers) (\<lambda>_. Inr vote_state)))"

text \<open>An error of the vote code becomes an error of the instruction.\<close>

definition lift_vote_error :: "('a, 'v, 'c, 'l, 'p, 'r) account_api \<Rightarrow> (vote_error, 'x) outcome \<Rightarrow> (instruction_error, 'x) outcome" where
  "lift_vote_error ac = map_option (map_sum (from_vote_error ac) id)"

definition process_vote_with_account :: "('l, 'p, 'r, 'h) vote_api \<Rightarrow> ('a, 'v, 'c, 'l, 'p, 'r) account_api \<Rightarrow> 'a \<Rightarrow> (u64 \<times> 'h) list \<Rightarrow> clock \<Rightarrow>
    'h vote \<Rightarrow> 'p set \<Rightarrow> (instruction_error, 'a) outcome" where
  "process_vote_with_account api ac vote_account slot_hashes clock vote signers =
     obind (Some (verify_and_get_vote_state ac vote_account clock signers)) (\<lambda>vote_state.
     obind (lift_vote_error ac (process_vote api vote_state vote slot_hashes (clock_epoch clock) (clock_slot clock))) (\<lambda>vote_state.
     obind (lift_vote_error ac (Some (case v_timestamp vote of
         Some ts \<Rightarrow>
           if v_slots vote = [] then Inl EmptySlots
           else process_timestamp api vote_state (Max (set (v_slots vote))) ts
       | None \<Rightarrow> Inr vote_state))) (\<lambda>vote_state.
       Some (set_vote_account_state ac vote_account vote_state))))"

definition process_vote_state_update :: "('l, 'p, 'r, 'h) vote_api \<Rightarrow> ('a, 'v, 'c, 'l, 'p, 'r) account_api \<Rightarrow> 'a \<Rightarrow> (u64 \<times> 'h) list \<Rightarrow> clock \<Rightarrow>
    ('l, 'h) vote_state_update \<Rightarrow> 'p set \<Rightarrow> (instruction_error, 'a) outcome" where
  "process_vote_state_update api ac vote_account slot_hashes clock update signers =
     obind (Some (verify_and_get_vote_state ac vote_account clock signers)) (\<lambda>vote_state.
     obind (lift_vote_error ac (do_process_vote_state_update api vote_state slot_hashes (clock_epoch clock) (clock_slot clock) update)) (\<lambda>vote_state.
       Some (set_vote_account_state ac vote_account vote_state)))"

definition process_tower_sync :: "('l, 'p, 'r, 'h) vote_api \<Rightarrow> ('a, 'v, 'c, 'l, 'p, 'r) account_api \<Rightarrow> 'a \<Rightarrow> (u64 \<times> 'h) list \<Rightarrow> clock \<Rightarrow>
    ('l, 'h) tower_sync \<Rightarrow> 'p set \<Rightarrow> (instruction_error, 'a) outcome" where
  "process_tower_sync api ac vote_account slot_hashes clock tower_sync signers =
     obind (Some (verify_and_get_vote_state ac vote_account clock signers)) (\<lambda>vote_state.
     obind (lift_vote_error ac (do_process_tower_sync api vote_state slot_hashes (clock_epoch clock) (clock_slot clock) tower_sync)) (\<lambda>vote_state.
       Some (set_vote_account_state ac vote_account vote_state)))"

section \<open>The entry point\<close>

record 'p with_seed_args =
  authorization_type :: vote_authorize
  derived_key_owner :: 'p
  derived_key_seed :: string

datatype ('l, 'p, 'h) vote_instruction =
    InitializeAccount "'p vote_init"
  | Authorize 'p vote_authorize
  | VoteIx "'h vote"
  | VoteSwitch "'h vote" 'h
  | Withdraw u64
  | UpdateValidatorIdentity
  | UpdateCommission u8
  | AuthorizeChecked vote_authorize
  | UpdateVoteState "('l, 'h) vote_state_update"
  | UpdateVoteStateSwitch "('l, 'h) vote_state_update" 'h
  | CompactUpdateVoteState "('l, 'h) vote_state_update"
  | CompactUpdateVoteStateSwitch "('l, 'h) vote_state_update" 'h
  | AuthorizeWithSeed "'p with_seed_args" 'p
  | AuthorizeCheckedWithSeed "'p with_seed_args"
  | TowerSyncIx "('l, 'h) tower_sync"
  | TowerSyncSwitch "('l, 'h) tower_sync" 'h

record rent =
  is_exempt :: "u64 \<Rightarrow> usize \<Rightarrow> bool"
  minimum_balance :: "usize \<Rightarrow> u64"

text \<open>What the invoke context and the instruction context answer. The instruction is the decoded data; the answers with an
  index come from a check of the instruction account at that index.\<close>

record ('l, 'p, 'h) invocation =
  program_id :: 'p
  inv_signers :: "instruction_error + 'p set"
  decoded_instruction :: "instruction_error + ('l, 'p, 'h) vote_instruction"
  check_number_of_instruction_accounts :: "nat \<Rightarrow> instruction_error + unit"
  instruction_account_key :: "nat \<Rightarrow> instruction_error + 'p"
  is_instruction_account_signer :: "nat \<Rightarrow> instruction_error + bool"
  create_with_seed :: "'p \<Rightarrow> string \<Rightarrow> 'p \<Rightarrow> instruction_error + 'p"
  clock_with_check :: "nat \<Rightarrow> instruction_error + clock"
  rent_with_check :: "nat \<Rightarrow> instruction_error + rent"
  slot_hashes_with_check :: "nat \<Rightarrow> instruction_error + (u64 \<times> 'h) list"
  cached_clock :: "instruction_error + clock"
  cached_rent :: "instruction_error + rent"
  cached_slot_hashes :: "instruction_error + (u64 \<times> 'h) list"
  cached_epoch_schedule :: "instruction_error + epoch_schedule"
  features :: "vote_feature set"

definition process_authorize_with_seed_instruction :: "('a, 'v, 'c, 'l, 'p, 'r) account_api \<Rightarrow> ('l, 'p, 'h) invocation \<Rightarrow> 'a \<Rightarrow> 'p \<Rightarrow>
    vote_authorize \<Rightarrow> 'p \<Rightarrow> string \<Rightarrow> instruction_error + 'a" where
  "process_authorize_with_seed_instruction ac ivc vote_account new_authority authorization owner seed =
     rbind (clock_with_check ivc 1) (\<lambda>clock.
     rbind (is_instruction_account_signer ivc 2) (\<lambda>signed.
     rbind
       (if signed then
          rbind (instruction_account_key ivc 2) (\<lambda>base_pubkey.
          rbind (create_with_seed ivc base_pubkey seed owner) (\<lambda>key. Inr {key}))
        else Inr {})
       (\<lambda>expected_authority_keys. authorize ac vote_account new_authority authorization expected_authority_keys clock)))"

definition legacy_votes_disabled :: "('l, 'p, 'h) invocation \<Rightarrow> bool" where
  "legacy_votes_disabled ivc \<longleftrightarrow> deprecate_legacy_vote_ixs \<in> features ivc \<and> enable_tower_sync_ix \<in> features ivc"

definition entry_vote :: "('l, 'p, 'r, 'h) vote_api \<Rightarrow> ('a, 'v, 'c, 'l, 'p, 'r) account_api \<Rightarrow> ('l, 'p, 'h) invocation \<Rightarrow> 'a \<Rightarrow> 'p set \<Rightarrow> 'h vote \<Rightarrow>
    (instruction_error, 'a) outcome" where
  "entry_vote api ac ivc me signers vote =
     (if legacy_votes_disabled ivc then Some (Inl InvalidInstructionData)
      else obind (Some (slot_hashes_with_check ivc 1)) (\<lambda>slot_hashes. obind (Some (clock_with_check ivc 2)) (\<lambda>clock.
        process_vote_with_account api ac me slot_hashes clock vote signers)))"

definition entry_update :: "('l, 'p, 'r, 'h) vote_api \<Rightarrow> ('a, 'v, 'c, 'l, 'p, 'r) account_api \<Rightarrow> ('l, 'p, 'h) invocation \<Rightarrow> 'a \<Rightarrow> 'p set \<Rightarrow>
    ('l, 'h) vote_state_update \<Rightarrow> (instruction_error, 'a) outcome" where
  "entry_update api ac ivc me signers update =
     (if legacy_votes_disabled ivc then Some (Inl InvalidInstructionData)
      else obind (Some (cached_slot_hashes ivc)) (\<lambda>slot_hashes. obind (Some (cached_clock ivc)) (\<lambda>clock.
        process_vote_state_update api ac me slot_hashes clock update signers)))"

definition entry_sync :: "('l, 'p, 'r, 'h) vote_api \<Rightarrow> ('a, 'v, 'c, 'l, 'p, 'r) account_api \<Rightarrow> ('l, 'p, 'h) invocation \<Rightarrow> 'a \<Rightarrow> 'p set \<Rightarrow>
    ('l, 'h) tower_sync \<Rightarrow> (instruction_error, 'a) outcome" where
  "entry_sync api ac ivc me signers tower_sync =
     (if enable_tower_sync_ix \<notin> features ivc then Some (Inl InvalidInstructionData)
      else obind (Some (cached_slot_hashes ivc)) (\<lambda>slot_hashes. obind (Some (cached_clock ivc)) (\<lambda>clock.
        process_tower_sync api ac me slot_hashes clock tower_sync signers)))"

text \<open>The instructions that change only the account at index 0. A withdrawal also borrows a second account: the entry point treats it
  before it comes here.\<close>

fun process_on_account :: "('l, 'p, 'r, 'h) vote_api \<Rightarrow> ('a, 'v, 'c, 'l, 'p, 'r) account_api \<Rightarrow> ('l, 'p, 'h) invocation \<Rightarrow> 'a \<Rightarrow> 'p set \<Rightarrow>
    ('l, 'p, 'h) vote_instruction \<Rightarrow> (instruction_error, 'a) outcome" where
  "process_on_account api ac ivc me signers (InitializeAccount vote_init) =
     Some (rbind (rent_with_check ivc 1) (\<lambda>rent.
       if \<not> is_exempt rent (get_lamports ac me) (data_len ac me) then Inl InsufficientFunds
       else rbind (clock_with_check ivc 2) (\<lambda>clock. initialize_account ac me vote_init signers clock)))"
| "process_on_account api ac ivc me signers (Authorize voter_pubkey vote_authorize) =
     Some (rbind (clock_with_check ivc 1) (\<lambda>clock. authorize ac me voter_pubkey vote_authorize signers clock))"
| "process_on_account api ac ivc me signers (AuthorizeWithSeed args new_authority) =
     Some (rbind (check_number_of_instruction_accounts ivc 3) (\<lambda>_.
       process_authorize_with_seed_instruction ac ivc me new_authority (authorization_type args) (derived_key_owner args) (derived_key_seed args)))"
| "process_on_account api ac ivc me signers (AuthorizeCheckedWithSeed args) =
     Some (rbind (check_number_of_instruction_accounts ivc 4) (\<lambda>_.
       rbind (instruction_account_key ivc 3) (\<lambda>new_authority.
       rbind (is_instruction_account_signer ivc 3) (\<lambda>signed.
         if \<not> signed then Inl MissingRequiredSignature
         else process_authorize_with_seed_instruction ac ivc me new_authority (authorization_type args) (derived_key_owner args) (derived_key_seed args)))))"
| "process_on_account api ac ivc me signers UpdateValidatorIdentity =
     Some (rbind (check_number_of_instruction_accounts ivc 2) (\<lambda>_.
       rbind (instruction_account_key ivc 1) (\<lambda>node. update_validator_identity ac me node signers)))"
| "process_on_account api ac ivc me signers (UpdateCommission new_commission) =
     Some (rbind (cached_epoch_schedule ivc) (\<lambda>schedule. rbind (cached_clock ivc) (\<lambda>clock.
       update_commission ac me new_commission signers schedule clock (features ivc))))"
| "process_on_account api ac ivc me signers (VoteIx vote) = entry_vote api ac ivc me signers vote"
| "process_on_account api ac ivc me signers (VoteSwitch vote hash) = entry_vote api ac ivc me signers vote"
| "process_on_account api ac ivc me signers (UpdateVoteState update) = entry_update api ac ivc me signers update"
| "process_on_account api ac ivc me signers (UpdateVoteStateSwitch update hash) = entry_update api ac ivc me signers update"
| "process_on_account api ac ivc me signers (CompactUpdateVoteState update) = entry_update api ac ivc me signers update"
| "process_on_account api ac ivc me signers (CompactUpdateVoteStateSwitch update hash) = entry_update api ac ivc me signers update"
| "process_on_account api ac ivc me signers (TowerSyncIx tower_sync) = entry_sync api ac ivc me signers tower_sync"
| "process_on_account api ac ivc me signers (TowerSyncSwitch tower_sync hash) = entry_sync api ac ivc me signers tower_sync"
| "process_on_account api ac ivc me signers (AuthorizeChecked vote_authorize) =
     Some (rbind (check_number_of_instruction_accounts ivc 4) (\<lambda>_.
       rbind (instruction_account_key ivc 3) (\<lambda>voter_pubkey.
       rbind (is_instruction_account_signer ivc 3) (\<lambda>signed.
         if \<not> signed then Inl MissingRequiredSignature
         else rbind (clock_with_check ivc 1) (\<lambda>clock. authorize ac me voter_pubkey vote_authorize signers clock)))))"
| "process_on_account api ac ivc me signers (Withdraw lamports) = Some (Inr me)"

definition entrypoint :: "('l, 'p, 'r, 'h) vote_api \<Rightarrow> ('a, 'v, 'c, 'l, 'p, 'r) account_api \<Rightarrow> ('l, 'p, 'h) invocation \<Rightarrow> 'c \<Rightarrow>
    (instruction_error, 'c) outcome" where
  "entrypoint api ac ivc ctx =
     obind (Some (try_borrow ac ctx 0)) (\<lambda>me.
     if get_owner ac me \<noteq> program_id ivc then Some (Inl InvalidAccountOwner)
     else
       obind (Some (inv_signers ivc)) (\<lambda>signers.
       obind (Some (decoded_instruction ivc)) (\<lambda>instruction.
         case instruction of
           Withdraw lamports \<Rightarrow>
             Some (rbind (check_number_of_instruction_accounts ivc 2) (\<lambda>_.
               rbind (cached_rent ivc) (\<lambda>rent. rbind (cached_clock ivc) (\<lambda>clock.
                 withdraw ac ctx 0 lamports 1 signers (minimum_balance rent) clock))))
         | _ \<Rightarrow> obind (process_on_account api ac ivc me signers instruction) (\<lambda>me. Some (Inr (write_back ac ctx 0 me))))))"

end
