(* ===== verification/Vote_Custody.thy ===== *)
theory Vote_Custody
  imports Vote_Accounts
begin

text \<open>
  Who may change what of a vote account: without the signature of the authorized withdrawer no instruction moves lamports or
  changes the withdrawer, the identity or the commission; and a withdrawal moves exactly what it says.
\<close>

section \<open>What is relied on\<close>

definition keeps_authority :: "('l, 'p, 'r) vote_state \<Rightarrow> ('l, 'p, 'r) vote_state \<Rightarrow> bool" where
  "keeps_authority s t \<longleftrightarrow> authorized_withdrawer s = authorized_withdrawer t \<and> node_pubkey s = node_pubkey t \<and> commission s = commission t"

text \<open>Accounts: what is stored is read back, and lamports are moved without loss.\<close>

definition account_ok :: "('a, 'v, 'c, 'l, 'p, 'r) account_api \<Rightarrow> bool" where
  "account_ok ac \<longleftrightarrow>
     (\<forall>a v a'. set_state ac a v = Inr a' \<longrightarrow> get_state ac a' = Inr v \<and> get_lamports ac a' = get_lamports ac a) \<and>
     (\<forall>a n a'. set_data_length ac a n = Inr a' \<longrightarrow> get_lamports ac a' = get_lamports ac a) \<and>
     (\<forall>a n a'. checked_sub_lamports ac a n = Inr a' \<longrightarrow>
        unat (get_lamports ac a') + unat n = unat (get_lamports ac a) \<and> get_state ac a' = get_state ac a) \<and>
     (\<forall>a n a'. checked_add_lamports ac a n = Inr a' \<longrightarrow>
        unat (get_lamports ac a') = unat (get_lamports ac a) + unat n \<and> get_state ac a' = get_state ac a) \<and>
     (\<forall>c i a j. try_borrow ac (write_back ac c i a) j = (if tx_index ac c i = tx_index ac c j then Inr a else try_borrow ac c j) \<and>
        tx_index ac (write_back ac c i a) = tx_index ac c)"

text \<open>Vote states: versions keep who has authority, and so do the methods that deal with voters and votes.\<close>

definition states_ok :: "('l, 'p, 'r, 'h) vote_api \<Rightarrow> ('a, 'v, 'c, 'l, 'p, 'r) account_api \<Rightarrow> bool" where
  "states_ok api ac \<longleftrightarrow>
     (\<forall>s. convert_to_current ac (new_current ac s) = s) \<and>
     (\<forall>s. keeps_authority (convert_to_current ac (new_1_14_11 ac s)) s) \<and>
     (\<forall>s voter epoch target verify s'. set_new_authorized_voter ac s voter epoch target verify = Inr s' \<longrightarrow> keeps_authority s' s) \<and>
     (\<forall>s epoch voter s'. get_and_update_authorized_voter ac s epoch = Inr (voter, s') \<longrightarrow> keeps_authority s' s \<and> tower_of s' = tower_of s) \<and>
     (\<forall>s slot epoch current. keeps_authority (vs_process_next_vote_slot api s slot epoch current) s)"

lemma keeps_authority_refl [simp]: "keeps_authority s s"
  by (simp add: keeps_authority_def)

lemma keeps_authority_trans: "keeps_authority s t \<Longrightarrow> keeps_authority t u \<Longrightarrow> keeps_authority s u"
  by (simp add: keeps_authority_def)

lemma set_state_law: "account_ok ac \<Longrightarrow> set_state ac a v = Inr a' \<Longrightarrow> get_state ac a' = Inr v \<and> get_lamports ac a' = get_lamports ac a"
  unfolding account_ok_def by blast

lemma set_data_length_law: "account_ok ac \<Longrightarrow> set_data_length ac a n = Inr a' \<Longrightarrow> get_lamports ac a' = get_lamports ac a"
  unfolding account_ok_def by blast

lemma borrow_law:
  assumes "account_ok ac"
  shows "try_borrow ac (write_back ac c i a) j = (if tx_index ac c i = tx_index ac c j then Inr a else try_borrow ac c j)"
    and "tx_index ac (write_back ac c i a) = tx_index ac c"
  using assms unfolding account_ok_def by blast+

lemma sub_law:
  "account_ok ac \<Longrightarrow> checked_sub_lamports ac a n = Inr a' \<Longrightarrow>
     unat (get_lamports ac a') + unat n = unat (get_lamports ac a) \<and> get_state ac a' = get_state ac a"
  unfolding account_ok_def by blast

lemma add_law:
  "account_ok ac \<Longrightarrow> checked_add_lamports ac a n = Inr a' \<Longrightarrow>
     unat (get_lamports ac a') = unat (get_lamports ac a) + unat n \<and> get_state ac a' = get_state ac a"
  unfolding account_ok_def by blast

lemma state_laws:
  assumes "states_ok api ac"
  shows "convert_to_current ac (new_current ac s) = s" and "keeps_authority (convert_to_current ac (new_1_14_11 ac s)) s"
    and "set_new_authorized_voter ac s voter epoch target verify = Inr s' \<Longrightarrow> keeps_authority s' s"
    and "get_and_update_authorized_voter ac s epoch = Inr (voter, s') \<Longrightarrow> keeps_authority s' s"
    and "keeps_authority (vs_process_next_vote_slot api s slot epoch current) s"
  using assms unfolding states_ok_def by blast+

section \<open>Handlers\<close>

text \<open>The account holds a state with this authority, and its balance is the one given.\<close>

definition holds :: "('a, 'v, 'c, 'l, 'p, 'r) account_api \<Rightarrow> 'a \<Rightarrow> ('l, 'p, 'r) vote_state \<Rightarrow> u64 \<Rightarrow> bool" where
  "holds ac a s lamports \<longleftrightarrow> (\<exists>v. get_state ac a = Inr v \<and> keeps_authority (convert_to_current ac v) s) \<and> get_lamports ac a = lamports"

lemma set_vote_account_state_holds:
  assumes ac: "account_ok ac" and st: "states_ok api ac" and set: "set_vote_account_state ac a s = Inr a'" and "keeps_authority s t"
  shows "holds ac a' t (get_lamports ac a)"
proof -
  have v: "keeps_authority (convert_to_current ac (new_current ac s)) t" "keeps_authority (convert_to_current ac (new_1_14_11 ac s)) t"
    using state_laws(1) [OF st, of s] keeps_authority_trans [OF state_laws(2) [OF st] assms(4)] assms(4) by simp_all
  from set consider "set_state ac a (new_1_14_11 ac s) = Inr a'" | "set_state ac a (new_current ac s) = Inr a'"
    | b where "set_data_length ac a (vote_state_size_of ac) = Inr b" "set_state ac b (new_current ac s) = Inr a'"
    by (auto simp: set_vote_account_state_def split: if_splits sum.splits)
  then show ?thesis
  proof cases
    case 1
    from set_state_law [OF ac 1] v show ?thesis by (auto simp: holds_def)
  next
    case 2
    from set_state_law [OF ac 2] v show ?thesis by (auto simp: holds_def)
  next
    case 3
    from set_state_law [OF ac 3(2)] set_data_length_law [OF ac 3(1)] v show ?thesis by (auto simp: holds_def)
  qed
qed

lemma unsigned: "w \<notin> signers \<Longrightarrow> verify_authorized_signer w signers = Inl MissingRequiredSignature"
  by (simp add: verify_authorized_signer_def)

lemma authorize_holds:
  assumes "account_ok ac" and "states_ok api ac" and "get_state ac a = Inr v" and "authorized_withdrawer (convert_to_current ac v) \<notin> signers"
    and "authorize ac a authorized kind signers clock = Inr a'"
  shows "holds ac a' (convert_to_current ac v) (get_lamports ac a)"
  using assms(3-5) set_vote_account_state_holds [OF assms(1,2)] state_laws(3) [OF assms(2)]
  by (cases kind) (auto simp: authorize_def unsigned rbind_eq_Inr Let_def split: option.splits)

lemma not_without_withdrawer:
  assumes "get_state ac a = Inr v" and "authorized_withdrawer (convert_to_current ac v) \<notin> signers"
  shows "update_validator_identity ac a node signers \<noteq> Inr a'" and "update_commission ac a new_commission signers schedule clock fs \<noteq> Inr a'"
  using assms by (auto simp: update_validator_identity_def update_commission_def unsigned Let_def split: if_splits)

lemma verified_authority:
  assumes "states_ok api ac" and "get_state ac a = Inr v" and "verify_and_get_vote_state ac a clock signers = Inr s"
  shows "keeps_authority s (convert_to_current ac v)"
  using assms(2,3) state_laws(4) [OF assms(1)] by (auto simp: verify_and_get_vote_state_def rbind_eq_Inr split: if_splits)

lemma process_vote_authority:
  assumes "states_ok api ac" and "process_vote api s vote hs epoch slot = Some (Inr s')"
  shows "keeps_authority s' s"
proof -
  have "keeps_authority (fold (\<lambda>x s. vs_process_next_vote_slot api s x epoch slot) xs t) t" for xs t
    by (induction xs arbitrary: t) (auto intro: keeps_authority_trans state_laws(5) [OF assms(1)])
  then show ?thesis using assms(2)
    by (auto simp: process_vote_def process_vote_unfiltered_def obind_eq_Inr Let_def split: if_splits)
qed

lemma process_new_authority:
  assumes "vote_api_ok api" and "process_new_vote_state api s new r ts epoch slot = Some (Inr s')"
  shows "keeps_authority s' s"
proof -
  obtain vs c where "install_votes api s vs r ts epoch c = Inr s'"
    using assms(2) by (auto simp: process_new_vote_state_def obind_eq_Inr split: if_splits option.splits)
  from install_spec [OF assms(1) this] show ?thesis by (simp add: keeps_authority_def)
qed

lemma sync_authority:
  assumes "vote_api_ok api"
  shows "do_process_tower_sync api s hs epoch slot sync = Some (Inr s') \<Longrightarrow> keeps_authority s' s"
    and "do_process_vote_state_update api s hs epoch slot update = Some (Inr s') \<Longrightarrow> keeps_authority s' s"
  unfolding sync_tower_eq sync_tower_def by (auto simp: obind_eq_Inr intro: process_new_authority [OF assms])

lemma lift_Inr: "lift_vote_error ac m = Some (Inr x) \<longleftrightarrow> m = Some (Inr x)"
proof (cases m)
  case (Some y)
  then show ?thesis by (cases y) (simp_all add: lift_vote_error_def)
qed (simp add: lift_vote_error_def)

lemma votes_hold:
  assumes api: "vote_api_ok api" and ac: "account_ok ac" and st: "states_ok api ac" and v: "get_state ac a = Inr v"
  shows "process_vote_with_account api ac a hs clock vote signers = Some (Inr a') \<Longrightarrow> holds ac a' (convert_to_current ac v) (get_lamports ac a)"
    and "process_vote_state_update api ac a hs clock update signers = Some (Inr a') \<Longrightarrow> holds ac a' (convert_to_current ac v) (get_lamports ac a)"
    and "process_tower_sync api ac a hs clock sync signers = Some (Inr a') \<Longrightarrow> holds ac a' (convert_to_current ac v) (get_lamports ac a)"
proof -
  note set = set_vote_account_state_holds [OF ac st] and trans = keeps_authority_trans [OF _ verified_authority [OF st v]]
  have ts: "keeps_authority s' s" if "process_timestamp api s slot t = Inr s'" for s s' slot t
    using vote_api_state_laws(4) [OF api that] by (simp add: same_tower_def keeps_authority_def)
  show "holds ac a' (convert_to_current ac v) (get_lamports ac a)" if "process_vote_state_update api ac a hs clock update signers = Some (Inr a')"
    using that by (auto simp: process_vote_state_update_def obind_eq_Inr lift_Inr intro!: set intro: trans sync_authority(2) [OF api])
  show "holds ac a' (convert_to_current ac v) (get_lamports ac a)" if "process_tower_sync api ac a hs clock sync signers = Some (Inr a')"
    using that by (auto simp: process_tower_sync_def obind_eq_Inr lift_Inr intro!: set intro: trans sync_authority(1) [OF api])
  assume "process_vote_with_account api ac a hs clock vote signers = Some (Inr a')"
  then obtain s t u where s: "verify_and_get_vote_state ac a clock signers = Inr s"
      "process_vote api s vote hs (clock_epoch clock) (clock_slot clock) = Some (Inr t)"
      and u: "(case v_timestamp vote of Some x \<Rightarrow> if v_slots vote = [] then Inl EmptySlots else process_timestamp api t (Max (set (v_slots vote))) x
         | None \<Rightarrow> Inr t) = Inr u" and a': "set_vote_account_state ac a u = Inr a'"
    unfolding process_vote_with_account_def obind_eq_Inr lift_Inr by blast
  have "u = t \<or> (\<exists>slot x. process_timestamp api t slot x = Inr u)"
    using u by (cases "v_timestamp vote"; cases "v_slots vote = []") auto
  then have "keeps_authority u t" using ts by auto
  then show "holds ac a' (convert_to_current ac v) (get_lamports ac a)"
    using set [OF a'] trans [OF _ s(1)] process_vote_authority [OF st s(2)] keeps_authority_trans by blast
qed

text \<open>The signatures an instruction may rely on: the signers, and the key derived from the account at index 2.\<close>

definition authorities :: "('l, 'p, 'h) invocation \<Rightarrow> 'p set \<Rightarrow> 'p set" where
  "authorities ivc signers = signers \<union> {key. \<exists>base seed owner. is_instruction_account_signer ivc 2 = Inr True \<and>
     instruction_account_key ivc 2 = Inr base \<and> create_with_seed ivc base seed owner = Inr key}"

lemma with_seed_holds:
  assumes "account_ok ac" and "states_ok api ac" and "get_state ac a = Inr v"
    and "authorized_withdrawer (convert_to_current ac v) \<notin> authorities ivc signers"
    and "process_authorize_with_seed_instruction ac ivc a authority kind owner seed = Inr a'"
  shows "holds ac a' (convert_to_current ac v) (get_lamports ac a)"
proof -
  from assms(5) obtain clock keys where keys: "keys \<subseteq> authorities ivc signers" "authorize ac a authority kind keys clock = Inr a'"
    by (auto simp: process_authorize_with_seed_instruction_def rbind_eq_Inr authorities_def split: if_splits) blast
  with assms(4) have "authorized_withdrawer (convert_to_current ac v) \<notin> keys" by blast
  from authorize_holds [OF assms(1-3) this keys(2)] show ?thesis .
qed

lemma process_on_account_holds:
  assumes api: "vote_api_ok api" and ac: "account_ok ac" and st: "states_ok api ac" and v: "get_state ac a = Inr v" "\<not> is_uninitialized ac v"
    and w: "authorized_withdrawer (convert_to_current ac v) \<notin> authorities ivc signers"
    and run: "process_on_account api ac ivc a signers ix = Some (Inr a')"
  shows "holds ac a' (convert_to_current ac v) (get_lamports ac a)"
proof -
  have w': "authorized_withdrawer (convert_to_current ac v) \<notin> signers" using w by (simp add: authorities_def)
  note auth = authorize_holds [OF ac st v(1) w'] and seed = with_seed_holds [OF ac st v(1) w] and votes = votes_hold [OF api ac st v(1)]
  note no = not_without_withdrawer [OF v(1) w']
  have init: "initialize_account ac a i signers clock \<noteq> Inr a'" for i clock using v by (auto simp: initialize_account_def)
  have vote: "holds ac a' (convert_to_current ac v) (get_lamports ac a)" if "entry_vote api ac ivc a signers x = Some (Inr a')" for x
    using that votes(1) by (auto simp: entry_vote_def obind_eq_Inr split: if_splits)
  have update: "holds ac a' (convert_to_current ac v) (get_lamports ac a)" if "entry_update api ac ivc a signers x = Some (Inr a')" for x
    using that votes(2) by (auto simp: entry_update_def obind_eq_Inr split: if_splits)
  have sync: "holds ac a' (convert_to_current ac v) (get_lamports ac a)" if "entry_sync api ac ivc a signers x = Some (Inr a')" for x
    using that votes(3) by (auto simp: entry_sync_def obind_eq_Inr split: if_splits)
  show ?thesis
    using run auth seed no init vote update sync v(1)
    by (cases ix) (auto simp: rbind_eq_Inr holds_def split: if_splits)
qed

section \<open>Properties\<close>

text \<open>C9. Whatever vote instruction succeeds on an initialized vote account, if neither the authorized withdrawer is among the signers nor the
  withdrawer's key is derived, by whatever seed and owner, from the account at index 2 of the instruction and that account signed (the base account whose signature
  \<open>AuthorizeWithSeed\<close> takes instead), then the account keeps its lamports, withdrawer, identity and commission, and no other account of
  the transaction changes.\<close>

theorem vote_account_custody:
  assumes "vote_api_ok api" and "account_ok ac" and "states_ok api ac"
    and "try_borrow ac ctx 0 = Inr a" and "get_state ac a = Inr v" and "\<not> is_uninitialized ac v"
    and "inv_signers ivc = Inr signers" and "authorized_withdrawer (convert_to_current ac v) \<notin> authorities ivc signers"
    and "entrypoint api ac ivc ctx = Some (Inr ctx')"
  shows "\<exists>a' v'. try_borrow ac ctx' 0 = Inr a' \<and> get_state ac a' = Inr v' \<and> get_lamports ac a' = get_lamports ac a \<and>
    keeps_authority (convert_to_current ac v') (convert_to_current ac v) \<and>
    (\<forall>j. tx_index ac ctx j \<noteq> tx_index ac ctx 0 \<longrightarrow> try_borrow ac ctx' j = try_borrow ac ctx j)"
proof -
  from assms(4,7,9) obtain ix where ix: "decoded_instruction ivc = Inr ix" "get_owner ac a = program_id ivc"
    by (auto simp: entrypoint_def obind_eq_Inr split: if_splits)
  have "authorized_withdrawer (convert_to_current ac v) \<notin> signers" using assms(8) by (simp add: authorities_def)
  then have "withdraw ac ctx 0 n 1 signers mb clock \<noteq> Inr ctx'" for n mb clock
    using assms(4,5) by (simp add: withdraw_def unsigned Let_def)
  with assms(4,7,9) ix obtain a' where a': "process_on_account api ac ivc a signers ix = Some (Inr a')" "ctx' = write_back ac ctx 0 a'"
    by (cases ix) (auto simp: entrypoint_def obind_eq_Inr rbind_eq_Inr simp del: process_on_account.simps)
  from process_on_account_holds [OF assms(1-3,5,6,8) a'(1)] show ?thesis
    by (auto simp: holds_def a'(2) borrow_law [OF assms(2)])
qed

text \<open>A withdrawal succeeds only with the signature of the authorized withdrawer and moves exactly the lamports asked for from the vote
  account to the other account. What remains is either enough for rent, with the state as it was, or nothing; then the account has had
  no credits for two epochs and is closed.\<close>

theorem withdraw_exact:
  assumes "account_ok ac" and "states_ok api ac" and "try_borrow ac ctx i = Inr a" and "get_state ac a = Inr v"
    and "withdraw ac ctx i lamports j signers min_balance clock = Inr ctx'" and "tx_index ac ctx i \<noteq> tx_index ac ctx j"
  shows "authorized_withdrawer (convert_to_current ac v) \<in> signers \<and>
    (\<exists>a' b b' v'. try_borrow ac ctx j = Inr b \<and> try_borrow ac ctx' i = Inr a' \<and> try_borrow ac ctx' j = Inr b' \<and> get_state ac a' = Inr v' \<and>
      unat (get_lamports ac a) = unat (get_lamports ac a') + unat lamports \<and> unat (get_lamports ac b') = unat (get_lamports ac b) + unat lamports \<and>
      (if get_lamports ac a' = 0
       then keeps_authority (convert_to_current ac v') (vote_state_default ac) \<and>
         (epoch_credits (convert_to_current ac v) \<noteq> [] \<longrightarrow>
            unat (fst (last (epoch_credits (convert_to_current ac v)))) + 2 \<le> unat (clock_epoch clock))
       else v' = v \<and> min_balance (data_len ac a) \<le> get_lamports ac a'))"
proof -
  let ?s = "convert_to_current ac v"
  from assms(3-5) obtain remaining a1 a2 b b' where w: "authorized_withdrawer ?s \<in> signers"
    and r: "checked_sub (get_lamports ac a) lamports = Some remaining"
    and a1: "if remaining = 0
      then \<not> (epoch_credits ?s \<noteq> [] \<and> saturating_sub (clock_epoch clock) (fst (last (epoch_credits ?s))) < 2) \<and>
        set_vote_account_state ac a (vote_state_default ac) = Inr a1
      else \<not> remaining < min_balance (data_len ac a) \<and> a1 = a"
    and a2: "checked_sub_lamports ac a1 lamports = Inr a2" and b: "try_borrow ac (write_back ac ctx i a2) j = Inr b"
    and b': "checked_add_lamports ac b lamports = Inr b'" "ctx' = write_back ac (write_back ac ctx i a2) j b'"
    by (auto simp: withdraw_def rbind_eq_Inr Let_def verify_authorized_signer_def split: if_splits option.splits)
  have closed: "holds ac a1 (vote_state_default ac) (get_lamports ac a)" if "set_vote_account_state ac a (vote_state_default ac) = Inr a1"
    by (rule set_vote_account_state_holds [OF assms(1,2) that keeps_authority_refl])
  have same: "get_lamports ac a1 = get_lamports ac a"
    using a1 closed by (auto simp: holds_def split: if_splits)
  have lam: "unat (get_lamports ac a2) + unat lamports = unat (get_lamports ac a)" "get_state ac a2 = get_state ac a1"
    using sub_law [OF assms(1) a2] same by simp_all
  then have "unat (get_lamports ac a2) = unat remaining" using checked_sub_Some [OF r] by simp
  then have rem: "get_lamports ac a2 = remaining" by (rule word_unat_eqI)
  have borrows: "try_borrow ac ctx j = Inr b" "try_borrow ac ctx' i = Inr a2" "try_borrow ac ctx' j = Inr b'"
    using b assms(6) by (auto simp: b'(2) borrow_law [OF assms(1)])
  obtain v' where v': "get_state ac a2 = Inr v'"
    "if remaining = 0
     then keeps_authority (convert_to_current ac v') (vote_state_default ac) \<and>
       (epoch_credits ?s \<noteq> [] \<longrightarrow> unat (fst (last (epoch_credits ?s))) + 2 \<le> unat (clock_epoch clock))
     else v' = v \<and> min_balance (data_len ac a) \<le> remaining"
  proof (cases "remaining = 0")
    case True
    then have "epoch_credits ?s \<noteq> [] \<longrightarrow> \<not> saturating_sub (clock_epoch clock) (fst (last (epoch_credits ?s))) < 2"
      and h: "holds ac a1 (vote_state_default ac) (get_lamports ac a)"
      using a1 closed by auto
    then have "epoch_credits ?s \<noteq> [] \<longrightarrow> unat (fst (last (epoch_credits ?s))) + 2 \<le> unat (clock_epoch clock)"
      by (auto simp: word_less_nat_alt unat_saturating_sub)
    then show ?thesis using that True lam(2) h by (auto simp: holds_def)
  next
    case False
    then show ?thesis using that a1 lam(2) assms(4) by (simp add: not_less)
  qed
  from add_law [OF assms(1) b'(1)] have paid: "unat (get_lamports ac b') = unat (get_lamports ac b) + unat lamports" by simp
  show ?thesis
    by (rule conjI [OF w], rule exI [of _ a2], rule exI [of _ b], rule exI [of _ b'], rule exI [of _ v'])
      (use borrows v' lam(1) paid rem in \<open>simp split: if_splits\<close>)
qed

section \<open>Witnesses\<close>

text \<open>Accounts as pairs of a state and a balance.\<close>

type_synonym sample_account = "(u64 \<times> u32, nat, unit) vote_state \<times> u64"

definition pair_accounts :: "(sample_account, (u64 \<times> u32, nat, unit) vote_state, nat \<Rightarrow> sample_account, u64 \<times> u32, nat, unit) account_api" where
  "pair_accounts = \<lparr>get_state = (\<lambda>a. Inr (fst a)), set_state = (\<lambda>a v. Inr (v, snd a)), get_owner = (\<lambda>a. 9), data_len = (\<lambda>a. 3762),
     set_data_length = (\<lambda>a n. Inr a), is_rent_exempt_at_data_length = (\<lambda>a n. True), get_lamports = snd,
     checked_sub_lamports = (\<lambda>a n. if n \<le> snd a then Inr (fst a, snd a - n) else Inl InsufficientFunds),
     checked_add_lamports = (\<lambda>a n. case checked_add (snd a) n of Some m \<Rightarrow> Inr (fst a, m) | None \<Rightarrow> Inl InsufficientFunds),
     tx_index = (\<lambda>c i. i), try_borrow = (\<lambda>c i. Inr (c i)), write_back = (\<lambda>c i a. c(i := a)), vote_state_size_of = 3762,
     convert_to_current = id, is_uninitialized = (\<lambda>v. False), new_current = id, new_1_14_11 = id,
     vote_state_new = (\<lambda>i c. sample_state []), vote_state_default = sample_state [],
     set_new_authorized_voter = (\<lambda>s voter epoch target verify. rbind (verify 5) (\<lambda>_. Inr s)),
     get_and_update_authorized_voter = (\<lambda>s epoch. Inr (5, s)), from_vote_error = (\<lambda>e. Custom 0)\<rparr>"

lemma pair_accounts_ok: "account_ok pair_accounts" "states_ok pair_vote pair_accounts"
  by (auto simp: account_ok_def states_ok_def pair_accounts_def pair_vote_def unat_sub checked_add_Some rbind_eq_Inr word_le_nat_alt
      split: if_splits option.splits)

definition sample_invocation :: "(u64 \<times> u32, nat, nat) invocation" where
  "sample_invocation = \<lparr>program_id = 9, inv_signers = Inr {5}, decoded_instruction = Inr (Authorize 7 Voter),
     check_number_of_instruction_accounts = (\<lambda>n. Inr ()), instruction_account_key = (\<lambda>i. Inr i), is_instruction_account_signer = (\<lambda>i. Inr False),
     create_with_seed = (\<lambda>base seed owner. Inr 0), clock_with_check = (\<lambda>i. Inr \<lparr>clock_slot = 1, clock_epoch = 0, leader_schedule_epoch = 1\<rparr>),
     rent_with_check = (\<lambda>i. Inl InvalidAccountData), slot_hashes_with_check = (\<lambda>i. Inr []), cached_clock = Inl InvalidAccountData,
     cached_rent = Inl InvalidAccountData, cached_slot_hashes = Inr [], cached_epoch_schedule = Inl InvalidAccountData, features = {}\<rparr>"

theorem vote_account_custody_witness:
  "\<exists>ctx'. entrypoint pair_vote pair_accounts sample_invocation (\<lambda>i. (sample_state [], 100)) = Some (Inr ctx') \<and>
     (\<exists>a'. try_borrow pair_accounts ctx' 0 = Inr a' \<and> get_lamports pair_accounts a' = 100)"
proof -
  let ?ctx = "\<lambda>i :: nat. (sample_state [], 100 :: u64)"
  have run: "entrypoint pair_vote pair_accounts sample_invocation ?ctx = Some (Inr (?ctx(0 := (sample_state [], 100))))"
    by (simp add: entrypoint_def authorize_def verify_authorized_signer_def set_vote_account_state_def sample_invocation_def
        pair_accounts_def sample_state_def checked_add_def)
  have "authorized_withdrawer (convert_to_current pair_accounts (sample_state [])) \<notin> authorities sample_invocation {5}"
    by (simp add: authorities_def sample_invocation_def pair_accounts_def sample_state_def)
  from vote_account_custody [OF pair_vote_ok pair_accounts_ok _ _ _ _ this run] run show ?thesis
    by (auto simp: pair_accounts_def sample_invocation_def)
qed

theorem withdraw_exact_witness:
  "\<exists>ctx'. withdraw pair_accounts (\<lambda>i. (sample_state [], 100)) 0 30 1 {2} (\<lambda>n. 10) \<lparr>clock_slot = 1, clock_epoch = 0, leader_schedule_epoch = 1\<rparr> = Inr ctx' \<and>
     (\<exists>b'. try_borrow pair_accounts ctx' 1 = Inr b' \<and> unat (get_lamports pair_accounts b') = 130)"
proof -
  let ?ctx = "\<lambda>i :: nat. (sample_state [], 100 :: u64)" and ?clock = "\<lparr>clock_slot = 1, clock_epoch = 0, leader_schedule_epoch = 1\<rparr>"
  have run: "withdraw pair_accounts ?ctx 0 30 1 {2} (\<lambda>n. 10) ?clock = Inr (?ctx(0 := (sample_state [], 70), 1 := (sample_state [], 130)))"
    by (simp add: withdraw_def verify_authorized_signer_def pair_accounts_def sample_state_def checked_add_def checked_sub_def)
  from withdraw_exact [OF pair_accounts_ok _ _ run] run show ?thesis by (auto simp: pair_accounts_def)
qed

end
