(* ===== verification/Weighted_Shuffle.thy ===== *)
theory Weighted_Shuffle
  imports Rust_Prelude
begin

unbundle bit_operations_syntax

text \<open>
  The weighted shuffle of the gossip and turbine code (\<^verbatim>\<open>gossip/src/weighted_shuffle.rs\<close>) for weights of type \<open>u64\<close>: an
  array holds a tree with 16 children per node in which each entry is the sum of the weights in a subtree. Indices
  are natural numbers. The random number generator is a parameter: \<open>sample low high g\<close> is a sample from
  \<open>low\<close> up to but not including \<open>high\<close>, with the generator afterwards. \<open>None\<close> is a panic or an access out of bounds.
\<close>

section \<open>The tree\<close>

definition BIT_SHIFT :: nat where
  "BIT_SHIFT = 4"

definition FANOUT :: nat where
  "FANOUT = push_bit BIT_SHIFT 1"

definition BIT_MASK :: nat where
  "BIT_MASK = FANOUT - 1"

record weighted_shuffle =
  num_nodes :: nat
  tree :: "u64 list list"
  ws_weight :: u64
  zeros :: "nat list"

function size_loop :: "nat \<Rightarrow> nat \<Rightarrow> nat \<Rightarrow> nat \<times> nat" where
  "size_loop count size_acc nodes =
     (if nodes * FANOUT < count \<and> nodes > 0 then size_loop count (size_acc + nodes) (nodes * FANOUT) else (size_acc, nodes))"
  by pat_completeness auto
termination
  by (relation "measure (\<lambda>(count, s, nodes). count - nodes)") (auto simp: FANOUT_def BIT_SHIFT_def push_bit_eq_mult)

declare size_loop.simps [simp del]

definition get_num_nodes_and_tree_size :: "nat \<Rightarrow> nat \<times> nat" where
  "get_num_nodes_and_tree_size count =
     (case size_loop count 0 1 of (size_acc, nodes) \<Rightarrow> (size_acc + nodes, size_acc + (count + FANOUT - 1) div FANOUT))"

text \<open>The walk from a node up to the root that changes every entry for a subtree with the node.\<close>

function update_path :: "(u64 \<Rightarrow> u64) \<Rightarrow> nat \<Rightarrow> u64 list list \<Rightarrow> u64 list list option" where
  "update_path f index t =
     (if index \<noteq> 0 then
        (let offset = (index - 1) AND BIT_MASK; index = drop_bit BIT_SHIFT (index - 1)
         in if index < length t \<and> offset < length (t ! index)
            then update_path f index (t[index := (t ! index)[offset := f (t ! index ! offset)]])
            else None)
      else Some t)"
  by pat_completeness auto
termination
  by (relation "measure (\<lambda>(f, index, t). index)") (auto simp: BIT_SHIFT_def drop_bit_eq_div)

declare update_path.simps [simp del]

text \<open>The loop over the weights from index \<open>k\<close>, with the tree, the sum and the indices without weight. A weight of type \<open>u64\<close> is
  not negative.\<close>

fun new_loop :: "nat \<Rightarrow> nat \<Rightarrow> u64 list \<Rightarrow> u64 list list \<Rightarrow> u64 \<Rightarrow> nat list \<Rightarrow> (u64 list list \<times> u64 \<times> nat list) option" where
  "new_loop n k [] t sum_acc zs = Some (t, sum_acc, zs)"
| "new_loop n k (weight # weights) t sum_acc zs =
     (if weight = 0 then new_loop n (k + 1) weights t sum_acc (zs @ [k])
      else (case checked_add sum_acc weight of
          None \<Rightarrow> new_loop n (k + 1) weights t sum_acc (zs @ [k])
        | Some val \<Rightarrow>
            (case update_path (\<lambda>x. x + weight) (n + k) t of
               None \<Rightarrow> None
             | Some t \<Rightarrow> new_loop n (k + 1) weights t val zs)))"

definition ws_new :: "u64 list \<Rightarrow> weighted_shuffle option" where
  "ws_new weights =
     (case get_num_nodes_and_tree_size (length weights) of
        (n, s) \<Rightarrow>
          (case new_loop n 0 weights (replicate s (replicate FANOUT 0)) 0 [] of
             None \<Rightarrow> None
           | Some (t, sum_acc, zs) \<Rightarrow> Some \<lparr>num_nodes = n, tree = t, ws_weight = sum_acc, zeros = zs\<rparr>))"

section \<open>Operations\<close>

definition ws_remove :: "weighted_shuffle \<Rightarrow> nat \<Rightarrow> u64 \<Rightarrow> weighted_shuffle option" where
  "ws_remove self k weight =
     map_option (\<lambda>t. self\<lparr>ws_weight := ws_weight self - weight, tree := t\<rparr>)
       (update_path (\<lambda>x. x - weight) (num_nodes self + k) (tree self))"

text \<open>The search in one node: the offset of the child, its entry and what is left of the value.\<close>

fun find_child :: "u64 \<Rightarrow> nat \<Rightarrow> u64 list \<Rightarrow> (nat \<times> u64 \<times> u64) option" where
  "find_child val offset [] = None"
| "find_child val offset (node # nodes) =
     (if val < node then Some (offset, node, val) else find_child (val - node) (offset + 1) nodes)"

function search_loop :: "u64 list list \<Rightarrow> nat \<Rightarrow> u64 \<Rightarrow> nat \<Rightarrow> (nat \<times> u64) option" where
  "search_loop t n val index =
     (if index < length t then
        (case find_child val 0 (t ! index) of
           None \<Rightarrow> None
         | Some (offset, node, val) \<Rightarrow>
             (let index' = push_bit BIT_SHIFT index + offset + 1 in
              if length t \<le> index' then Some (index' - n, node) else search_loop t n val index'))
      else None)"
  by pat_completeness auto
termination
  by (relation "measure (\<lambda>(t, n, val, index). length t - index)") (auto simp: BIT_SHIFT_def push_bit_eq_mult)

declare search_loop.simps [simp del]

definition ws_search :: "weighted_shuffle \<Rightarrow> u64 \<Rightarrow> (nat \<times> u64) option" where
  "ws_search self val = search_loop (tree self) (num_nodes self) val 0"

definition remove_zero :: "weighted_shuffle \<Rightarrow> nat \<Rightarrow> weighted_shuffle" where
  "remove_zero self k = self\<lparr>zeros := remove1 k (zeros self)\<rparr>"

text \<open>An index out of range is logged and ignored.\<close>

definition remove_index :: "weighted_shuffle \<Rightarrow> nat \<Rightarrow> weighted_shuffle option" where
  "remove_index self k =
     (let index = num_nodes self + k; offset = (index - 1) AND BIT_MASK; index = drop_bit BIT_SHIFT (index - 1)
      in if index < length (tree self) then
           (let weight = tree self ! index ! offset in if weight = 0 then Some (remove_zero self k) else ws_remove self k weight)
         else Some self)"

definition ws_first :: "(nat \<Rightarrow> nat \<Rightarrow> 'g \<Rightarrow> nat \<times> 'g) \<Rightarrow> weighted_shuffle \<Rightarrow> 'g \<Rightarrow> (nat option \<times> 'g) option" where
  "ws_first sample self rng =
     (if ws_weight self > 0 then
        (case sample 0 (unat (ws_weight self)) rng of
           (x, rng) \<Rightarrow> map_option (\<lambda>(index, weight). (Some index, rng)) (ws_search self (of_nat x)))
      else if zeros self = [] then Some (None, rng)
      else (case sample 0 (length (zeros self)) rng of
          (index, rng) \<Rightarrow> Some (if index < length (zeros self) then Some (zeros self ! index) else None, rng)))"

text \<open>\<open>Vec::swap_remove\<close>: the last element takes the place of the one removed.\<close>

definition swap_remove :: "nat list \<Rightarrow> nat \<Rightarrow> (nat \<times> nat list) option" where
  "swap_remove xs i = (if i < length xs then Some (xs ! i, butlast (xs[i := last xs])) else None)"

text \<open>One call of the iterator that \<open>shuffle\<close> returns.\<close>

definition shuffle_next :: "(nat \<Rightarrow> nat \<Rightarrow> 'g \<Rightarrow> nat \<times> 'g) \<Rightarrow> weighted_shuffle \<Rightarrow> 'g \<Rightarrow> (nat option \<times> weighted_shuffle \<times> 'g) option" where
  "shuffle_next sample self rng =
     (if ws_weight self > 0 then
        (case sample 0 (unat (ws_weight self)) rng of
           (x, rng) \<Rightarrow>
             (case ws_search self (of_nat x) of
                None \<Rightarrow> None
              | Some (index, weight) \<Rightarrow> map_option (\<lambda>s. (Some index, s, rng)) (ws_remove self index weight)))
      else if zeros self = [] then Some (None, self, rng)
      else (case sample 0 (length (zeros self)) rng of
          (index, rng) \<Rightarrow> map_option (\<lambda>(k, zs). (Some k, self\<lparr>zeros := zs\<rparr>, rng)) (swap_remove (zeros self) index)))"

definition ws_clone :: "weighted_shuffle \<Rightarrow> weighted_shuffle" where
  "ws_clone self = \<lparr>num_nodes = num_nodes self, tree = tree self, ws_weight = ws_weight self, zeros = zeros self\<rparr>"

definition ws_clone_from :: "weighted_shuffle \<Rightarrow> weighted_shuffle \<Rightarrow> weighted_shuffle" where
  "ws_clone_from self other = self\<lparr>num_nodes := num_nodes other, tree := tree other, ws_weight := ws_weight other, zeros := zeros other\<rparr>"

text \<open>The first items of the iterator.\<close>

primrec shuffle_items :: "(nat \<Rightarrow> nat \<Rightarrow> 'g \<Rightarrow> nat \<times> 'g) \<Rightarrow> nat \<Rightarrow> weighted_shuffle \<Rightarrow> 'g \<Rightarrow> (nat option list \<times> weighted_shuffle) option" where
  "shuffle_items sample 0 self rng = Some ([], self)"
| "shuffle_items sample (Suc m) self rng =
     (case shuffle_next sample self rng of
        None \<Rightarrow> None
      | Some (item, s, rng) \<Rightarrow> map_option (\<lambda>(items, s). (item # items, s)) (shuffle_items sample m s rng))"

end
