(* ===== verification/Shuffle_Correct.thy ===== *)
theory Shuffle_Correct
  imports Weighted_Shuffle
begin

text \<open>
  The weighted shuffle is a permutation: the tree keeps the sums of the weights, the search in it finds the same index as
  a linear search over the weights, and the iterator gives every index once, those with weight first.
\<close>

section \<open>Paths in the tree\<close>

lemma fanout_simps: "FANOUT = 16" "x AND BIT_MASK = x mod 16" "drop_bit BIT_SHIFT x = x div 16" "push_bit BIT_SHIFT x = 16 * x"
proof -
  have mask: "BIT_MASK = mask 4" by (simp add: BIT_MASK_def FANOUT_def BIT_SHIFT_def push_bit_eq_mult mask_eq_exp_minus_1)
  show "FANOUT = 16" by (simp add: FANOUT_def BIT_SHIFT_def push_bit_eq_mult)
  show "x AND BIT_MASK = x mod 16" using take_bit_eq_mask [of 4 x] by (simp add: mask take_bit_eq_mod)
  show "drop_bit BIT_SHIFT x = x div 16" by (simp add: BIT_SHIFT_def drop_bit_eq_div)
  show "push_bit BIT_SHIFT x = 16 * x" by (simp add: BIT_SHIFT_def push_bit_eq_mult)
qed

text \<open>The entries for the subtrees with a node.\<close>

function path :: "nat \<Rightarrow> (nat \<times> nat) set" where
  "path c = (if c = 0 then {} else insert ((c - 1) div 16, (c - 1) mod 16) (path ((c - 1) div 16)))"
  by pat_completeness auto
termination
  by (relation "measure id") auto

declare path.simps [simp del]

lemma path_less: "(i, j) \<in> path c \<Longrightarrow> i < c \<and> i \<le> (c - 1) div 16 \<and> j < 16"
proof (induction c rule: less_induct)
  case (less c)
  show ?case
  proof (cases "c = 0")
    case False
    show ?thesis
    proof (cases "(i, j) \<in> path ((c - 1) div 16)")
      case True
      have "(c - 1) div 16 < c" using False by simp
      from less.IH [OF this True] this show ?thesis by linarith
    next
      case nin: False
      then have "i = (c - 1) div 16" "j = (c - 1) mod 16" using less.prems False path.simps [of c] by auto
      then show ?thesis using False by simp
    qed
  qed (use less.prems path.simps [of c] in simp)
qed

definition rows :: "u64 list list \<Rightarrow> bool" where
  "rows t \<longleftrightarrow> (\<forall>row \<in> set t. length row = 16)"

lemma rows_nth: "rows t \<Longrightarrow> i < length t \<Longrightarrow> length (t ! i) = 16"
  by (simp add: rows_def)

lemma rows_update: "rows t \<Longrightarrow> i < length t \<Longrightarrow> rows (t[i := (t ! i)[j := x]])"
  unfolding rows_def using set_update_subset_insert [of t i] by (fastforce simp: rows_def)

lemma update_path_exact:
  "rows t \<Longrightarrow> c = 0 \<or> (c - 1) div 16 < length t \<Longrightarrow>
    \<exists>t'. update_path f c t = Some t' \<and> length t' = length t \<and> rows t' \<and>
      (\<forall>i<length t. \<forall>j<16. t' ! i ! j = (if (i, j) \<in> path c then f (t ! i ! j) else t ! i ! j))"
proof (induction c arbitrary: t rule: less_induct)
  case (less c)
  show ?case
  proof (cases "c = 0")
    case False
    define x y where "x = (c - 1) div 16" and "y = (c - 1) mod 16"
    define u where "u = t[x := (t ! x)[y := f (t ! x ! y)]]"
    have x: "x < length t" "x < c" "y < 16" using less.prems False by (auto simp: x_def y_def)
    have row: "length (t ! x) = 16" using less.prems(1) x(1) by (rule rows_nth)
    have u: "rows u" "length u = length t" using less.prems(1) x(1) rows_update by (auto simp: u_def)
    have "x = 0 \<or> (x - 1) div 16 < length u" using x(1) u(2) by auto
    from less.IH [OF x(2) u(1) this] obtain t' where t': "update_path f x u = Some t'" "length t' = length u" "rows t'"
      and nth: "\<And>i j. i < length u \<Longrightarrow> j < 16 \<Longrightarrow> t' ! i ! j = (if (i, j) \<in> path x then f (u ! i ! j) else u ! i ! j)"
      by blast
    have step: "update_path f c t = Some t'"
      using False x row t'(1) unfolding u_def x_def y_def by (subst update_path.simps) (simp add: fanout_simps Let_def)
    have path: "path c = insert (x, y) (path x)" using False path.simps [of c] by (simp add: x_def y_def)
    have notin: "(x, j) \<notin> path x" for j using path_less [of x j x] by auto
    have "t' ! i ! j = (if (i, j) \<in> path c then f (t ! i ! j) else t ! i ! j)" if "i < length t" "j < 16" for i j
    proof (cases "i = x")
      case True
      then show ?thesis using nth [of x j] that u(2) x row notin [of j] by (auto simp: path u_def nth_list_update)
    next
      case False
      then show ?thesis using nth [of i j] that u(2) by (auto simp: path u_def)
    qed
    with step t' u show ?thesis by auto
  qed (use less.prems update_path.simps [of f 0 t] path.simps [of 0] in auto)
qed

section \<open>Levels\<close>

text \<open>The index of the first node at a depth.\<close>

primrec level :: "nat \<Rightarrow> nat" where
  "level 0 = 0"
| "level (Suc m) = 16 * level m + 1"

lemma level_Suc: "level (Suc m) = level m + 16 ^ m"
  by (induction m) simp_all

lemma level_mono: "r \<le> m \<Longrightarrow> level r \<le> level m"
  by (induction m) (auto simp: le_Suc_eq)

lemma level_less: "r < m \<Longrightarrow> p < 16 ^ r \<Longrightarrow> level r + p < level m"
  using level_Suc [of r] level_mono [of "Suc r" m] by simp

lemma level_unique: "level r + p = level s + q \<Longrightarrow> p < 16 ^ r \<Longrightarrow> q < 16 ^ s \<Longrightarrow> r = s \<and> p = q"
proof -
  assume eq: "level r + p = level s + q" and p: "p < 16 ^ r" and q: "q < 16 ^ s"
  have "\<not> r < s" using level_less [of r s p] p eq by fastforce
  moreover have "\<not> s < r" using level_less [of s r q] q eq by fastforce
  ultimately have "r = s" by simp
  then show ?thesis using eq by simp
qed

lemma path_level_Suc: "path (level (Suc m) + k) = insert (level m + k div 16, k mod 16) (path (level m + k div 16))"
  using path.simps [of "level (Suc m) + k"] by simp

lemma path_above: "q < 16 ^ m \<Longrightarrow> (i, j) \<in> path (level m + q) \<Longrightarrow> i < level m"
  using path_less [of i j "level m + q"] level_Suc [of m] by (cases m) (auto simp: div_less_iff_less_mult less_mult_imp_div_less)

lemma path_level:
  "k < 16 ^ m \<Longrightarrow> r < m \<Longrightarrow> p < 16 ^ r \<Longrightarrow> j < 16 \<Longrightarrow>
    (level r + p, j) \<in> path (level m + k) \<longleftrightarrow> k div 16 ^ (m - Suc r) = 16 * p + j"
proof (induction m arbitrary: k)
  case (Suc m)
  have k: "k div 16 < 16 ^ m" using Suc.prems(1) by (simp add: less_mult_imp_div_less mult.commute)
  show ?case
  proof (cases "r = m")
    case True
    have "(level m + p, j) \<notin> path (level m + k div 16)" using path_above [OF k] by fastforce
    moreover have "p = k div 16 \<and> j = k mod 16 \<longleftrightarrow> k = 16 * p + j" using Suc.prems(4) by auto
    ultimately show ?thesis unfolding True path_level_Suc by auto
  next
    case False
    have eq: "(level r + p = level m + k div 16) = False" using level_unique [of r p m "k div 16"] False k Suc.prems by auto
    have "(level r + p, j) \<in> path (level (Suc m) + k) \<longleftrightarrow> k div 16 div 16 ^ (m - Suc r) = 16 * p + j"
      unfolding path_level_Suc using Suc.IH [OF k] Suc.prems False eq by auto
    also have "k div 16 div 16 ^ (m - Suc r) = k div 16 ^ (Suc m - Suc r)"
      using False Suc.prems(2) power_Suc [of "16::nat" "m - Suc r"] by (simp add: div_mult2_eq [symmetric] Suc_diff_Suc del: power_Suc)
    finally show ?thesis .
  qed
qed simp


lemma size_loop_level:
  "\<exists>e. size_loop n (level m) (16 ^ m) = (level e, 16 ^ e) \<and> n \<le> 16 ^ Suc e \<and> m \<le> e"
proof (induction "n - 16 ^ m" arbitrary: m rule: less_induct)
  case less
  show ?case
  proof (cases "16 ^ m * 16 < n")
    case True
    moreover have "0 < (16::nat) ^ m" by simp
    ultimately have "n - 16 ^ Suc m < n - 16 ^ m" unfolding power_Suc by linarith
    from less [OF this] obtain e where "size_loop n (level (Suc m)) (16 ^ Suc m) = (level e, 16 ^ e)" "n \<le> 16 ^ Suc e" "Suc m \<le> e"
      by blast
    moreover have "size_loop n (level m) (16 ^ m) = size_loop n (level (Suc m)) (16 ^ Suc m)"
      using True by (subst size_loop.simps) (simp add: fanout_simps level_Suc mult.commute del: level.simps)
    ultimately show ?thesis by auto
  next
    case False
    then show ?thesis by (intro exI [of _ m]) (simp add: size_loop.simps fanout_simps)
  qed
qed

lemma get_num_nodes_and_tree_size_level:
  "\<exists>e. get_num_nodes_and_tree_size n = (level (Suc e), level e + (n + 15) div 16) \<and> n \<le> 16 ^ Suc e"
proof -
  obtain e where "size_loop n 0 1 = (level e, 16 ^ e)" "n \<le> 16 ^ Suc e" using size_loop_level [of n 0] by auto
  then show ?thesis
    by (intro exI [of _ e]) (simp add: get_num_nodes_and_tree_size_def fanout_simps level_Suc add.commute del: level.simps(2))
qed

section \<open>Sums\<close>

text \<open>The tree for \<open>n\<close> leaves at depth \<open>e + 1\<close> holds the sums of the weights \<open>W\<close>.\<close>

definition under :: "nat \<Rightarrow> nat \<Rightarrow> nat \<Rightarrow> nat \<Rightarrow> nat set" where
  "under n e i j = {k. k < n \<and> (i, j) \<in> path (level (Suc e) + k)}"

definition sums :: "nat \<Rightarrow> nat \<Rightarrow> u64 list list \<Rightarrow> (nat \<Rightarrow> nat) \<Rightarrow> bool" where
  "sums n e t W \<longleftrightarrow> n \<le> 16 ^ Suc e \<and> rows t \<and> length t = level e + (n + 15) div 16 \<and> (\<Sum>k<n. W k) < 2 ^ 64 \<and>
     (\<forall>i<length t. \<forall>j<16. unat (t ! i ! j) = (\<Sum>k\<in>under n e i j. W k))"

lemma finite_under [simp]: "finite (under n e i j)"
  by (simp add: under_def)

lemma sum_upd:
  "finite A \<Longrightarrow> (\<Sum>k\<in>A. (W(x := w)) k) + (if x \<in> A then W x else 0) = (\<Sum>k\<in>A. W k) + (if x \<in> A then w else (0::nat))"
proof (cases "x \<in> A")
  case True
  assume "finite A"
  then have "(\<Sum>k\<in>A. W k) = W x + (\<Sum>k\<in>A - {x}. W k)" "(\<Sum>k\<in>A. (W(x := w)) k) = w + (\<Sum>k\<in>A - {x}. (W(x := w)) k)"
    using True sum.remove [of A x W] sum.remove [of A x "W(x := w)"] by simp_all
  moreover have "(\<Sum>k\<in>A - {x}. (W(x := w)) k) = (\<Sum>k\<in>A - {x}. W k)" by (rule sum.cong) auto
  ultimately show ?thesis using True by simp
next
  case False
  then have "(\<Sum>k\<in>A. (W(x := w)) k) = (\<Sum>k\<in>A. W k)" by (intro sum.cong) auto
  then show ?thesis using False by simp
qed

lemma under_le_total: "(\<Sum>k\<in>under n e i j. W k) \<le> (\<Sum>k<n. W k :: nat)"
  by (rule sum_mono2) (auto simp: under_def)

lemma leaf_allocated: "x < n \<Longrightarrow> (level (Suc e) + x - 1) div 16 < level e + (n + 15) div 16"
  by (simp add: algebra_simps)

text \<open>A change of the weight of one leaf by a function that acts on the sums alike.\<close>

lemma sums_update:
  assumes sums: "sums n e t W" and x: "x < n" and total: "(\<Sum>k<n. (W(x := w)) k) < 2 ^ 64"
    and f: "\<And>v u. unat v = u \<Longrightarrow> W x \<le> u \<Longrightarrow> u - W x + w < 2 ^ 64 \<Longrightarrow> unat (f v) = u - W x + w"
  shows "\<exists>t'. update_path f (level (Suc e) + x) t = Some t' \<and> sums n e t' (W(x := w))"
proof -
  have t: "rows t" "length t = level e + (n + 15) div 16" "n \<le> 16 ^ Suc e"
    and nth: "\<And>i j. i < length t \<Longrightarrow> j < 16 \<Longrightarrow> unat (t ! i ! j) = (\<Sum>k\<in>under n e i j. W k)"
    using sums by (auto simp: sums_def)
  have "level (Suc e) + x = 0 \<or> (level (Suc e) + x - 1) div 16 < length t" using leaf_allocated [OF x] t(2) by simp
  from update_path_exact [OF t(1) this, of f] obtain t' where t': "update_path f (level (Suc e) + x) t = Some t'" "length t' = length t" "rows t'"
    and new: "\<And>i j. i < length t \<Longrightarrow> j < 16 \<Longrightarrow> t' ! i ! j = (if (i, j) \<in> path (level (Suc e) + x) then f (t ! i ! j) else t ! i ! j)"
    by blast
  have "unat (t' ! i ! j) = (\<Sum>k\<in>under n e i j. (W(x := w)) k)" if ij: "i < length t" "j < 16" for i j
  proof (cases "x \<in> under n e i j")
    case True
    have le: "W x \<le> (\<Sum>k\<in>under n e i j. W k)" by (rule member_le_sum) (use True in auto)
    have eq: "(\<Sum>k\<in>under n e i j. (W(x := w)) k) = (\<Sum>k\<in>under n e i j. W k) - W x + w"
      using sum_upd [of "under n e i j" W x w] True le by simp
    have "(\<Sum>k\<in>under n e i j. W k) - W x + w < 2 ^ 64"
      using under_le_total [of "W(x := w)" n e i j] total eq by linarith
    from f [OF nth [OF ij] le this] show ?thesis using new [OF ij] True eq by (simp add: under_def)
  next
    case False
    then show ?thesis using new [OF ij] nth [OF ij] sum_upd [of "under n e i j" W x w] x by (simp add: under_def)
  qed
  with t t' total show ?thesis unfolding sums_def by auto
qed

lemma sums_add:
  assumes "sums n e t W" "x < n" "W x = 0" "(\<Sum>k<n. W k) + unat w < 2 ^ 64"
  shows "\<exists>t'. update_path (\<lambda>v. v + w) (level (Suc e) + x) t = Some t' \<and> sums n e t' (W(x := unat w))"
proof (rule sums_update [OF assms(1,2)])
  show "(\<Sum>k<n. (W(x := unat w)) k) < 2 ^ 64" using sum_upd [of "{..<n}" W x "unat w"] assms by simp
qed (use assms(3) in \<open>simp add: unat_add_no_wrap\<close>)

lemma sums_remove:
  assumes "sums n e t W" "x < n" "unat w = W x"
  shows "\<exists>t'. update_path (\<lambda>v. v - w) (level (Suc e) + x) t = Some t' \<and> sums n e t' (W(x := 0))"
proof (rule sums_update [OF assms(1,2)])
  show "(\<Sum>k<n. (W(x := 0)) k) < 2 ^ 64" using sum_upd [of "{..<n}" W x 0] assms by (simp add: sums_def)
qed (use assms(3) in \<open>auto simp: unat_sub word_le_nat_alt\<close>)


section \<open>Search\<close>

text \<open>The weight of the leaves in block \<open>p\<close> of \<open>b\<close> leaves each, and that of all the leaves before.\<close>

definition block :: "(nat \<Rightarrow> nat) \<Rightarrow> nat \<Rightarrow> nat \<Rightarrow> nat \<Rightarrow> nat" where
  "block W n b p = (\<Sum>k | k < n \<and> k div b = p. W k)"

definition before :: "(nat \<Rightarrow> nat) \<Rightarrow> nat \<Rightarrow> nat \<Rightarrow> nat \<Rightarrow> nat" where
  "before W n b p = (\<Sum>k | k < n \<and> k div b < p. W k)"

lemma before_add: "before W n b (q + j) = before W n b q + (\<Sum>i<j. block W n b (q + i))"
proof (induction j)
  case (Suc j)
  have "{k. k < n \<and> k div b < q + Suc j} = {k. k < n \<and> k div b < q + j} \<union> {k. k < n \<and> k div b = q + j}" by auto
  then have "before W n b (q + Suc j) = before W n b (q + j) + block W n b (q + j)"
    unfolding before_def block_def by (simp add: sum.union_disjoint disjoint_iff)
  then show ?case using Suc by simp
qed simp

lemma before_zero [simp]: "before W n b 0 = 0"
  by (simp add: before_def)

lemma before_refine: "before W n (b * 16) p = before W n b (16 * p)"
  unfolding before_def div_mult2_eq by (simp add: div_less_iff_less_mult mult.commute)

lemma block_eq: "block W n b p = before W n b (p + 1) - before W n b p"
  using before_add [of W n b p 1] by simp

lemma block_refine: "block W n (b * 16) p = (\<Sum>j<16. block W n b (16 * p + j))"
  using before_add [of W n b "16 * p" 16] unfolding block_eq [of W n "b * 16"] before_refine by (simp add: algebra_simps)

lemma block_pos: "0 < block W n b q \<Longrightarrow> \<exists>k<n. k div b = q"
proof (rule ccontr)
  assume pos: "0 < block W n b q" and none: "\<not> (\<exists>k<n. k div b = q)"
  then have "{k. k < n \<and> k div b = q} = {}" by auto
  then have "block W n b q = 0" unfolding block_def by (simp only: sum.empty)
  then show False using pos by simp
qed

lemma block_one: "block W n 1 q = (if q < n then W q else 0)"
proof -
  have "{k. k < n \<and> k div 1 = q} = (if q < n then {q} else {})" by auto
  then show ?thesis by (simp add: block_def)
qed

lemma before_one: "q \<le> n \<Longrightarrow> before W n 1 q = (\<Sum>k<q. W k)"
  unfolding before_def by (rule sum.cong) auto

lemma find_child_exact:
  "unat val < (\<Sum>j<length xs. unat (xs ! j)) \<Longrightarrow>
    \<exists>j v. j < length xs \<and> find_child val off xs = Some (off + j, xs ! j, v) \<and>
      unat val = (\<Sum>i<j. unat (xs ! i)) + unat v \<and> unat v < unat (xs ! j)"
proof (induction xs arbitrary: val off)
  case (Cons x xs)
  have split: "(\<Sum>j<Suc m. unat ((x # xs) ! j)) = unat x + (\<Sum>j<m. unat (xs ! j))" for m
    by (subst sum.lessThan_Suc_shift) simp
  show ?case
  proof (cases "val < x")
    case True
    then show ?thesis by (intro exI [of _ 0] exI [of _ val]) (simp add: word_less_nat_alt)
  next
    case False
    then have "x \<le> val" by simp
    then have v: "unat (val - x) = unat val - unat x" "unat x \<le> unat val" by (rule unat_sub, simp add: word_le_nat_alt)
    then have "unat (val - x) < (\<Sum>j<length xs. unat (xs ! j))" using Cons.prems split [of "length xs"] by simp
    from Cons.IH [OF this, of "off + 1"] obtain j v' where "j < length xs" "find_child (val - x) (off + 1) xs = Some (off + 1 + j, xs ! j, v')"
      "unat (val - x) = (\<Sum>i<j. unat (xs ! i)) + unat v'" "unat v' < unat (xs ! j)" by blast
    then show ?thesis using False v split [of j] by (intro exI [of _ "Suc j"] exI [of _ v']) simp
  qed
qed simp

lemma sums_entry:
  assumes "sums n e t W" "r \<le> e" "p < 16 ^ r" "level r + p < length t" "j < 16"
  shows "unat (t ! (level r + p) ! j) = block W n (16 ^ (e - r)) (16 * p + j)"
proof -
  have "under n e (level r + p) j = {k. k < n \<and> k div 16 ^ (e - r) = 16 * p + j}"
    using assms path_level [of _ "Suc e" r p j] by (auto simp: under_def sums_def simp del: level.simps)
  then show ?thesis using assms by (simp add: sums_def block_def)
qed


text \<open>One step down: the child with the value is allocated unless it is a leaf.\<close>

lemma find_child_step:
  assumes sums: "sums n e t W" and r: "r \<le> e" "p < 16 ^ r" "level r + p < length t"
    and val: "unat val < block W n (16 ^ (Suc e - r)) p"
  shows "\<exists>j v. j < 16 \<and> find_child val 0 (t ! (level r + p)) = Some (j, t ! (level r + p) ! j, v) \<and>
    unat (t ! (level r + p) ! j) = block W n (16 ^ (e - r)) (16 * p + j) \<and>
    before W n (16 ^ (Suc e - r)) p + unat val = before W n (16 ^ (e - r)) (16 * p + j) + unat v \<and>
    unat v < block W n (16 ^ (e - r)) (16 * p + j)"
proof -
  define xs b where "xs = t ! (level r + p)" and "b = (16::nat) ^ (e - r)"
  have b: "16 ^ (Suc e - r) = b * 16" using r(1) by (simp add: b_def Suc_diff_le)
  have len: "length xs = 16" using sums r(3) rows_nth by (simp add: sums_def xs_def)
  have nth: "unat (xs ! j) = block W n b (16 * p + j)" if "j < 16" for j
    unfolding xs_def b_def by (rule sums_entry [OF sums r that])
  have part: "(\<Sum>i<j. unat (xs ! i)) = (\<Sum>i<j. block W n b (16 * p + i))" if "j \<le> 16" for j
    using that nth by (intro sum.cong) auto
  have "unat val < (\<Sum>j<length xs. unat (xs ! j))" using val part [of 16] len by (simp add: b block_refine)
  from find_child_exact [OF this, of 0] obtain j v where j: "j < length xs" "find_child val 0 xs = Some (j, xs ! j, v)"
    and v: "unat val = (\<Sum>i<j. unat (xs ! i)) + unat v" "unat v < unat (xs ! j)" by auto
  have "before W n (b * 16) p + unat val = before W n b (16 * p + j) + unat v"
    using v(1) part [of j] j(1) len before_add [of W n b "16 * p" j] by (simp add: before_refine)
  then show ?thesis using j v(2) nth [of j] len unfolding b by (auto simp: xs_def b_def)
qed

lemma child_allocated:
  assumes sums: "sums n e t W" and r: "r < e" "q < 16 ^ Suc r" and pos: "0 < block W n (16 ^ (e - r)) q"
  shows "level (Suc r) + q < length t"
proof (cases "Suc r = e")
  case True
  then obtain k where "k < n" "k div 16 = q" using block_pos [OF pos] r(1) by auto
  then have "q < (n + 15) div 16" by auto
  then show ?thesis using sums True by (simp add: sums_def)
next
  case False
  then have "Suc r < e" using r(1) by simp
  then show ?thesis using level_less [of "Suc r" e q] r(2) sums by (simp add: sums_def del: level.simps)
qed

lemma tree_below_leaves: "sums n e t W \<Longrightarrow> length t \<le> level (Suc e)"
proof -
  assume "sums n e t W"
  then have "length t = level e + (n + 15) div 16" "n \<le> 16 * 16 ^ e" by (auto simp: sums_def)
  then show ?thesis using level_Suc [of e] by simp
qed

lemma search_loop_exact:
  assumes "sums n e t W"
  shows "r \<le> e \<Longrightarrow> p < 16 ^ r \<Longrightarrow> level r + p < length t \<Longrightarrow> unat val < block W n (16 ^ (Suc e - r)) p \<Longrightarrow>
    \<exists>k w. search_loop t (level (Suc e)) val (level r + p) = Some (k, w) \<and> k < n \<and> unat w = W k \<and>
      (\<Sum>i<k. W i) \<le> before W n (16 ^ (Suc e - r)) p + unat val \<and>
      before W n (16 ^ (Suc e - r)) p + unat val < (\<Sum>i<k. W i) + W k"
proof (induction "e - r" arbitrary: r p val)
  case 0
  then have r: "r = e" by simp
  from find_child_step [OF assms 0(2-5)] obtain j v where j: "j < 16" "find_child val 0 (t ! (level r + p)) = Some (j, t ! (level r + p) ! j, v)"
    "unat (t ! (level r + p) ! j) = block W n 1 (16 * p + j)"
    "before W n (16 ^ (Suc e - r)) p + unat val = before W n 1 (16 * p + j) + unat v" "unat v < block W n 1 (16 * p + j)" by (auto simp: r)
  have k: "16 * p + j < n" using j(5) block_one [of W n "16 * p + j"] by (auto split: if_splits)
  have idx: "16 * (level e + p) + j + 1 = level (Suc e) + (16 * p + j)" by simp
  have "search_loop t (level (Suc e)) val (level r + p) = Some (16 * p + j, t ! (level r + p) ! j)"
    using 0(4) j(2) tree_below_leaves [OF assms] unfolding r
    by (subst search_loop.simps) (simp only: fanout_simps idx if_True option.case prod.case Let_def, simp)
  then show ?case using j k block_one [of W n "16 * p + j"] before_one [of "16 * p + j" n W] by auto
next
  case (Suc d)
  from find_child_step [OF assms Suc(3-6)] obtain j v where j: "j < 16" "find_child val 0 (t ! (level r + p)) = Some (j, t ! (level r + p) ! j, v)"
    "before W n (16 ^ (Suc e - r)) p + unat val = before W n (16 ^ (e - r)) (16 * p + j) + unat v"
    "unat v < block W n (16 ^ (e - r)) (16 * p + j)" by auto
  have r: "d = e - Suc r" "Suc r \<le> e" "r < e" "16 * p + j < 16 ^ Suc r" using Suc(2,4) j(1) by auto
  have alloc: "level (Suc r) + (16 * p + j) < length t" by (rule child_allocated [OF assms r(3,4)]) (use j(4) in simp)
  have idx: "16 * (level r + p) + j + 1 = level (Suc r) + (16 * p + j)" by simp
  have "search_loop t (level (Suc e)) val (level r + p) = search_loop t (level (Suc e)) v (level (Suc r) + (16 * p + j))"
    using Suc(5) j(2) alloc by (subst search_loop.simps) (simp only: fanout_simps idx if_True option.case prod.case Let_def, simp)
  then show ?case using Suc(1) [OF r(1,2,4) alloc, of v] j(3,4) by simp
qed

end
