(* ===== verification/Shuffle_Props.thy ===== *)
theory Shuffle_Props
  imports Shuffle_Correct
begin

text \<open>
  The invariant of the weighted shuffle, that every operation keeps it, and the two properties: the search
  is a linear search over the weights, and the iterator gives a permutation.
\<close>

section \<open>Invariant\<close>

text \<open>Weight \<open>W k\<close> is what is left for index \<open>k\<close> of \<open>n\<close> indices.\<close>

definition ws_inv :: "nat \<Rightarrow> nat \<Rightarrow> (nat \<Rightarrow> nat) \<Rightarrow> weighted_shuffle \<Rightarrow> bool" where
  "ws_inv n e W s \<longleftrightarrow> num_nodes s = level (Suc e) \<and> sums n e (tree s) W \<and> unat (ws_weight s) = (\<Sum>k<n. W k) \<and>
     (\<forall>k\<ge>n. W k = 0) \<and> distinct (zeros s) \<and> (\<forall>k \<in> set (zeros s). k < n \<and> W k = 0)"

text \<open>The weights that count: one that would make the sum overflow is taken as zero.\<close>

fun effective :: "nat \<Rightarrow> nat list \<Rightarrow> nat list" where
  "effective acc [] = []"
| "effective acc (w # ws) = (if acc + w < 2 ^ 64 then w # effective (acc + w) ws else 0 # effective acc ws)"

lemma length_effective [simp]: "length (effective acc ws) = length ws"
  by (induction acc ws rule: effective.induct) auto

lemma effective_id: "acc + sum_list ws < 2 ^ 64 \<Longrightarrow> effective acc ws = ws"
  by (induction acc ws rule: effective.induct) auto

definition installed :: "nat \<Rightarrow> (nat \<Rightarrow> nat) \<Rightarrow> nat list \<Rightarrow> nat \<Rightarrow> nat" where
  "installed k W ws i = (if i < k then W i else if i < k + length ws then ws ! (i - k) else 0)"

lemma installed_Cons:
  "(\<And>i. k \<le> i \<Longrightarrow> W i = 0) \<Longrightarrow> installed k W (w # ws) = installed (k + 1) (W(k := w)) ws"
  by (rule ext) (auto simp: installed_def nth_Cons' less_Suc_eq)

lemma new_loop_exact:
  "sums n e t W \<Longrightarrow> k + length ws = n \<Longrightarrow> (\<And>i. k \<le> i \<Longrightarrow> W i = 0) \<Longrightarrow> unat tot = (\<Sum>i<n. W i) \<Longrightarrow>
    zs = filter (\<lambda>i. W i = 0) [0..<k] \<Longrightarrow> V = installed k W (effective (unat tot) (map unat ws)) \<Longrightarrow>
    \<exists>t' tot'. new_loop (level (Suc e)) k ws t tot zs = Some (t', tot', filter (\<lambda>i. V i = 0) [0..<n]) \<and>
      sums n e t' V \<and> unat tot' = (\<Sum>i<n. V i)"
proof (induction ws arbitrary: k t W tot zs V)
  case Nil
  then have "V = W" by (auto simp: installed_def fun_eq_iff)
  then show ?case using Nil by simp
next
  case (Cons w ws)
  have k: "k < n" "(k + 1) + length ws = n" "W k = 0" using Cons.prems by auto
  have zero: "W i = 0" if "k + 1 \<le> i" for i using Cons.prems(3) that by simp
  show ?case
  proof (cases "w = 0 \<or> \<not> unat tot + unat w < 2 ^ 64")
    case True
    then have "effective (unat tot) (map unat (w # ws)) = 0 # effective (unat tot) (map unat ws)"
      using unat_less_pow [of tot] by auto
    then have V: "V = installed (k + 1) (W(k := 0)) (effective (unat tot) (map unat ws))"
      using Cons.prems(6) installed_Cons [of k W 0] Cons.prems(3) by simp
    have W: "W(k := 0) = W" using k(3) by auto
    have "new_loop (level (Suc e)) k (w # ws) t tot zs = new_loop (level (Suc e)) (k + 1) ws t tot (zs @ [k])"
      using True by (auto simp: checked_add_def)
    then show ?thesis
      using Cons.IH [OF Cons.prems(1) k(2) zero Cons.prems(4) _ V [unfolded W], of "zs @ [k]"] Cons.prems(5) k(3) by simp
  next
    case False
    then have w: "w \<noteq> 0" "unat tot + unat w < 2 ^ 64" by auto
    then have "V = installed (k + 1) (W(k := unat w)) (effective (unat (tot + w)) (map unat ws))"
      using Cons.prems(6) installed_Cons [of k W "unat w"] Cons.prems(3) by (simp add: unat_add_no_wrap)
    note V = this
    have "(\<Sum>i<n. W i) + unat w < 2 ^ 64" using w(2) Cons.prems(4) by simp
    from sums_add [OF Cons.prems(1) k(1,3) this] obtain u where
      u: "update_path (\<lambda>v. v + w) (level (Suc e) + k) t = Some u" "sums n e u (W(k := unat w))" by blast
    have tot: "unat (tot + w) = (\<Sum>i<n. (W(k := unat w)) i)"
      using sum_upd [of "{..<n}" W k "unat w"] k Cons.prems(4) w(2) by (simp add: unat_add_no_wrap)
    have "zs = filter (\<lambda>i. (W(k := unat w)) i = 0) [0..<k + 1]"
      using Cons.prems(5) w(1) by (auto simp: unat_eq_zero_iff intro!: filter_cong)
    moreover have "(W(k := unat w)) i = 0" if "k + 1 \<le> i" for i using zero that by simp
    moreover have "new_loop (level (Suc e)) k (w # ws) t tot zs = new_loop (level (Suc e)) (k + 1) ws u (tot + w) zs"
      using w u(1) by (simp add: checked_add_def)
    ultimately show ?thesis using Cons.IH [OF u(2) k(2) _ tot _ V, of zs] by simp
  qed
qed

lemma sums_empty: "n \<le> 16 ^ Suc e \<Longrightarrow> sums n e (replicate (level e + (n + 15) div 16) (replicate 16 0)) (\<lambda>_. 0)"
  by (auto simp: sums_def rows_def)

text \<open>The weights of a new shuffle.\<close>

definition initial :: "u64 list \<Rightarrow> nat \<Rightarrow> nat" where
  "initial weights = installed 0 (\<lambda>_. 0) (effective 0 (map unat weights))"

lemma ws_new_exact:
  "\<exists>s e. ws_new weights = Some s \<and> ws_inv (length weights) e (initial weights) s \<and>
    zeros s = filter (\<lambda>i. initial weights i = 0) [0..<length weights]"
proof -
  let ?n = "length weights"
  obtain e where e: "get_num_nodes_and_tree_size ?n = (level (Suc e), level e + (?n + 15) div 16)" "?n \<le> 16 ^ Suc e"
    using get_num_nodes_and_tree_size_level by blast
  have "\<exists>t tot. new_loop (level (Suc e)) 0 weights (replicate (level e + (?n + 15) div 16) (replicate 16 0)) 0 [] =
      Some (t, tot, filter (\<lambda>i. initial weights i = 0) [0..<?n]) \<and> sums ?n e t (initial weights) \<and> unat tot = (\<Sum>i<?n. initial weights i)"
    by (rule new_loop_exact [OF sums_empty [OF e(2)]]) (simp_all add: initial_def)
  moreover have "initial weights k = 0" if "?n \<le> k" for k using that by (simp add: initial_def installed_def)
  ultimately show ?thesis using e(1) by (auto simp: ws_new_def fanout_simps ws_inv_def simp del: level.simps)
qed


section \<open>Operations\<close>

lemma ws_remove_inv:
  assumes "ws_inv n e W s" "k < n" "unat w = W k" "k \<notin> set (zeros s)"
  shows "\<exists>s'. ws_remove s k w = Some s' \<and> ws_inv n e (W(k := 0)) s' \<and> zeros s' = zeros s"
proof -
  have s: "num_nodes s = level (Suc e)" "sums n e (tree s) W" "unat (ws_weight s) = (\<Sum>i<n. W i)" using assms(1) by (auto simp: ws_inv_def)
  obtain t where t: "update_path (\<lambda>v. v - w) (level (Suc e) + k) (tree s) = Some t" "sums n e t (W(k := 0))"
    using sums_remove [OF s(2) assms(2,3)] by blast
  have "W k \<le> (\<Sum>i<n. W i)" by (rule member_le_sum) (use assms(2) in auto)
  then have "unat (ws_weight s - w) = (\<Sum>i<n. (W(k := 0)) i)"
    using sum_upd [of "{..<n}" W k 0] assms(2,3) s(3) unat_sub [of w "ws_weight s"] by (simp add: word_le_nat_alt)
  then show ?thesis using assms t s(1) by (auto simp: ws_remove_def ws_inv_def simp del: level.simps)
qed

lemma ws_search_inv:
  assumes "ws_inv n e W s" "val < ws_weight s"
  shows "\<exists>k w. ws_search s val = Some (k, w) \<and> k < n \<and> unat w = W k \<and> (\<Sum>i<k. W i) \<le> unat val \<and> unat val < (\<Sum>i<k. W i) + W k"
proof -
  have s: "num_nodes s = level (Suc e)" "sums n e (tree s) W" "unat (ws_weight s) = (\<Sum>i<n. W i)" "n \<le> 16 ^ Suc e"
    using assms(1) by (auto simp: ws_inv_def sums_def)
  have "block W n (16 ^ Suc e) 0 = (\<Sum>i<n. W i)" unfolding block_def using s(4) by (intro sum.cong) (auto simp: div_eq_0_iff simp del: power_Suc)
  then have val: "unat val < block W n (16 ^ (Suc e - 0)) 0" using assms(2) s(3) by (simp add: word_less_nat_alt)
  then have "n > 0" using block_pos [of W n] by (metis gr0I not_less_zero)
  then have "0 < (n + 15) div 16" by (simp add: div_greater_zero_iff)
  then have "level 0 + 0 < length (tree s)" using s(2) by (simp add: sums_def)
  from search_loop_exact [OF s(2) _ _ this val] show ?thesis using s(1) by (simp add: ws_search_def)
qed

lemma leaf_entry:
  assumes "sums n e t W" "(\<forall>i\<ge>n. W i = 0)" "level e + k div 16 < length t"
  shows "unat (t ! (level e + k div 16) ! (k mod 16)) = W k"
proof -
  have "k div 16 < 16 ^ e" using assms(1,3) tree_below_leaves [OF assms(1)] level_Suc [of e] by simp
  then have "unat (t ! (level e + k div 16) ! (k mod 16)) = block W n 1 k"
    using sums_entry [OF assms(1) order_refl _ assms(3), of "k mod 16"] by simp
  then show ?thesis using assms(2) by (simp add: block_one del: One_nat_def)
qed

lemma remove_index_inv:
  assumes "ws_inv n e W s"
  shows "\<exists>s'. remove_index s k = Some s' \<and> ws_inv n e (W(k := 0)) s' \<and> set (zeros s') = set (zeros s) - {k}"
proof -
  have s: "num_nodes s = level (Suc e)" "sums n e (tree s) W" "\<forall>i\<ge>n. W i = 0" "distinct (zeros s)" "\<forall>i\<in>set (zeros s). i < n \<and> W i = 0"
    using assms by (auto simp: ws_inv_def)
  let ?w = "tree s ! (level e + k div 16) ! (k mod 16)"
  have rm: "remove_index s k = (if level e + k div 16 < length (tree s) then if ?w = 0 then Some (remove_zero s k) else ws_remove s k ?w else Some s)"
    by (simp add: remove_index_def Let_def s(1) fanout_simps)
  show ?thesis
  proof (cases "level e + k div 16 < length (tree s)")
    case True
    note entry = leaf_entry [OF s(2,3) True]
    show ?thesis
    proof (cases "W k = 0")
      case z: True
      then have W: "W(k := 0) = W" by auto
      show ?thesis using assms entry True z s(4,5) unfolding rm W by (auto simp: unat_eq_zero_iff remove_zero_def ws_inv_def)
    next
      case False
      have k: "k < n" "k \<notin> set (zeros s)" using s(3,5) False by (metis not_le, metis)
      from ws_remove_inv [OF assms k(1) entry k(2)] show ?thesis using entry True False k(2) unfolding rm by auto
    qed
  next
    case False
    then have "n \<le> k" using leaf_allocated [of k n e] s(2) by (auto simp: sums_def algebra_simps not_less)
    then have "W(k := 0) = W" "k \<notin> set (zeros s)" using s(3,5) by auto
    then show ?thesis using assms False unfolding rm by auto
  qed
qed

text \<open>The documented behaviour of the sampler: the sample lies in the half-open range.\<close>

definition sampler_ok :: "(nat \<Rightarrow> nat \<Rightarrow> 'g \<Rightarrow> nat \<times> 'g) \<Rightarrow> bool" where
  "sampler_ok sample \<longleftrightarrow> (\<forall>low high g. low < high \<longrightarrow> low \<le> fst (sample low high g) \<and> fst (sample low high g) < high)"

lemma sampler_less: "sampler_ok sample \<Longrightarrow> 0 < m \<Longrightarrow> sample 0 m g = (x, g') \<Longrightarrow> x < m"
  unfolding sampler_ok_def by (metis fst_conv)

lemma swap_remove_exact:
  assumes "i < length xs" "distinct xs"
  shows "\<exists>ys. swap_remove xs i = Some (xs ! i, ys) \<and> distinct ys \<and> set ys = set xs - {xs ! i}"
proof (cases "i = length xs - 1")
  case True
  obtain ys x where xs: "xs = ys @ [x]" using assms(1) by (cases xs rule: rev_cases) auto
  then show ?thesis using assms True by (auto simp: swap_remove_def)
next
  case False
  obtain ys x where xs: "xs = ys @ [x]" using assms(1) by (cases xs rule: rev_cases) auto
  then have i: "i < length ys" "ys ! i = xs ! i" using assms(1) False by (auto simp: nth_append)
  then have ys: "ys = take i ys @ xs ! i # drop (Suc i) ys" by (metis id_take_nth_drop)
  have "swap_remove xs i = Some (xs ! i, take i ys @ x # drop (Suc i) ys)"
    using i xs by (simp add: swap_remove_def list_update_append upd_conv_take_nth_drop butlast_append)
  moreover have "distinct (take i ys @ xs ! i # drop (Suc i) ys @ [x])" "set xs = set (take i ys @ xs ! i # drop (Suc i) ys @ [x])"
    using assms(2) ys xs by (metis append.assoc append_Cons)+
  ultimately show ?thesis by auto
qed


lemma weight_pos_iff: "ws_inv n e W s \<Longrightarrow> 0 < ws_weight s \<longleftrightarrow> (\<exists>k. 0 < W k)"
proof -
  assume i: "ws_inv n e W s"
  have sum: "unat (ws_weight s) = (\<Sum>k<n. W k)" and high: "\<And>k. n \<le> k \<Longrightarrow> W k = 0" using i by (auto simp: ws_inv_def)
  have "0 < ws_weight s \<longleftrightarrow> (\<Sum>k<n. W k) \<noteq> 0" unfolding sum [symmetric] by (simp add: word_gt_0 unat_eq_zero_iff)
  also have "\<dots> \<longleftrightarrow> (\<exists>k<n. 0 < W k)" by auto
  also have "\<dots> \<longleftrightarrow> (\<exists>k. 0 < W k)" using high by (metis less_irrefl not_le)
  finally show ?thesis .
qed

lemma next_weighted:
  assumes "ws_inv n e W s" "sampler_ok sample" "0 < W j"
  shows "\<exists>k s' g'. shuffle_next sample s g = Some (Some k, s', g') \<and> 0 < W k \<and> ws_inv n e (W(k := 0)) s' \<and> zeros s' = zeros s"
proof -
  have pos: "0 < ws_weight s" using weight_pos_iff [OF assms(1)] assms(3) by blast
  obtain x g' where x: "sample 0 (unat (ws_weight s)) g = (x, g')" by fastforce
  have "x < unat (ws_weight s)" using sampler_less [OF assms(2) _ x] pos by (simp add: word_less_nat_alt)
  then have "(of_nat x :: u64) < ws_weight s"
    using unat_of_nat_small [where 'a = 64, of x] unat_less_pow [of "ws_weight s"] by (simp add: word_less_nat_alt)
  from ws_search_inv [OF assms(1) this] obtain k w where k: "ws_search s (of_nat x) = Some (k, w)" "k < n" "unat w = W k" "0 < W k"
    by (metis add_less_cancel_left add.right_neutral le_less_trans)
  have "k \<notin> set (zeros s)" using assms(1) k(4) by (auto simp: ws_inv_def)
  from ws_remove_inv [OF assms(1) k(2,3) this] obtain s' where "ws_remove s k w = Some s'" "ws_inv n e (W(k := 0)) s'" "zeros s' = zeros s"
    by blast
  then show ?thesis using pos x k by (simp add: shuffle_next_def)
qed

lemma next_zero:
  assumes "ws_inv n e W s" "sampler_ok sample" "\<And>k. W k = 0" "zeros s \<noteq> []"
  shows "\<exists>k s' g'. shuffle_next sample s g = Some (Some k, s', g') \<and> k \<in> set (zeros s) \<and> ws_inv n e W s' \<and> set (zeros s') = set (zeros s) - {k}"
proof -
  obtain x g' where x: "sample 0 (length (zeros s)) g = (x, g')" by fastforce
  have less: "x < length (zeros s)" using sampler_less [OF assms(2) _ x] assms(4) by simp
  obtain ys where ys: "swap_remove (zeros s) x = Some (zeros s ! x, ys)" "distinct ys" "set ys = set (zeros s) - {zeros s ! x}"
    using swap_remove_exact [OF less] assms(1) by (auto simp: ws_inv_def)
  have "\<not> 0 < ws_weight s" using weight_pos_iff [OF assms(1)] assms(3) by simp
  then show ?thesis using assms(1,4) x ys less by (auto simp: shuffle_next_def ws_inv_def)
qed

lemma next_done:
  assumes "ws_inv n e W s" "\<And>k. W k = 0" "zeros s = []"
  shows "shuffle_next sample s g = Some (None, s, g)"
  using weight_pos_iff [OF assms(1)] assms(2,3) by (simp add: shuffle_next_def)

text \<open>\<open>first\<close> gives what the iterator would give next.\<close>

lemma ws_first_is_next:
  assumes "ws_inv n e W s" "sampler_ok sample"
  shows "ws_first sample s g = map_option (\<lambda>(item, s', g'). (item, g')) (shuffle_next sample s g)"
proof (cases "0 < ws_weight s")
  case True
  obtain x g' where x: "sample 0 (unat (ws_weight s)) g = (x, g')" by fastforce
  obtain j where "0 < W j" using weight_pos_iff [OF assms(1)] True by blast
  from next_weighted [OF assms this] obtain k s' g'' where "shuffle_next sample s g = Some (Some k, s', g'')" by blast
  then show ?thesis using True x by (auto simp: ws_first_def shuffle_next_def split: option.splits)
next
  case False
  obtain x g' where x: "sample 0 (length (zeros s)) g = (x, g')" by fastforce
  show ?thesis
  proof (cases "zeros s = []")
    case True
    then show ?thesis using False by (simp add: ws_first_def shuffle_next_def)
  next
    case ne: False
    then have "x < length (zeros s)" using sampler_less [OF assms(2) _ x] by simp
    then show ?thesis using False ne x by (simp add: ws_first_def shuffle_next_def swap_remove_def)
  qed
qed

lemma items_done:
  "ws_inv n e W s \<Longrightarrow> (\<And>k. W k = 0) \<Longrightarrow> zeros s = [] \<Longrightarrow> shuffle_items sample m s g = Some (replicate m None, s)"
  by (induction m) (simp_all add: next_done)

lemma items_zero:
  assumes "sampler_ok sample" "\<And>k. W k = 0"
  shows "ws_inv n e W s \<Longrightarrow> \<exists>zs s'. shuffle_items sample (length (zeros s) + m) s g = Some (map Some zs @ replicate m None, s') \<and>
    distinct zs \<and> set zs = set (zeros s)"
proof (induction "length (zeros s)" arbitrary: s g)
  case 0
  then show ?case using items_done [OF 0(2) assms(2)] by (intro exI [of _ "[]"] exI [of _ s]) simp
next
  case (Suc l)
  then have "zeros s \<noteq> []" by auto
  from next_zero [OF Suc(3) assms this] obtain k s1 g1 where
    k: "shuffle_next sample s g = Some (Some k, s1, g1)" "k \<in> set (zeros s)" "ws_inv n e W s1" "set (zeros s1) = set (zeros s) - {k}" by blast
  have "length (zeros s1) = card (set (zeros s) - {k})" using k(3,4) distinct_card [of "zeros s1"] by (simp add: ws_inv_def)
  then have l: "l = length (zeros s1)" using Suc(2,3) k(2) distinct_card [of "zeros s"] by (simp add: ws_inv_def)
  from Suc(1) [OF l k(3)] obtain zs s' where "shuffle_items sample (length (zeros s1) + m) s1 g1 = Some (map Some zs @ replicate m None, s')"
    "distinct zs" "set zs = set (zeros s1)" by blast
  then show ?case using k l Suc(2) [symmetric] by (intro exI [of _ "k # zs"]) (auto simp: insert_absorb)
qed

lemma items_all:
  assumes "sampler_ok sample"
  shows "ws_inv n e W s \<Longrightarrow> \<exists>ks zs s'. shuffle_items sample (card {k. 0 < W k} + length (zeros s) + m) s g = Some (map Some (ks @ zs) @ replicate m None, s') \<and>
    distinct (ks @ zs) \<and> set ks = {k. 0 < W k} \<and> set zs = set (zeros s)"
proof (induction "card {k. 0 < W k}" arbitrary: W s g)
  case 0
  have "finite {k. 0 < W k}" by (rule finite_subset [of _ "{..<n}"]) (use 0(2) in \<open>auto simp: ws_inv_def not_less [symmetric]\<close>)
  then have "W k = 0" for k using 0(1) by auto
  with items_zero [OF assms this 0(2), of m g] show ?case by fastforce
next
  case (Suc c)
  then obtain j where "0 < W j" by (metis (mono_tags, lifting) Collect_empty_eq card.empty nat.distinct(1))
  from next_weighted [OF Suc(3) assms this] obtain k s1 g1 where
    k: "shuffle_next sample s g = Some (Some k, s1, g1)" "0 < W k" "ws_inv n e (W(k := 0)) s1" "zeros s1 = zeros s" by blast
  have eq: "{i. 0 < (W(k := 0)) i} = {i. 0 < W i} - {k}" by auto
  then have c: "c = card {i. 0 < (W(k := 0)) i}" using Suc(2) k(2) by simp
  from Suc(1) [OF c k(3), of g1, folded c, unfolded eq k(4)] obtain ks zs s' where
    ks: "shuffle_items sample (c + length (zeros s) + m) s1 g1 = Some (map Some (ks @ zs) @ replicate m None, s')"
    "distinct (ks @ zs)" "set ks = {i. 0 < W i} - {k}" "set zs = set (zeros s)" by blast
  have "k \<notin> set (zeros s)" using Suc(3) k(2) unfolding ws_inv_def by (metis less_irrefl)
  then have "distinct ((k # ks) @ zs)" "set (k # ks) = {i. 0 < W i}" using ks(2-4) k(2) by auto
  moreover have "shuffle_items sample (card {i. 0 < W i} + length (zeros s) + m) s g = Some (map Some ((k # ks) @ zs) @ replicate m None, s')"
    unfolding Suc(2) [symmetric] using k(1) ks(1) by simp
  ultimately show ?case using ks(4) by blast
qed


text \<open>A clone is the same shuffle, whatever the shuffle that is overwritten was.\<close>

lemma clone_is_same: "ws_clone s = s \<and> ws_clone_from old s = s"
  by (simp add: ws_clone_def ws_clone_from_def)

section \<open>Properties\<close>

text \<open>Removing indices before shuffling, as the callers do.\<close>

primrec remove_indices :: "weighted_shuffle \<Rightarrow> nat list \<Rightarrow> weighted_shuffle option" where
  "remove_indices s [] = Some s"
| "remove_indices s (k # ks) = (case remove_index s k of None \<Rightarrow> None | Some s \<Rightarrow> remove_indices s ks)"

definition without :: "(nat \<Rightarrow> nat) \<Rightarrow> nat list \<Rightarrow> nat \<Rightarrow> nat" where
  "without W ks i = (if i \<in> set ks then 0 else W i)"

lemma remove_indices_inv:
  "ws_inv n e W s \<Longrightarrow> \<exists>s'. remove_indices s ks = Some s' \<and> ws_inv n e (without W ks) s' \<and> set (zeros s') = set (zeros s) - set ks"
proof (induction ks arbitrary: W s)
  case Nil
  have "without W [] = W" by (simp add: without_def fun_eq_iff)
  then show ?case using Nil by simp
next
  case (Cons k ks)
  obtain s1 where s1: "remove_index s k = Some s1" "ws_inv n e (W(k := 0)) s1" "set (zeros s1) = set (zeros s) - {k}"
    using remove_index_inv [OF Cons.prems] by blast
  have eq: "without (W(k := 0)) ks = without W (k # ks)" by (auto simp: without_def fun_eq_iff)
  from Cons.IH [OF s1(2), unfolded eq] obtain s' where "remove_indices s1 ks = Some s'" "ws_inv n e (without W (k # ks)) s'"
    "set (zeros s') = set (zeros s1) - set ks" by blast
  then show ?case using s1(1,3) by auto
qed

lemma initial_nth: "k < length weights \<Longrightarrow> initial weights k = effective 0 (map unat weights) ! k"
  by (simp add: initial_def installed_def)

lemma removed_exact:
  "\<exists>s0 s e. ws_new weights = Some s0 \<and> remove_indices s0 rm = Some s \<and> ws_inv (length weights) e (without (initial weights) rm) s \<and>
    set (zeros s) = {k. k < length weights \<and> k \<notin> set rm \<and> initial weights k = 0}"
proof -
  obtain s0 e where s0: "ws_new weights = Some s0" "ws_inv (length weights) e (initial weights) s0"
    "zeros s0 = filter (\<lambda>i. initial weights i = 0) [0..<length weights]" using ws_new_exact by blast
  from remove_indices_inv [OF s0(2), of rm] s0 show ?thesis by auto
qed

text \<open>C30. The search in the tree is the linear search: for each value below the sum of the weights that are left, it gives the smallest
  index at which the sum of the weights up to and including it exceeds the value, with its weight.\<close>

theorem search_exact:
  assumes "W = without (initial weights) rm" and "val < (\<Sum>k<length weights. W k)"
  shows "\<exists>s0 s k. ws_new weights = Some s0 \<and> remove_indices s0 rm = Some s \<and> ws_search s (of_nat val) = Some (k, of_nat (W k)) \<and>
    k < length weights \<and> k = (LEAST k. val < (\<Sum>i\<le>k. W i))"
proof -
  let ?n = "length weights"
  obtain s0 s e where s: "ws_new weights = Some s0" "remove_indices s0 rm = Some s" "ws_inv ?n e W s"
    using removed_exact [of weights rm] assms(1) by blast
  have weight: "unat (ws_weight s) = (\<Sum>k<?n. W k)" using s(3) by (simp add: ws_inv_def)
  then have val: "unat (of_nat val :: u64) = val" using assms(2) unat_less_pow [of "ws_weight s"] by (intro unat_of_nat_small) simp
  then have "of_nat val < ws_weight s" using assms(2) weight by (simp add: word_less_nat_alt)
  from ws_search_inv [OF s(3) this] val obtain k w where k: "ws_search s (of_nat val) = Some (k, w)" "k < ?n" "unat w = W k"
    "(\<Sum>i<k. W i) \<le> val" "val < (\<Sum>i<k. W i) + W k" by auto
  have "k = (LEAST k. val < (\<Sum>i\<le>k. W i))"
  proof (rule Least_equality [symmetric])
    show "val < (\<Sum>i\<le>k. W i)" using k(5) by (simp add: lessThan_Suc_atMost [symmetric])
    fix j assume j: "val < (\<Sum>i\<le>j. W i)"
    show "k \<le> j"
    proof (rule ccontr)
      assume "\<not> k \<le> j"
      then have "(\<Sum>i\<le>j. W i) \<le> (\<Sum>i<k. W i)" by (intro sum_mono2) auto
      then show False using j k(4) by simp
    qed
  qed
  moreover have "w = of_nat (W k)" using k(3) by (metis of_nat_unat_id)
  ultimately show ?thesis using s k by blast
qed

theorem search_exact_witness:
  "1 < (\<Sum>k<length [2, 0, 3::u64]. without (initial [2, 0, 3]) [0] k) \<and>
    (\<exists>s0 s k. ws_new [2, 0, 3] = Some s0 \<and> remove_indices s0 [0] = Some s \<and>
      ws_search s (of_nat 1) = Some (k, of_nat (without (initial [2, 0, 3]) [0] k)) \<and> k < length [2, 0, 3::u64] \<and>
      k = (LEAST k. 1 < (\<Sum>i\<le>k. without (initial [2, 0, 3]) [0] i)))"
proof
  have range: "{..<length [2, 0, 3::u64]} = {0, 1, 2}" by auto
  show less: "1 < (\<Sum>k<length [2, 0, 3::u64]. without (initial [2, 0, 3]) [0] k)"
    unfolding range by (simp add: without_def initial_def installed_def)
  show "\<exists>s0 s k. ws_new [2, 0, 3] = Some s0 \<and> remove_indices s0 [0] = Some s \<and>
      ws_search s (of_nat 1) = Some (k, of_nat (without (initial [2, 0, 3]) [0] k)) \<and> k < length [2, 0, 3::u64] \<and>
      k = (LEAST k. 1 < (\<Sum>i\<le>k. without (initial [2, 0, 3]) [0] i))"
    by (rule search_exact [OF refl less])
qed

text \<open>C17. After any indices have been removed, the shuffle gives every other index exactly once and then ends, whatever samples are drawn: first
  all indices with a weight, then those without. A weight that would overflow the sum counts as zero.\<close>

theorem shuffle_is_permutation:
  assumes "sampler_ok sample" and "W = effective 0 (map unat weights)"
  shows "\<exists>s0 s ks zs s'. ws_new weights = Some s0 \<and> remove_indices s0 rm = Some s \<and>
    shuffle_items sample (card ({..<length weights} - set rm) + extra) s rng = Some (map Some (ks @ zs) @ replicate extra None, s') \<and>
    distinct (ks @ zs) \<and> set ks = {k. k < length weights \<and> 0 < W ! k} - set rm \<and> set zs = {k. k < length weights \<and> W ! k = 0} - set rm"
proof -
  let ?n = "length weights"
  let ?V = "without (initial weights) rm"
  obtain s0 s e where s: "ws_new weights = Some s0" "remove_indices s0 rm = Some s" "ws_inv ?n e ?V s"
    and zs: "set (zeros s) = {k. k < ?n \<and> k \<notin> set rm \<and> initial weights k = 0}" using removed_exact by blast
  have out: "initial weights k = 0" if "\<not> k < ?n" for k using that by (simp add: initial_def installed_def)
  have P: "{k. 0 < ?V k} = {k. k < ?n \<and> 0 < W ! k} - set rm"
  proof -
    have "0 < ?V k \<longleftrightarrow> k < ?n \<and> 0 < W ! k \<and> k \<notin> set rm" for k
      by (cases "k < ?n") (auto simp: without_def out initial_nth assms(2))
    then show ?thesis by auto
  qed
  have Z: "set (zeros s) = {k. k < ?n \<and> W ! k = 0} - set rm" using zs initial_nth [of _ weights] assms(2) by auto
  have "length (zeros s) = card (set (zeros s))" using s(3) by (simp add: ws_inv_def distinct_card)
  moreover have "{..<?n} - set rm = {k. 0 < ?V k} \<union> set (zeros s)" "{k. 0 < ?V k} \<inter> set (zeros s) = {}" unfolding P Z by auto
  moreover have "finite {k. 0 < ?V k}" unfolding P by simp
  ultimately have card: "card ({..<?n} - set rm) = card {k. 0 < ?V k} + length (zeros s)" by (simp add: card_Un_disjoint)
  obtain ks zs s' where "shuffle_items sample (card ({..<?n} - set rm) + extra) s rng = Some (map Some (ks @ zs) @ replicate extra None, s')"
    "distinct (ks @ zs)" "set ks = {k. k < ?n \<and> 0 < W ! k} - set rm" "set zs = {k. k < ?n \<and> W ! k = 0} - set rm"
    using items_all [OF assms(1) s(3), of extra rng, folded card, unfolded P Z] by blast
  then show ?thesis using s(1,2) by blast
qed


theorem shuffle_is_permutation_witness:
  "sampler_ok (\<lambda>low high g. (low, g :: nat)) \<and> effective 0 (map unat [2, 0, 3::u64]) = [2, 0, 3] \<and>
    (\<exists>s0 s ks zs s'. ws_new [2, 0, 3] = Some s0 \<and> remove_indices s0 [2] = Some s \<and>
      shuffle_items (\<lambda>low high g. (low, g)) (card ({..<length [2, 0, 3::u64]} - set [2]) + 1) s (0::nat) = Some (map Some (ks @ zs) @ replicate 1 None, s') \<and>
      distinct (ks @ zs) \<and> set ks = {k. k < length [2, 0, 3::u64] \<and> 0 < [2, 0, 3::nat] ! k} - set [2] \<and>
      set zs = {k. k < length [2, 0, 3::u64] \<and> [2, 0, 3::nat] ! k = 0} - set [2])"
proof (intro conjI)
  show ok: "sampler_ok (\<lambda>low high g. (low, g :: nat))" by (simp add: sampler_ok_def)
  show eff: "effective 0 (map unat [2, 0, 3::u64]) = [2, 0, 3]" by simp
  show "\<exists>s0 s ks zs s'. ws_new [2, 0, 3] = Some s0 \<and> remove_indices s0 [2] = Some s \<and>
      shuffle_items (\<lambda>low high g. (low, g)) (card ({..<length [2, 0, 3::u64]} - set [2]) + 1) s (0::nat) = Some (map Some (ks @ zs) @ replicate 1 None, s') \<and>
      distinct (ks @ zs) \<and> set ks = {k. k < length [2, 0, 3::u64] \<and> 0 < [2, 0, 3::nat] ! k} - set [2] \<and>
      set zs = {k. k < length [2, 0, 3::u64] \<and> [2, 0, 3::nat] ! k = 0} - set [2]"
    by (rule shuffle_is_permutation [OF ok eff [symmetric]])
qed

end
