(* ===== verification/Merkle_Tree.thy ===== *)
theory Merkle_Tree
  imports Rust_Prelude
begin

text \<open>
  Merkle trees and inclusion proofs (\<^verbatim>\<open>merkle-tree/src/merkle_tree.rs\<close>). Hashes and \<open>hashv\<close> are of another crate and
  arguments of the model; \<open>hash_bytes\<close> is \<open>as_ref\<close>. Positions are natural numbers; \<open>None\<close> is a panic. The capacity hint of the node vector is left out.
\<close>

section \<open>Model\<close>

record 'h hash_api =
  hashv :: "u8 list list \<Rightarrow> 'h"
  hash_bytes :: "'h \<Rightarrow> u8 list"

definition LEAF_PREFIX :: "u8 list" where
  "LEAF_PREFIX = [0]"

definition INTERMEDIATE_PREFIX :: "u8 list" where
  "INTERMEDIATE_PREFIX = [1]"

definition hash_leaf :: "'h hash_api \<Rightarrow> u8 list \<Rightarrow> 'h" where
  "hash_leaf api d = hashv api [LEAF_PREFIX, d]"

definition hash_intermediate :: "'h hash_api \<Rightarrow> 'h \<Rightarrow> 'h \<Rightarrow> 'h" where
  "hash_intermediate api l r = hashv api [INTERMEDIATE_PREFIX, hash_bytes api l, hash_bytes api r]"

record 'h merkle_tree =
  leaf_count :: nat
  nodes :: "'h list"

datatype 'h proof_entry = ProofEntry (pe_target: 'h) (pe_left: "'h option") (pe_right: "'h option")

definition proof_entry_new :: "'h \<Rightarrow> 'h option \<Rightarrow> 'h option \<Rightarrow> 'h proof_entry option" where
  "proof_entry_new target left_sibling right_sibling =
     (if (left_sibling = None) \<noteq> (right_sibling = None) then Some (ProofEntry target left_sibling right_sibling) else None)"

definition proof_push :: "'h proof_entry list \<Rightarrow> 'h proof_entry \<Rightarrow> 'h proof_entry list" where
  "proof_push proof entry = proof @ [entry]"

fun unwrap_or :: "'h option \<Rightarrow> 'h \<Rightarrow> 'h" where
  "unwrap_or None d = d"
| "unwrap_or (Some x) d = x"

fun proof_fold :: "'h hash_api \<Rightarrow> 'h \<Rightarrow> 'h proof_entry list \<Rightarrow> 'h option" where
  "proof_fold api candidate [] = Some candidate"
| "proof_fold api candidate (pe # pes) =
     (let lsib = unwrap_or (pe_left pe) candidate; rsib = unwrap_or (pe_right pe) candidate; hash = hash_intermediate api lsib rsib
      in if hash = pe_target pe then proof_fold api hash pes else None)"

definition verify :: "'h hash_api \<Rightarrow> 'h proof_entry list \<Rightarrow> 'h \<Rightarrow> bool" where
  "verify api proof candidate = (proof_fold api candidate proof \<noteq> None)"

definition next_level_len :: "nat \<Rightarrow> nat" where
  "next_level_len level_len = (if level_len = 1 then 0 else (level_len + 1) div 2)"

definition nth_opt :: "'a list \<Rightarrow> nat \<Rightarrow> 'a option" where
  "nth_opt xs i = (if i < length xs then Some (xs ! i) else None)"

text \<open>The loop over the positions of one level.\<close>

fun push_level :: "'h hash_api \<Rightarrow> nat \<Rightarrow> nat \<Rightarrow> nat list \<Rightarrow> 'h list \<Rightarrow> 'h list option" where
  "push_level api prev_level_start prev_level_len [] ns = Some ns"
| "push_level api prev_level_start prev_level_len (i # is) ns =
     (let prev_level_idx = 2 * i in do {
        lsib \<leftarrow> nth_opt ns (prev_level_start + prev_level_idx);
        rsib \<leftarrow> (if prev_level_idx + 1 < prev_level_len then nth_opt ns (prev_level_start + prev_level_idx + 1)
                 else nth_opt ns (prev_level_start + prev_level_idx));
        push_level api prev_level_start prev_level_len is (ns @ [hash_intermediate api lsib rsib])
      })"

function push_levels :: "'h hash_api \<Rightarrow> nat \<Rightarrow> nat \<Rightarrow> nat \<Rightarrow> nat \<Rightarrow> 'h list \<Rightarrow> 'h list option" where
  "push_levels api level_len level_start prev_level_len prev_level_start ns =
     (if level_len > 0 then
        (case push_level api prev_level_start prev_level_len [0..<level_len] ns of
           None \<Rightarrow> None
         | Some ns \<Rightarrow> push_levels api (next_level_len level_len) (level_start + level_len) level_len level_start ns)
      else Some ns)"
  by pat_completeness auto
termination
  by (relation "measure (\<lambda>(api, level_len, _). level_len)") (auto simp: next_level_len_def)

declare push_levels.simps [simp del]

definition merkle_new :: "'h hash_api \<Rightarrow> u8 list list \<Rightarrow> 'h merkle_tree option" where
  "merkle_new api items =
     map_option (\<lambda>ns. \<lparr>leaf_count = length items, nodes = ns\<rparr>)
       (push_levels api (next_level_len (length items)) (length items) (length items) 0 (map (hash_leaf api) items))"

definition get_root :: "'h merkle_tree \<Rightarrow> 'h option" where
  "get_root self = (if nodes self = [] then None else Some (last (nodes self)))"

text \<open>A slice of a vector panics when its end is out of range.\<close>

definition slice_opt :: "'a list \<Rightarrow> nat \<Rightarrow> nat \<Rightarrow> 'a list option" where
  "slice_opt xs first past = (if first \<le> past \<and> past \<le> length xs then Some (take (past - first) (drop first xs)) else None)"

definition siblings :: "'h list \<Rightarrow> nat \<Rightarrow> 'h option \<times> 'h option" where
  "siblings level node_index =
     (if node_index mod 2 = 0 then
        (None, if node_index + 1 < length level then Some (level ! (node_index + 1)) else Some (level ! node_index))
      else (Some (level ! (node_index - 1)), None))"

function path_loop :: "'h list \<Rightarrow> nat \<Rightarrow> nat \<Rightarrow> nat \<Rightarrow> 'h option \<Rightarrow> 'h option \<Rightarrow> 'h proof_entry list \<Rightarrow> 'h proof_entry list option" where
  "path_loop ns level_len level_start node_index lsib rsib proof =
     (if level_len > 0 then do {
        level \<leftarrow> slice_opt ns level_start (level_start + level_len);
        target \<leftarrow> nth_opt level node_index;
        proof \<leftarrow> (if lsib \<noteq> None \<or> rsib \<noteq> None then map_option (proof_push proof) (proof_entry_new target lsib rsib) else Some proof);
        (case siblings level node_index of
           (lsib, rsib) \<Rightarrow> path_loop ns (next_level_len level_len) (level_start + level_len) (node_index div 2) lsib rsib proof)
      } else Some proof)"
  by pat_completeness auto
termination
  by (relation "measure (\<lambda>(ns, level_len, _). level_len)") (auto simp: next_level_len_def)

declare path_loop.simps [simp del]

definition find_path :: "'h merkle_tree \<Rightarrow> nat \<Rightarrow> 'h proof_entry list option option" where
  "find_path self index =
     (if index \<ge> leaf_count self then Some None
      else map_option Some (path_loop (nodes self) (leaf_count self) 0 index None None []))"

end
