(* ===== verification/Merkle_Correct.thy ===== *)
theory Merkle_Correct
  imports Merkle_Tree
begin

text \<open>
  The flat node vector is a stack of levels; every leaf has a proof that verifies and ends in the root; and a proof that ends
  in the root proves membership, as long as the hash function has no collision among the inputs it was computed on.
\<close>

section \<open>Levels\<close>

fun next_level :: "'h hash_api \<Rightarrow> 'h list \<Rightarrow> 'h list" where
  "next_level api (l # r # hs) = hash_intermediate api l r # next_level api hs"
| "next_level api [l] = [hash_intermediate api l l]"
| "next_level api [] = []"

lemma length_next_level [simp]: "length (next_level api hs) = (length hs + 1) div 2"
  by (induction api hs rule: next_level.induct) auto

lemma next_level_nth:
  "i < (length hs + 1) div 2 \<Longrightarrow>
    next_level api hs ! i = hash_intermediate api (hs ! (2 * i)) (if 2 * i + 1 < length hs then hs ! (2 * i + 1) else hs ! (2 * i))"
proof (induction api hs arbitrary: i rule: next_level.induct)
  case (1 api l r hs)
  then show ?case by (cases i) auto
qed auto

text \<open>All levels from the one given up to the root.\<close>

function levels :: "'h hash_api \<Rightarrow> 'h list \<Rightarrow> 'h list" where
  "levels api hs = (if length hs \<le> 1 then hs else hs @ levels api (next_level api hs))"
  by pat_completeness auto
termination
  by (relation "measure (\<lambda>(api, hs). length hs)") auto

declare levels.simps [simp del]

definition up :: "'h hash_api \<Rightarrow> 'h list \<Rightarrow> 'h list" where
  "up api hs = (if length hs \<le> 1 then [] else levels api (next_level api hs))"

lemma levels_up: "levels api hs = hs @ up api hs"
  by (subst levels.simps) (simp add: up_def)

lemma length_hd_up: "next_level_len (length hs) = (if length hs \<le> 1 then 0 else length (next_level api hs))"
  by (auto simp: next_level_len_def)

lemma push_level_exact:
  "ns = pre @ prev @ map f [0..<a] \<Longrightarrow> b \<le> (length prev + 1) div 2 \<Longrightarrow> a \<le> b \<Longrightarrow> f = (\<lambda>i. next_level api prev ! i) \<Longrightarrow>
    push_level api (length pre) (length prev) [a..<b] ns = Some (pre @ prev @ map f [0..<b])"
proof (induction "b - a" arbitrary: a ns)
  case 0
  then show ?case by simp
next
  case (Suc d)
  then have ab: "a < b" "[a..<b] = a # [Suc a..<b]" by (auto simp: upt_conv_Cons)
  have prev: "2 * a < length prev" using ab(1) Suc(4) by auto
  have nth: "nth_opt ns (length pre + i) = Some (prev ! i)" if "i < length prev" for i
    using that Suc(3) by (simp add: nth_opt_def nth_append)
  have f: "f a = hash_intermediate api (prev ! (2 * a)) (if 2 * a + 1 < length prev then prev ! (2 * a + 1) else prev ! (2 * a))"
    using next_level_nth [of a prev api] Suc(4,6) ab(1) by simp
  have "push_level api (length pre) (length prev) [a..<b] ns = push_level api (length pre) (length prev) [Suc a..<b] (ns @ [f a])"
    unfolding ab(2) f using prev nth [of "2 * a"] nth [of "2 * a + 1"] by (simp add: Let_def add.assoc)
  also have "\<dots> = Some (pre @ prev @ map f [0..<b])" by (rule Suc(1)) (use Suc ab in auto)
  finally show ?case .
qed

lemma push_levels_exact:
  "push_levels api (next_level_len (length hs)) (length pre + length hs) (length hs) (length pre) (pre @ hs) = Some (pre @ levels api hs)"
proof (induction "length hs" arbitrary: pre hs rule: less_induct)
  case less
  show ?case
  proof (cases "length hs \<le> 1")
    case True
    then have "next_level_len (length hs) = 0" using length_hd_up [of hs] by simp
    then show ?thesis using True by (simp add: push_levels.simps levels.simps)
  next
    case False
    let ?m = "next_level api hs"
    have len: "next_level_len (length hs) = length ?m" "0 < length ?m" "length ?m < length hs" using False by (auto simp: next_level_len_def)
    have "push_level api (length pre) (length hs) [0..<length ?m] (pre @ hs) = Some (pre @ hs @ map (\<lambda>i. ?m ! i) [0..<length ?m])"
      by (rule push_level_exact) auto
    then have "push_levels api (length ?m) (length pre + length hs) (length hs) (length pre) (pre @ hs) =
        push_levels api (next_level_len (length ?m)) (length (pre @ hs) + length ?m) (length ?m) (length (pre @ hs)) ((pre @ hs) @ ?m)"
      using len(2) by (subst push_levels.simps) (simp add: map_nth del: length_next_level)
    also have "\<dots> = Some ((pre @ hs) @ levels api ?m)" by (rule less [OF len(3)])
    finally show ?thesis using False unfolding len(1) by (subst levels.simps) simp
  qed
qed

lemma merkle_new_exact: "merkle_new api items = Some \<lparr>leaf_count = length items, nodes = levels api (map (hash_leaf api) items)\<rparr>"
  using push_levels_exact [of api "map (hash_leaf api) items" "[]"] by (simp add: merkle_new_def)

section \<open>Completeness\<close>

text \<open>The entries of the proof above position \<open>i\<close> of a level.\<close>

function path_of :: "'h hash_api \<Rightarrow> 'h list \<Rightarrow> nat \<Rightarrow> 'h proof_entry list" where
  "path_of api hs i =
     (if length hs \<le> 1 then []
      else ProofEntry (next_level api hs ! (i div 2)) (fst (siblings hs i)) (snd (siblings hs i)) # path_of api (next_level api hs) (i div 2))"
  by pat_completeness auto
termination
  by (relation "measure (\<lambda>(api, hs, i). length hs)") auto

declare path_of.simps [simp del]

definition entry_for :: "'h \<Rightarrow> 'h option \<Rightarrow> 'h option \<Rightarrow> 'h proof_entry list" where
  "entry_for target lsib rsib = (if lsib \<noteq> None \<or> rsib \<noteq> None then [ProofEntry target lsib rsib] else [])"

lemma siblings_xor: "(fst (siblings hs i) = None) \<noteq> (snd (siblings hs i) = None)"
  by (simp add: siblings_def)

lemma path_loop_exact:
  "i < length hs \<Longrightarrow> (lsib = None \<and> rsib = None) \<or> (lsib = None) \<noteq> (rsib = None) \<Longrightarrow>
    path_loop (pre @ levels api hs) (length hs) (length pre) i lsib rsib acc = Some (acc @ entry_for (hs ! i) lsib rsib @ path_of api hs i)"
proof (induction "length hs" arbitrary: pre hs i lsib rsib acc rule: less_induct)
  case less
  let ?acc = "acc @ entry_for (hs ! i) lsib rsib"
  let ?ns = "pre @ levels api hs"
  have slice: "slice_opt ?ns (length pre) (length pre + length hs) = Some hs" by (simp add: slice_opt_def levels_up)
  have entry: "(if lsib \<noteq> None \<or> rsib \<noteq> None then map_option (proof_push acc) (proof_entry_new (hs ! i) lsib rsib) else Some acc) = Some ?acc"
    using less.prems(2) by (auto simp: entry_for_def proof_push_def proof_entry_new_def)
  have step: "path_loop ?ns (length hs) (length pre) i lsib rsib acc =
      path_loop ?ns (next_level_len (length hs)) (length pre + length hs) (i div 2) (fst (siblings hs i)) (snd (siblings hs i)) ?acc"
  proof -
    have "0 < length hs" "nth_opt hs i = Some (hs ! i)" using less.prems(1) by (auto simp: nth_opt_def)
    then show ?thesis by (subst path_loop.simps) (simp only: slice entry Option.bind.simps if_True split_def)
  qed
  show ?case
  proof (cases "length hs \<le> 1")
    case True
    then have "next_level_len (length hs) = 0" "path_of api hs i = []" using length_hd_up [of hs] path_of.simps [of api hs i] by auto
    then show ?thesis unfolding step by (simp add: path_loop.simps)
  next
    case False
    let ?m = "next_level api hs"
    have len: "next_level_len (length hs) = length ?m" "length ?m < length hs" "i div 2 < length ?m"
      using False less.prems(1) by (auto simp: next_level_len_def)
    have ns: "?ns = (pre @ hs) @ levels api ?m" using False by (simp add: levels_up [of api hs] up_def)
    have "path_loop ?ns (length ?m) (length (pre @ hs)) (i div 2) (fst (siblings hs i)) (snd (siblings hs i)) ?acc =
        Some (?acc @ entry_for (?m ! (i div 2)) (fst (siblings hs i)) (snd (siblings hs i)) @ path_of api ?m (i div 2))"
      unfolding ns by (rule less.hyps [OF len(2,3)]) (use siblings_xor [of hs i] in blast)
    then show ?thesis using False siblings_xor [of hs i] unfolding step len(1) path_of.simps [of api hs i] by (auto simp: entry_for_def)
  qed
qed

lemma find_path_exact:
  "merkle_new api items = Some t \<Longrightarrow> find_path t i = Some (if i < length items then Some (path_of api (map (hash_leaf api) items) i) else None)"
  using path_loop_exact [of i "map (hash_leaf api) items" None None "[]" api "[]"]
  by (auto simp: merkle_new_exact find_path_def entry_for_def)

text \<open>The hash of two siblings is the node above.\<close>

lemma siblings_hash:
  "i < length hs \<Longrightarrow> hash_intermediate api (unwrap_or (fst (siblings hs i)) (hs ! i)) (unwrap_or (snd (siblings hs i)) (hs ! i)) = next_level api hs ! (i div 2)"
proof -
  assume i: "i < length hs"
  then have "i div 2 < (length hs + 1) div 2" by auto
  note nth = next_level_nth [OF this, of api]
  show ?thesis
  proof (cases "i mod 2 = 0")
    case True
    then have "2 * (i div 2) = i" by auto
    then show ?thesis using nth True by (simp add: siblings_def)
  next
    case False
    then have "2 * (i div 2) = i - 1" "Suc (i - 1) = i" by presburger+
    then show ?thesis using nth False i by (simp add: siblings_def)
  qed
qed

lemma proof_fold_path: "i < length hs \<Longrightarrow> proof_fold api (hs ! i) (path_of api hs i) = Some (last (levels api hs))"
proof (induction "length hs" arbitrary: hs i rule: less_induct)
  case less
  show ?case
  proof (cases "length hs \<le> 1")
    case True
    then have "hs = [hs ! 0]" "i = 0" using less.prems by (cases hs; auto)+
    then have "last hs = hs ! i" by (metis last_ConsL)
    then show ?thesis using True path_of.simps [of api hs i] levels.simps [of api hs] by simp
  next
    case False
    have len: "length (next_level api hs) < length hs" "i div 2 < length (next_level api hs)" using False less.prems by auto
    then have "next_level api hs \<noteq> []" by (metis less_nat_zero_code list.size(3))
    then have "levels api (next_level api hs) \<noteq> []" by (simp add: levels_up [of api "next_level api hs"])
    then show ?thesis using less.hyps [OF len] siblings_hash [OF less.prems, of api] False path_of.simps [of api hs i] levels.simps [of api hs]
      by (simp add: Let_def)
  qed
qed


text \<open>C34. Every leaf of a Merkle tree has a proof: for each position in range, building the tree and finding the path succeed, and the path
  leads from the hash of the item to the root and verifies. There is no path for a position out of range.\<close>

theorem merkle_proof_complete:
  "\<exists>t. merkle_new api items = Some t \<and>
    (\<forall>i. find_path t i = Some None \<and> length items \<le> i \<or>
      (\<exists>path r. find_path t i = Some (Some path) \<and> i < length items \<and> get_root t = Some r \<and>
        proof_fold api (hash_leaf api (items ! i)) path = Some r \<and> verify api path (hash_leaf api (items ! i))))"
proof -
  let ?hs = "map (hash_leaf api) items"
  obtain t where t: "merkle_new api items = Some t" "nodes t = levels api ?hs" by (simp add: merkle_new_exact)
  have "find_path t i = Some None \<and> length items \<le> i \<or>
      (\<exists>path r. find_path t i = Some (Some path) \<and> i < length items \<and> get_root t = Some r \<and>
        proof_fold api (hash_leaf api (items ! i)) path = Some r \<and> verify api path (hash_leaf api (items ! i)))" for i
  proof (cases "i < length items")
    case True
    then have "levels api ?hs \<noteq> []" by (auto simp: levels_up)
    then have "get_root t = Some (last (levels api ?hs))" using t(2) by (simp add: get_root_def)
    moreover have "proof_fold api (hash_leaf api (items ! i)) (path_of api ?hs i) = Some (last (levels api ?hs))"
      using proof_fold_path [of i ?hs api] True by simp
    ultimately show ?thesis using find_path_exact [OF t(1), of i] True by (auto simp: verify_def)
  next
    case False
    then show ?thesis using find_path_exact [OF t(1), of i] by simp
  qed
  then show ?thesis using t(1) by blast
qed

text \<open>A tree with one leaf has an empty proof, which verifies for every candidate: \<open>verify\<close> does not compare with the root.\<close>

lemma verify_single_leaf: "merkle_new api [x] = Some t \<Longrightarrow> \<exists>path. find_path t 0 = Some (Some path) \<and> verify api path c"
  using find_path_exact [of api "[x]" t 0] by (simp add: verify_def path_of.simps)

section \<open>Soundness\<close>

text \<open>Hashes are byte strings of one length.\<close>

definition hash_ok :: "'h hash_api \<Rightarrow> bool" where
  "hash_ok api \<longleftrightarrow> inj (hash_bytes api) \<and> (\<exists>n. \<forall>h. length (hash_bytes api h) = n)"

text \<open>The inputs on which the hash is computed when a tree is built, and when a proof is checked.\<close>

definition node_input :: "'h hash_api \<Rightarrow> 'h \<Rightarrow> 'h \<Rightarrow> u8 list" where
  "node_input api l r = concat [INTERMEDIATE_PREFIX, hash_bytes api l, hash_bytes api r]"

definition leaf_input :: "u8 list \<Rightarrow> u8 list" where
  "leaf_input d = concat [LEAF_PREFIX, d]"

fun level_inputs :: "'h hash_api \<Rightarrow> 'h list \<Rightarrow> (u8 list \<times> 'h) list" where
  "level_inputs api (l # r # hs) = (node_input api l r, hash_intermediate api l r) # level_inputs api hs"
| "level_inputs api [l] = [(node_input api l l, hash_intermediate api l l)]"
| "level_inputs api [] = []"

function tree_inputs :: "'h hash_api \<Rightarrow> 'h list \<Rightarrow> (u8 list \<times> 'h) list" where
  "tree_inputs api hs = (if length hs \<le> 1 then [] else level_inputs api hs @ tree_inputs api (next_level api hs))"
  by pat_completeness auto
termination
  by (relation "measure (\<lambda>(api, hs). length hs)") auto

declare tree_inputs.simps [simp del]

fun proof_inputs :: "'h hash_api \<Rightarrow> 'h \<Rightarrow> 'h proof_entry list \<Rightarrow> (u8 list \<times> 'h) list" where
  "proof_inputs api c [] = []"
| "proof_inputs api c (pe # pes) =
     (let l = unwrap_or (pe_left pe) c; r = unwrap_or (pe_right pe) c; h = hash_intermediate api l r
      in (node_input api l r, h) # proof_inputs api h pes)"

text \<open>No two different inputs of the list have the same hash.\<close>

definition collision_free :: "(u8 list \<times> 'h) list \<Rightarrow> bool" where
  "collision_free qs \<longleftrightarrow> (\<forall>(x, h) \<in> set qs. \<forall>(y, k) \<in> set qs. h = k \<longrightarrow> x = y)"

definition all_inputs :: "'h hash_api \<Rightarrow> u8 list list \<Rightarrow> u8 list \<Rightarrow> 'h proof_entry list \<Rightarrow> (u8 list \<times> 'h) list" where
  "all_inputs api items d path =
     map (\<lambda>x. (leaf_input x, hash_leaf api x)) items @ tree_inputs api (map (hash_leaf api) items) @
     (leaf_input d, hash_leaf api d) # proof_inputs api (hash_leaf api d) path"


lemma node_input_inj: "hash_ok api \<Longrightarrow> node_input api l r = node_input api l' r' \<Longrightarrow> l = l' \<and> r = r'"
  by (auto simp: hash_ok_def node_input_def dest: injD)

lemma leaf_not_node: "leaf_input d \<noteq> node_input api l r"
  by (simp add: leaf_input_def node_input_def LEAF_PREFIX_def INTERMEDIATE_PREFIX_def)

lemma collision_freeD: "collision_free qs \<Longrightarrow> (x, h) \<in> set qs \<Longrightarrow> (y, h) \<in> set qs \<Longrightarrow> x = y"
  unfolding collision_free_def by blast

lemma level_inputs_next:
  "h \<in> set (next_level api hs) \<Longrightarrow> \<exists>l r. (node_input api l r, h) \<in> set (level_inputs api hs) \<and> l \<in> set hs \<and> r \<in> set hs"
  by (induction api hs rule: next_level.induct) fastforce+

lemma up_inputs:
  "h \<in> set (up api hs) \<Longrightarrow> \<exists>l r. (node_input api l r, h) \<in> set (tree_inputs api hs) \<and> l \<in> set (levels api hs) \<and> r \<in> set (levels api hs)"
proof (induction "length hs" arbitrary: hs rule: less_induct)
  case less
  let ?m = "next_level api hs"
  have len: "\<not> length hs \<le> 1" "length ?m < length hs" using less.prems by (auto simp: up_def split: if_splits)
  have inputs: "tree_inputs api hs = level_inputs api hs @ tree_inputs api ?m" using len(1) by (subst tree_inputs.simps) simp
  have levels: "levels api hs = hs @ levels api ?m" using len(1) by (subst levels.simps) simp
  have "h \<in> set ?m \<or> h \<in> set (up api ?m)" using less.prems len(1) by (simp add: up_def [of api hs] levels_up)
  then show ?case
  proof
    assume "h \<in> set ?m"
    then show ?thesis using level_inputs_next [of h api hs] unfolding inputs levels by auto
  next
    assume "h \<in> set (up api ?m)"
    then show ?thesis using less.hyps [OF len(2)] unfolding inputs levels by auto
  qed
qed

definition one_sibling :: "'h proof_entry \<Rightarrow> bool" where
  "one_sibling pe \<longleftrightarrow> (pe_left pe = None) \<noteq> (pe_right pe = None)"

text \<open>A proof that ends in a node of the tree starts in one.\<close>

lemma proof_starts_in_tree:
  assumes ok: "hash_ok api" and free: "collision_free qs"
    and leaves: "set (map (\<lambda>x. (leaf_input x, hash_leaf api x)) items) \<subseteq> set qs" and tree: "set (tree_inputs api (map (hash_leaf api) items)) \<subseteq> set qs"
  shows "set (proof_inputs api c path) \<subseteq> set qs \<Longrightarrow> list_all one_sibling path \<Longrightarrow> proof_fold api c path = Some r \<Longrightarrow>
    r \<in> set (levels api (map (hash_leaf api) items)) \<Longrightarrow> c \<in> set (levels api (map (hash_leaf api) items))"
proof (induction path arbitrary: c)
  case (Cons pe pes)
  let ?hs = "map (hash_leaf api) items"
  define a b where "a = unwrap_or (pe_left pe) c" and "b = unwrap_or (pe_right pe) c"
  define h where "h = hash_intermediate api a b"
  have q: "(node_input api a b, h) \<in> set qs" "set (proof_inputs api h pes) \<subseteq> set qs" "proof_fold api h pes = Some r"
    using Cons.prems(1,3) by (auto simp: Let_def a_def b_def h_def split: if_splits)
  have "h \<in> set (levels api ?hs)" by (rule Cons.IH) (use q Cons.prems in auto)
  then consider x where "x \<in> set items" "h = hash_leaf api x" | "h \<in> set (up api ?hs)" by (auto simp: levels_up)
  then have "a \<in> set (levels api ?hs) \<and> b \<in> set (levels api ?hs)"
  proof cases
    case 1
    then have "(leaf_input x, h) \<in> set qs" using leaves by auto
    then show ?thesis using collision_freeD [OF free q(1)] leaf_not_node by metis
  next
    case 2
    then obtain l r where lr: "(node_input api l r, h) \<in> set qs" "l \<in> set (levels api ?hs)" "r \<in> set (levels api ?hs)"
      using up_inputs [of h api ?hs] tree by blast
    then show ?thesis using node_input_inj [OF ok collision_freeD [OF free q(1) lr(1)]] by simp
  qed
  moreover have "c = a \<or> c = b" using Cons.prems(2) by (cases "pe_left pe"; cases "pe_right pe") (auto simp: one_sibling_def a_def b_def)
  ultimately show ?case by blast
qed simp

text \<open>C19. A proof shows membership. If a proof, each entry of which has one sibling as its constructor demands, leads from the hash of some data to the root of a
  tree, then the data is one of the items of the tree, unless the hash function collides on inputs computed for
  the tree or the proof. In particular the hash of an inner node never passes for that of an item.\<close>

theorem merkle_proof_sound:
  assumes "hash_ok api" and "merkle_new api items = Some t" and "get_root t = Some r" and "list_all one_sibling path"
    and "proof_fold api (hash_leaf api d) path = Some r" and "collision_free (all_inputs api items d path)"
  shows "d \<in> set items"
proof -
  let ?hs = "map (hash_leaf api) items" and ?qs = "all_inputs api items d path"
  have "nodes t = levels api ?hs" using assms(2) by (auto simp: merkle_new_exact)
  then have root: "r \<in> set (levels api ?hs)" using assms(3) by (auto simp: get_root_def split: if_splits)
  have leaves: "set (map (\<lambda>x. (leaf_input x, hash_leaf api x)) items) \<subseteq> set ?qs" and tree: "set (tree_inputs api ?hs) \<subseteq> set ?qs"
    and d: "set (proof_inputs api (hash_leaf api d) path) \<subseteq> set ?qs" "(leaf_input d, hash_leaf api d) \<in> set ?qs"
    unfolding all_inputs_def by auto
  have "hash_leaf api d \<in> set (levels api ?hs)"
    by (rule proof_starts_in_tree [OF assms(1,6) leaves tree d(1) assms(4,5) root])
  then consider x where "x \<in> set items" "hash_leaf api d = hash_leaf api x" | "hash_leaf api d \<in> set (up api ?hs)" by (auto simp: levels_up)
  then show ?thesis
  proof cases
    case 1
    then have "(leaf_input x, hash_leaf api d) \<in> set ?qs" using leaves by auto
    then have "leaf_input d = leaf_input x" by (rule collision_freeD [OF assms(6) d(2)])
    then show ?thesis using 1 by (simp add: leaf_input_def)
  next
    case 2
    then obtain l r where "(node_input api l r, hash_leaf api d) \<in> set ?qs" using up_inputs [of _ api ?hs] tree by blast
    then show ?thesis using collision_freeD [OF assms(6) d(2)] leaf_not_node by metis
  qed
qed

definition sample_hash :: "u8 hash_api" where
  "sample_hash = \<lparr>hashv = (\<lambda>xs. foldl (\<lambda>a b. 3 * a + b) 7 (concat xs)), hash_bytes = (\<lambda>h. [h])\<rparr>"


definition sample_tree :: "u8 merkle_tree" where
  "sample_tree = \<lparr>leaf_count = 2, nodes = [68, 69, 215]\<rparr>"

definition sample_proof :: "u8 proof_entry list" where
  "sample_proof = [ProofEntry 215 None (Some 69)]"

lemmas sample_merkle = sample_hash_def hash_leaf_def hash_intermediate_def LEAF_PREFIX_def INTERMEDIATE_PREFIX_def

theorem merkle_proof_sound_witness:
  "hash_ok sample_hash \<and> merkle_new sample_hash [[5], [6]] = Some sample_tree \<and> get_root sample_tree = Some 215 \<and>
    list_all one_sibling sample_proof \<and> proof_fold sample_hash (hash_leaf sample_hash [5]) sample_proof = Some 215 \<and>
    collision_free (all_inputs sample_hash [[5], [6]] [5] sample_proof) \<and> [5] \<in> set [[5], [6::u8]]"
proof -
  have ok: "hash_ok sample_hash" by (simp add: hash_ok_def sample_hash_def inj_def)
  have new: "merkle_new sample_hash [[5], [6]] = Some sample_tree"
    by (simp add: merkle_new_exact levels.simps sample_merkle sample_tree_def)
  have root: "get_root sample_tree = Some 215" by (simp add: get_root_def sample_tree_def)
  have one: "list_all one_sibling sample_proof" by (simp add: sample_proof_def one_sibling_def)
  have fold: "proof_fold sample_hash (hash_leaf sample_hash [5]) sample_proof = Some 215" by (simp add: sample_proof_def sample_merkle)
  have free: "collision_free (all_inputs sample_hash [[5], [6]] [5] sample_proof)"
    by (simp add: collision_free_def all_inputs_def tree_inputs.simps sample_proof_def leaf_input_def node_input_def sample_merkle)
  show ?thesis using merkle_proof_sound [OF ok new root one fold free] ok new root one fold free by blast
qed

end
