(* ===== verification/Poh.thy ===== *)
theory Poh
  imports Merkle_Correct
begin

text \<open>
  Proof of history and entries (\<^verbatim>\<open>entry/src/poh.rs\<close>, \<^verbatim>\<open>entry/src/entry.rs\<close>): the hash chain that a leader builds, the entries
  made from it, and the three ways a validator verifies a slice of entries: one by one, by SIMD kernels, and on a GPU. The
  kernels are of an external library: they are arguments. An instant is a number of nanoseconds, and what the clock
  shows is an argument. \<open>None\<close> is a panic. Parallel iterations are sequential ones.
\<close>

section \<open>Proof of history\<close>

record 'h poh_api = "'h hash_api" +
  hash_one :: "u8 list \<Rightarrow> 'h"
  default_hash :: 'h

definition LOW_POWER_MODE :: u64 where
  "LOW_POWER_MODE = - 1"

record 'h poh =
  poh_hash :: 'h
  num_hashes :: u64
  hashes_per_tick :: u64
  remaining_hashes :: u64
  tick_number :: u64
  slot_start_time :: nat

record 'h poh_entry =
  pe_num_hashes :: u64
  pe_hash :: 'h

definition new_with_slot_info :: "nat \<Rightarrow> 'h \<Rightarrow> u64 option \<Rightarrow> u64 \<Rightarrow> 'h poh option" where
  "new_with_slot_info now hash per_tick tick =
     (let per_tick = (case per_tick of None \<Rightarrow> LOW_POWER_MODE | Some n \<Rightarrow> n)
      in if per_tick > 1
         then Some \<lparr>poh_hash = hash, num_hashes = 0, hashes_per_tick = per_tick, remaining_hashes = per_tick, tick_number = tick,
           slot_start_time = now\<rparr>
         else None)"

definition poh_new :: "nat \<Rightarrow> 'h \<Rightarrow> u64 option \<Rightarrow> 'h poh option" where
  "poh_new now hash per_tick = new_with_slot_info now hash per_tick 0"

definition poh_reset :: "nat \<Rightarrow> 'h poh \<Rightarrow> 'h \<Rightarrow> u64 option \<Rightarrow> 'h poh option" where
  "poh_reset now self hash per_tick = (let tick = 0 in new_with_slot_info now hash per_tick tick)"

definition target_poh_time :: "'h poh \<Rightarrow> u64 \<Rightarrow> nat option" where
  "target_poh_time self target_ns_per_tick =
     (if hashes_per_tick self > 0
      then let offset_tick_ns = target_ns_per_tick * tick_number self;
               offset_ns = target_ns_per_tick * num_hashes self div hashes_per_tick self
           in Some (slot_start_time self + unat (offset_ns + offset_tick_ns))
      else None)"

primrec hash_times :: "('h, 'x) poh_api_scheme \<Rightarrow> nat \<Rightarrow> 'h \<Rightarrow> 'h" where
  "hash_times api 0 h = h"
| "hash_times api (Suc n) h = hash_times api n (hash_one api (hash_bytes api h))"

definition hash_poh :: "('h, 'x) poh_api_scheme \<Rightarrow> 'h poh \<Rightarrow> u64 \<Rightarrow> (bool \<times> 'h poh) option" where
  "hash_poh api self max_num_hashes =
     (let n = min (remaining_hashes self - 1) max_num_hashes;
          self = self\<lparr>poh_hash := hash_times api (unat n) (poh_hash self), num_hashes := num_hashes self + n,
            remaining_hashes := remaining_hashes self - n\<rparr>
      in if remaining_hashes self > 0 then Some (remaining_hashes self = 1, self) else None)"

definition record_mixin :: "('h, 'x) poh_api_scheme \<Rightarrow> 'h poh \<Rightarrow> 'h \<Rightarrow> 'h poh_entry option \<times> 'h poh" where
  "record_mixin api self mixin =
     (if remaining_hashes self = 1 then (None, self)
      else let hash = hashv api [hash_bytes api (poh_hash self), hash_bytes api mixin]; n = num_hashes self + 1
           in (Some \<lparr>pe_num_hashes = n, pe_hash = hash\<rparr>,
               self\<lparr>poh_hash := hash, num_hashes := 0, remaining_hashes := remaining_hashes self - 1\<rparr>))"

definition tick :: "('h, 'x) poh_api_scheme \<Rightarrow> 'h poh \<Rightarrow> 'h poh_entry option \<times> 'h poh" where
  "tick api self =
     (let self = self\<lparr>poh_hash := hash_one api (hash_bytes api (poh_hash self)), num_hashes := num_hashes self + 1,
            remaining_hashes := remaining_hashes self - 1\<rparr>
      in if hashes_per_tick self \<noteq> LOW_POWER_MODE \<and> remaining_hashes self \<noteq> 0 then (None, self)
         else (Some \<lparr>pe_num_hashes = num_hashes self, pe_hash = poh_hash self\<rparr>,
               self\<lparr>remaining_hashes := hashes_per_tick self, num_hashes := 0, tick_number := tick_number self + 1\<rparr>))"

section \<open>Entries\<close>

text \<open>A transaction is given by its signatures.\<close>

record ('h, 'tx) entry =
  entry_num_hashes :: u64
  entry_hash :: 'h
  transactions :: "'tx list"

definition entry_is_tick :: "('h, 'tx) entry \<Rightarrow> bool" where
  "entry_is_tick self = (transactions self = [])"

definition hash_transactions :: "('h, 'x) poh_api_scheme \<Rightarrow> ('tx \<Rightarrow> u8 list list) \<Rightarrow> 'tx list \<Rightarrow> 'h option" where
  "hash_transactions api signatures txs =
     map_option (\<lambda>t. case get_root t of Some root_hash \<Rightarrow> root_hash | None \<Rightarrow> default_hash api)
       (merkle_new (hash_api.truncate api) (concat (map signatures txs)))"

definition next_hash :: "('h, 'x) poh_api_scheme \<Rightarrow> ('tx \<Rightarrow> u8 list list) \<Rightarrow> 'h \<Rightarrow> u64 \<Rightarrow> 'tx list \<Rightarrow> 'h option" where
  "next_hash api signatures start_hash n txs =
     (if n = 0 \<and> txs = [] then Some start_hash
      else do {
        p \<leftarrow> poh_new 0 start_hash None;
        (_, p) \<leftarrow> hash_poh api p (saturating_sub n 1);
        if txs = [] then map_option pe_hash (fst (tick api p))
        else do {
          mixin \<leftarrow> hash_transactions api signatures txs;
          map_option pe_hash (fst (record_mixin api p mixin))
        }
      })"

definition entry_new :: "('h, 'x) poh_api_scheme \<Rightarrow> ('tx \<Rightarrow> u8 list list) \<Rightarrow> 'h \<Rightarrow> u64 \<Rightarrow> 'tx list \<Rightarrow> ('h, 'tx) entry option" where
  "entry_new api signatures prev_hash n txs =
     (let n = (if n = 0 \<and> txs \<noteq> [] then 1 else n)
      in map_option (\<lambda>hash. \<lparr>entry_num_hashes = n, entry_hash = hash, transactions = txs\<rparr>) (next_hash api signatures prev_hash n txs))"

definition new_mut :: "('h, 'x) poh_api_scheme \<Rightarrow> ('tx \<Rightarrow> u8 list list) \<Rightarrow> 'h \<Rightarrow> u64 \<Rightarrow> 'tx list \<Rightarrow> (('h, 'tx) entry \<times> 'h \<times> u64) option" where
  "new_mut api signatures start_hash n txs = map_option (\<lambda>entry. (entry, entry_hash entry, 0)) (entry_new api signatures start_hash n txs)"

definition entry_verify :: "('h, 'x) poh_api_scheme \<Rightarrow> ('tx \<Rightarrow> u8 list list) \<Rightarrow> ('h, 'tx) entry \<Rightarrow> 'h \<Rightarrow> bool option" where
  "entry_verify api signatures self start_hash =
     map_option (\<lambda>ref_hash. entry_hash self = ref_hash) (next_hash api signatures start_hash (entry_num_hashes self) (transactions self))"

definition next_entry_mut :: "('h, 'x) poh_api_scheme \<Rightarrow> ('tx \<Rightarrow> u8 list list) \<Rightarrow> 'h \<Rightarrow> u64 \<Rightarrow> 'tx list \<Rightarrow> (('h, 'tx) entry \<times> 'h) option" where
  "next_entry_mut api signatures start n txs = map_option (\<lambda>entry. (entry, entry_hash entry)) (entry_new api signatures start n txs)"

primrec create_ticks :: "('h, 'x) poh_api_scheme \<Rightarrow> ('tx \<Rightarrow> u8 list list) \<Rightarrow> nat \<Rightarrow> u64 \<Rightarrow> 'h \<Rightarrow> ('h, 'tx) entry list option" where
  "create_ticks api signatures 0 per_tick hash = Some []"
| "create_ticks api signatures (Suc num_ticks) per_tick hash =
     (case next_entry_mut api signatures hash per_tick [] of
        None \<Rightarrow> None
      | Some (entry, hash) \<Rightarrow> map_option (\<lambda>entries. entry # entries) (create_ticks api signatures num_ticks per_tick hash))"

definition next_versioned_entry :: "('h, 'x) poh_api_scheme \<Rightarrow> ('tx \<Rightarrow> u8 list list) \<Rightarrow> 'h \<Rightarrow> u64 \<Rightarrow> 'tx list \<Rightarrow> ('h, 'tx) entry option" where
  "next_versioned_entry api signatures prev_hash n txs =
     (if n > 0 \<or> txs = []
      then map_option (\<lambda>hash. \<lparr>entry_num_hashes = n, entry_hash = hash, transactions = txs\<rparr>) (next_hash api signatures prev_hash n txs)
      else None)"


section \<open>Verification of a slice of entries\<close>

text \<open>The test of all elements; a panic ends it.\<close>

fun all_opt :: "('a \<Rightarrow> bool option) \<Rightarrow> 'a list \<Rightarrow> bool option" where
  "all_opt f [] = Some True"
| "all_opt f (x # xs) = (case f x of None \<Rightarrow> None | Some False \<Rightarrow> Some False | Some True \<Rightarrow> all_opt f xs)"

definition genesis :: "'h \<Rightarrow> ('h, 'tx) entry" where
  "genesis start_hash = \<lparr>entry_num_hashes = 0, entry_hash = start_hash, transactions = []\<rparr>"

definition verify_cpu_generic :: "('h, 'x) poh_api_scheme \<Rightarrow> ('tx \<Rightarrow> u8 list list) \<Rightarrow> ('h, 'tx) entry list \<Rightarrow> 'h \<Rightarrow> bool option" where
  "verify_cpu_generic api signatures self start_hash =
     all_opt (\<lambda>(x0, x1). entry_verify api signatures x1 (entry_hash x0)) (zip (genesis start_hash # self) self)"

definition compare_hashes :: "('h, 'x) poh_api_scheme \<Rightarrow> ('tx \<Rightarrow> u8 list list) \<Rightarrow> 'h \<Rightarrow> ('h, 'tx) entry \<Rightarrow> bool option" where
  "compare_hashes api signatures computed_hash ref_entry =
     map_option (\<lambda>actual. actual = entry_hash ref_entry)
       (if transactions ref_entry \<noteq> [] then do {
          tx_hash \<leftarrow> hash_transactions api signatures (transactions ref_entry);
          p \<leftarrow> poh_new 0 computed_hash None;
          map_option pe_hash (fst (record_mixin api p tx_hash))
        } else if entry_num_hashes ref_entry > 0 then do {
          p \<leftarrow> poh_new 0 computed_hash None;
          map_option pe_hash (fst (tick api p))
        } else Some computed_hash)"

text \<open>\<open>slice::chunks\<close>.\<close>

definition chunks :: "nat \<Rightarrow> 'a list \<Rightarrow> 'a list list" where
  "chunks s xs = map (\<lambda>i. take s (drop (i * s) xs)) [0..<(length xs + s - 1) div s]"

text \<open>One chunk: the kernel, then the comparison with the entries of the chunk.\<close>

definition simd_chunk :: "('h, 'x) poh_api_scheme \<Rightarrow> (nat \<Rightarrow> 'h list \<Rightarrow> u64 list \<Rightarrow> 'h list) \<Rightarrow> ('tx \<Rightarrow> u8 list list) \<Rightarrow> ('h, 'tx) entry list \<Rightarrow> nat \<Rightarrow>
    nat \<times> 'h list \<times> u64 list \<Rightarrow> bool option" where
  "simd_chunk api simd signatures self simd_len = (\<lambda>(i, chunk, ns).
     if simd_len = 8 \<or> simd_len = 16 then
       (let chunk = simd simd_len chunk ns; entry_start = i * simd_len; entry_end = min (entry_start + simd_len) (length self)
        in case slice_opt self entry_start entry_end of
             None \<Rightarrow> None
           | Some entries \<Rightarrow> all_opt (\<lambda>(j, ref_entry). case nth_opt chunk j of
                 None \<Rightarrow> None
               | Some hash \<Rightarrow> compare_hashes api signatures hash ref_entry) (zip [0..<length entries] entries))
     else None)"

text \<open>The hashes before each entry, filled up with zero hashes, go to the kernel in chunks of \<open>simd_len\<close>. The byte buffer is the list of the
  hashes in it.\<close>

definition verify_cpu_x86_simd :: "('h, 'x) poh_api_scheme \<Rightarrow> (nat \<Rightarrow> 'h list \<Rightarrow> u64 list \<Rightarrow> 'h list) \<Rightarrow> 'h \<Rightarrow> ('tx \<Rightarrow> u8 list list) \<Rightarrow> ('h, 'tx) entry list \<Rightarrow> 'h \<Rightarrow>
    nat \<Rightarrow> bool option" where
  "verify_cpu_x86_simd api simd zero_hash signatures self start_hash simd_len =
     (let aligned_len = (length self + simd_len - 1) div simd_len * simd_len;
          hashes = take (length self) (start_hash # map entry_hash self) @ replicate (aligned_len - length self) zero_hash;
          counts = map (\<lambda>entry. saturating_sub (entry_num_hashes entry) 1) self @ replicate (aligned_len - length self) 0
      in all_opt (simd_chunk api simd signatures self simd_len)
         (zip [0..<length (chunks simd_len hashes)] (zip (chunks simd_len hashes) (chunks simd_len counts))))"

text \<open>What the machine offers: the SIMD kernels, the CPU features, and the GPU, whose kernel also gives a result code.\<close>

record 'h hardware =
  simd_api :: "(nat \<Rightarrow> 'h list \<Rightarrow> u64 list \<Rightarrow> 'h list) option"
  has_avx2 :: bool
  has_avx512 :: bool
  gpu_api :: "('h list \<Rightarrow> u64 list \<Rightarrow> u32 \<times> 'h list) option"

definition verify_cpu :: "('h, 'x) poh_api_scheme \<Rightarrow> 'h hardware \<Rightarrow> 'h \<Rightarrow> ('tx \<Rightarrow> u8 list list) \<Rightarrow> ('h, 'tx) entry list \<Rightarrow> 'h \<Rightarrow> bool option" where
  "verify_cpu api hw zero_hash signatures self start_hash =
     (case simd_api hw of
        Some simd \<Rightarrow>
          if has_avx512 hw \<and> length self \<ge> 128 then verify_cpu_x86_simd api simd zero_hash signatures self start_hash 16
          else if has_avx2 hw \<and> length self \<ge> 48 then verify_cpu_x86_simd api simd zero_hash signatures self start_hash 8
          else verify_cpu_generic api signatures self start_hash
      | None \<Rightarrow> verify_cpu_generic api signatures self start_hash)"

datatype 'h verify_action = Mixin 'h | Tick | NoAction

datatype 'h verification_state = Cpu bool | Gpu "'h list option" "('h verify_action \<times> 'h) list"

definition verify_action_of :: "('h, 'x) poh_api_scheme \<Rightarrow> ('tx \<Rightarrow> u8 list list) \<Rightarrow> ('h, 'tx) entry \<Rightarrow> ('h verify_action \<times> 'h) option" where
  "verify_action_of api signatures entry =
     map_option (\<lambda>action. (action, entry_hash entry))
       (if transactions entry = [] then Some (if entry_num_hashes entry = 0 then NoAction else Tick)
        else map_option Mixin (hash_transactions api signatures (transactions entry)))"

fun map_opt :: "('a \<Rightarrow> 'b option) \<Rightarrow> 'a list \<Rightarrow> 'b list option" where
  "map_opt f [] = Some []"
| "map_opt f (x # xs) = (case f x of None \<Rightarrow> None | Some y \<Rightarrow> map_option ((#) y) (map_opt f xs))"

text \<open>The thread that runs the GPU ends before its result is used; it panics, and joining it later does, when the result code is not 0.\<close>

definition start_verify :: "('h, 'x) poh_api_scheme \<Rightarrow> 'h hardware \<Rightarrow> 'h \<Rightarrow> ('tx \<Rightarrow> u8 list list) \<Rightarrow> ('h, 'tx) entry list \<Rightarrow> 'h \<Rightarrow> 'h verification_state option" where
  "start_verify api hw zero_hash signatures self start_hash =
     (case gpu_api hw of
        None \<Rightarrow> map_option Cpu (verify_cpu api hw zero_hash signatures self start_hash)
      | Some poh_verify_many \<Rightarrow>
          (let hashes = take (length self) (map entry_hash (genesis start_hash # self));
               counts = map (\<lambda>entry. saturating_sub (entry_num_hashes entry) 1) self
           in map_option (Gpu (case poh_verify_many hashes counts of (res, hashes) \<Rightarrow> if res = 0 then Some hashes else None))
                (map_opt (verify_action_of api signatures) self)))"

fun apply_action :: "('h, 'x) poh_api_scheme \<Rightarrow> 'h \<Rightarrow> 'h verify_action \<Rightarrow> 'h option" where
  "apply_action api hash (Mixin mixin) = do { p \<leftarrow> poh_new 0 hash None; map_option pe_hash (fst (record_mixin api p mixin)) }"
| "apply_action api hash Tick = do { p \<leftarrow> poh_new 0 hash None; map_option pe_hash (fst (tick api p)) }"
| "apply_action api hash NoAction = Some hash"

fun finish_verify :: "('h, 'x) poh_api_scheme \<Rightarrow> 'h verification_state \<Rightarrow> bool option" where
  "finish_verify api (Gpu None verifications) = None"
| "finish_verify api (Gpu (Some hashes) verifications) =
     all_opt (\<lambda>(hash, action, expected). map_option (\<lambda>actual. actual = expected) (apply_action api hash action)) (zip hashes verifications)"
| "finish_verify api (Cpu success) = Some success"

definition verify_entries :: "('h, 'x) poh_api_scheme \<Rightarrow> 'h hardware \<Rightarrow> 'h \<Rightarrow> ('tx \<Rightarrow> u8 list list) \<Rightarrow> ('h, 'tx) entry list \<Rightarrow> 'h \<Rightarrow> bool option" where
  "verify_entries api hw zero_hash signatures self start_hash =
     (case start_verify api hw zero_hash signatures self start_hash of None \<Rightarrow> None | Some state \<Rightarrow> finish_verify api state)"

fun tick_hash_loop :: "u64 \<Rightarrow> ('h, 'tx) entry list \<Rightarrow> u64 \<Rightarrow> bool \<times> u64" where
  "tick_hash_loop per_tick [] count = (count < per_tick, count)"
| "tick_hash_loop per_tick (entry # entries) count =
     (let count = saturating_add count (entry_num_hashes entry)
      in if entry_is_tick entry then if count \<noteq> per_tick then (False, count) else tick_hash_loop per_tick entries 0
         else tick_hash_loop per_tick entries count)"

definition verify_tick_hash_count :: "('h, 'tx) entry list \<Rightarrow> u64 \<Rightarrow> u64 \<Rightarrow> bool \<times> u64" where
  "verify_tick_hash_count self tick_hash_count per_tick =
     (if per_tick = 0 then (True, tick_hash_count) else tick_hash_loop per_tick self tick_hash_count)"

definition tick_count :: "('h, 'tx) entry list \<Rightarrow> u64" where
  "tick_count self = of_nat (length (filter entry_is_tick self))"

end
