(* ===== verification/Poh_Correct.thy ===== *)
theory Poh_Correct
  imports Poh
begin

text \<open>
  The verification paths for entries agree, and what a leader makes with its proof of history passes verification.
\<close>

section \<open>One entry\<close>

text \<open>The hash that an entry with \<open>n\<close> hashes and these transactions has after \<open>start\<close>.\<close>

definition tx_mixin :: "('h, 'x) poh_api_scheme \<Rightarrow> ('tx \<Rightarrow> u8 list list) \<Rightarrow> 'tx list \<Rightarrow> 'h" where
  "tx_mixin api signatures txs = the (hash_transactions api signatures txs)"

definition finish_link :: "('h, 'x) poh_api_scheme \<Rightarrow> ('tx \<Rightarrow> u8 list list) \<Rightarrow> 'h \<Rightarrow> u64 \<Rightarrow> 'tx list \<Rightarrow> 'h" where
  "finish_link api signatures h n txs =
     (if txs \<noteq> [] then hashv api [hash_bytes api h, hash_bytes api (tx_mixin api signatures txs)]
      else if n \<noteq> 0 then hash_one api (hash_bytes api h) else h)"

definition link :: "('h, 'x) poh_api_scheme \<Rightarrow> ('tx \<Rightarrow> u8 list list) \<Rightarrow> 'h \<Rightarrow> u64 \<Rightarrow> 'tx list \<Rightarrow> 'h" where
  "link api signatures start n txs = finish_link api signatures (hash_times api (unat n - 1) start) n txs"

lemma hash_transactions_total: "hash_transactions api signatures txs = Some (tx_mixin api signatures txs)"
  by (simp add: tx_mixin_def hash_transactions_def merkle_new_exact)

lemma low_power_gt: "(1::u64) < LOW_POWER_MODE"
  by (simp add: LOW_POWER_MODE_def word_less_nat_alt unat_max_word)

lemma poh_new_low: "poh_new now h None = Some \<lparr>poh_hash = h, num_hashes = 0, hashes_per_tick = LOW_POWER_MODE,
    remaining_hashes = LOW_POWER_MODE, tick_number = 0, slot_start_time = now\<rparr>"
  by (simp add: poh_new_def new_with_slot_info_def low_power_gt)

lemma saturating_pred: "unat (saturating_sub n 1 :: u64) = unat n - 1"
  using unat_saturating_sub [of n 1] by simp

lemma hash_low:
  assumes "m < LOW_POWER_MODE" and "poh_new now h None = Some p"
  shows "hash_poh api p m = Some (LOW_POWER_MODE - m = 1, p\<lparr>poh_hash := hash_times api (unat m) h, num_hashes := m, remaining_hashes := LOW_POWER_MODE - m\<rparr>)"
proof -
  have "unat m < 2 ^ 64 - 1" using assms(1) by (simp add: LOW_POWER_MODE_def word_less_nat_alt unat_max_word)
  then have "m \<le> LOW_POWER_MODE - 1" "0 < LOW_POWER_MODE - m"
    using unat_sub [of 1 LOW_POWER_MODE] low_power_gt unat_sub [of m LOW_POWER_MODE] assms(1)
    by (simp_all add: word_le_nat_alt word_less_nat_alt LOW_POWER_MODE_def unat_max_word)
  then show ?thesis using assms(2) by (auto simp: hash_poh_def poh_new_low Let_def min_def)
qed

lemma next_hash_exact:
  assumes "txs = [] \<or> n < LOW_POWER_MODE"
  shows "next_hash api signatures start n txs = Some (link api signatures start n txs)"
proof (cases "n = 0 \<and> txs = []")
  case True
  then show ?thesis by (simp add: next_hash_def link_def finish_link_def)
next
  case False
  obtain p where p: "poh_new 0 start None = Some p" by (simp add: poh_new_low)
  let ?m = "saturating_sub n 1 :: u64"
  have less: "?m < LOW_POWER_MODE" using saturating_pred [of n] unat_less_pow [of n] by (simp add: word_less_nat_alt LOW_POWER_MODE_def unat_max_word)
  have rem: "LOW_POWER_MODE - ?m \<noteq> 1" if "n < LOW_POWER_MODE"
  proof
    assume eq: "LOW_POWER_MODE - ?m = 1"
    have "unat (LOW_POWER_MODE - ?m) = unat LOW_POWER_MODE - (unat n - 1)" using unat_sub [of ?m LOW_POWER_MODE] less saturating_pred [of n] by simp
    moreover have "unat (LOW_POWER_MODE - ?m) = 1" unfolding eq by simp
    moreover have "unat n < unat LOW_POWER_MODE" "1 < unat LOW_POWER_MODE" using that low_power_gt by (simp_all add: word_less_nat_alt)
    ultimately show False by linarith
  qed
  show ?thesis using False p hash_low [OF less p, of api] assms rem
    by (auto simp: next_hash_def link_def finish_link_def saturating_pred hash_transactions_total tick_def record_mixin_def Let_def poh_new_low)
qed

lemma compare_hashes_exact:
  "compare_hashes api signatures h e = Some (finish_link api signatures h (entry_num_hashes e) (transactions e) = entry_hash e)"
  using low_power_gt by (auto simp: compare_hashes_def poh_new_low hash_transactions_total record_mixin_def tick_def Let_def finish_link_def word_gt_0)

lemma action_exact:
  "verify_action_of api signatures e = Some (a, x) \<Longrightarrow>
    map_option (\<lambda>actual. actual = x) (apply_action api h a) = Some (finish_link api signatures h (entry_num_hashes e) (transactions e) = entry_hash e)"
  using low_power_gt by (auto simp: verify_action_of_def poh_new_low hash_transactions_total record_mixin_def tick_def Let_def finish_link_def split: if_splits)

lemma action_total: "\<exists>a. verify_action_of api signatures e = Some (a, entry_hash e)"
  by (simp add: verify_action_of_def hash_transactions_total)


section \<open>Slices\<close>

lemma all_opt_exact: "(\<And>x. x \<in> set xs \<Longrightarrow> f x = Some (P x)) \<Longrightarrow> all_opt f xs = Some (list_all P xs)"
  by (induction xs) (auto split: bool.splits)

lemma all_opt_map: "all_opt f (map g xs) = all_opt (f \<circ> g) xs"
  by (induction xs) (auto split: option.splits bool.splits)

text \<open>The hash before each entry, and that every entry links to the one before.\<close>

definition prevs :: "'h \<Rightarrow> ('h, 'tx) entry list \<Rightarrow> 'h list" where
  "prevs start es = take (length es) (start # map entry_hash es)"

definition linked :: "('h, 'x) poh_api_scheme \<Rightarrow> ('tx \<Rightarrow> u8 list list) \<Rightarrow> 'h \<Rightarrow> ('h, 'tx) entry \<Rightarrow> bool" where
  "linked api signatures h e \<longleftrightarrow> link api signatures h (entry_num_hashes e) (transactions e) = entry_hash e"

definition chained :: "('h, 'x) poh_api_scheme \<Rightarrow> ('tx \<Rightarrow> u8 list list) \<Rightarrow> 'h \<Rightarrow> ('h, 'tx) entry list \<Rightarrow> bool" where
  "chained api signatures start es \<longleftrightarrow> (\<forall>k<length es. linked api signatures (prevs start es ! k) (es ! k))"

lemma length_prevs [simp]: "length (prevs start es) = length es"
  by (simp add: prevs_def)

lemma chained_Nil [simp]: "chained api signatures start []"
  by (simp add: chained_def)

lemma chained_snoc:
  "chained api signatures start (es @ [e]) \<longleftrightarrow>
    chained api signatures start es \<and> linked api signatures (if es = [] then start else entry_hash (last es)) e"
proof -
  have old: "prevs start (es @ [e]) ! k = prevs start es ! k" if "k < length es" for k
    using that by (auto simp: prevs_def nth_Cons' nth_append)
  have new: "prevs start (es @ [e]) ! length es = (if es = [] then start else entry_hash (last es))"
    by (cases es rule: rev_cases) (auto simp: prevs_def nth_append)
  show ?thesis unfolding chained_def using old new by (auto simp: less_Suc_eq nth_append)
qed

text \<open>An entry that \<open>next_hash\<close> can compute: one with transactions and \<open>u64::MAX\<close> hashes makes it panic.\<close>

definition computable :: "('h, 'tx) entry \<Rightarrow> bool" where
  "computable e \<longleftrightarrow> transactions e = [] \<or> entry_num_hashes e < LOW_POWER_MODE"

lemma verify_cpu_generic_exact:
  assumes "list_all computable es"
  shows "verify_cpu_generic api signatures es start = Some (chained api signatures start es)"
proof -
  let ?pairs = "zip (genesis start # es) es"
  have "all_opt (\<lambda>(x0, x1). entry_verify api signatures x1 (entry_hash x0)) ?pairs =
      Some (list_all (\<lambda>(x0, x1). linked api signatures (entry_hash x0) x1) ?pairs)"
  proof (rule all_opt_exact)
    fix x assume "x \<in> set ?pairs"
    then obtain x0 x1 where x: "x = (x0, x1)" "x1 \<in> set es" by (metis surj_pair set_zip_rightD)
    then have "computable x1" using assms by (simp add: list_all_iff)
    then show "(case x of (x0, x1) \<Rightarrow> entry_verify api signatures x1 (entry_hash x0)) = Some (case x of (x0, x1) \<Rightarrow> linked api signatures (entry_hash x0) x1)"
      using x(1) next_hash_exact [of "transactions x1" "entry_num_hashes x1" api signatures "entry_hash x0"]
      by (auto simp: entry_verify_def computable_def linked_def)
  qed
  moreover have "entry_hash ((genesis start # es) ! k) = prevs start es ! k" if "k < length es" for k
    using that by (cases k) (auto simp: prevs_def genesis_def)
  ultimately show ?thesis by (auto simp: verify_cpu_generic_def chained_def list_all_length)
qed

lemma map_opt_exact: "(\<And>x. x \<in> set xs \<Longrightarrow> f x = Some (g x)) \<Longrightarrow> map_opt f xs = Some (map g xs)"
  by (induction xs) auto

text \<open>The documented effect of the kernels: each hash is hashed as often as its count says, and the GPU gives 0 for success.\<close>

definition kernel_ok :: "('h, 'x) poh_api_scheme \<Rightarrow> nat \<Rightarrow> (nat \<Rightarrow> 'h list \<Rightarrow> u64 list \<Rightarrow> 'h list) \<Rightarrow> bool" where
  "kernel_ok api s simd \<longleftrightarrow> (s = 8 \<or> s = 16) \<and>
     (\<forall>hs ns. length hs = s \<longrightarrow> length ns = s \<longrightarrow> simd s hs ns = map2 (\<lambda>h n. hash_times api (unat n) h) hs ns)"

definition hardware_ok :: "('h, 'x) poh_api_scheme \<Rightarrow> 'h hardware \<Rightarrow> bool" where
  "hardware_ok api hw \<longleftrightarrow>
     (\<forall>simd. simd_api hw = Some simd \<longrightarrow> kernel_ok api 8 simd \<and> kernel_ok api 16 simd) \<and>
     (\<forall>many hs ns. gpu_api hw = Some many \<longrightarrow> length hs = length ns \<longrightarrow> many hs ns = (0, map2 (\<lambda>h n. hash_times api (unat n) h) hs ns))"

lemma gpu_exact:
  assumes "\<And>hs ns. length hs = length ns \<Longrightarrow> many hs ns = (0, map2 (\<lambda>h n. hash_times api (unat n) h) hs ns)" and "gpu_api hw = Some many"
  shows "verify_entries api hw zero signatures es start = Some (chained api signatures start es)"
proof -
  let ?counts = "map (\<lambda>e. saturating_sub (entry_num_hashes e) 1) es"
  define act where "act e = the (verify_action_of api signatures e)" for e
  have act: "verify_action_of api signatures e = Some (act e)" for e using action_total [of api signatures e] by (auto simp: act_def)
  have hs: "take (length es) (start # map entry_hash es) = prevs start es" by (simp add: prevs_def)
  let ?hs = "map2 (\<lambda>h n. hash_times api (unat n) h) (prevs start es) ?counts"
  have one: "map_option (\<lambda>actual. actual = snd (act e)) (apply_action api (hash_times api (unat (saturating_sub (entry_num_hashes e) 1)) h) (fst (act e))) =
      Some (linked api signatures h e)" for h e
    using action_exact [of api signatures e "fst (act e)" "snd (act e)"] act [of e] by (simp add: linked_def link_def saturating_pred)
  have "start_verify api hw zero signatures es start = Some (Gpu (Some ?hs) (map act es))"
    using assms map_opt_exact [of es "verify_action_of api signatures" act] act hs by (simp add: start_verify_def genesis_def)
  moreover have "finish_verify api (Gpu (Some ?hs) (map act es)) = Some (chained api signatures start es)"
  proof -
    have zip: "zip ?hs (map act es) = map (\<lambda>(h, e). (hash_times api (unat (saturating_sub (entry_num_hashes e) 1)) h, act e)) (zip (prevs start es) es)"
      by (rule nth_equalityI) auto
    have "finish_verify api (Gpu (Some ?hs) (map act es)) = Some (list_all (\<lambda>(h, e). linked api signatures h e) (zip (prevs start es) es))"
      unfolding finish_verify.simps zip all_opt_map by (rule all_opt_exact) (use one in \<open>auto simp: split_def\<close>)
    then show ?thesis by (auto simp: chained_def list_all_length)
  qed
  ultimately show ?thesis by (simp add: verify_entries_def)
qed


lemma length_chunks: "0 < s \<Longrightarrow> length (chunks s xs) = (length xs + s - 1) div s"
  by (simp add: chunks_def)

lemma chunks_full:
  assumes "0 < s" "length xs = m * s"
  shows "length (chunks s xs) = m" "i < m \<Longrightarrow> length (chunks s xs ! i) = s" "i < m \<Longrightarrow> j < s \<Longrightarrow> chunks s xs ! i ! j = xs ! (i * s + j)"
proof -
  have "(m * s + s - 1) div s = m" using assms(1) div_mult_self1 [of s "s - 1" m] by (simp add: add.commute [of "m * s"])
  then show len: "length (chunks s xs) = m" using assms by (simp add: length_chunks)
  show "length (chunks s xs ! i) = s" if "i < m"
  proof -
    have "i * s + s \<le> m * s" using that mult_le_mono1 [of "Suc i" m s] by simp
    then show ?thesis using that len assms(2) by (simp add: chunks_def)
  qed
  show "chunks s xs ! i ! j = xs ! (i * s + j)" if "i < m" "j < s"
  proof -
    have "i * s + s \<le> m * s" using that mult_le_mono1 [of "Suc i" m s] by simp
    then show ?thesis using that len assms(2) by (simp add: chunks_def)
  qed
qed

definition linked_at :: "('h, 'x) poh_api_scheme \<Rightarrow> ('tx \<Rightarrow> u8 list list) \<Rightarrow> 'h \<Rightarrow> ('h, 'tx) entry list \<Rightarrow> nat \<Rightarrow> bool" where
  "linked_at api signatures start es k \<longleftrightarrow> linked api signatures (prevs start es ! k) (es ! k)"

lemma simd_chunk_exact:
  assumes simd: "kernel_ok api s simd" and i: "i * s < length es" and len: "length hs = s" "length ns = s"
    and nth: "\<And>j. j < s \<Longrightarrow> i * s + j < length es \<Longrightarrow>
      hs ! j = prevs start es ! (i * s + j) \<and> unat (ns ! j) = unat (entry_num_hashes (es ! (i * s + j))) - 1"
  shows "simd_chunk api simd signatures es s (i, hs, ns) = Some (\<forall>j. j < s \<and> i * s + j < length es \<longrightarrow> linked_at api signatures start es (i * s + j))"
proof -
  let ?c = "simd s hs ns" and ?es = "take (min (i * s + s) (length es) - i * s) (drop (i * s) es)"
  have s: "s = 8 \<or> s = 16" and c: "?c = map2 (\<lambda>h n. hash_times api (unat n) h) hs ns" using simd len by (auto simp: kernel_ok_def)
  have slice: "slice_opt es (i * s) (min (i * s + s) (length es)) = Some ?es" using i by (simp add: slice_opt_def)
  have len_es: "length ?es = min s (length es - i * s)" using i by simp
  have one: "(case nth_opt ?c j of None \<Rightarrow> None | Some hash \<Rightarrow> compare_hashes api signatures hash (?es ! j)) = Some (linked_at api signatures start es (i * s + j))"
    if j: "j < s" "i * s + j < length es" for j
  proof -
    have "nth_opt ?c j = Some (hash_times api (unat (ns ! j)) (hs ! j))" using len j(1) by (simp add: c nth_opt_def)
    moreover have "?es ! j = es ! (i * s + j)" using j by simp
    ultimately show ?thesis using nth [OF j] by (simp add: compare_hashes_exact linked_at_def linked_def link_def)
  qed
  have "simd_chunk api simd signatures es s (i, hs, ns) = Some (list_all (\<lambda>(j, e). linked_at api signatures start es (i * s + j)) (zip [0..<length ?es] ?es))"
    unfolding simd_chunk_def using s slice one by (auto simp: Let_def len_es set_zip simp del: length_take length_drop intro!: all_opt_exact)
  also have "list_all (\<lambda>(j, e). linked_at api signatures start es (i * s + j)) (zip [0..<length ?es] ?es) \<longleftrightarrow>
      (\<forall>j. j < s \<and> i * s + j < length es \<longrightarrow> linked_at api signatures start es (i * s + j))"
    by (auto simp: list_all_length len_es simp del: length_take length_drop)
  finally show ?thesis .
qed

lemma chunk_start_less: "0 < (s::nat) \<Longrightarrow> i < (n + s - 1) div s \<Longrightarrow> i * s < n"
proof (rule ccontr)
  assume s: "0 < s" and i: "i < (n + s - 1) div s" and "\<not> i * s < n"
  then have "(n + s - 1) div s \<le> (i * s + s - 1) div s" by (intro div_le_mono) simp
  also have "\<dots> = i" using s div_mult_self1 [of s "s - 1" i] by (simp add: add.commute [of "i * s"])
  finally show False using i by simp
qed

lemma chunks_cover:
  assumes "n \<le> m * s" "0 < (s::nat)"
  shows "(\<forall>i<m. \<forall>j. j < s \<and> i * s + j < n \<longrightarrow> P (i * s + j)) \<longleftrightarrow> (\<forall>k<n. P k)"
proof (intro iffI allI impI)
  fix k assume all: "\<forall>i<m. \<forall>j. j < s \<and> i * s + j < n \<longrightarrow> P (i * s + j)" and k: "k < n"
  have "k div s < m" using k assms(1) by (simp add: less_mult_imp_div_less)
  then show "P k" using all [rule_format, of "k div s" "k mod s"] k assms(2) by simp
qed auto

lemma simd_exact:
  assumes simd: "kernel_ok api s simd"
  shows "verify_cpu_x86_simd api simd zero signatures es start s = Some (chained api signatures start es)"
proof -
  define m where "m = (length es + s - 1) div s"
  define hs where "hs = prevs start es @ replicate (m * s - length es) zero"
  define cs where "cs = map (\<lambda>e. saturating_sub (entry_num_hashes e) 1) es @ replicate (m * s - length es) (0::u64)"
  let ?zip = "zip [0..<m] (zip (chunks s hs) (chunks s cs))"
  define ok where "ok = linked_at api signatures start es"
  have pos: "0 < s" and nm: "length es \<le> m * s" using simd unfolding kernel_ok_def m_def by auto
  have len: "length hs = m * s" "length cs = m * s" using nm by (simp_all add: hs_def cs_def)
  note ch = chunks_full [OF pos len(1)] chunks_full [OF pos len(2)]
  have chunk: "simd_chunk api simd signatures es s (i, chunks s hs ! i, chunks s cs ! i) = Some (\<forall>j. j < s \<and> i * s + j < length es \<longrightarrow> ok (i * s + j))"
    if i: "i < m" for i
    unfolding ok_def using ch i chunk_start_less [OF pos i [unfolded m_def]]
    by (intro simd_chunk_exact [OF simd]) (auto simp: hs_def cs_def nth_append saturating_pred)
  have "all_opt (simd_chunk api simd signatures es s) ?zip = Some (list_all (\<lambda>(i, _). \<forall>j. j < s \<and> i * s + j < length es \<longrightarrow> ok (i * s + j)) ?zip)"
    using chunk ch(1,4) by (intro all_opt_exact) (auto simp: set_zip)
  also have "list_all (\<lambda>(i, _). \<forall>j. j < s \<and> i * s + j < length es \<longrightarrow> ok (i * s + j)) ?zip \<longleftrightarrow> (\<forall>i<m. \<forall>j. j < s \<and> i * s + j < length es \<longrightarrow> ok (i * s + j))"
    using ch(1,4) by (simp add: list_all_length)
  also have "\<dots> \<longleftrightarrow> chained api signatures start es"
    unfolding chunks_cover [OF nm pos] by (simp add: chained_def ok_def linked_at_def)
  finally show ?thesis using ch(1) unfolding verify_cpu_x86_simd_def hs_def cs_def m_def prevs_def by (simp add: Let_def)
qed


lemma verify_entries_exact:
  assumes "hardware_ok api hw" "list_all computable es"
  shows "verify_entries api hw zero signatures es start = Some (chained api signatures start es)"
proof (cases "gpu_api hw")
  case None
  have "verify_cpu api hw zero signatures es start = Some (chained api signatures start es)"
    using assms(1) simd_exact [of api _ _ zero signatures es start] verify_cpu_generic_exact [OF assms(2), of api signatures start]
    by (auto simp: verify_cpu_def hardware_ok_def split: option.splits)
  then show ?thesis using None by (simp add: verify_entries_def start_verify_def)
next
  case (Some many)
  then show ?thesis using assms(1) by (intro gpu_exact) (auto simp: hardware_ok_def)
qed

text \<open>C22. Verification does not depend on the machine: with SIMD kernels of either width, on the GPU and one by one, a slice of entries verifies
  exactly when every entry is the hash chain from the entry before it, of its length and with its transactions mixed in, and no path panics.\<close>

theorem verification_paths_agree:
  assumes "hardware_ok api hw" and "list_all computable es"
  shows "verify_entries api hw zero signatures es start = verify_cpu_generic api signatures es start \<and>
    verify_cpu_generic api signatures es start = Some (\<forall>k<length es.
      link api signatures (if k = 0 then start else entry_hash (es ! (k - 1))) (entry_num_hashes (es ! k)) (transactions (es ! k)) = entry_hash (es ! k))"
proof -
  have "prevs start es ! k = (if k = 0 then start else entry_hash (es ! (k - 1)))" if "k < length es" for k
    using that by (simp add: prevs_def nth_Cons')
  then have "chained api signatures start es \<longleftrightarrow> (\<forall>k<length es.
      link api signatures (if k = 0 then start else entry_hash (es ! (k - 1))) (entry_num_hashes (es ! k)) (transactions (es ! k)) = entry_hash (es ! k))"
    by (simp add: chained_def linked_def)
  then show ?thesis unfolding verify_entries_exact [OF assms] verify_cpu_generic_exact [OF assms(2)] by (simp only: simp_thms)
qed


section \<open>The leader\<close>

text \<open>What a leader does with its proof of history: hash ahead, record transactions, tick. The entries are those made from the recorded ones.\<close>

datatype 'tx poh_op = Hash u64 | Record "'tx list" | TickOp

definition to_entry :: "'tx list \<Rightarrow> 'h poh_entry option \<Rightarrow> ('h, 'tx) entry list" where
  "to_entry txs pe = (case pe of None \<Rightarrow> [] | Some pe \<Rightarrow> [\<lparr>entry_num_hashes = pe_num_hashes pe, entry_hash = pe_hash pe, transactions = txs\<rparr>])"

fun poh_step :: "('h, 'x) poh_api_scheme \<Rightarrow> ('tx \<Rightarrow> u8 list list) \<Rightarrow> 'tx poh_op \<Rightarrow> 'h poh \<Rightarrow> (('h, 'tx) entry list \<times> 'h poh) option" where
  "poh_step api signatures (Hash n) p = map_option (\<lambda>(_, p). ([], p)) (hash_poh api p n)"
| "poh_step api signatures (Record txs) p =
     map_option (\<lambda>mixin. case record_mixin api p mixin of (pe, p) \<Rightarrow> (to_entry txs pe, p)) (hash_transactions api signatures txs)"
| "poh_step api signatures TickOp p = (case tick api p of (pe, p) \<Rightarrow> Some (to_entry [] pe, p))"

fun poh_run :: "('h, 'x) poh_api_scheme \<Rightarrow> ('tx \<Rightarrow> u8 list list) \<Rightarrow> 'tx poh_op list \<Rightarrow> 'h poh \<Rightarrow> (('h, 'tx) entry list \<times> 'h poh) option" where
  "poh_run api signatures [] p = Some ([], p)"
| "poh_run api signatures (x # xs) p =
     (case poh_step api signatures x p of
        None \<Rightarrow> None
      | Some (es, p) \<Rightarrow> map_option (\<lambda>(fs, p). (es @ fs, p)) (poh_run api signatures xs p))"

text \<open>The hashes counted since the last tick.\<close>

definition since_tick :: "('h, 'tx) entry list \<Rightarrow> nat" where
  "since_tick es = sum_list (map (unat \<circ> entry_num_hashes) (takeWhile (\<lambda>e. \<not> entry_is_tick e) (rev es)))"

definition poh_inv :: "('h, 'x) poh_api_scheme \<Rightarrow> ('tx \<Rightarrow> u8 list list) \<Rightarrow> 'h \<Rightarrow> u64 \<Rightarrow> ('h, 'tx) entry list \<Rightarrow> 'h poh \<Rightarrow> bool" where
  "poh_inv api signatures start per_tick es p \<longleftrightarrow>
     hashes_per_tick p = per_tick \<and> 1 < per_tick \<and> 1 \<le> unat (remaining_hashes p) \<and>
     poh_hash p = hash_times api (unat (num_hashes p)) (if es = [] then start else entry_hash (last es)) \<and>
     since_tick es + unat (num_hashes p) + unat (remaining_hashes p) = unat per_tick \<and>
     chained api signatures start es \<and> list_all computable es"

lemma hash_times_add: "hash_times api (m + n) h = hash_times api n (hash_times api m h)"
  by (induction m arbitrary: h) auto

lemma hash_times_Suc: "hash_times api (Suc n) h = hash_one api (hash_bytes api (hash_times api n h))"
  using hash_times_add [of api n 1 h] by simp

lemma since_tick_snoc: "since_tick (es @ [e]) = (if entry_is_tick e then 0 else since_tick es + unat (entry_num_hashes e))"
  by (simp add: since_tick_def)

lemma hash_keeps:
  assumes "poh_inv api signatures start per_tick es p"
  shows "\<exists>b p'. hash_poh api p n = Some (b, p') \<and> poh_inv api signatures start per_tick es p'"
proof -
  define k where "k = min (remaining_hashes p - 1) n"
  have rem: "1 \<le> unat (remaining_hashes p)" "since_tick es + unat (num_hashes p) + unat (remaining_hashes p) = unat per_tick"
    using assms by (auto simp: poh_inv_def)
  have "unat (remaining_hashes p - 1) = unat (remaining_hashes p) - 1" using rem(1) unat_sub [of 1 "remaining_hashes p"] by (simp add: word_le_nat_alt)
  moreover have "k \<le> remaining_hashes p - 1" by (simp add: k_def)
  ultimately have k: "unat k < unat (remaining_hashes p)" using rem(1) by (simp add: word_le_nat_alt)
  then have r: "unat (remaining_hashes p - k) = unat (remaining_hashes p) - unat k" using unat_sub [of k "remaining_hashes p"] by (simp add: word_le_nat_alt)
  have "unat (num_hashes p) + unat k < 2 ^ 64" using k rem(2) unat_less_pow [of per_tick] by simp
  then have nn: "unat (num_hashes p + k) = unat (num_hashes p) + unat k" by (simp add: unat_add_no_wrap)
  let ?p = "p\<lparr>poh_hash := hash_times api (unat k) (poh_hash p), num_hashes := num_hashes p + k, remaining_hashes := remaining_hashes p - k\<rparr>"
  have "0 < remaining_hashes p - k" using r k by (simp add: word_less_nat_alt)
  then have "hash_poh api p n = Some (remaining_hashes p - k = 1, ?p)" by (simp add: hash_poh_def Let_def k_def)
  moreover have "poh_inv api signatures start per_tick es ?p" using assms r nn k rem(2) by (auto simp: poh_inv_def hash_times_add)
  ultimately show ?thesis by blast
qed

lemma extend_keeps:
  assumes "poh_inv api signatures start per_tick es p" and "e = \<lparr>entry_num_hashes = num_hashes p + 1, entry_hash = h, transactions = txs\<rparr>"
    and "h = finish_link api signatures (poh_hash p) 1 txs" and "txs = [] \<or> 1 < unat (remaining_hashes p)"
  shows "unat (num_hashes p + 1) = unat (num_hashes p) + 1" "chained api signatures start (es @ [e])" "list_all computable (es @ [e])"
proof -
  have p: "1 \<le> unat (remaining_hashes p)" "since_tick es + unat (num_hashes p) + unat (remaining_hashes p) = unat per_tick"
    "poh_hash p = hash_times api (unat (num_hashes p)) (if es = [] then start else entry_hash (last es))" "chained api signatures start es" "list_all computable es"
    using assms(1) by (auto simp: poh_inv_def)
  have bound: "unat per_tick < 2 ^ 64" using unat_less_pow [of per_tick] by simp
  then show n: "unat (num_hashes p + 1) = unat (num_hashes p) + 1" using p(1,2) by (subst unat_add_no_wrap) auto
  then have "num_hashes p + 1 \<noteq> 0" by (metis add_is_0 one_neq_zero unat_eq_zero_iff)
  then have "linked api signatures (if es = [] then start else entry_hash (last es)) e"
    using assms(2,3) n p(3) by (simp add: linked_def link_def finish_link_def)
  then show "chained api signatures start (es @ [e])" using p(4) chained_snoc by metis
  have "unat (num_hashes p + 1) < unat LOW_POWER_MODE" if "1 < unat (remaining_hashes p)"
    using that p(2) n bound by (simp add: LOW_POWER_MODE_def unat_max_word)
  then show "list_all computable (es @ [e])" using p(5) assms(2,4) by (auto simp: computable_def word_less_nat_alt)
qed


text \<open>The tick counter accepts the entries and has counted the hashes since the last tick.\<close>

definition counted :: "u64 \<Rightarrow> ('h, 'tx) entry list \<Rightarrow> bool" where
  "counted per_tick es \<longleftrightarrow> per_tick = LOW_POWER_MODE \<or> (\<exists>c. tick_hash_loop per_tick es 0 = (True, c) \<and> unat c = since_tick es)"

lemma tick_hash_loop_snoc:
  "tick_hash_loop per_tick es c = (True, c') \<Longrightarrow> tick_hash_loop per_tick (es @ [e]) c = tick_hash_loop per_tick [e] c'"
  by (induction per_tick es c rule: tick_hash_loop.induct) (auto simp: Let_def split: if_splits)

lemma counted_snoc:
  assumes "counted per_tick es" and "since_tick es + unat (entry_num_hashes e) \<le> unat per_tick"
    and "if entry_is_tick e then since_tick es + unat (entry_num_hashes e) = unat per_tick \<or> per_tick = LOW_POWER_MODE
      else since_tick es + unat (entry_num_hashes e) < unat per_tick" and "1 < per_tick"
  shows "counted per_tick (es @ [e])"
proof (cases "per_tick = LOW_POWER_MODE")
  case False
  then obtain c where c: "tick_hash_loop per_tick es 0 = (True, c)" "unat c = since_tick es" using assms(1) by (auto simp: counted_def)
  let ?c = "saturating_add c (entry_num_hashes e) :: u64"
  have n: "unat ?c = since_tick es + unat (entry_num_hashes e)"
    using unat_saturating_add [of c "entry_num_hashes e"] assms(2) unat_less_pow [of per_tick] c(2) by simp
  have "tick_hash_loop per_tick [e] c = (True, if entry_is_tick e then 0 else ?c)"
  proof (cases "entry_is_tick e")
    case True
    then have "?c = per_tick" using n assms(3) False by (intro word_unat_eqI) simp
    moreover have "0 < per_tick" using assms(4) by (simp add: word_less_nat_alt)
    ultimately show ?thesis using True by (simp add: Let_def)
  next
    case t: False
    then show ?thesis using n assms(3) by (simp add: Let_def word_less_nat_alt)
  qed
  then show ?thesis using tick_hash_loop_snoc [OF c(1), of e] n by (auto simp: counted_def since_tick_snoc)
qed (simp add: counted_def)

lemma record_keeps:
  assumes "poh_inv api signatures start per_tick es p" "counted per_tick es" "txs \<noteq> []"
    and "record_mixin api p (tx_mixin api signatures txs) = (pe, p')"
  shows "poh_inv api signatures start per_tick (es @ to_entry txs pe) p' \<and> counted per_tick (es @ to_entry txs pe)"
proof (cases "remaining_hashes p = 1")
  case True
  then show ?thesis using assms by (simp add: record_mixin_def to_entry_def)
next
  case False
  have p: "1 \<le> unat (remaining_hashes p)" "since_tick es + unat (num_hashes p) + unat (remaining_hashes p) = unat per_tick" "1 < per_tick"
    using assms(1) by (auto simp: poh_inv_def)
  have r: "1 < unat (remaining_hashes p)" using p(1) False unat_eq_one_iff [of "remaining_hashes p"] by linarith
  then have pred: "unat (remaining_hashes p - 1) = unat (remaining_hashes p) - 1" using unat_sub [of 1 "remaining_hashes p"] by (simp add: word_le_nat_alt)
  define h where "h = finish_link api signatures (poh_hash p) 1 txs"
  define e where "e = \<lparr>entry_num_hashes = num_hashes p + 1, entry_hash = h, transactions = txs\<rparr>"
  have ext: "unat (num_hashes p + 1) = unat (num_hashes p) + 1" "chained api signatures start (es @ [e])" "list_all computable (es @ [e])"
    using extend_keeps [OF assms(1) e_def h_def] r by auto
  have pe: "to_entry txs pe = [e]" "p' = p\<lparr>poh_hash := h, num_hashes := 0, remaining_hashes := remaining_hashes p - 1\<rparr>"
    using assms(3,4) False by (auto simp: record_mixin_def Let_def to_entry_def e_def h_def finish_link_def)
  have e: "\<not> entry_is_tick e" "entry_num_hashes e = num_hashes p + 1" "entry_hash e = h" using assms(3) by (simp_all add: e_def entry_is_tick_def)
  have "counted per_tick (es @ [e])" by (rule counted_snoc [OF assms(2)]) (use e ext p r in auto)
  moreover have "poh_inv api signatures start per_tick (es @ [e]) p'"
    using assms(1) ext p(2) r pred e unfolding poh_inv_def pe(2) by (simp add: since_tick_snoc)
  ultimately show ?thesis using pe(1) by simp
qed

lemma tick_keeps:
  fixes es :: "('h, 'tx) entry list"
  assumes "poh_inv api signatures start per_tick es p" "counted per_tick es" and "tick api p = (pe, p')"
  shows "poh_inv api signatures start per_tick (es @ to_entry [] pe) p' \<and> counted per_tick (es @ to_entry [] pe)"
proof -
  have p: "1 \<le> unat (remaining_hashes p)" "since_tick es + unat (num_hashes p) + unat (remaining_hashes p) = unat per_tick" "1 < per_tick" "hashes_per_tick p = per_tick"
    using assms(1) by (auto simp: poh_inv_def)
  have pred: "unat (remaining_hashes p - 1) = unat (remaining_hashes p) - 1" using p(1) unat_sub [of 1 "remaining_hashes p"] by (simp add: word_le_nat_alt)
  define h where "h = finish_link api signatures (poh_hash p) 1 []"
  define e :: "('h, 'tx) entry" where "e = \<lparr>entry_num_hashes = num_hashes p + 1, entry_hash = h, transactions = []\<rparr>"
  have ext: "unat (num_hashes p + 1) = unat (num_hashes p) + 1" "chained api signatures start (es @ [e])" "list_all computable (es @ [e])"
    using extend_keeps [OF assms(1) e_def h_def] by auto
  have h: "h = hash_one api (hash_bytes api (poh_hash p))" by (simp add: h_def finish_link_def)
  show ?thesis
  proof (cases "per_tick \<noteq> LOW_POWER_MODE \<and> remaining_hashes p - 1 \<noteq> 0")
    case True
    then have pe: "pe = None" "p' = p\<lparr>poh_hash := h, num_hashes := num_hashes p + 1, remaining_hashes := remaining_hashes p - 1\<rparr>"
      using assms(3) p(4) by (auto simp: tick_def Let_def h)
    have "1 \<le> unat (remaining_hashes p - 1)" using True unat_eq_zero_iff [of "remaining_hashes p - 1"] by linarith
    then have "poh_inv api signatures start per_tick es p'"
      using assms(1) ext(1) pred p(1,2) unfolding poh_inv_def pe(2) by (auto simp: h hash_times_Suc simp del: hash_times.simps)
    then show ?thesis using pe(1) assms(2) by (simp add: to_entry_def)
  next
    case False
    then have pe: "to_entry [] pe = [e]" "p' = p\<lparr>poh_hash := h, num_hashes := 0, remaining_hashes := per_tick, tick_number := tick_number p + 1\<rparr>"
      using assms(3) p(4) by (auto simp: tick_def Let_def h e_def to_entry_def)
    have e: "entry_is_tick e" "entry_num_hashes e = num_hashes p + 1" "entry_hash e = h" by (simp_all add: e_def entry_is_tick_def)
    have "remaining_hashes p - 1 = 0 \<Longrightarrow> unat (remaining_hashes p) = 1" using pred p(1) by (metis le_add_diff_inverse add_0_right unsigned_0)
    then have "counted per_tick (es @ [e])" using False by (intro counted_snoc [OF assms(2)]) (use e ext p in auto)
    moreover have "poh_inv api signatures start per_tick (es @ [e]) p'"
      using assms(1) ext e unfolding poh_inv_def pe(2) by (auto simp: since_tick_snoc word_less_nat_alt)
    ultimately show ?thesis using pe(1) by simp
  qed
qed


lemma poh_step_keeps:
  assumes "poh_inv api signatures start per_tick es p" "counted per_tick es" "x \<noteq> Record []"
  shows "\<exists>fs p'. poh_step api signatures x p = Some (fs, p') \<and> poh_inv api signatures start per_tick (es @ fs) p' \<and> counted per_tick (es @ fs)"
proof (cases x)
  case (Hash n)
  then show ?thesis using hash_keeps [OF assms(1), of n] assms(2) by auto
next
  case (Record txs)
  then show ?thesis using record_keeps [OF assms(1,2), of txs] assms(3) by (auto simp: hash_transactions_total split: prod.splits)
next
  case TickOp
  then show ?thesis using tick_keeps [OF assms(1,2)] by (auto split: prod.splits)
qed

lemma poh_run_keeps:
  "poh_inv api signatures start per_tick es p \<Longrightarrow> counted per_tick es \<Longrightarrow> Record [] \<notin> set xs \<Longrightarrow>
    \<exists>fs p'. poh_run api signatures xs p = Some (fs, p') \<and> poh_inv api signatures start per_tick (es @ fs) p' \<and> counted per_tick (es @ fs)"
proof (induction xs arbitrary: es p)
  case (Cons x xs)
  then obtain fs p1 where step: "poh_step api signatures x p = Some (fs, p1)" "poh_inv api signatures start per_tick (es @ fs) p1" "counted per_tick (es @ fs)"
    using poh_step_keeps [of api signatures start per_tick es p x] by auto
  from Cons.IH [OF step(2,3)] Cons.prems(3) obtain gs p' where
    "poh_run api signatures xs p1 = Some (gs, p')" "poh_inv api signatures start per_tick ((es @ fs) @ gs) p'" "counted per_tick ((es @ fs) @ gs)" by auto
  then show ?case using step(1) by auto
qed simp

lemma poh_new_inv:
  assumes "poh_new now start per_tick = Some p"
  shows "poh_inv api signatures start (hashes_per_tick p) [] p \<and> counted (hashes_per_tick p) []"
proof -
  have p: "1 < hashes_per_tick p" "num_hashes p = 0" "remaining_hashes p = hashes_per_tick p" "poh_hash p = start"
    using assms by (auto simp: poh_new_def new_with_slot_info_def Let_def split: if_splits)
  then show ?thesis by (simp add: poh_inv_def counted_def since_tick_def word_less_nat_alt)
qed

text \<open>C14. What a leader produces, a validator accepts. Whatever a leader does with its proof of history (hash ahead by any number, record
  transactions, tick), nothing panics, the entries it gets verify on every machine, and unless it runs in low power mode every tick has exactly the
  hashes that verification demands.\<close>

theorem leader_entries_verify:
  fixes signatures :: "'tx \<Rightarrow> u8 list list" and start :: 'h
  assumes "poh_new now start per_tick = Some p" and "Record [] \<notin> set ops" and "hardware_ok api hw"
  shows "\<exists>es p'. poh_run api signatures ops p = Some (es, p') \<and> verify_entries api hw zero signatures es start = Some True \<and>
    (hashes_per_tick p = LOW_POWER_MODE \<or> fst (verify_tick_hash_count es 0 (hashes_per_tick p)))"
proof -
  have start: "poh_inv api signatures start (hashes_per_tick p) [] p" "counted (hashes_per_tick p) ([] :: ('h, 'tx) entry list)"
    using poh_new_inv [OF assms(1)] by blast+
  from poh_run_keeps [OF start assms(2)] obtain es p' where es: "poh_run api signatures ops p = Some (es, p')"
    "poh_inv api signatures start (hashes_per_tick p) es p'" "counted (hashes_per_tick p) es" by auto
  have "list_all computable es" "chained api signatures start es" "1 < hashes_per_tick p" using es(2) by (auto simp: poh_inv_def)
  then have "verify_entries api hw zero signatures es start = Some True" "hashes_per_tick p \<noteq> 0"
    using verify_entries_exact [OF assms(3), of es zero signatures start] by auto
  then show ?thesis using es(1,3) by (auto simp: counted_def verify_tick_hash_count_def)
qed

section \<open>An instance\<close>

definition sample_poh_api :: "u8 poh_api" where
  "sample_poh_api = \<lparr>hashv = (\<lambda>xs. foldl (\<lambda>a b. 3 * a + b) 7 (concat xs)), hash_bytes = (\<lambda>h. [h]),
     hash_one = (\<lambda>xs. foldl (\<lambda>a b. 3 * a + b) 7 xs), default_hash = 0\<rparr>"

definition sample_hw :: "u8 hardware" where
  "sample_hw = \<lparr>simd_api = Some (\<lambda>s. map2 (\<lambda>h n. hash_times sample_poh_api (unat n) h)), has_avx2 = True, has_avx512 = True, gpu_api = None\<rparr>"

definition sample_poh :: "u8 poh" where
  "sample_poh = \<lparr>poh_hash = 5, num_hashes = 0, hashes_per_tick = 3, remaining_hashes = 3, tick_number = 0, slot_start_time = 0\<rparr>"

definition sample_entries :: "(u8, nat) entry list" where
  "sample_entries = [\<lparr>entry_num_hashes = 1, entry_hash = 26, transactions = []\<rparr>]"

lemma sample_hw_ok: "hardware_ok sample_poh_api sample_hw"
  by (simp add: hardware_ok_def kernel_ok_def sample_hw_def)

theorem verification_paths_agree_witness:
  "hardware_ok sample_poh_api sample_hw \<and> list_all computable sample_entries \<and>
    verify_entries sample_poh_api sample_hw 0 (\<lambda>n. [[of_nat n]]) sample_entries 5 = verify_cpu_generic sample_poh_api (\<lambda>n. [[of_nat n]]) sample_entries 5"
proof -
  have "list_all computable sample_entries" by (simp add: sample_entries_def computable_def)
  then show ?thesis using sample_hw_ok verification_paths_agree [OF sample_hw_ok, of sample_entries 0 "\<lambda>n. [[of_nat n]]" 5] by blast
qed

theorem leader_entries_verify_witness:
  "poh_new 0 5 (Some 3) = Some sample_poh \<and> Record [] \<notin> set [Hash 1, Record [1::nat], TickOp] \<and> hardware_ok sample_poh_api sample_hw \<and>
    (\<exists>es p'. poh_run sample_poh_api (\<lambda>n. [[of_nat n]]) [Hash 1, Record [1], TickOp] sample_poh = Some (es, p') \<and>
      verify_entries sample_poh_api sample_hw 0 (\<lambda>n. [[of_nat n]]) es 5 = Some True \<and>
      (hashes_per_tick sample_poh = LOW_POWER_MODE \<or> fst (verify_tick_hash_count es 0 (hashes_per_tick sample_poh))))"
proof -
  have new: "poh_new 0 5 (Some 3) = Some sample_poh" by (simp add: poh_new_def new_with_slot_info_def sample_poh_def)
  have ops: "Record [] \<notin> set [Hash 1, Record [1::nat], TickOp]" by simp
  show ?thesis using new ops sample_hw_ok leader_entries_verify [OF new ops sample_hw_ok, of "\<lambda>n. [[of_nat n]]" 0] by blast
qed

end
