(* ===== verification/Blockhash_Queue.thy ===== *)
theory Blockhash_Queue
  imports Rust_Prelude "HOL-Library.Mapping"
begin

text \<open>
  The queue of recent blockhashes (\<^verbatim>\<open>accounts-db/src/blockhash_queue.rs\<close>), by which a bank decides whether a transaction is recent and which
  fee it pays, and the theorem that it is a sliding window over the registered hashes. What the clock shows is an argument.
\<close>

section \<open>Model\<close>

record hash_info =
  fee_lamports_per_signature :: u64
  hash_index :: u64
  timestamp :: u64

record 'h blockhash_queue =
  last_hash_index :: u64
  last_hash_opt :: "'h option"
  hashes :: "('h, hash_info) mapping"
  max_age :: usize

definition lamports_per_signature :: "hash_info \<Rightarrow> u64" where
  "lamports_per_signature self = fee_lamports_per_signature self"

definition bq_new :: "usize \<Rightarrow> 'h blockhash_queue" where
  "bq_new age = \<lparr>last_hash_index = 0, last_hash_opt = None, hashes = Mapping.empty, max_age = age\<rparr>"

definition last_hash :: "'h blockhash_queue \<Rightarrow> 'h option" where
  "last_hash self = last_hash_opt self"

definition get_lamports_per_signature :: "'h blockhash_queue \<Rightarrow> 'h \<Rightarrow> u64 option" where
  "get_lamports_per_signature self hash = map_option fee_lamports_per_signature (Mapping.lookup (hashes self) hash)"

definition is_hash_valid :: "'h blockhash_queue \<Rightarrow> 'h \<Rightarrow> bool" where
  "is_hash_valid self hash = (Mapping.lookup (hashes self) hash \<noteq> None)"

definition is_hash_index_valid :: "u64 \<Rightarrow> usize \<Rightarrow> u64 \<Rightarrow> bool" where
  "is_hash_index_valid last_index age index = (last_index - index \<le> age)"

definition get_hash_info_if_valid :: "'h blockhash_queue \<Rightarrow> 'h \<Rightarrow> usize \<Rightarrow> hash_info option" where
  "get_hash_info_if_valid self hash age =
     (case Mapping.lookup (hashes self) hash of
        Some info \<Rightarrow> if is_hash_index_valid (last_hash_index self) age (hash_index info) then Some info else None
      | None \<Rightarrow> None)"

definition is_hash_valid_for_age :: "'h blockhash_queue \<Rightarrow> 'h \<Rightarrow> usize \<Rightarrow> bool" where
  "is_hash_valid_for_age self hash age = (get_hash_info_if_valid self hash age \<noteq> None)"

definition get_hash_age :: "'h blockhash_queue \<Rightarrow> 'h \<Rightarrow> u64 option" where
  "get_hash_age self hash = map_option (\<lambda>info. last_hash_index self - hash_index info) (Mapping.lookup (hashes self) hash)"

definition genesis_hash :: "u64 \<Rightarrow> 'h blockhash_queue \<Rightarrow> 'h \<Rightarrow> u64 \<Rightarrow> 'h blockhash_queue" where
  "genesis_hash now self hash lamports =
     self\<lparr>hashes := Mapping.update hash \<lparr>fee_lamports_per_signature = lamports, hash_index = 0, timestamp = now\<rparr> (hashes self),
       last_hash_opt := Some hash\<rparr>"

definition register_hash :: "u64 \<Rightarrow> 'h blockhash_queue \<Rightarrow> 'h \<Rightarrow> u64 \<Rightarrow> 'h blockhash_queue" where
  "register_hash now self hash lamports =
     (let index = last_hash_index self + 1;
          hs = (if max_age self \<le> of_nat (Mapping.size (hashes self))
                then Mapping.filter (\<lambda>_ info. is_hash_index_valid index (max_age self) (hash_index info)) (hashes self)
                else hashes self)
      in self\<lparr>last_hash_index := index,
           hashes := Mapping.update hash \<lparr>fee_lamports_per_signature = lamports, hash_index = index, timestamp = now\<rparr> hs,
           last_hash_opt := Some hash\<rparr>)"

definition get_max_age :: "'h blockhash_queue \<Rightarrow> usize" where
  "get_max_age self = max_age self"

section \<open>The window\<close>

text \<open>A bank's history: the genesis hash and the hashes registered after it, each with its fee and the time.\<close>

fun register_all :: "'h blockhash_queue \<Rightarrow> ('h \<times> u64 \<times> u64) list \<Rightarrow> 'h blockhash_queue" where
  "register_all q [] = q"
| "register_all q ((h, fee, now) # hs) = register_all (register_hash now q h fee) hs"

fun bank_queue :: "usize \<Rightarrow> 'h \<times> u64 \<times> u64 \<Rightarrow> ('h \<times> u64 \<times> u64) list \<Rightarrow> 'h blockhash_queue" where
  "bank_queue age (h, fee, now) hs = register_all (genesis_hash now (bq_new age) h fee) hs"

text \<open>Position \<open>i\<close> is the latest at which \<open>h\<close> was registered.\<close>

definition latest :: "('h \<times> u64 \<times> u64) list \<Rightarrow> 'h \<Rightarrow> nat \<Rightarrow> bool" where
  "latest hs h i \<longleftrightarrow> i < length hs \<and> fst (hs ! i) = h \<and> (\<forall>j. i < j \<and> j < length hs \<longrightarrow> fst (hs ! j) \<noteq> h)"

definition bq_inv :: "usize \<Rightarrow> ('h \<times> u64 \<times> u64) list \<Rightarrow> 'h blockhash_queue \<Rightarrow> bool" where
  "bq_inv age hs q \<longleftrightarrow> hs \<noteq> [] \<and> max_age q = age \<and> unat (last_hash_index q) = length hs - 1 \<and> last_hash_opt q = Some (fst (last hs)) \<and>
     (\<forall>h info. Mapping.lookup (hashes q) h = Some info \<longrightarrow>
        latest hs h (unat (hash_index info)) \<and> fee_lamports_per_signature info = fst (snd (hs ! unat (hash_index info)))) \<and>
     (\<forall>h i. latest hs h i \<longrightarrow> length hs - 1 - i \<le> unat age \<longrightarrow> Mapping.lookup (hashes q) h \<noteq> None) \<and>
     finite (Mapping.keys (hashes q)) \<and> card (Mapping.keys (hashes q)) \<le> unat age + 1"

lemma latest_snoc: "latest (hs @ [x]) h i \<longleftrightarrow> (if fst x = h then i = length hs else latest hs h i)"
proof (cases "fst x = h")
  case True
  have "i = length hs" if "latest (hs @ [x]) h i"
  proof (rule ccontr)
    assume "i \<noteq> length hs"
    then have "i < length hs" using that by (simp add: latest_def)
    then show False using that True unfolding latest_def by (metis length_append_singleton lessI nth_append_length)
  qed
  moreover have "latest (hs @ [x]) h (length hs)" using True by (auto simp: latest_def)
  ultimately show ?thesis using True by auto
next
  case False
  have nth: "k < length (hs @ [x]) \<and> fst ((hs @ [x]) ! k) = h \<longleftrightarrow> k < length hs \<and> fst (hs ! k) = h" for k
    using False by (cases "k < length hs"; cases "k = length hs") (simp_all add: nth_append)
  have "latest (hs @ [x]) h i \<longleftrightarrow> (i < length (hs @ [x]) \<and> fst ((hs @ [x]) ! i) = h) \<and> (\<forall>j>i. \<not> (j < length (hs @ [x]) \<and> fst ((hs @ [x]) ! j) = h))"
    unfolding latest_def by blast
  also have "\<dots> \<longleftrightarrow> latest hs h i" unfolding nth latest_def by blast
  finally show ?thesis using False by simp
qed

lemma latest_inj: "latest hs h i \<Longrightarrow> latest hs k i \<Longrightarrow> h = k"
  by (simp add: latest_def)

lemma latest_unique: "latest hs h i \<Longrightarrow> latest hs h j \<Longrightarrow> i = j"
  unfolding latest_def by (metis linorder_neqE_nat)

lemma latest_exists: "i < length hs \<Longrightarrow> fst (hs ! i) = h \<Longrightarrow> \<exists>j\<ge>i. latest hs h j"
proof (induction hs arbitrary: i rule: rev_induct)
  case (snoc x hs)
  then show ?case by (cases "fst x = h") (auto simp: latest_snoc nth_append less_Suc_eq split: if_splits)
qed simp

lemma bq_lookup:
  "bq_inv age hs q \<Longrightarrow> Mapping.lookup (hashes q) h = Some info \<Longrightarrow>
    latest hs h (unat (hash_index info)) \<and> fee_lamports_per_signature info = fst (snd (hs ! unat (hash_index info)))"
  unfolding bq_inv_def by blast

lemma bq_covers: "bq_inv age hs q \<Longrightarrow> latest hs h i \<Longrightarrow> length hs - 1 - i \<le> unat age \<Longrightarrow> \<exists>info. Mapping.lookup (hashes q) h = Some info"
  unfolding bq_inv_def by blast

lemma bq_next_index: "bq_inv age hs q \<Longrightarrow> length hs < 2 ^ 64 \<Longrightarrow> unat (last_hash_index q + 1) = length hs \<and> max_age q = age"
  by (subst unat_add_no_wrap) (auto simp: bq_inv_def)

text \<open>The retained map: what \<open>register_hash\<close> keeps of the old one.\<close>

definition retained :: "'h blockhash_queue \<Rightarrow> ('h, hash_info) mapping" where
  "retained q = (if max_age q \<le> of_nat (Mapping.size (hashes q))
     then Mapping.filter (\<lambda>_ info. is_hash_index_valid (last_hash_index q + 1) (max_age q) (hash_index info)) (hashes q) else hashes q)"

lemma register_hash_retained:
  "hashes (register_hash now q h fee) = Mapping.update h \<lparr>fee_lamports_per_signature = fee, hash_index = last_hash_index q + 1, timestamp = now\<rparr> (retained q)"
  by (simp add: register_hash_def retained_def Let_def)

lemma lookup_retained: "Mapping.lookup (retained q) h = Some info \<Longrightarrow> Mapping.lookup (hashes q) h = Some info"
  by (auto simp: retained_def lookup_filter split: if_splits option.splits)

lemma index_valid_iff:
  "unat m = n \<Longrightarrow> unat i \<le> n \<Longrightarrow> is_hash_index_valid m age i \<longleftrightarrow> n - unat i \<le> unat age"
  using unat_sub [of i m] by (simp add: is_hash_index_valid_def word_le_nat_alt)

lemma retained_keeps:
  assumes "bq_inv age hs q" "length hs < 2 ^ 64" "Mapping.lookup (hashes q) h = Some info" "length hs - unat (hash_index info) \<le> unat age"
  shows "Mapping.lookup (retained q) h = Some info"
proof -
  have "unat (hash_index info) \<le> length hs" using bq_lookup [OF assms(1,3)] by (simp add: latest_def)
  then have "is_hash_index_valid (last_hash_index q + 1) (max_age q) (hash_index info)"
    using index_valid_iff [of _ "length hs"] bq_next_index [OF assms(1,2)] assms(4) by simp
  then show ?thesis using assms(3) by (simp add: retained_def lookup_filter)
qed

lemma keys_lookup: "h \<in> Mapping.keys m \<longleftrightarrow> Mapping.lookup m h \<noteq> None"
  by (simp add: keys_is_none_rep Option.is_none_def)

lemma retained_card:
  assumes inv: "bq_inv age hs q" and len: "length hs < 2 ^ 64"
  shows "finite (Mapping.keys (retained q)) \<and> card (Mapping.keys (retained q)) \<le> unat age"
proof (cases "max_age q \<le> of_nat (Mapping.size (hashes q))")
  case False
  have fin: "finite (Mapping.keys (hashes q))" "max_age q = age" using inv by (auto simp: bq_inv_def)
  have "Mapping.keys (hashes q) \<subseteq> fst ` set hs"
  proof
    fix h assume "h \<in> Mapping.keys (hashes q)"
    then obtain i where "latest hs h i" using bq_lookup [OF inv, of h] by (auto simp: keys_lookup)
    then show "h \<in> fst ` set hs" by (auto simp: latest_def)
  qed
  then have "card (Mapping.keys (hashes q)) \<le> length hs" by (meson List.finite_set card_image_le card_length card_mono finite_imageI order_trans)
  then have "unat (of_nat (Mapping.size (hashes q)) :: u64) = card (Mapping.keys (hashes q))"
    using fin len by (simp add: Mapping.size_def unat_of_nat_small)
  then show ?thesis using False fin by (simp add: retained_def word_le_nat_alt)
next
  case True
  let ?K = "Mapping.keys (retained q)"
  define f where "f h = unat (hash_index (the (Mapping.lookup (hashes q) h)))" for h
  have index: "unat (last_hash_index q + 1) = length hs" "max_age q = age" using bq_next_index [OF inv len] by auto
  have K: "latest hs h (f h) \<and> f h \<in> {length hs - unat age..<length hs}" if h: "h \<in> ?K" for h
  proof -
    obtain info where i: "Mapping.lookup (hashes q) h = Some info" "is_hash_index_valid (last_hash_index q + 1) age (hash_index info)"
      using h True index(2) by (auto simp: keys_lookup retained_def lookup_filter split: option.splits if_splits)
    have l: "latest hs h (f h)" "f h = unat (hash_index info)" using bq_lookup [OF inv i(1)] i(1) by (simp_all add: f_def)
    then have "f h < length hs" by (simp add: latest_def)
    then show ?thesis using l i(2) index_valid_iff [OF index(1), of "hash_index info" age] by auto
  qed
  have inj: "inj_on f ?K" using K latest_inj by (metis inj_onI)
  have img: "f ` ?K \<subseteq> {length hs - unat age..<length hs}" using K by blast
  have "finite ?K" by (rule inj_on_finite [OF inj img]) simp
  then show ?thesis using card_inj_on_le [OF inj img] by simp
qed


lemma register_hash_inv:
  assumes inv: "bq_inv age hs q" and len: "length hs < 2 ^ 64"
  shows "bq_inv age (hs @ [(h, fee, now)]) (register_hash now q h fee)"
proof -
  let ?q = "register_hash now q h fee" and ?hs = "hs @ [(h, fee, now)]"
  have q: "unat (last_hash_index q + 1) = length hs" "max_age q = age" using bq_next_index [OF inv len] by auto
  have look: "Mapping.lookup (hashes ?q) k = (if k = h then Some \<lparr>fee_lamports_per_signature = fee, hash_index = last_hash_index q + 1, timestamp = now\<rparr>
      else Mapping.lookup (retained q) k)" for k by (simp add: register_hash_retained lookup_update')
  have sound: "latest ?hs k (unat (hash_index info)) \<and> fee_lamports_per_signature info = fst (snd (?hs ! unat (hash_index info)))"
    if "Mapping.lookup (hashes ?q) k = Some info" for k info
  proof (cases "k = h")
    case True
    then show ?thesis using that q(1) by (auto simp: look latest_snoc)
  next
    case False
    then have "Mapping.lookup (hashes q) k = Some info" using that lookup_retained by (simp add: look)
    note l = bq_lookup [OF inv this]
    then have "unat (hash_index info) < length hs" by (simp add: latest_def)
    then show ?thesis using l False by (simp add: latest_snoc nth_append)
  qed
  have covers: "Mapping.lookup (hashes ?q) k \<noteq> None" if k: "latest ?hs k i" "length ?hs - 1 - i \<le> unat age" for k i
  proof (cases "k = h")
    case False
    then have l: "latest hs k i" "length hs - i \<le> unat age" using k by (auto simp: latest_snoc)
    have "length hs - 1 - i \<le> unat age" using l(2) by linarith
    with bq_covers [OF inv l(1)] obtain info where info: "Mapping.lookup (hashes q) k = Some info" by blast
    then have "unat (hash_index info) = i" using latest_unique [OF _ l(1)] bq_lookup [OF inv info] by simp
    then show ?thesis using retained_keeps [OF inv len info] l(2) False by (simp add: look)
  qed (simp add: look)
  have "finite (Mapping.keys (hashes ?q))" "card (Mapping.keys (hashes ?q)) \<le> unat age + 1"
    using retained_card [OF inv len] card_insert_le_m1 [of "unat age + 1" "Mapping.keys (retained q)" h] by (auto simp: register_hash_retained keys_update)
  moreover have "last_hash_index ?q = last_hash_index q + 1" "max_age ?q = age" "last_hash_opt ?q = Some h"
    using q by (simp_all add: register_hash_def Let_def)
  ultimately show ?thesis unfolding bq_inv_def using sound covers q by simp
qed

lemma genesis_inv: "bq_inv age [(h, fee, now)] (genesis_hash now (bq_new age) h fee)"
  by (auto simp: bq_inv_def genesis_hash_def bq_new_def latest_def lookup_update' keys_update split: if_splits)

lemma register_all_inv: "bq_inv age gs q \<Longrightarrow> length gs + length hs \<le> 2 ^ 64 \<Longrightarrow> bq_inv age (gs @ hs) (register_all q hs)"
proof (induction q hs arbitrary: gs rule: register_all.induct)
  case (2 q h fee now hs)
  have "bq_inv age (gs @ [(h, fee, now)]) (register_hash now q h fee)" by (rule register_hash_inv) (use 2 in auto)
  from 2(1) [OF this] 2(3) show ?case by simp
qed simp

lemma valid_for_age_iff:
  assumes "bq_inv limit hs q"
  shows "is_hash_valid_for_age q h age \<longleftrightarrow> (\<exists>info. Mapping.lookup (hashes q) h = Some info \<and> length hs - 1 - unat (hash_index info) \<le> unat age)"
proof (cases "Mapping.lookup (hashes q) h")
  case (Some info)
  have "unat (last_hash_index q) = length hs - 1" using assms by (simp add: bq_inv_def)
  moreover have "unat (hash_index info) \<le> length hs - 1" using bq_lookup [OF assms Some] by (auto simp: latest_def)
  ultimately show ?thesis using index_valid_iff Some by (auto simp: is_hash_valid_for_age_def get_hash_info_if_valid_def)
qed (simp add: is_hash_valid_for_age_def get_hash_info_if_valid_def)

lemma map_of_latest: "latest hs h i \<Longrightarrow> map_of (rev hs) h = Some (snd (hs ! i))"
proof (induction hs arbitrary: i rule: rev_induct)
  case (snoc x hs)
  show ?case
  proof (cases "fst x = h")
    case True
    then show ?thesis using snoc.prems by (cases x) (simp add: latest_snoc)
  next
    case False
    then have l: "latest hs h i" using snoc.prems by (simp add: latest_snoc)
    then have "i < length hs" by (simp add: latest_def)
    then show ?thesis using snoc.IH [OF l] False by (cases x) (simp add: nth_append)
  qed
qed (simp add: latest_def)

lemma nth_mem_drop: "k \<le> i \<Longrightarrow> i < length xs \<Longrightarrow> xs ! i \<in> set (drop k xs)"
  using nth_mem [of "i - k" "drop k xs"] by simp

text \<open>C26. The queue is a sliding window. After any history of fewer than \<open>2 ^ 64\<close> hashes, for every age up to the maximum a hash is valid exactly when it
  is among the last \<open>age + 1\<close> registered ones, the fee stored for a valid hash is that of its latest registration, the last hash is the last one registered, and at most
  \<open>max_age + 1\<close> hashes are kept.\<close>

theorem blockhash_queue_is_window:
  assumes "length hs < 2 ^ 64" and "age \<le> limit" and "q = bank_queue limit g hs"
  shows "(is_hash_valid_for_age q h age \<longleftrightarrow> h \<in> fst ` set (drop (length hs - unat age) (g # hs))) \<and>
    (is_hash_valid_for_age q h age \<longrightarrow> get_lamports_per_signature q h = map_option fst (map_of (rev (g # hs)) h)) \<and>
    last_hash q = Some (fst (last (g # hs))) \<and> Mapping.size (hashes q) \<le> unat limit + 1"
proof -
  let ?hs = "g # hs"
  have inv: "bq_inv limit ?hs q"
  proof (cases g)
    case (fields a b c)
    then show ?thesis using register_all_inv [OF genesis_inv [of limit a b c], of hs] assms(1,3) by simp
  qed
  have valid: "is_hash_valid_for_age q h age \<longleftrightarrow> (\<exists>info. Mapping.lookup (hashes q) h = Some info \<and> length hs - unat (hash_index info) \<le> unat age)"
    by (rule valid_for_age_iff [OF inv, simplified])
  have window: "is_hash_valid_for_age q h age \<longleftrightarrow> h \<in> fst ` set (drop (length hs - unat age) ?hs)"
  proof
    assume "is_hash_valid_for_age q h age"
    then obtain info where "Mapping.lookup (hashes q) h = Some info" and le: "length hs - unat (hash_index info) \<le> unat age" using valid by blast
    then have "latest ?hs h (unat (hash_index info))" using bq_lookup [OF inv] by blast
    then show "h \<in> fst ` set (drop (length hs - unat age) ?hs)"
      using le nth_mem_drop [of "length hs - unat age" "unat (hash_index info)" ?hs] by (auto simp: latest_def)
  next
    assume "h \<in> fst ` set (drop (length hs - unat age) ?hs)"
    then obtain m where "m < length (drop (length hs - unat age) ?hs)" "fst (drop (length hs - unat age) ?hs ! m) = h" by (auto simp: in_set_conv_nth)
    then obtain i where i: "length hs - unat age \<le> i" "i < length ?hs" "fst (?hs ! i) = h" using that [of "length hs - unat age + m"] by auto
    then obtain j where j: "i \<le> j" "latest ?hs h j" using latest_exists [of i ?hs h] by blast
    have "length hs - j \<le> unat limit" using i(1) j(1) assms(2) by (simp add: word_le_nat_alt)
    then obtain info where info: "Mapping.lookup (hashes q) h = Some info" using bq_covers [OF inv j(2)] by auto
    then have "unat (hash_index info) = j" using latest_unique [OF _ j(2)] bq_lookup [OF inv info] by simp
    then show "is_hash_valid_for_age q h age" using valid info i(1) j(1) by auto
  qed
  have fee: "get_lamports_per_signature q h = map_option fst (map_of (rev ?hs) h)" if ok: "is_hash_valid_for_age q h age"
  proof -
    obtain info where info: "Mapping.lookup (hashes q) h = Some info" using ok valid by blast
    note l = bq_lookup [OF inv info]
    have "map_of (rev ?hs) h = Some (snd (?hs ! unat (hash_index info)))" by (rule map_of_latest) (simp only: l)
    then show ?thesis unfolding get_lamports_per_signature_def info by (simp only: l option.map)
  qed
  have "last_hash q = Some (fst (last ?hs))" "Mapping.size (hashes q) \<le> unat limit + 1"
    using inv by (simp_all add: bq_inv_def last_hash_def Mapping.size_def)
  with window fee show ?thesis by simp
qed

definition sample_queue :: "nat blockhash_queue" where
  "sample_queue = bank_queue 2 (7, 5, 0) [(8, 5, 1), (9, 6, 2)]"

theorem blockhash_queue_is_window_witness:
  "length [(8::nat, 5::u64, 1::u64), (9, 6, 2)] < 2 ^ 64 \<and> (1::usize) \<le> 2 \<and>
    (is_hash_valid_for_age sample_queue 8 1 \<longleftrightarrow> 8 \<in> fst ` set (drop (length [(8::nat, 5::u64, 1::u64), (9, 6, 2)] - unat (1::usize)) [(7::nat, 5::u64, 0::u64), (8, 5, 1), (9, 6, 2)]))"
proof -
  have len: "length [(8::nat, 5::u64, 1::u64), (9, 6, 2)] < 2 ^ 64" and le: "(1::usize) \<le> 2" by simp_all
  show ?thesis using len le blockhash_queue_is_window [OF len le sample_queue_def, of 8] by blast
qed

end
