(* ===== verification/Fork_Choice.thy ===== *)
theory Fork_Choice
  imports Rust_Prelude "HOL-Library.Product_Lexorder"
begin

text \<open>
  The heaviest-subtree fork choice (\<^verbatim>\<open>core/src/consensus/heaviest_subtree_fork_choice.rs\<close>, \<^verbatim>\<open>core/src/consensus/tree_diff.rs\<close>): the tree of blocks
  with the stake that voted in each subtree, by which a validator chooses the fork to build on. A block is a slot with a hash; keys are ordered lexicographically.
  A \<open>BTreeSet\<close> is a set that is walked in order, a \<open>BTreeMap\<close> a map whose domain is walked in order. Heights are natural numbers. \<open>None\<close> is a panic
  or, for the loops along parents and children, no result. Times of the last root and log messages are left out.
\<close>

section \<open>Operations as values\<close>

type_synonym slot = u64
type_synonym 'h slot_hash_key = "u64 \<times> 'h"

datatype update_label = AggregateL | AddL | MarkValidL slot | MarkInvalidL slot | SubtractL

text \<open>The derived order: the order of the constructors, then of the slot.\<close>

fun label_rank :: "update_label \<Rightarrow> nat \<times> slot" where
  "label_rank AggregateL = (0, 0)"
| "label_rank AddL = (1, 0)"
| "label_rank (MarkValidL s) = (2, s)"
| "label_rank (MarkInvalidL s) = (3, s)"
| "label_rank SubtractL = (4, 0)"

lemma label_rank_inj: "label_rank a = label_rank b \<Longrightarrow> a = b"
  by (cases a; cases b) auto

instantiation update_label :: linorder
begin

definition less_eq_update_label :: "update_label \<Rightarrow> update_label \<Rightarrow> bool" where
  "less_eq_update_label a b \<longleftrightarrow> label_rank a \<le> label_rank b"

definition less_update_label :: "update_label \<Rightarrow> update_label \<Rightarrow> bool" where
  "less_update_label a b \<longleftrightarrow> label_rank a < label_rank b"

instance
  by standard (auto simp: less_eq_update_label_def less_update_label_def intro: label_rank_inj)

end

datatype update_operation = Add u64 | MarkValid slot | MarkInvalid slot | Subtract u64 | Aggregate

fun update_stake :: "update_operation \<Rightarrow> u64 \<Rightarrow> update_operation option" where
  "update_stake (Add stake) new_stake = Some (Add (stake + new_stake))"
| "update_stake (Subtract stake) new_stake = Some (Subtract (stake + new_stake))"
| "update_stake _ _ = None"

type_synonym 'h update_operations = "'h slot_hash_key \<times> update_label \<rightharpoonup> update_operation"

section \<open>Nodes\<close>

record 'h fork_info =
  fi_stake_voted_at :: u64
  fi_stake_voted_subtree :: u64
  fi_height :: nat
  fi_best_slot :: "'h slot_hash_key"
  fi_deepest_slot :: "'h slot_hash_key"
  fi_parent :: "'h slot_hash_key option"
  fi_children :: "'h slot_hash_key set"
  fi_latest_invalid_ancestor :: "slot option"
  fi_is_duplicate_confirmed :: bool

definition fi_is_unconfirmed_duplicate :: "'h fork_info \<Rightarrow> slot \<Rightarrow> bool" where
  "fi_is_unconfirmed_duplicate self my_slot = (case fi_latest_invalid_ancestor self of Some ancestor \<Rightarrow> ancestor = my_slot | None \<Rightarrow> False)"

definition fi_is_candidate :: "'h fork_info \<Rightarrow> bool" where
  "fi_is_candidate self = (fi_latest_invalid_ancestor self = None)"

definition set_duplicate_confirmed :: "'h fork_info \<Rightarrow> 'h fork_info" where
  "set_duplicate_confirmed self = self\<lparr>fi_is_duplicate_confirmed := True, fi_latest_invalid_ancestor := None\<rparr>"

definition update_with_newly_valid_ancestor :: "'h fork_info \<Rightarrow> slot \<Rightarrow> 'h fork_info" where
  "update_with_newly_valid_ancestor self newly_valid_ancestor =
     (case fi_latest_invalid_ancestor self of
        Some a \<Rightarrow> if a \<le> newly_valid_ancestor then self\<lparr>fi_latest_invalid_ancestor := None\<rparr> else self
      | None \<Rightarrow> self)"

definition update_with_newly_invalid_ancestor :: "'h fork_info \<Rightarrow> slot \<Rightarrow> 'h fork_info option" where
  "update_with_newly_invalid_ancestor self newly_invalid_ancestor =
     (if fi_is_duplicate_confirmed self then None
      else Some (if (case fi_latest_invalid_ancestor self of Some a \<Rightarrow> newly_invalid_ancestor > a | None \<Rightarrow> True)
                 then self\<lparr>fi_latest_invalid_ancestor := Some newly_invalid_ancestor\<rparr> else self))"

section \<open>Queries\<close>

type_synonym 'h fork_map = "'h slot_hash_key \<rightharpoonup> 'h fork_info"

record ('h, 'p) fork_choice =
  fork_infos :: "'h fork_map"
  latest_votes :: "'p \<rightharpoonup> 'h slot_hash_key"
  tree_root :: "'h slot_hash_key"

definition contains_block :: "('h, 'p) fork_choice \<Rightarrow> 'h slot_hash_key \<Rightarrow> bool" where
  "contains_block self key = (fork_infos self key \<noteq> None)"

definition best_slot :: "('h, 'p) fork_choice \<Rightarrow> 'h slot_hash_key \<Rightarrow> 'h slot_hash_key option" where
  "best_slot self key = map_option fi_best_slot (fork_infos self key)"

definition deepest_slot :: "('h, 'p) fork_choice \<Rightarrow> 'h slot_hash_key \<Rightarrow> 'h slot_hash_key option" where
  "deepest_slot self key = map_option fi_deepest_slot (fork_infos self key)"

definition best_overall_slot :: "('h, 'p) fork_choice \<Rightarrow> 'h slot_hash_key option" where
  "best_overall_slot self = best_slot self (tree_root self)"

definition deepest_overall_slot :: "('h, 'p) fork_choice \<Rightarrow> 'h slot_hash_key option" where
  "deepest_overall_slot self = deepest_slot self (tree_root self)"

definition stake_voted_subtree :: "('h, 'p) fork_choice \<Rightarrow> 'h slot_hash_key \<Rightarrow> u64 option" where
  "stake_voted_subtree self key = map_option fi_stake_voted_subtree (fork_infos self key)"

definition stake_voted_at :: "('h, 'p) fork_choice \<Rightarrow> 'h slot_hash_key \<Rightarrow> u64 option" where
  "stake_voted_at self key = map_option fi_stake_voted_at (fork_infos self key)"

definition fc_height :: "('h, 'p) fork_choice \<Rightarrow> 'h slot_hash_key \<Rightarrow> nat option" where
  "fc_height self key = map_option fi_height (fork_infos self key)"

datatype ordering = Less | Equal | Greater

definition cmp :: "'a::linorder \<Rightarrow> 'a \<Rightarrow> ordering" where
  "cmp a b = (if a < b then Less else if a = b then Equal else Greater)"

definition max_by_weight :: "('h::linorder, 'p) fork_choice \<Rightarrow> 'h slot_hash_key \<Rightarrow> 'h slot_hash_key \<Rightarrow> ordering option" where
  "max_by_weight self slot1 slot2 = do {
     weight1 \<leftarrow> stake_voted_subtree self slot1;
     weight2 \<leftarrow> stake_voted_subtree self slot2;
     Some (if weight1 = weight2 then cmp slot2 slot1 else cmp weight1 weight2)
   }"

definition latest_invalid_ancestor :: "('h, 'p) fork_choice \<Rightarrow> 'h slot_hash_key \<Rightarrow> slot option" where
  "latest_invalid_ancestor self key = (case fork_infos self key of Some info \<Rightarrow> fi_latest_invalid_ancestor info | None \<Rightarrow> None)"

definition is_duplicate_confirmed :: "('h, 'p) fork_choice \<Rightarrow> 'h slot_hash_key \<Rightarrow> bool option" where
  "is_duplicate_confirmed self key = map_option fi_is_duplicate_confirmed (fork_infos self key)"

definition is_unconfirmed_duplicate :: "('h, 'p) fork_choice \<Rightarrow> 'h slot_hash_key \<Rightarrow> bool option" where
  "is_unconfirmed_duplicate self key = map_option (\<lambda>info. fi_is_unconfirmed_duplicate info (fst key)) (fork_infos self key)"

definition is_candidate :: "('h, 'p) fork_choice \<Rightarrow> 'h slot_hash_key \<Rightarrow> bool option" where
  "is_candidate self key = map_option fi_is_candidate (fork_infos self key)"

definition parent_of :: "'h fork_map \<Rightarrow> 'h slot_hash_key \<Rightarrow> 'h slot_hash_key option" where
  "parent_of infos key = (case infos key of Some info \<Rightarrow> fi_parent info | None \<Rightarrow> None)"

definition children_of :: "'h fork_map \<Rightarrow> 'h slot_hash_key \<Rightarrow> 'h slot_hash_key set option" where
  "children_of infos key = map_option fi_children (infos key)"

text \<open>The items of the ancestor iterator.\<close>

partial_function (option) ancestors_of :: "'h fork_map \<Rightarrow> 'h slot_hash_key \<Rightarrow> 'h slot_hash_key list option" where
  "ancestors_of infos key =
     (case parent_of infos key of
        None \<Rightarrow> Some []
      | Some p \<Rightarrow> Option.bind (ancestors_of infos p) (\<lambda>ps. Some (p # ps)))"

text \<open>The iterator of ancestors ends at the first one found.\<close>

partial_function (option) any_ancestor :: "'h fork_map \<Rightarrow> 'h slot_hash_key \<Rightarrow> 'h slot_hash_key \<Rightarrow> bool option" where
  "any_ancestor infos maybe_ancestor key =
     (case parent_of infos key of
        None \<Rightarrow> Some False
      | Some p \<Rightarrow> if p = maybe_ancestor then Some True else any_ancestor infos maybe_ancestor p)"

definition is_strict_ancestor :: "('h, 'p) fork_choice \<Rightarrow> 'h slot_hash_key \<Rightarrow> 'h slot_hash_key \<Rightarrow> bool option" where
  "is_strict_ancestor self maybe_ancestor_key node_key =
     (if maybe_ancestor_key = node_key then Some False
      else if fst maybe_ancestor_key > fst node_key then Some False
      else any_ancestor (fork_infos self) maybe_ancestor_key node_key)"

text \<open>\<open>subtree_diff\<close>: the nodes reachable from the pending ones, without the subtree at \<open>root2\<close>.\<close>

partial_function (option) diff_loop :: "'h::linorder fork_map \<Rightarrow> 'h slot_hash_key \<Rightarrow> 'h slot_hash_key list \<Rightarrow> 'h slot_hash_key set \<Rightarrow> 'h slot_hash_key set option" where
  "diff_loop infos root2 pending_keys reachable_set =
     (case pending_keys of
        [] \<Rightarrow> Some reachable_set
      | current_key # pending_keys \<Rightarrow>
          if current_key = root2 then diff_loop infos root2 pending_keys reachable_set
          else (case children_of infos current_key of
              None \<Rightarrow> None
            | Some children \<Rightarrow>
                diff_loop infos root2 (rev (sorted_list_of_set children) @ pending_keys) (insert current_key reachable_set)))"

definition subtree_diff :: "'h::linorder fork_map \<Rightarrow> 'h slot_hash_key \<Rightarrow> 'h slot_hash_key \<Rightarrow> 'h slot_hash_key set option" where
  "subtree_diff infos root1 root2 = (if infos root1 = None then Some {} else diff_loop infos root2 [root1] {})"


section \<open>Aggregation\<close>

text \<open>The accumulators of the loop over the children.\<close>

record 'h aggregate =
  ag_stake :: u64
  ag_best_stake :: u64
  ag_best_child :: "'h slot_hash_key"
  ag_best_slot :: "'h slot_hash_key"
  ag_deepest_height :: nat
  ag_deepest_stake :: u64
  ag_deepest_child :: "'h slot_hash_key"
  ag_deepest_slot :: "'h slot_hash_key"
  ag_confirmed :: bool

definition aggregate_init :: "'h slot_hash_key \<Rightarrow> u64 \<Rightarrow> 'h aggregate" where
  "aggregate_init key stake =
     \<lparr>ag_stake = stake, ag_best_stake = 0, ag_best_child = key, ag_best_slot = key, ag_deepest_height = 0, ag_deepest_stake = 0,
      ag_deepest_child = key, ag_deepest_slot = key, ag_confirmed = False\<rparr>"

definition aggregate_best :: "'h::linorder slot_hash_key \<Rightarrow> 'h slot_hash_key \<Rightarrow> 'h fork_info \<Rightarrow> 'h aggregate \<Rightarrow> 'h aggregate" where
  "aggregate_best key child_key child ag =
     (let child_stake = fi_stake_voted_subtree child
      in if fi_is_candidate child \<and>
            (ag_best_child ag = key \<or> child_stake > ag_best_stake ag \<or>
             (child_stake = ag_best_stake ag \<and> child_key < ag_best_child ag))
         then ag\<lparr>ag_best_stake := child_stake, ag_best_child := child_key, ag_best_slot := fi_best_slot child\<rparr> else ag)"

definition aggregate_deepest :: "'h::linorder slot_hash_key \<Rightarrow> 'h slot_hash_key \<Rightarrow> 'h fork_info \<Rightarrow> 'h aggregate \<Rightarrow> 'h aggregate" where
  "aggregate_deepest key child_key child ag =
     (let child_stake = fi_stake_voted_subtree child; child_height = fi_height child
      in if ag_deepest_child ag = key \<or>
            (case (cmp child_height (ag_deepest_height ag), cmp child_stake (ag_deepest_stake ag), cmp child_key (ag_deepest_child ag)) of
               (Greater, _, _) \<Rightarrow> True
             | (Equal, Greater, _) \<Rightarrow> True
             | (Equal, Equal, Less) \<Rightarrow> True
             | _ \<Rightarrow> False)
         then ag\<lparr>ag_deepest_height := child_height, ag_deepest_stake := child_stake, ag_deepest_child := child_key,
                ag_deepest_slot := fi_deepest_slot child\<rparr>
         else ag)"

definition aggregate_child :: "'h::linorder slot_hash_key \<Rightarrow> 'h slot_hash_key \<Rightarrow> 'h fork_info \<Rightarrow> 'h aggregate \<Rightarrow> 'h aggregate" where
  "aggregate_child key child_key child ag =
     (let ag = ag\<lparr>ag_confirmed := ag_confirmed ag \<or> fi_is_duplicate_confirmed child, ag_stake := ag_stake ag + fi_stake_voted_subtree child\<rparr>
      in aggregate_deepest key child_key child (aggregate_best key child_key child ag))"

fun aggregate_children :: "'h::linorder fork_map \<Rightarrow> 'h slot_hash_key \<Rightarrow> 'h slot_hash_key list \<Rightarrow> 'h aggregate \<Rightarrow> 'h aggregate option" where
  "aggregate_children infos key [] ag = Some ag"
| "aggregate_children infos key (c # cs) ag =
     (case infos c of None \<Rightarrow> None | Some child \<Rightarrow> aggregate_children infos key cs (aggregate_child key c child ag))"

definition aggregate_result :: "'h aggregate \<Rightarrow> 'h fork_info \<Rightarrow> 'h fork_info" where
  "aggregate_result ag info =
     (if ag_confirmed ag then set_duplicate_confirmed info else info)
       \<lparr>fi_stake_voted_subtree := ag_stake ag, fi_height := ag_deepest_height ag + 1, fi_best_slot := ag_best_slot ag,
        fi_deepest_slot := ag_deepest_slot ag\<rparr>"

definition aggregate_slot :: "'h::linorder fork_map \<Rightarrow> 'h slot_hash_key \<Rightarrow> 'h fork_map option" where
  "aggregate_slot infos key =
     (case infos key of
        None \<Rightarrow> Some infos
      | Some info \<Rightarrow>
          (case aggregate_children infos key (sorted_list_of_set (fi_children info)) (aggregate_init key (fi_stake_voted_at info)) of
             None \<Rightarrow> None
           | Some ag \<Rightarrow> Some (infos(key \<mapsto> aggregate_result ag info))))"

definition mark_fork_valid :: "'h fork_map \<Rightarrow> 'h slot_hash_key \<Rightarrow> slot \<Rightarrow> 'h fork_map" where
  "mark_fork_valid infos key valid_slot =
     (case infos key of
        None \<Rightarrow> infos
      | Some info \<Rightarrow>
          (let info = update_with_newly_valid_ancestor info valid_slot;
               info = (if fst key = valid_slot then info\<lparr>fi_is_duplicate_confirmed := True\<rparr> else info)
           in infos(key \<mapsto> info)))"

definition mark_fork_invalid :: "'h fork_map \<Rightarrow> 'h slot_hash_key \<Rightarrow> slot \<Rightarrow> 'h fork_map option" where
  "mark_fork_invalid infos key invalid_slot =
     (case infos key of
        None \<Rightarrow> Some infos
      | Some info \<Rightarrow> map_option (\<lambda>info. infos(key \<mapsto> info)) (update_with_newly_invalid_ancestor info invalid_slot))"

definition add_slot_stake :: "'h fork_map \<Rightarrow> 'h slot_hash_key \<Rightarrow> u64 \<Rightarrow> 'h fork_map" where
  "add_slot_stake infos key stake =
     (case infos key of
        None \<Rightarrow> infos
      | Some info \<Rightarrow> infos(key \<mapsto> info\<lparr>fi_stake_voted_at := fi_stake_voted_at info + stake,
          fi_stake_voted_subtree := fi_stake_voted_subtree info + stake\<rparr>))"

definition subtract_slot_stake :: "'h fork_map \<Rightarrow> 'h slot_hash_key \<Rightarrow> u64 \<Rightarrow> 'h fork_map" where
  "subtract_slot_stake infos key stake =
     (case infos key of
        None \<Rightarrow> infos
      | Some info \<Rightarrow> infos(key \<mapsto> info\<lparr>fi_stake_voted_at := fi_stake_voted_at info - stake,
          fi_stake_voted_subtree := fi_stake_voted_subtree info - stake\<rparr>))"

fun apply_operation :: "'h::linorder slot_hash_key \<Rightarrow> update_operation \<Rightarrow> 'h fork_map \<Rightarrow> 'h fork_map option" where
  "apply_operation key (MarkValid s) infos = Some (mark_fork_valid infos key s)"
| "apply_operation key (MarkInvalid s) infos = mark_fork_invalid infos key s"
| "apply_operation key Aggregate infos = aggregate_slot infos key"
| "apply_operation key (Add stake) infos = Some (add_slot_stake infos key stake)"
| "apply_operation key (Subtract stake) infos = Some (subtract_slot_stake infos key stake)"

fun apply_operations :: "('h::linorder slot_hash_key \<times> update_operation) list \<Rightarrow> 'h fork_map \<Rightarrow> 'h fork_map option" where
  "apply_operations [] infos = Some infos"
| "apply_operations ((key, operation) # operations) infos =
     (case apply_operation key operation infos of None \<Rightarrow> None | Some infos \<Rightarrow> apply_operations operations infos)"

text \<open>The operations from the greatest key to the smallest.\<close>

definition operation_list :: "'h::linorder update_operations \<Rightarrow> ('h slot_hash_key \<times> update_operation) list" where
  "operation_list operations = map (\<lambda>l. (fst l, the (operations l))) (rev (sorted_list_of_set (dom operations)))"

definition process_update_operations :: "('h::linorder, 'p) fork_choice \<Rightarrow> 'h update_operations \<Rightarrow> ('h, 'p) fork_choice option" where
  "process_update_operations self operations =
     map_option (\<lambda>infos. self\<lparr>fork_infos := infos\<rparr>) (apply_operations (operation_list operations) (fork_infos self))"

section \<open>Generating operations\<close>

definition do_insert_aggregate_operation :: "'h update_operations \<Rightarrow> update_operation option \<Rightarrow> 'h slot_hash_key \<Rightarrow> bool \<times> 'h update_operations" where
  "do_insert_aggregate_operation operations modify_fork_validity key =
     (if operations (key, AggregateL) \<noteq> None then (False, operations)
      else
        (let operations = (case modify_fork_validity of
               Some (MarkValid s) \<Rightarrow> operations((key, MarkValidL s) \<mapsto> MarkValid s)
             | Some (MarkInvalid s) \<Rightarrow> operations((key, MarkInvalidL s) \<mapsto> MarkInvalid s)
             | _ \<Rightarrow> operations)
         in (True, operations((key, AggregateL) \<mapsto> Aggregate))))"

text \<open>The loop over the ancestors ends at the first with an operation.\<close>

partial_function (option) insert_across_ancestors :: "'h fork_map \<Rightarrow> update_operation option \<Rightarrow> 'h update_operations \<Rightarrow> 'h slot_hash_key \<Rightarrow> 'h update_operations option" where
  "insert_across_ancestors infos modify_fork_validity operations key =
     (case parent_of infos key of
        None \<Rightarrow> Some operations
      | Some p \<Rightarrow>
          (case do_insert_aggregate_operation operations modify_fork_validity p of
             (inserted, operations) \<Rightarrow>
               if inserted then insert_across_ancestors infos modify_fork_validity operations p else Some operations))"

definition insert_aggregate_operations :: "'h fork_map \<Rightarrow> 'h update_operations \<Rightarrow> 'h slot_hash_key \<Rightarrow> 'h update_operations option" where
  "insert_aggregate_operations infos operations key = insert_across_ancestors infos None operations key"

text \<open>\<open>entry(..).and_modify(..).or_insert(..)\<close> for a stake.\<close>

definition add_to_entry :: "'h update_operations \<Rightarrow> 'h slot_hash_key \<times> update_label \<Rightarrow> u64 \<Rightarrow> (u64 \<Rightarrow> update_operation) \<Rightarrow> 'h update_operations option" where
  "add_to_entry operations label stake new_operation =
     (case operations label of
        Some update \<Rightarrow> map_option (\<lambda>update. operations(label \<mapsto> update)) (update_stake update stake)
      | None \<Rightarrow> Some (operations(label \<mapsto> new_operation stake)))"

text \<open>The stake of a validator in the epoch of a slot.\<close>

definition stake_at :: "(u64 \<rightharpoonup> ('p \<Rightarrow> u64)) \<Rightarrow> (slot \<Rightarrow> u64) \<Rightarrow> 'p \<Rightarrow> slot \<Rightarrow> u64" where
  "stake_at epoch_stakes get_epoch pubkey s = (case epoch_stakes (get_epoch s) of Some stakes \<Rightarrow> stakes pubkey | None \<Rightarrow> 0)"

record ('h, 'p) vote_batch =
  vb_latest_votes :: "'p \<rightharpoonup> 'h slot_hash_key"
  vb_operations :: "'h update_operations"
  vb_observed :: "'p \<rightharpoonup> slot"

text \<open>One vote of a batch.\<close>

definition vote_operations :: "'h::linorder fork_map \<Rightarrow> slot \<Rightarrow> ('p \<Rightarrow> slot \<Rightarrow> u64) \<Rightarrow> 'p \<times> 'h slot_hash_key \<Rightarrow> ('h, 'p) vote_batch \<Rightarrow> ('h, 'p) vote_batch option" where
  "vote_operations infos root stake = (\<lambda>(pubkey, new_vote_slot, new_vote_hash) batch.
     if new_vote_slot < root then Some batch
     else if vb_observed batch pubkey \<noteq> None then None
     else
       (let batch = batch\<lparr>vb_observed := (vb_observed batch)(pubkey \<mapsto> new_vote_slot)\<rparr>;
            new_vote = (new_vote_slot, new_vote_hash);
            outdated = (case vb_latest_votes batch pubkey of
                Some (s, h) \<Rightarrow> new_vote_slot < s \<or> (new_vote_slot = s \<and> new_vote_hash \<ge> h)
              | None \<Rightarrow> False)
        in if outdated then Some batch
           else do {
             operations \<leftarrow> (case vb_latest_votes batch pubkey of
                 Some (old_slot, old_hash) \<Rightarrow>
                   if (if new_vote_slot = old_slot then new_vote_hash < old_hash else new_vote_slot > old_slot) then
                     (let stake_update = stake pubkey old_slot
                      in if stake_update > 0 then do {
                           operations \<leftarrow> add_to_entry (vb_operations batch) ((old_slot, old_hash), SubtractL) stake_update Subtract;
                           insert_aggregate_operations infos operations (old_slot, old_hash)
                         } else Some (vb_operations batch))
                   else None
               | None \<Rightarrow> Some (vb_operations batch));
             operations \<leftarrow> add_to_entry operations (new_vote, AddL) (stake pubkey new_vote_slot) Add;
             operations \<leftarrow> insert_aggregate_operations infos operations new_vote;
             Some (batch\<lparr>vb_latest_votes := (vb_latest_votes batch)(pubkey \<mapsto> new_vote), vb_operations := operations\<rparr>)
           }))"

fun vote_loop :: "'h::linorder fork_map \<Rightarrow> slot \<Rightarrow> ('p \<Rightarrow> slot \<Rightarrow> u64) \<Rightarrow> ('p \<times> 'h slot_hash_key) list \<Rightarrow> ('h, 'p) vote_batch \<Rightarrow> ('h, 'p) vote_batch option" where
  "vote_loop infos root stake [] batch = Some batch"
| "vote_loop infos root stake (v # vs) batch =
     (case vote_operations infos root stake v batch of None \<Rightarrow> None | Some batch \<Rightarrow> vote_loop infos root stake vs batch)"

definition generate_update_operations :: "('h::linorder, 'p) fork_choice \<Rightarrow> ('p \<times> 'h slot_hash_key) list \<Rightarrow> (u64 \<rightharpoonup> ('p \<Rightarrow> u64)) \<Rightarrow> (slot \<Rightarrow> u64) \<Rightarrow>
    ('h update_operations \<times> ('h, 'p) fork_choice) option" where
  "generate_update_operations self pubkey_votes epoch_stakes get_epoch =
     map_option (\<lambda>batch. (vb_operations batch, self\<lparr>latest_votes := vb_latest_votes batch\<rparr>))
       (vote_loop (fork_infos self) (fst (tree_root self)) (stake_at epoch_stakes get_epoch) pubkey_votes
          \<lparr>vb_latest_votes = latest_votes self, vb_operations = Map.empty, vb_observed = Map.empty\<rparr>)"

definition add_votes :: "('h::linorder, 'p) fork_choice \<Rightarrow> ('p \<times> 'h slot_hash_key) list \<Rightarrow> (u64 \<rightharpoonup> ('p \<Rightarrow> u64)) \<Rightarrow> (slot \<Rightarrow> u64) \<Rightarrow>
    ('h slot_hash_key \<times> ('h, 'p) fork_choice) option" where
  "add_votes self pubkey_votes epoch_stakes get_epoch = do {
     (operations, self) \<leftarrow> generate_update_operations self pubkey_votes epoch_stakes get_epoch;
     self \<leftarrow> process_update_operations self operations;
     best \<leftarrow> best_overall_slot self;
     Some (best, self)
   }"


section \<open>Adding blocks\<close>

text \<open>The loop over the children of the parent ends at the first that beats the block.\<close>

fun check_children :: "'h fork_map \<Rightarrow> ('h slot_hash_key \<Rightarrow> 'h fork_info \<Rightarrow> bool) \<Rightarrow> 'h slot_hash_key list \<Rightarrow> bool option" where
  "check_children infos beats [] = Some True"
| "check_children infos beats (c # cs) =
     (case infos c of None \<Rightarrow> None | Some child \<Rightarrow> if beats c child then Some False else check_children infos beats cs)"

definition no_child_beats :: "('h::linorder, 'p) fork_choice \<Rightarrow> ('h slot_hash_key \<Rightarrow> 'h fork_info \<Rightarrow> bool) \<Rightarrow> 'h slot_hash_key \<Rightarrow> bool option" where
  "no_child_beats self beats p =
     (case children_of (fork_infos self) p of
        None \<Rightarrow> None
      | Some children \<Rightarrow> check_children (fork_infos self) beats (sorted_list_of_set children))"

definition is_best_child :: "('h::linorder, 'p) fork_choice \<Rightarrow> 'h slot_hash_key \<Rightarrow> bool option" where
  "is_best_child self maybe_best_child = do {
     weight \<leftarrow> stake_voted_subtree self maybe_best_child;
     (case parent_of (fork_infos self) maybe_best_child of
        None \<Rightarrow> Some True
      | Some p \<Rightarrow> no_child_beats self (\<lambda>c child. fi_is_candidate child \<and>
            (fi_stake_voted_subtree child > weight \<or> (weight = fi_stake_voted_subtree child \<and> c < maybe_best_child))) p)
   }"

definition is_deepest_child :: "('h::linorder, 'p) fork_choice \<Rightarrow> 'h slot_hash_key \<Rightarrow> bool option" where
  "is_deepest_child self maybe_deepest_child = do {
     weight \<leftarrow> stake_voted_subtree self maybe_deepest_child;
     height \<leftarrow> fc_height self maybe_deepest_child;
     (case parent_of (fork_infos self) maybe_deepest_child of
        None \<Rightarrow> Some True
      | Some p \<Rightarrow> no_child_beats self (\<lambda>c child.
            (case (cmp (fi_height child) height, cmp (fi_stake_voted_subtree child) weight, cmp c maybe_deepest_child) of
               (Greater, _, _) \<Rightarrow> True
             | (Equal, Greater, _) \<Rightarrow> True
             | (Equal, Equal, Less) \<Rightarrow> True
             | _ \<Rightarrow> False)) p)
   }"

partial_function (option) propagate_best :: "'h slot_hash_key \<Rightarrow> 'h slot_hash_key \<Rightarrow> 'h slot_hash_key option \<Rightarrow> 'h fork_map \<Rightarrow> 'h fork_map option" where
  "propagate_best key parent_best ancestor infos =
     (case ancestor of
        None \<Rightarrow> Some infos
      | Some a \<Rightarrow>
          (case infos a of
             None \<Rightarrow> None
           | Some info \<Rightarrow>
               if fi_best_slot info = parent_best
               then propagate_best key parent_best (fi_parent info) (infos(a \<mapsto> info\<lparr>fi_best_slot := key\<rparr>))
               else Some infos))"

partial_function (option) propagate_deepest :: "'h::linorder slot_hash_key \<Rightarrow> 'h slot_hash_key option \<Rightarrow> 'h slot_hash_key \<Rightarrow> nat \<Rightarrow> ('h, 'p) fork_choice \<Rightarrow> ('h, 'p) fork_choice option" where
  "propagate_deepest key ancestor current_child current_height self =
     (case ancestor of
        None \<Rightarrow> Some self
      | Some a \<Rightarrow>
          (case is_deepest_child self current_child of
             None \<Rightarrow> None
           | Some deepest \<Rightarrow>
               if deepest then
                 (case fork_infos self a of
                    None \<Rightarrow> None
                  | Some info \<Rightarrow>
                      propagate_deepest key (fi_parent info) a (current_height + 1)
                        (self\<lparr>fork_infos := (fork_infos self)(a \<mapsto> info\<lparr>fi_deepest_slot := key, fi_height := current_height + 1\<rparr>)\<rparr>))
               else Some self))"

definition propagate_new_leaf :: "('h::linorder, 'p) fork_choice \<Rightarrow> 'h slot_hash_key \<Rightarrow> 'h slot_hash_key \<Rightarrow> ('h, 'p) fork_choice option" where
  "propagate_new_leaf self key parent_key = do {
     parent_best \<leftarrow> best_slot self parent_key;
     best \<leftarrow> is_best_child self key;
     infos \<leftarrow> (if best then propagate_best key parent_best (Some parent_key) (fork_infos self) else Some (fork_infos self));
     propagate_deepest key (Some parent_key) key 1 (self\<lparr>fork_infos := infos\<rparr>)
   }"

definition new_leaf_info :: "('h, 'p) fork_choice \<Rightarrow> 'h slot_hash_key \<Rightarrow> 'h slot_hash_key option \<Rightarrow> 'h fork_info" where
  "new_leaf_info self key parent =
     \<lparr>fi_stake_voted_at = 0, fi_stake_voted_subtree = 0, fi_height = 1, fi_best_slot = key, fi_deepest_slot = key, fi_parent = parent,
      fi_children = {}, fi_latest_invalid_ancestor = Option.bind parent (latest_invalid_ancestor self),
      fi_is_duplicate_confirmed = (parent = None)\<rparr>"

definition add_new_leaf_slot :: "('h::linorder, 'p) fork_choice \<Rightarrow> 'h slot_hash_key \<Rightarrow> 'h slot_hash_key option \<Rightarrow> ('h, 'p) fork_choice option" where
  "add_new_leaf_slot self key parent =
     (if fork_infos self key \<noteq> None then Some self
      else
        (let self = self\<lparr>fork_infos := (fork_infos self)(key \<mapsto> new_leaf_info self key parent)\<rparr>
         in case parent of
              None \<Rightarrow> Some self
            | Some parent \<Rightarrow>
                (case fork_infos self parent of
                   None \<Rightarrow> None
                 | Some info \<Rightarrow>
                     propagate_new_leaf
                       (self\<lparr>fork_infos := (fork_infos self)(parent \<mapsto> info\<lparr>fi_children := insert key (fi_children info)\<rparr>)\<rparr>) key parent)))"

definition fc_new :: "'h::linorder slot_hash_key \<Rightarrow> ('h, 'p) fork_choice option" where
  "fc_new root = add_new_leaf_slot \<lparr>fork_infos = Map.empty, latest_votes = Map.empty, tree_root = root\<rparr> root None"

text \<open>A frozen bank is its key and the key of its parent; \<open>default_hash\<close> is the hash of a bank that is not frozen.\<close>

fun add_frozen_banks :: "'h::linorder \<Rightarrow> slot \<Rightarrow> slot \<Rightarrow> ('h slot_hash_key \<times> 'h slot_hash_key) list \<Rightarrow> ('h, 'p) fork_choice \<Rightarrow> ('h, 'p) fork_choice option" where
  "add_frozen_banks default_hash root prev_slot [] self = Some self"
| "add_frozen_banks default_hash root prev_slot ((key, parent) # banks) self =
     (if fst key > root then
        if fst key > prev_slot \<and> snd key \<noteq> default_hash \<and> snd parent \<noteq> default_hash then
          (case add_new_leaf_slot self key (Some parent) of
             None \<Rightarrow> None
           | Some self \<Rightarrow> add_frozen_banks default_hash root (fst key) banks self)
        else None
      else add_frozen_banks default_hash root prev_slot banks self)"

definition new_from_frozen_banks :: "'h::linorder \<Rightarrow> 'h slot_hash_key \<Rightarrow> ('h slot_hash_key \<times> 'h slot_hash_key) list \<Rightarrow> ('h, 'p) fork_choice option" where
  "new_from_frozen_banks default_hash root frozen_banks =
     Option.bind (fc_new root) (add_frozen_banks default_hash (fst root) (fst root) frozen_banks)"

section \<open>Roots\<close>

definition set_tree_root :: "('h::linorder, 'p) fork_choice \<Rightarrow> 'h slot_hash_key \<Rightarrow> ('h, 'p) fork_choice option" where
  "set_tree_root self new_root = do {
     remove_set \<leftarrow> subtree_diff (fork_infos self) (tree_root self) new_root;
     (let infos = fork_infos self |` (- remove_set) in
      if \<forall>k \<in> remove_set. fork_infos self k \<noteq> None then
        (case infos new_root of
           None \<Rightarrow> None
         | Some info \<Rightarrow> Some (self\<lparr>fork_infos := infos(new_root \<mapsto> info\<lparr>fi_parent := None\<rparr>), tree_root := new_root\<rparr>))
      else None)
   }"

definition add_root_parent :: "('h::linorder, 'p) fork_choice \<Rightarrow> 'h slot_hash_key \<Rightarrow> ('h, 'p) fork_choice option" where
  "add_root_parent self root_parent =
     (if fst root_parent < fst (tree_root self) \<and> fork_infos self root_parent = None then
        (case fork_infos self (tree_root self) of
           None \<Rightarrow> None
         | Some info \<Rightarrow>
             Some (self\<lparr>fork_infos := (fork_infos self)(tree_root self \<mapsto> info\<lparr>fi_parent := Some root_parent\<rparr>,
                 root_parent \<mapsto> \<lparr>fi_stake_voted_at = 0, fi_stake_voted_subtree = fi_stake_voted_subtree info, fi_height = fi_height info + 1,
                   fi_best_slot = fi_best_slot info, fi_deepest_slot = fi_deepest_slot info, fi_parent = None, fi_children = {tree_root self},
                   fi_latest_invalid_ancestor = None, fi_is_duplicate_confirmed = fi_is_duplicate_confirmed info\<rparr>),
               tree_root := root_parent\<rparr>))
      else None)"

text \<open>The nodes are moved one by one from the tree to the new one.\<close>

partial_function (option) split_loop :: "'h::linorder slot_hash_key list \<Rightarrow> 'h fork_map \<Rightarrow> 'h fork_map \<Rightarrow> ('h fork_map \<times> 'h fork_map) option" where
  "split_loop to_visit infos split =
     (case to_visit of
        [] \<Rightarrow> Some (infos, split)
      | current # to_visit \<Rightarrow>
          (case infos current of
             None \<Rightarrow> None
           | Some info \<Rightarrow>
               split_loop (rev (sorted_list_of_set (fi_children info)) @ to_visit) (infos(current := None)) (split(current \<mapsto> info))))"

definition split_off :: "('h::linorder, 'p) fork_choice \<Rightarrow> 'h slot_hash_key \<Rightarrow> (('h, 'p) fork_choice \<times> ('h, 'p) fork_choice) option" where
  "split_off self key =
     (if tree_root self = key then None
      else do {
        split_root \<leftarrow> fork_infos self key;
        parent \<leftarrow> fi_parent split_root;
        operations \<leftarrow> insert_aggregate_operations (fork_infos self) Map.empty key;
        info \<leftarrow> fork_infos self parent;
        self \<leftarrow> (if key \<in> fi_children info
          then process_update_operations
            (self\<lparr>fork_infos := (fork_infos self)(parent \<mapsto> info\<lparr>fi_children := fi_children info - {key}\<rparr>)\<rparr>) operations
          else None);
        (infos, split) \<leftarrow> split_loop [key] (fork_infos self) Map.empty;
        info \<leftarrow> infos parent;
        (let infos = infos(parent \<mapsto> info\<lparr>fi_children := fi_children info - {key}\<rparr>);
             split = split(key \<mapsto> split_root\<lparr>fi_parent := None\<rparr>)
         in Some (\<lparr>fork_infos = split, latest_votes = latest_votes self |` {p. \<exists>k. latest_votes self p = Some k \<and> split k \<noteq> None}, tree_root = key\<rparr>,
               self\<lparr>fork_infos := infos, latest_votes := latest_votes self |` {p. \<exists>k. latest_votes self p = Some k \<and> infos k \<noteq> None}\<rparr>))
      })"

partial_function (option) prune_loop :: "'h::linorder slot_hash_key \<Rightarrow> 'h slot_hash_key list \<Rightarrow> 'h slot_hash_key list \<Rightarrow> ('h, 'p) fork_choice list \<Rightarrow>
    'h slot_hash_key option \<Rightarrow> ('h, 'p) fork_choice \<Rightarrow> ('h slot_hash_key list \<times> ('h, 'p) fork_choice list \<times> 'h slot_hash_key option \<times> ('h, 'p) fork_choice) option" where
  "prune_loop new_root to_visit purged pruned found self =
     (case to_visit of
        [] \<Rightarrow> Some (purged, pruned, found, self)
      | cur # to_visit \<Rightarrow>
          if cur = new_root then prune_loop new_root to_visit purged pruned (Some new_root) self
          else if cur < new_root then
            (case children_of (fork_infos self) cur of
               None \<Rightarrow> None
             | Some children \<Rightarrow> prune_loop new_root (rev (sorted_list_of_set children) @ to_visit) (purged @ [cur]) pruned found self)
          else
            (case split_off self cur of
               None \<Rightarrow> None
             | Some (tree, self) \<Rightarrow> prune_loop new_root to_visit purged (pruned @ [tree]) found self))"

definition purge_prune :: "('h::linorder, 'p) fork_choice \<Rightarrow> 'h slot_hash_key \<Rightarrow> ('h slot_hash_key list \<times> ('h, 'p) fork_choice list \<times> ('h, 'p) fork_choice) option" where
  "purge_prune self new_root = do {
     (purged, pruned, found, self) \<leftarrow> prune_loop new_root [tree_root self] [] [] None self;
     (let infos = fork_infos self |` (- set purged) in
      if (\<forall>k \<in> set purged. fork_infos self k \<noteq> None) \<and> distinct purged then
        (case found of
           None \<Rightarrow> Some (purged, pruned, self\<lparr>fork_infos := infos\<rparr>)
         | Some root \<Rightarrow>
             (case infos root of
                None \<Rightarrow> None
              | Some info \<Rightarrow> Some (purged, pruned, self\<lparr>fork_infos := infos(root \<mapsto> info\<lparr>fi_parent := None\<rparr>), tree_root := root\<rparr>)))
      else None)
   }"

fun add_leaves :: "('h::linorder, 'p) fork_choice \<Rightarrow> ('h slot_hash_key \<times> 'h slot_hash_key) list \<Rightarrow> ('h, 'p) fork_choice option" where
  "add_leaves self [] = Some self"
| "add_leaves self ((key, parent) # nodes) =
     (case add_new_leaf_slot self key (Some parent) of None \<Rightarrow> None | Some self \<Rightarrow> add_leaves self nodes)"

text \<open>The order in which a hash map gives its entries is an argument: \<open>votes\<close> lists the latest votes of the other tree.\<close>

definition merge_tree :: "('h::linorder, 'p) fork_choice \<Rightarrow> ('h, 'p) fork_choice \<Rightarrow> ('p \<times> 'h slot_hash_key) list \<Rightarrow> 'h slot_hash_key \<Rightarrow> (u64 \<rightharpoonup> ('p \<Rightarrow> u64)) \<Rightarrow>
    (slot \<Rightarrow> u64) \<Rightarrow> ('h, 'p) fork_choice option" where
  "merge_tree self other votes merge_leaf epoch_stakes get_epoch =
     (if fork_infos self merge_leaf = None then None
      else
        (let other_nodes = map (\<lambda>k. (k, case fork_infos other k of Some info \<Rightarrow> (case fi_parent info of Some p \<Rightarrow> p | None \<Rightarrow> merge_leaf) | None \<Rightarrow> merge_leaf))
               (sorted_list_of_set (dom (fork_infos other)))
         in do {
           self \<leftarrow> add_leaves self other_nodes;
           (_, self) \<leftarrow> add_votes self votes epoch_stakes get_epoch;
           Some self
         }))"

section \<open>Marking forks\<close>

definition insert_subtree_operations :: "update_operation \<Rightarrow> 'h::linorder slot_hash_key set \<Rightarrow> 'h update_operations \<Rightarrow> 'h update_operations" where
  "insert_subtree_operations mark keys operations =
     fold (\<lambda>k operations. snd (do_insert_aggregate_operation operations (Some mark) k)) (sorted_list_of_set keys) operations"

definition mark_fork_invalid_candidate :: "'h::linorder \<Rightarrow> ('h, 'p) fork_choice \<Rightarrow> 'h slot_hash_key \<Rightarrow> ('h, 'p) fork_choice option" where
  "mark_fork_invalid_candidate default_hash self key =
     (case fork_infos self key of
        None \<Rightarrow> Some self
      | Some info \<Rightarrow>
          if fi_is_duplicate_confirmed info then None
          else do {
            keys \<leftarrow> subtree_diff (fork_infos self) key (0, default_hash);
            operations \<leftarrow> insert_aggregate_operations (fork_infos self) (insert_subtree_operations (MarkInvalid (fst key)) keys Map.empty) key;
            process_update_operations self operations
          })"

definition mark_fork_valid_candidate :: "'h::linorder \<Rightarrow> ('h, 'p) fork_choice \<Rightarrow> 'h slot_hash_key \<Rightarrow> ('h slot_hash_key list \<times> ('h, 'p) fork_choice) option" where
  "mark_fork_valid_candidate default_hash self key = do {
     ancestors \<leftarrow> ancestors_of (fork_infos self) key;
     newly \<leftarrow> (if \<forall>k \<in> set (key # ancestors). is_duplicate_confirmed self k \<noteq> None
       then Some (filter (\<lambda>k. is_duplicate_confirmed self k = Some False) (key # ancestors)) else None);
     keys \<leftarrow> subtree_diff (fork_infos self) key (0, default_hash);
     operations \<leftarrow> insert_aggregate_operations (fork_infos self) (insert_subtree_operations (MarkValid (fst key)) keys Map.empty) key;
     self \<leftarrow> process_update_operations self operations;
     Some (newly, self)
   }"

section \<open>Selecting\<close>

definition heaviest_slot_on_same_voted_fork :: "('h, 'p) fork_choice \<Rightarrow> 'h slot_hash_key option \<Rightarrow> bool \<Rightarrow> 'h slot_hash_key option option" where
  "heaviest_slot_on_same_voted_fork self last_voted_slot_hash is_stray_last_vote =
     (case last_voted_slot_hash of
        None \<Rightarrow> Some None
      | Some key \<Rightarrow>
          (case is_candidate self key of
             Some True \<Rightarrow> Some (best_slot self key)
           | Some False \<Rightarrow> Some (deepest_slot self key)
           | None \<Rightarrow> if \<not> is_stray_last_vote then None else Some None))"

text \<open>The bank forks map a slot to the hash of its bank.\<close>

definition select_forks :: "('h, 'p) fork_choice \<Rightarrow> 'h slot_hash_key option \<Rightarrow> bool \<Rightarrow> (slot \<rightharpoonup> 'h) \<Rightarrow> ('h slot_hash_key \<times> 'h slot_hash_key option) option" where
  "select_forks self last_voted_slot_hash is_stray_last_vote bank_forks = do {
     best \<leftarrow> best_overall_slot self;
     best_hash \<leftarrow> bank_forks (fst best);
     same_fork \<leftarrow> heaviest_slot_on_same_voted_fork self last_voted_slot_hash is_stray_last_vote;
     if best_hash = snd best
     then Some (best, (case same_fork of
         None \<Rightarrow> None
       | Some key \<Rightarrow> (case bank_forks (fst key) of Some h \<Rightarrow> if h \<noteq> snd key then None else Some key | None \<Rightarrow> None)))
     else None
   }"

end
