(* ===== verification/Fork_Tree.thy ===== *)
theory Fork_Tree
  imports Fork_Choice
begin

text \<open>
  The invariant of the fork choice: the blocks form a tree in which slots grow from parent to child, and every node agrees with its children on stake,
  height, best and deepest slot.
\<close>

declare split_paired_All [simp del] split_paired_Ex [simp del]

section \<open>The tree\<close>

definition children :: "'h fork_map \<Rightarrow> 'h slot_hash_key \<Rightarrow> 'h slot_hash_key set" where
  "children I k = (case I k of Some i \<Rightarrow> fi_children i | None \<Rightarrow> {})"

definition wf_tree :: "'h fork_map \<Rightarrow> 'h slot_hash_key \<Rightarrow> bool" where
  "wf_tree I r \<longleftrightarrow> finite (dom I) \<and> r \<in> dom I \<and>
     (\<forall>k \<in> dom I. (parent_of I k = None \<longleftrightarrow> k = r) \<and> (\<forall>p. parent_of I k = Some p \<longrightarrow> k \<in> children I p) \<and>
       (\<forall>c \<in> children I k. fst k < fst c \<and> c \<in> dom I \<and> parent_of I c = Some k))"

inductive desc :: "'h fork_map \<Rightarrow> 'h slot_hash_key \<Rightarrow> 'h slot_hash_key \<Rightarrow> bool" for I where
  desc_self: "desc I k k"
| desc_step: "c \<in> children I k \<Longrightarrow> desc I c d \<Longrightarrow> desc I k d"

lemma children_dom: "c \<in> children I k \<Longrightarrow> k \<in> dom I"
  by (auto simp: children_def split: option.splits)

lemma parent_dom: "parent_of I k = Some p \<Longrightarrow> k \<in> dom I"
  by (auto simp: parent_of_def split: option.splits)

lemma wf_child:
  "wf_tree I r \<Longrightarrow> c \<in> children I k \<Longrightarrow> fst k < fst c \<and> k \<in> dom I \<and> c \<in> dom I \<and> parent_of I c = Some k"
  using children_dom [of c I k] unfolding wf_tree_def by blast

lemma wf_child_less: "wf_tree I r \<Longrightarrow> c \<in> children I k \<Longrightarrow> k < (c :: 'h::linorder slot_hash_key)"
  using wf_child [of I r c k] by (simp add: less_prod_def)

lemma wf_parent: "wf_tree I r \<Longrightarrow> parent_of I k = Some p \<Longrightarrow> k \<in> children I p \<and> p \<in> dom I"
  using parent_dom [of I k p] children_dom [of k I p] unfolding wf_tree_def by blast

lemma parent_of_child: "wf_tree I r \<Longrightarrow> c \<in> children I k \<Longrightarrow> parent_of I c = Some k"
  using wf_child [of I r c k] by simp

lemma wf_children_finite: "wf_tree I r \<Longrightarrow> finite (children I k)"
proof -
  assume wf: "wf_tree I r"
  have "children I k \<subseteq> dom I" using wf_child [OF wf, of _ k] by auto
  then show ?thesis using wf finite_subset by (auto simp: wf_tree_def)
qed

lemma desc_fst: "desc I k d \<Longrightarrow> wf_tree I r \<Longrightarrow> k = d \<or> fst k < fst d"
proof (induction rule: desc.induct)
  case (desc_step c k d)
  then show ?case using wf_child [of I r c k] by auto
qed simp

lemma desc_dom: "desc I k d \<Longrightarrow> wf_tree I r \<Longrightarrow> k \<in> dom I \<Longrightarrow> d \<in> dom I"
proof (induction rule: desc.induct)
  case (desc_step c k d)
  then show ?case using wf_child [of I r c k] by blast
qed simp

lemma desc_trans: "desc I a b \<Longrightarrow> desc I b c \<Longrightarrow> desc I a c"
  by (induction rule: desc.induct) (auto intro: desc_step)

lemma desc_child: "c \<in> children I k \<Longrightarrow> desc I k c"
  by (auto intro: desc.intros)

text \<open>A proper descendant is below a child, or has a parent that is a descendant.\<close>

lemma desc_cases_parent:
  "desc I k d \<Longrightarrow> wf_tree I r \<Longrightarrow> k = d \<or> (\<exists>p. parent_of I d = Some p \<and> desc I k p)"
proof (induction rule: desc.induct)
  case (desc_step c k d)
  then show ?case using parent_of_child [of I r c k] desc_child [of c I k] desc_trans by (metis desc.desc_self desc.desc_step)
qed simp

lemma desc_parent: "desc I k d \<Longrightarrow> wf_tree I r \<Longrightarrow> parent_of I d = Some p \<Longrightarrow> d = k \<or> desc I k p"
  using desc_cases_parent by fastforce

text \<open>Two nodes above the same one are above each other.\<close>

lemma desc_linear: "desc I a d \<Longrightarrow> desc I b d \<Longrightarrow> wf_tree I r \<Longrightarrow> desc I a b \<or> desc I b a"
proof (induction rule: desc.induct)
  case (desc_self k)
  then show ?case by simp
next
  case (desc_step c k d)
  from desc_step.IH [OF desc_step.prems] show ?case
  proof
    assume "desc I c b"
    then show ?thesis using desc_step.hyps(1) by (blast intro: desc.desc_step)
  next
    assume b: "desc I b c"
    have "parent_of I c = Some k" by (rule parent_of_child [OF desc_step.prems(2) desc_step.hyps(1)])
    then show ?thesis using desc_parent [OF b desc_step.prems(2)] desc_child [OF desc_step.hyps(1)] by blast
  qed
qed

lemma siblings_disjoint:
  assumes "wf_tree I r" "c \<in> children I k" "d \<in> children I k" "c \<noteq> d" "desc I c x"
  shows "\<not> desc I d x"
proof
  assume "desc I d x"
  then have "desc I c d \<or> desc I d c" using desc_linear assms(1,5) by blast
  then show False
    using desc_parent [of I c d r k] desc_parent [of I d c r k] parent_of_child [OF assms(1)] assms desc_fst [of I c k r] desc_fst [of I d k r] wf_child [OF assms(1)]
    by (metis less_asym less_irrefl)
qed

lemma child_not_self: "wf_tree I r \<Longrightarrow> c \<in> children I k \<Longrightarrow> \<not> desc I c k"
  using desc_fst [of I c k r] wf_child [of I r c k] by fastforce

text \<open>Induction from the leaves to the root.\<close>

lemma tree_induct:
  assumes wf: "wf_tree I r" and step: "\<And>k. (\<And>c. c \<in> children I k \<Longrightarrow> P c) \<Longrightarrow> P k"
  shows "P k"
proof (induction "card {x \<in> dom I. fst k < fst x}" arbitrary: k rule: less_induct)
  case less
  show ?case
  proof (rule step)
    fix c assume c: "c \<in> children I k"
    have "{x \<in> dom I. fst c < fst x} \<subset> {x \<in> dom I. fst k < fst x}" using wf_child [OF wf c] by force
    then have "card {x \<in> dom I. fst c < fst x} < card {x \<in> dom I. fst k < fst x}"
      using wf by (intro psubset_card_mono) (auto simp: wf_tree_def)
    then show "P c" by (rule less)
  qed
qed

lemma root_above: "wf_tree I r \<Longrightarrow> k \<in> dom I \<Longrightarrow> desc I r k"
proof (induction "card {x \<in> dom I. fst x < fst k}" arbitrary: k rule: less_induct)
  case less
  show ?case
  proof (cases "parent_of I k")
    case None
    then have "k = r" using less.prems unfolding wf_tree_def by blast
    then show ?thesis by (simp add: desc_self)
  next
    case (Some p)
    then have p: "k \<in> children I p" "p \<in> dom I" using wf_parent [OF less.prems(1)] by auto
    then have "{x \<in> dom I. fst x < fst p} \<subset> {x \<in> dom I. fst x < fst k}" using wf_child [OF less.prems(1) p(1)] by force
    then have "card {x \<in> dom I. fst x < fst p} < card {x \<in> dom I. fst x < fst k}"
      using less.prems(1) by (intro psubset_card_mono) (auto simp: wf_tree_def)
    then have "desc I r p" using less.hyps less.prems(1) p(2) by blast
    then show ?thesis using desc_child [OF p(1)] desc_trans by blast
  qed
qed


section \<open>Agreement with the children\<close>

abbreviation node :: "'h fork_map \<Rightarrow> 'h slot_hash_key \<Rightarrow> 'h fork_info" where
  "node I k \<equiv> the (I k)"

abbreviation weight :: "'h fork_map \<Rightarrow> 'h slot_hash_key \<Rightarrow> u64" where
  "weight I k \<equiv> fi_stake_voted_subtree (node I k)"

abbreviation candidate :: "'h fork_map \<Rightarrow> 'h slot_hash_key \<Rightarrow> bool" where
  "candidate I k \<equiv> fi_is_candidate (node I k)"

abbreviation depth :: "'h fork_map \<Rightarrow> 'h slot_hash_key \<Rightarrow> nat" where
  "depth I k \<equiv> fi_height (node I k)"

abbreviation confirmed :: "'h fork_map \<Rightarrow> 'h slot_hash_key \<Rightarrow> bool" where
  "confirmed I k \<equiv> fi_is_duplicate_confirmed (node I k)"

text \<open>The heaviest candidate among some blocks, the smallest key first among equals; and the deepest block.\<close>

definition heavier :: "'h::linorder fork_map \<Rightarrow> 'h slot_hash_key \<Rightarrow> 'h slot_hash_key \<Rightarrow> bool" where
  "heavier I c d \<longleftrightarrow> weight I d < weight I c \<or> (weight I d = weight I c \<and> c < d)"

definition heaviest_of :: "'h::linorder fork_map \<Rightarrow> 'h slot_hash_key set \<Rightarrow> 'h slot_hash_key \<Rightarrow> bool" where
  "heaviest_of I C c \<longleftrightarrow> c \<in> C \<and> candidate I c \<and> (\<forall>d \<in> C. candidate I d \<longrightarrow> d \<noteq> c \<longrightarrow> heavier I c d)"

definition deeper :: "'h::linorder fork_map \<Rightarrow> 'h slot_hash_key \<Rightarrow> 'h slot_hash_key \<Rightarrow> bool" where
  "deeper I c d \<longleftrightarrow> depth I d < depth I c \<or> (depth I d = depth I c \<and> heavier I c d)"

definition deepest_of :: "'h::linorder fork_map \<Rightarrow> 'h slot_hash_key set \<Rightarrow> 'h slot_hash_key \<Rightarrow> bool" where
  "deepest_of I C c \<longleftrightarrow> c \<in> C \<and> (\<forall>d \<in> C. d \<noteq> c \<longrightarrow> deeper I c d)"

definition stake_ok :: "'h fork_map \<Rightarrow> 'h slot_hash_key \<Rightarrow> bool" where
  "stake_ok I k \<longleftrightarrow> weight I k = fi_stake_voted_at (node I k) + (\<Sum>c \<in> children I k. weight I c)"

definition best_ok :: "'h::linorder fork_map \<Rightarrow> 'h slot_hash_key \<Rightarrow> bool" where
  "best_ok I k \<longleftrightarrow> (if \<exists>c \<in> children I k. candidate I c
     then \<exists>c. heaviest_of I (children I k) c \<and> fi_best_slot (node I k) = fi_best_slot (node I c)
     else fi_best_slot (node I k) = k)"

definition deep_ok :: "'h::linorder fork_map \<Rightarrow> 'h slot_hash_key \<Rightarrow> bool" where
  "deep_ok I k \<longleftrightarrow> (if children I k = {} then depth I k = 1 \<and> fi_deepest_slot (node I k) = k
     else \<exists>c. deepest_of I (children I k) c \<and> depth I k = depth I c + 1 \<and> fi_deepest_slot (node I k) = fi_deepest_slot (node I c))"

definition node_ok :: "'h::linorder fork_map \<Rightarrow> 'h slot_hash_key \<Rightarrow> bool" where
  "node_ok I k \<longleftrightarrow> stake_ok I k \<and> (candidate I k \<longrightarrow> best_ok I k) \<and> deep_ok I k \<and> (\<forall>c \<in> children I k. confirmed I c \<longrightarrow> confirmed I k)"

lemma heavier_total: "c \<noteq> d \<Longrightarrow> heavier I c d \<or> heavier I d c"
  unfolding heavier_def using less_linear [of c d] less_linear [of "weight I c" "weight I d"] by auto

lemma heavier_trans: "heavier I a b \<Longrightarrow> heavier I b c \<Longrightarrow> heavier I a c"
  unfolding heavier_def by (auto intro: less_trans)

lemma deeper_total: "c \<noteq> d \<Longrightarrow> deeper I c d \<or> deeper I d c"
  using heavier_total [of c d I] by (auto simp: deeper_def)

lemma deeper_trans: "deeper I a b \<Longrightarrow> deeper I b c \<Longrightarrow> deeper I a c"
  unfolding deeper_def using heavier_trans [of I a b c] by auto

section \<open>The aggregation computes it\<close>

definition aggregate_ok :: "'h::linorder fork_map \<Rightarrow> 'h slot_hash_key \<Rightarrow> u64 \<Rightarrow> 'h slot_hash_key set \<Rightarrow> 'h aggregate \<Rightarrow> bool" where
  "aggregate_ok I k s D ag \<longleftrightarrow> ag_stake ag = s + (\<Sum>c \<in> D. weight I c) \<and> (ag_confirmed ag \<longleftrightarrow> (\<exists>c \<in> D. confirmed I c)) \<and>
     (if \<exists>c \<in> D. candidate I c
      then heaviest_of I D (ag_best_child ag) \<and> ag_best_stake ag = weight I (ag_best_child ag) \<and> ag_best_slot ag = fi_best_slot (node I (ag_best_child ag))
      else ag_best_child ag = k \<and> ag_best_slot ag = k) \<and>
     (if D = {} then ag_deepest_child ag = k \<and> ag_deepest_slot ag = k \<and> ag_deepest_height ag = 0
      else deepest_of I D (ag_deepest_child ag) \<and> ag_deepest_height ag = depth I (ag_deepest_child ag) \<and>
        ag_deepest_stake ag = weight I (ag_deepest_child ag) \<and> ag_deepest_slot ag = fi_deepest_slot (node I (ag_deepest_child ag)))"

lemma heaviest_insert:
  assumes "heaviest_of I D b" "c \<notin> D"
  shows "heaviest_of I (insert c D) (if candidate I c \<and> heavier I c b then c else b)"
proof (cases "candidate I c \<and> heavier I c b")
  case True
  have "heavier I c d" if "d \<in> D" "candidate I d" for d
    using assms(1) that True heavier_trans [of I c b d] by (cases "d = b") (auto simp: heaviest_of_def)
  then show ?thesis using True by (auto simp: heaviest_of_def)
next
  case False
  have "c \<noteq> b" using assms by (auto simp: heaviest_of_def)
  then have "candidate I c \<Longrightarrow> heavier I b c" using False heavier_total [of c b I] by blast
  then show ?thesis using False assms(1) by (auto simp: heaviest_of_def)
qed

lemma deepest_insert:
  assumes "deepest_of I D b" "c \<notin> D"
  shows "deepest_of I (insert c D) (if deeper I c b then c else b)"
proof (cases "deeper I c b")
  case True
  have "deeper I c d" if "d \<in> D" for d
    using assms(1) that True deeper_trans [of I c b d] by (cases "d = b") (auto simp: deepest_of_def)
  then show ?thesis using True by (auto simp: deepest_of_def)
next
  case False
  have "c \<noteq> b" using assms by (auto simp: deepest_of_def)
  then have "deeper I b c" using False deeper_total [of c b I] by blast
  then show ?thesis using False assms(1) by (auto simp: deepest_of_def)
qed

text \<open>The tie breaks of the code are the orders.\<close>

lemma deeper_cmp:
  "(case (cmp h1 h2, cmp s1 s2, cmp c1 c2) of (Greater, _, _) \<Rightarrow> True | (Equal, Greater, _) \<Rightarrow> True | (Equal, Equal, Less) \<Rightarrow> True | _ \<Rightarrow> False) \<longleftrightarrow>
    h2 < h1 \<or> (h2 = h1 \<and> (s2 < s1 \<or> (s2 = s1 \<and> c1 < c2)))"
proof -
  show ?thesis
    by (rule linorder_cases [of h1 h2]; rule linorder_cases [of s1 s2]; rule linorder_cases [of c1 c2]) (auto simp: cmp_def)
qed

lemma aggregate_child_ok:
  assumes ag: "aggregate_ok I k s D ag" and c: "c \<notin> D" "c \<noteq> k" "k \<notin> D" "finite D" "I c = Some child"
  shows "aggregate_ok I k s (insert c D) (aggregate_child k c child ag)"
proof -
  have child: "node I c = child" using c(5) by simp
  have heavy: "ag_best_child ag = k \<longleftrightarrow> (\<forall>d \<in> D. \<not> candidate I d)" "\<exists>d \<in> D. candidate I d \<Longrightarrow> heaviest_of I D (ag_best_child ag)"
    using ag c(3) by (auto simp: aggregate_ok_def heaviest_of_def split: if_splits)
  have deep: "ag_deepest_child ag = k \<longleftrightarrow> D = {}" "D \<noteq> {} \<Longrightarrow> deepest_of I D (ag_deepest_child ag)"
    using ag c(3) by (auto simp: aggregate_ok_def deepest_of_def split: if_splits)
  let ?ag = "aggregate_child k c child ag"
  let ?b = "fi_is_candidate child \<and> (ag_best_child ag = k \<or> fi_stake_voted_subtree child > ag_best_stake ag \<or>
    (fi_stake_voted_subtree child = ag_best_stake ag \<and> c < ag_best_child ag))"
  let ?d = "ag_deepest_child ag = k \<or> ag_deepest_height ag < fi_height child \<or> (ag_deepest_height ag = fi_height child \<and>
    (ag_deepest_stake ag < fi_stake_voted_subtree child \<or> (ag_deepest_stake ag = fi_stake_voted_subtree child \<and> c < ag_deepest_child ag)))"
  have fields: "ag_stake ?ag = ag_stake ag + weight I c" "ag_confirmed ?ag \<longleftrightarrow> ag_confirmed ag \<or> confirmed I c"
    "ag_best_child ?ag = (if ?b then c else ag_best_child ag)" "ag_best_stake ?ag = (if ?b then weight I c else ag_best_stake ag)"
    "ag_best_slot ?ag = (if ?b then fi_best_slot child else ag_best_slot ag)"
    "ag_deepest_child ?ag = (if ?d then c else ag_deepest_child ag)" "ag_deepest_stake ?ag = (if ?d then weight I c else ag_deepest_stake ag)"
    "ag_deepest_height ?ag = (if ?d then depth I c else ag_deepest_height ag)" "ag_deepest_slot ?ag = (if ?d then fi_deepest_slot child else ag_deepest_slot ag)"
    unfolding aggregate_child_def aggregate_best_def aggregate_deepest_def child Let_def deeper_cmp by auto
  have best: "if \<exists>d \<in> insert c D. candidate I d
      then heaviest_of I (insert c D) (ag_best_child ?ag) \<and> ag_best_stake ?ag = weight I (ag_best_child ?ag) \<and> ag_best_slot ?ag = fi_best_slot (node I (ag_best_child ?ag))
      else ag_best_child ?ag = k \<and> ag_best_slot ?ag = k"
  proof (cases "\<exists>d \<in> D. candidate I d")
    case True
    then have old: "heaviest_of I D (ag_best_child ag)" "ag_best_stake ag = weight I (ag_best_child ag)" "ag_best_slot ag = fi_best_slot (node I (ag_best_child ag))"
      using ag by (auto simp: aggregate_ok_def)
    have "ag_best_child ag \<noteq> k" using heavy(1) True by blast
    then have "?b \<longleftrightarrow> candidate I c \<and> heavier I c (ag_best_child ag)" using old(2) child by (auto simp: heavier_def)
    then show ?thesis using heaviest_insert [OF old(1) c(1)] True old child unfolding fields by auto
  next
    case False
    then have old: "ag_best_child ag = k" "ag_best_slot ag = k" using ag by (auto simp: aggregate_ok_def)
    show ?thesis using False old child unfolding fields by (auto simp: heaviest_of_def)
  qed
  have "deepest_of I (insert c D) (ag_deepest_child ?ag) \<and> ag_deepest_height ?ag = depth I (ag_deepest_child ?ag) \<and>
        ag_deepest_stake ?ag = weight I (ag_deepest_child ?ag) \<and> ag_deepest_slot ?ag = fi_deepest_slot (node I (ag_deepest_child ?ag))"
  proof (cases "D = {}")
    case True
    then show ?thesis using deep(1) child unfolding fields by (simp add: deepest_of_def)
  next
    case False
    then have old: "deepest_of I D (ag_deepest_child ag)" "ag_deepest_height ag = depth I (ag_deepest_child ag)" "ag_deepest_stake ag = weight I (ag_deepest_child ag)"
      "ag_deepest_slot ag = fi_deepest_slot (node I (ag_deepest_child ag))" using ag by (auto simp: aggregate_ok_def)
    have "?d \<longleftrightarrow> deeper I c (ag_deepest_child ag)" using deep(1) False old(2,3) child by (auto simp: deeper_def heavier_def)
    then show ?thesis using deepest_insert [OF old(1) c(1)] old child unfolding fields by auto
  qed
  moreover have "ag_stake ?ag = s + (\<Sum>d \<in> insert c D. weight I d)" "ag_confirmed ?ag \<longleftrightarrow> (\<exists>d \<in> insert c D. confirmed I d)"
    using ag c(1,4) unfolding fields by (auto simp: aggregate_ok_def algebra_simps)
  ultimately show ?thesis using best unfolding aggregate_ok_def by simp
qed

lemma aggregate_children_ok:
  "aggregate_ok I k s D ag \<Longrightarrow> finite D \<Longrightarrow> distinct cs \<Longrightarrow> set cs \<inter> D = {} \<Longrightarrow> k \<notin> D \<union> set cs \<Longrightarrow> set cs \<subseteq> dom I \<Longrightarrow>
    \<exists>ag'. aggregate_children I k cs ag = Some ag' \<and> aggregate_ok I k s (D \<union> set cs) ag'"
proof (induction cs arbitrary: D ag)
  case (Cons c cs)
  obtain child where child: "I c = Some child" using Cons.prems(6) by auto
  have "aggregate_ok I k s (insert c D) (aggregate_child k c child ag)"
    by (rule aggregate_child_ok [OF Cons.prems(1)]) (use Cons.prems child in auto)
  from Cons.IH [OF this] Cons.prems child show ?case by simp
qed simp

lemma aggregate_init_ok: "aggregate_ok I k s {} (aggregate_init k s)"
  by (simp add: aggregate_ok_def aggregate_init_def)

end
