(* ===== verification/Fork_Process.thy ===== *)
theory Fork_Process
  imports Fork_Tree
begin

text \<open>
  Processing a batch of update operations from the greatest key to the smallest restores the agreement of every node with its children: when
  a node is aggregated, its children are final.
\<close>

section \<open>Shape\<close>

text \<open>Operations change neither parents nor children.\<close>

definition same_shape :: "'h fork_map \<Rightarrow> 'h fork_map \<Rightarrow> bool" where
  "same_shape I J \<longleftrightarrow> (\<forall>k. map_option (\<lambda>i. (fi_parent i, fi_children i)) (I k) = map_option (\<lambda>i. (fi_parent i, fi_children i)) (J k))"

lemma same_shape_refl [simp]: "same_shape I I"
  by (simp add: same_shape_def)

lemma same_shape_trans: "same_shape I J \<Longrightarrow> same_shape J K \<Longrightarrow> same_shape I K"
  by (simp add: same_shape_def)

lemma same_shape_children: "same_shape I J \<Longrightarrow> children J = children I"
proof
  fix k assume "same_shape I J"
  then have "map_option (\<lambda>i. (fi_parent i, fi_children i)) (I k) = map_option (\<lambda>i. (fi_parent i, fi_children i)) (J k)" by (simp add: same_shape_def)
  then show "children J k = children I k" by (cases "I k"; cases "J k") (auto simp: children_def)
qed

lemma same_shape_parent: "same_shape I J \<Longrightarrow> parent_of J = parent_of I"
proof
  fix k assume "same_shape I J"
  then have "map_option (\<lambda>i. (fi_parent i, fi_children i)) (I k) = map_option (\<lambda>i. (fi_parent i, fi_children i)) (J k)" by (simp add: same_shape_def)
  then show "parent_of J k = parent_of I k" by (cases "I k"; cases "J k") (auto simp: parent_of_def)
qed

lemma same_shape_dom: "same_shape I J \<Longrightarrow> dom J = dom I"
proof -
  assume "same_shape I J"
  then have eq: "map_option (\<lambda>i. (fi_parent i, fi_children i)) (I k) = map_option (\<lambda>i. (fi_parent i, fi_children i)) (J k)" for k by (simp add: same_shape_def)
  have "J k = None \<longleftrightarrow> I k = None" for k using eq [of k] by (cases "I k"; cases "J k") simp_all
  then show ?thesis unfolding dom_def by simp
qed

lemma same_shape_wf: "same_shape I J \<Longrightarrow> wf_tree I r \<Longrightarrow> wf_tree J r"
proof -
  assume s: "same_shape I J" and wf: "wf_tree I r"
  show ?thesis using wf unfolding wf_tree_def same_shape_children [OF s] same_shape_parent [OF s] same_shape_dom [OF s] .
qed

lemma same_shape_desc: "same_shape I J \<Longrightarrow> desc J = desc I"
proof -
  assume "same_shape I J"
  then have c: "children J = children I" by (rule same_shape_children)
  have "desc A k d \<Longrightarrow> children B = children A \<Longrightarrow> desc B k d" for A B :: "'a fork_map" and k d
    by (induction rule: desc.induct) (auto intro: desc.intros)
  then show ?thesis using c by (intro ext) metis
qed

lemma same_shape_update:
  "I k = Some i \<Longrightarrow> fi_parent j = fi_parent i \<Longrightarrow> fi_children j = fi_children i \<Longrightarrow> same_shape I (I(k \<mapsto> j))"
  by (simp add: same_shape_def)

section \<open>Frame\<close>

lemma heaviest_of_cong: "\<forall>y \<in> C. J y = I y \<Longrightarrow> heaviest_of J C c \<longleftrightarrow> heaviest_of I C c"
proof (cases "c \<in> C")
  case True
  assume eq: "\<forall>y \<in> C. J y = I y"
  then have "J c = I c" "\<And>d. d \<in> C \<Longrightarrow> heavier J c d \<longleftrightarrow> heavier I c d" using True by (simp_all add: heavier_def)
  then show ?thesis using True eq by (simp add: heaviest_of_def)
qed (simp add: heaviest_of_def)

lemma deepest_of_cong: "\<forall>y \<in> C. J y = I y \<Longrightarrow> deepest_of J C c \<longleftrightarrow> deepest_of I C c"
proof (cases "c \<in> C")
  case True
  assume "\<forall>y \<in> C. J y = I y"
  then have "\<And>d. d \<in> C \<Longrightarrow> deeper J c d \<longleftrightarrow> deeper I c d" using True by (simp add: heavier_def deeper_def)
  then show ?thesis using True by (simp add: deepest_of_def)
qed (simp add: deepest_of_def)

lemma node_ok_cong:
  assumes "children J x = children I x" "J x = I x" "\<forall>y \<in> children I x. J y = I y"
  shows "node_ok J x \<longleftrightarrow> node_ok I x"
proof -
  note h = heaviest_of_cong [OF assms(3)] and d = deepest_of_cong [OF assms(3)]
  have hin: "heaviest_of I (children I x) c \<and> fi_best_slot (node I x) = fi_best_slot (node J c) \<longleftrightarrow>
      heaviest_of I (children I x) c \<and> fi_best_slot (node I x) = fi_best_slot (node I c)" for c
    using assms(3) by (simp add: heaviest_of_def cong: conj_cong)
  have din: "deepest_of I (children I x) c \<and> depth I x = depth J c + 1 \<and> fi_deepest_slot (node I x) = fi_deepest_slot (node J c) \<longleftrightarrow>
      deepest_of I (children I x) c \<and> depth I x = depth I c + 1 \<and> fi_deepest_slot (node I x) = fi_deepest_slot (node I c)" for c
    using assms(3) by (simp add: deepest_of_def cong: conj_cong)
  have "stake_ok J x \<longleftrightarrow> stake_ok I x" unfolding stake_ok_def assms(1,2) using assms(3) by (simp cong: sum.cong)
  moreover have "best_ok J x \<longleftrightarrow> best_ok I x" unfolding best_ok_def assms(1,2) h hin using assms(3) by (simp cong: bex_cong)
  moreover have "deep_ok J x \<longleftrightarrow> deep_ok I x" unfolding deep_ok_def assms(1,2) d din by simp
  ultimately show ?thesis unfolding node_ok_def assms(1,2) using assms(3) by (simp cong: ball_cong)
qed


section \<open>Pending operations\<close>

abbreviation invalid :: "'h fork_map \<Rightarrow> 'h slot_hash_key \<Rightarrow> slot option" where
  "invalid I k \<equiv> fi_latest_invalid_ancestor (node I k)"

type_synonym 'h operation_seq = "('h slot_hash_key \<times> update_operation) list"

text \<open>Greatest key first; the aggregation of a key is its last operation.\<close>

definition descending :: "'h::linorder operation_seq \<Rightarrow> bool" where
  "descending L \<longleftrightarrow> sorted_wrt (\<lambda>(k, a) (k', b). k' < k \<or> (k' = k \<and> a \<noteq> Aggregate)) L"

text \<open>Whoever changes a node aggregates its ancestors.\<close>

definition closed_up :: "'h fork_map \<Rightarrow> 'h operation_seq \<Rightarrow> bool" where
  "closed_up I L \<longleftrightarrow>
     (\<forall>(k, a) \<in> set L. \<forall>p. parent_of I k = Some p \<longrightarrow> (p, Aggregate) \<in> set L) \<and>
     (\<forall>k s. (k, MarkValid s) \<in> set L \<or> (k, MarkInvalid s) \<in> set L \<longrightarrow> (k, Aggregate) \<in> set L \<and> s \<le> fst k) \<and>
     (\<forall>k s p. (k, MarkValid s) \<in> set L \<longrightarrow> parent_of I k = Some p \<longrightarrow> (p, MarkValid s) \<in> set L \<or> fst k = s)"

definition marks_invalid :: "'h operation_seq \<Rightarrow> bool" where
  "marks_invalid L \<longleftrightarrow> (\<exists>k s. (k, MarkInvalid s) \<in> set L)"

text \<open>A block that is marked invalid is not confirmed, and its children are invalid or will be.\<close>

definition invalid_ok :: "'h fork_map \<Rightarrow> 'h operation_seq \<Rightarrow> bool" where
  "invalid_ok I L \<longleftrightarrow>
     (\<forall>k s. (k, MarkInvalid s) \<in> set L \<longrightarrow> k \<in> dom I \<longrightarrow> \<not> confirmed I k \<and>
        (\<forall>c \<in> children I k. (c, MarkInvalid s) \<in> set L \<or> (\<exists>b. invalid I c = Some b \<and> s \<le> b)))"

text \<open>An invalid ancestor is inherited, unless the operations still to come clear it.\<close>

definition inherited :: "'h fork_map \<Rightarrow> 'h operation_seq \<Rightarrow> bool" where
  "inherited I L \<longleftrightarrow>
     (\<forall>p a. \<forall>c \<in> children I p. invalid I p = Some a \<longrightarrow>
        (\<exists>b. invalid I c = Some b \<and> a \<le> b) \<or> (\<exists>s. (p, MarkValid s) \<in> set L \<and> a \<le> s) \<or> (confirmed I c \<and> (p, Aggregate) \<in> set L \<and> \<not> marks_invalid L))"

definition marks_ok :: "'h fork_map \<Rightarrow> bool" where
  "marks_ok I \<longleftrightarrow> (\<forall>k \<in> dom I. (confirmed I k \<longrightarrow> invalid I k = None) \<and> (\<forall>a. invalid I k = Some a \<longrightarrow> a \<le> fst k) \<and> desc I k (fi_best_slot (node I k)))"

definition pending :: "'h::linorder fork_map \<Rightarrow> 'h slot_hash_key \<Rightarrow> 'h operation_seq \<Rightarrow> bool" where
  "pending I r L \<longleftrightarrow> wf_tree I r \<and> descending L \<and> closed_up I L \<and> (marks_invalid L \<longrightarrow> (\<forall>k s. (k, MarkValid s) \<notin> set L)) \<and> invalid_ok I L \<and> inherited I L \<and> marks_ok I \<and>
     (\<forall>k \<in> dom I. (k, Aggregate) \<notin> set L \<longrightarrow> node_ok I k)"

definition tree_ok :: "'h::linorder fork_map \<Rightarrow> 'h slot_hash_key \<Rightarrow> bool" where
  "tree_ok I r \<longleftrightarrow> wf_tree I r \<and> marks_ok I \<and> (\<forall>k \<in> dom I. node_ok I k) \<and>
     (\<forall>p a. \<forall>c \<in> children I p. invalid I p = Some a \<longrightarrow> (\<exists>b. invalid I c = Some b \<and> a \<le> b))"

lemma pending_done: "pending I r [] \<Longrightarrow> tree_ok I r"
  unfolding pending_def tree_ok_def inherited_def by simp

lemma children_above:
  assumes "pending I r ((k, a) # L)" "c \<in> children I k"
  shows "(c, b) \<notin> set ((k, a) # L)"
proof
  assume "(c, b) \<in> set ((k, a) # L)"
  moreover have "k < c" using assms wf_child_less unfolding pending_def by blast
  ultimately have "(c, b) \<in> set L" by auto
  then have "c < k \<or> c = k" using assms(1) unfolding pending_def descending_def by fastforce
  then show False using \<open>k < c\<close> by auto
qed


lemma pending_facts:
  assumes "pending I r ((k, a) # L)"
  shows "wf_tree I r" "descending L" "a = Aggregate \<Longrightarrow> (k, b) \<notin> set L" "parent_of I k = Some p \<Longrightarrow> (p, Aggregate) \<in> set L"
proof -
  show wf: "wf_tree I r" using assms unfolding pending_def by blast
  have d: "descending ((k, a) # L)" using assms unfolding pending_def by blast
  then show "descending L" unfolding descending_def by simp
  show "(k, b) \<notin> set L" if "a = Aggregate" using d that unfolding descending_def by fastforce
  assume p: "parent_of I k = Some p"
  then have "p < k" using wf wf_parent wf_child_less by blast
  moreover have "(p, Aggregate) \<in> set ((k, a) # L)" using assms p unfolding pending_def closed_up_def by fastforce
  ultimately show "(p, Aggregate) \<in> set L" by auto
qed

lemma closed_up_tail:
  assumes "pending I r ((k, a) # L)"
  shows "closed_up I L"
proof -
  have up: "closed_up I ((k, a) # L)" using assms unfolding pending_def by blast
  note above = children_above [OF assms] and wf = pending_facts(1) [OF assms] and last = pending_facts(3) [OF assms]
  have not_child: "(x, b) \<in> set L \<Longrightarrow> parent_of I x \<noteq> Some k" for x b
    using above [of x b] wf_parent [OF wf, of x k] by auto
  have "(p, Aggregate) \<in> set L" if "(x, b) \<in> set L" "parent_of I x = Some p" for x b p
    using up that not_child [OF that(1)] unfolding closed_up_def by fastforce
  moreover have "(x, Aggregate) \<in> set L \<and> s \<le> fst x" if "(x, MarkValid s) \<in> set L \<or> (x, MarkInvalid s) \<in> set L" for x s
  proof -
    have "(x, Aggregate) \<in> set ((k, a) # L) \<and> s \<le> fst x" using up that unfolding closed_up_def by auto
    then show ?thesis using that last by auto
  qed
  moreover have "(p, MarkValid s) \<in> set L \<or> fst x = s" if "(x, MarkValid s) \<in> set L" "parent_of I x = Some p" for x s p
  proof -
    have "(p, MarkValid s) \<in> set ((k, a) # L) \<or> fst x = s" using up that unfolding closed_up_def by (meson list.set_intros(2))
    then show ?thesis using not_child [OF that(1)] that(2) by auto
  qed
  ultimately show ?thesis unfolding closed_up_def by blast
qed


section \<open>One operation\<close>

text \<open>What the new value of the node at the head has to satisfy.\<close>

definition step_ok :: "'h::linorder fork_map \<Rightarrow> 'h slot_hash_key \<Rightarrow> 'h operation_seq \<Rightarrow> 'h fork_info \<Rightarrow> bool" where
  "step_ok I k L j \<longleftrightarrow>
     (fi_is_duplicate_confirmed j \<longrightarrow> fi_latest_invalid_ancestor j = None) \<and> (\<forall>x. fi_latest_invalid_ancestor j = Some x \<longrightarrow> x \<le> fst k) \<and>
     desc I k (fi_best_slot j) \<and> ((k, Aggregate) \<notin> set L \<longrightarrow> node_ok (I(k \<mapsto> j)) k) \<and>
     (\<forall>p s. parent_of I k = Some p \<longrightarrow> (p, MarkInvalid s) \<in> set L \<longrightarrow> (k, MarkInvalid s) \<in> set L \<or> (\<exists>b. fi_latest_invalid_ancestor j = Some b \<and> s \<le> b)) \<and>
     (\<forall>s. (k, MarkInvalid s) \<in> set L \<longrightarrow> \<not> fi_is_duplicate_confirmed j) \<and>
     (\<forall>c \<in> children I k. \<forall>x. fi_latest_invalid_ancestor j = Some x \<longrightarrow>
        (\<exists>b. invalid I c = Some b \<and> x \<le> b) \<or> (\<exists>s. (k, MarkValid s) \<in> set L \<and> x \<le> s) \<or> (confirmed I c \<and> (k, Aggregate) \<in> set L \<and> \<not> marks_invalid L)) \<and>
     (\<forall>p x. parent_of I k = Some p \<longrightarrow> invalid I p = Some x \<longrightarrow>
        (\<exists>b. fi_latest_invalid_ancestor j = Some b \<and> x \<le> b) \<or> (\<exists>s. (p, MarkValid s) \<in> set L \<and> x \<le> s) \<or>
        (fi_is_duplicate_confirmed j \<and> \<not> marks_invalid L))"

lemma step_invalid_ok:
  assumes pen: "pending I r ((k, a) # L)" and J: "J = I(k \<mapsto> j)" "same_shape I J" and ok: "step_ok I k L j"
  shows "invalid_ok J L"
proof -
  have old: "invalid_ok I ((k, a) # L)" using pen unfolding pending_def by blast
  have wf: "wf_tree I r" by (rule pending_facts(1) [OF pen])
  have "\<not> confirmed J x \<and> (\<forall>c \<in> children J x. (c, MarkInvalid s) \<in> set L \<or> (\<exists>b. invalid J c = Some b \<and> s \<le> b))"
    if x: "(x, MarkInvalid s) \<in> set L" "x \<in> dom J" for x s
  proof
    have xI: "x \<in> dom I" using x(2) same_shape_dom [OF J(2)] by simp
    have o: "\<not> confirmed I x" "\<forall>c \<in> children I x. (c, MarkInvalid s) \<in> set ((k, a) # L) \<or> (\<exists>b. invalid I c = Some b \<and> s \<le> b)"
      using old x(1) xI unfolding invalid_ok_def by (meson list.set_intros(2))+
    show "\<not> confirmed J x" using o(1) ok x(1) J(1) unfolding step_ok_def by (cases "x = k") auto
    show "\<forall>c \<in> children J x. (c, MarkInvalid s) \<in> set L \<or> (\<exists>b. invalid J c = Some b \<and> s \<le> b)"
    proof
      fix c assume c: "c \<in> children J x"
      then have cI: "c \<in> children I x" using same_shape_children [OF J(2)] by simp
      show "(c, MarkInvalid s) \<in> set L \<or> (\<exists>b. invalid J c = Some b \<and> s \<le> b)"
      proof (cases "c = k")
        case True
        then have "parent_of I k = Some x" using parent_of_child [OF wf cI] by simp
        then show ?thesis using ok x(1) True J(1) unfolding step_ok_def by auto
      next
        case False
        then show ?thesis using o(2) cI J(1) by auto
      qed
    qed
  qed
  then show ?thesis unfolding invalid_ok_def by blast
qed

lemma step_inherited:
  assumes pen: "pending I r ((k, a) # L)" and J: "J = I(k \<mapsto> j)" "same_shape I J" and ok: "step_ok I k L j"
  shows "inherited J L"
proof -
  have old: "inherited I ((k, a) # L)" using pen unfolding pending_def by blast
  have wf: "wf_tree I r" by (rule pending_facts(1) [OF pen])
  have "(\<exists>b. invalid J c = Some b \<and> x \<le> b) \<or> (\<exists>s. (p, MarkValid s) \<in> set L \<and> x \<le> s) \<or> (confirmed J c \<and> (p, Aggregate) \<in> set L \<and> \<not> marks_invalid L)"
    if c: "c \<in> children J p" and x: "invalid J p = Some x" for p x c
  proof -
    have cI: "c \<in> children I p" using c same_shape_children [OF J(2)] by simp
    have par: "parent_of I c = Some p" by (rule parent_of_child [OF wf cI])
    have ne: "c \<noteq> p" using wf_child_less [OF wf cI] by auto
    consider "p = k" | "c = k" "p \<noteq> k" | "p \<noteq> k" "c \<noteq> k" by blast
    then show ?thesis
    proof cases
      case 1
      then have "c \<noteq> k" using ne by simp
      then show ?thesis using ok cI x 1 J(1) unfolding step_ok_def by simp
    next
      case 2
      have "(p, Aggregate) \<in> set L" using pending_facts(4) [OF pen] par 2 by simp
      moreover have "(\<exists>b. fi_latest_invalid_ancestor j = Some b \<and> x \<le> b) \<or> (\<exists>s. (p, MarkValid s) \<in> set L \<and> x \<le> s) \<or>
          (fi_is_duplicate_confirmed j \<and> \<not> marks_invalid L)" using ok par x 2 J(1) unfolding step_ok_def by simp
      ultimately show ?thesis using 2 J(1) by simp
    next
      case 3
      have "invalid I p = Some x" using x 3 J(1) by simp
      then have "(\<exists>b. invalid I c = Some b \<and> x \<le> b) \<or> (\<exists>s. (p, MarkValid s) \<in> set ((k, a) # L) \<and> x \<le> s) \<or>
          (confirmed I c \<and> (p, Aggregate) \<in> set ((k, a) # L) \<and> \<not> marks_invalid ((k, a) # L))" using old cI unfolding inherited_def by blast
      then show ?thesis using 3 J(1) by (auto simp: marks_invalid_def)
    qed
  qed
  then show ?thesis unfolding inherited_def by blast
qed

lemma pending_update:
  assumes pen: "pending I r ((k, a) # L)" and J: "J = I(k \<mapsto> j)" "same_shape I J" and ok: "step_ok I k L j"
  shows "pending J r L"
proof -
  have wf: "wf_tree I r" by (rule pending_facts(1) [OF pen])
  have "closed_up J L" using closed_up_tail [OF pen] unfolding closed_up_def same_shape_parent [OF J(2)] .
  moreover have "marks_ok J"
  proof -
    have old: "marks_ok I" using pen unfolding pending_def by blast
    have new: "fi_is_duplicate_confirmed j \<longrightarrow> fi_latest_invalid_ancestor j = None" "\<forall>x. fi_latest_invalid_ancestor j = Some x \<longrightarrow> x \<le> fst k"
      "desc I k (fi_best_slot j)" using ok unfolding step_ok_def by blast+
    have "(confirmed J x \<longrightarrow> invalid J x = None) \<and> (\<forall>a. invalid J x = Some a \<longrightarrow> a \<le> fst x) \<and> desc J x (fi_best_slot (node J x))" if "x \<in> dom I" for x
      using old new that unfolding marks_ok_def same_shape_desc [OF J(2)] by (cases "x = k") (simp_all add: J(1))
    then show ?thesis unfolding marks_ok_def same_shape_dom [OF J(2)] by blast
  qed
  moreover have "node_ok J x" if x: "x \<in> dom J" "(x, Aggregate) \<notin> set L" for x
  proof (cases "x = k")
    case True
    then show ?thesis using ok x J(1) unfolding step_ok_def by simp
  next
    case False
    have "x \<in> dom I" using x(1) same_shape_dom [OF J(2)] by simp
    then have "node_ok I x" using pen x(2) False unfolding pending_def by simp
    moreover have "k \<notin> children I x"
    proof
      assume "k \<in> children I x"
      then show False using parent_of_child [OF wf] pending_facts(4) [OF pen] x(2) by blast
    qed
    ultimately show ?thesis using node_ok_cong [of J x I] False same_shape_children [OF J(2)] J(1) by auto
  qed
  moreover have "marks_invalid L \<longrightarrow> (\<forall>k s. (k, MarkValid s) \<notin> set L)"
    using pen unfolding pending_def marks_invalid_def by (meson list.set_intros(2))
  ultimately show ?thesis
    using same_shape_wf [OF J(2) wf] pending_facts(2) [OF pen] step_invalid_ok [OF assms] step_inherited [OF assms] unfolding pending_def by blast
qed


lemma head_facts:
  assumes pen: "pending I r ((k, a) # L)" and i: "I k = Some i"
  shows "fi_is_duplicate_confirmed i \<Longrightarrow> fi_latest_invalid_ancestor i = None"
    and "fi_latest_invalid_ancestor i = Some x \<Longrightarrow> x \<le> fst k"
    and "desc I k (fi_best_slot i)"
    and "(k, Aggregate) \<notin> set ((k, a) # L) \<Longrightarrow> node_ok I k"
    and "parent_of I k = Some p \<Longrightarrow> (p, MarkInvalid s) \<in> set L \<Longrightarrow> (k, MarkInvalid s) \<in> set ((k, a) # L) \<or> (\<exists>b. fi_latest_invalid_ancestor i = Some b \<and> s \<le> b)"
    and "(k, MarkInvalid s) \<in> set ((k, a) # L) \<Longrightarrow> \<not> fi_is_duplicate_confirmed i"
    and "c \<in> children I k \<Longrightarrow> fi_latest_invalid_ancestor i = Some x \<Longrightarrow>
      (\<exists>b. invalid I c = Some b \<and> x \<le> b) \<or> (\<exists>s. (k, MarkValid s) \<in> set ((k, a) # L) \<and> x \<le> s) \<or>
      (confirmed I c \<and> (k, Aggregate) \<in> set ((k, a) # L) \<and> \<not> marks_invalid ((k, a) # L))"
    and "parent_of I k = Some p \<Longrightarrow> invalid I p = Some x \<Longrightarrow>
      (\<exists>b. fi_latest_invalid_ancestor i = Some b \<and> x \<le> b) \<or> (\<exists>s. (p, MarkValid s) \<in> set L \<and> x \<le> s) \<or> (fi_is_duplicate_confirmed i \<and> \<not> marks_invalid ((k, a) # L))"
proof -
  have wf: "wf_tree I r" by (rule pending_facts(1) [OF pen])
  have k: "k \<in> dom I" "node I k = i" using i by auto
  have m: "marks_ok I" and v: "invalid_ok I ((k, a) # L)" and h: "inherited I ((k, a) # L)" and n: "\<forall>k' \<in> dom I. (k', Aggregate) \<notin> set ((k, a) # L) \<longrightarrow> node_ok I k'"
    using pen unfolding pending_def by blast+
  show "fi_latest_invalid_ancestor i = None" if "fi_is_duplicate_confirmed i" using m k that unfolding marks_ok_def by metis
  show "x \<le> fst k" if "fi_latest_invalid_ancestor i = Some x" using m k that unfolding marks_ok_def by metis
  show "desc I k (fi_best_slot i)" using m k unfolding marks_ok_def by metis
  show "node_ok I k" if "(k, Aggregate) \<notin> set ((k, a) # L)" using n k(1) that by blast
  show "\<not> fi_is_duplicate_confirmed i" if "(k, MarkInvalid s) \<in> set ((k, a) # L)" using v k that unfolding invalid_ok_def by metis
  show "(\<exists>b. invalid I c = Some b \<and> x \<le> b) \<or> (\<exists>s. (k, MarkValid s) \<in> set ((k, a) # L) \<and> x \<le> s) \<or>
      (confirmed I c \<and> (k, Aggregate) \<in> set ((k, a) # L) \<and> \<not> marks_invalid ((k, a) # L))"
    if "c \<in> children I k" "fi_latest_invalid_ancestor i = Some x" using h k that unfolding inherited_def by blast
  assume p: "parent_of I k = Some p"
  then have c: "k \<in> children I p" and pd: "p \<in> dom I" using wf_parent [OF wf] by auto
  have "p \<noteq> k" using wf_child_less [OF wf c] by auto
  show "(k, MarkInvalid s) \<in> set ((k, a) # L) \<or> (\<exists>b. fi_latest_invalid_ancestor i = Some b \<and> s \<le> b)" if "(p, MarkInvalid s) \<in> set L"
    using v pd c k that unfolding invalid_ok_def by (metis list.set_intros(2))
  assume "invalid I p = Some x"
  then have "(\<exists>b. fi_latest_invalid_ancestor i = Some b \<and> x \<le> b) \<or> (\<exists>s. (p, MarkValid s) \<in> set ((k, a) # L) \<and> x \<le> s) \<or>
      (fi_is_duplicate_confirmed i \<and> (p, Aggregate) \<in> set ((k, a) # L) \<and> \<not> marks_invalid ((k, a) # L))"
    using h c k unfolding inherited_def by metis
  then show "(\<exists>b. fi_latest_invalid_ancestor i = Some b \<and> x \<le> b) \<or> (\<exists>s. (p, MarkValid s) \<in> set L \<and> x \<le> s) \<or> (fi_is_duplicate_confirmed i \<and> \<not> marks_invalid ((k, a) # L))"
    using \<open>p \<noteq> k\<close> by auto
qed

lemma marks_invalid_Cons: "\<not> marks_invalid ((k, a) # L) \<Longrightarrow> \<not> marks_invalid L"
  by (auto simp: marks_invalid_def)

text \<open>Changing the stake of a node keeps its agreement with its children.\<close>

lemma stake_node_ok:
  assumes "node_ok I k" "I k = Some i" "k \<notin> children I k" "j = i\<lparr>fi_stake_voted_at := fi_stake_voted_at i + x, fi_stake_voted_subtree := fi_stake_voted_subtree i + x\<rparr>"
  shows "node_ok (I(k \<mapsto> j)) k"
proof -
  let ?J = "I(k \<mapsto> j)"
  have ch: "children ?J k = children I k" using assms(2,4) by (simp add: children_def)
  have eq: "\<forall>y \<in> children I k. ?J y = I y" using assms(3) by auto
  note h = heaviest_of_cong [OF eq] and d = deepest_of_cong [OF eq]
  have in_h: "heaviest_of I (children I k) c \<Longrightarrow> c \<noteq> k" and in_d: "deepest_of I (children I k) c \<Longrightarrow> c \<noteq> k" for c
    using assms(3) by (auto simp: heaviest_of_def deepest_of_def)
  have sum: "(\<Sum>c \<in> children I k. weight ?J c) = (\<Sum>c \<in> children I k. weight I c)" using eq by (intro sum.cong) auto
  have "stake_ok ?J k" using assms(1,2,4) unfolding node_ok_def stake_ok_def ch sum by simp
  moreover have "best_ok ?J k" if "best_ok I k"
    using that eq in_h assms(2,4) unfolding best_ok_def ch h by (auto split: if_splits)
  moreover have "deep_ok ?J k"
  proof -
    have "deep_ok I k" using assms(1) by (simp add: node_ok_def)
    then show ?thesis using in_d assms(2,4) unfolding deep_ok_def ch d by (auto split: if_splits)
  qed
  moreover have "candidate ?J k \<longleftrightarrow> candidate I k" "confirmed ?J k \<longleftrightarrow> confirmed I k" using assms(2,4) by (simp_all add: fi_is_candidate_def)
  ultimately show ?thesis using assms(1) eq unfolding node_ok_def ch by auto
qed

lemma pending_stake:
  assumes pen: "pending I r ((k, a) # L)" and a: "\<And>s. a \<noteq> MarkValid s" "\<And>s. a \<noteq> MarkInvalid s" "a \<noteq> Aggregate"
    and i: "I k = Some i" and j: "j = i\<lparr>fi_stake_voted_at := fi_stake_voted_at i + x, fi_stake_voted_subtree := fi_stake_voted_subtree i + x\<rparr>"
  shows "pending (I(k \<mapsto> j)) r L \<and> same_shape I (I(k \<mapsto> j))"
proof -
  have shape: "same_shape I (I(k \<mapsto> j))" by (rule same_shape_update [of I k i, OF i]) (simp_all add: j)
  have wf: "wf_tree I r" by (rule pending_facts(1) [OF pen])
  have self: "k \<notin> children I k" using wf_child_less [OF wf, of k k] by auto
  note hf = head_facts [OF pen i]
  have same: "fi_latest_invalid_ancestor j = fi_latest_invalid_ancestor i" "fi_is_duplicate_confirmed j = fi_is_duplicate_confirmed i" "fi_best_slot j = fi_best_slot i"
    by (simp_all add: j)
  have tail: "(k', MarkValid s) \<in> set ((k, a) # L) \<longleftrightarrow> (k', MarkValid s) \<in> set L" "(k', MarkInvalid s) \<in> set ((k, a) # L) \<longleftrightarrow> (k', MarkInvalid s) \<in> set L"
    "(k', Aggregate) \<in> set ((k, a) # L) \<longleftrightarrow> (k', Aggregate) \<in> set L" "marks_invalid ((k, a) # L) \<longleftrightarrow> marks_invalid L" for k' s
    using a by (auto simp: marks_invalid_def)
  have "step_ok I k L j"
    using hf(1,2,3,5,6,7,8) stake_node_ok [OF hf(4) i self j] unfolding step_ok_def same tail by blast
  from pending_update [OF pen refl shape this] shape show ?thesis by blast
qed


lemma pending_closed:
  assumes pen: "pending I r ((k, a) # L)" and a: "a = MarkValid s \<or> a = MarkInvalid s"
  shows "(k, Aggregate) \<in> set L" "s \<le> fst k" "a = MarkValid s \<Longrightarrow> parent_of I k = Some p \<Longrightarrow> (p, MarkValid s) \<in> set L \<or> fst k = s"
proof -
  have up: "closed_up I ((k, a) # L)" using pen unfolding pending_def by blast
  have "(k, Aggregate) \<in> set ((k, a) # L) \<and> s \<le> fst k" using up a unfolding closed_up_def by auto
  then show "(k, Aggregate) \<in> set L" "s \<le> fst k" using a by auto
  assume "a = MarkValid s" and p: "parent_of I k = Some p"
  then have "(p, MarkValid s) \<in> set ((k, a) # L) \<or> fst k = s" using up unfolding closed_up_def by (meson list.set_intros(1))
  moreover have "p \<noteq> k" using wf_parent [OF pending_facts(1) [OF pen] p] wf_child_less [OF pending_facts(1) [OF pen], of k p] by auto
  ultimately show "(p, MarkValid s) \<in> set L \<or> fst k = s" by auto
qed

lemma pending_mark_invalid:
  assumes pen: "pending I r ((k, MarkInvalid s) # L)" and i: "I k = Some i" and u: "update_with_newly_invalid_ancestor i s = Some j"
  shows "pending (I(k \<mapsto> j)) r L \<and> same_shape I (I(k \<mapsto> j))"
proof -
  note hf = head_facts [OF pen i] and cl = pending_closed [OF pen disjI2 [OF refl]]
  have conf: "\<not> fi_is_duplicate_confirmed i" by (rule hf(6) [of s]) simp
  have j: "j = (if (case fi_latest_invalid_ancestor i of Some a \<Rightarrow> s > a | None \<Rightarrow> True) then i\<lparr>fi_latest_invalid_ancestor := Some s\<rparr> else i)"
    using u conf by (simp add: update_with_newly_invalid_ancestor_def)
  have shape: "same_shape I (I(k \<mapsto> j))" by (rule same_shape_update [of I k i, OF i]) (simp_all add: j)
  have up: "\<exists>b. fi_latest_invalid_ancestor j = Some b \<and> s \<le> b" "fi_latest_invalid_ancestor i = Some x \<Longrightarrow> \<exists>b. fi_latest_invalid_ancestor j = Some b \<and> x \<le> b"
    "fi_latest_invalid_ancestor j = Some x \<Longrightarrow> x = s \<or> fi_latest_invalid_ancestor i = Some x" for x
    by (auto simp: j split: option.splits if_splits)
  have same: "fi_is_duplicate_confirmed j = fi_is_duplicate_confirmed i" "fi_best_slot j = fi_best_slot i" by (simp_all add: j)
  have mi: "marks_invalid ((k, MarkInvalid s) # L)" by (auto simp: marks_invalid_def)
  then have no_valid: "(k', MarkValid s') \<notin> set ((k, MarkInvalid s) # L)" for k' s' using pen unfolding pending_def by blast
  have kid: "\<exists>b. invalid I c = Some b \<and> s \<le> b" if c: "c \<in> children I k" for c
  proof -
    have "invalid_ok I ((k, MarkInvalid s) # L)" using pen unfolding pending_def by blast
    then have "(c, MarkInvalid s) \<in> set ((k, MarkInvalid s) # L) \<or> (\<exists>b. invalid I c = Some b \<and> s \<le> b)"
      using c children_dom [OF c] unfolding invalid_ok_def by (meson list.set_intros(1))
    then show ?thesis using children_above [OF pen c] by blast
  qed
  have "\<exists>b. invalid I c = Some b \<and> x \<le> b" if c: "c \<in> children I k" and x: "fi_latest_invalid_ancestor j = Some x" for c x
    using up(3) [OF x] kid [OF c] hf(7) [OF c, of x] mi no_valid by blast
  moreover have "x \<le> fst k" if "fi_latest_invalid_ancestor j = Some x" for x using up(3) [OF that] cl(2) hf(2) [of x] by blast
  moreover have "(k, MarkInvalid s') \<in> set L \<or> (\<exists>b. fi_latest_invalid_ancestor j = Some b \<and> s' \<le> b)" if "parent_of I k = Some p" "(p, MarkInvalid s') \<in> set L" for p s'
    using hf(5) [OF that] up(1) up(2) order_trans by fastforce
  moreover have "\<exists>b. fi_latest_invalid_ancestor j = Some b \<and> x \<le> b" if "parent_of I k = Some p" "invalid I p = Some x" for p x
    using hf(8) [OF that] no_valid mi up(2) order_trans by (metis list.set_intros(2))
  ultimately have "step_ok I k L j" using hf(3) conf cl(1) unfolding step_ok_def same by blast
  from pending_update [OF pen refl shape this] shape show ?thesis by blast
qed

lemma pending_mark_valid:
  assumes pen: "pending I r ((k, MarkValid s) # L)" and i: "I k = Some i"
  shows "pending (mark_fork_valid I k s) r L \<and> same_shape I (mark_fork_valid I k s)"
proof -
  note hf = head_facts [OF pen i] and cl = pending_closed [OF pen disjI1 [OF refl]]
  define j where "j = (let info = update_with_newly_valid_ancestor i s in if fst k = s then info\<lparr>fi_is_duplicate_confirmed := True\<rparr> else info)"
  have J: "mark_fork_valid I k s = I(k \<mapsto> j)" using i by (simp add: mark_fork_valid_def j_def Let_def)
  have shape: "same_shape I (I(k \<mapsto> j))" by (rule same_shape_update [of I k i, OF i]) (simp_all add: j_def Let_def update_with_newly_valid_ancestor_def split: option.split)
  have inval: "fi_latest_invalid_ancestor j = (case fi_latest_invalid_ancestor i of Some a \<Rightarrow> if a \<le> s then None else Some a | None \<Rightarrow> None)"
    and conf: "fi_is_duplicate_confirmed j \<longleftrightarrow> fi_is_duplicate_confirmed i \<or> fst k = s" and best: "fi_best_slot j = fi_best_slot i"
    by (auto simp: j_def Let_def update_with_newly_valid_ancestor_def split: option.split)
  have no: "\<not> marks_invalid ((k, MarkValid s) # L)" using pen unfolding pending_def by (meson list.set_intros(1))
  then have noL: "\<not> marks_invalid L" "(k', MarkInvalid s') \<notin> set L" for k' s' by (auto simp: marks_invalid_def)
  have jx: "fi_latest_invalid_ancestor j = Some x \<longleftrightarrow> fi_latest_invalid_ancestor i = Some x \<and> s < x" for x by (auto simp: inval split: option.splits if_splits)
  have "fi_latest_invalid_ancestor j = None" if "fi_is_duplicate_confirmed j"
    using that hf(1,2) conf by (cases "fi_latest_invalid_ancestor i") (auto simp: inval)
  moreover have "(\<exists>b. invalid I c = Some b \<and> x \<le> b) \<or> (\<exists>s. (k, MarkValid s) \<in> set L \<and> x \<le> s) \<or> (confirmed I c \<and> (k, Aggregate) \<in> set L \<and> \<not> marks_invalid L)"
    if c: "c \<in> children I k" and x: "fi_latest_invalid_ancestor j = Some x" for c x
    using hf(7) [OF c, of x] x noL cl(1) unfolding jx by auto
  moreover have "(\<exists>b. fi_latest_invalid_ancestor j = Some b \<and> x \<le> b) \<or> (\<exists>s. (p, MarkValid s) \<in> set L \<and> x \<le> s) \<or> (fi_is_duplicate_confirmed j \<and> \<not> marks_invalid L)"
    if p: "parent_of I k = Some p" and x: "invalid I p = Some x" for p x
  proof -
    consider b where "fi_latest_invalid_ancestor i = Some b" "x \<le> b" | "\<exists>s. (p, MarkValid s) \<in> set L \<and> x \<le> s" | "fi_is_duplicate_confirmed i"
      using hf(8) [OF p x] by blast
    then show ?thesis
    proof cases
      case 1
      then show ?thesis using cl(3) [OF refl p] noL(1) conf order_trans [of x b s] by (cases "b \<le> s") (auto simp: jx)
    qed (use noL conf in blast)+
  qed
  ultimately have "step_ok I k L j" using hf(2,3) noL cl(1) unfolding step_ok_def best by (simp add: jx)
  from pending_update [OF pen refl shape this] shape show ?thesis unfolding J by blast
qed


lemma if_True_cases: "c \<Longrightarrow> a \<Longrightarrow> if c then a else b"
  by simp

lemma if_False_cases: "\<not> c \<Longrightarrow> b \<Longrightarrow> if c then a else b"
  by simp

text \<open>An aggregated node agrees with its children.\<close>

lemma aggregate_node_ok:
  assumes ag: "aggregate_ok I k (fi_stake_voted_at i) (children I k) ag" and i: "I k = Some i" and self: "k \<notin> children I k"
  shows "node_ok (I(k \<mapsto> aggregate_result ag i)) k"
proof -
  let ?j = "aggregate_result ag i"
  let ?J = "I(k \<mapsto> ?j)"
  have ch: "children ?J k = children I k" using i by (simp add: children_def aggregate_result_def set_duplicate_confirmed_def)
  have eq: "\<forall>y \<in> children I k. ?J y = I y" using self by auto
  note h = heaviest_of_cong [OF eq] and d = deepest_of_cong [OF eq]
  have in_h: "heaviest_of I (children I k) c \<Longrightarrow> c \<noteq> k" and in_d: "deepest_of I (children I k) c \<Longrightarrow> c \<noteq> k" for c
    using self by (auto simp: heaviest_of_def deepest_of_def)
  have sum: "(\<Sum>c \<in> children I k. weight ?J c) = (\<Sum>c \<in> children I k. weight I c)" using eq by (intro sum.cong) auto
  have "stake_ok ?J k" using ag unfolding stake_ok_def ch sum by (simp add: aggregate_ok_def aggregate_result_def set_duplicate_confirmed_def)
  moreover have "best_ok ?J k"
  proof (cases "\<exists>c \<in> children I k. candidate I c")
    case True
    then have "heaviest_of I (children I k) (ag_best_child ag)" "ag_best_slot ag = fi_best_slot (node I (ag_best_child ag))" using ag by (simp_all add: aggregate_ok_def)
    moreover have "\<exists>c \<in> children I k. candidate ?J c" using True eq by metis
    ultimately show ?thesis using in_h unfolding best_ok_def ch h by (intro if_True_cases exI [of _ "ag_best_child ag"]) (simp_all add: aggregate_result_def)
  next
    case False
    then have "ag_best_slot ag = k" using ag by (simp add: aggregate_ok_def)
    moreover have "\<not> (\<exists>c \<in> children I k. candidate ?J c)" using False eq by metis
    ultimately show ?thesis unfolding best_ok_def ch by (simp add: aggregate_result_def)
  qed
  moreover have "deep_ok ?J k"
  proof (cases "children I k = {}")
    case True
    then show ?thesis using ag unfolding deep_ok_def ch by (simp add: aggregate_ok_def aggregate_result_def)
  next
    case False
    then have "deepest_of I (children I k) (ag_deepest_child ag)" "ag_deepest_height ag = depth I (ag_deepest_child ag)"
      "ag_deepest_slot ag = fi_deepest_slot (node I (ag_deepest_child ag))" using ag by (simp_all add: aggregate_ok_def)
    then show ?thesis using in_d False unfolding deep_ok_def ch d by (intro if_False_cases exI [of _ "ag_deepest_child ag"]) (simp_all add: aggregate_result_def)
  qed
  moreover have "confirmed ?J k" if "c \<in> children I k" "confirmed ?J c" for c
  proof -
    have "confirmed I c" using that eq by metis
    then have "ag_confirmed ag" using ag that(1) unfolding aggregate_ok_def by blast
    then show ?thesis by (simp add: aggregate_result_def set_duplicate_confirmed_def)
  qed
  ultimately show ?thesis unfolding node_ok_def ch by blast
qed

lemma aggregate_slot_ok:
  assumes wf: "wf_tree I r" and i: "I k = Some i"
  shows "\<exists>ag. aggregate_slot I k = Some (I(k \<mapsto> aggregate_result ag i)) \<and> aggregate_ok I k (fi_stake_voted_at i) (children I k) ag"
proof -
  have ch: "fi_children i = children I k" using i by (simp add: children_def)
  have fin: "finite (children I k)" by (rule wf_children_finite [OF wf])
  have sub: "children I k \<subseteq> dom I" and self: "k \<notin> children I k" using wf_child [OF wf, of _ k] wf_child [OF wf, of k k] by blast+
  have "\<exists>ag. aggregate_children I k (sorted_list_of_set (children I k)) (aggregate_init k (fi_stake_voted_at i)) = Some ag \<and>
      aggregate_ok I k (fi_stake_voted_at i) ({} \<union> set (sorted_list_of_set (children I k))) ag"
    by (rule aggregate_children_ok [OF aggregate_init_ok]) (use fin sub self in auto)
  then show ?thesis using i fin by (auto simp: aggregate_slot_def ch)
qed

lemma pending_aggregate:
  assumes pen: "pending I r ((k, Aggregate) # L)" and i: "I k = Some i" and ag: "aggregate_ok I k (fi_stake_voted_at i) (children I k) ag"
    and j: "j = aggregate_result ag i"
  shows "pending (I(k \<mapsto> j)) r L \<and> same_shape I (I(k \<mapsto> j))"
proof -
  note hf = head_facts [OF pen i] and wf = pending_facts(1) [OF pen]
  have last: "(k, b) \<notin> set L" for b by (rule pending_facts(3) [OF pen refl])
  have self: "k \<notin> children I k" using wf_child_less [OF wf, of k k] by auto
  have m: "marks_ok I" using pen unfolding pending_def by blast
  have shape: "same_shape I (I(k \<mapsto> j))" by (rule same_shape_update [of I k i, OF i]) (simp_all add: j aggregate_result_def set_duplicate_confirmed_def)
  have some: "ag_confirmed ag \<longleftrightarrow> (\<exists>c \<in> children I k. confirmed I c)" using ag by (simp add: aggregate_ok_def)
  have conf: "fi_is_duplicate_confirmed j \<longleftrightarrow> ag_confirmed ag \<or> fi_is_duplicate_confirmed i"
    and inval: "fi_latest_invalid_ancestor j = (if ag_confirmed ag then None else fi_latest_invalid_ancestor i)"
    and best: "fi_best_slot j = ag_best_slot ag" by (simp_all add: j aggregate_result_def set_duplicate_confirmed_def)
  have quiet: "\<not> marks_invalid ((k, Aggregate) # L)" if ac: "ag_confirmed ag" and b: "fi_latest_invalid_ancestor i = Some b" for b
  proof -
    obtain c where c: "c \<in> children I k" "confirmed I c" using some ac by blast
    then have "invalid I c = None" using m wf_child [OF wf c(1)] unfolding marks_ok_def by blast
    then show ?thesis using hf(7) [OF c(1) b] last by auto
  qed
  have "desc I k (ag_best_slot ag)"
  proof (cases "\<exists>c \<in> children I k. candidate I c")
    case True
    define c where "c = ag_best_child ag"
    have c: "c \<in> children I k" "ag_best_slot ag = fi_best_slot (node I c)" using ag True unfolding aggregate_ok_def heaviest_of_def c_def by simp_all
    then have "desc I c (fi_best_slot (node I c))" using m wf_child [OF wf c(1)] unfolding marks_ok_def by blast
    then show ?thesis using c by (auto intro: desc_step)
  qed (use ag in \<open>simp add: aggregate_ok_def desc_self\<close>)
  moreover have "\<exists>b. fi_latest_invalid_ancestor j = Some b \<and> s \<le> b" if p: "parent_of I k = Some p" "(p, MarkInvalid s) \<in> set L" for p s
  proof -
    obtain b where b: "fi_latest_invalid_ancestor i = Some b" "s \<le> b" using hf(5) [OF p] last by auto
    have "\<not> ag_confirmed ag" using quiet b(1) p(2) by (auto simp: marks_invalid_def)
    then show ?thesis using b by (simp add: inval)
  qed
  moreover have "\<exists>b. invalid I c = Some b \<and> x \<le> b" if c: "c \<in> children I k" and "fi_latest_invalid_ancestor j = Some x" for c x
    using that hf(7) [OF c, of x] last some by (auto simp: inval split: if_splits)
  moreover have "(\<exists>b. fi_latest_invalid_ancestor j = Some b \<and> x \<le> b) \<or> (\<exists>s. (p, MarkValid s) \<in> set L \<and> x \<le> s) \<or> (fi_is_duplicate_confirmed j \<and> \<not> marks_invalid L)"
    if "parent_of I k = Some p" "invalid I p = Some x" for p x
    using hf(8) [OF that] quiet marks_invalid_Cons [of k Aggregate L] conf by (auto simp: inval)
  moreover have "fi_latest_invalid_ancestor j = None" if "fi_is_duplicate_confirmed j" using that hf(1) by (auto simp: inval conf)
  moreover have "x \<le> fst k" if "fi_latest_invalid_ancestor j = Some x" for x using that hf(2) by (simp add: inval split: if_splits)
  ultimately have "step_ok I k L j" using last aggregate_node_ok [OF ag i self] unfolding step_ok_def best j [symmetric] by blast
  from pending_update [OF pen refl shape this] shape show ?thesis by blast
qed


section \<open>A batch\<close>

text \<open>An operation on a block that is not in the tree does nothing.\<close>

lemma pending_skip:
  assumes pen: "pending I r ((k, a) # L)" and k: "I k = None"
  shows "pending I r L"
proof -
  have no: "k \<notin> dom I" "children I k = {}" using k by (auto simp: children_def)
  have above: "c \<noteq> k" if "c \<in> children I p" for c p using wf_child [OF pending_facts(1) [OF pen] that] no(1) by auto
  have below: "p \<noteq> k" if "c \<in> children I p" for c p using that no(2) by auto
  have old: "invalid_ok I ((k, a) # L)" "inherited I ((k, a) # L)" "marks_invalid ((k, a) # L) \<longrightarrow> (\<forall>x s. (x, MarkValid s) \<notin> set ((k, a) # L))"
    "marks_ok I" "\<forall>x \<in> dom I. (x, Aggregate) \<notin> set ((k, a) # L) \<longrightarrow> node_ok I x" using pen unfolding pending_def by blast+
  have "\<not> confirmed I x \<and> (\<forall>c \<in> children I x. (c, MarkInvalid s) \<in> set L \<or> (\<exists>b. invalid I c = Some b \<and> s \<le> b))"
    if x: "(x, MarkInvalid s) \<in> set L" "x \<in> dom I" for x s
    using old(1) x above unfolding invalid_ok_def by (metis Pair_inject set_ConsD list.set_intros(2))
  moreover have "(\<exists>b. invalid I c = Some b \<and> x \<le> b) \<or> (\<exists>s. (p, MarkValid s) \<in> set L \<and> x \<le> s) \<or> (confirmed I c \<and> (p, Aggregate) \<in> set L \<and> \<not> marks_invalid L)"
    if c: "c \<in> children I p" and x: "invalid I p = Some x" for p c x
  proof -
    have "(\<exists>b. invalid I c = Some b \<and> x \<le> b) \<or> (\<exists>s. (p, MarkValid s) \<in> set ((k, a) # L) \<and> x \<le> s) \<or>
        (confirmed I c \<and> (p, Aggregate) \<in> set ((k, a) # L) \<and> \<not> marks_invalid ((k, a) # L))" using old(2) c x unfolding inherited_def by blast
    then show ?thesis using below [OF c] marks_invalid_Cons [of k a L] by auto
  qed
  moreover have "node_ok I x" if "x \<in> dom I" "(x, Aggregate) \<notin> set L" for x
  proof -
    have "x \<noteq> k" using that(1) no(1) by auto
    then show ?thesis using old(5) that by simp
  qed
  moreover have "marks_invalid L \<longrightarrow> (\<forall>x s. (x, MarkValid s) \<notin> set L)" using old(3) unfolding marks_invalid_def by (meson list.set_intros(2))
  ultimately show ?thesis
    using pending_facts(1,2) [OF pen] closed_up_tail [OF pen] old(4) unfolding pending_def invalid_ok_def inherited_def by blast
qed

text \<open>One operation succeeds, and keeps what is pending.\<close>

lemma pending_operation:
  assumes pen: "pending I r ((k, a) # L)"
  shows "\<exists>J. apply_operation k a I = Some J \<and> pending J r L \<and> same_shape I J"
proof (cases "I k")
  case None
  have "apply_operation k a I = Some I"
    using None by (cases a) (simp_all add: mark_fork_valid_def mark_fork_invalid_def aggregate_slot_def add_slot_stake_def subtract_slot_stake_def)
  then show ?thesis using pending_skip [OF pen None] by simp
next
  case (Some i)
  show ?thesis
  proof (cases a)
    case (Add x)
    have "pending (I(k \<mapsto> i\<lparr>fi_stake_voted_at := fi_stake_voted_at i + x, fi_stake_voted_subtree := fi_stake_voted_subtree i + x\<rparr>)) r L \<and>
        same_shape I (I(k \<mapsto> i\<lparr>fi_stake_voted_at := fi_stake_voted_at i + x, fi_stake_voted_subtree := fi_stake_voted_subtree i + x\<rparr>))"
      by (rule pending_stake [OF pen _ _ _ Some refl]) (simp_all add: Add)
    then show ?thesis using Add Some by (simp add: add_slot_stake_def)
  next
    case (Subtract x)
    have "pending (I(k \<mapsto> i\<lparr>fi_stake_voted_at := fi_stake_voted_at i + - x, fi_stake_voted_subtree := fi_stake_voted_subtree i + - x\<rparr>)) r L \<and>
        same_shape I (I(k \<mapsto> i\<lparr>fi_stake_voted_at := fi_stake_voted_at i + - x, fi_stake_voted_subtree := fi_stake_voted_subtree i + - x\<rparr>))"
      by (rule pending_stake [OF pen _ _ _ Some refl]) (simp_all add: Subtract)
    then show ?thesis using Subtract Some by (simp add: subtract_slot_stake_def)
  next
    case (MarkValid s)
    have p: "pending I r ((k, MarkValid s) # L)" using pen MarkValid by simp
    show ?thesis using pending_mark_valid [OF p Some] MarkValid by simp
  next
    case (MarkInvalid s)
    have p: "pending I r ((k, MarkInvalid s) # L)" using pen MarkInvalid by simp
    have "\<not> fi_is_duplicate_confirmed i" by (rule head_facts(6) [OF p Some, of s]) simp
    then obtain j where j: "update_with_newly_invalid_ancestor i s = Some j" by (simp add: update_with_newly_invalid_ancestor_def)
    show ?thesis using pending_mark_invalid [OF p Some j] MarkInvalid Some j by (simp add: mark_fork_invalid_def)
  next
    case Aggregate
    have p: "pending I r ((k, Aggregate) # L)" using pen Aggregate by simp
    obtain ag where ag: "aggregate_slot I k = Some (I(k \<mapsto> aggregate_result ag i))" "aggregate_ok I k (fi_stake_voted_at i) (children I k) ag"
      using aggregate_slot_ok [OF pending_facts(1) [OF pen] Some] by blast
    show ?thesis using pending_aggregate [OF p Some ag(2) refl] ag(1) Aggregate by simp
  qed
qed

text \<open>Processing ends with every node in agreement, and never fails.\<close>

lemma pending_all:
  "pending I r L \<Longrightarrow> \<exists>J. apply_operations L I = Some J \<and> tree_ok J r \<and> same_shape I J"
proof (induction L arbitrary: I)
  case Nil
  then show ?case using pending_done by simp
next
  case (Cons o' L)
  obtain k a where o': "o' = (k, a)" by (cases o')
  obtain J where J: "apply_operation k a I = Some J" "pending J r L" "same_shape I J" using pending_operation Cons.prems o' by blast
  obtain K where "apply_operations L J = Some K" "tree_ok K r" "same_shape J K" using Cons.IH [OF J(2)] by blast
  then show ?case using J o' same_shape_trans [OF J(3)] by simp
qed

end
