(* ===== verification/Fork_Votes.thy ===== *)
theory Fork_Votes
  imports Fork_Process
begin

text \<open>
  Votes in the fork choice: the operations that a batch of votes generates, in the order in which they are processed, keep the tree in agreement and move
  the stake of every validator to the block of its latest vote.
\<close>

section \<open>Labelled operations\<close>

fun label_of :: "update_operation \<Rightarrow> update_label" where
  "label_of (Add x) = AddL"
| "label_of (MarkValid s) = MarkValidL s"
| "label_of (MarkInvalid s) = MarkInvalidL s"
| "label_of (Subtract x) = SubtractL"
| "label_of Aggregate = AggregateL"

definition labelled :: "'h update_operations \<Rightarrow> bool" where
  "labelled ops \<longleftrightarrow> finite (dom ops) \<and> (\<forall>k l a. ops (k, l) = Some a \<longrightarrow> label_of a = l)"

lemma labelled_finite: "labelled ops \<Longrightarrow> finite (dom ops)"
  by (simp add: labelled_def)

lemma aggregate_least: "\<not> l < AggregateL"
  by (cases l) (simp_all add: less_update_label_def)

lemma labelled_aggregate: "labelled ops \<Longrightarrow> (k, AggregateL) \<in> dom ops \<longleftrightarrow> ops (k, AggregateL) = Some Aggregate"
proof -
  assume "labelled ops"
  then have "a = Aggregate" if "ops (k, AggregateL) = Some a" for a
    using that unfolding labelled_def by (cases a) (metis label_of.simps update_label.distinct)+
  then show ?thesis by auto
qed

lemma operation_list_set:
  assumes "labelled ops"
  shows "(k, a) \<in> set (operation_list ops) \<longleftrightarrow> ops (k, label_of a) = Some a"
proof
  assume "(k, a) \<in> set (operation_list ops)"
  then obtain x where x: "x \<in> dom ops" "(k, a) = (fst x, the (ops x))" using assms unfolding operation_list_def labelled_def by auto
  obtain l where l: "x = (k, l)" using x(2) by (cases x) simp
  then have o: "ops (k, l) = Some a" using x by auto
  then have "label_of a = l" using assms unfolding labelled_def by blast
  then show "ops (k, label_of a) = Some a" using o by simp
next
  assume o: "ops (k, label_of a) = Some a"
  then have d: "(k, label_of a) \<in> set (rev (sorted_list_of_set (dom ops)))" using labelled_finite [OF assms] by (simp add: domI)
  have "(\<lambda>l. (fst l, the (ops l))) (k, label_of a) \<in> (\<lambda>l. (fst l, the (ops l))) ` set (rev (sorted_list_of_set (dom ops)))" using d by (rule imageI)
  then show "(k, a) \<in> set (operation_list ops)" unfolding operation_list_def set_map using o by (simp only: fst_conv option.sel)
qed

lemma operation_list_descending:
  assumes "labelled ops"
  shows "descending (operation_list ops)"
proof -
  have sorted: "sorted_wrt (\<lambda>x y. y < x) (rev (sorted_list_of_set (dom ops)))"
    by (simp add: sorted_wrt_rev)
  have "fst y < fst x \<or> (fst y = fst x \<and> the (ops x) \<noteq> Aggregate)" if "x \<in> dom ops" "y < x" for x y
  proof (rule disjCI)
    assume n: "\<not> (fst y = fst x \<and> the (ops x) \<noteq> Aggregate)"
    show "fst y < fst x"
    proof (rule ccontr)
      assume less: "\<not> fst y < fst x"
      have "fst y < fst x \<or> fst y \<le> fst x \<and> snd y < snd x" using that(2) less_prod_simp [of "fst y" "snd y" "fst x" "snd x"] by (metis prod.collapse)
      then have e: "fst y = fst x" "snd y < snd x" using less order.not_eq_order_implies_strict by blast+
      then have "ops (fst x, snd x) = Some Aggregate" using n that(1) by auto
      then have "snd x = AggregateL" using assms unfolding labelled_def by fastforce
      then show False using e(2) aggregate_least by simp
    qed
  qed
  then have "sorted_wrt (\<lambda>x y. fst y < fst x \<or> (fst y = fst x \<and> the (ops x) \<noteq> Aggregate)) (rev (sorted_list_of_set (dom ops)))"
    by (intro sorted_wrt_mono_rel [OF _ sorted]) (use assms in \<open>simp add: labelled_def\<close>)
  then show ?thesis unfolding descending_def operation_list_def by (simp add: sorted_wrt_map)
qed

section \<open>The effect on the stakes\<close>

fun delta :: "update_operation \<Rightarrow> u64" where
  "delta (Add x) = x"
| "delta (Subtract x) = - x"
| "delta _ = 0"

abbreviation stake_of :: "'h fork_map \<Rightarrow> 'h slot_hash_key \<Rightarrow> u64" where
  "stake_of I k \<equiv> fi_stake_voted_at (node I k)"

lemma apply_operation_stake:
  assumes "apply_operation k' a I = Some J" "k \<in> dom I"
  shows "stake_of J k = stake_of I k + (if k' = k then delta a else 0) \<and> k \<in> dom J"
proof -
  obtain i where i: "I k = Some i" using assms(2) by auto
  show ?thesis
  proof (cases "k' = k")
    case True
    then show ?thesis using assms(1) i
      by (cases a) (auto simp: mark_fork_valid_def mark_fork_invalid_def aggregate_slot_def add_slot_stake_def subtract_slot_stake_def
          update_with_newly_valid_ancestor_def update_with_newly_invalid_ancestor_def aggregate_result_def set_duplicate_confirmed_def Let_def split: option.splits if_splits)
  next
    case False
    then have "J k = I k" using assms(1)
      by (cases a) (auto simp: mark_fork_valid_def mark_fork_invalid_def aggregate_slot_def add_slot_stake_def subtract_slot_stake_def Let_def split: option.splits)
    then show ?thesis using False assms(2) by (simp add: dom_def)
  qed
qed

lemma apply_operations_stake:
  "apply_operations L I = Some J \<Longrightarrow> k \<in> dom I \<Longrightarrow> stake_of J k = stake_of I k + (\<Sum>(k', a) \<leftarrow> L. if k' = k then delta a else 0)"
proof (induction L arbitrary: I)
  case (Cons o' L)
  obtain k' a where o': "o' = (k', a)" by (cases o')
  obtain I' where I': "apply_operation k' a I = Some I'" "apply_operations L I' = Some J" using Cons.prems(1) o' by (auto split: option.splits)
  note s = apply_operation_stake [OF I'(1) Cons.prems(2)]
  show ?case using Cons.IH [OF I'(2)] s o' by (simp add: algebra_simps)
qed simp

text \<open>What a batch adds to the stake of a block.\<close>

definition gain :: "'h update_operations \<Rightarrow> 'h slot_hash_key \<Rightarrow> u64" where
  "gain ops k = (case ops (k, AddL) of Some a \<Rightarrow> delta a | None \<Rightarrow> 0) + (case ops (k, SubtractL) of Some a \<Rightarrow> delta a | None \<Rightarrow> 0)"

lemma operation_list_gain:
  assumes "labelled ops"
  shows "(\<Sum>(k', a) \<leftarrow> operation_list ops. if k' = k then delta a else 0) = gain ops k"
proof -
  have fin: "finite (dom ops)" using assms by (simp add: labelled_def)
  let ?f = "\<lambda>l. case ops l of Some a \<Rightarrow> delta a | None \<Rightarrow> 0"
  have zero: "?f (k, l) = 0" if "l \<noteq> AddL" "l \<noteq> SubtractL" for l
  proof (cases "ops (k, l)")
    case (Some a)
    then have "label_of a = l" using assms unfolding labelled_def by blast
    then show ?thesis using that Some by (cases a) auto
  qed simp
  have "(\<Sum>(k', a) \<leftarrow> operation_list ops. if k' = k then delta a else 0) = (\<Sum>l \<leftarrow> rev (sorted_list_of_set (dom ops)). if fst l = k then ?f l else 0)"
    unfolding operation_list_def map_map by (intro arg_cong [of _ _ sum_list] map_cong refl) (use fin in auto)
  also have "\<dots> = (\<Sum>l \<in> dom ops. if fst l = k then ?f l else 0)"
    using fin by (subst sum_list_distinct_conv_sum_set) simp_all
  also have "\<dots> = (\<Sum>l \<in> dom ops \<union> {(k, AddL), (k, SubtractL)}. if fst l = k then ?f l else 0)"
    using fin by (intro sum.mono_neutral_left) (auto simp: domIff)
  also have "\<dots> = (\<Sum>l \<in> {(k, AddL), (k, SubtractL)}. if fst l = k then ?f l else 0)"
  proof (rule sum.mono_neutral_right)
    show "\<forall>l \<in> (dom ops \<union> {(k, AddL), (k, SubtractL)}) - {(k, AddL), (k, SubtractL)}. (if fst l = k then ?f l else 0) = 0"
    proof
      fix l assume l: "l \<in> (dom ops \<union> {(k, AddL), (k, SubtractL)}) - {(k, AddL), (k, SubtractL)}"
      show "(if fst l = k then ?f l else 0) = 0"
      proof (cases "fst l = k")
        case True
        then have "l = (k, snd l)" by (cases l) simp
        moreover have "snd l \<noteq> AddL" "snd l \<noteq> SubtractL" using l calculation by auto
        ultimately show ?thesis using zero [of "snd l"] True by simp
      qed simp
    qed
  qed (use fin in auto)
  finally show ?thesis by (simp add: gain_def)
qed


section \<open>Closed batches\<close>

text \<open>Induction from the root to the leaves.\<close>

lemma parent_induct:
  assumes wf: "wf_tree I r" and step: "\<And>k. (\<And>p. parent_of I k = Some p \<Longrightarrow> P p) \<Longrightarrow> P k"
  shows "P k"
proof (induction "card {x \<in> dom I. fst x < fst k}" arbitrary: k rule: less_induct)
  case less
  show ?case
  proof (rule step)
    fix p assume "parent_of I k = Some p"
    then have p: "k \<in> children I p" "p \<in> dom I" using wf_parent [OF wf] by auto
    then have "{x \<in> dom I. fst x < fst p} \<subset> {x \<in> dom I. fst x < fst k}" using wf_child [OF wf p(1)] by force
    then have "card {x \<in> dom I. fst x < fst p} < card {x \<in> dom I. fst x < fst k}"
      using wf by (intro psubset_card_mono) (auto simp: wf_tree_def)
    then show "P p" by (rule less)
  qed
qed

text \<open>The ancestors of a block with an operation are aggregated, with the exception of some blocks.\<close>

definition up_closed :: "'h fork_map \<Rightarrow> 'h slot_hash_key set \<Rightarrow> 'h update_operations \<Rightarrow> bool" where
  "up_closed I X ops \<longleftrightarrow> (\<forall>k l p. (k, l) \<in> dom ops \<longrightarrow> k \<notin> X \<longrightarrow> parent_of I k = Some p \<longrightarrow> (p, AggregateL) \<in> dom ops)"

lemma up_closedD: "up_closed I X ops \<Longrightarrow> (k, l) \<in> dom ops \<Longrightarrow> k \<notin> X \<Longrightarrow> parent_of I k = Some p \<Longrightarrow> (p, AggregateL) \<in> dom ops"
  unfolding up_closed_def by blast

lemma labelled_update: "labelled ops \<Longrightarrow> label_of a = l \<Longrightarrow> labelled (ops((k, l) \<mapsto> a))"
  unfolding labelled_def by (auto split: if_splits)

text \<open>The walk along the ancestors may end at the first that is aggregated already.\<close>

lemma across_ok:
  assumes wf: "wf_tree I r"
  shows "labelled ops \<Longrightarrow> up_closed I {k} ops \<Longrightarrow>
    \<exists>ops'. insert_across_ancestors I None ops k = Some ops' \<and> labelled ops' \<and> up_closed I {} ops' \<and>
      (\<forall>x l. l \<noteq> AggregateL \<longrightarrow> ops' (x, l) = ops (x, l)) \<and> dom ops \<subseteq> dom ops'"
proof (induction k arbitrary: ops rule: parent_induct [OF wf])
  case (1 k)
  show ?case
  proof (cases "parent_of I k")
    case None
    have "up_closed I {} ops" unfolding up_closed_def
    proof (intro allI impI)
      fix x l p assume x: "(x, l) \<in> dom ops" "parent_of I x = Some p"
      then have "x \<noteq> k" using None by auto
      then show "(p, AggregateL) \<in> dom ops" using up_closedD [OF 1(3) x(1) _ x(2)] by simp
    qed
    moreover have "insert_across_ancestors I None ops k = Some ops" using None by (simp add: insert_across_ancestors.simps)
    ultimately show ?thesis using 1(2) by blast
  next
    case (Some p)
    show ?thesis
    proof (cases "ops (p, AggregateL) = None")
      case False
      have "up_closed I {} ops" unfolding up_closed_def
      proof (intro allI impI)
        fix x l q assume x: "(x, l) \<in> dom ops" "parent_of I x = Some q"
        show "(q, AggregateL) \<in> dom ops" using up_closedD [OF 1(3) x(1) _ x(2)] x(2) Some False by (cases "x = k") auto
      qed
      moreover have "insert_across_ancestors I None ops k = Some ops"
        using Some False by (simp add: insert_across_ancestors.simps [of I None ops k] do_insert_aggregate_operation_def)
      ultimately show ?thesis using 1(2) by blast
    next
      case True
      let ?ops = "ops((p, AggregateL) \<mapsto> Aggregate)"
      have lab: "labelled ?ops" by (rule labelled_update [OF 1(2)]) simp
      have "up_closed I {p} ?ops" unfolding up_closed_def
      proof (intro allI impI)
        fix x l q assume x: "(x, l) \<in> dom ?ops" "x \<notin> {p}" "parent_of I x = Some q"
        then have "(x, l) \<in> dom ops" by (auto split: if_splits)
        then show "(q, AggregateL) \<in> dom ?ops" using up_closedD [OF 1(3) _ _ x(3)] x(3) Some by (cases "x = k") auto
      qed
      from 1(1) [OF Some lab this] obtain ops' where ops': "insert_across_ancestors I None ?ops p = Some ops'" "labelled ops'" "up_closed I {} ops'"
        "\<forall>x l. l \<noteq> AggregateL \<longrightarrow> ops' (x, l) = ?ops (x, l)" "dom ?ops \<subseteq> dom ops'" by blast
      have "insert_across_ancestors I None ops k = Some ops'"
        using Some True ops'(1) by (simp add: insert_across_ancestors.simps [of I None ops k] do_insert_aggregate_operation_def Let_def)
      moreover have "\<forall>x l. l \<noteq> AggregateL \<longrightarrow> ops' (x, l) = ops (x, l)" using ops'(4) by simp
      moreover have "dom ops \<subseteq> dom ops'" using ops'(5) by auto
      ultimately show ?thesis using ops'(2,3) by blast
    qed
  qed
qed

text \<open>The batches that votes generate have no marks.\<close>

definition batch_ok :: "'h fork_map \<Rightarrow> 'h update_operations \<Rightarrow> bool" where
  "batch_ok I ops \<longleftrightarrow> labelled ops \<and> up_closed I {} ops \<and> (\<forall>k s. ops (k, MarkValidL s) = None \<and> ops (k, MarkInvalidL s) = None)"

lemma batch_empty: "batch_ok I Map.empty"
  by (simp add: batch_ok_def labelled_def up_closed_def)

lemma closed_up_batch:
  assumes "labelled ops" "up_closed I {} ops"
    and "\<And>k s. ops (k, MarkValidL s) \<noteq> None \<or> ops (k, MarkInvalidL s) \<noteq> None \<Longrightarrow> (k, AggregateL) \<in> dom ops \<and> s \<le> fst k"
    and "\<And>k s p. ops (k, MarkValidL s) \<noteq> None \<Longrightarrow> parent_of I k = Some p \<Longrightarrow> ops (p, MarkValidL s) = Some (MarkValid s) \<or> fst k = s"
  shows "closed_up I (operation_list ops)"
proof -
  note set = operation_list_set [OF assms(1)]
  have agg: "(x, Aggregate) \<in> set (operation_list ops)" if "(x, AggregateL) \<in> dom ops" for x
    using that labelled_aggregate [OF assms(1)] unfolding set by simp
  have "(p, Aggregate) \<in> set (operation_list ops)" if "(k, a) \<in> set (operation_list ops)" "parent_of I k = Some p" for k a p
    using up_closedD [OF assms(2) _ _ that(2)] that(1) agg unfolding set by blast
  moreover have "(k, Aggregate) \<in> set (operation_list ops) \<and> s \<le> fst k"
    if "(k, MarkValid s) \<in> set (operation_list ops) \<or> (k, MarkInvalid s) \<in> set (operation_list ops)" for k s
    using that assms(3) [of k s] agg [of k] unfolding set by auto
  moreover have "(p, MarkValid s) \<in> set (operation_list ops) \<or> fst k = s" if "(k, MarkValid s) \<in> set (operation_list ops)" "parent_of I k = Some p" for k s p
    using assms(4) [of k s p] that unfolding set by simp
  ultimately show ?thesis unfolding closed_up_def by blast
qed

lemma batch_pending:
  assumes ok: "tree_ok I r" and b: "batch_ok I ops"
  shows "pending I r (operation_list ops)"
proof -
  have lab: "labelled ops" and up: "up_closed I {} ops" and no: "\<And>k s. ops (k, MarkValidL s) = None" "\<And>k s. ops (k, MarkInvalidL s) = None"
    using b unfolding batch_ok_def by blast+
  note set = operation_list_set [OF lab]
  have no': "(k, MarkValid s) \<notin> set (operation_list ops)" "(k, MarkInvalid s) \<notin> set (operation_list ops)" for k s unfolding set by (simp_all add: no)
  have "closed_up I (operation_list ops)" by (rule closed_up_batch [OF lab up]) (simp_all add: no)
  then show ?thesis
    using ok operation_list_descending [OF lab] no' unfolding pending_def tree_ok_def invalid_ok_def inherited_def marks_invalid_def by blast
qed


text \<open>Adding to the stake of a block, or subtracting from it.\<close>

lemma stake_entry:
  assumes b: "batch_ok I ops" and wf: "wf_tree I r" and C: "C = Add \<or> C = Subtract"
  shows "\<exists>ops1 ops2. add_to_entry ops (k, label_of (C x)) x C = Some ops1 \<and> insert_aggregate_operations I ops1 k = Some ops2 \<and> batch_ok I ops2 \<and>
    (\<forall>y. gain ops2 y = gain ops y + (if y = k then delta (C x) else 0))"
proof -
  let ?l = "label_of (C x)"
  have lab: "labelled ops" and up: "up_closed I {} ops" and no: "\<And>k s. ops (k, MarkValidL s) = None \<and> ops (k, MarkInvalidL s) = None"
    using b unfolding batch_ok_def by blast+
  have l: "?l \<noteq> AggregateL" "?l \<noteq> MarkValidL s" "?l \<noteq> MarkInvalidL s" for s using C by auto
  obtain z where z: "add_to_entry ops (k, ?l) x C = Some (ops((k, ?l) \<mapsto> C z))"
    "delta (C z) = (case ops (k, ?l) of Some a \<Rightarrow> delta a | None \<Rightarrow> 0) + delta (C x)"
  proof (cases "ops (k, ?l)")
    case None
    then show ?thesis using that [of x] by (simp add: add_to_entry_def)
  next
    case (Some a)
    then have "label_of a = ?l" using lab unfolding labelled_def by blast
    then obtain y where "a = C y" using C by (cases a) auto
    then show ?thesis using that [of "y + x"] Some C by (auto simp: add_to_entry_def)
  qed
  let ?ops = "ops((k, ?l) \<mapsto> C z)"
  have lab1: "labelled ?ops" by (rule labelled_update [OF lab]) (use C in auto)
  have up1: "up_closed I {k} ?ops" unfolding up_closed_def
  proof (intro allI impI)
    fix y l p assume y: "(y, l) \<in> dom ?ops" "y \<notin> {k}" "parent_of I y = Some p"
    then have "(y, l) \<in> dom ops" by (auto split: if_splits)
    then show "(p, AggregateL) \<in> dom ?ops" using up_closedD [OF up _ _ y(3)] by auto
  qed
  from across_ok [OF wf lab1 up1] obtain ops2 where o: "insert_aggregate_operations I ?ops k = Some ops2" "labelled ops2" "up_closed I {} ops2"
    "\<And>y l. l \<noteq> AggregateL \<Longrightarrow> ops2 (y, l) = ?ops (y, l)" unfolding insert_aggregate_operations_def by blast
  have "batch_ok I ops2" unfolding batch_ok_def using o(2,3) no C by (auto simp: o(4))
  moreover have "gain ops2 y = gain ops y + (if y = k then delta (C x) else 0)" for y
    using C z(2) by (auto simp: gain_def o(4))
  ultimately show ?thesis using z(1) o(1) by blast
qed

section \<open>Latest votes\<close>

text \<open>The stake of the validators whose latest vote is for a block.\<close>

definition vote_sum :: "('p \<Rightarrow> slot \<Rightarrow> u64) \<Rightarrow> ('p \<rightharpoonup> 'h slot_hash_key) \<Rightarrow> 'h slot_hash_key \<Rightarrow> u64" where
  "vote_sum stake lv k = (\<Sum>v | lv v = Some k. stake v (fst k))"

lemma vote_sum_update:
  assumes "finite (dom lv)" "lv v \<noteq> Some new"
  shows "vote_sum stake (lv(v \<mapsto> new)) k =
    vote_sum stake lv k + (if k = new then stake v (fst k) else 0) - (if lv v = Some k then stake v (fst k) else 0)"
proof -
  have fin: "finite {u. lv u = Some k}" by (rule finite_subset [OF _ assms(1)]) auto
  have eq: "{u. (lv(v \<mapsto> new)) u = Some k} = (if k = new then insert v {u. lv u = Some k} else {u. lv u = Some k} - {v})" by auto
  show ?thesis
  proof (cases "k = new")
    case True
    then have "v \<notin> {u. lv u = Some k}" using assms(2) by simp
    then show ?thesis unfolding vote_sum_def eq using True assms(2) fin by simp
  next
    case False
    then show ?thesis unfolding vote_sum_def eq using fin sum_diff1 [OF fin, of "\<lambda>v. stake v (fst k)" v] by simp
  qed
qed

text \<open>A vote counts if it is not below the root and for a later slot, or for the same slot and a smaller hash.\<close>

definition newer :: "'h::linorder slot_hash_key option \<Rightarrow> 'h slot_hash_key \<Rightarrow> bool" where
  "newer old new \<longleftrightarrow> (case old of None \<Rightarrow> True | Some k \<Rightarrow> fst k < fst new \<or> (fst k = fst new \<and> snd new < snd k))"

definition latest_vote :: "slot \<Rightarrow> 'p \<times> 'h::linorder slot_hash_key \<Rightarrow> ('p \<rightharpoonup> 'h slot_hash_key) \<Rightarrow> 'p \<rightharpoonup> 'h slot_hash_key" where
  "latest_vote root = (\<lambda>(v, new) lv. if root \<le> fst new \<and> newer (lv v) new then lv(v \<mapsto> new) else lv)"

text \<open>What holds between two votes of a batch; \<open>base\<close> are the stakes before the batch.\<close>

definition votes_ok :: "'h fork_map \<Rightarrow> ('p \<Rightarrow> slot \<Rightarrow> u64) \<Rightarrow> ('h slot_hash_key \<Rightarrow> u64) \<Rightarrow> ('h, 'p) vote_batch \<Rightarrow> bool" where
  "votes_ok I stake base b \<longleftrightarrow> batch_ok I (vb_operations b) \<and> finite (dom (vb_latest_votes b)) \<and>
     (\<forall>k. vote_sum stake (vb_latest_votes b) k = base k + gain (vb_operations b) k)"

text \<open>The stake is taken back from the block of the previous vote.\<close>

definition take_back :: "'h::linorder fork_map \<Rightarrow> ('p \<Rightarrow> slot \<Rightarrow> u64) \<Rightarrow> 'p \<Rightarrow> ('h, 'p) vote_batch \<Rightarrow> 'h update_operations option" where
  "take_back I stake v b = (case vb_latest_votes b v of
       Some k \<Rightarrow> if stake v (fst k) > 0 then
           Option.bind (add_to_entry (vb_operations b) (k, SubtractL) (stake v (fst k)) Subtract) (\<lambda>ops. insert_aggregate_operations I ops k)
         else Some (vb_operations b)
     | None \<Rightarrow> Some (vb_operations b))"

lemma vote_operations_newer:
  assumes "root \<le> s" "vb_observed b v = None" "newer (vb_latest_votes b v) (s, h)"
  shows "vote_operations I root stake (v, s, h) b = Option.bind (take_back I stake v b) (\<lambda>ops.
    Option.bind (add_to_entry ops ((s, h), AddL) (stake v s) Add) (\<lambda>o1. Option.bind (insert_aggregate_operations I o1 (s, h)) (\<lambda>o2.
      Some (b\<lparr>vb_observed := (vb_observed b)(v \<mapsto> s), vb_latest_votes := (vb_latest_votes b)(v \<mapsto> (s, h)), vb_operations := o2\<rparr>))))"
proof (cases "vb_latest_votes b v")
  case None
  have root: "\<not> s < root" using assms(1) by simp
  show ?thesis using None root assms(2) by (simp add: vote_operations_def take_back_def Let_def)
next
  case (Some k)
  obtain os oh where k: "k = (os, oh)" by (cases k)
  have ord: "if s = os then h < oh else s > os" "\<not> (s < os \<or> (s = os \<and> h \<ge> oh))" using assms(3) Some k by (auto simp: newer_def)
  have root: "\<not> s < root" using assms(1) by simp
  have step: "vote_operations I root stake (v, s, h) b =
      (let b = b\<lparr>vb_observed := (vb_observed b)(v \<mapsto> s)\<rparr> in
       Option.bind (if if s = os then h < oh else s > os then (let u = stake v os in if u > 0 then
         Option.bind (add_to_entry (vb_operations b) ((os, oh), SubtractL) u Subtract) (\<lambda>ops. insert_aggregate_operations I ops (os, oh)) else Some (vb_operations b)) else None)
       (\<lambda>ops. Option.bind (add_to_entry ops ((s, h), AddL) (stake v s) Add) (\<lambda>o1. Option.bind (insert_aggregate_operations I o1 (s, h)) (\<lambda>o2.
         Some (b\<lparr>vb_latest_votes := (vb_latest_votes b)(v \<mapsto> (s, h)), vb_operations := o2\<rparr>)))))"
    using root assms(2) ord(2) Some k unfolding vote_operations_def Let_def by (auto simp del: not_less not_le)
  show ?thesis unfolding step Let_def using ord(1) Some k by (simp add: take_back_def)
qed

lemma take_back_ok:
  assumes b: "batch_ok I (vb_operations b)" and wf: "wf_tree I r"
  shows "\<exists>ops. take_back I stake v b = Some ops \<and> batch_ok I ops \<and>
    (\<forall>k. gain ops k = gain (vb_operations b) k - (if vb_latest_votes b v = Some k then stake v (fst k) else 0))"
proof (cases "vb_latest_votes b v")
  case None
  then show ?thesis using b by (simp add: take_back_def)
next
  case (Some k)
  show ?thesis
  proof (cases "stake v (fst k) > 0")
    case True
    obtain o1 o2 where o: "add_to_entry (vb_operations b) (k, SubtractL) (stake v (fst k)) Subtract = Some o1" "insert_aggregate_operations I o1 k = Some o2"
      "batch_ok I o2" "\<forall>y. gain o2 y = gain (vb_operations b) y + (if y = k then delta (Subtract (stake v (fst k))) else 0)"
      using stake_entry [OF b wf, of Subtract k "stake v (fst k)"] by auto
    then show ?thesis using Some True by (auto simp: take_back_def)
  next
    case False
    then have "stake v (fst k) = 0" by (simp add: word_gt_0)
    then show ?thesis using b Some by (auto simp: take_back_def)
  qed
qed

lemma vote_operations_ok:
  assumes ok: "votes_ok I stake base b" and wf: "wf_tree I r" and seen: "vb_observed b v = None"
  shows "\<exists>b'. vote_operations I root stake (v, new) b = Some b' \<and> votes_ok I stake base b' \<and>
    vb_latest_votes b' = latest_vote root (v, new) (vb_latest_votes b) \<and> dom (vb_observed b') \<subseteq> insert v (dom (vb_observed b))"
proof -
  have batch: "batch_ok I (vb_operations b)" and fin: "finite (dom (vb_latest_votes b))"
    and sum: "\<And>k. vote_sum stake (vb_latest_votes b) k = base k + gain (vb_operations b) k" using ok unfolding votes_ok_def by blast+
  obtain s h where new: "new = (s, h)" by (cases new)
  let ?lv = "vb_latest_votes b"
  have skip: ?thesis if "\<not> (root \<le> s \<and> newer (?lv v) new)"
    using that seen ok by (cases "?lv v") (auto simp: vote_operations_def new newer_def latest_vote_def votes_ok_def Let_def not_le)
  have take: ?thesis if r: "root \<le> s" and n: "newer (?lv v) new"
  proof -
    have differs: "?lv v \<noteq> Some new" using n by (auto simp: newer_def)
    obtain ops where ops: "take_back I stake v b = Some ops" "batch_ok I ops"
      "\<forall>k. gain ops k = gain (vb_operations b) k - (if ?lv v = Some k then stake v (fst k) else 0)"
      using take_back_ok [OF batch wf, of stake v] by blast
    obtain o1 o2 where o: "add_to_entry ops (new, AddL) (stake v s) Add = Some o1" "insert_aggregate_operations I o1 new = Some o2"
      "batch_ok I o2" "\<forall>y. gain o2 y = gain ops y + (if y = new then delta (Add (stake v s)) else 0)"
      using stake_entry [OF ops(2) wf, of Add new "stake v s"] by auto
    let ?b = "b\<lparr>vb_observed := (vb_observed b)(v \<mapsto> s), vb_latest_votes := ?lv(v \<mapsto> new), vb_operations := o2\<rparr>"
    have "vote_operations I root stake (v, new) b = Some ?b"
      using vote_operations_newer [OF r seen, of h I stake] n ops(1) o(1,2) new by simp
    moreover have "vote_sum stake (?lv(v \<mapsto> new)) k = base k + gain o2 k" for k
      unfolding vote_sum_update [OF fin differs] sum using o(4) ops(3) new by simp
    then have "votes_ok I stake base ?b" using o(3) fin unfolding votes_ok_def by simp
    ultimately show ?thesis using r n new by (auto simp: latest_vote_def)
  qed
  show ?thesis using skip take by blast
qed


lemma vote_loop_ok:
  assumes wf: "wf_tree I r"
  shows "votes_ok I stake base b \<Longrightarrow> distinct (map fst votes) \<Longrightarrow> (\<forall>v \<in> set votes. vb_observed b (fst v) = None) \<Longrightarrow>
    \<exists>b'. vote_loop I root stake votes b = Some b' \<and> votes_ok I stake base b' \<and> vb_latest_votes b' = fold (latest_vote root) votes (vb_latest_votes b)"
proof (induction votes arbitrary: b)
  case (Cons x votes)
  obtain v new where x: "x = (v, new)" by (cases x)
  obtain b' where b': "vote_operations I root stake (v, new) b = Some b'" "votes_ok I stake base b'"
    "vb_latest_votes b' = latest_vote root (v, new) (vb_latest_votes b)" "dom (vb_observed b') \<subseteq> insert v (dom (vb_observed b))"
    using vote_operations_ok [OF Cons.prems(1) wf, of v root new] Cons.prems(3) x by auto
  have "\<forall>w \<in> set votes. vb_observed b' (fst w) = None"
  proof
    fix w assume w: "w \<in> set votes"
    then have "fst w \<noteq> v" "vb_observed b (fst w) = None" using Cons.prems(2,3) x by (auto simp: image_iff)
    then show "vb_observed b' (fst w) = None" using b'(4) by (auto simp: dom_def)
  qed
  then show ?case using Cons.IH [OF b'(2)] Cons.prems(2) b'(1,3) x by simp
qed simp

section \<open>The invariant of the fork choice\<close>

definition fork_ok :: "('p \<Rightarrow> slot \<Rightarrow> u64) \<Rightarrow> ('h::linorder, 'p) fork_choice \<Rightarrow> bool" where
  "fork_ok stake self \<longleftrightarrow> tree_ok (fork_infos self) (tree_root self) \<and> finite (dom (latest_votes self)) \<and>
     (\<forall>k \<in> dom (fork_infos self). stake_of (fork_infos self) k = vote_sum stake (latest_votes self) k)"

lemma process_ok:
  assumes pen: "pending (fork_infos self) (tree_root self) (operation_list ops)" and lab: "labelled ops"
  shows "\<exists>J. process_update_operations self ops = Some (self\<lparr>fork_infos := J\<rparr>) \<and> tree_ok J (tree_root self) \<and> same_shape (fork_infos self) J \<and>
    (\<forall>k \<in> dom J. stake_of J k = stake_of (fork_infos self) k + gain ops k)"
proof -
  obtain J where J: "apply_operations (operation_list ops) (fork_infos self) = Some J" "tree_ok J (tree_root self)" "same_shape (fork_infos self) J"
    using pending_all [OF pen] by blast
  have "stake_of J k = stake_of (fork_infos self) k + gain ops k" if "k \<in> dom J" for k
    using apply_operations_stake [OF J(1), of k] that same_shape_dom [OF J(3)] unfolding operation_list_gain [OF lab] by simp
  then show ?thesis using J by (intro exI [of _ J]) (simp add: process_update_operations_def)
qed

text \<open>A batch of votes is applied to the latest votes, and the stakes follow.\<close>

lemma add_votes_ok:
  assumes ok: "fork_ok (stake_at epoch_stakes get_epoch) self" and dis: "distinct (map fst votes)"
  shows "\<exists>self'. add_votes self votes epoch_stakes get_epoch = Some (fi_best_slot (node (fork_infos self') (tree_root self')), self') \<and>
    fork_ok (stake_at epoch_stakes get_epoch) self' \<and> tree_root self' = tree_root self \<and> same_shape (fork_infos self) (fork_infos self') \<and>
    latest_votes self' = fold (latest_vote (fst (tree_root self))) votes (latest_votes self)"
proof -
  let ?stake = "stake_at epoch_stakes get_epoch" and ?I = "fork_infos self" and ?r = "tree_root self"
  let ?b = "\<lparr>vb_latest_votes = latest_votes self, vb_operations = Map.empty, vb_observed = Map.empty\<rparr>"
  have tree: "tree_ok ?I ?r" and fin: "finite (dom (latest_votes self))" and at: "\<forall>k \<in> dom ?I. stake_of ?I k = vote_sum ?stake (latest_votes self) k"
    using ok unfolding fork_ok_def by blast+
  have wf: "wf_tree ?I ?r" using tree unfolding tree_ok_def by blast
  have "votes_ok ?I ?stake (vote_sum ?stake (latest_votes self)) ?b" using fin by (simp add: votes_ok_def batch_empty gain_def)
  from vote_loop_ok [OF wf this dis, of "fst ?r"] obtain b where b: "vote_loop ?I (fst ?r) ?stake votes ?b = Some b"
    "votes_ok ?I ?stake (vote_sum ?stake (latest_votes self)) b" "vb_latest_votes b = fold (latest_vote (fst ?r)) votes (latest_votes self)" by auto
  have batch: "batch_ok ?I (vb_operations b)" using b(2) unfolding votes_ok_def by blast
  let ?self = "self\<lparr>latest_votes := vb_latest_votes b\<rparr>"
  have "pending (fork_infos ?self) (tree_root ?self) (operation_list (vb_operations b))" using batch_pending [OF tree batch] by simp
  from process_ok [OF this] batch obtain J where J: "process_update_operations ?self (vb_operations b) = Some (?self\<lparr>fork_infos := J\<rparr>)" "tree_ok J ?r" "same_shape ?I J"
    "\<forall>k \<in> dom J. stake_of J k = stake_of ?I k + gain (vb_operations b) k" unfolding batch_ok_def by auto
  let ?self' = "?self\<lparr>fork_infos := J\<rparr>"
  have "?r \<in> dom J" using J(2) unfolding tree_ok_def wf_tree_def by blast
  then have "best_overall_slot ?self' = Some (fi_best_slot (node J ?r))" by (auto simp: best_overall_slot_def best_slot_def)
  then have "add_votes self votes epoch_stakes get_epoch = Some (fi_best_slot (node (fork_infos ?self') (tree_root ?self')), ?self')"
    using b(1) J(1) by (simp add: add_votes_def generate_update_operations_def)
  moreover have "fork_ok ?stake ?self'"
    using J(2,4) at b(2) same_shape_dom [OF J(3)] unfolding fork_ok_def votes_ok_def by simp
  ultimately show ?thesis using J(3) b(3) by (intro exI [of _ ?self']) simp
qed

end
