(* ===== verification/Fork_Leaf.thy ===== *)
theory Fork_Leaf
  imports Fork_Votes
begin

text \<open>
  A new block in the fork choice: the best and the deepest slot are carried up along the ancestors, and every node agrees with its children again.
\<close>

section \<open>Changing what is cached\<close>

definition with_best :: "('h slot_hash_key \<Rightarrow> 'h slot_hash_key) \<Rightarrow> 'h fork_map \<Rightarrow> 'h fork_map" where
  "with_best b I k = map_option (\<lambda>i. i\<lparr>fi_best_slot := b k\<rparr>) (I k)"

definition with_deepest :: "('h slot_hash_key \<Rightarrow> 'h slot_hash_key) \<Rightarrow> ('h slot_hash_key \<Rightarrow> nat) \<Rightarrow> 'h fork_map \<Rightarrow> 'h fork_map" where
  "with_deepest d h I k = map_option (\<lambda>i. i\<lparr>fi_deepest_slot := d k, fi_height := h k\<rparr>) (I k)"

lemma with_best_shape: "same_shape I (with_best b I)"
  unfolding same_shape_def with_best_def by (simp add: option.map_comp comp_def)

lemma with_deepest_shape: "same_shape I (with_deepest d h I)"
  unfolding same_shape_def with_deepest_def by (simp add: option.map_comp comp_def)

lemma with_best_id: "with_best (\<lambda>k. fi_best_slot (node I k)) I = I"
proof
  show "with_best (\<lambda>k. fi_best_slot (node I k)) I k = I k" for k by (cases "I k") (simp_all add: with_best_def)
qed

lemma with_deepest_id: "with_deepest (\<lambda>k. fi_deepest_slot (node I k)) (depth I) I = I"
proof
  show "with_deepest (\<lambda>k. fi_deepest_slot (node I k)) (depth I) I k = I k" for k by (cases "I k") (simp_all add: with_deepest_def)
qed

lemma with_best_update: "with_best b I a = Some i \<Longrightarrow> (with_best b I)(a \<mapsto> i\<lparr>fi_best_slot := x\<rparr>) = with_best (b(a := x)) I"
proof
  fix k assume "with_best b I a = Some i"
  then show "((with_best b I)(a \<mapsto> i\<lparr>fi_best_slot := x\<rparr>)) k = with_best (b(a := x)) I k" by (cases "k = a"; cases "I k") (auto simp: with_best_def)
qed

lemma with_deepest_update:
  "with_deepest d h I a = Some i \<Longrightarrow> (with_deepest d h I)(a \<mapsto> i\<lparr>fi_deepest_slot := x, fi_height := n\<rparr>) = with_deepest (d(a := x)) (h(a := n)) I"
proof
  fix k assume "with_deepest d h I a = Some i"
  then show "((with_deepest d h I)(a \<mapsto> i\<lparr>fi_deepest_slot := x, fi_height := n\<rparr>)) k = with_deepest (d(a := x)) (h(a := n)) I k"
    by (cases "k = a"; cases "I k") (auto simp: with_deepest_def)
qed

lemma with_best_node:
  assumes "k \<in> dom I"
  shows "fi_best_slot (node (with_best b I) k) = b k" "weight (with_best b I) k = weight I k" "fi_is_candidate (node (with_best b I) k) = candidate I k"
    "depth (with_best b I) k = depth I k" "confirmed (with_best b I) k = confirmed I k" "invalid (with_best b I) k = invalid I k"
    "stake_of (with_best b I) k = stake_of I k" "fi_deepest_slot (node (with_best b I) k) = fi_deepest_slot (node I k)" "k \<in> dom (with_best b I)"
  using assms by (auto simp: with_best_def fi_is_candidate_def)

lemma with_deepest_node:
  assumes "k \<in> dom I"
  shows "fi_best_slot (node (with_deepest d h I) k) = fi_best_slot (node I k)" "weight (with_deepest d h I) k = weight I k" "fi_is_candidate (node (with_deepest d h I) k) = candidate I k"
    "depth (with_deepest d h I) k = h k" "confirmed (with_deepest d h I) k = confirmed I k" "invalid (with_deepest d h I) k = invalid I k"
    "stake_of (with_deepest d h I) k = stake_of I k" "fi_deepest_slot (node (with_deepest d h I) k) = d k" "k \<in> dom (with_deepest d h I)"
  using assms by (auto simp: with_deepest_def fi_is_candidate_def)

section \<open>Best slots\<close>

text \<open>The best slots of the candidates, as a function of the keys.\<close>

definition best_at :: "'h::linorder fork_map \<Rightarrow> ('h slot_hash_key \<Rightarrow> 'h slot_hash_key) \<Rightarrow> 'h slot_hash_key \<Rightarrow> bool" where
  "best_at I b k \<longleftrightarrow> (candidate I k \<longrightarrow> (if \<exists>c \<in> children I k. candidate I c then \<exists>c. heaviest_of I (children I k) c \<and> b k = b c else b k = k))"

lemma best_at_cong: "b k = b' k \<Longrightarrow> \<forall>c \<in> children I k. b c = b' c \<Longrightarrow> best_at I b k \<longleftrightarrow> best_at I b' k"
proof -
  assume b: "b k = b' k" "\<forall>c \<in> children I k. b c = b' c"
  have "heaviest_of I (children I k) c \<and> b k = b c \<longleftrightarrow> heaviest_of I (children I k) c \<and> b' k = b' c" for c
    using b by (cases "c \<in> children I k") (simp_all add: heaviest_of_def)
  then show ?thesis unfolding best_at_def using b(1) by simp
qed

lemma heaviest_unique: "heaviest_of I C c \<Longrightarrow> heaviest_of I C d \<Longrightarrow> c = d"
  unfolding heaviest_of_def heavier_def by (metis less_asym less_irrefl)

lemma best_ok_with_best:
  assumes wf: "wf_tree I r" and k: "k \<in> dom I"
  shows "(candidate (with_best b I) k \<longrightarrow> best_ok (with_best b I) k) \<longleftrightarrow> best_at I b k"
proof -
  have sub: "\<forall>c \<in> children I k. c \<in> dom I" using wf_child [OF wf] by blast
  have ch: "children (with_best b I) = children I" by (rule same_shape_children [OF with_best_shape])
  have h: "heaviest_of (with_best b I) (children I k) c \<longleftrightarrow> heaviest_of I (children I k) c" for c
    unfolding heaviest_of_def heavier_def using sub by (metis (no_types, lifting) with_best_node(2,3))
  have e: "(\<exists>c \<in> children I k. candidate (with_best b I) c) \<longleftrightarrow> (\<exists>c \<in> children I k. candidate I c)" using sub with_best_node(3) by blast
  have c: "heaviest_of I (children I k) c \<and> b k = fi_best_slot (node (with_best b I) c) \<longleftrightarrow> heaviest_of I (children I k) c \<and> b k = b c" for c
    using with_best_node(1) [of c I b] sub by (cases "c \<in> children I k") (simp_all add: heaviest_of_def)
  show ?thesis unfolding best_ok_def best_at_def ch h e with_best_node(1,3) [OF k] c by blast
qed

text \<open>One step of the loop: the best slot of a child has changed from \<open>pb\<close> to \<open>key\<close>.\<close>

lemma best_step:
  assumes wf: "wf_tree I r" and c: "c \<in> children I a" and old: "best_at I (b(c := pb)) a" and bc: "b c = key" and d: "desc I c pb"
    and below: "\<forall>x \<in> children I a. x \<noteq> c \<longrightarrow> desc I x (b x)"
  shows "b a = pb \<Longrightarrow> best_at I (b(a := key)) a" "b a \<noteq> pb \<Longrightarrow> best_at I b a"
proof -
  have self: "a \<notin> children I a" using wf_child [OF wf, of a a] by blast
  then have ne: "c \<noteq> a" "\<forall>x \<in> children I a. x \<noteq> a" using c by blast+
  have pb: "pb \<noteq> a" using child_not_self [OF wf c] d by auto
  show "best_at I (b(a := key)) a" if ba: "b a = pb"
  proof (cases "candidate I a \<and> (\<exists>c \<in> children I a. candidate I c)")
    case True
    then obtain e where e: "heaviest_of I (children I a) e" "b a = (b(c := pb)) e" using old ne(1) by (auto simp: best_at_def)
    have "e = c"
    proof (rule ccontr)
      assume ec: "e \<noteq> c"
      have ea: "e \<in> children I a" using e(1) by (simp add: heaviest_of_def)
      then have "desc I e pb" using below ec e(2) ba by simp
      then show False using siblings_disjoint [OF wf c ea _ d] ec by blast
    qed
    then show ?thesis using e(1) bc ne(1) True by (auto simp: best_at_def)
  next
    case False
    then show ?thesis using old ba pb ne(1) by (auto simp: best_at_def)
  qed
  show "best_at I b a" if ba: "b a \<noteq> pb"
  proof (cases "candidate I a \<and> (\<exists>c \<in> children I a. candidate I c)")
    case True
    then obtain e where e: "heaviest_of I (children I a) e" "b a = (b(c := pb)) e" using old ne(1) by (auto simp: best_at_def)
    then have "b a = b e" using ba by (auto split: if_splits)
    then show ?thesis using e(1) True by (auto simp: best_at_def)
  next
    case False
    then show ?thesis using old ne(1) by (auto simp: best_at_def)
  qed
qed


text \<open>All of them, wherever they are known to be right.\<close>

definition best_all :: "'h::linorder fork_map \<Rightarrow> ('h slot_hash_key \<Rightarrow> 'h slot_hash_key) \<Rightarrow> bool" where
  "best_all I b \<longleftrightarrow> (\<forall>x \<in> dom I. best_at I b x \<and> desc I x (b x))"

lemma best_at_frame: "wf_tree I r \<Longrightarrow> x \<noteq> a \<Longrightarrow> parent_of I a \<noteq> Some x \<Longrightarrow> best_at I (b(a := y)) x \<longleftrightarrow> best_at I b x"
  using parent_of_child [of I r a x] by (intro best_at_cong) auto

lemma propagate_best_ok:
  assumes wf: "wf_tree I r"
  shows "a \<in> dom I \<Longrightarrow> \<forall>x \<in> dom I. x \<noteq> a \<longrightarrow> best_at I b x \<Longrightarrow> (b a = pb \<longrightarrow> best_at I (b(a := key)) a) \<Longrightarrow> (b a \<noteq> pb \<longrightarrow> best_at I b a) \<Longrightarrow>
    desc I a key \<Longrightarrow> \<forall>x \<in> dom I. desc I x (b x) \<Longrightarrow>
    \<exists>b'. propagate_best key pb (Some a) (with_best b I) = Some (with_best b' I) \<and> best_all I b'"
proof (induction a arbitrary: b rule: parent_induct [OF wf])
  case (1 a)
  obtain i where i: "with_best b I a = Some i" "fi_best_slot i = b a" "fi_parent i = parent_of I a"
    using 1(2) by (auto simp: with_best_def parent_of_def)
  show ?case
  proof (cases "b a = pb")
    case False
    have "propagate_best key pb (Some a) (with_best b I) = Some (with_best b I)" using False i by (simp add: propagate_best.simps [of key pb "Some a"])
    moreover have "best_at I b x" if "x \<in> dom I" for x using False 1(3,5) that by (cases "x = a") auto
    then have "best_all I b" using 1(7) unfolding best_all_def by blast
    ultimately show ?thesis by blast
  next
    case True
    let ?b = "b(a := key)"
    have go: "propagate_best key pb (Some a) (with_best b I) = propagate_best key pb (parent_of I a) (with_best ?b I)"
      using True i with_best_update [OF i(1), of key] by (simp add: propagate_best.simps [of key pb "Some a"])
    have below: "\<forall>x \<in> dom I. desc I x (?b x)" using 1(6,7) by simp
    have here: "best_at I ?b a" using 1(4) True by (rule mp)
    have rest: "best_at I ?b x" if "x \<in> dom I" "parent_of I a \<noteq> Some x" for x
    proof (cases "x = a")
      case False
      then show ?thesis using 1(3) that(1) best_at_frame [OF wf False that(2)] by blast
    qed (use here in \<open>simp only:\<close>)
    show ?thesis
    proof (cases "parent_of I a")
      case None
      have "best_all I ?b" using rest below None unfolding best_all_def by simp
      moreover have "propagate_best key pb (Some a) (with_best b I) = Some (with_best ?b I)" unfolding go None by (simp add: propagate_best.simps)
      ultimately show ?thesis by blast
    next
      case (Some q)
      have q: "a \<in> children I q" "q \<in> dom I" using wf_parent [OF wf Some] by auto
      have ne: "q \<noteq> a" using wf_child [OF wf q(1)] by auto
      have "?b(a := pb) = b" using True by auto
      then have at: "best_at I (?b(a := pb)) q" using 1(3) q(2) ne by simp
      have kids: "\<forall>x \<in> children I q. x \<noteq> a \<longrightarrow> desc I x (?b x)" using 1(7) wf_child [OF wf, of _ q] by simp
      have "desc I a pb" using 1(2,7) True by blast
      note step = best_step [OF wf q(1) at fun_upd_same this kids]
      have others: "\<forall>x \<in> dom I. x \<noteq> q \<longrightarrow> best_at I ?b x" using rest Some by simp
      have "desc I q key" using desc_step [OF q(1) 1(6)] .
      then show ?thesis unfolding go Some using step by (intro 1(1) [OF Some q(2) others _ _ _ below]) blast+
    qed
  qed
qed

section \<open>Deepest slots\<close>

definition deeper_by :: "'h::linorder fork_map \<Rightarrow> ('h slot_hash_key \<Rightarrow> nat) \<Rightarrow> 'h slot_hash_key \<Rightarrow> 'h slot_hash_key \<Rightarrow> bool" where
  "deeper_by I h c e \<longleftrightarrow> h e < h c \<or> (h e = h c \<and> heavier I c e)"

definition deep_max :: "'h::linorder fork_map \<Rightarrow> ('h slot_hash_key \<Rightarrow> nat) \<Rightarrow> 'h slot_hash_key set \<Rightarrow> 'h slot_hash_key \<Rightarrow> bool" where
  "deep_max I h C c \<longleftrightarrow> c \<in> C \<and> (\<forall>e \<in> C. e \<noteq> c \<longrightarrow> deeper_by I h c e)"

definition deep_at :: "'h::linorder fork_map \<Rightarrow> ('h slot_hash_key \<Rightarrow> 'h slot_hash_key) \<Rightarrow> ('h slot_hash_key \<Rightarrow> nat) \<Rightarrow> 'h slot_hash_key \<Rightarrow> bool" where
  "deep_at I d h k \<longleftrightarrow> (if children I k = {} then h k = 1 \<and> d k = k else \<exists>c. deep_max I h (children I k) c \<and> h k = h c + 1 \<and> d k = d c)"

lemma deeper_by_total: "c \<noteq> e \<Longrightarrow> deeper_by I h c e \<or> deeper_by I h e c"
  using heavier_total [of c e I] by (auto simp: deeper_by_def)

lemma deeper_by_trans: "deeper_by I h a b \<Longrightarrow> deeper_by I h b c \<Longrightarrow> deeper_by I h a c"
  unfolding deeper_by_def using heavier_trans [of I a b c] by auto

lemma deep_ok_with_deepest:
  assumes wf: "wf_tree I r" and k: "k \<in> dom I"
  shows "deep_ok (with_deepest d h I) k \<longleftrightarrow> deep_at I d h k"
proof -
  have sub: "\<forall>c \<in> children I k. c \<in> dom I" using wf_child [OF wf] by blast
  have ch: "children (with_deepest d h I) = children I" by (rule same_shape_children [OF with_deepest_shape])
  have m: "deepest_of (with_deepest d h I) (children I k) c \<longleftrightarrow> deep_max I h (children I k) c" for c
    unfolding deepest_of_def deeper_def heavier_def deep_max_def deeper_by_def using sub by (metis (no_types, lifting) with_deepest_node(2,4))
  have c: "deep_max I h (children I k) c \<and> h k = depth (with_deepest d h I) c + 1 \<and> d k = fi_deepest_slot (node (with_deepest d h I) c) \<longleftrightarrow>
      deep_max I h (children I k) c \<and> h k = h c + 1 \<and> d k = d c" for c
    using with_deepest_node(4,8) [of c I d h] sub by (cases "c \<in> children I k") (simp_all add: deep_max_def)
  show ?thesis unfolding deep_ok_def deep_at_def ch m with_deepest_node(4,8) [OF k] c ..
qed

lemma deep_at_frame:
  assumes "wf_tree I r" "x \<noteq> a" "parent_of I a \<noteq> Some x"
  shows "deep_at I (d(a := y)) (h(a := n)) x \<longleftrightarrow> deep_at I d h x"
proof -
  have no: "a \<notin> children I x" using parent_of_child [OF assms(1), of a x] assms(3) by auto
  have "deep_max I (h(a := n)) (children I x) c \<longleftrightarrow> deep_max I h (children I x) c" for c
    unfolding deep_max_def deeper_by_def using no by (metis fun_upd_other)
  then have "deep_max I (h(a := n)) (children I x) c \<and> (h(a := n)) x = (h(a := n)) c + 1 \<and> (d(a := y)) x = (d(a := y)) c \<longleftrightarrow>
      deep_max I h (children I x) c \<and> h x = h c + 1 \<and> d x = d c" for c
    using assms(2) no by (cases "c = a") (auto simp: deep_max_def)
  then show ?thesis using assms(2) unfolding deep_at_def by simp
qed

text \<open>One step of the loop: the height of a child may have grown from \<open>n\<close>.\<close>

lemma deep_step:
  assumes c: "c \<in> children I a" "a \<notin> children I a" and old: "deep_at I (d(c := z)) (h(c := n)) a" and n: "n \<le> h c"
  shows "deep_max I h (children I a) c \<Longrightarrow> h a \<le> h c + 1" "\<not> deep_max I h (children I a) c \<Longrightarrow> deep_at I d h a"
proof -
  have ne: "c \<noteq> a" "children I a \<noteq> {}" using c by auto
  obtain e where e: "deep_max I (h(c := n)) (children I a) e" "h a = (h(c := n)) e + 1" "d a = (d(c := z)) e"
    using old ne by (auto simp: deep_at_def)
  have ea: "e \<in> children I a" using e(1) by (simp add: deep_max_def)
  show "h a \<le> h c + 1" if m: "deep_max I h (children I a) c"
    using e(2) n m ea by (cases "e = c") (auto simp: deep_max_def deeper_by_def)
  assume m: "\<not> deep_max I h (children I a) c"
  have ec: "e \<noteq> c"
  proof
    assume "e = c"
    then have "\<forall>x \<in> children I a. x \<noteq> c \<longrightarrow> deeper_by I h c x" using e(1) n by (auto simp: deep_max_def deeper_by_def)
    then show False using m c(1) by (simp add: deep_max_def)
  qed
  obtain x where x: "x \<in> children I a" "x \<noteq> c" "deeper_by I h x c" using m c(1) deeper_by_total [of c _ I h] unfolding deep_max_def by metis
  have same: "deeper_by I h e y" if "y \<in> children I a" "y \<noteq> e" "y \<noteq> c" for y
    using e(1) that ec by (auto simp: deep_max_def deeper_by_def)
  have "deeper_by I h e c" using same x deeper_by_trans [of I h e x c] by (cases "x = e") auto
  then have "deep_max I h (children I a) e" using same ea unfolding deep_max_def by metis
  then show "deep_at I d h a" using e(2,3) ec ne(2) by (auto simp: deep_at_def)
qed


section \<open>The checks among the children\<close>

lemma check_children_ok: "set cs \<subseteq> dom I \<Longrightarrow> check_children I beats cs = Some (\<forall>c \<in> set cs. \<not> beats c (node I c))"
  by (induction cs) auto

lemma no_child_beats_ok:
  assumes wf: "wf_tree (fork_infos self) r" and p: "p \<in> dom (fork_infos self)"
  shows "no_child_beats self beats p = Some (\<forall>c \<in> children (fork_infos self) p. \<not> beats c (node (fork_infos self) c))"
proof -
  let ?I = "fork_infos self"
  have ch: "children_of ?I p = Some (children ?I p)" using p by (auto simp: children_of_def children_def)
  have fin: "finite (children ?I p)" by (rule wf_children_finite [OF wf])
  have "set (sorted_list_of_set (children ?I p)) \<subseteq> dom ?I" using fin wf_child [OF wf, of _ p] by auto
  from check_children_ok [OF this] fin show ?thesis by (simp add: no_child_beats_def ch)
qed

lemma heavier_cases: "\<not> (weight I d > weight I c \<or> (weight I c = weight I d \<and> d < c)) \<longleftrightarrow> (d \<noteq> c \<longrightarrow> heavier I c d)"
  unfolding heavier_def by (metis less_asym less_irrefl linorder_less_linear)

lemma is_best_child_ok:
  assumes wf: "wf_tree (fork_infos self) r" and c: "c \<in> children (fork_infos self) p"
  shows "is_best_child self c = Some (\<forall>d \<in> children (fork_infos self) p. candidate (fork_infos self) d \<longrightarrow> d \<noteq> c \<longrightarrow> heavier (fork_infos self) c d)"
proof -
  let ?I = "fork_infos self"
  note w = wf_child [OF wf c]
  have beats: "\<not> (candidate ?I d \<and> (weight ?I d > weight ?I c \<or> (weight ?I c = weight ?I d \<and> d < c))) \<longleftrightarrow> (candidate ?I d \<longrightarrow> d \<noteq> c \<longrightarrow> heavier ?I c d)" for d
    using heavier_cases [of ?I c d] by blast
  have "stake_voted_subtree self c = Some (weight ?I c)" using w unfolding stake_voted_subtree_def by (metis domD option.map(2) option.sel)
  then show ?thesis using w no_child_beats_ok [OF wf, of p] unfolding is_best_child_def beats [symmetric] by simp
qed

lemma is_deepest_child_ok:
  assumes wf: "wf_tree I r" and c: "c \<in> children I p"
  shows "is_deepest_child (self\<lparr>fork_infos := with_deepest d h I\<rparr>) c = Some (deep_max I h (children I p) c)"
proof -
  let ?J = "with_deepest d h I" and ?self = "self\<lparr>fork_infos := with_deepest d h I\<rparr>"
  note shape = with_deepest_shape [of I d h]
  have wfJ: "wf_tree (fork_infos ?self) r" using same_shape_wf [OF shape wf] by simp
  note w = wf_child [OF wf c]
  have sub: "\<forall>x \<in> children I p. x \<in> dom I" using wf_child [OF wf] by blast
  have q: "stake_voted_subtree ?self c = Some (weight I c)" "fc_height ?self c = Some (h c)" "parent_of ?J c = Some p" "p \<in> dom (fork_infos ?self)"
    using w same_shape_parent [OF shape] same_shape_dom [OF shape] by (auto simp: stake_voted_subtree_def fc_height_def with_deepest_def)
  have beats: "(\<forall>x \<in> children I p. \<not> (h c < depth ?J x \<or> (h c = depth ?J x \<and> (weight I c < weight ?J x \<or> (weight I c = weight ?J x \<and> x < c))))) \<longleftrightarrow>
      deep_max I h (children I p) c"
  proof -
    have "\<not> (h c < depth ?J x \<or> (h c = depth ?J x \<and> (weight I c < weight ?J x \<or> (weight I c = weight ?J x \<and> x < c)))) \<longleftrightarrow> (x \<noteq> c \<longrightarrow> deeper_by I h c x)"
      if "x \<in> children I p" for x
    proof -
      have "depth ?J x = h x" "weight ?J x = weight I x" using that sub with_deepest_node(2,4) by blast+
      then show ?thesis using heavier_cases [of I c x] by (auto simp: deeper_by_def)
    qed
    then show ?thesis using c unfolding deep_max_def by blast
  qed
  show ?thesis using q(1,2,3) no_child_beats_ok [OF wfJ q(4)] beats same_shape_children [OF shape]
    unfolding is_deepest_child_def deeper_cmp by simp
qed

lemma propagate_deepest_ok:
  assumes wf: "wf_tree I r"
  shows "c \<in> children I a \<Longrightarrow> \<forall>x \<in> dom I. x \<noteq> a \<longrightarrow> deep_at I d h x \<Longrightarrow> (deep_max I h (children I a) c \<longrightarrow> h a \<le> h c + 1) \<Longrightarrow>
    (\<not> deep_max I h (children I a) c \<longrightarrow> deep_at I d h a) \<Longrightarrow> d c = key \<Longrightarrow>
    \<exists>d' h'. propagate_deepest key (Some a) c (h c) (self\<lparr>fork_infos := with_deepest d h I\<rparr>) = Some (self\<lparr>fork_infos := with_deepest d' h' I\<rparr>) \<and>
      (\<forall>x \<in> dom I. deep_at I d' h' x)"
proof (induction a arbitrary: c d h rule: parent_induct [OF wf])
  case (1 a)
  have a: "a \<in> dom I" and ca: "c \<noteq> a" "a \<notin> children I a" using wf_child [OF wf 1(2)] wf_child [OF wf, of a a] by auto
  obtain i where i: "with_deepest d h I a = Some i" "fi_parent i = parent_of I a" using a by (auto simp: with_deepest_def parent_of_def)
  note deepest = is_deepest_child_ok [OF wf 1(2), where self = self and d = d and h = h]
  show ?case
  proof (cases "deep_max I h (children I a) c")
    case False
    have "propagate_deepest key (Some a) c (h c) (self\<lparr>fork_infos := with_deepest d h I\<rparr>) = Some (self\<lparr>fork_infos := with_deepest d h I\<rparr>)"
      using False deepest by (simp add: propagate_deepest.simps [of key "Some a"])
    moreover have "deep_at I d h x" if "x \<in> dom I" for x using False 1(3,5) that by (cases "x = a") auto
    ultimately show ?thesis by blast
  next
    case True
    let ?d = "d(a := key)" and ?h = "h(a := h c + 1)"
    have go: "propagate_deepest key (Some a) c (h c) (self\<lparr>fork_infos := with_deepest d h I\<rparr>) =
        propagate_deepest key (parent_of I a) a (?h a) (self\<lparr>fork_infos := with_deepest ?d ?h I\<rparr>)"
      using True deepest i with_deepest_update [OF i(1), where x = key and n = "h c + 1"] by (simp add: propagate_deepest.simps [of key "Some a"])
    have max: "deep_max I ?h (children I a) x \<longleftrightarrow> deep_max I h (children I a) x" for x
      unfolding deep_max_def deeper_by_def using ca(2) by (metis fun_upd_other)
    have "deep_max I ?h (children I a) c \<and> ?h a = ?h c + 1 \<and> ?d a = ?d c" using True ca(1) 1(6) unfolding max by simp
    moreover have "children I a \<noteq> {}" using 1(2) by blast
    ultimately have "deep_at I ?d ?h a" unfolding deep_at_def by (intro if_False_cases exI [of _ c])
    then have rest: "deep_at I ?d ?h x" if "x \<in> dom I" "parent_of I a \<noteq> Some x" for x
      using 1(3) that deep_at_frame [OF wf _ that(2)] by (cases "x = a") blast+
    show ?thesis
    proof (cases "parent_of I a")
      case None
      have "\<forall>x \<in> dom I. deep_at I ?d ?h x" using rest None by (metis option.distinct(1))
      moreover have "propagate_deepest key (Some a) c (h c) (self\<lparr>fork_infos := with_deepest d h I\<rparr>) = Some (self\<lparr>fork_infos := with_deepest ?d ?h I\<rparr>)"
        unfolding go None by (simp add: propagate_deepest.simps)
      ultimately show ?thesis by blast
    next
      case (Some q)
      have q: "a \<in> children I q" "q \<in> dom I" "q \<notin> children I q" using wf_parent [OF wf Some] wf_child [OF wf, of q q] by auto
      have "q \<noteq> a" using q by auto
      then have "deep_at I d h q" using 1(3) q(2) by blast
      moreover have "?d(a := d a) = d" "?h(a := h a) = h" by auto
      ultimately have old: "deep_at I (?d(a := d a)) (?h(a := h a)) q" by simp
      have "h a \<le> ?h a" using 1(4) True by simp
      note step = deep_step [OF q(1,3) old this]
      have others: "\<forall>x \<in> dom I. x \<noteq> q \<longrightarrow> deep_at I ?d ?h x" using rest Some by (metis option.inject)
      show ?thesis unfolding go Some using step by (intro 1(1) [OF Some q(1) others _ _ fun_upd_same]) blast+
    qed
  qed
qed

end
