(* ===== verification/Fork_Insert.thy ===== *)
theory Fork_Insert
  imports Fork_Leaf
begin

text \<open>
  Adding a block to the fork choice keeps its invariant.
\<close>

section \<open>The tree with the new leaf\<close>

definition leaf_of :: "'h fork_map \<Rightarrow> 'h slot_hash_key \<Rightarrow> 'h slot_hash_key \<Rightarrow> 'h fork_info" where
  "leaf_of I key p = \<lparr>fi_stake_voted_at = 0, fi_stake_voted_subtree = 0, fi_height = 1, fi_best_slot = key, fi_deepest_slot = key, fi_parent = Some p,
     fi_children = {}, fi_latest_invalid_ancestor = invalid I p, fi_is_duplicate_confirmed = False\<rparr>"

definition grow :: "'h fork_map \<Rightarrow> 'h slot_hash_key \<Rightarrow> 'h slot_hash_key \<Rightarrow> 'h fork_map" where
  "grow I key p = I(key \<mapsto> leaf_of I key p, p \<mapsto> (node I p)\<lparr>fi_children := insert key (fi_children (node I p))\<rparr>)"

definition fresh :: "'h fork_map \<Rightarrow> 'h slot_hash_key \<Rightarrow> 'h slot_hash_key \<Rightarrow> bool" where
  "fresh I key p \<longleftrightarrow> I key = None \<and> p \<in> dom I \<and> fst p < fst key"

lemma fresh_ne: "fresh I key p \<Longrightarrow> key \<noteq> p \<and> key \<notin> dom I \<and> p \<in> dom I"
  by (auto simp: fresh_def)

lemma grow_children: "fresh I key p \<Longrightarrow> children (grow I key p) x = (if x = p then insert key (children I p) else children I x)"
  by (auto simp: fresh_def grow_def children_def leaf_of_def split: option.splits)

lemma grow_parent: "fresh I key p \<Longrightarrow> parent_of (grow I key p) x = (if x = key then Some p else parent_of I x)"
  by (auto simp: fresh_def grow_def parent_of_def leaf_of_def split: option.splits)

lemma grow_dom: "fresh I key p \<Longrightarrow> dom (grow I key p) = insert key (dom I)"
  by (auto simp: fresh_def grow_def)

lemma grow_old:
  assumes "fresh I key p" "x \<in> dom I"
  shows "weight (grow I key p) x = weight I x" "candidate (grow I key p) x = candidate I x" "depth (grow I key p) x = depth I x" "confirmed (grow I key p) x = confirmed I x"
    "invalid (grow I key p) x = invalid I x" "stake_of (grow I key p) x = stake_of I x" "fi_best_slot (node (grow I key p) x) = fi_best_slot (node I x)"
    "fi_deepest_slot (node (grow I key p) x) = fi_deepest_slot (node I x)"
  using fresh_ne [OF assms(1)] assms(2) by (auto simp: grow_def fi_is_candidate_def)

lemma grow_new:
  assumes "fresh I key p"
  shows "weight (grow I key p) key = 0" "candidate (grow I key p) key = candidate I p" "depth (grow I key p) key = 1" "\<not> confirmed (grow I key p) key"
    "invalid (grow I key p) key = invalid I p" "stake_of (grow I key p) key = 0" "fi_best_slot (node (grow I key p) key) = key"
    "fi_deepest_slot (node (grow I key p) key) = key"
  using fresh_ne [OF assms(1)] by (simp_all add: grow_def leaf_of_def fi_is_candidate_def)

lemma wf_root:
  assumes "wf_tree I r" "k \<in> dom I"
  shows "parent_of I k = None \<longleftrightarrow> k = r"
proof -
  have "\<forall>k \<in> dom I. (parent_of I k = None \<longleftrightarrow> k = r) \<and> (\<forall>p. parent_of I k = Some p \<longrightarrow> k \<in> children I p) \<and>
       (\<forall>c \<in> children I k. fst k < fst c \<and> c \<in> dom I \<and> parent_of I c = Some k)" using assms(1) unfolding wf_tree_def by (elim conjE)
  from bspec [OF this assms(2)] show ?thesis by (rule conjunct1)
qed

lemma grow_wf:
  assumes f: "fresh I key p" and wf: "wf_tree I r"
  shows "wf_tree (grow I key p) r"
proof -
  note ne = fresh_ne [OF f]
  have no_kids: "children I key = {}" using ne children_dom [of _ I key] by blast
  have r: "r \<in> dom I" "finite (dom I)" using wf unfolding wf_tree_def by blast+
  have not_child: "key \<notin> children I x" for x using wf_child [OF wf, of key x] ne by blast
  have all: "(parent_of (grow I key p) x = None \<longleftrightarrow> x = r) \<and> (\<forall>q. parent_of (grow I key p) x = Some q \<longrightarrow> x \<in> children (grow I key p) q) \<and>
      (\<forall>c \<in> children (grow I key p) x. fst x < fst c \<and> c \<in> dom (grow I key p) \<and> parent_of (grow I key p) c = Some x)" if x: "x \<in> dom (grow I key p)" for x
  proof (cases "x = key")
    case True
    then show ?thesis using no_kids ne r unfolding grow_children [OF f] grow_parent [OF f] by auto
  next
    case False
    then have xd: "x \<in> dom I" using x unfolding grow_dom [OF f] by blast
    have old: "parent_of I x = None \<longleftrightarrow> x = r" by (rule wf_root [OF wf xd])
    have kid: "fst x < fst c \<and> c \<in> dom (grow I key p) \<and> parent_of (grow I key p) c = Some x" if c: "c \<in> children (grow I key p) x" for c
    proof (cases "c = key")
      case True
      then have "x = p" using c not_child [of x] unfolding grow_children [OF f] by (simp split: if_splits)
      then show ?thesis using True f unfolding grow_parent [OF f] grow_dom [OF f] fresh_def by simp
    next
      case False
      then have "c \<in> children I x" using c unfolding grow_children [OF f] by (simp split: if_splits)
      then have "fst x < fst c \<and> c \<in> dom I \<and> parent_of I c = Some x" using wf_child [OF wf] by blast
      then show ?thesis using False unfolding grow_parent [OF f] grow_dom [OF f] by simp
    qed
    have par: "parent_of (grow I key p) x = parent_of I x" using False unfolding grow_parent [OF f] by simp
    have "x \<in> children (grow I key p) q" if "parent_of I x = Some q" for q
    proof -
      have "x \<in> children I q" using wf_parent [OF wf that] by blast
      then show ?thesis unfolding grow_children [OF f] by auto
    qed
    then show ?thesis using old kid unfolding par by blast
  qed
  have "finite (dom (grow I key p))" "r \<in> dom (grow I key p)" using r unfolding grow_dom [OF f] by simp_all
  then show ?thesis unfolding wf_tree_def by (intro conjI ballI all)
qed



lemma grow_desc:
  assumes f: "fresh I key p"
  shows "desc I a b \<Longrightarrow> desc (grow I key p) a b"
proof (induction rule: desc.induct)
  case (desc_step c k d)
  then have "c \<in> children (grow I key p) k" unfolding grow_children [OF f] by auto
  then show ?case using desc_step.IH by (rule desc.desc_step)
qed (rule desc.desc_self)

section \<open>Agreement away from the parent\<close>

lemma grow_heavier: "fresh I key p \<Longrightarrow> c \<in> dom I \<Longrightarrow> d \<in> dom I \<Longrightarrow> heavier (grow I key p) c d \<longleftrightarrow> heavier I c d"
  unfolding heavier_def by (simp add: grow_old)

lemma grow_heaviest:
  assumes f: "fresh I key p" and C: "C \<subseteq> dom I"
  shows "heaviest_of (grow I key p) C c \<longleftrightarrow> heaviest_of I C c"
proof (cases "c \<in> C")
  case True
  have "(candidate (grow I key p) d \<longrightarrow> d \<noteq> c \<longrightarrow> heavier (grow I key p) c d) \<longleftrightarrow> (candidate I d \<longrightarrow> d \<noteq> c \<longrightarrow> heavier I c d)" if "d \<in> C" for d
    using grow_old(2) [OF f, of d] grow_heavier [OF f, of c d] that True C by blast
  moreover have "candidate (grow I key p) c = candidate I c" using grow_old(2) [OF f, of c] True C by blast
  ultimately show ?thesis using True unfolding heaviest_of_def by blast
qed (simp add: heaviest_of_def)

abbreviation bests :: "'h fork_map \<Rightarrow> 'h slot_hash_key \<Rightarrow> 'h slot_hash_key" where
  "bests I k \<equiv> fi_best_slot (node I k)"

abbreviation deepests :: "'h fork_map \<Rightarrow> 'h slot_hash_key \<Rightarrow> 'h slot_hash_key" where
  "deepests I k \<equiv> fi_deepest_slot (node I k)"

lemma best_at_bests: "best_at I (bests I) k \<longleftrightarrow> (candidate I k \<longrightarrow> best_ok I k)"
  by (simp add: best_at_def best_ok_def)

lemma deep_at_deepests: "deep_at I (deepests I) (depth I) k \<longleftrightarrow> deep_ok I k"
  by (simp add: deep_at_def deep_ok_def deep_max_def deepest_of_def deeper_by_def deeper_def)

lemma grow_best_other:
  assumes f: "fresh I key p" and wf: "wf_tree I r" and x: "x \<in> dom I" "x \<noteq> p" and old: "best_at I (bests I) x"
  shows "best_at (grow I key p) (bests (grow I key p)) x"
proof -
  have C: "children I x \<subseteq> dom I" using wf_child [OF wf] by blast
  have ch: "children (grow I key p) x = children I x" using x(2) unfolding grow_children [OF f] by simp
  have ex: "(\<exists>c \<in> children I x. candidate (grow I key p) c) \<longleftrightarrow> (\<exists>c \<in> children I x. candidate I c)" using grow_old(2) [OF f] C by blast
  have eq: "heaviest_of I (children I x) c \<and> bests I x = bests (grow I key p) c \<longleftrightarrow> heaviest_of I (children I x) c \<and> bests I x = bests I c" for c
    using grow_old(7) [OF f, of c] subsetD [OF C, of c] by (cases "c \<in> children I x") (simp_all add: heaviest_of_def)
  show ?thesis using old unfolding best_at_def ch ex grow_heaviest [OF f C] grow_old(2,7) [OF f x(1)] eq .
qed

lemma grow_deep_other:
  assumes f: "fresh I key p" and wf: "wf_tree I r" and x: "x \<in> dom I" "x \<noteq> p" and old: "deep_at I (deepests I) (depth I) x"
  shows "deep_at (grow I key p) (deepests (grow I key p)) (depth (grow I key p)) x"
proof -
  let ?J = "grow I key p"
  have C: "children I x \<subseteq> dom I" using wf_child [OF wf] by blast
  have ch: "children ?J x = children I x" using x(2) unfolding grow_children [OF f] by simp
  have d: "deeper_by ?J (depth ?J) c e \<longleftrightarrow> deeper_by I (depth I) c e" if "c \<in> children I x" "e \<in> children I x" for c e
    using that C grow_heavier [OF f, of c e] grow_old(3) [OF f, of c] grow_old(3) [OF f, of e] unfolding deeper_by_def by (simp add: subset_iff)
  have m: "deep_max ?J (depth ?J) (children I x) c \<longleftrightarrow> deep_max I (depth I) (children I x) c" for c
    unfolding deep_max_def using d by blast
  have eq: "deep_max I (depth I) (children I x) c \<and> depth I x = depth ?J c + 1 \<and> deepests I x = deepests ?J c \<longleftrightarrow>
      deep_max I (depth I) (children I x) c \<and> depth I x = depth I c + 1 \<and> deepests I x = deepests I c" for c
    using grow_old(3,8) [OF f, of c] subsetD [OF C, of c] by (cases "c \<in> children I x") (simp_all add: deep_max_def)
  show ?thesis using old unfolding deep_at_def ch m grow_old(3,8) [OF f x(1)] eq .
qed


section \<open>Agreement at the parent\<close>

lemma grow_best_parent:
  assumes f: "fresh I key p" and wf: "wf_tree I r" and old: "best_at I (bests I) p"
  defines "J \<equiv> grow I key p"
  defines "best \<equiv> (\<forall>d \<in> children J p. candidate J d \<longrightarrow> d \<noteq> key \<longrightarrow> heavier J key d)"
  shows "best \<Longrightarrow> best_at J ((bests J)(p := key)) p" "\<not> best \<Longrightarrow> best_at J (bests J) p"
proof -
  note ne = fresh_ne [OF f]
  have C: "children I p \<subseteq> dom I" using wf_child [OF wf] by blast
  have ch: "children J p = insert key (children I p)" unfolding J_def grow_children [OF f] by simp
  have cand: "candidate J p = candidate I p" "candidate J key = candidate I p" unfolding J_def using grow_old(2) [OF f] grow_new(2) [OF f] ne by blast+
  show "best_at J ((bests J)(p := key)) p" if best
  proof -
    have "heaviest_of J (children J p) key" if "candidate J p" using \<open>best\<close> that cand ch unfolding best_def heaviest_of_def by simp
    then show ?thesis using ne cand ch grow_new(7) [OF f] unfolding best_at_def J_def by auto
  qed
  assume nb: "\<not> best"
  show "best_at J (bests J) p"
  proof (cases "candidate I p")
    case True
    obtain d where d: "d \<in> children I p" "candidate J d" "\<not> heavier J key d" using nb ch unfolding best_def by blast
    have "candidate I d" using d C grow_old(2) [OF f, of d] unfolding J_def by blast
    then obtain e where e: "heaviest_of I (children I p) e" "bests I p = bests I e" using old True d(1) unfolding best_at_def by (auto split: if_splits)
    have ed: "e \<in> dom I" "e \<in> children I p" using e(1) C unfolding heaviest_of_def by blast+
    have eJ: "heaviest_of J (children I p) e" using e(1) unfolding J_def grow_heaviest [OF f C] .
    have "key \<noteq> d" using d(1) C ne by blast
    then have "heavier J d key" using heavier_total [of key d J] d(3) by blast
    then have "heavier J e key" using eJ d(1,2) heavier_trans [of J e d key] unfolding heaviest_of_def by blast
    then have "heaviest_of J (children J p) e" using eJ unfolding ch heaviest_of_def by blast
    moreover have "bests J p = bests J e" using e(2) grow_old(7) [OF f] ne ed unfolding J_def by metis
    moreover have "\<exists>c \<in> children J p. candidate J c" using calculation(1) unfolding heaviest_of_def by blast
    ultimately show ?thesis unfolding best_at_def by (intro impI if_True_cases exI [of _ e]) simp_all
  qed (simp add: best_at_def cand)
qed

lemma grow_deep_parent:
  assumes f: "fresh I key p" and wf: "wf_tree I r" and old: "deep_at I (deepests I) (depth I) p"
  defines "J \<equiv> grow I key p"
  shows "deep_max J (depth J) (children J p) key \<Longrightarrow> depth J p \<le> depth J key + 1"
    "\<not> deep_max J (depth J) (children J p) key \<Longrightarrow> deep_at J (deepests J) (depth J) p"
proof -
  note ne = fresh_ne [OF f]
  have C: "children I p \<subseteq> dom I" using wf_child [OF wf] by blast
  have ch: "children J p = insert key (children I p)" unfolding J_def grow_children [OF f] by simp
  have key: "depth J key = 1" "deepests J key = key" unfolding J_def by (simp_all add: grow_new [OF f])
  have p: "depth J p = depth I p" "deepests J p = deepests I p" unfolding J_def using grow_old(3,8) [OF f] ne by blast+
  have d: "deeper_by J (depth J) c e \<longleftrightarrow> deeper_by I (depth I) c e" if "c \<in> children I p" "e \<in> children I p" for c e
    using subsetD [OF C that(1)] subsetD [OF C that(2)] grow_heavier [OF f, of c e] grow_old(3) [OF f, of c] grow_old(3) [OF f, of e] unfolding deeper_by_def J_def by simp
  show "depth J p \<le> depth J key + 1" if m: "deep_max J (depth J) (children J p) key"
  proof (cases "children I p = {}")
    case False
    then obtain e where e: "e \<in> children I p" "depth I p = depth I e + 1" using old unfolding deep_at_def deep_max_def by auto
    have "e \<in> children J p" "e \<noteq> key" using e(1) ch C ne by blast+
    then have "depth J e \<le> depth J key" using m unfolding deep_max_def deeper_by_def by fastforce
    moreover have "depth J e = depth I e" using e(1) C grow_old(3) [OF f, of e] unfolding J_def by blast
    ultimately show ?thesis using e(2) p(1) by simp
  qed (use old p key in \<open>simp add: deep_at_def\<close>)
  assume nm: "\<not> deep_max J (depth J) (children J p) key"
  then obtain x where x: "x \<in> children I p" "x \<noteq> key" "\<not> deeper_by J (depth J) key x" unfolding deep_max_def ch by blast
  then have xd: "deeper_by J (depth J) x key" using deeper_by_total [of key x J "depth J"] by blast
  obtain e where e: "deep_max I (depth I) (children I p) e" "depth I p = depth I e + 1" "deepests I p = deepests I e" using old x(1) unfolding deep_at_def by (auto split: if_splits)
  have ep: "e \<in> children I p" using e(1) unfolding deep_max_def by blast
  then have ed: "depth J e = depth I e" "deepests J e = deepests I e" using C grow_old(3,8) [OF f, of e] unfolding J_def by blast+
  have same: "deeper_by J (depth J) e y" if "y \<in> children I p" "y \<noteq> e" for y using e(1) d [OF ep that(1)] that unfolding deep_max_def by blast
  have "deeper_by J (depth J) e key" using same [OF x(1)] xd deeper_by_trans [of J "depth J" e x key] by (cases "x = e") auto
  then have "deep_max J (depth J) (children J p) e" using same ep unfolding ch deep_max_def by blast
  then show "deep_at J (deepests J) (depth J) p" using e(2,3) ed p ch unfolding deep_at_def by auto
qed


section \<open>Carrying the leaf up\<close>

lemma grow_bests:
  assumes f: "fresh I key p" and ok: "tree_ok I r"
  defines "J \<equiv> grow I key p"
  shows "\<exists>b. (if \<forall>d \<in> children J p. candidate J d \<longrightarrow> d \<noteq> key \<longrightarrow> heavier J key d then propagate_best key (bests J p) (Some p) J else Some J) = Some (with_best b J) \<and> best_all J b"
proof -
  note ne = fresh_ne [OF f]
  have wf: "wf_tree I r" and m: "marks_ok I" using ok unfolding tree_ok_def by blast+
  have wfJ: "wf_tree J r" unfolding J_def by (rule grow_wf [OF f wf])
  have old: "best_at I (bests I) x" if "x \<in> dom I" for x using ok that unfolding tree_ok_def node_ok_def best_at_bests by blast
  have kids: "children J key = {}" unfolding J_def grow_children [OF f] using ne children_dom [of _ I key] by auto
  have others: "\<forall>x \<in> dom J. x \<noteq> p \<longrightarrow> best_at J (bests J) x"
  proof (intro ballI impI)
    fix x assume x: "x \<in> dom J" "x \<noteq> p"
    show "best_at J (bests J) x"
    proof (cases "x = key")
      case True
      then show ?thesis using kids grow_new(7) [OF f] by (simp add: best_at_def J_def)
    next
      case False
      then have "x \<in> dom I" using x(1) unfolding J_def grow_dom [OF f] by blast
      then show ?thesis unfolding J_def using grow_best_other [OF f wf _ x(2) old] by blast
    qed
  qed
  have below: "\<forall>x \<in> dom J. desc J x (bests J x)"
  proof
    fix x assume x: "x \<in> dom J"
    show "desc J x (bests J x)"
    proof (cases "x = key")
      case True
      then show ?thesis using grow_new(7) [OF f] by (simp add: J_def desc_self)
    next
      case False
      then have xd: "x \<in> dom I" using x unfolding J_def grow_dom [OF f] by blast
      then have "desc I x (bests I x)" using m unfolding marks_ok_def by blast
      then show ?thesis unfolding J_def grow_old(7) [OF f xd] by (rule grow_desc [OF f])
    qed
  qed
  have pk: "p \<in> dom J" "desc J p key" unfolding J_def grow_dom [OF f] using ne desc_child [of key "grow I key p" p] by (simp_all add: grow_children [OF f])
  note parent = grow_best_parent [OF f wf old [of p], folded J_def]
  show ?thesis
  proof (cases "\<forall>d \<in> children J p. candidate J d \<longrightarrow> d \<noteq> key \<longrightarrow> heavier J key d")
    case True
    have "best_at J ((bests J)(p := key)) p" using parent(1) True ne by blast
    then have "\<exists>b'. propagate_best key (bests J p) (Some p) (with_best (bests J) J) = Some (with_best b' J) \<and> best_all J b'"
      by (intro propagate_best_ok [OF wfJ pk(1) others _ _ pk(2) below]) simp_all
    then show ?thesis using True unfolding with_best_id by simp
  next
    case False
    have "best_at J (bests J) p" using parent(2) False ne by blast
    then have "best_at J (bests J) x" if "x \<in> dom J" for x using others that by (cases "x = p") auto
    then have "best_all J (bests J)" using below unfolding best_all_def by blast
    moreover have "with_best (bests J) J = J" by (rule with_best_id)
    ultimately show ?thesis unfolding if_not_P [OF False] by (intro exI [of _ "bests J"]) simp
  qed
qed

lemma deep_with_best:
  assumes wf: "wf_tree I r" and k: "k \<in> dom I"
  shows "deep_max (with_best b I) h (children I k) c \<longleftrightarrow> deep_max I h (children I k) c" "deep_at (with_best b I) d h k \<longleftrightarrow> deep_at I d h k"
proof -
  have sub: "\<forall>c \<in> children I k. c \<in> dom I" using wf_child [OF wf] by blast
  have ch: "children (with_best b I) = children I" by (rule same_shape_children [OF with_best_shape])
  show max: "deep_max (with_best b I) h (children I k) c \<longleftrightarrow> deep_max I h (children I k) c" for c
    unfolding deep_max_def deeper_by_def heavier_def using sub by (metis (no_types, lifting) with_best_node(2))
  show "deep_at (with_best b I) d h k \<longleftrightarrow> deep_at I d h k" unfolding deep_at_def ch max ..
qed

lemma best_with_deepest:
  assumes wf: "wf_tree I r" and k: "k \<in> dom I"
  shows "best_at (with_deepest d h I) b k \<longleftrightarrow> best_at I b k"
proof -
  have sub: "\<forall>c \<in> children I k. c \<in> dom I" using wf_child [OF wf] by blast
  have ch: "children (with_deepest d h I) = children I" by (rule same_shape_children [OF with_deepest_shape])
  have ex: "(\<exists>c \<in> children I k. candidate (with_deepest d h I) c) \<longleftrightarrow> (\<exists>c \<in> children I k. candidate I c)" using sub with_deepest_node(3) by blast
  have max: "heaviest_of (with_deepest d h I) (children I k) c \<longleftrightarrow> heaviest_of I (children I k) c" for c
    unfolding heaviest_of_def heavier_def using sub by (metis (no_types, lifting) with_deepest_node(2,3))
  show ?thesis unfolding best_at_def ch ex max with_deepest_node(3) [OF k] ..
qed

lemma with_deepest_best: "with_deepest d h (with_best b I) = with_best b (with_deepest d h I)"
proof
  show "with_deepest d h (with_best b I) k = with_best b (with_deepest d h I) k" for k by (cases "I k") (simp_all add: with_deepest_def with_best_def)
qed


lemma grow_marks:
  assumes f: "fresh I key p" and m: "marks_ok I" and x: "x \<in> dom (grow I key p)"
  shows "confirmed (grow I key p) x \<Longrightarrow> invalid (grow I key p) x = None" "invalid (grow I key p) x = Some a \<Longrightarrow> a \<le> fst x"
proof -
  note ne = fresh_ne [OF f]
  have old: "y \<in> dom I \<Longrightarrow> confirmed I y \<Longrightarrow> invalid I y = None" "y \<in> dom I \<Longrightarrow> invalid I y = Some a \<Longrightarrow> a \<le> fst y" for y a
    using m unfolding marks_ok_def by blast+
  show "invalid (grow I key p) x = None" if "confirmed (grow I key p) x"
    using that x old(1) grow_new(4) [OF f] grow_old(4,5) [OF f] unfolding grow_dom [OF f] by (metis insertE)
  show "a \<le> fst x" if a: "invalid (grow I key p) x = Some a"
  proof (cases "x = key")
    case True
    then have "a \<le> fst p" using a old(2) [of p a] ne grow_new(5) [OF f] by simp
    then show ?thesis using f True unfolding fresh_def by (simp add: less_imp_le order_trans)
  next
    case False
    then show ?thesis using a x old(2) grow_old(5) [OF f] unfolding grow_dom [OF f] by (metis insertE)
  qed
qed

lemma grow_inherited:
  assumes f: "fresh I key p" and wf: "wf_tree I r" and inh: "\<forall>p a. \<forall>c \<in> children I p. invalid I p = Some a \<longrightarrow> (\<exists>b. invalid I c = Some b \<and> a \<le> b)"
    and c: "c \<in> children (grow I key p) q" and a: "invalid (grow I key p) q = Some a"
  shows "\<exists>b. invalid (grow I key p) c = Some b \<and> a \<le> b"
proof (cases "c \<in> children I q")
  case True
  then have d: "q \<in> dom I" "c \<in> dom I" using wf_child [OF wf True] by auto
  then show ?thesis using inh True a grow_old(5) [OF f d(1)] grow_old(5) [OF f d(2)] by simp
next
  case False
  then have "c = key" "q = p" using c unfolding grow_children [OF f] by (auto split: if_splits)
  then show ?thesis using a grow_new(5) [OF f] grow_old(5) [OF f, of p] fresh_ne [OF f] by simp
qed

lemma grow_sums:
  assumes f: "fresh I key p" and wf: "wf_tree I r" and n: "\<forall>k \<in> dom I. node_ok I k" and x: "x \<in> dom (grow I key p)"
  shows "stake_ok (grow I key p) x" "c \<in> children (grow I key p) x \<Longrightarrow> confirmed (grow I key p) c \<Longrightarrow> confirmed (grow I key p) x"
proof -
  let ?J = "grow I key p"
  note ne = fresh_ne [OF f]
  have kids: "children ?J key = {}" unfolding grow_children [OF f] using ne children_dom [of _ I key] by auto
  have sub: "\<forall>c \<in> children I y. c \<in> dom I" for y using wf_child [OF wf] by blast
  have fin: "finite (children I y)" for y by (rule wf_children_finite [OF wf])
  show "stake_ok ?J x"
  proof (cases "x = key")
    case True
    then show ?thesis using kids grow_new(1,6) [OF f] by (simp add: stake_ok_def)
  next
    case False
    then have xd: "x \<in> dom I" using x unfolding grow_dom [OF f] by blast
    have eq: "(\<Sum>c \<in> children I x. weight ?J c) = (\<Sum>c \<in> children I x. weight I c)" using sub [of x] grow_old(1) [OF f] by (intro sum.cong) blast+
    have "key \<notin> children I x" using sub [of x] ne by blast
    then have "(\<Sum>c \<in> children ?J x. weight ?J c) = (\<Sum>c \<in> children I x. weight I c)"
      using eq fin [of x] grow_new(1) [OF f] unfolding grow_children [OF f] by (cases "x = p") simp_all
    moreover have "stake_ok I x" using n xd unfolding node_ok_def by blast
    ultimately show ?thesis unfolding stake_ok_def grow_old(1,6) [OF f xd] by simp
  qed
  assume c: "c \<in> children ?J x" and con: "confirmed ?J c"
  have "c \<noteq> key" using con grow_new(4) [OF f] by blast
  then have cx: "c \<in> children I x" using c unfolding grow_children [OF f] by (auto split: if_splits)
  have d: "x \<in> dom I" "c \<in> dom I" using wf_child [OF wf cx] by auto
  have "confirmed I c \<longrightarrow> confirmed I x" using n d(1) cx unfolding node_ok_def by blast
  then show "confirmed ?J x" using con grow_old(4) [OF f d(1)] grow_old(4) [OF f d(2)] by simp
qed

lemma grow_deepests:
  fixes b :: "'h::linorder slot_hash_key \<Rightarrow> 'h slot_hash_key"
  assumes f: "fresh I key p" and wf: "wf_tree I r" and n: "\<forall>k \<in> dom I. node_ok I k"
  defines "J \<equiv> grow I key p"
  defines "B \<equiv> with_best b J"
  shows "\<exists>d h. propagate_deepest key (Some p) key 1 (self\<lparr>fork_infos := B\<rparr>) = Some (self\<lparr>fork_infos := with_deepest d h B\<rparr>) \<and> (\<forall>x \<in> dom J. deep_at B d h x)"
proof -
  note ne = fresh_ne [OF f]
  have wfJ: "wf_tree J r" unfolding J_def by (rule grow_wf [OF f wf])
  note shape = with_best_shape [of J b, folded B_def]
  have wfB: "wf_tree B r" by (rule same_shape_wf [OF shape wfJ])
  have ch: "children B = children J" and dom: "dom B = dom J" using same_shape_children [OF shape] same_shape_dom [OF shape] by auto
  have domJ: "dom J = insert key (dom I)" unfolding J_def by (rule grow_dom [OF f])
  have kp: "key \<in> children B p" "p \<in> dom J" "key \<in> dom J" using ne unfolding ch domJ by (simp_all add: J_def grow_children [OF f])
  have dep: "depth B x = depth J x" "deepests B x = deepests J x" if "x \<in> dom J" for x unfolding B_def using with_best_node(4,8) [OF that] by blast+
  have sub: "\<forall>c \<in> children J x. c \<in> dom J" for x using wf_child [OF wfJ] by blast
  have cong: "deep_max J (depth B) (children J x) c \<longleftrightarrow> deep_max J (depth J) (children J x) c" for x c
    unfolding deep_max_def deeper_by_def using sub [of x] dep(1) by (metis (no_types, lifting))
  have at: "deep_at B (deepests B) (depth B) x \<longleftrightarrow> deep_at J (deepests J) (depth J) x" if x: "x \<in> dom J" for x
  proof -
    have "deep_max J (depth J) (children J x) c \<and> depth J x = depth B c + 1 \<and> deepests J x = deepests B c \<longleftrightarrow>
        deep_max J (depth J) (children J x) c \<and> depth J x = depth J c + 1 \<and> deepests J x = deepests J c" for c
      using sub [of x] dep [of c] by (cases "c \<in> children J x") (simp_all add: deep_max_def)
    then show ?thesis unfolding B_def deep_with_best(2) [OF wfJ x] unfolding B_def [symmetric] deep_at_def cong dep [OF x] by simp
  qed
  have max: "deep_max B (depth B) (children B p) key \<longleftrightarrow> deep_max J (depth J) (children J p) key"
    unfolding ch using deep_with_best(1) [OF wfJ kp(2), of b "depth B" key] cong unfolding B_def by simp
  have old: "deep_at I (deepests I) (depth I) x" if "x \<in> dom I" for x using n that unfolding node_ok_def deep_at_deepests by blast
  have "deep_at J (deepests J) (depth J) x" if x: "x \<in> dom J" "x \<noteq> p" for x
  proof (cases "x = key")
    case True
    have "children J key = {}" unfolding J_def grow_children [OF f] using ne children_dom [of _ I key] by auto
    then show ?thesis using True grow_new(3,8) [OF f] by (simp add: deep_at_def J_def)
  next
    case False
    then have "x \<in> dom I" using x(1) domJ by blast
    then show ?thesis unfolding J_def using grow_deep_other [OF f wf _ x(2) old] by blast
  qed
  then have others: "\<forall>x \<in> dom B. x \<noteq> p \<longrightarrow> deep_at B (deepests B) (depth B) x" using at dom by blast
  have pI: "deep_at I (deepests I) (depth I) p" using old ne by blast
  note parent = grow_deep_parent [OF f wf pI, folded J_def]
  have key: "depth B key = 1" "deepests B key = key" using dep [OF kp(3)] grow_new(3,8) [OF f] unfolding J_def by simp_all
  have "\<exists>d' h'. propagate_deepest key (Some p) key (depth B key) (self\<lparr>fork_infos := with_deepest (deepests B) (depth B) B\<rparr>) =
      Some (self\<lparr>fork_infos := with_deepest d' h' B\<rparr>) \<and> (\<forall>x \<in> dom B. deep_at B d' h' x)"
    by (rule propagate_deepest_ok [OF wfB kp(1) others _ _ key(2)]) (use parent max at kp dep in simp_all)
  then show ?thesis unfolding with_deepest_id key dom .
qed

text \<open>The tree in the end: the one with the leaf, with other best and deepest slots.\<close>

lemma regrown_ok:
  assumes f: "fresh I key p" and ok: "tree_ok I r"
  defines "J \<equiv> grow I key p"
  assumes b: "best_all J b" and d: "\<forall>x \<in> dom J. deep_at (with_best b J) d h x"
  defines "K \<equiv> with_deepest d h (with_best b J)"
  shows "tree_ok K r" "dom K = insert key (dom I)" "x \<in> dom I \<Longrightarrow> stake_of K x = stake_of I x" "stake_of K key = 0"
proof -
  note ne = fresh_ne [OF f]
  have wf: "wf_tree I r" and m: "marks_ok I" and inh: "\<forall>p a. \<forall>c \<in> children I p. invalid I p = Some a \<longrightarrow> (\<exists>b. invalid I c = Some b \<and> a \<le> b)"
    and n: "\<forall>k \<in> dom I. node_ok I k" using ok unfolding tree_ok_def by blast+
  have wfJ: "wf_tree J r" unfolding J_def by (rule grow_wf [OF f wf])
  have shape: "same_shape J K" unfolding K_def by (rule same_shape_trans [OF with_best_shape with_deepest_shape])
  have wfK: "wf_tree K r" by (rule same_shape_wf [OF shape wfJ])
  have domJ: "dom J = insert key (dom I)" unfolding J_def by (rule grow_dom [OF f])
  show domK: "dom K = insert key (dom I)" using same_shape_dom [OF shape] domJ by simp
  have chK: "children K = children J" by (rule same_shape_children [OF shape])
  have K: "weight K x = weight J x" "candidate K x = candidate J x" "confirmed K x = confirmed J x" "invalid K x = invalid J x" "stake_of K x = stake_of J x" "bests K x = b x"
    if "x \<in> dom J" for x
    using with_best_node [OF that, of b] with_deepest_node [of x "with_best b J" d h] unfolding K_def by simp_all
  show old: "stake_of K x = stake_of I x" if "x \<in> dom I" for x
  proof -
    have "x \<in> dom J" using that domJ by simp
    then show ?thesis using K(5) grow_old(6) [OF f that] unfolding J_def by metis
  qed
  show "stake_of K key = 0"
  proof -
    have "key \<in> dom J" using domJ by simp
    then show ?thesis using K(5) grow_new(6) [OF f] unfolding J_def by metis
  qed
  have marks: "marks_ok K" unfolding marks_ok_def domK
  proof (intro ballI conjI impI allI)
    fix x assume "x \<in> insert key (dom I)"
    then have x: "x \<in> dom J" using domJ by simp
    note gm = grow_marks [OF f m x [unfolded J_def], folded J_def]
    show "invalid K x = None" if "confirmed K x" using that gm(1) unfolding K(3,4) [OF x] by blast
    show "a \<le> fst x" if "invalid K x = Some a" for a using that gm(2) unfolding K(4) [OF x] by blast
    show "desc K x (bests K x)" using b x unfolding same_shape_desc [OF shape] K(6) [OF x] best_all_def by blast
  qed
  have "node_ok K x" if x: "x \<in> dom J" for x
  proof -
    note sums = grow_sums [OF f wf n x [unfolded J_def], folded J_def]
    have sub: "\<forall>c \<in> children J x. c \<in> dom J" using wf_child [OF wfJ] by blast
    have "stake_ok K x" using sums(1) sub K(1) unfolding stake_ok_def chK K(1,5) [OF x] by (simp cong: sum.cong)
    moreover have "candidate K x \<longrightarrow> best_ok K x"
    proof -
      let ?D = "with_deepest d h J"
      have "wf_tree ?D r" "x \<in> dom ?D" using same_shape_wf [OF with_deepest_shape wfJ] same_shape_dom [OF with_deepest_shape] x by (blast, metis)
      then show ?thesis using best_ok_with_best [of ?D r x b] best_with_deepest [OF wfJ x] b x unfolding K_def with_deepest_best best_all_def by blast
    qed
    moreover have "deep_ok K x"
    proof -
      let ?B = "with_best b J"
      have "wf_tree ?B r" "x \<in> dom ?B" using same_shape_wf [OF with_best_shape wfJ] same_shape_dom [OF with_best_shape] x by (blast, metis)
      then show ?thesis using deep_ok_with_deepest [of ?B r x d h] d x unfolding K_def by blast
    qed
    moreover have "confirmed K x" if "c \<in> children J x" "confirmed K c" for c
      using sums(2) [OF that(1)] that K(3) [OF x] K(3) [of c] sub by blast
    ultimately show ?thesis unfolding node_ok_def chK by blast
  qed
  then have "\<forall>x \<in> dom K. node_ok K x" using domJ domK by simp
  moreover have "\<exists>b. invalid K c = Some b \<and> a \<le> b" if c: "c \<in> children K q" and a: "invalid K q = Some a" for q a c
  proof -
    have cJ: "c \<in> children J q" using c chK by simp
    have d: "q \<in> dom J" "c \<in> dom J" using wf_child [OF wfJ cJ] by auto
    show ?thesis using grow_inherited [OF f wf inh cJ [unfolded J_def], folded J_def] a unfolding K(4) [OF d(1)] K(4) [OF d(2)] by blast
  qed
  ultimately show "tree_ok K r" using wfK marks unfolding tree_ok_def by blast
qed

section \<open>Adding a block\<close>

lemma add_new_leaf_ok:
  assumes ok: "fork_ok stake self" and f: "fresh (fork_infos self) key p" and votes: "key \<notin> ran (latest_votes self)"
  shows "\<exists>K. add_new_leaf_slot self key (Some p) = Some (self\<lparr>fork_infos := K\<rparr>) \<and> fork_ok stake (self\<lparr>fork_infos := K\<rparr>) \<and> dom K = insert key (dom (fork_infos self))"
proof -
  let ?I = "fork_infos self" and ?r = "tree_root self"
  let ?J = "grow ?I key p"
  note ne = fresh_ne [OF f]
  have tree: "tree_ok ?I ?r" using ok unfolding fork_ok_def by blast
  then have wf: "wf_tree ?I ?r" and n: "\<forall>k \<in> dom ?I. node_ok ?I k" unfolding tree_ok_def by blast+
  have wfJ: "wf_tree ?J ?r" by (rule grow_wf [OF f wf])
  have kp: "key \<in> children ?J p" "p \<in> dom ?J" unfolding grow_children [OF f] grow_dom [OF f] using ne by simp_all
  let ?s = "self\<lparr>fork_infos := ?J\<rparr>"
  have enter: "add_new_leaf_slot self key (Some p) = propagate_new_leaf ?s key p"
    using f ne by (auto simp: add_new_leaf_slot_def new_leaf_info_def latest_invalid_ancestor_def grow_def leaf_of_def fresh_def)
  obtain b where b: "(if \<forall>d \<in> children ?J p. candidate ?J d \<longrightarrow> d \<noteq> key \<longrightarrow> heavier ?J key d then propagate_best key (bests ?J p) (Some p) ?J else Some ?J) = Some (with_best b ?J)"
    "best_all ?J b" using grow_bests [OF f tree] by blast
  let ?B = "with_best b ?J"
  obtain d h where d: "propagate_deepest key (Some p) key 1 (self\<lparr>fork_infos := ?B\<rparr>) = Some (self\<lparr>fork_infos := with_deepest d h ?B\<rparr>)"
    "\<forall>x \<in> dom ?J. deep_at ?B d h x" using grow_deepests [OF f wf n, of b self] by blast
  let ?K = "with_deepest d h ?B"
  note grown = regrown_ok [OF f tree b(2) d(2)]
  have "is_best_child ?s key = Some (\<forall>d \<in> children ?J p. candidate ?J d \<longrightarrow> d \<noteq> key \<longrightarrow> heavier ?J key d)"
    using is_best_child_ok [of ?s ?r key p] wfJ kp(1) by simp
  moreover have "best_slot ?s p = Some (bests ?J p)" using kp(2) by (auto simp: best_slot_def)
  ultimately have "propagate_new_leaf ?s key p = Some (self\<lparr>fork_infos := ?K\<rparr>)"
    using b(1) d(1) unfolding propagate_new_leaf_def by (auto split: if_splits)
  moreover have "vote_sum stake (latest_votes self) key = 0" using votes by (auto simp: vote_sum_def ran_def)
  then have "fork_ok stake (self\<lparr>fork_infos := ?K\<rparr>)" using ok grown unfolding fork_ok_def by simp
  ultimately show ?thesis using enter grown(2) by (intro exI [of _ ?K]) simp
qed

end
