(* ===== verification/Fork_Roots.thy ===== *)
theory Fork_Roots
  imports Fork_Insert
begin

text \<open>
  Changes to a whole fork: moving the root, and marking a fork invalid or valid. The walk over a subtree returns, and what is left is in agreement.
\<close>

section \<open>Subtrees\<close>

definition subtree :: "'h fork_map \<Rightarrow> 'h slot_hash_key \<Rightarrow> 'h slot_hash_key set" where
  "subtree I k = {x. desc I k x}"

lemma subtree_self: "k \<in> subtree I k"
  by (simp add: subtree_def desc_self)

lemma subtree_unfold: "subtree I k = insert k (\<Union>c \<in> children I k. subtree I c)"
proof
  show "subtree I k \<subseteq> insert k (\<Union>c \<in> children I k. subtree I c)"
  proof
    fix x assume "x \<in> subtree I k"
    then have "desc I k x" by (simp add: subtree_def)
    then show "x \<in> insert k (\<Union>c \<in> children I k. subtree I c)" by (cases rule: desc.cases) (auto simp: subtree_def)
  qed
  show "insert k (\<Union>c \<in> children I k. subtree I c) \<subseteq> subtree I k"
    using subtree_self [of k I] by (auto simp: subtree_def intro: desc_step)
qed

lemma subtree_dom: "wf_tree I r \<Longrightarrow> k \<in> dom I \<Longrightarrow> subtree I k \<subseteq> dom I"
  using desc_dom [of I k _ r] by (auto simp: subtree_def)

lemma wf_finite: "wf_tree I r \<Longrightarrow> finite (dom I)" and wf_root_in: "wf_tree I r \<Longrightarrow> r \<in> dom I"
  unfolding wf_tree_def by (elim conjE, assumption)+

lemma subtree_finite: "wf_tree I r \<Longrightarrow> k \<in> dom I \<Longrightarrow> finite (subtree I k)"
  using subtree_dom [of I r k] wf_finite [of I r] finite_subset by blast

lemma subtrees_disjoint:
  assumes wf: "wf_tree I r" and c: "c \<in> children I k" "d \<in> children I k" "c \<noteq> d"
  shows "subtree I c \<inter> subtree I d = {}"
  using siblings_disjoint [OF wf c] by (auto simp: subtree_def)

lemma subtree_sum:
  fixes g :: "'h slot_hash_key \<Rightarrow> 'b::comm_monoid_add"
  assumes wf: "wf_tree I r" and k: "k \<in> dom I"
  shows "(\<Sum>x \<in> subtree I k. g x) = g k + (\<Sum>c \<in> children I k. \<Sum>x \<in> subtree I c. g x)"
proof -
  have fin: "finite (children I k)" "\<forall>c \<in> children I k. finite (subtree I c)"
    using wf_children_finite [OF wf] subtree_finite [OF wf] wf_child [OF wf, of _ k] by blast+
  have no: "k \<notin> (\<Union>c \<in> children I k. subtree I c)" using child_not_self [OF wf] by (auto simp: subtree_def)
  have "(\<Sum>x \<in> subtree I k. g x) = g k + (\<Sum>x \<in> (\<Union>c \<in> children I k. subtree I c). g x)"
    unfolding subtree_unfold [of I k] using fin no by (subst sum.insert) auto
  also have "(\<Sum>x \<in> (\<Union>c \<in> children I k. subtree I c). g x) = (\<Sum>c \<in> children I k. \<Sum>x \<in> subtree I c. g x)"
    using fin subtrees_disjoint [OF wf, of _ k] by (intro sum.UNION_disjoint) blast+
  finally show ?thesis .
qed

text \<open>The measure of the walk: the sizes of the subtrees still to visit.\<close>

definition work :: "'h fork_map \<Rightarrow> 'h slot_hash_key list \<Rightarrow> nat" where
  "work I ks = (\<Sum>k \<leftarrow> ks. card (subtree I k))"

lemma work_step:
  assumes wf: "wf_tree I r" and k: "k \<in> dom I"
  shows "work I (rev (sorted_list_of_set (children I k)) @ ks) < work I (k # ks)" "work I ks < work I (k # ks)"
proof -
  have fin: "finite (children I k)" by (rule wf_children_finite [OF wf])
  have "card (subtree I k) = 1 + (\<Sum>c \<in> children I k. card (subtree I c))"
    using subtree_sum [OF wf k, of "\<lambda>_. 1 :: nat"] by simp
  moreover have "work I (rev (sorted_list_of_set (children I k))) = (\<Sum>c \<in> children I k. card (subtree I c))"
    unfolding work_def using fin by (subst sum_list_distinct_conv_sum_set) simp_all
  ultimately show "work I (rev (sorted_list_of_set (children I k)) @ ks) < work I (k # ks)" "work I ks < work I (k # ks)" by (simp_all add: work_def)
qed

lemma diff_loop_ok:
  assumes wf: "wf_tree I r"
  shows "\<forall>k \<in> set ks. k \<in> dom I \<and> (desc I root2 k \<longrightarrow> k = root2) \<Longrightarrow>
    diff_loop I root2 ks S = Some (S \<union> {x. (\<exists>k \<in> set ks. desc I k x) \<and> \<not> desc I root2 x})"
proof (induction "work I ks" arbitrary: ks S rule: less_induct)
  case less
  show ?case
  proof (cases ks)
    case Nil
    then show ?thesis by (simp add: diff_loop.simps)
  next
    case (Cons k qs)
    have k: "k \<in> dom I" "desc I root2 k \<longrightarrow> k = root2" and qs: "\<forall>q \<in> set qs. q \<in> dom I \<and> (desc I root2 q \<longrightarrow> q = root2)" using less.prems Cons by auto
    note step = work_step [OF wf k(1), of qs]
    show ?thesis
    proof (cases "k = root2")
      case True
      have "diff_loop I root2 ks S = diff_loop I root2 qs S" unfolding Cons True by (subst diff_loop.simps) simp
      also have "\<dots> = Some (S \<union> {x. (\<exists>q \<in> set qs. desc I q x) \<and> \<not> desc I root2 x})" by (rule less.hyps [OF step(2) [folded Cons] qs])
      finally show ?thesis unfolding Cons using True by auto
    next
      case False
      let ?cs = "rev (sorted_list_of_set (children I k))"
      have set: "set ?cs = children I k" using wf_children_finite [OF wf] by simp
      have ch: "children_of I k = Some (children I k)" using k(1) by (auto simp: children_of_def children_def)
      have go: "diff_loop I root2 ks S = diff_loop I root2 (?cs @ qs) (insert k S)" unfolding Cons using False ch by (subst diff_loop.simps) simp
      have "c \<in> dom I \<and> (desc I root2 c \<longrightarrow> c = root2)" if "c \<in> children I k" for c
        using wf_child [OF wf that] desc_parent [OF _ wf, of root2 c k] k(2) False by blast
      then have "\<forall>q \<in> set (?cs @ qs). q \<in> dom I \<and> (desc I root2 q \<longrightarrow> q = root2)" using qs set by auto
      then have "diff_loop I root2 ks S = Some (insert k S \<union> {x. (\<exists>q \<in> set (?cs @ qs). desc I q x) \<and> \<not> desc I root2 x})"
        unfolding go by (rule less.hyps [OF step(1) [folded Cons]])
      moreover have "insert k S \<union> {x. (\<exists>q \<in> set (?cs @ qs). desc I q x) \<and> \<not> desc I root2 x} = S \<union> {x. (\<exists>q \<in> set ks. desc I q x) \<and> \<not> desc I root2 x}"
      proof -
        have "desc I k x \<longleftrightarrow> x = k \<or> (\<exists>c \<in> children I k. desc I c x)" for x using subtree_unfold [of I k] by (auto simp: subtree_def)
        moreover have "\<not> desc I root2 k" using k(2) False by blast
        ultimately show ?thesis using Cons set by auto
      qed
      ultimately show ?thesis by simp
    qed
  qed
qed

lemma subtree_diff_ok:
  assumes wf: "wf_tree I r" and k: "k \<in> dom I" and no: "desc I root2 k \<longrightarrow> k = root2"
  shows "subtree_diff I k root2 = Some (subtree I k - subtree I root2)"
proof -
  have "diff_loop I root2 [k] {} = Some ({} \<union> {x. (\<exists>q \<in> set [k]. desc I q x) \<and> \<not> desc I root2 x})" by (rule diff_loop_ok [OF wf]) (use k no in simp)
  moreover have "I k \<noteq> None" using k by auto
  ultimately show ?thesis by (auto simp: subtree_diff_def subtree_def)
qed


section \<open>Moving the root\<close>

text \<open>Agreement depends on the children and on some fields only.\<close>

definition same_fields :: "'h fork_map \<Rightarrow> 'h fork_map \<Rightarrow> 'h slot_hash_key \<Rightarrow> bool" where
  "same_fields I J y \<longleftrightarrow> weight J y = weight I y \<and> stake_of J y = stake_of I y \<and> candidate J y = candidate I y \<and> depth J y = depth I y \<and>
     confirmed J y = confirmed I y \<and> invalid J y = invalid I y \<and> bests J y = bests I y \<and> deepests J y = deepests I y"

lemma node_ok_fields:
  assumes ch: "children J x = children I x" and eq: "\<forall>y \<in> insert x (children I x). same_fields I J y"
  shows "node_ok J x \<longleftrightarrow> node_ok I x"
proof -
  have e: "weight J y = weight I y" "stake_of J y = stake_of I y" "candidate J y = candidate I y" "depth J y = depth I y"
    "confirmed J y = confirmed I y" "bests J y = bests I y" "deepests J y = deepests I y" if "y \<in> insert x (children I x)" for y
    using bspec [OF eq that] unfolding same_fields_def by blast+
  note x = e [OF insertI1] and c = e [OF insertI2]
  have hv: "heavier J a b \<longleftrightarrow> heavier I a b" and dp: "deeper J a b \<longleftrightarrow> deeper I a b" if "a \<in> children I x" "b \<in> children I x" for a b
    using c(1,4) [OF that(1)] c(1,4) [OF that(2)] by (simp_all add: heavier_def deeper_def)
  have h: "heaviest_of J (children I x) d \<and> bests I x = bests J d \<longleftrightarrow> heaviest_of I (children I x) d \<and> bests I x = bests I d" for d
  proof (cases "d \<in> children I x")
    case True
    have "(\<forall>e \<in> children I x. candidate J e \<longrightarrow> e \<noteq> d \<longrightarrow> heavier J d e) \<longleftrightarrow> (\<forall>e \<in> children I x. candidate I e \<longrightarrow> e \<noteq> d \<longrightarrow> heavier I d e)"
      using hv [OF True] c(3) by blast
    then show ?thesis using True c(3,6) [OF True] unfolding heaviest_of_def by simp
  qed (simp add: heaviest_of_def)
  have d: "deepest_of J (children I x) z \<and> depth I x = depth J z + 1 \<and> deepests I x = deepests J z \<longleftrightarrow>
      deepest_of I (children I x) z \<and> depth I x = depth I z + 1 \<and> deepests I x = deepests I z" for z
  proof (cases "z \<in> children I x")
    case True
    have "(\<forall>e \<in> children I x. e \<noteq> z \<longrightarrow> deeper J z e) \<longleftrightarrow> (\<forall>e \<in> children I x. e \<noteq> z \<longrightarrow> deeper I z e)" using dp [OF True] by blast
    then show ?thesis using True c(4,7) [OF True] unfolding deepest_of_def by simp
  qed (simp add: deepest_of_def)
  have "(\<exists>y \<in> children I x. candidate J y) \<longleftrightarrow> (\<exists>y \<in> children I x. candidate I y)" using c(3) by blast
  then have "best_ok J x \<longleftrightarrow> best_ok I x" unfolding best_ok_def ch x(6) h by simp
  moreover have "deep_ok J x \<longleftrightarrow> deep_ok I x" unfolding deep_ok_def ch x(4,7) d ..
  moreover have "stake_ok J x \<longleftrightarrow> stake_ok I x" unfolding stake_ok_def ch x(1,2) using c(1) by (simp cong: sum.cong)
  moreover have "(\<forall>y \<in> children I x. confirmed J y \<longrightarrow> confirmed I x) \<longleftrightarrow> (\<forall>y \<in> children I x. confirmed I y \<longrightarrow> confirmed I x)" using c(5) by blast
  ultimately show ?thesis unfolding node_ok_def ch x(3,5) by simp
qed

definition reroot :: "'h fork_map \<Rightarrow> 'h slot_hash_key \<Rightarrow> 'h fork_map" where
  "reroot I q = (I |` subtree I q)(q \<mapsto> (node I q)\<lparr>fi_parent := None\<rparr>)"

lemma reroot_facts:
  assumes wf: "wf_tree I r" and q: "q \<in> dom I"
  shows "dom (reroot I q) = subtree I q" "x \<in> subtree I q \<Longrightarrow> children (reroot I q) x = children I x"
    "x \<in> subtree I q \<Longrightarrow> parent_of (reroot I q) x = (if x = q then None else parent_of I x)" "x \<in> subtree I q \<Longrightarrow> same_fields I (reroot I q) x"
proof -
  show "dom (reroot I q) = subtree I q" using subtree_dom [OF wf q] subtree_self [of q I] by (auto simp: reroot_def)
  assume x: "x \<in> subtree I q"
  have J: "reroot I q x = (if x = q then Some ((node I q)\<lparr>fi_parent := None\<rparr>) else I x)" using x by (simp add: reroot_def)
  show "children (reroot I q) x = children I x" "parent_of (reroot I q) x = (if x = q then None else parent_of I x)" "same_fields I (reroot I q) x"
    using q by (auto simp: children_def parent_of_def same_fields_def fi_is_candidate_def J)
qed

lemma reroot_wf:
  assumes wf: "wf_tree I r" and q: "q \<in> dom I"
  shows "wf_tree (reroot I q) q"
proof -
  note f = reroot_facts [OF wf q]
  have all: "(parent_of (reroot I q) x = None \<longleftrightarrow> x = q) \<and> (\<forall>p. parent_of (reroot I q) x = Some p \<longrightarrow> x \<in> children (reroot I q) p) \<and>
      (\<forall>c \<in> children (reroot I q) x. fst x < fst c \<and> c \<in> dom (reroot I q) \<and> parent_of (reroot I q) c = Some x)" if "x \<in> dom (reroot I q)" for x
  proof -
    have x: "x \<in> subtree I q" "x \<in> dom I" using that f(1) subtree_dom [OF wf q] by auto
    have up: "\<exists>p. parent_of I x = Some p \<and> p \<in> subtree I q" if "x \<noteq> q" using desc_cases_parent [OF _ wf, of q x] x(1) that by (auto simp: subtree_def)
    have kid: "fst x < fst c \<and> c \<in> dom (reroot I q) \<and> parent_of (reroot I q) c = Some x" if c: "c \<in> children I x" for c
    proof -
      have cq: "c \<in> subtree I q" using x(1) desc_trans [OF _ desc_child [OF c], of q] by (simp add: subtree_def)
      have "c \<noteq> q" using child_not_self [OF wf c] x(1) by (auto simp: subtree_def)
      then show ?thesis using wf_child [OF wf c] cq f(3) [OF cq] f(1) by simp
    qed
    have "x \<in> children (reroot I q) p" if p: "parent_of (reroot I q) x = Some p" for p
    proof -
      have "x \<noteq> q" "parent_of I x = Some p" using p f(3) [OF x(1)] by (auto split: if_splits)
      then show ?thesis using up wf_parent [OF wf, of x p] f(2) [of p] by auto
    qed
    then show ?thesis using f(2,3) [OF x(1)] up kid by auto
  qed
  have "finite (dom (reroot I q))" "q \<in> dom (reroot I q)" unfolding f(1) using subtree_finite [OF wf q] subtree_self [of q I] by simp_all
  then show ?thesis unfolding wf_tree_def by (intro conjI ballI all)
qed

lemma reroot_desc:
  assumes wf: "wf_tree I r" and q: "q \<in> dom I"
  shows "desc I x y \<Longrightarrow> x \<in> subtree I q \<Longrightarrow> desc (reroot I q) x y"
proof (induction rule: desc.induct)
  case (desc_step c k d)
  have "c \<in> subtree I q" using desc_step.prems desc_trans [OF _ desc_child [OF desc_step.hyps(1)], of q] by (simp add: subtree_def)
  moreover have "c \<in> children (reroot I q) k" using desc_step.hyps(1) reroot_facts(2) [OF wf q desc_step.prems] by simp
  ultimately show ?case using desc_step.IH desc.desc_step by blast
qed (rule desc.desc_self)


lemma reroot_ok:
  assumes ok: "tree_ok I r" and q: "q \<in> dom I"
  shows "tree_ok (reroot I q) q"
proof -
  have wf: "wf_tree I r" and m: "marks_ok I" and n: "\<forall>k \<in> dom I. node_ok I k"
    and inh: "\<forall>p a. \<forall>c \<in> children I p. invalid I p = Some a \<longrightarrow> (\<exists>b. invalid I c = Some b \<and> a \<le> b)" using ok unfolding tree_ok_def by blast+
  note f = reroot_facts [OF wf q] and wfJ = reroot_wf [OF wf q]
  have sub: "subtree I q \<subseteq> dom I" by (rule subtree_dom [OF wf q])
  have fields: "confirmed (reroot I q) x = confirmed I x" "invalid (reroot I q) x = invalid I x" "bests (reroot I q) x = bests I x" if "x \<in> subtree I q" for x
    using f(4) [OF that] unfolding same_fields_def by blast+
  have kids: "children I x \<subseteq> subtree I q" if "x \<in> subtree I q" for x
    using wf_child [OF wfJ, of _ x] that unfolding f(1) f(2) [OF that] by blast
  have "node_ok (reroot I q) x" if "x \<in> subtree I q" for x
    using node_ok_fields [OF f(2) [OF that]] f(4) kids [OF that] that n sub by blast
  moreover have "marks_ok (reroot I q)" unfolding marks_ok_def f(1)
  proof
    fix x assume x: "x \<in> subtree I q"
    then have "(confirmed I x \<longrightarrow> invalid I x = None) \<and> (\<forall>a. invalid I x = Some a \<longrightarrow> a \<le> fst x) \<and> desc I x (bests I x)" using m sub unfolding marks_ok_def by blast
    then show "(confirmed (reroot I q) x \<longrightarrow> invalid (reroot I q) x = None) \<and> (\<forall>a. invalid (reroot I q) x = Some a \<longrightarrow> a \<le> fst x) \<and>
        desc (reroot I q) x (bests (reroot I q) x)" unfolding fields [OF x] using reroot_desc [OF wf q _ x] by blast
  qed
  moreover have "\<exists>b. invalid (reroot I q) c = Some b \<and> a \<le> b" if c: "c \<in> children (reroot I q) x" and a: "invalid (reroot I q) x = Some a" for x a c
  proof -
    have x: "x \<in> subtree I q" using children_dom [OF c] f(1) by simp
    then have cx: "c \<in> children I x" using c f(2) by simp
    show ?thesis using inh cx a fields(2) [OF x] fields(2) [OF subsetD [OF kids [OF x] cx]] by simp
  qed
  ultimately show ?thesis using wfJ unfolding tree_ok_def f(1) by blast
qed

lemma set_tree_root_ok:
  assumes ok: "fork_ok stake self" and q: "q \<in> dom (fork_infos self)"
  shows "set_tree_root self q = Some (self\<lparr>fork_infos := reroot (fork_infos self) q, tree_root := q\<rparr>) \<and>
    fork_ok stake (self\<lparr>fork_infos := reroot (fork_infos self) q, tree_root := q\<rparr>)"
proof -
  let ?I = "fork_infos self" and ?r = "tree_root self"
  have tree: "tree_ok ?I ?r" and fin: "finite (dom (latest_votes self))" and at: "\<forall>k \<in> dom ?I. stake_of ?I k = vote_sum stake (latest_votes self) k"
    using ok unfolding fork_ok_def by blast+
  have wf: "wf_tree ?I ?r" using tree unfolding tree_ok_def by blast
  have r: "?r \<in> dom ?I" by (rule wf_root_in [OF wf])
  have "?r = q" if "desc ?I q ?r" using desc_cases_parent [OF that wf] wf_root [OF wf r] by auto
  then have diff: "subtree_diff ?I ?r q = Some (subtree ?I ?r - subtree ?I q)" by (intro subtree_diff_ok [OF wf r]) blast
  have all: "subtree ?I ?r = dom ?I" using root_above [OF wf] subtree_dom [OF wf r] by (auto simp: subtree_def)
  have keep: "?I |` (- (dom ?I - subtree ?I q)) = ?I |` subtree ?I q"
  proof
    show "(?I |` (- (dom ?I - subtree ?I q))) k = (?I |` subtree ?I q) k" for k by (cases "k \<in> dom ?I") (auto simp: restrict_map_def domIff)
  qed
  have "(?I |` subtree ?I q) q = Some (node ?I q)" using q subtree_self [of q ?I] by (auto simp: restrict_map_def)
  then have "set_tree_root self q = Some (self\<lparr>fork_infos := reroot ?I q, tree_root := q\<rparr>)"
    using diff by (simp add: set_tree_root_def all keep reroot_def domIff Let_def del: Compl_Diff_eq)
  moreover have "stake_of (reroot ?I q) x = vote_sum stake (latest_votes self) x" if x: "x \<in> dom (reroot ?I q)" for x
  proof -
    have xs: "x \<in> subtree ?I q" using x unfolding reroot_facts(1) [OF wf q] .
    then have "stake_of (reroot ?I q) x = stake_of ?I x" using reroot_facts(4) [OF wf q] unfolding same_fields_def by blast
    then show ?thesis using at xs subtree_dom [OF wf q] by auto
  qed
  then have "fork_ok stake (self\<lparr>fork_infos := reroot ?I q, tree_root := q\<rparr>)" using reroot_ok [OF tree q] fin unfolding fork_ok_def by simp
  ultimately show ?thesis by blast
qed

end
