(* ===== verification/Fork_Marks.thy ===== *)
theory Fork_Marks
  imports Fork_Roots
begin

text \<open>
  Marking a fork invalid takes every block of it out of the choice; marking it valid confirms the block and its ancestors.
\<close>

section \<open>The batch of a mark\<close>

definition is_mark :: "update_operation \<Rightarrow> bool" where
  "is_mark m \<longleftrightarrow> (\<exists>s. m = MarkValid s \<or> m = MarkInvalid s)"

lemma insert_mark:
  assumes "is_mark m" "ops (k, AggregateL) = None"
  shows "snd (do_insert_aggregate_operation ops (Some m) k) = ops((k, label_of m) \<mapsto> m, (k, AggregateL) \<mapsto> Aggregate)"
  using assms by (auto simp: is_mark_def do_insert_aggregate_operation_def Let_def)

definition mark_batch :: "update_operation \<Rightarrow> 'h slot_hash_key set \<Rightarrow> 'h update_operations" where
  "mark_batch m keys = (\<lambda>(k, l). if k \<in> keys then (if l = AggregateL then Some Aggregate else if l = label_of m then Some m else None) else None)"

lemma insert_marks:
  assumes m: "is_mark m"
  shows "distinct ks \<Longrightarrow> set ks \<inter> K = {} \<Longrightarrow>
    fold (\<lambda>k ops. snd (do_insert_aggregate_operation ops (Some m) k)) ks (mark_batch m K) = mark_batch m (K \<union> set ks)"
proof (induction ks arbitrary: K)
  case (Cons k ks)
  have "label_of m \<noteq> AggregateL" using m by (auto simp: is_mark_def)
  then have "(mark_batch m K)((k, label_of m) \<mapsto> m, (k, AggregateL) \<mapsto> Aggregate) = mark_batch m (insert k K)"
    by (intro ext) (simp add: mark_batch_def split: prod.splits if_splits)
  moreover have "mark_batch m K (k, AggregateL) = None" using Cons.prems(2) by (simp add: mark_batch_def)
  ultimately have "snd (do_insert_aggregate_operation (mark_batch m K) (Some m) k) = mark_batch m (insert k K)" using insert_mark [OF m] by metis
  then show ?case using Cons.IH [of "insert k K"] Cons.prems by simp
qed simp

lemma insert_subtree_ok: "is_mark m \<Longrightarrow> finite keys \<Longrightarrow> insert_subtree_operations m keys Map.empty = mark_batch m keys"
proof -
  assume m: "is_mark m" and fin: "finite keys"
  have e: "mark_batch m {} = Map.empty" by (intro ext) (simp add: mark_batch_def split: prod.splits)
  show ?thesis using insert_marks [OF m, of "sorted_list_of_set keys" "{}"] fin unfolding e by (simp add: insert_subtree_operations_def)
qed

lemma mark_batch_labelled:
  assumes "is_mark m" "finite keys"
  shows "labelled (mark_batch m keys)"
proof -
  have "dom (mark_batch m keys) \<subseteq> keys \<times> {AggregateL, label_of m}" by (auto simp: mark_batch_def split: if_splits)
  then have "finite (dom (mark_batch m keys))" by (rule finite_subset) (simp add: assms(2))
  then show ?thesis by (auto simp: labelled_def mark_batch_def split: if_splits)
qed

text \<open>The batch of a mark on the fork at \<open>key\<close>, closed upwards.\<close>

lemma mark_operations_ok:
  assumes wf: "wf_tree I r" and key: "key \<in> dom I" and m: "is_mark m"
  shows "\<exists>ops. insert_aggregate_operations I (mark_batch m (subtree I key)) key = Some ops \<and> labelled ops \<and> up_closed I {} ops \<and>
    (\<forall>x l. l \<noteq> AggregateL \<longrightarrow> ops (x, l) = (if x \<in> subtree I key \<and> l = label_of m then Some m else None)) \<and> (\<forall>x \<in> subtree I key. (x, AggregateL) \<in> dom ops)"
proof -
  let ?b = "mark_batch m (subtree I key)"
  have lab: "labelled ?b" by (rule mark_batch_labelled [OF m subtree_finite [OF wf key]])
  have "up_closed I {key} ?b" unfolding up_closed_def
  proof (intro allI impI)
    fix x l p assume x: "(x, l) \<in> dom ?b" "x \<notin> {key}" "parent_of I x = Some p"
    then have "desc I key x" by (auto simp: mark_batch_def subtree_def split: if_splits)
    then have "p \<in> subtree I key" using desc_parent [OF _ wf x(3), of key] x(2) by (simp add: subtree_def)
    then show "(p, AggregateL) \<in> dom ?b" by (simp add: mark_batch_def domIff)
  qed
  from across_ok [OF wf lab this] obtain ops where o: "insert_aggregate_operations I ?b key = Some ops" "labelled ops" "up_closed I {} ops"
    "\<forall>x l. l \<noteq> AggregateL \<longrightarrow> ops (x, l) = ?b (x, l)" "dom ?b \<subseteq> dom ops" unfolding insert_aggregate_operations_def by blast
  have "(x, AggregateL) \<in> dom ops" if "x \<in> subtree I key" for x
  proof -
    have "(x, AggregateL) \<in> dom ?b" using that by (simp add: mark_batch_def domIff)
    then show ?thesis using o(5) by blast
  qed
  moreover have "\<forall>x l. l \<noteq> AggregateL \<longrightarrow> ops (x, l) = (if x \<in> subtree I key \<and> l = label_of m then Some m else None)" using o(4) by (simp add: mark_batch_def)
  ultimately show ?thesis using o(1,2,3) by blast
qed

text \<open>A confirmed block has confirmed ancestors.\<close>

lemma confirmed_up: "desc I a x \<Longrightarrow> tree_ok I r \<Longrightarrow> a \<in> dom I \<Longrightarrow> confirmed I x \<Longrightarrow> confirmed I a"
proof (induction rule: desc.induct)
  case (desc_step c k d)
  have wf: "wf_tree I r" and "\<forall>k \<in> dom I. node_ok I k" using desc_step.prems(1) unfolding tree_ok_def by blast+
  then have "node_ok I k" using desc_step.prems(2) by blast
  moreover have "confirmed I c" using desc_step.IH [OF desc_step.prems(1) _ desc_step.prems(3)] wf_child [OF wf desc_step.hyps(1)] by blast
  ultimately show ?case using desc_step.hyps(1) unfolding node_ok_def by blast
qed

lemma mark_pending:
  assumes ok: "tree_ok I r" and key: "key \<in> dom I" and m: "m = MarkValid (fst key) \<or> (m = MarkInvalid (fst key) \<and> \<not> confirmed I key)"
    and ops: "labelled ops" "up_closed I {} ops" "\<forall>x l. l \<noteq> AggregateL \<longrightarrow> ops (x, l) = (if x \<in> subtree I key \<and> l = label_of m then Some m else None)"
      "\<forall>x \<in> subtree I key. (x, AggregateL) \<in> dom ops"
  shows "pending I r (operation_list ops)"
proof -
  have wf: "wf_tree I r" using ok unfolding tree_ok_def by blast
  note set = operation_list_set [OF ops(1)]
  have valid: "ops (x, MarkValidL s) = (if x \<in> subtree I key \<and> m = MarkValid s then Some m else None)"
    and inval: "ops (x, MarkInvalidL s) = (if x \<in> subtree I key \<and> m = MarkInvalid s then Some m else None)" for x s using ops(3) m by auto
  have above: "fst key \<le> fst x" if "x \<in> subtree I key" for x using desc_fst [OF _ wf, of key x] that by (auto simp: subtree_def)
  have "closed_up I (operation_list ops)"
  proof (rule closed_up_batch [OF ops(1,2)])
    fix k s assume "ops (k, MarkValidL s) \<noteq> None \<or> ops (k, MarkInvalidL s) \<noteq> None"
    then have "k \<in> subtree I key" "s = fst key" using m unfolding valid inval by (auto split: if_splits)
    then show "(k, AggregateL) \<in> dom ops \<and> s \<le> fst k" using ops(4) above by blast
  next
    fix k s p assume a: "ops (k, MarkValidL s) \<noteq> None" "parent_of I k = Some p"
    then have k: "k \<in> subtree I key" "m = MarkValid s" "s = fst key" using m unfolding valid by (auto split: if_splits)
    show "ops (p, MarkValidL s) = Some (MarkValid s) \<or> fst k = s"
    proof (cases "k = key")
      case False
      then have "p \<in> subtree I key" using desc_parent [OF _ wf a(2), of key] k(1) by (simp add: subtree_def)
      then show ?thesis using k(2) unfolding valid by simp
    qed (use k in simp)
  qed
  moreover have "invalid_ok I (operation_list ops)" unfolding invalid_ok_def set label_of.simps inval
  proof (intro allI impI)
    fix k s assume a: "(if k \<in> subtree I key \<and> m = MarkInvalid s then Some m else None) = Some (MarkInvalid s)" "k \<in> dom I"
    then have k: "desc I key k" "m = MarkInvalid s" by (auto simp: subtree_def split: if_splits)
    have "\<not> confirmed I k" using confirmed_up [OF k(1) ok key] m k(2) by auto
    moreover have "c \<in> subtree I key" if "c \<in> children I k" for c using desc_trans [OF k(1) desc_child [OF that]] by (simp add: subtree_def)
    ultimately show "\<not> confirmed I k \<and> (\<forall>c \<in> children I k. (if c \<in> subtree I key \<and> m = MarkInvalid s then Some m else None) = Some (MarkInvalid s) \<or>
        (\<exists>b. invalid I c = Some b \<and> s \<le> b))" using k(2) by simp
  qed
  moreover have "marks_invalid (operation_list ops) \<longrightarrow> (\<forall>k s. (k, MarkValid s) \<notin> set (operation_list ops))"
    unfolding marks_invalid_def set label_of.simps valid inval using m by auto
  ultimately show ?thesis using ok operation_list_descending [OF ops(1)] unfolding pending_def tree_ok_def inherited_def by blast
qed


section \<open>What a mark does\<close>

lemma operation_confirms:
  assumes "apply_operation k' a I = Some J" "k \<in> dom I" "confirmed I k \<or> (k' = k \<and> a = MarkValid (fst k))"
  shows "confirmed J k \<and> k \<in> dom J"
proof -
  obtain i where i: "I k = Some i" using assms(2) by auto
  show ?thesis
  proof (cases "k' = k")
    case True
    then show ?thesis using assms(1,3) i
      by (cases a) (auto simp: mark_fork_valid_def mark_fork_invalid_def aggregate_slot_def add_slot_stake_def subtract_slot_stake_def
          update_with_newly_valid_ancestor_def update_with_newly_invalid_ancestor_def aggregate_result_def set_duplicate_confirmed_def Let_def split: option.splits if_splits)
  next
    case False
    then have "J k = I k" using assms(1)
      by (cases a) (auto simp: mark_fork_valid_def mark_fork_invalid_def aggregate_slot_def add_slot_stake_def subtract_slot_stake_def Let_def split: option.splits)
    then show ?thesis using False assms(2,3) by (simp add: dom_def)
  qed
qed

lemma operations_confirm:
  "apply_operations L I = Some J \<Longrightarrow> k \<in> dom I \<Longrightarrow> confirmed I k \<or> (k, MarkValid (fst k)) \<in> set L \<Longrightarrow> confirmed J k"
proof (induction L arbitrary: I)
  case (Cons o' L)
  obtain k' a where o': "o' = (k', a)" by (cases o')
  obtain I' where I': "apply_operation k' a I = Some I'" "apply_operations L I' = Some J" using Cons.prems(1) o' by (auto split: option.splits)
  have dom: "k \<in> dom I'" using apply_operation_stake [OF I'(1) Cons.prems(2)] by blast
  have "confirmed I' k \<or> (k, MarkValid (fst k)) \<in> set L" using Cons.prems(3) o' operation_confirms [OF I'(1) Cons.prems(2)] by auto
  then show ?case using Cons.IH [OF I'(2) dom] by blast
qed simp

lemma operation_invalidates:
  assumes wf: "wf_tree I r" and ap: "apply_operation k' a I = Some J" and a: "\<forall>s. a \<noteq> MarkValid s" and x: "x \<in> dom I" and kids: "\<forall>c \<in> children I x. \<not> confirmed I c"
  shows "confirmed J x = confirmed I x" "invalid J x \<noteq> None \<longleftrightarrow> invalid I x \<noteq> None \<or> (k' = x \<and> (\<exists>s. a = MarkInvalid s))"
proof -
  obtain i where i: "I x = Some i" using x by auto
  have "confirmed J x = confirmed I x \<and> (invalid J x \<noteq> None \<longleftrightarrow> invalid I x \<noteq> None \<or> (k' = x \<and> (\<exists>s. a = MarkInvalid s)))"
  proof (cases "k' = x")
    case True
    show ?thesis
    proof (cases "a = Aggregate")
      case agg: True
      obtain ag where ag: "aggregate_slot I x = Some (I(x \<mapsto> aggregate_result ag i))" "aggregate_ok I x (fi_stake_voted_at i) (children I x) ag"
        using aggregate_slot_ok [OF wf i] by blast
      have "\<not> ag_confirmed ag" using ag(2) kids unfolding aggregate_ok_def by blast
      moreover have "J = I(x \<mapsto> aggregate_result ag i)" using ap ag(1) agg True by simp
      ultimately show ?thesis using i agg by (simp add: aggregate_result_def)
    next
      case False
      then show ?thesis using True ap a i
        by (cases a) (auto simp: mark_fork_invalid_def add_slot_stake_def subtract_slot_stake_def update_with_newly_invalid_ancestor_def split: option.splits if_splits)
    qed
  next
    case False
    then have "J x = I x" using ap a
      by (cases a) (auto simp: mark_fork_valid_def mark_fork_invalid_def aggregate_slot_def add_slot_stake_def subtract_slot_stake_def Let_def split: option.splits)
    then show ?thesis using False by simp
  qed
  then show "confirmed J x = confirmed I x" "invalid J x \<noteq> None \<longleftrightarrow> invalid I x \<noteq> None \<or> (k' = x \<and> (\<exists>s. a = MarkInvalid s))" by blast+
qed

lemma operations_invalidate:
  "pending I r L \<Longrightarrow> apply_operations L I = Some J \<Longrightarrow> \<forall>k s. (k, MarkValid s) \<notin> set L \<Longrightarrow> key \<in> dom I \<Longrightarrow> \<forall>x \<in> subtree I key. \<not> confirmed I x \<Longrightarrow>
    invalid I key \<noteq> None \<or> (\<exists>s. (key, MarkInvalid s) \<in> set L) \<Longrightarrow> invalid J key \<noteq> None"
proof (induction L arbitrary: I)
  case (Cons o' L)
  obtain k' a where o': "o' = (k', a)" by (cases o')
  obtain I' where I': "apply_operation k' a I = Some I'" "apply_operations L I' = Some J" using Cons.prems(2) o' by (auto split: option.splits)
  have pen: "pending I' r L" and shape: "same_shape I I'" using pending_operation [of I r k' a L] Cons.prems(1) I'(1) o' by auto
  have wf: "wf_tree I r" by (rule pending_facts(1) [OF Cons.prems(1) [unfolded o']])
  have a: "\<forall>s. a \<noteq> MarkValid s" using Cons.prems(3) o' by auto
  have sub: "subtree I' = subtree I" using same_shape_desc [OF shape] by (simp add: subtree_def fun_eq_iff)
  have kids: "\<forall>c \<in> children I x. \<not> confirmed I c" if "x \<in> subtree I key" for x
  proof
    fix c assume "c \<in> children I x"
    then have "c \<in> subtree I key" using that desc_trans [OF _ desc_child, of I key x c] by (simp add: subtree_def)
    then show "\<not> confirmed I c" using Cons.prems(5) by blast
  qed
  have "\<forall>x \<in> subtree I' key. \<not> confirmed I' x" unfolding sub
    using operation_invalidates(1) [OF wf I'(1) a _ kids] subtree_dom [OF wf Cons.prems(4)] Cons.prems(5) by blast
  moreover have "invalid I' key \<noteq> None \<or> (\<exists>s. (key, MarkInvalid s) \<in> set L)"
    using operation_invalidates(2) [OF wf I'(1) a Cons.prems(4) kids [OF subtree_self]] Cons.prems(6) o' by auto
  moreover have "key \<in> dom I'" using Cons.prems(4) same_shape_dom [OF shape] by simp
  ultimately show ?case using Cons.IH [OF pen I'(2)] Cons.prems(3) by auto
qed simp


section \<open>Marking a fork\<close>

lemma mark_walk:
  assumes wf: "wf_tree I r" and key: "key \<in> dom I" and no: "z \<notin> dom I"
  shows "subtree_diff I key z = Some (subtree I key)"
proof -
  have "children I z = {}" using no children_dom [of _ I z] by blast
  then have z: "subtree I z = {z}" using subtree_unfold [of I z] by simp
  then have "desc I z key \<longrightarrow> key = z" by (auto simp: subtree_def)
  then have "subtree_diff I key z = Some (subtree I key - subtree I z)" by (rule subtree_diff_ok [OF wf key])
  moreover have "z \<notin> subtree I key" using subtree_dom [OF wf key] no by blast
  ultimately show ?thesis using z by simp
qed

text \<open>Both marks: the batch is processed, the stakes stay.\<close>

lemma mark_process:
  assumes ok: "fork_ok stake self" and key: "key \<in> dom (fork_infos self)" and m: "m = MarkValid (fst key) \<or> (m = MarkInvalid (fst key) \<and> \<not> confirmed (fork_infos self) key)"
  shows "\<exists>ops J. insert_aggregate_operations (fork_infos self) (insert_subtree_operations m (subtree (fork_infos self) key) Map.empty) key = Some ops \<and>
    process_update_operations self ops = Some (self\<lparr>fork_infos := J\<rparr>) \<and> fork_ok stake (self\<lparr>fork_infos := J\<rparr>) \<and> same_shape (fork_infos self) J \<and>
    (m = MarkValid (fst key) \<longrightarrow> confirmed J key) \<and> (m = MarkInvalid (fst key) \<longrightarrow> invalid J key \<noteq> None)"
proof -
  let ?I = "fork_infos self" and ?r = "tree_root self"
  have tree: "tree_ok ?I ?r" using ok unfolding fork_ok_def by blast
  then have wf: "wf_tree ?I ?r" unfolding tree_ok_def by blast
  have mark: "is_mark m" using m by (auto simp: is_mark_def)
  obtain ops where ops: "insert_aggregate_operations ?I (mark_batch m (subtree ?I key)) key = Some ops" "labelled ops" "up_closed ?I {} ops"
    "\<forall>x l. l \<noteq> AggregateL \<longrightarrow> ops (x, l) = (if x \<in> subtree ?I key \<and> l = label_of m then Some m else None)" "\<forall>x \<in> subtree ?I key. (x, AggregateL) \<in> dom ops"
    using mark_operations_ok [OF wf key mark] by blast
  have pen: "pending ?I ?r (operation_list ops)" by (rule mark_pending [OF tree key m ops(2,3,4,5)])
  obtain J where J: "process_update_operations self ops = Some (self\<lparr>fork_infos := J\<rparr>)" "tree_ok J ?r" "same_shape ?I J"
    "\<forall>k \<in> dom J. stake_of J k = stake_of ?I k + gain ops k" using process_ok [OF pen ops(2)] by blast
  have ap: "apply_operations (operation_list ops) ?I = Some J"
  proof -
    obtain J' where J': "apply_operations (operation_list ops) ?I = Some J'" "self\<lparr>fork_infos := J'\<rparr> = self\<lparr>fork_infos := J\<rparr>"
      using J(1) by (auto simp: process_update_operations_def)
    from arg_cong [OF J'(2), of fork_infos] show ?thesis using J'(1) by simp
  qed
  have "gain ops k = 0" for k using ops(4) m by (auto simp: gain_def)
  then have "fork_ok stake (self\<lparr>fork_infos := J\<rparr>)" using ok J(2,4) same_shape_dom [OF J(3)] unfolding fork_ok_def by simp
  moreover have mem: "(key, m) \<in> set (operation_list ops)" unfolding operation_list_set [OF ops(2)] using ops(4) subtree_self [of key ?I] mark by (auto simp: is_mark_def)
  have "confirmed J key" if "m = MarkValid (fst key)" using operations_confirm [OF ap key] mem that by blast
  moreover have "invalid J key \<noteq> None" if mi: "m = MarkInvalid (fst key)"
  proof (rule operations_invalidate [OF pen ap _ key])
    show "\<forall>k s. (k, MarkValid s) \<notin> set (operation_list ops)" unfolding operation_list_set [OF ops(2)] using ops(4) mi by simp
    show "\<forall>x \<in> subtree ?I key. \<not> confirmed ?I x" using confirmed_up [OF _ tree key] m mi by (auto simp: subtree_def)
    show "invalid ?I key \<noteq> None \<or> (\<exists>s. (key, MarkInvalid s) \<in> set (operation_list ops))" using mem mi by blast
  qed
  ultimately show ?thesis using insert_subtree_ok [OF mark subtree_finite [OF wf key]] ops(1) J(1,3) by auto
qed

lemma mark_invalid_ok:
  assumes ok: "fork_ok stake self" and key: "key \<in> dom (fork_infos self)" and no: "(0, default_hash) \<notin> dom (fork_infos self)" and conf: "\<not> confirmed (fork_infos self) key"
  shows "\<exists>J. mark_fork_invalid_candidate default_hash self key = Some (self\<lparr>fork_infos := J\<rparr>) \<and> fork_ok stake (self\<lparr>fork_infos := J\<rparr>) \<and>
    same_shape (fork_infos self) J \<and> invalid J key \<noteq> None"
proof -
  let ?I = "fork_infos self"
  have wf: "wf_tree ?I (tree_root self)" using ok unfolding fork_ok_def tree_ok_def by blast
  obtain i where i: "?I key = Some i" using key by auto
  obtain ops J where J: "insert_aggregate_operations ?I (insert_subtree_operations (MarkInvalid (fst key)) (subtree ?I key) Map.empty) key = Some ops"
    "process_update_operations self ops = Some (self\<lparr>fork_infos := J\<rparr>)" "fork_ok stake (self\<lparr>fork_infos := J\<rparr>)" "same_shape ?I J" "invalid J key \<noteq> None"
    using mark_process [OF ok key, of "MarkInvalid (fst key)"] conf by auto
  have "mark_fork_invalid_candidate default_hash self key = Some (self\<lparr>fork_infos := J\<rparr>)"
    using i conf J(1,2) mark_walk [OF wf key no] by (simp add: mark_fork_invalid_candidate_def)
  then show ?thesis using J(3,4,5) by blast
qed

lemma ancestors_of_ok:
  assumes wf: "wf_tree I r"
  shows "\<exists>as. ancestors_of I k = Some as \<and> set as = {x. desc I x k \<and> x \<noteq> k}"
proof (induction k rule: parent_induct [OF wf])
  case (1 k)
  show ?case
  proof (cases "parent_of I k")
    case None
    have "x = k" if "desc I x k" for x using desc_cases_parent [OF that wf] None by simp
    then show ?thesis using None by (auto simp: ancestors_of.simps [of I k])
  next
    case (Some p)
    obtain as where as: "ancestors_of I p = Some as" "set as = {x. desc I x p \<and> x \<noteq> p}" using 1 [OF Some] by blast
    have k: "k \<in> children I p" using wf_parent [OF wf Some] by blast
    have "desc I x k \<and> x \<noteq> k \<longleftrightarrow> desc I x p" for x
      using desc_parent [OF _ wf Some, of x] desc_trans [OF _ desc_child [OF k], of x] child_not_self [OF wf k] by blast
    then have "insert p (set as) = {x. desc I x k \<and> x \<noteq> k}" using as(2) desc_self [of I p] by auto
    then show ?thesis using Some as(1) by (simp add: ancestors_of.simps [of I k])
  qed
qed

lemma mark_valid_ok:
  assumes ok: "fork_ok stake self" and key: "key \<in> dom (fork_infos self)" and no: "(0, default_hash) \<notin> dom (fork_infos self)"
  shows "\<exists>newly J. mark_fork_valid_candidate default_hash self key = Some (newly, self\<lparr>fork_infos := J\<rparr>) \<and> fork_ok stake (self\<lparr>fork_infos := J\<rparr>) \<and>
    same_shape (fork_infos self) J \<and> confirmed J key \<and> set newly = {x. desc (fork_infos self) x key \<and> \<not> confirmed (fork_infos self) x}"
proof -
  let ?I = "fork_infos self"
  have wf: "wf_tree ?I (tree_root self)" using ok unfolding fork_ok_def tree_ok_def by blast
  obtain ops J where J: "insert_aggregate_operations ?I (insert_subtree_operations (MarkValid (fst key)) (subtree ?I key) Map.empty) key = Some ops"
    "process_update_operations self ops = Some (self\<lparr>fork_infos := J\<rparr>)" "fork_ok stake (self\<lparr>fork_infos := J\<rparr>)" "same_shape ?I J" "confirmed J key"
    using mark_process [OF ok key, of "MarkValid (fst key)"] by auto
  obtain as where as: "ancestors_of ?I key = Some as" "set as = {x. desc ?I x key \<and> x \<noteq> key}" using ancestors_of_ok [OF wf] by blast
  have up: "set (key # as) = {x. desc ?I x key}" using as(2) desc_self [of ?I key] by auto
  have known: "is_duplicate_confirmed self x = Some (confirmed ?I x)" if "x \<in> set (key # as)" for x
  proof -
    have "desc ?I x key" using that unfolding up by simp
    then have "x \<in> dom ?I" using key children_dom [of _ ?I x] by (cases rule: desc.cases) auto
    then show ?thesis by (auto simp: is_duplicate_confirmed_def)
  qed
  let ?newly = "filter (\<lambda>k. is_duplicate_confirmed self k = Some False) (key # as)"
  have all: "\<forall>k \<in> set (key # as). is_duplicate_confirmed self k \<noteq> None" using known by simp
  have "mark_fork_valid_candidate default_hash self key = Some (?newly, self\<lparr>fork_infos := J\<rparr>)"
    unfolding mark_fork_valid_candidate_def as(1) Option.bind.bind_lunit if_P [OF all] mark_walk [OF wf key no] J(1,2) by simp
  moreover have "set ?newly = {x. desc ?I x key \<and> \<not> confirmed ?I x}"
  proof -
    have "set ?newly = {x \<in> set (key # as). \<not> confirmed ?I x}" unfolding set_filter using known by auto
    then show ?thesis unfolding up by simp
  qed
  ultimately show ?thesis using J(3,4,5) by blast
qed

end
