(* ===== verification/Fork_Props.thy ===== *)
theory Fork_Props
  imports Fork_Marks
begin

text \<open>
  The fork choice as a state machine: what holds in every state that its operations reach from a new tree.
\<close>

section \<open>A new tree, and a parent for its root\<close>

lemma fc_new_ok:
  assumes "fc_new root = Some self"
  shows "fork_ok stake self" "dom (fork_infos self) = {root}" "tree_root self = root"
proof -
  define i where "i = \<lparr>fi_stake_voted_at = 0, fi_stake_voted_subtree = 0, fi_height = 1, fi_best_slot = root, fi_deepest_slot = root, fi_parent = None,
      fi_children = {}, fi_latest_invalid_ancestor = None, fi_is_duplicate_confirmed = True\<rparr>"
  define I where "I = [root \<mapsto> i]"
  have self: "self = \<lparr>fork_infos = I, latest_votes = Map.empty, tree_root = root\<rparr>"
    using assms by (simp add: I_def i_def fc_new_def add_new_leaf_slot_def new_leaf_info_def Let_def)
  have ch: "children I k = {}" for k by (simp add: I_def i_def children_def)
  have I: "dom I = {root}" "node I root = i" "parent_of I root = None" by (simp_all add: I_def i_def parent_of_def)
  have "wf_tree I root" unfolding wf_tree_def by (simp add: ch I)
  moreover have "marks_ok I" by (simp add: marks_ok_def I i_def desc_self)
  moreover have "node_ok I root" by (simp add: node_ok_def stake_ok_def best_ok_def deep_ok_def ch I) (simp add: i_def)
  ultimately have "tree_ok I root" unfolding tree_ok_def by (simp add: ch I)
  then show "fork_ok stake self" "dom (fork_infos self) = {root}" "tree_root self = root" using I by (simp_all add: fork_ok_def self vote_sum_def i_def)
qed

definition with_root :: "'h fork_map \<Rightarrow> 'h slot_hash_key \<Rightarrow> 'h slot_hash_key \<Rightarrow> 'h fork_map" where
  "with_root I r q = I(r \<mapsto> (node I r)\<lparr>fi_parent := Some q\<rparr>,
     q \<mapsto> \<lparr>fi_stake_voted_at = 0, fi_stake_voted_subtree = weight I r, fi_height = depth I r + 1, fi_best_slot = bests I r, fi_deepest_slot = deepests I r,
       fi_parent = None, fi_children = {r}, fi_latest_invalid_ancestor = None, fi_is_duplicate_confirmed = confirmed I r\<rparr>)"

lemma with_root_facts:
  assumes wf: "wf_tree I r" and q: "q \<notin> dom I"
  shows "dom (with_root I r q) = insert q (dom I)" "children (with_root I r q) x = (if x = q then {r} else children I x)"
    "parent_of (with_root I r q) x = (if x = q then None else if x = r then Some q else parent_of I x)" "x \<in> dom I \<Longrightarrow> same_fields I (with_root I r q) x"
proof -
  have r: "r \<in> dom I" by (rule wf_root_in [OF wf])
  then have ne: "q \<noteq> r" using q by blast
  show "dom (with_root I r q) = insert q (dom I)" using r by (auto simp: with_root_def)
  show "children (with_root I r q) x = (if x = q then {r} else children I x)" "parent_of (with_root I r q) x = (if x = q then None else if x = r then Some q else parent_of I x)"
    using r ne by (auto simp: with_root_def children_def parent_of_def)
  assume "x \<in> dom I"
  then have "x \<noteq> q" using q by blast
  then show "same_fields I (with_root I r q) x" by (auto simp: same_fields_def with_root_def fi_is_candidate_def)
qed

lemma with_root_wf:
  assumes wf: "wf_tree I r" and q: "q \<notin> dom I" "fst q < fst r"
  shows "wf_tree (with_root I r q) q"
proof -
  note f = with_root_facts [OF wf q(1)]
  have r: "r \<in> dom I" by (rule wf_root_in [OF wf])
  then have ne: "q \<noteq> r" using q by blast
  have all: "(parent_of (with_root I r q) x = None \<longleftrightarrow> x = q) \<and> (\<forall>p. parent_of (with_root I r q) x = Some p \<longrightarrow> x \<in> children (with_root I r q) p) \<and>
      (\<forall>c \<in> children (with_root I r q) x. fst x < fst c \<and> c \<in> dom (with_root I r q) \<and> parent_of (with_root I r q) c = Some x)" if x: "x \<in> dom (with_root I r q)" for x
  proof (cases "x = q")
    case True
    then show ?thesis using q(2) r ne unfolding f(1,2,3) by simp
  next
    case False
    then have xd: "x \<in> dom I" using x f(1) by blast
    have "x \<in> children (with_root I r q) p" if p: "parent_of (with_root I r q) x = Some p" for p
    proof (cases "x = r")
      case True
      then show ?thesis using p False unfolding f(2,3) by simp
    next
      case xr: False
      then have "x \<in> children I p \<and> p \<in> dom I" using wf_parent [OF wf, of x p] p False unfolding f(3) by simp
      moreover have "p \<noteq> q" using calculation q(1) by blast
      ultimately show ?thesis unfolding f(2) by simp
    qed
    moreover have "parent_of (with_root I r q) x \<noteq> None" using wf_root [OF wf xd] False unfolding f(3) by auto
    moreover have "fst x < fst c \<and> c \<in> dom (with_root I r q) \<and> parent_of (with_root I r q) c = Some x" if c: "c \<in> children (with_root I r q) x" for c
    proof -
      have cx: "c \<in> children I x" using c False unfolding f(2) by simp
      note w = wf_child [OF wf cx]
      have "c \<noteq> q" "c \<noteq> r" using w q(1) wf_root [OF wf r] by auto
      then show ?thesis using w unfolding f(1,3) by simp
    qed
    ultimately show ?thesis using False by blast
  qed
  have "finite (dom (with_root I r q))" "q \<in> dom (with_root I r q)" using wf_finite [OF wf] unfolding f(1) by simp_all
  then show ?thesis unfolding wf_tree_def by (intro conjI ballI all)
qed

lemma with_root_desc:
  assumes wf: "wf_tree I r" and q: "q \<notin> dom I"
  shows "desc I x y \<Longrightarrow> desc (with_root I r q) x y"
proof (induction rule: desc.induct)
  case (desc_step c k d)
  have "k \<noteq> q" using children_dom [OF desc_step.hyps(1)] q by blast
  then have "c \<in> children (with_root I r q) k" using desc_step.hyps(1) with_root_facts(2) [OF wf q] by simp
  then show ?case using desc_step.IH by (rule desc.desc_step)
qed (rule desc.desc_self)

lemma with_root_ok:
  assumes ok: "tree_ok I r" and q: "q \<notin> dom I" "fst q < fst r" and cand: "candidate I r"
  shows "tree_ok (with_root I r q) q"
proof -
  let ?J = "with_root I r q"
  have wf: "wf_tree I r" and m: "marks_ok I" and n: "\<forall>k \<in> dom I. node_ok I k"
    and inh: "\<forall>p a. \<forall>c \<in> children I p. invalid I p = Some a \<longrightarrow> (\<exists>b. invalid I c = Some b \<and> a \<le> b)" using ok unfolding tree_ok_def by blast+
  note f = with_root_facts [OF wf q(1)]
  have r: "r \<in> dom I" by (rule wf_root_in [OF wf])
  have fields: "weight ?J x = weight I x" "candidate ?J x = candidate I x" "depth ?J x = depth I x" "confirmed ?J x = confirmed I x" "invalid ?J x = invalid I x"
    "bests ?J x = bests I x" "deepests ?J x = deepests I x" if "x \<in> dom I" for x using f(4) [OF that] unfolding same_fields_def by blast+
  have Jq: "?J q = Some \<lparr>fi_stake_voted_at = 0, fi_stake_voted_subtree = weight I r, fi_height = depth I r + 1, fi_best_slot = bests I r, fi_deepest_slot = deepests I r,
       fi_parent = None, fi_children = {r}, fi_latest_invalid_ancestor = None, fi_is_duplicate_confirmed = confirmed I r\<rparr>" by (simp add: with_root_def)
  have kq: "children ?J q = {r}" using f(2) by simp
  have "heaviest_of ?J {r} r" "deepest_of ?J {r} r" using cand fields(2) [OF r] by (simp_all add: heaviest_of_def deepest_of_def)
  then have "node_ok ?J q" using Jq fields [OF r] cand unfolding node_ok_def stake_ok_def best_ok_def deep_ok_def kq by (auto intro: exI [of _ r])
  moreover have "node_ok ?J x" if x: "x \<in> dom I" for x
  proof -
    have "x \<noteq> q" using x q(1) by blast
    then have "children ?J x = children I x" using f(2) by simp
    moreover have "\<forall>y \<in> insert x (children I x). same_fields I ?J y" using f(4) x wf_child [OF wf, of _ x] by blast
    ultimately show ?thesis using node_ok_fields n x by blast
  qed
  moreover have "marks_ok ?J" unfolding marks_ok_def f(1)
  proof
    fix x assume x: "x \<in> insert q (dom I)"
    show "(confirmed ?J x \<longrightarrow> invalid ?J x = None) \<and> (\<forall>a. invalid ?J x = Some a \<longrightarrow> a \<le> fst x) \<and> desc ?J x (bests ?J x)"
    proof (cases "x = q")
      case True
      have "desc I r (bests I r)" using m r unfolding marks_ok_def by blast
      then have "desc ?J q (bests I r)" using desc_step [of r ?J q] kq with_root_desc [OF wf q(1)] by simp
      then show ?thesis using Jq True by simp
    next
      case False
      then have xd: "x \<in> dom I" using x by blast
      then have "(confirmed I x \<longrightarrow> invalid I x = None) \<and> (\<forall>a. invalid I x = Some a \<longrightarrow> a \<le> fst x) \<and> desc I x (bests I x)" using m unfolding marks_ok_def by blast
      then show ?thesis unfolding fields [OF xd] using with_root_desc [OF wf q(1)] by blast
    qed
  qed
  moreover have "\<exists>b. invalid ?J c = Some b \<and> a \<le> b" if c: "c \<in> children ?J x" and a: "invalid ?J x = Some a" for x a c
  proof -
    have "x \<noteq> q" using a Jq by auto
    then have cx: "c \<in> children I x" using c f(2) by simp
    have d: "x \<in> dom I" "c \<in> dom I" using wf_child [OF wf cx] by auto
    show ?thesis using inh cx a fields(5) [OF d(1)] fields(5) [OF d(2)] by simp
  qed
  ultimately show ?thesis using with_root_wf [OF wf q] unfolding tree_ok_def f(1) by blast
qed


lemma add_root_parent_ok:
  assumes ok: "fork_ok stake self" and q: "q \<notin> dom (fork_infos self)" "fst q < fst (tree_root self)" "q \<notin> ran (latest_votes self)" and cand: "candidate (fork_infos self) (tree_root self)"
  defines "J \<equiv> with_root (fork_infos self) (tree_root self) q"
  shows "add_root_parent self q = Some (self\<lparr>fork_infos := J, tree_root := q\<rparr>) \<and> fork_ok stake (self\<lparr>fork_infos := J, tree_root := q\<rparr>)"
proof -
  let ?I = "fork_infos self" and ?r = "tree_root self"
  have tree: "tree_ok ?I ?r" and fin: "finite (dom (latest_votes self))" and at: "\<forall>k \<in> dom ?I. stake_of ?I k = vote_sum stake (latest_votes self) k"
    using ok unfolding fork_ok_def by blast+
  have wf: "wf_tree ?I ?r" using tree unfolding tree_ok_def by blast
  obtain i where i: "?I ?r = Some i" using wf_root_in [OF wf] by auto
  have none: "?I q = None" using q(1) by auto
  have "add_root_parent self q = Some (self\<lparr>fork_infos := J, tree_root := q\<rparr>)" using i none q(2) by (simp add: add_root_parent_def J_def with_root_def)
  moreover have "stake_of J x = vote_sum stake (latest_votes self) x" if x: "x \<in> dom J" for x
  proof (cases "x = q")
    case True
    have "{v. latest_votes self v = Some q} = {}" using q(3) by (auto simp: ran_def)
    then have "vote_sum stake (latest_votes self) q = 0" unfolding vote_sum_def by simp
    then show ?thesis using True by (simp add: J_def with_root_def)
  next
    case False
    then have xd: "x \<in> dom ?I" using x with_root_facts(1) [OF wf q(1)] unfolding J_def by blast
    then have "stake_of J x = stake_of ?I x" using with_root_facts(4) [OF wf q(1)] unfolding J_def same_fields_def by blast
    then show ?thesis using at xd by simp
  qed
  then have "fork_ok stake (self\<lparr>fork_infos := J, tree_root := q\<rparr>)" using with_root_ok [OF tree q(1,2) cand] fin unfolding fork_ok_def J_def by simp
  ultimately show ?thesis by blast
qed

section \<open>The operations as steps\<close>

text \<open>
  A block is added below one of the tree, at a later slot, before anybody has voted for it; the hash of a block is not the default hash. A batch
  has one vote per validator. A root that gets a parent is a candidate, and nobody has voted for the parent yet; \<open>add_root_parent\<close> asserts that it is older.
  The stakes are the same for all batches.
\<close>

inductive fork_step :: "'h::linorder \<Rightarrow> (u64 \<rightharpoonup> ('p \<Rightarrow> u64)) \<Rightarrow> (slot \<Rightarrow> u64) \<Rightarrow> ('h, 'p) fork_choice \<Rightarrow> ('h, 'p) fork_choice \<Rightarrow> bool"
  for default_hash epoch_stakes get_epoch where
  step_leaf: "contains_block self p \<Longrightarrow> fst p < fst key \<Longrightarrow> snd key \<noteq> default_hash \<Longrightarrow> key \<notin> ran (latest_votes self) \<Longrightarrow>
    add_new_leaf_slot self key (Some p) = Some self' \<Longrightarrow> fork_step default_hash epoch_stakes get_epoch self self'"
| step_votes: "distinct (map fst votes) \<Longrightarrow> add_votes self votes epoch_stakes get_epoch = Some (best, self') \<Longrightarrow> fork_step default_hash epoch_stakes get_epoch self self'"
| step_root: "contains_block self q \<Longrightarrow> set_tree_root self q = Some self' \<Longrightarrow> fork_step default_hash epoch_stakes get_epoch self self'"
| step_parent: "is_candidate self (tree_root self) = Some True \<Longrightarrow> snd q \<noteq> default_hash \<Longrightarrow> q \<notin> ran (latest_votes self) \<Longrightarrow>
    add_root_parent self q = Some self' \<Longrightarrow> fork_step default_hash epoch_stakes get_epoch self self'"
| step_invalid: "mark_fork_invalid_candidate default_hash self key = Some self' \<Longrightarrow> fork_step default_hash epoch_stakes get_epoch self self'"
| step_valid: "contains_block self key \<Longrightarrow> mark_fork_valid_candidate default_hash self key = Some (newly, self') \<Longrightarrow>
    fork_step default_hash epoch_stakes get_epoch self self'"

definition fork_init :: "'h::linorder \<Rightarrow> ('h, 'p) fork_choice \<Rightarrow> bool" where
  "fork_init default_hash self \<longleftrightarrow> (\<exists>root. snd root \<noteq> default_hash \<and> fc_new root = Some self)"

definition fork_inv :: "'h::linorder \<Rightarrow> (u64 \<rightharpoonup> ('p \<Rightarrow> u64)) \<Rightarrow> (slot \<Rightarrow> u64) \<Rightarrow> ('h, 'p) fork_choice \<Rightarrow> bool" where
  "fork_inv default_hash epoch_stakes get_epoch self \<longleftrightarrow> fork_ok (stake_at epoch_stakes get_epoch) self \<and> (\<forall>k \<in> dom (fork_infos self). snd k \<noteq> default_hash)"

lemma contains_dom: "contains_block self k \<longleftrightarrow> k \<in> dom (fork_infos self)"
  by (auto simp: contains_block_def)

lemma fork_inv_default: "fork_inv default_hash es ge self \<Longrightarrow> (s, default_hash) \<notin> dom (fork_infos self)"
proof
  assume "fork_inv default_hash es ge self" "(s, default_hash) \<in> dom (fork_infos self)"
  then have "snd (s, default_hash) \<noteq> default_hash" unfolding fork_inv_def by blast
  then show False by simp
qed

lemma fork_init_inv: "fork_init default_hash self \<Longrightarrow> fork_inv default_hash es ge self"
proof -
  assume "fork_init default_hash self"
  then obtain root where root: "snd root \<noteq> default_hash" "fc_new root = Some self" unfolding fork_init_def by blast
  show ?thesis using fc_new_ok(1,2) [OF root(2)] root(1) unfolding fork_inv_def by simp
qed

lemma fork_inv_next:
  assumes "fork_inv default_hash es ge self" "fork_ok (stake_at es ge) self'" "dom (fork_infos self') \<subseteq> insert k (dom (fork_infos self))"
    "k \<in> dom (fork_infos self) \<or> snd k \<noteq> default_hash"
  shows "fork_inv default_hash es ge self'"
  using assms unfolding fork_inv_def by blast

lemma fork_step_inv:
  assumes inv: "fork_inv default_hash es ge self" and step: "fork_step default_hash es ge self self'"
  shows "fork_inv default_hash es ge self'"
proof -
  have ok: "fork_ok (stake_at es ge) self" and hash: "\<forall>k \<in> dom (fork_infos self). snd k \<noteq> default_hash" using inv unfolding fork_inv_def by blast+
  have wf: "wf_tree (fork_infos self) (tree_root self)" using ok unfolding fork_ok_def tree_ok_def by blast
  have zero: "(0, default_hash) \<notin> dom (fork_infos self)" by (rule fork_inv_default [OF inv])
  note keep = fork_inv_next [OF inv]
  from step show ?thesis
  proof cases
    case (step_leaf p key)
    show ?thesis
    proof (cases "fork_infos self key = None")
      case True
      then have "fresh (fork_infos self) key p" using step_leaf by (simp add: fresh_def contains_dom)
      from add_new_leaf_ok [OF ok this step_leaf(4)] obtain K where K: "add_new_leaf_slot self key (Some p) = Some (self\<lparr>fork_infos := K\<rparr>)"
        "fork_ok (stake_at es ge) (self\<lparr>fork_infos := K\<rparr>)" "dom K = insert key (dom (fork_infos self))" by blast
      then have "self' = self\<lparr>fork_infos := K\<rparr>" using step_leaf(5) by simp
      then show ?thesis using K(2,3) step_leaf(3) by (intro keep [of self' key]) simp_all
    next
      case False
      then show ?thesis using step_leaf inv by (simp add: add_new_leaf_slot_def)
    qed
  next
    case (step_votes votes best)
    from add_votes_ok [OF ok step_votes(1)] step_votes(2) have "fork_ok (stake_at es ge) self'" "same_shape (fork_infos self) (fork_infos self')" by auto
    then show ?thesis using wf_root_in [OF wf] same_shape_dom [of "fork_infos self" "fork_infos self'"] by (intro keep [of self' "tree_root self"]) auto
  next
    case (step_root q)
    have q: "q \<in> dom (fork_infos self)" using step_root(1) unfolding contains_dom .
    from set_tree_root_ok [OF ok q] step_root(2) have s: "self' = self\<lparr>fork_infos := reroot (fork_infos self) q, tree_root := q\<rparr>" "fork_ok (stake_at es ge) self'" by auto
    have "dom (fork_infos self') \<subseteq> insert q (dom (fork_infos self))" using subtree_dom [OF wf q] reroot_facts(1) [OF wf q] s(1) by auto
    then show ?thesis using q by (intro keep [OF s(2)]) blast+
  next
    case (step_parent q)
    have q: "q \<notin> dom (fork_infos self)" "fst q < fst (tree_root self)" using step_parent(4) by (auto simp: add_root_parent_def split: if_splits)
    have "candidate (fork_infos self) (tree_root self)" using step_parent(1) by (auto simp: is_candidate_def)
    from add_root_parent_ok [OF ok q step_parent(3) this] step_parent(4) have s: "self' = self\<lparr>fork_infos := with_root (fork_infos self) (tree_root self) q, tree_root := q\<rparr>"
      "fork_ok (stake_at es ge) self'" by auto
    have "dom (fork_infos self') \<subseteq> insert q (dom (fork_infos self))" using with_root_facts(1) [OF wf q(1)] s(1) by simp
    then show ?thesis using step_parent(2) by (intro keep [OF s(2)]) blast+
  next
    case (step_invalid key)
    show ?thesis
    proof (cases "fork_infos self key")
      case None
      then show ?thesis using step_invalid inv by (simp add: mark_fork_invalid_candidate_def)
    next
      case (Some i)
      then have key: "key \<in> dom (fork_infos self)" "\<not> confirmed (fork_infos self) key" using step_invalid by (auto simp: mark_fork_invalid_candidate_def split: if_splits)
      from mark_invalid_ok [OF ok key(1) zero key(2)] step_invalid have s: "fork_ok (stake_at es ge) self'" "same_shape (fork_infos self) (fork_infos self')" by auto
      show ?thesis using key(1) same_shape_dom [OF s(2)] by (intro keep [OF s(1), of key]) blast+
    qed
  next
    case (step_valid key newly)
    have key: "key \<in> dom (fork_infos self)" using step_valid(1) unfolding contains_dom .
    from mark_valid_ok [OF ok key zero] step_valid(2) have s: "fork_ok (stake_at es ge) self'" "same_shape (fork_infos self) (fork_infos self')" by auto
    show ?thesis using key same_shape_dom [OF s(2)] by (intro keep [OF s(1), of key]) blast+
  qed
qed

interpretation fork_tree: invariant_system "fork_init default_hash" "fork_step default_hash es ge" "fork_inv default_hash es ge"
  for default_hash :: "'h::linorder" and es :: "u64 \<rightharpoonup> ('p \<Rightarrow> u64)" and ge :: "slot \<Rightarrow> u64"
  by unfold_locales (rule fork_init_inv, assumption, rule fork_step_inv)


section \<open>Weights\<close>

lemma weight_is_sum:
  assumes wf: "wf_tree I r" and st: "\<forall>k \<in> dom I. stake_ok I k"
  shows "k \<in> dom I \<longrightarrow> weight I k = (\<Sum>x \<in> subtree I k. stake_of I x)"
proof (induction k rule: tree_induct [OF wf])
  case (1 k)
  show ?case
  proof
    assume k: "k \<in> dom I"
    have "(\<Sum>c \<in> children I k. weight I c) = (\<Sum>c \<in> children I k. \<Sum>x \<in> subtree I c. stake_of I x)"
      using 1 wf_child [OF wf, of _ k] by (intro sum.cong refl) blast
    then show "weight I k = (\<Sum>x \<in> subtree I k. stake_of I x)" using st k subtree_sum [OF wf k, of "stake_of I"] unfolding stake_ok_def by simp
  qed
qed

lemma vote_sums:
  assumes "finite S" "finite (dom lv)"
  shows "(\<Sum>x \<in> S. vote_sum stake lv x) = (\<Sum>v | \<exists>x \<in> S. lv v = Some x. stake v (fst (the (lv v))))"
proof -
  have fin: "finite {v. lv v = Some x}" for x by (rule finite_subset [OF _ assms(2)]) auto
  have "(\<Sum>x \<in> S. vote_sum stake lv x) = (\<Sum>x \<in> S. \<Sum>v | lv v = Some x. stake v (fst (the (lv v))))"
    unfolding vote_sum_def by (intro sum.cong refl) simp
  also have "\<dots> = (\<Sum>v \<in> (\<Union>x \<in> S. {v. lv v = Some x}). stake v (fst (the (lv v))))"
    using assms(1) fin by (intro sum.UNION_disjoint [symmetric]) auto
  also have "(\<Union>x \<in> S. {v. lv v = Some x}) = {v. \<exists>x \<in> S. lv v = Some x}" by blast
  finally show ?thesis .
qed

text \<open>C5. In every state that the fork choice reaches from a new tree by adding blocks, votes and root parents, moving the root and
  marking forks, the weight of a block is the stake (a sum of 64-bit words) of the validators whose latest vote is for the block or a descendant of it,
  each counted once and at the stake of the epoch of its vote. The latest votes are those given in batches: a vote not below the root replaces the
  latest vote of its validator if it is newer, with the smaller hash winning in the same slot.
  A block is added before a vote for it is counted, a batch has one vote per validator, a root with a
  new parent is a candidate, no key has the default hash, and all batches see the same stakes. Splitting, pruning and merging trees are not among
  the operations.\<close>

theorem subtree_weight_is_latest_votes:
  assumes "fork_init default_hash init" "(fork_step default_hash es ge)\<^sup>*\<^sup>* init self" "contains_block self k"
  shows "stake_voted_subtree self k =
      Some (\<Sum>v | \<exists>x. latest_votes self v = Some x \<and> desc (fork_infos self) k x. stake_at es ge v (fst (the (latest_votes self v)))) \<and>
    (\<forall>votes. distinct (map fst votes) \<longrightarrow> (\<exists>best self'. add_votes self votes es ge = Some (best, self') \<and>
      latest_votes self' = fold (latest_vote (fst (tree_root self))) votes (latest_votes self)))"
proof -
  let ?I = "fork_infos self"
  have inv: "fork_inv default_hash es ge self" by (rule fork_tree.reachable_inv [OF assms(1,2)])
  then have ok: "fork_ok (stake_at es ge) self" unfolding fork_inv_def by blast
  from inv have tree: "tree_ok ?I (tree_root self)" and fin: "finite (dom (latest_votes self))"
    and at: "\<forall>k \<in> dom ?I. stake_of ?I k = vote_sum (stake_at es ge) (latest_votes self) k" unfolding fork_inv_def fork_ok_def by blast+
  have wf: "wf_tree ?I (tree_root self)" using tree unfolding tree_ok_def by blast
  have st: "\<forall>k \<in> dom ?I. stake_ok ?I k" using tree unfolding tree_ok_def node_ok_def by blast
  have k: "k \<in> dom ?I" using assms(3) unfolding contains_dom .
  have "weight ?I k = (\<Sum>x \<in> subtree ?I k. stake_of ?I x)" using weight_is_sum [OF wf st] k by blast
  also have "\<dots> = (\<Sum>x \<in> subtree ?I k. vote_sum (stake_at es ge) (latest_votes self) x)" using at subtree_dom [OF wf k] by (intro sum.cong refl) blast
  also have "\<dots> = (\<Sum>v | \<exists>x \<in> subtree ?I k. latest_votes self v = Some x. stake_at es ge v (fst (the (latest_votes self v))))"
    by (rule vote_sums [OF subtree_finite [OF wf k] fin])
  also have "{v. \<exists>x \<in> subtree ?I k. latest_votes self v = Some x} = {v. \<exists>x. latest_votes self v = Some x \<and> desc ?I k x}" by (auto simp: subtree_def)
  finally have "stake_voted_subtree self k =
      Some (\<Sum>v | \<exists>x. latest_votes self v = Some x \<and> desc ?I k x. stake_at es ge v (fst (the (latest_votes self v))))"
    using k by (auto simp: stake_voted_subtree_def)
  then show ?thesis using add_votes_ok [OF ok] by blast
qed

section \<open>The heaviest fork\<close>

text \<open>From a block to the heaviest candidate among its children, until there is none.\<close>

inductive heaviest_path :: "'h::linorder fork_map \<Rightarrow> 'h slot_hash_key \<Rightarrow> 'h slot_hash_key \<Rightarrow> bool" for I where
  path_end: "\<forall>c \<in> children I k. \<not> candidate I c \<Longrightarrow> heaviest_path I k k"
| path_step: "heaviest_of I (children I k) c \<Longrightarrow> heaviest_path I c b \<Longrightarrow> heaviest_path I k b"

lemma best_is_path:
  assumes wf: "wf_tree I r" and n: "\<forall>k \<in> dom I. node_ok I k"
  shows "k \<in> dom I \<longrightarrow> candidate I k \<longrightarrow> heaviest_path I k (bests I k) \<and> candidate I (bests I k) \<and> bests I k \<in> dom I"
proof (induction k rule: tree_induct [OF wf])
  case (1 k)
  show ?case
  proof (intro impI)
    assume k: "k \<in> dom I" and cand: "candidate I k"
    have best: "best_ok I k" using n k cand unfolding node_ok_def by blast
    show "heaviest_path I k (bests I k) \<and> candidate I (bests I k) \<and> bests I k \<in> dom I"
    proof (cases "\<exists>c \<in> children I k. candidate I c")
      case True
      then obtain c where c: "heaviest_of I (children I k) c" "bests I k = bests I c" using best unfolding best_ok_def by auto
      then have cc: "c \<in> children I k" "candidate I c" unfolding heaviest_of_def by blast+
      then have "heaviest_path I c (bests I c) \<and> candidate I (bests I c) \<and> bests I c \<in> dom I" using 1 wf_child [OF wf cc(1)] by blast
      then show ?thesis using c by (auto intro: path_step)
    next
      case False
      then have b: "bests I k = k" using best unfolding best_ok_def by simp
      have "heaviest_path I k k" using False by (intro path_end) blast
      then show ?thesis using b cand k by simp
    qed
  qed
qed

text \<open>C6. In every state that the fork choice reaches by these operations, if the root is a candidate, then the best slot overall is the end of
  the path that goes from the root to the heaviest candidate among the children, the smallest key first among equals, and on from there until
  no child is a candidate; it is a candidate itself.\<close>

theorem best_slot_is_heaviest_path:
  assumes "fork_init default_hash init" "(fork_step default_hash es ge)\<^sup>*\<^sup>* init self" "is_candidate self (tree_root self) = Some True"
  shows "\<exists>best. best_overall_slot self = Some best \<and> heaviest_path (fork_infos self) (tree_root self) best \<and> is_candidate self best = Some True"
proof -
  let ?I = "fork_infos self" and ?r = "tree_root self"
  have "fork_inv default_hash es ge self" by (rule fork_tree.reachable_inv [OF assms(1,2)])
  then have tree: "tree_ok ?I ?r" unfolding fork_inv_def fork_ok_def by blast
  then have wf: "wf_tree ?I ?r" and n: "\<forall>k \<in> dom ?I. node_ok ?I k" unfolding tree_ok_def by blast+
  have r: "?r \<in> dom ?I" by (rule wf_root_in [OF wf])
  have "candidate ?I ?r" using assms(3) by (auto simp: is_candidate_def)
  then have b: "heaviest_path ?I ?r (bests ?I ?r)" "candidate ?I (bests ?I ?r)" "bests ?I ?r \<in> dom ?I" using best_is_path [OF wf n] r by blast+
  have "best_overall_slot self = Some (bests ?I ?r)" using r by (auto simp: best_overall_slot_def best_slot_def)
  moreover have "is_candidate self (bests ?I ?r) = Some True" using b(2,3) by (auto simp: is_candidate_def)
  ultimately show ?thesis using b(1) by blast
qed


section \<open>Duplicate blocks\<close>

lemma invalid_down: "desc I k x \<Longrightarrow> tree_ok I r \<Longrightarrow> invalid I k \<noteq> None \<Longrightarrow> invalid I x \<noteq> None"
proof (induction rule: desc.induct)
  case (desc_step c k d)
  have "\<forall>p a. \<forall>c \<in> children I p. invalid I p = Some a \<longrightarrow> (\<exists>b. invalid I c = Some b \<and> a \<le> b)" using desc_step.prems(1) unfolding tree_ok_def by blast
  then have "invalid I c \<noteq> None" using desc_step.hyps(1) desc_step.prems(2) by (metis option.exhaust option.distinct(1))
  then show ?case using desc_step.IH desc_step.prems(1) by blast
qed simp

text \<open>C13. In every state that the fork choice reaches by these operations, marking the fork at a block that is not confirmed as invalid
  succeeds, and afterwards neither the block nor a descendant of it is a candidate; if the root is still a candidate, the best slot overall is outside the fork.\<close>

theorem invalid_fork_is_excluded:
  assumes "fork_init default_hash init" "(fork_step default_hash es ge)\<^sup>*\<^sup>* init self" "is_duplicate_confirmed self key = Some False"
  shows "\<exists>self'. mark_fork_invalid_candidate default_hash self key = Some self' \<and> tree_root self' = tree_root self \<and>
    (\<forall>x. desc (fork_infos self) key x \<longrightarrow> is_candidate self' x = Some False) \<and>
    (is_candidate self' (tree_root self') = Some True \<longrightarrow> (\<exists>best. best_overall_slot self' = Some best \<and> \<not> desc (fork_infos self) key best))"
proof -
  let ?I = "fork_infos self" and ?r = "tree_root self"
  have inv: "fork_inv default_hash es ge self" by (rule fork_tree.reachable_inv [OF assms(1,2)])
  then have ok: "fork_ok (stake_at es ge) self" unfolding fork_inv_def by blast
  then have wf: "wf_tree ?I ?r" unfolding fork_ok_def tree_ok_def by blast
  have key: "key \<in> dom ?I" "\<not> confirmed ?I key" using assms(3) by (auto simp: is_duplicate_confirmed_def)
  obtain J where J: "mark_fork_invalid_candidate default_hash self key = Some (self\<lparr>fork_infos := J\<rparr>)" "fork_ok (stake_at es ge) (self\<lparr>fork_infos := J\<rparr>)"
    "same_shape ?I J" "invalid J key \<noteq> None" using mark_invalid_ok [OF ok key(1) fork_inv_default [OF inv] key(2)] by blast
  let ?self = "self\<lparr>fork_infos := J\<rparr>"
  have tree: "tree_ok J ?r" using J(2) unfolding fork_ok_def by simp
  then have wfJ: "wf_tree J ?r" and n: "\<forall>k \<in> dom J. node_ok J k" unfolding tree_ok_def by blast+
  have out: "is_candidate ?self x = Some False" if x: "desc ?I key x" for x
  proof -
    have "desc J key x" using x same_shape_desc [OF J(3)] by simp
    then have "invalid J x \<noteq> None" by (rule invalid_down [OF _ tree J(4)])
    moreover have "x \<in> dom J" using desc_dom [OF x wf key(1)] same_shape_dom [OF J(3)] by simp
    ultimately show ?thesis by (auto simp: is_candidate_def fi_is_candidate_def)
  qed
  have "\<exists>best. best_overall_slot ?self = Some best \<and> \<not> desc ?I key best" if root: "is_candidate ?self ?r = Some True"
  proof -
    have "candidate J ?r" using root by (auto simp: is_candidate_def)
    then have b: "candidate J (bests J ?r)" "bests J ?r \<in> dom J" using best_is_path [OF wfJ n] wf_root_in [OF wfJ] by blast+
    then have "is_candidate ?self (bests J ?r) = Some True" by (auto simp: is_candidate_def)
    then have "\<not> desc ?I key (bests J ?r)" using out by (metis option.inject)
    moreover have "best_overall_slot ?self = Some (bests J ?r)" using wf_root_in [OF wfJ] by (auto simp: best_overall_slot_def best_slot_def)
    ultimately show ?thesis by blast
  qed
  then show ?thesis using J(1) out by (intro exI [of _ ?self]) simp
qed

text \<open>C21. In every state that the fork choice reaches by these operations, marking the fork at a block of the tree as valid succeeds,
  gives exactly the block and those of its ancestors that were not confirmed before, and afterwards the block and all its ancestors are
  confirmed candidates.\<close>

theorem valid_fork_is_confirmed:
  assumes "fork_init default_hash init" "(fork_step default_hash es ge)\<^sup>*\<^sup>* init self" "contains_block self key"
  shows "\<exists>newly self'. mark_fork_valid_candidate default_hash self key = Some (newly, self') \<and>
    set newly = {x. desc (fork_infos self) x key \<and> is_duplicate_confirmed self x = Some False} \<and>
    (\<forall>x. desc (fork_infos self) x key \<longrightarrow> is_duplicate_confirmed self' x = Some True \<and> is_candidate self' x = Some True)"
proof -
  let ?I = "fork_infos self" and ?r = "tree_root self"
  have inv: "fork_inv default_hash es ge self" by (rule fork_tree.reachable_inv [OF assms(1,2)])
  then have ok: "fork_ok (stake_at es ge) self" unfolding fork_inv_def by blast
  have key: "key \<in> dom ?I" using assms(3) unfolding contains_dom .
  obtain newly J where J: "mark_fork_valid_candidate default_hash self key = Some (newly, self\<lparr>fork_infos := J\<rparr>)" "fork_ok (stake_at es ge) (self\<lparr>fork_infos := J\<rparr>)"
    "same_shape ?I J" "confirmed J key" "set newly = {x. desc ?I x key \<and> \<not> confirmed ?I x}" using mark_valid_ok [OF ok key fork_inv_default [OF inv]] by blast
  let ?self = "self\<lparr>fork_infos := J\<rparr>"
  have tree: "tree_ok J ?r" and m: "marks_ok J" using J(2) unfolding fork_ok_def tree_ok_def by simp_all
  have up: "x \<in> dom ?I" if "desc ?I x key" for x using that key children_dom [of _ ?I x] by (cases rule: desc.cases) auto
  have new: "is_duplicate_confirmed ?self x = Some True \<and> is_candidate ?self x = Some True" if x: "desc ?I x key" for x
  proof -
    have xd: "x \<in> dom J" using up [OF x] same_shape_dom [OF J(3)] by simp
    have "desc J x key" using x same_shape_desc [OF J(3)] by simp
    then have c: "confirmed J x" by (rule confirmed_up [OF _ tree xd J(4)])
    then have "invalid J x = None" using m xd unfolding marks_ok_def by blast
    then show ?thesis using c xd by (auto simp: is_candidate_def is_duplicate_confirmed_def fi_is_candidate_def)
  qed
  have "is_duplicate_confirmed self x = Some False \<longleftrightarrow> \<not> confirmed ?I x" if "desc ?I x key" for x using up [OF that] by (auto simp: is_duplicate_confirmed_def)
  then have "set newly = {x. desc ?I x key \<and> is_duplicate_confirmed self x = Some False}" using J(5) by auto
  then show ?thesis using J(1) new by (intro exI [of _ newly] exI [of _ ?self]) simp
qed

section \<open>No panics\<close>

text \<open>C10. In every state that the fork choice reaches by these operations, the operations return when they are used as intended,
  although they walk along parents and children and assert on the way: adding a block with a higher slot below one of the tree before a vote for
  it is counted, a batch with one vote per validator, moving the root to a block of the tree, giving the root a parent with a lower slot,
  marking a fork that is not confirmed invalid, and marking a fork of the tree valid.\<close>

theorem fork_choice_never_panics:
  assumes "fork_init default_hash init" "(fork_step default_hash es ge)\<^sup>*\<^sup>* init self"
  shows "(contains_block self p \<and> fst p < fst key \<and> key \<notin> ran (latest_votes self) \<longrightarrow> add_new_leaf_slot self key (Some p) \<noteq> None) \<and>
    (distinct (map fst votes) \<longrightarrow> add_votes self votes es ge \<noteq> None) \<and>
    (contains_block self q \<longrightarrow> set_tree_root self q \<noteq> None) \<and>
    (\<not> contains_block self q \<and> fst q < fst (tree_root self) \<longrightarrow> add_root_parent self q \<noteq> None) \<and>
    (is_duplicate_confirmed self key \<noteq> Some True \<longrightarrow> mark_fork_invalid_candidate default_hash self key \<noteq> None) \<and>
    (contains_block self key \<longrightarrow> mark_fork_valid_candidate default_hash self key \<noteq> None)"
proof -
  let ?I = "fork_infos self" and ?r = "tree_root self"
  have inv: "fork_inv default_hash es ge self" by (rule fork_tree.reachable_inv [OF assms(1,2)])
  then have ok: "fork_ok (stake_at es ge) self" unfolding fork_inv_def by blast
  then have wf: "wf_tree ?I ?r" unfolding fork_ok_def tree_ok_def by blast
  have "add_new_leaf_slot self key (Some p) \<noteq> None" if "contains_block self p" "fst p < fst key" "key \<notin> ran (latest_votes self)"
  proof (cases "?I key = None")
    case True
    then have "fresh ?I key p" using that(1,2) by (simp add: fresh_def contains_dom)
    from add_new_leaf_ok [OF ok this that(3)] show ?thesis by auto
  qed (simp add: add_new_leaf_slot_def)
  moreover have "add_votes self votes es ge \<noteq> None" if "distinct (map fst votes)" using add_votes_ok [OF ok that] by auto
  moreover have "set_tree_root self q \<noteq> None" if "contains_block self q" using set_tree_root_ok [OF ok] that unfolding contains_dom by blast
  moreover have "add_root_parent self q \<noteq> None" if "\<not> contains_block self q" "fst q < fst ?r"
    using that wf_root_in [OF wf] by (auto simp: add_root_parent_def contains_block_def)
  moreover have "mark_fork_invalid_candidate default_hash self key \<noteq> None" if "is_duplicate_confirmed self key \<noteq> Some True"
  proof (cases "?I key")
    case (Some i)
    then have "key \<in> dom ?I" "\<not> confirmed ?I key" using that by (auto simp: is_duplicate_confirmed_def)
    from mark_invalid_ok [OF ok this(1) fork_inv_default [OF inv] this(2)] show ?thesis by auto
  qed (simp add: mark_fork_invalid_candidate_def)
  moreover have "mark_fork_valid_candidate default_hash self key \<noteq> None" if "contains_block self key"
    using mark_valid_ok [OF ok _ fork_inv_default [OF inv]] that unfolding contains_dom by blast
  ultimately show ?thesis by blast
qed

section \<open>Witnesses\<close>

definition sample_block :: "nat \<Rightarrow> u64 \<times> nat \<Rightarrow> (u64 \<times> nat) option \<Rightarrow> (u64 \<times> nat) set \<Rightarrow> bool \<Rightarrow> nat fork_info" where
  "sample_block h b p cs d =
     \<lparr>fi_stake_voted_at = 0, fi_stake_voted_subtree = 0, fi_height = h, fi_best_slot = b, fi_deepest_slot = b, fi_parent = p,
      fi_children = cs, fi_latest_invalid_ancestor = None, fi_is_duplicate_confirmed = d\<rparr>"

definition sample_root :: "(nat, nat) fork_choice" where
  "sample_root = \<lparr>fork_infos = [(0, 1) \<mapsto> sample_block 1 (0, 1) None {} True], latest_votes = Map.empty, tree_root = (0, 1)\<rparr>"

definition sample_fork :: "(nat, nat) fork_choice" where
  "sample_fork = \<lparr>fork_infos = [(1, 2) \<mapsto> sample_block 1 (1, 2) (Some (0, 1)) {} False, (0, 1) \<mapsto> sample_block (Suc 1) (1, 2) None {(1, 2)} True],
     latest_votes = Map.empty, tree_root = (0, 1)\<rparr>"

abbreviation sample_stakes :: "u64 \<rightharpoonup> (nat \<Rightarrow> u64)" where
  "sample_stakes \<equiv> \<lambda>epoch. Some (\<lambda>v. 5)"

abbreviation sample_epoch :: "slot \<Rightarrow> u64" where
  "sample_epoch \<equiv> \<lambda>s. 0"

lemma sample_root_init: "fork_init 0 sample_root"
  unfolding fork_init_def
  by (rule exI [of _ "(0, 1)"]) (simp add: fc_new_def add_new_leaf_slot_def new_leaf_info_def Let_def sample_root_def sample_block_def)

lemma sample_leaf: "add_new_leaf_slot sample_root (1, 2) (Some (0, 1)) = Some sample_fork"
  by (simp add: sample_root_def sample_fork_def sample_block_def add_new_leaf_slot_def new_leaf_info_def latest_invalid_ancestor_def propagate_new_leaf_def best_slot_def
      is_best_child_def is_deepest_child_def stake_voted_subtree_def fc_height_def parent_of_def no_child_beats_def children_of_def fi_is_candidate_def
      cmp_def propagate_best.simps [of _ _ None] propagate_best.simps [of _ _ "Some x" for x] propagate_deepest.simps [of _ None]
      propagate_deepest.simps [of _ "Some x" for x] Let_def)

lemma sample_reached: "(fork_step 0 sample_stakes sample_epoch)\<^sup>*\<^sup>* sample_root sample_fork"
  by (rule r_into_rtranclp, rule fork_step.step_leaf [OF _ _ _ _ sample_leaf]) (simp_all add: sample_root_def contains_block_def)

lemma sample_blocks: "contains_block sample_fork (0, 1)" "contains_block sample_fork (1, 2)" "is_duplicate_confirmed sample_fork (1, 2) = Some False"
  "is_candidate sample_fork (tree_root sample_fork) = Some True" "best_overall_slot sample_fork = Some (1, 2)"
  by (simp_all add: sample_fork_def sample_block_def contains_block_def is_duplicate_confirmed_def is_candidate_def fi_is_candidate_def
      best_overall_slot_def best_slot_def)

lemma sample_desc: "desc (fork_infos sample_fork) (0, 1) (1, 2)"
  by (rule desc_step [OF _ desc_self]) (simp add: sample_fork_def sample_block_def children_def)

lemma sample_vote:
  "\<exists>best self'. add_votes sample_fork [(7, (1, 2))] sample_stakes sample_epoch = Some (best, self') \<and> latest_votes self' = [7 \<mapsto> (1, 2)] \<and>
     contains_block self' (0, 1) \<and> desc (fork_infos self') (0, 1) (1, 2)"
proof -
  have "fork_inv 0 sample_stakes sample_epoch sample_fork" by (rule fork_tree.reachable_inv [OF sample_root_init sample_reached])
  then have ok: "fork_ok (stake_at sample_stakes sample_epoch) sample_fork" unfolding fork_inv_def by blast
  have "distinct (map fst [(7 :: nat, (1 :: u64, 2 :: nat))])" by simp
  from add_votes_ok [OF ok this] obtain self' where self': "add_votes sample_fork [(7, (1, 2))] sample_stakes sample_epoch =
      Some (fi_best_slot (node (fork_infos self') (tree_root self')), self')" "same_shape (fork_infos sample_fork) (fork_infos self')"
    "latest_votes self' = fold (latest_vote (fst (tree_root sample_fork))) [(7, (1, 2))] (latest_votes sample_fork)" by blast
  have "latest_votes self' = [7 \<mapsto> (1, 2)]" unfolding self'(3) by (simp add: latest_vote_def newer_def sample_fork_def)
  moreover have "contains_block self' (0, 1)" using sample_blocks(1) same_shape_dom [OF self'(2)] unfolding contains_dom by simp
  moreover have "desc (fork_infos self') (0, 1) (1, 2)" using sample_desc same_shape_desc [OF self'(2)] by simp
  ultimately show ?thesis using self'(1) by blast
qed

theorem subtree_weight_is_latest_votes_witness:
  "\<exists>best self'. add_votes sample_fork [(7, (1, 2))] sample_stakes sample_epoch = Some (best, self') \<and> stake_voted_subtree self' (0, 1) = Some 5"
proof -
  obtain best self' where v: "add_votes sample_fork [(7, (1, 2))] sample_stakes sample_epoch = Some (best, self')"
    "latest_votes self' = [7 \<mapsto> (1, 2)]" "contains_block self' (0, 1)" "desc (fork_infos self') (0, 1) (1, 2)" using sample_vote by blast
  have "fork_step 0 sample_stakes sample_epoch sample_fork self'" by (rule fork_step.step_votes [OF _ v(1)]) simp
  then have r: "(fork_step 0 sample_stakes sample_epoch)\<^sup>*\<^sup>* sample_root self'" by (rule rtranclp.rtrancl_into_rtrancl [OF sample_reached])
  have "{v. \<exists>x. latest_votes self' v = Some x \<and> desc (fork_infos self') (0, 1) x} = {7}" unfolding v(2) using v(4) by auto
  then have "stake_voted_subtree self' (0, 1) = Some 5"
    using subtree_weight_is_latest_votes [OF sample_root_init r v(3)] by (simp add: v(2) stake_at_def)
  then show ?thesis using v(1) by blast
qed

theorem best_slot_is_heaviest_path_witness:
  "heaviest_path (fork_infos sample_fork) (tree_root sample_fork) (1, 2)"
  using best_slot_is_heaviest_path [OF sample_root_init sample_reached sample_blocks(4)] unfolding sample_blocks(5) by simp

theorem invalid_fork_is_excluded_witness:
  "\<exists>self'. mark_fork_invalid_candidate 0 sample_fork (1, 2) = Some self' \<and> is_candidate self' (1, 2) = Some False"
  using invalid_fork_is_excluded [OF sample_root_init sample_reached sample_blocks(3)] desc_self by blast

theorem valid_fork_is_confirmed_witness:
  "\<exists>newly self'. mark_fork_valid_candidate 0 sample_fork (1, 2) = Some (newly, self') \<and> (1, 2) \<in> set newly \<and>
     is_duplicate_confirmed self' (1, 2) = Some True"
proof -
  from valid_fork_is_confirmed [OF sample_root_init sample_reached sample_blocks(2)] obtain newly self' where v:
    "mark_fork_valid_candidate 0 sample_fork (1, 2) = Some (newly, self')"
    "set newly = {x. desc (fork_infos sample_fork) x (1, 2) \<and> is_duplicate_confirmed sample_fork x = Some False}"
    "\<forall>x. desc (fork_infos sample_fork) x (1, 2) \<longrightarrow> is_duplicate_confirmed self' x = Some True \<and> is_candidate self' x = Some True" by blast
  moreover have "(1, 2) \<in> set newly" unfolding v(2) using sample_blocks(3) desc_self by blast
  moreover have "is_duplicate_confirmed self' (1, 2) = Some True" using v(3) desc_self by blast
  ultimately show ?thesis by blast
qed

theorem fork_choice_never_panics_witness:
  "add_new_leaf_slot sample_fork (2, 3) (Some (1, 2)) \<noteq> None \<and> add_votes sample_fork [(7, (1, 2))] sample_stakes sample_epoch \<noteq> None \<and>
   set_tree_root sample_fork (1, 2) \<noteq> None \<and> mark_fork_valid_candidate 0 sample_fork (1, 2) \<noteq> None"
proof -
  have "(2, 3) \<notin> ran (latest_votes sample_fork)" by (simp add: sample_fork_def)
  with fork_choice_never_panics [OF sample_root_init sample_reached, of "(1, 2)" "(2, 3)" "[(7, (1, 2))]" "(1, 2)"]
    fork_choice_never_panics [OF sample_root_init sample_reached, of "(1, 2)" "(1, 2)" "[]" "(1, 2)"] sample_blocks show ?thesis by simp
qed

end
