(* ===== verification/Spec2Isabelle.thy ===== *)
theory Spec2Isabelle
  imports Scheduler_Props Account_Locks Thread_Locks Tx_Resolved Runtime_Tx Tracker_Correct Fees Ancestors Vote_Custody
    Shuffle_Props Poh_Correct Blockhash_Queue Fork_Props
begin

text \<open>
  A verification library for the Tachyon validator: the path of a transaction from a packet to a scheduled, locked and
  costed unit of work, the queue of recent blockhashes and the set of ancestors that the accounts database reads through,
  the entries by which a leader records transactions, the votes by which validators agree on a fork, and the shuffle by which
  they choose peers.

  \<^bold>\<open>Conventions.\<close> Every definition is a shallow embedding of the Rust source, executable where the code
  is. \<open>usize\<close> and \<open>u64\<close> are 64-bit words; plain arithmetic wraps, as in the release profile, and checked or
  saturating arithmetic is written out (\<open>Rust_Prelude\<close>). In the theories on trees, entries and the shuffle, positions in vectors are natural numbers. A panic is \<open>None\<close>, a \<open>Result\<close> is a sum with
  \<open>Inl\<close> for \<open>Err\<close>, and \<open>outcome\<close> has both. Code of other crates is an argument: a record of functions
  (\<open>sdk\<close>, \<open>layout\<close>, \<open>fee_api\<close>, \<open>bitvec\<close>, \<open>lockout_api\<close>, \<open>vote_api\<close>, \<open>account_api\<close>, \<open>poh_api\<close>, \<open>hardware\<close>) with a predicate ending in \<open>_ok\<close> that states its
  documented behaviour. State machines are step relations; the locale \<open>invariant_system\<close> gives the invariant of
  all their reachable states and is interpreted for each of them.

  \<^bold>\<open>Unified scheduler\<close> (\<^verbatim>\<open>src/unified-scheduler-logic/src/lib.rs\<close>). \<open>Unified_Scheduler\<close> has the usage queues,
  tasks and \<open>SchedulingStateMachine\<close> with all operations. \<open>Scheduler_Spec\<close> states what the queue of one address promises
  (the locale of admission), \<open>Scheduler_Machine\<close> and \<open>Scheduler_Correct\<close> show that every operation keeps the invariant
  that ties queues and counters to the active tasks in arrival order, and \<open>Scheduler_Props\<close> holds the
  properties: running tasks never conflict, a task is ready exactly when no earlier active one conflicts, no panic, and
  draining.

  \<^bold>\<open>Account locks\<close> (\<^verbatim>\<open>src/accounts-db/src/account_locks.rs\<close>, the lock functions of \<^verbatim>\<open>src/accounts-db/src/accounts.rs\<close>, and
  \<open>ThreadAwareAccountLocks\<close> of the banking stage). \<open>Account_Locks\<close> and \<open>Thread_Locks\<close> (with the word-sized \<open>Thread_Set\<close>)
  show that tables represent the multiset of held locks (\<open>Held_Locks\<close>), that locking is all or nothing, and that
  holders or threads never conflict.

  \<^bold>\<open>Transaction view\<close> (\<^verbatim>\<open>src/transaction-view/src\<close>). \<open>Tx_Bytes\<close>, \<open>Tx_Frames\<close>, \<open>Tx_View\<close> and \<open>Tx_Resolved\<close> model the
  readers, the frames, the view with its sanitization and the resolved view. \<open>Tx_Format\<close> is the wire format; the locale
  \<open>format_reader\<close> is the contract of a reader for a part of it. \<open>Tx_Correct\<close> and \<open>Tx_Sanitize\<close> show that parsing
  succeeds exactly on the encodings, that accessors give the parts back, and what sanitization accepts.

  \<^bold>\<open>Budget, cost and fees.\<close> \<open>Sdk\<close> holds what is used of other crates and the feature set
  (\<^verbatim>\<open>src/feature-set\<close>); \<open>Builtin_Costs\<close> (\<^verbatim>\<open>src/builtins-default-costs\<close>), \<open>Compute_Budget\<close> with \<open>Budget_Correct\<close>
  (\<^verbatim>\<open>src/compute-budget-instruction\<close>, \<^verbatim>\<open>src/compute-budget\<close>), \<open>Runtime_Tx\<close> (\<^verbatim>\<open>src/runtime-transaction\<close>,
  \<^verbatim>\<open>src/svm-transaction\<close>), \<open>Cost_Model\<close> with \<open>Cost_Correct\<close> and \<open>Cost_Tracker\<close> with \<open>Tracker_Correct\<close> (\<^verbatim>\<open>src/cost-model\<close>), and
  \<open>Fees\<close> (\<^verbatim>\<open>src/fee\<close>). They show which requests are accepted, what limits a transaction gets, that estimates
  exist and are bounded, that the tracker's counters are sums over the counted transactions, which only corrections upwards and new
  limits can bring beyond the limits, and what a fee is.

  \<^bold>\<open>Ancestors\<close> (\<^verbatim>\<open>src/accounts-db/src/rolling_bit_field.rs\<close>, \<^verbatim>\<open>src/accounts-db/src/ancestors.rs\<close>).
  \<open>Rolling_Bit_Field\<close> has the operations, \<open>Rolling_Correct\<close> shows that they are those of a set and
  under which condition, and \<open>Ancestors\<close> is a client of the contract \<open>growing_set\<close>.

  \<^bold>\<open>Votes\<close> (\<^verbatim>\<open>src/core/src/consensus/tower_vote_state.rs\<close>, \<^verbatim>\<open>src/programs/vote/src/vote_state/mod.rs\<close>). \<open>Vote_Tower\<close> is the tower
  of a validator: it is well formed and no vote is taken back within its lockout. \<open>Vote_State\<close> has the checks
  and transitions of the vote program; \<open>Vote_Check\<close> decides exactly which proposed towers pass, \<open>Vote_Correct\<close> shows that
  accepted towers never roll back and that a tower of \<open>Vote_Tower\<close> on slots of the slot hashes is accepted, \<open>Vote_Slots\<close> treats votes for
  lists of slots. \<open>Vote_Accounts\<close> has the handlers on vote accounts and the entry point
  (\<^verbatim>\<open>src/programs/vote/src/vote_processor.rs\<close>), and \<open>Vote_Custody\<close> shows who can take lamports out of an account.

  \<^bold>\<open>Fork choice\<close> (\<^verbatim>\<open>src/core/src/consensus/heaviest_subtree_fork_choice.rs\<close>, \<^verbatim>\<open>src/core/src/consensus/tree_diff.rs\<close>). \<open>Fork_Choice\<close> has the tree of
  blocks with its operations; \<open>Fork_Tree\<close> says when a node agrees with its children; \<open>Fork_Process\<close> shows that processing a batch of update
  operations from the greatest key down restores the agreement. \<open>Fork_Votes\<close>, \<open>Fork_Leaf\<close> with \<open>Fork_Insert\<close>, \<open>Fork_Roots\<close> and \<open>Fork_Marks\<close> show
  that batches of votes, new blocks, new roots and marks keep the invariant. \<open>Fork_Props\<close> has the state machine of these operations and the
  properties: the weight of a block is the stake of the latest votes in its subtree, the best slot is the end of the heaviest path, invalid
  forks are excluded, valid ones confirmed, and nothing panics. Splitting, pruning and merging trees are defined, without properties.

  \<^bold>\<open>Entries and proof of history\<close> (\<^verbatim>\<open>src/merkle-tree\<close>, \<^verbatim>\<open>src/entry/src/poh.rs\<close>, \<^verbatim>\<open>src/entry/src/entry.rs\<close>). \<open>Merkle_Tree\<close> with \<open>Merkle_Correct\<close>
  builds trees and proofs: proofs are complete and, without hash collisions on the inputs computed, sound. \<open>Poh\<close> has the hash chain of a leader and the
  verification of entries one by one, with SIMD kernels and on a GPU; \<open>Poh_Correct\<close> shows that the three agree and that they accept whatever a leader makes.

  \<^bold>\<open>Recent blockhashes\<close> (\<^verbatim>\<open>src/accounts-db/src/blockhash_queue.rs\<close>). \<open>Blockhash_Queue\<close> shows that the queue is a sliding window.

  \<^bold>\<open>Weighted shuffle\<close> (\<^verbatim>\<open>src/gossip/src/weighted_shuffle.rs\<close>). \<open>Weighted_Shuffle\<close> has the operations on the tree of partial sums, \<open>Shuffle_Correct\<close>
  shows that the tree keeps the sums and that the search in it is a linear search, \<open>Shuffle_Props\<close> that the iterator gives a permutation.

  \<^bold>\<open>Termination and bounds.\<close> No definition uses fuel: loops are structural or have a termination proof by a
  measure. The loops of the fork choice along parents and children end only because the blocks form a tree; they are partial functions, and the
  lemmas show that those of adding blocks, votes, roots and marks return in every reachable state. That the loops of \<open>split_off\<close> and \<open>purge_prune\<close>
  return is not shown. Counters stay at their width; where a property needs room in a counter, the bound is a hypothesis.

  \<^bold>\<open>Not modelled.\<close> Threads, channels, files and the network (blockstore, gossip transport, RPC, streamer), the
  external sBPF virtual machine and cryptography, the bank and accounts storage, command line tools, benchmarks and tests.
\<close>

end
